(* ===== verification/Prelude.thy ===== *)
theory Prelude
  imports Main "HOL-Library.Word"
begin

text \<open>
  Shared vocabulary of the development: byte strings, little-endian encodings, verification
  flags, and the generic lemmas on them that the components use.  C++ vectors of
  \<open>unsigned char\<close> are lists of \<open>8 word\<close>; an iterator into a vector is the suffix it
  points at.
\<close>

unbundle bit_operations_syntax

type_synonym byte = "8 word"
type_synonym bytes = "8 word list"

named_theorems size_bounds \<open>bounds on the size of byte strings and stacks\<close>
named_theorems flag_mono \<open>what stays true when a verification flag is dropped\<close>

section \<open>Unsigned counters\<close>

text \<open>Sums of \<open>uint32_t\<close>, \<open>unsigned int\<close> and \<open>uint256\<close> values that are kept as natural numbers wrap around.\<close>

definition nat_u32 :: "nat \<Rightarrow> nat" where
  "nat_u32 n = n mod 2 ^ 32"

definition nat_u256 :: "nat \<Rightarrow> nat" where
  "nat_u256 n = n mod 2 ^ 256"

lemma nat_u32_small: "n < 2 ^ 32 \<Longrightarrow> nat_u32 n = n"
  by (simp add: nat_u32_def)

lemma nat_u256_small: "n < 2 ^ 256 \<Longrightarrow> nat_u256 n = n"
  by (simp add: nat_u256_def)

lemma nat_u32_le: "nat_u32 n \<le> n"
  by (simp add: nat_u32_def)

section \<open>Little-endian values\<close>

text \<open>\<open>le_val\<close> reads a byte string as a little-endian number; \<open>le_bytes n x\<close> writes the \<open>n\<close> low
  bytes of \<open>x\<close>, as \<open>memcpy\<close> from an integer does on the supported (little-endian) hosts.\<close>

fun le_val :: "bytes \<Rightarrow> nat" where
  "le_val [] = 0"
| "le_val (b # bs) = unat b + 256 * le_val bs"

fun le_bytes :: "nat \<Rightarrow> nat \<Rightarrow> bytes" where
  "le_bytes 0 x = []"
| "le_bytes (Suc n) x = of_nat (x mod 256) # le_bytes n (x div 256)"

lemma length_le_bytes [simp]: "length (le_bytes n x) = n"
  by (induction n arbitrary: x) auto

lemma unat_byte_lt [simp, intro]: "unat (b :: byte) < 256"
proof -
  have "unat b < 2 ^ LENGTH(8)" by (rule unsigned_less)
  then show ?thesis by simp
qed

lemma unat_of_nat_byte [simp]: "unat (of_nat x :: byte) = x mod 256"
  by (simp add: unat_of_nat)

lemma digit_less: "x < 256 \<Longrightarrow> y < z \<Longrightarrow> x + 256 * y < 256 * (z :: nat)"
  by linarith

lemma le_val_bound: "le_val bs < 256 ^ length bs"
  by (induction bs) (auto intro!: digit_less)

lemma le_val_le_bytes: "le_val (le_bytes n x) = x mod 256 ^ n"
proof (induction n arbitrary: x)
  case (Suc n)
  have "le_val (le_bytes (Suc n) x) = x mod 256 + 256 * (x div 256 mod 256 ^ n)"
    by (simp add: Suc)
  also have "\<dots> = x mod (256 * 256 ^ n)"
    by (simp add: mod_mult2_eq)
  finally show ?case by simp
qed simp

lemma le_bytes_le_val: "le_bytes (length bs) (le_val bs) = bs"
proof (induction bs)
  case (Cons b bs)
  have "unat b mod 256 = unat b" by (simp add: mod_less)
  then show ?case using Cons by simp
qed simp

lemma le_val_append: "le_val (xs @ ys) = le_val xs + 256 ^ length xs * le_val ys"
  by (induction xs) (auto simp: algebra_simps)

lemma le_val_eq_0_iff: "le_val bs = 0 \<longleftrightarrow> (\<forall>b \<in> set bs. b = 0)"
  by (induction bs) (auto simp: unsigned_eq_0_iff)

lemma le_val_inject:
  assumes "length xs = length ys" and "le_val xs = le_val ys"
  shows "xs = ys"
proof -
  have "le_bytes (length xs) (le_val xs) = le_bytes (length ys) (le_val ys)"
    using assms by simp
  then show ?thesis by (simp only: le_bytes_le_val)
qed

lemma le_val_snoc_zero_iff: "le_val (xs @ [b]) < 256 ^ length xs \<longleftrightarrow> b = 0"
proof
  assume "le_val (xs @ [b]) < 256 ^ length xs"
  then have less: "256 ^ length xs * unat b < 256 ^ length xs"
    by (simp only: le_val_append le_val.simps mult_0_right add_0_right) 
  have "unat b = 0"
  proof (rule ccontr)
    assume "unat b \<noteq> 0"
    then have "256 ^ length xs * 1 \<le> 256 ^ length xs * unat b"
      by (intro mult_le_mono2) simp
    with less show False by simp
  qed
  then show "b = 0" by (simp add: unsigned_eq_0_iff)
next
  assume "b = 0"
  then show "le_val (xs @ [b]) < 256 ^ length xs"
    using le_val_bound [of xs] by (simp add: le_val_append)
qed

section \<open>Disjoint bits\<close>

text \<open>A bitwise or of a small number with one whose low bits are clear is a sum; loops that
  assemble a number byte by byte rest on it.\<close>

lemma or_push_bit_disjoint:
  fixes a b :: int
  assumes "0 \<le> a" and "a < 2 ^ k"
  shows "a OR push_bit k b = a + 2 ^ k * b"
proof -
  have "take_bit k a = a"
    using assms by (simp add: take_bit_int_eq_self)
  then have "\<not> bit a n \<or> \<not> bit (push_bit k b) n" for n
    by (metis bit_push_bit_iff bit_take_bit_iff linorder_not_less)
  then have "a + push_bit k b = a OR push_bit k b"
    by (rule disjunctive_add)
  then show ?thesis
    by (simp add: push_bit_eq_mult mult.commute)
qed

section \<open>Byte tests\<close>

lemma odd_div_128:
  assumes "n < (256 :: nat)"
  shows "odd (n div 128) \<longleftrightarrow> 128 \<le> n"
proof (cases "n < 128")
  case False
  then have "n div 128 = 1" using assms by (intro div_nat_eqI) simp_all
  with False show ?thesis by simp
qed simp

lemma byte_and_80: "((b :: byte) AND 0x80 \<noteq> 0) \<longleftrightarrow> 128 \<le> unat b"
proof -
  have "((b :: byte) AND 2 ^ 7 \<noteq> 0) \<longleftrightarrow> bit b 7"
    by (simp only: and_exp_eq_0_iff_not_bit not_not)
  also have "\<dots> \<longleftrightarrow> odd (unat b div 2 ^ 7)"
    using bit_iff_odd [of "unat b" 7] by (simp add: bit_unsigned_iff)
  also have "\<dots> \<longleftrightarrow> 128 \<le> unat b"
    using odd_div_128 [OF unat_byte_lt [of b]] by simp
  finally show ?thesis by simp
qed

lemma byte_and_80_zero: "((b :: byte) AND 0x80 = 0) \<longleftrightarrow> unat b < 128"
  using byte_and_80 [of b] by linarith

section \<open>Verification flags\<close>

type_synonym flags = "32 word"

text \<open>\<open>has_flag flags f\<close> is the source's \<open>(flags & f) != 0\<close>.\<close>

definition has_flag :: "flags \<Rightarrow> flags \<Rightarrow> bool" where
  "has_flag fl f \<longleftrightarrow> fl AND f \<noteq> 0"

definition flags_le :: "flags \<Rightarrow> flags \<Rightarrow> bool" where
  "flags_le f f' \<longleftrightarrow> f AND f' = f"

lemma has_flag_mono [flag_mono]: "flags_le f f' \<Longrightarrow> has_flag f g \<Longrightarrow> has_flag f' g"
proof -
  assume le: "flags_le f f'" and "has_flag f g"
  then have "f AND (f' AND g) \<noteq> 0"
    unfolding has_flag_def flags_le_def by (simp only: and.assoc [symmetric] simp_thms)
  then show "has_flag f' g" unfolding has_flag_def by auto
qed

lemma flags_le_refl [simp]: "flags_le f f"
  by (simp add: flags_le_def)

lemma flags_le_zero [simp]: "flags_le 0 f"
  by (simp add: flags_le_def)

end
