(* ===== verification/Serialize.thy ===== *)
theory Serialize
  imports Prelude
begin

text \<open>
  The wire format (src/src/serialize.h): integers in little-endian order, compact sizes, variable
  length integers and vectors.  A reading stream is the list of bytes that are left; an exception
  (\<open>std::ios_base::failure\<close>) is a value of \<open>ser_error\<close>.  The locale \<open>serializer\<close> is the contract
  between a pair of \<open>Serialize\<close> and \<open>Unserialize\<close> functions: reading back what was written gives
  the value and leaves the rest of the stream.
\<close>

datatype ser_error = End_of_data | Noncanonical_CompactSize | Size_too_large
  | Superfluous_witness | Unknown_optional_data | String_limit_exceeded

type_synonym 'a reader = "bytes \<Rightarrow> ser_error + 'a \<times> bytes"

definition rbind :: "'a reader \<Rightarrow> ('a \<Rightarrow> 'b reader) \<Rightarrow> 'b reader" where
  "rbind m f s = (case m s of Inl e \<Rightarrow> Inl e | Inr (x, s') \<Rightarrow> f x s')"

definition rreturn :: "'a \<Rightarrow> 'a reader" where
  "rreturn x s = Inr (x, s)"

definition rthrow :: "ser_error \<Rightarrow> 'a reader" where
  "rthrow e s = Inl e"

lemma rbind_Inr [simp]: "m s = Inr (x, s') \<Longrightarrow> rbind m f s = f x s'"
  by (simp add: rbind_def)

lemma rreturn_apply [simp]: "rreturn x s = Inr (x, s)"
  by (simp add: rreturn_def)

lemma rthrow_apply [simp]: "rthrow e s = Inl e"
  by (simp add: rthrow_def)

lemma rbind_eq_Inr:
  "rbind m f s = Inr r \<longleftrightarrow> (\<exists>x s'. m s = Inr (x, s') \<and> f x s' = Inr r)"
  by (auto simp: rbind_def split: sum.splits)

section \<open>Raw data\<close>

text \<open>\<open>READDATA\<close> of an object of \<open>n\<close> bytes.\<close>

definition read_bytes :: "nat \<Rightarrow> bytes reader" where
  "read_bytes n s = (if length s < n then Inl End_of_data else Inr (take n s, drop n s))"

definition READDATA :: "nat \<Rightarrow> nat reader" where
  "READDATA n = rbind (read_bytes n) (\<lambda>bs. rreturn (le_val bs))"

definition WRITEDATA :: "nat \<Rightarrow> nat \<Rightarrow> bytes" where
  "WRITEDATA n x = le_bytes n x"

lemma read_bytes_append [simp]: "length bs = n \<Longrightarrow> read_bytes n (bs @ rest) = Inr (bs, rest)"
  by (simp add: read_bytes_def)

lemma READDATA_WRITEDATA [simp]:
  "x < 256 ^ n \<Longrightarrow> READDATA n (WRITEDATA n x @ rest) = Inr (x, rest)"
  by (simp add: READDATA_def WRITEDATA_def rbind_def le_val_le_bytes)

lemma length_WRITEDATA [simp]: "length (WRITEDATA n x) = n"
  by (simp add: WRITEDATA_def)

lemma READDATA_1 [simp]: "READDATA 1 (b # rest) = Inr (unat b, rest)"
  by (simp add: READDATA_def read_bytes_def rbind_def)

section \<open>Compact sizes\<close>

definition MAX_SIZE :: nat where "MAX_SIZE = 0x02000000"

definition GetSizeOfCompactSize :: "nat \<Rightarrow> nat" where
  "GetSizeOfCompactSize nSize =
     (if nSize < 253 then 1
      else if nSize \<le> 0xffff then 1 + 2
      else if nSize \<le> 0xffffffff then 1 + 4
      else 1 + 8)"

definition WriteCompactSize :: "nat \<Rightarrow> bytes" where
  "WriteCompactSize nSize =
     (if nSize < 253 then WRITEDATA 1 nSize
      else if nSize \<le> 0xffff then WRITEDATA 1 253 @ WRITEDATA 2 nSize
      else if nSize \<le> 0xffffffff then WRITEDATA 1 254 @ WRITEDATA 4 nSize
      else WRITEDATA 1 255 @ WRITEDATA 8 nSize)"

definition ReadCompactSize :: "nat reader" where
  "ReadCompactSize =
     rbind (READDATA 1) (\<lambda>chSize.
     rbind (if chSize < 253 then rreturn chSize
            else if chSize = 253 then
              rbind (READDATA 2) (\<lambda>n. if n < 253 then rthrow Noncanonical_CompactSize else rreturn n)
            else if chSize = 254 then
              rbind (READDATA 4) (\<lambda>n. if n < 0x10000 then rthrow Noncanonical_CompactSize else rreturn n)
            else
              rbind (READDATA 8)
                (\<lambda>n. if n < 0x100000000 then rthrow Noncanonical_CompactSize else rreturn n))
       (\<lambda>nSizeRet. if nSizeRet > MAX_SIZE then rthrow Size_too_large else rreturn nSizeRet))"

lemma length_WriteCompactSize: "length (WriteCompactSize n) = GetSizeOfCompactSize n"
  by (simp add: WriteCompactSize_def GetSizeOfCompactSize_def)

lemma READDATA_step [simp]:
  "x < 256 ^ n \<Longrightarrow> rbind (READDATA n) f (WRITEDATA n x @ rest) = f x rest"
  by simp

lemma ReadCompactSize_Write [simp]:
  assumes "n \<le> MAX_SIZE"
  shows "ReadCompactSize (WriteCompactSize n @ rest) = Inr (n, rest)"
proof -
  consider "n < 253" | "253 \<le> n" "n \<le> 0xffff" | "0x10000 \<le> n" "n \<le> 0xffffffff"
    using assms by (fastforce simp: MAX_SIZE_def)
  then show ?thesis
    using assms by cases (simp_all add: ReadCompactSize_def WriteCompactSize_def rbind_def)
qed

text \<open>A reader that succeeds consumed a canonical encoding: writing the value gives the bytes back.\<close>

lemma READDATA_Inr:
  "READDATA n s = Inr (x, r) \<Longrightarrow> s = WRITEDATA n x @ r \<and> x < 256 ^ n"
proof -
  assume a: "READDATA n s = Inr (x, r)"
  then have l: "n \<le> length s" and x: "x = le_val (take n s)" and r: "r = drop n s"
    by (auto simp: READDATA_def rbind_def read_bytes_def split: if_splits)
  have "le_bytes (length (take n s)) (le_val (take n s)) = take n s" by (rule le_bytes_le_val)
  moreover have "le_val (take n s) < 256 ^ length (take n s)" by (rule le_val_bound)
  ultimately show ?thesis using l x r by (simp add: WRITEDATA_def min_absorb2)
qed

lemma ReadCompactSize_canonical:
  assumes "ReadCompactSize s = Inr (n, r)"
  shows "s = WriteCompactSize n @ r \<and> n \<le> MAX_SIZE"
proof -
  obtain c s1 where c: "READDATA 1 s = Inr (c, s1)"
    using assms by (auto simp: ReadCompactSize_def rbind_eq_Inr)
  note s = READDATA_Inr [OF c]
  note step = assms [unfolded ReadCompactSize_def rbind_eq_Inr]
  consider "c < 253" | "c = 253" | "c = 254" | "c = 255" using s by fastforce
  then show ?thesis
  proof cases
    case 1
    then have "n = c \<and> r = s1 \<and> n \<le> MAX_SIZE" using step c by (auto split: if_splits)
    then show ?thesis using s 1 by (simp add: WriteCompactSize_def)
  next
    case 2
    then have "READDATA 2 s1 = Inr (n, r) \<and> 253 \<le> n \<and> n \<le> MAX_SIZE"
      using step c by (auto simp: rbind_eq_Inr split: if_splits)
    then show ?thesis using s 2 READDATA_Inr [of 2 s1 n r] by (simp add: WriteCompactSize_def)
  next
    case 3
    then have "READDATA 4 s1 = Inr (n, r) \<and> 0x10000 \<le> n \<and> n \<le> MAX_SIZE"
      using step c by (auto simp: rbind_eq_Inr split: if_splits)
    then show ?thesis using s 3 READDATA_Inr [of 4 s1 n r] by (simp add: WriteCompactSize_def)
  next
    case 4
    then have "READDATA 8 s1 = Inr (n, r) \<and> 0x100000000 \<le> n \<and> n \<le> MAX_SIZE"
      using step c by (auto simp: rbind_eq_Inr split: if_splits)
    then show ?thesis by (auto simp: MAX_SIZE_def)
  qed
qed

text \<open>Compact sizes have exactly one accepted encoding: \<open>ReadCompactSize\<close> returns \<open>n\<close> and leaves
  \<open>r\<close> precisely when the stream starts with what \<open>WriteCompactSize\<close> writes for \<open>n\<close> and \<open>n\<close> is at
  most \<open>MAX_SIZE\<close>.\<close>

theorem CompactSize_canonical:
  "ReadCompactSize s = Inr (n, r) \<longleftrightarrow> s = WriteCompactSize n @ r \<and> n \<le> MAX_SIZE"
  using ReadCompactSize_canonical ReadCompactSize_Write by blast

section \<open>Variable length integers\<close>

text \<open>\<open>WriteVarInt\<close> fills \<open>tmp\<close> from the least significant digit and writes it backwards; \<open>acc\<close>
  holds \<open>tmp[len - 1], \<dots>, tmp[0]\<close>.\<close>

function WriteVarInt_loop :: "nat \<Rightarrow> bytes \<Rightarrow> bytes" where
  "WriteVarInt_loop n acc =
     (let d = (of_nat n AND 0x7f) OR (if acc \<noteq> [] then 0x80 else 0)
      in if n \<le> 0x7f then d # acc else WriteVarInt_loop (n div 128 - 1) (d # acc))"
  by pat_completeness auto
termination by (relation "measure fst") auto

declare WriteVarInt_loop.simps [simp del]

definition WriteVarInt :: "nat \<Rightarrow> bytes" where
  "WriteVarInt n = WriteVarInt_loop n []"

function GetSizeOfVarInt :: "nat \<Rightarrow> nat" where
  "GetSizeOfVarInt n = (if n \<le> 0x7f then 1 else 1 + GetSizeOfVarInt (n div 128 - 1))"
  by pat_completeness auto
termination by (relation "measure id") auto

declare GetSizeOfVarInt.simps [simp del]

text \<open>\<open>ReadVarInt\<close> for an integer type of any width; the shift drops what does not fit.\<close>

fun ReadVarInt_loop :: "'a::len word \<Rightarrow> bytes \<Rightarrow> ser_error + 'a word \<times> bytes" where
  "ReadVarInt_loop n [] = Inl End_of_data"
| "ReadVarInt_loop n (chData # s) =
     (let n' = push_bit 7 n OR ucast (chData AND 0x7f)
      in if chData AND 0x80 \<noteq> 0 then ReadVarInt_loop (n' + 1) s else Inr (n', s))"

definition ReadVarInt :: "bytes \<Rightarrow> ser_error + 'a::len word \<times> bytes" where
  "ReadVarInt s = ReadVarInt_loop 0 s"

lemma length_WriteVarInt_loop: "length (WriteVarInt_loop n acc) = GetSizeOfVarInt n + length acc"
proof (induction n acc rule: WriteVarInt_loop.induct)
  case (1 n acc)
  show ?case
    using 1 [OF refl]
    by (simp add: WriteVarInt_loop.simps [of n acc] GetSizeOfVarInt.simps [of n] Let_def)
qed

lemma or_low7: "push_bit 7 a OR take_bit 7 c = push_bit 7 a + take_bit 7 (c :: 'a::len word)"
proof -
  have "\<not> bit (push_bit 7 a) k \<or> \<not> bit (take_bit 7 c) k" for k
    by (auto simp: bit_simps)
  then show ?thesis by (metis disjunctive_add)
qed

lemma low7: "(x :: byte) AND 0x7f = take_bit 7 x"
  using take_bit_eq_mask [of 7 x] by (simp add: mask_eq_exp_minus_1)

lemma varint_digit:
  fixes n :: nat and more :: bool
  defines "d \<equiv> (of_nat n AND 0x7f) OR (if more then 0x80 else 0) :: byte"
  shows "ucast (d AND 0x7f) = (of_nat (n mod 128) :: 'a::len word)" and "d AND 0x80 \<noteq> 0 \<longleftrightarrow> more"
proof -
  have "d AND 0x7f = of_nat n AND 0x7f"
    unfolding d_def by (simp add: and.assoc bit.conj_disj_distrib2)
  moreover have "unat (of_nat n AND 0x7f :: byte) = n mod 128"
    unfolding low7 unsigned_take_bit_eq by (simp add: take_bit_eq_mod mod_mod_cancel)
  ultimately show "ucast (d AND 0x7f) = (of_nat (n mod 128) :: 'a::len word)"
    by (metis of_nat_unat)
  show "d AND 0x80 \<noteq> 0 \<longleftrightarrow> more"
    unfolding d_def by (simp add: and.assoc bit.conj_disj_distrib2)
qed

lemma varint_step:
  "push_bit 7 (of_nat (n div 128)) OR of_nat (n mod 128) = (of_nat n :: 'a::len word)"
proof -
  have m: "of_nat (n mod 128) = (take_bit 7 (of_nat n) :: 'a word)"
    using of_nat_take_bit [of 7 n] by (simp only: take_bit_eq_mod [of 7 n]) simp
  have "push_bit 7 (of_nat (n div 128)) OR of_nat (n mod 128) =
      push_bit 7 (of_nat (n div 128)) + (of_nat (n mod 128) :: 'a word)"
    unfolding m by (rule or_low7)
  also have "\<dots> = of_nat (n div 128 * 128 + n mod 128)"
    unfolding of_nat_add of_nat_mult by (simp add: push_bit_eq_mult)
  finally show ?thesis by (simp only: div_mult_mod_eq)
qed

lemma ReadVarInt_loop_Write:
  "ReadVarInt_loop (0 :: 'a::len word) (WriteVarInt_loop n acc @ rest) =
    (if acc \<noteq> [] then ReadVarInt_loop (of_nat n + 1) (acc @ rest) else Inr (of_nat n, rest))"
proof (induction n acc rule: WriteVarInt_loop.induct)
  case (1 n acc)
  define d where "d = (of_nat n AND 0x7f :: byte) OR (if acc \<noteq> [] then 0x80 else 0)"
  note dig = varint_digit [of n "acc \<noteq> []", folded d_def]
  have w: "WriteVarInt_loop n acc = (if n \<le> 0x7f then d # acc else WriteVarInt_loop (n div 128 - 1) (d # acc))"
    by (simp add: WriteVarInt_loop.simps [of n acc] d_def Let_def)
  have rd: "ReadVarInt_loop (of_nat (n div 128) :: 'a word) (d # acc @ rest) =
     (if acc \<noteq> [] then ReadVarInt_loop (of_nat n + 1) (acc @ rest) else Inr (of_nat n, acc @ rest))"
    by (simp add: Let_def dig varint_step)
  show ?case
  proof (cases "n \<le> 0x7f")
    case True
    then show ?thesis using w rd by simp
  next
    case False
    then have "of_nat (n div 128 - 1) + 1 = (of_nat (n div 128) :: 'a word)"
      by (simp add: of_nat_diff div_greater_zero_iff Suc_le_eq)
    then show ?thesis using w rd 1 [OF d_def False] False by (simp add: d_def)
  qed
qed

lemma ReadVarInt_Write [simp]: "ReadVarInt (WriteVarInt n @ rest) = Inr (of_nat n :: 'a::len word, rest)"
  by (simp add: ReadVarInt_def WriteVarInt_def ReadVarInt_loop_Write)

text \<open>Reading a variable length integer inverts writing it, for every value of the integer type.\<close>

theorem ReadVarInt_WriteVarInt:
  assumes "n < 2 ^ LENGTH('a)"
  shows "\<exists>w :: 'a::len word. ReadVarInt (WriteVarInt n @ rest) = Inr (w, rest) \<and> unat w = n"
  using assms by (simp add: unat_of_nat)

lemma ReadVarInt_WriteVarInt_witness:
  "\<exists>w :: 64 word. ReadVarInt (WriteVarInt 255 @ [7]) = Inr (w, [7]) \<and> unat w = 255"
  by (rule ReadVarInt_WriteVarInt) simp

text \<open>The encoding is not one-to-one for the reader: the comment in serialize.h promises that every
  integer has exactly one encoding, but a 64 bit read drops the bits that are shifted out, so two
  different encodings read back as 0.\<close>

theorem ReadVarInt_not_injective:
  "\<exists>s s'. s \<noteq> s' \<and> ReadVarInt s = Inr (0 :: 64 word, []) \<and> ReadVarInt s' = Inr (0 :: 64 word, [])"
proof (intro exI conjI)
  show "[0x80, 0xfe, 0xfe, 0xfe, 0xfe, 0xfe, 0xfe, 0xfe, 0xff, 0] \<noteq> [0 :: byte]" by simp
  show "ReadVarInt [0] = Inr (0 :: 64 word, [])" by code_simp
  show "ReadVarInt [0x80, 0xfe, 0xfe, 0xfe, 0xfe, 0xfe, 0xfe, 0xfe, 0xff, 0] = Inr (0 :: 64 word, [])" by code_simp
qed

section \<open>The contract of a serializable type\<close>

text \<open>\<open>ser\<close> is \<open>Serialize\<close>, \<open>unser\<close> is \<open>Unserialize\<close>; \<open>ok\<close> are the values the pair handles.  A
  \<open>roundtrip\<close> reads back what was written; a \<open>serializer\<close> also accepts no other encoding, so that
  accepted encodings and values correspond one to one.\<close>

locale roundtrip =
  fixes ser :: "'a \<Rightarrow> bytes" and unser :: "bytes \<Rightarrow> ser_error + 'a \<times> bytes" and ok :: "'a \<Rightarrow> bool"
  assumes unser_ser: "ok x \<Longrightarrow> unser (ser x @ rest) = Inr (x, rest)"
begin

lemma ser_inject: "ok x \<Longrightarrow> ok y \<Longrightarrow> ser x @ r = ser y @ r' \<Longrightarrow> x = y \<and> r = r'"
  using unser_ser [of x r] unser_ser [of y r'] by (metis Inr_inject prod.inject)

lemma bind_unser: "ok x \<Longrightarrow> rbind unser f (ser x @ rest) = f x rest"
  by (simp add: unser_ser)

end

locale serializer = roundtrip +
  assumes ser_unser: "unser s = Inr (x, r) \<Longrightarrow> s = ser x @ r \<and> ok x"
begin

lemma unser_iff: "unser s = Inr (x, r) \<longleftrightarrow> ok x \<and> s = ser x @ r"
  using unser_ser ser_unser by blast

lemma bind_Inr: "rbind unser f s = Inr p \<longleftrightarrow> (\<exists>x r. ok x \<and> s = ser x @ r \<and> f x r = Inr p)"
  by (auto simp: rbind_eq_Inr unser_iff)

end

section \<open>Integers and vectors\<close>

text \<open>Unsigned integers of \<open>n\<close> bytes.\<close>

lemma uint_serializer: "serializer (WRITEDATA n) (READDATA n) (\<lambda>x. x < 256 ^ n)"
  by unfold_locales (rule READDATA_WRITEDATA, assumption, rule READDATA_Inr)

interpretation u8: serializer "WRITEDATA 1" "READDATA 1" "\<lambda>x. x < 256 ^ 1"
  by (rule uint_serializer)

interpretation u32: serializer "WRITEDATA 4" "READDATA 4" "\<lambda>x. x < 256 ^ 4"
  by (rule uint_serializer)

interpretation u256: serializer "WRITEDATA 32" "READDATA 32" "\<lambda>x. x < 256 ^ 32"
  by (rule uint_serializer)

interpretation csize: serializer WriteCompactSize ReadCompactSize "\<lambda>n. n \<le> MAX_SIZE"
  by unfold_locales (rule ReadCompactSize_Write, assumption, rule ReadCompactSize_canonical)

text \<open>Signed integers in two's complement.\<close>

definition to_signed :: "nat \<Rightarrow> nat \<Rightarrow> int" where
  "to_signed n x = (if 2 * int x < 256 ^ n then int x else int x - 256 ^ n)"

definition of_signed :: "nat \<Rightarrow> int \<Rightarrow> nat" where
  "of_signed n v = nat (v mod 256 ^ n)"

definition WRITESIGNED :: "nat \<Rightarrow> int \<Rightarrow> bytes" where
  "WRITESIGNED n v = WRITEDATA n (of_signed n v)"

definition READSIGNED :: "nat \<Rightarrow> int reader" where
  "READSIGNED n = rbind (READDATA n) (\<lambda>x. rreturn (to_signed n x))"

definition signed_ok :: "nat \<Rightarrow> int \<Rightarrow> bool" where
  "signed_ok n v \<longleftrightarrow> - (256 ^ n) \<le> 2 * v \<and> 2 * v < 256 ^ n"

lemma of_signed_less: "of_signed n v < 256 ^ n"
  by (simp add: of_signed_def nat_less_iff)

lemma int_of_signed: "int (of_signed n v) = v mod 256 ^ n"
  by (simp add: of_signed_def)

lemma to_of_signed: "signed_ok n v \<Longrightarrow> to_signed n (of_signed n v) = v"
proof -
  assume ok: "signed_ok n v"
  show ?thesis
  proof (cases "v < 0")
    case True
    then have "v mod 256 ^ n = v + 256 ^ n"
      using ok mod_pos_pos_trivial [of "v + 256 ^ n" "256 ^ n"] by (simp add: signed_ok_def)
    then show ?thesis using ok True unfolding to_signed_def int_of_signed signed_ok_def by simp
  next
    case False
    then have "v mod 256 ^ n = v" using ok by (simp add: signed_ok_def mod_pos_pos_trivial)
    then show ?thesis using ok False unfolding to_signed_def int_of_signed signed_ok_def by simp
  qed
qed

lemma int_less_power: "x < 256 ^ n \<Longrightarrow> int x < 256 ^ n"
  by (metis of_nat_less_iff of_nat_numeral of_nat_power)

lemma of_to_signed: "x < 256 ^ n \<Longrightarrow> of_signed n (to_signed n x) = x"
proof -
  assume "x < 256 ^ n"
  then have x: "int x mod 256 ^ n = int x" using int_less_power by (simp add: mod_pos_pos_trivial)
  then have "(int x - 256 ^ n) mod 256 ^ n = int x" by simp
  with x show ?thesis unfolding of_signed_def to_signed_def by simp
qed

lemma to_signed_ok:
  assumes "x < 256 ^ n"
  shows "signed_ok n (to_signed n x)"
proof -
  note b = int_less_power [OF assms]
  have neg: "\<not> 2 * i < M \<Longrightarrow> i < M \<Longrightarrow> - M \<le> 2 * (i - M) \<and> 2 * (i - M) < M" for i M :: int
    by (simp add: not_less)
  have p: "0 \<le> int x" by simp
  show ?thesis
  proof (cases "2 * int x < 256 ^ n")
    case True
    then show ?thesis unfolding signed_ok_def to_signed_def if_P [OF True] using b p by (intro conjI) linarith+
  next
    case False
    show ?thesis unfolding signed_ok_def to_signed_def if_not_P [OF False] by (rule neg [OF False b])
  qed
qed

lemma sint_serializer: "serializer (WRITESIGNED n) (READSIGNED n) (signed_ok n)"
proof
  show "READSIGNED n (WRITESIGNED n x @ rest) = Inr (x, rest)" if "signed_ok n x" for x rest
    using that by (simp add: WRITESIGNED_def READSIGNED_def of_signed_less to_of_signed)
  show "s = WRITESIGNED n x @ r \<and> signed_ok n x" if rd: "READSIGNED n s = Inr (x, r)" for s x r
  proof -
    obtain y where y: "READDATA n s = Inr (y, r)" and x: "x = to_signed n y"
      using rd by (auto simp: READSIGNED_def rbind_eq_Inr)
    show ?thesis
      using READDATA_Inr [OF y] by (simp add: x WRITESIGNED_def of_to_signed to_signed_ok)
  qed
qed

interpretation i32: serializer "WRITESIGNED 4" "READSIGNED 4" "signed_ok 4"
  by (rule sint_serializer)

interpretation i64: serializer "WRITESIGNED 8" "READSIGNED 8" "signed_ok 8"
  by (rule sint_serializer)

text \<open>Vectors of bytes, and \<open>CScript\<close>.  The source reads them in blocks of at most 5 MB to bound the
  memory a bogus size can claim; the bytes read are the same.\<close>

definition Serialize_bytes :: "bytes \<Rightarrow> bytes" where
  "Serialize_bytes v = WriteCompactSize (length v) @ v"

definition Unserialize_bytes :: "bytes reader" where
  "Unserialize_bytes = rbind ReadCompactSize read_bytes"

interpretation vch: serializer Serialize_bytes Unserialize_bytes "\<lambda>v. length v \<le> MAX_SIZE"
  by unfold_locales (auto simp: Serialize_bytes_def Unserialize_bytes_def csize.bind_Inr
      csize.bind_unser read_bytes_def split: if_splits)

text \<open>Vectors of other types.\<close>

fun Unserialize_n :: "'a reader \<Rightarrow> nat \<Rightarrow> 'a list reader" where
  "Unserialize_n r 0 = rreturn []"
| "Unserialize_n r (Suc n) = rbind r (\<lambda>x. rbind (Unserialize_n r n) (\<lambda>xs. rreturn (x # xs)))"

definition Serialize_vector :: "('a \<Rightarrow> bytes) \<Rightarrow> 'a list \<Rightarrow> bytes" where
  "Serialize_vector ser v = WriteCompactSize (length v) @ concat (map ser v)"

definition Unserialize_vector :: "'a reader \<Rightarrow> 'a list reader" where
  "Unserialize_vector r = rbind ReadCompactSize (Unserialize_n r)"

definition vector_ok :: "('a \<Rightarrow> bool) \<Rightarrow> 'a list \<Rightarrow> bool" where
  "vector_ok ok v \<longleftrightarrow> length v \<le> MAX_SIZE \<and> (\<forall>x \<in> set v. ok x)"

context roundtrip
begin

lemma Unserialize_n_ser:
  "\<forall>x \<in> set v. ok x \<Longrightarrow> Unserialize_n unser (length v) (concat (map ser v) @ rest) = Inr (v, rest)"
  by (induction v) (simp_all add: bind_unser)

lemma vector_roundtrip:
  "roundtrip (Serialize_vector ser) (Unserialize_vector unser) (vector_ok ok)"
  by unfold_locales (simp add: Serialize_vector_def Unserialize_vector_def vector_ok_def
      csize.bind_unser Unserialize_n_ser)

end

context serializer
begin

lemma Unserialize_n_Inr:
  "Unserialize_n unser n s = Inr (v, r) \<Longrightarrow>
    s = concat (map ser v) @ r \<and> length v = n \<and> (\<forall>x \<in> set v. ok x)"
proof (induction n arbitrary: s v r)
  case (Suc n)
  then obtain x r1 xs where x: "ok x" "s = ser x @ r1" and v: "v = x # xs"
    and xs: "Unserialize_n unser n r1 = Inr (xs, r)"
    by (auto simp: rbind_eq_Inr unser_iff)
  show ?case using Suc.IH [OF xs] x v by simp
qed simp

lemma vector_serializer:
  "serializer (Serialize_vector ser) (Unserialize_vector unser) (vector_ok ok)"
  by unfold_locales (auto simp: Serialize_vector_def Unserialize_vector_def vector_ok_def csize.bind_Inr
      csize.bind_unser Unserialize_n_ser dest!: Unserialize_n_Inr)

end

interpretation vchs: serializer "Serialize_vector Serialize_bytes" "Unserialize_vector Unserialize_bytes"
  "vector_ok (\<lambda>v. length v \<le> MAX_SIZE)"
  by (rule vch.vector_serializer)

end
