(* ===== verification/ScriptNum.thy ===== *)
theory ScriptNum
  imports Prelude
begin

text \<open>
  \<open>CScriptNum\<close> (src/src/script/script.h): the numbers of the script language.  \<open>m_value\<close> is an
  \<open>int64_t\<close>; here it is an \<open>int\<close>, and \<open>CScriptNum_of_vch_bound\<close> shows that what the interpreter
  builds from the stack (4 byte operands, 5 for lock times) stays so far inside the 64 bit range
  that one addition, subtraction or negation of such operands cannot overflow.
\<close>

section \<open>Encoding\<close>

datatype scriptnum_error = Scriptnum_overflow | Scriptnum_nonminimal

text \<open>The loop of \<open>serialize\<close> that peels bytes off the absolute value.\<close>

fun serialize_abs :: "nat \<Rightarrow> bytes" where
  "serialize_abs absvalue =
     (if absvalue = 0 then []
      else of_nat (absvalue mod 256) # serialize_abs (absvalue div 256))"

declare serialize_abs.simps [simp del]

definition serialize :: "int \<Rightarrow> bytes" where
  "serialize v =
     (if v = 0 then []
      else
        let neg = v < 0;
            result = serialize_abs (nat \<bar>v\<bar>)
        in if last result AND 0x80 \<noteq> 0 then result @ [if neg then 0x80 else 0]
           else if neg then butlast result @ [last result OR 0x80]
           else result)"

text \<open>\<open>set_vch\<close>: byte \<open>i\<close> is or-ed in at bit \<open>8 * i\<close>; a set sign bit is removed and negates.\<close>

fun set_vch_loop :: "nat \<Rightarrow> int \<Rightarrow> bytes \<Rightarrow> int" where
  "set_vch_loop i result [] = result"
| "set_vch_loop i result (b # bs) =
     set_vch_loop (Suc i) (result OR push_bit (8 * i) (uint b)) bs"

definition set_vch :: "bytes \<Rightarrow> int" where
  "set_vch vch =
     (if vch = [] then 0
      else
        let result = set_vch_loop 0 0 vch
        in if last vch AND 0x80 \<noteq> 0
           then - (result AND NOT (push_bit (8 * (length vch - 1)) 0x80))
           else result)"

definition nDefaultMaxNumSize :: nat where
  "nDefaultMaxNumSize = 4"

text \<open>The throwing constructor \<open>CScriptNum(vch, fRequireMinimal, nMaxNumSize)\<close>.\<close>

definition CScriptNum_of_vch :: "bytes \<Rightarrow> bool \<Rightarrow> nat \<Rightarrow> scriptnum_error + int" where
  "CScriptNum_of_vch vch fRequireMinimal nMaxNumSize =
     (if length vch > nMaxNumSize then Inl Scriptnum_overflow
      else if fRequireMinimal \<and> length vch > 0 \<and> last vch AND 0x7f = 0
              \<and> (length vch \<le> 1 \<or> vch ! (length vch - 2) AND 0x80 = 0)
      then Inl Scriptnum_nonminimal
      else Inr (set_vch vch))"

text \<open>\<open>getint\<close> clamps to the range of a 32 bit \<open>int\<close>.\<close>

definition getint :: "int \<Rightarrow> int" where
  "getint v = (if v > 2147483647 then 2147483647
               else if v < -2147483648 then -2147483648 else v)"

section \<open>What the loops compute\<close>

lemma serialize_abs_0 [simp]: "serialize_abs 0 = []"
  by (simp add: serialize_abs.simps)

lemma serialize_abs_pos:
  "n \<noteq> 0 \<Longrightarrow> serialize_abs n = of_nat (n mod 256) # serialize_abs (n div 256)"
  by (subst serialize_abs.simps) simp

lemma serialize_abs_eq_Nil [simp]: "serialize_abs n = [] \<longleftrightarrow> n = 0"
  by (cases "n = 0") (simp_all add: serialize_abs_pos)

lemma le_val_serialize_abs [simp]: "le_val (serialize_abs n) = n"
proof (induction n rule: serialize_abs.induct)
  case (1 n)
  then show ?case by (cases "n = 0") (simp_all add: serialize_abs_pos)
qed

lemma last_serialize_abs: "n \<noteq> 0 \<Longrightarrow> last (serialize_abs n) \<noteq> 0"
proof (induction n rule: serialize_abs.induct)
  case (1 n)
  show ?case
  proof (cases "n < 256")
    case True
    then have "n div 256 = 0" and "n mod 256 = n" by simp_all
    then show ?thesis
      using \<open>n \<noteq> 0\<close> True
      by (metis last.simps serialize_abs_0 serialize_abs_pos unat_0 unat_of_nat_byte)
  next
    case False
    then have "n div 256 \<noteq> 0" by (simp add: div_eq_0_iff)
    then show ?thesis using "1.IH" \<open>n \<noteq> 0\<close> by (simp add: serialize_abs_pos)
  qed
qed

lemma length_serialize_abs:
  "n < 256 ^ k \<Longrightarrow> length (serialize_abs n) \<le> k"
proof (induction n arbitrary: k rule: serialize_abs.induct)
  case (1 n)
  show ?case
  proof (cases "n = 0")
    case False
    with "1.prems" obtain k' where k: "k = Suc k'" by (cases k) auto
    have "n div 256 < 256 ^ k'"
      using "1.prems" k by (simp add: less_mult_imp_div_less mult.commute)
    then show ?thesis using False "1.IH" k by (simp add: serialize_abs_pos)
  qed simp
qed

lemma set_vch_loop_le_val:
  "0 \<le> r \<Longrightarrow> r < 2 ^ (8 * i) \<Longrightarrow> set_vch_loop i r bs = r + 2 ^ (8 * i) * int (le_val bs)"
proof (induction bs arbitrary: i r)
  case (Cons b bs)
  have or: "r OR push_bit (8 * i) (uint b) = r + 2 ^ (8 * i) * uint b"
    using Cons.prems by (rule or_push_bit_disjoint)
  have b: "0 \<le> uint b" "uint b \<le> 255"
    using unsigned_less [of b, where ?'a = int] by auto
  have "r + 2 ^ (8 * i) * uint b < 2 ^ (8 * i) * (1 + uint b)"
    using Cons.prems by (simp add: algebra_simps)
  also have "\<dots> \<le> 2 ^ (8 * i) * 256"
    using b by (intro mult_left_mono) auto
  also have "\<dots> = (2 :: int) ^ (8 * Suc i)" by (simp add: power_add)
  finally have lt: "r + 2 ^ (8 * i) * uint b < 2 ^ (8 * Suc i)" .
  have ge: "0 \<le> r + 2 ^ (8 * i) * uint b"
    using Cons.prems b by simp
  have "set_vch_loop i r (b # bs) =
      r + 2 ^ (8 * i) * uint b + 2 ^ (8 * Suc i) * int (le_val bs)"
    unfolding set_vch_loop.simps or by (rule Cons.IH [OF ge lt])
  then show ?case by (simp add: power_add algebra_simps)
qed simp

corollary set_vch_loop_0 [simp]: "set_vch_loop 0 0 bs = int (le_val bs)"
  by (simp add: set_vch_loop_le_val)

section \<open>The value of an encoding\<close>

text \<open>The sign-magnitude reading of a byte string, with the loop and the masking gone.\<close>

definition sm_val :: "bytes \<Rightarrow> int" where
  "sm_val vch =
     (if vch = [] then 0
      else
        let m = 256 ^ (length vch - 1); l = unat (last vch); x = le_val (butlast vch)
        in if 128 \<le> l then - int (x + m * (l - 128)) else int (x + m * l))"

lemma sm_val_snoc:
  "sm_val (xs @ [l]) =
     (if 128 \<le> unat l then - int (le_val xs + 256 ^ length xs * (unat l - 128))
      else int (le_val xs + 256 ^ length xs * unat l))"
  by (simp add: sm_val_def Let_def)

lemma clear_top_bit:
  fixes y :: int
  assumes "0 \<le> y" and "y < 2 ^ k"
  shows "(y + 2 ^ k) AND NOT (2 ^ k) = y"
proof -
  have "take_bit k y = y" using assms by (simp add: take_bit_int_eq_self)
  then have no: "\<not> bit y k" by (metis bit_take_bit_iff less_irrefl)
  have "y + 2 ^ k = y OR push_bit k 1"
    using or_push_bit_disjoint [OF assms, of 1] by simp
  then show ?thesis
    using no by (auto intro!: bit_eqI simp: bit_simps)
qed

text \<open>A byte with its top bit set is 128 plus the seven bits below.\<close>

lemma byte_high_split:
  assumes "128 \<le> unat (l :: byte)"
  obtains d where "unat l = 128 + d" and "d < 128"
proof -
  from assms obtain d where "unat l = 128 + d" by (metis le_iff_add)
  with unat_byte_lt [of l] show ?thesis by (intro that) simp_all
qed

lemma mag_bound:
  assumes "l < 128"
  shows "le_val xs + 256 ^ length xs * l < 2 ^ (8 * length xs + 7)"
proof -
  have "le_val xs + 256 ^ length xs * l < 256 ^ length xs * (1 + l)"
    using le_val_bound [of xs] by simp
  also have "\<dots> \<le> 256 ^ length xs * 128"
    using assms by (intro mult_le_mono2) simp
  also have "\<dots> = 2 ^ (8 * length xs + 7)"
    by (simp add: power_add power_mult)
  finally show ?thesis .
qed

lemma set_vch_sm_val: "set_vch vch = sm_val vch"
proof (cases vch rule: rev_cases)
  case Nil
  then show ?thesis by (simp add: set_vch_def sm_val_def)
next
  case (snoc xs l)
  show ?thesis
  proof (cases "128 \<le> unat l")
    case True
    then obtain d where d: "unat l = 128 + d" "d < 128" by (rule byte_high_split)
    define y where "y = int (le_val xs + 256 ^ length xs * d)"
    have p: "push_bit (8 * length xs) 0x80 = (2 :: int) ^ (8 * length xs + 7)"
      by (simp add: push_bit_eq_mult power_add)
    have y: "0 \<le> y" "y < 2 ^ (8 * length xs + 7)"
      unfolding y_def using mag_bound [OF d(2), of xs]
      by (simp, metis of_nat_less_iff of_nat_numeral of_nat_power)
    have e: "(2 :: nat) ^ (8 * length xs + 7) = 256 ^ length xs * 128"
      by (simp add: power_add power_mult)
    have "le_val vch = le_val xs + 256 ^ length xs * (128 + d)"
      by (simp add: snoc d le_val_append)
    then have "le_val vch = le_val xs + 256 ^ length xs * d + 2 ^ (8 * length xs + 7)"
      unfolding e by (simp add: distrib_left)
    then have "int (le_val vch) = y + 2 ^ (8 * length xs + 7)"
      unfolding y_def by simp
    then show ?thesis
      using True snoc clear_top_bit [OF y] byte_and_80 [of l] p
      by (simp add: set_vch_def Let_def sm_val_snoc y_def d)
  next
    case False
    then show ?thesis
      using snoc byte_and_80 [of l] by (simp add: set_vch_def Let_def sm_val_snoc le_val_append)
  qed
qed

lemma sm_val_bound:
  assumes "vch \<noteq> []"
  shows "\<bar>sm_val vch\<bar> < 2 ^ (8 * length vch - 1)"
proof (cases vch rule: rev_cases)
  case (snoc xs l)
  define m where "m = (if 128 \<le> unat l then unat l - 128 else unat l)"
  have "m < 128"
    by (cases "128 \<le> unat l") (auto simp: m_def elim: byte_high_split)
  then have "le_val xs + 256 ^ length xs * m < 2 ^ (8 * length xs + 7)" by (rule mag_bound)
  then have "int (le_val xs + 256 ^ length xs * m) < 2 ^ (8 * length xs + 7)"
    by (metis of_nat_less_iff of_nat_numeral of_nat_power)
  moreover have "\<bar>sm_val vch\<bar> = int (le_val xs + 256 ^ length xs * m)"
    by (cases "128 \<le> unat l")
      (simp_all only: snoc sm_val_snoc m_def if_True if_False abs_minus_cancel abs_of_nat simp_thms)
  moreover have "8 * length vch - 1 = 8 * length xs + 7" using snoc by simp
  ultimately show ?thesis by presburger
qed (use assms in simp)

lemma CScriptNum_of_vch_bound:
  assumes "CScriptNum_of_vch vch fRequireMinimal n = Inr v" and "0 < n"
  shows "\<bar>v\<bar> < 2 ^ (8 * n - 1)"
proof (cases "vch = []")
  case True
  then show ?thesis using assms by (simp add: CScriptNum_of_vch_def set_vch_def split: if_splits)
next
  case False
  have "v = sm_val vch" and "length vch \<le> n"
    using assms by (auto simp: CScriptNum_of_vch_def set_vch_sm_val split: if_splits)
  then have "\<bar>v\<bar> < 2 ^ (8 * length vch - 1)" using sm_val_bound [OF False] by simp
  also have "\<dots> \<le> 2 ^ (8 * n - 1)" using \<open>length vch \<le> n\<close> by (intro power_increasing) auto
  finally show ?thesis .
qed

section \<open>Round trips\<close>

lemma serialize_abs_le_val:
  "bs = [] \<or> last bs \<noteq> 0 \<Longrightarrow> serialize_abs (le_val bs) = bs"
proof (induction bs)
  case (Cons b bs)
  have "last (b # bs) \<in> set (b # bs)" by (rule last_in_set) simp
  with Cons.prems have nz: "le_val (b # bs) \<noteq> 0"
    unfolding le_val_eq_0_iff by blast
  have "bs = [] \<or> last bs \<noteq> 0" using Cons.prems by auto
  then have "serialize_abs (le_val bs) = bs" by (rule Cons.IH)
  moreover have "le_val (b # bs) div 256 = le_val bs" "of_nat (le_val (b # bs) mod 256) = b"
    using unat_byte_lt [of b] by simp_all
  ultimately show ?case using serialize_abs_pos [OF nz] by simp
qed simp

lemma byte_or_80: "\<not> 128 \<le> unat (l :: byte) \<Longrightarrow> unat (l OR 0x80) = unat l + 128"
proof -
  assume "\<not> 128 \<le> unat l"
  then have "0 \<le> uint l" "uint l < 2 ^ 7"
    by simp_all (metis not_le_imp_less of_nat_less_iff of_nat_numeral uint_nat)
  then have "uint l OR push_bit 7 1 = uint l + 2 ^ 7 * 1" by (rule or_push_bit_disjoint)
  then have "uint (l OR 0x80) = uint l + 128" by (simp add: unsigned_or_eq)
  then show ?thesis by (metis nat_int_add unat_eq_nat_uint uint_nat of_nat_numeral)
qed

lemma serialize_nonzero_cases:
  assumes "v \<noteq> 0"
  obtains xs l where "serialize_abs (nat \<bar>v\<bar>) = xs @ [l]" "l \<noteq> 0"
    "serialize v =
       (if 128 \<le> unat l then xs @ [l, if v < 0 then 0x80 else 0]
        else if v < 0 then xs @ [l OR 0x80] else xs @ [l])"
proof -
  define r where "r = serialize_abs (nat \<bar>v\<bar>)"
  have "r \<noteq> []" and "last r \<noteq> 0"
    using assms last_serialize_abs [of "nat \<bar>v\<bar>"] by (simp_all add: r_def)
  then obtain xs l where r: "r = xs @ [l]" "l \<noteq> 0" by (cases r rule: rev_cases) auto
  show ?thesis
  proof (rule that [of xs l])
    show "serialize_abs (nat \<bar>v\<bar>) = xs @ [l]" using r r_def by simp
    then show "serialize v =
       (if 128 \<le> unat l then xs @ [l, if v < 0 then 0x80 else 0]
        else if v < 0 then xs @ [l OR 0x80] else xs @ [l])"
      using assms by (simp add: serialize_def Let_def byte_and_80)
  qed (use r in simp)
qed

lemma set_vch_snoc_0: "set_vch (xs @ [0]) = int (le_val xs)"
  by (simp add: set_vch_sm_val sm_val_snoc)

lemma set_vch_snoc_80: "set_vch (xs @ [0x80]) = - int (le_val xs)"
  by (simp add: set_vch_sm_val sm_val_snoc)

lemma set_vch_serialize: "set_vch (serialize v) = v"
proof (cases "v = 0")
  case False
  then obtain xs l where abs: "serialize_abs (nat \<bar>v\<bar>) = xs @ [l]" and
    ser: "serialize v =
       (if 128 \<le> unat l then xs @ [l, if v < 0 then 0x80 else 0]
        else if v < 0 then xs @ [l OR 0x80] else xs @ [l])"
    by (rule serialize_nonzero_cases)
  have val: "int (le_val (xs @ [l])) = \<bar>v\<bar>"
    using le_val_serialize_abs [of "nat \<bar>v\<bar>"] unfolding abs by simp
  show ?thesis
  proof (cases "128 \<le> unat l")
    case True
    then have "serialize v = (xs @ [l]) @ [if v < 0 then 0x80 else 0]" by (simp add: ser)
    then show ?thesis
      using val set_vch_snoc_0 [of "xs @ [l]"] set_vch_snoc_80 [of "xs @ [l]"]
      by (cases "v < 0") simp_all
  next
    case False
    then show ?thesis
      using val byte_or_80 [OF False]
      by (auto simp: ser set_vch_sm_val sm_val_snoc le_val_append)
  qed
qed (simp add: serialize_def set_vch_def)

text \<open>The bytes accepted with \<open>fRequireMinimal\<close> are exactly what \<open>serialize\<close> writes.\<close>

lemma byte_and_7f: "((l :: byte) AND 0x7f = 0) \<longleftrightarrow> l = 0 \<or> l = 0x80"
proof -
  have "(l AND mask 7 = 0) \<longleftrightarrow> unat l mod 128 = 0"
    using and_mask_dvd_nat [of 7 l] by (simp add: dvd_eq_mod_eq_0)
  also have "\<dots> \<longleftrightarrow> unat l = 0 \<or> unat l = 128"
  proof (cases "128 \<le> unat l")
    case True
    then obtain d where "unat l = 128 + d" "d < 128" by (rule byte_high_split)
    then show ?thesis by simp
  qed simp
  also have "\<dots> \<longleftrightarrow> l = 0 \<or> l = 0x80"
    by (simp add: word_unat_eq_iff)
  finally show ?thesis by (simp add: mask_eq_exp_minus_1)
qed

lemma serialize_set_vch:
  assumes "CScriptNum_of_vch vch True n = Inr v"
  shows "serialize v = vch"
proof (cases vch rule: rev_cases)
  case Nil
  then show ?thesis using assms by (simp add: CScriptNum_of_vch_def set_vch_def serialize_def split: if_splits)
next
  case (snoc xs l)
  have v: "v = sm_val (xs @ [l])"
    and min: "l \<noteq> 0 \<and> l \<noteq> 0x80 \<or> (xs \<noteq> [] \<and> 128 \<le> unat (last xs))"
    using assms snoc
    by (auto simp: CScriptNum_of_vch_def set_vch_sm_val byte_and_7f byte_and_80 [symmetric]
        nth_append last_conv_nth split: if_splits)
  show ?thesis
  proof (cases "l = 0 \<or> l = 0x80")
    case True
    with min have xs: "xs \<noteq> []" "128 \<le> unat (last xs)" by auto
    have abs: "nat \<bar>v\<bar> = le_val xs" and neg: "v < 0 \<longleftrightarrow> l = 0x80 \<and> le_val xs \<noteq> 0"
      using True v by (auto simp: sm_val_snoc)
    have "last xs \<noteq> 0" using xs by auto
    then have ser: "serialize_abs (le_val xs) = xs" by (simp add: serialize_abs_le_val)
    then have "le_val xs \<noteq> 0" using xs by (metis serialize_abs_eq_Nil)
    moreover have "v \<noteq> 0" using abs calculation by auto
    ultimately show ?thesis
      using True xs snoc byte_and_80 [of "last xs"] neg
      by (auto simp: serialize_def Let_def abs ser)
  next
    case False
    show ?thesis
    proof (cases "128 \<le> unat l")
      case True
      then obtain d where d: "unat l = 128 + d" "d < 128" by (rule byte_high_split)
      have "d \<noteq> 0" using d False by (auto simp: word_unat_eq_iff)
      then have d0: "(of_nat d :: byte) \<noteq> 0" using d by (simp add: word_unat_eq_iff)
      have "v = - int (le_val (xs @ [of_nat d]))"
        using v d by (simp add: sm_val_snoc le_val_append)
      moreover have "le_val (xs @ [of_nat d]) \<noteq> 0"
        using d0 by (auto simp only: le_val_eq_0_iff set_append list.set)
      ultimately have abs: "nat \<bar>v\<bar> = le_val (xs @ [of_nat d])" and neg: "v < 0"
        by linarith+
      have ser: "serialize_abs (nat \<bar>v\<bar>) = xs @ [of_nat d]"
        unfolding abs using d0 by (simp add: serialize_abs_le_val)
      have "\<not> 128 \<le> unat (of_nat d :: byte)" using d by simp
      note low = this byte_or_80 [OF this]
      then have "of_nat d OR 0x80 = l" using d by (simp add: word_unat_eq_iff)
      moreover have "serialize v = xs @ [of_nat d OR 0x80]"
        using low neg ser by (simp add: serialize_def Let_def byte_and_80)
      ultimately show ?thesis using snoc by simp
    next
      case low: False
      have abs: "v = int (le_val vch)" using low v snoc by (simp add: sm_val_snoc le_val_append)
      have "le_val vch \<noteq> 0" using False snoc by (simp add: le_val_eq_0_iff)
      moreover have "serialize_abs (le_val vch) = vch"
        using False snoc by (simp add: serialize_abs_le_val)
      ultimately show ?thesis
        using low snoc by (simp add: serialize_def Let_def abs byte_and_80)
    qed
  qed
qed

lemma serialize_length:
  assumes "\<bar>v\<bar> < 2 ^ (8 * n)"
  shows "length (serialize v) \<le> n + 1"
proof -
  have "nat \<bar>v\<bar> < 256 ^ n" using assms by (simp add: power_mult nat_less_iff)
  then have "length (serialize_abs (nat \<bar>v\<bar>)) \<le> n" by (rule length_serialize_abs)
  then show ?thesis by (auto simp: serialize_def Let_def)
qed

text \<open>One addition, subtraction or negation of operands taken from the stack cannot leave the
  64 bit range.\<close>

lemma scriptnum_arith_no_overflow:
  assumes "CScriptNum_of_vch a m1 5 = Inr x" and "CScriptNum_of_vch b m2 5 = Inr y"
  shows "\<bar>x + y\<bar> < 2 ^ 63" and "\<bar>x - y\<bar> < 2 ^ 63" and "\<bar>- x\<bar> < 2 ^ 63"
proof -
  have "\<bar>x\<bar> < 2 ^ 39" "\<bar>y\<bar> < 2 ^ 39"
    using assms [THEN CScriptNum_of_vch_bound] by simp_all
  then show "\<bar>x + y\<bar> < 2 ^ 63" "\<bar>x - y\<bar> < 2 ^ 63" "\<bar>- x\<bar> < 2 ^ 63" by simp_all
qed

lemma serialize_minimal:
  "\<not> (serialize v \<noteq> [] \<and> last (serialize v) AND 0x7f = 0 \<and>
     (length (serialize v) \<le> 1 \<or> serialize v ! (length (serialize v) - 2) AND 0x80 = 0))"
proof (cases "v = 0")
  case False
  then obtain xs l where l: "l \<noteq> 0" and
    ser: "serialize v =
       (if 128 \<le> unat l then xs @ [l, if v < 0 then 0x80 else 0]
        else if v < 0 then xs @ [l OR 0x80] else xs @ [l])"
    by (rule serialize_nonzero_cases)
  show ?thesis
  proof (cases "128 \<le> unat l")
    case True
    then show ?thesis by (simp add: ser nth_append byte_and_80_zero)
  next
    case False
    have "unat l \<noteq> 0" using l by (simp add: unsigned_eq_0_iff)
    then have "l OR 0x80 \<noteq> 0" "l OR 0x80 \<noteq> 0x80"
      using byte_or_80 [OF False] by (auto simp: word_unat_eq_iff)
    moreover have "l \<noteq> 0x80" using False by auto
    ultimately show ?thesis using False l by (auto simp: ser byte_and_7f)
  qed
qed (simp add: serialize_def)

text \<open>Script numbers have one minimal encoding: under \<open>fRequireMinimal\<close> the byte string \<open>vch\<close> is
  accepted as the number \<open>v\<close> exactly when it is what \<open>serialize\<close> writes for \<open>v\<close> and fits the size
  limit; so negative zero and padded encodings are rejected and no number is lost.\<close>

theorem CScriptNum_minimal:
  "CScriptNum_of_vch vch True n = Inr v \<longleftrightarrow> vch = serialize v \<and> length vch \<le> n"
proof
  assume a: "CScriptNum_of_vch vch True n = Inr v"
  then have "length vch \<le> n" by (simp add: CScriptNum_of_vch_def split: if_splits)
  with serialize_set_vch [OF a] show "vch = serialize v \<and> length vch \<le> n" by simp
next
  assume "vch = serialize v \<and> length vch \<le> n"
  then show "CScriptNum_of_vch vch True n = Inr v"
    using serialize_minimal [of v] by (auto simp: CScriptNum_of_vch_def set_vch_serialize)
qed

end
