(* ===== verification/Script.thy ===== *)
theory Script
  imports ScriptNum
begin

text \<open>
  \<open>CScript\<close> (src/src/script/script.h, script.cpp): the serialized script as a byte string, how it
  is built by the push operators, how instructions are read back, and the pattern tests and
  signature-operation counts that consensus code takes from it.
\<close>

section \<open>Opcodes\<close>

named_theorems opcode_defs \<open>values of the opcode names\<close>

text \<open>\<open>enum opcodetype\<close>; the read loop compares opcodes as unsigned integers, so they are
  numbers here.\<close>

definition OP_0 :: nat where [opcode_defs]: "OP_0 = 0x00"
definition OP_FALSE :: nat where [opcode_defs]: "OP_FALSE = OP_0"
definition OP_PUSHDATA1 :: nat where [opcode_defs]: "OP_PUSHDATA1 = 0x4c"
definition OP_PUSHDATA2 :: nat where [opcode_defs]: "OP_PUSHDATA2 = 0x4d"
definition OP_PUSHDATA4 :: nat where [opcode_defs]: "OP_PUSHDATA4 = 0x4e"
definition OP_1NEGATE :: nat where [opcode_defs]: "OP_1NEGATE = 0x4f"
definition OP_RESERVED :: nat where [opcode_defs]: "OP_RESERVED = 0x50"
definition OP_1 :: nat where [opcode_defs]: "OP_1 = 0x51"
definition OP_TRUE :: nat where [opcode_defs]: "OP_TRUE = OP_1"
definition OP_2 :: nat where [opcode_defs]: "OP_2 = 0x52"
definition OP_3 :: nat where [opcode_defs]: "OP_3 = 0x53"
definition OP_4 :: nat where [opcode_defs]: "OP_4 = 0x54"
definition OP_5 :: nat where [opcode_defs]: "OP_5 = 0x55"
definition OP_6 :: nat where [opcode_defs]: "OP_6 = 0x56"
definition OP_7 :: nat where [opcode_defs]: "OP_7 = 0x57"
definition OP_8 :: nat where [opcode_defs]: "OP_8 = 0x58"
definition OP_9 :: nat where [opcode_defs]: "OP_9 = 0x59"
definition OP_10 :: nat where [opcode_defs]: "OP_10 = 0x5a"
definition OP_11 :: nat where [opcode_defs]: "OP_11 = 0x5b"
definition OP_12 :: nat where [opcode_defs]: "OP_12 = 0x5c"
definition OP_13 :: nat where [opcode_defs]: "OP_13 = 0x5d"
definition OP_14 :: nat where [opcode_defs]: "OP_14 = 0x5e"
definition OP_15 :: nat where [opcode_defs]: "OP_15 = 0x5f"
definition OP_16 :: nat where [opcode_defs]: "OP_16 = 0x60"
definition OP_NOP :: nat where [opcode_defs]: "OP_NOP = 0x61"
definition OP_VER :: nat where [opcode_defs]: "OP_VER = 0x62"
definition OP_IF :: nat where [opcode_defs]: "OP_IF = 0x63"
definition OP_NOTIF :: nat where [opcode_defs]: "OP_NOTIF = 0x64"
definition OP_VERIF :: nat where [opcode_defs]: "OP_VERIF = 0x65"
definition OP_VERNOTIF :: nat where [opcode_defs]: "OP_VERNOTIF = 0x66"
definition OP_ELSE :: nat where [opcode_defs]: "OP_ELSE = 0x67"
definition OP_ENDIF :: nat where [opcode_defs]: "OP_ENDIF = 0x68"
definition OP_VERIFY :: nat where [opcode_defs]: "OP_VERIFY = 0x69"
definition OP_RETURN :: nat where [opcode_defs]: "OP_RETURN = 0x6a"
definition OP_TOALTSTACK :: nat where [opcode_defs]: "OP_TOALTSTACK = 0x6b"
definition OP_FROMALTSTACK :: nat where [opcode_defs]: "OP_FROMALTSTACK = 0x6c"
definition OP_2DROP :: nat where [opcode_defs]: "OP_2DROP = 0x6d"
definition OP_2DUP :: nat where [opcode_defs]: "OP_2DUP = 0x6e"
definition OP_3DUP :: nat where [opcode_defs]: "OP_3DUP = 0x6f"
definition OP_2OVER :: nat where [opcode_defs]: "OP_2OVER = 0x70"
definition OP_2ROT :: nat where [opcode_defs]: "OP_2ROT = 0x71"
definition OP_2SWAP :: nat where [opcode_defs]: "OP_2SWAP = 0x72"
definition OP_IFDUP :: nat where [opcode_defs]: "OP_IFDUP = 0x73"
definition OP_DEPTH :: nat where [opcode_defs]: "OP_DEPTH = 0x74"
definition OP_DROP :: nat where [opcode_defs]: "OP_DROP = 0x75"
definition OP_DUP :: nat where [opcode_defs]: "OP_DUP = 0x76"
definition OP_NIP :: nat where [opcode_defs]: "OP_NIP = 0x77"
definition OP_OVER :: nat where [opcode_defs]: "OP_OVER = 0x78"
definition OP_PICK :: nat where [opcode_defs]: "OP_PICK = 0x79"
definition OP_ROLL :: nat where [opcode_defs]: "OP_ROLL = 0x7a"
definition OP_ROT :: nat where [opcode_defs]: "OP_ROT = 0x7b"
definition OP_SWAP :: nat where [opcode_defs]: "OP_SWAP = 0x7c"
definition OP_TUCK :: nat where [opcode_defs]: "OP_TUCK = 0x7d"
definition OP_CAT :: nat where [opcode_defs]: "OP_CAT = 0x7e"
definition OP_SUBSTR :: nat where [opcode_defs]: "OP_SUBSTR = 0x7f"
definition OP_LEFT :: nat where [opcode_defs]: "OP_LEFT = 0x80"
definition OP_RIGHT :: nat where [opcode_defs]: "OP_RIGHT = 0x81"
definition OP_SIZE :: nat where [opcode_defs]: "OP_SIZE = 0x82"
definition OP_INVERT :: nat where [opcode_defs]: "OP_INVERT = 0x83"
definition OP_AND :: nat where [opcode_defs]: "OP_AND = 0x84"
definition OP_OR :: nat where [opcode_defs]: "OP_OR = 0x85"
definition OP_XOR :: nat where [opcode_defs]: "OP_XOR = 0x86"
definition OP_EQUAL :: nat where [opcode_defs]: "OP_EQUAL = 0x87"
definition OP_EQUALVERIFY :: nat where [opcode_defs]: "OP_EQUALVERIFY = 0x88"
definition OP_RESERVED1 :: nat where [opcode_defs]: "OP_RESERVED1 = 0x89"
definition OP_RESERVED2 :: nat where [opcode_defs]: "OP_RESERVED2 = 0x8a"
definition OP_1ADD :: nat where [opcode_defs]: "OP_1ADD = 0x8b"
definition OP_1SUB :: nat where [opcode_defs]: "OP_1SUB = 0x8c"
definition OP_2MUL :: nat where [opcode_defs]: "OP_2MUL = 0x8d"
definition OP_2DIV :: nat where [opcode_defs]: "OP_2DIV = 0x8e"
definition OP_NEGATE :: nat where [opcode_defs]: "OP_NEGATE = 0x8f"
definition OP_ABS :: nat where [opcode_defs]: "OP_ABS = 0x90"
definition OP_NOT :: nat where [opcode_defs]: "OP_NOT = 0x91"
definition OP_0NOTEQUAL :: nat where [opcode_defs]: "OP_0NOTEQUAL = 0x92"
definition OP_ADD :: nat where [opcode_defs]: "OP_ADD = 0x93"
definition OP_SUB :: nat where [opcode_defs]: "OP_SUB = 0x94"
definition OP_MUL :: nat where [opcode_defs]: "OP_MUL = 0x95"
definition OP_DIV :: nat where [opcode_defs]: "OP_DIV = 0x96"
definition OP_MOD :: nat where [opcode_defs]: "OP_MOD = 0x97"
definition OP_LSHIFT :: nat where [opcode_defs]: "OP_LSHIFT = 0x98"
definition OP_RSHIFT :: nat where [opcode_defs]: "OP_RSHIFT = 0x99"
definition OP_BOOLAND :: nat where [opcode_defs]: "OP_BOOLAND = 0x9a"
definition OP_BOOLOR :: nat where [opcode_defs]: "OP_BOOLOR = 0x9b"
definition OP_NUMEQUAL :: nat where [opcode_defs]: "OP_NUMEQUAL = 0x9c"
definition OP_NUMEQUALVERIFY :: nat where [opcode_defs]: "OP_NUMEQUALVERIFY = 0x9d"
definition OP_NUMNOTEQUAL :: nat where [opcode_defs]: "OP_NUMNOTEQUAL = 0x9e"
definition OP_LESSTHAN :: nat where [opcode_defs]: "OP_LESSTHAN = 0x9f"
definition OP_GREATERTHAN :: nat where [opcode_defs]: "OP_GREATERTHAN = 0xa0"
definition OP_LESSTHANOREQUAL :: nat where [opcode_defs]: "OP_LESSTHANOREQUAL = 0xa1"
definition OP_GREATERTHANOREQUAL :: nat where [opcode_defs]: "OP_GREATERTHANOREQUAL = 0xa2"
definition OP_MIN :: nat where [opcode_defs]: "OP_MIN = 0xa3"
definition OP_MAX :: nat where [opcode_defs]: "OP_MAX = 0xa4"
definition OP_WITHIN :: nat where [opcode_defs]: "OP_WITHIN = 0xa5"
definition OP_RIPEMD160 :: nat where [opcode_defs]: "OP_RIPEMD160 = 0xa6"
definition OP_SHA1 :: nat where [opcode_defs]: "OP_SHA1 = 0xa7"
definition OP_SHA256 :: nat where [opcode_defs]: "OP_SHA256 = 0xa8"
definition OP_HASH160 :: nat where [opcode_defs]: "OP_HASH160 = 0xa9"
definition OP_HASH256 :: nat where [opcode_defs]: "OP_HASH256 = 0xaa"
definition OP_CODESEPARATOR :: nat where [opcode_defs]: "OP_CODESEPARATOR = 0xab"
definition OP_CHECKSIG :: nat where [opcode_defs]: "OP_CHECKSIG = 0xac"
definition OP_CHECKSIGVERIFY :: nat where [opcode_defs]: "OP_CHECKSIGVERIFY = 0xad"
definition OP_CHECKMULTISIG :: nat where [opcode_defs]: "OP_CHECKMULTISIG = 0xae"
definition OP_CHECKMULTISIGVERIFY :: nat where [opcode_defs]: "OP_CHECKMULTISIGVERIFY = 0xaf"
definition OP_NOP1 :: nat where [opcode_defs]: "OP_NOP1 = 0xb0"
definition OP_CHECKLOCKTIMEVERIFY :: nat where [opcode_defs]: "OP_CHECKLOCKTIMEVERIFY = 0xb1"
definition OP_NOP2 :: nat where [opcode_defs]: "OP_NOP2 = OP_CHECKLOCKTIMEVERIFY"
definition OP_NOP3 :: nat where [opcode_defs]: "OP_NOP3 = 0xb2"
definition OP_CHECKSEQUENCEVERIFY :: nat where [opcode_defs]: "OP_CHECKSEQUENCEVERIFY = OP_NOP3"
definition OP_NOP4 :: nat where [opcode_defs]: "OP_NOP4 = 0xb3"
definition OP_NOP5 :: nat where [opcode_defs]: "OP_NOP5 = 0xb4"
definition OP_NOP6 :: nat where [opcode_defs]: "OP_NOP6 = 0xb5"
definition OP_NOP7 :: nat where [opcode_defs]: "OP_NOP7 = 0xb6"
definition OP_NOP8 :: nat where [opcode_defs]: "OP_NOP8 = 0xb7"
definition OP_NOP9 :: nat where [opcode_defs]: "OP_NOP9 = 0xb8"
definition OP_NOP10 :: nat where [opcode_defs]: "OP_NOP10 = 0xb9"
definition OP_ZEROCOINMINT :: nat where [opcode_defs]: "OP_ZEROCOINMINT = 0xc1"
definition OP_ZEROCOINSPEND :: nat where [opcode_defs]: "OP_ZEROCOINSPEND = 0xc2"
definition OP_SMALLINTEGER :: nat where [opcode_defs]: "OP_SMALLINTEGER = 0xfa"
definition OP_PUBKEYS :: nat where [opcode_defs]: "OP_PUBKEYS = 0xfb"
definition OP_PUBKEYHASH :: nat where [opcode_defs]: "OP_PUBKEYHASH = 0xfd"
definition OP_PUBKEY :: nat where [opcode_defs]: "OP_PUBKEY = 0xfe"
definition OP_INVALIDOPCODE :: nat where [opcode_defs]: "OP_INVALIDOPCODE = 0xff"

section \<open>Building scripts\<close>

text \<open>\<open>operator<<(opcodetype)\<close>; the C++ throws on values above \<open>0xff\<close>, which no enumerator has.\<close>

definition push_opcode :: "bytes \<Rightarrow> nat \<Rightarrow> bytes" where
  "push_opcode s opcode = s @ [of_nat opcode]"

text \<open>\<open>operator<<(vector)\<close>: the shortest length prefix that fits.\<close>

definition push_data :: "bytes \<Rightarrow> bytes \<Rightarrow> bytes" where
  "push_data s b =
     (if length b < OP_PUSHDATA1 then s @ [of_nat (length b)] @ b
      else if length b \<le> 0xff then s @ [of_nat OP_PUSHDATA1, of_nat (length b)] @ b
      else if length b \<le> 0xffff then s @ [of_nat OP_PUSHDATA2] @ le_bytes 2 (length b) @ b
      else s @ [of_nat OP_PUSHDATA4] @ le_bytes 4 (length b) @ b)"

definition push_int64 :: "bytes \<Rightarrow> int \<Rightarrow> bytes" where
  "push_int64 s n =
     (if n = -1 \<or> (1 \<le> n \<and> n \<le> 16) then s @ [of_int (n + int (OP_1 - 1))]
      else if n = 0 then s @ [of_nat OP_0]
      else push_data s (serialize n))"

section \<open>Reading instructions\<close>

text \<open>
  \<open>GetOp2\<close> returns whether an instruction was read, its opcode (\<open>OP_INVALIDOPCODE\<close> on failure),
  its immediate operand and the iterator after it.  A failing read leaves the iterator behind
  what it had consumed, which some callers observe.
\<close>

definition GetOp2_size :: "nat \<Rightarrow> bytes \<Rightarrow> (nat \<times> bytes) option" where
  "GetOp2_size opcode pc =
     (if opcode < OP_PUSHDATA1 then Some (opcode, pc)
      else if opcode = OP_PUSHDATA1 then
        (if length pc < 1 then None else Some (le_val (take 1 pc), drop 1 pc))
      else if opcode = OP_PUSHDATA2 then
        (if length pc < 2 then None else Some (le_val (take 2 pc), drop 2 pc))
      else
        (if length pc < 4 then None else Some (le_val (take 4 pc), drop 4 pc)))"

definition GetOp2 :: "bytes \<Rightarrow> bool \<times> nat \<times> bytes \<times> bytes" where
  "GetOp2 pc =
     (case pc of
        [] \<Rightarrow> (False, OP_INVALIDOPCODE, [], [])
      | b # pc1 \<Rightarrow>
          (let opcode = unat b
           in if opcode \<le> OP_PUSHDATA4 then
                (case GetOp2_size opcode pc1 of
                   None \<Rightarrow> (False, OP_INVALIDOPCODE, [], pc1)
                 | Some (nSize, pc2) \<Rightarrow>
                     if length pc2 < nSize then (False, OP_INVALIDOPCODE, [], pc2)
                     else (True, opcode, take nSize pc2, drop nSize pc2))
              else (True, opcode, [], pc1)))"

text \<open>\<open>DecodeOP_N\<close> and \<open>EncodeOP_N\<close>; \<open>None\<close> is the failing \<open>assert\<close>.\<close>

definition DecodeOP_N :: "nat \<Rightarrow> nat option" where
  "DecodeOP_N opcode =
     (if opcode = OP_0 then Some 0
      else if OP_1 \<le> opcode \<and> opcode \<le> OP_16 then Some (opcode - (OP_1 - 1))
      else None)"

definition EncodeOP_N :: "int \<Rightarrow> nat option" where
  "EncodeOP_N n =
     (if 0 \<le> n \<and> n \<le> 16 then Some (if n = 0 then OP_0 else OP_1 + nat n - 1) else None)"

lemma GetOp2_consumes:
  assumes "GetOp2 pc = (ok, opcode, data, pc')" and "pc \<noteq> []"
  shows "length pc' < length pc"
  using assms
  by (auto simp: GetOp2_def GetOp2_size_def Let_def split: list.splits option.splits if_splits)

lemma GetOp2_Nil [simp]: "GetOp2 [] = (False, OP_INVALIDOPCODE, [], [])"
  by (simp add: GetOp2_def)

lemma GetOp2_ok_nonempty: "GetOp2 pc = (True, opcode, data, pc') \<Longrightarrow> pc \<noteq> []"
  by auto

lemma GetOp2_ok_consumes [dest]: "GetOp2 pc = (True, opcode, data, pc') \<Longrightarrow> length pc' < length pc"
  using GetOp2_consumes GetOp2_ok_nonempty by blast

lemmas GetOp2_measure = GetOp2_ok_consumes [OF sym] GetOp2_consumes [OF sym]

lemma GetOp2_opcode_lt: "GetOp2 pc = (ok, opcode, data, pc') \<Longrightarrow> opcode \<le> 255"
  using unat_byte_lt
  by (auto simp: GetOp2_def Let_def opcode_defs less_Suc_eq_le [symmetric]
      split: list.splits option.splits if_splits)

lemma GetOp2_data_opcode: "GetOp2 pc = (ok, opcode, data, pc') \<Longrightarrow> data \<noteq> [] \<Longrightarrow> opcode \<le> OP_PUSHDATA4"
  by (auto simp: GetOp2_def Let_def split: list.splits option.splits if_splits)

lemma GetOp2_suffix: "GetOp2 pc = (ok, opcode, data, pc') \<Longrightarrow> \<exists>xs. pc = xs @ pc'"
  by (auto simp: GetOp2_def GetOp2_size_def Let_def split: list.splits option.splits if_splits)
    (metis append_take_drop_id append_Cons append_Nil append_assoc drop_drop)+

section \<open>Searching and counting\<close>

text \<open>The inner loop of \<open>FindAndDelete\<close>: erase \<open>b\<close> as long as it stands at the iterator.\<close>

function strip_prefix :: "bytes \<Rightarrow> bytes \<Rightarrow> nat \<times> bytes" where
  "strip_prefix b pc =
     (if b \<noteq> [] \<and> length b \<le> length pc \<and> take (length b) pc = b
      then (case strip_prefix b (drop (length b) pc) of (n, r) \<Rightarrow> (Suc n, r))
      else (0, pc))"
  by pat_completeness auto
termination
proof (relation "measure (\<lambda>(b, pc). length pc)")
  fix b pc :: bytes
  assume "b \<noteq> [] \<and> length b \<le> length pc \<and> take (length b) pc = b"
  then have "length pc - length b < length pc" by (intro diff_less) auto
  then show "((b, drop (length b) pc), b, pc) \<in> measure (\<lambda>(b, pc). length pc)"
    by simp
qed simp

declare strip_prefix.simps [simp del]

lemma strip_prefix_length: "strip_prefix b pc = (k, pc1) \<Longrightarrow> length pc1 \<le> length pc"
proof (induction b pc arbitrary: k pc1 rule: strip_prefix.induct)
  case (1 b pc)
  show ?case
  proof (cases "b \<noteq> [] \<and> length b \<le> length pc \<and> take (length b) pc = b")
    case True
    obtain n r where r: "strip_prefix b (drop (length b) pc) = (n, r)" by fastforce
    with True "1.IH" have "length r \<le> length (drop (length b) pc)" by blast
    moreover have "pc1 = r" using "1.prems" True r by (simp add: strip_prefix.simps [of b pc])
    ultimately show ?thesis by simp
  qed (use "1.prems" in \<open>auto simp: strip_prefix.simps [of b pc]\<close>)
qed

text \<open>The outer loop: the number of deletions and what is left of the script from the iterator on.\<close>

function FindAndDelete_loop :: "bytes \<Rightarrow> bytes \<Rightarrow> nat \<times> bytes" where
  "FindAndDelete_loop b pc =
     (case strip_prefix b pc of (k, pc1) \<Rightarrow>
      case GetOp2 pc1 of (ok, opcode, data, pc2) \<Rightarrow>
        if ok
        then (case FindAndDelete_loop b pc2 of (n, r) \<Rightarrow>
               (k + n, take (length pc1 - length pc2) pc1 @ r))
        else (k, pc1))"
  by pat_completeness auto
termination
  by (relation "measure (\<lambda>(b, pc). length pc)")
    (auto dest!: strip_prefix_length [OF sym] dest: GetOp2_measure less_le_trans)

declare FindAndDelete_loop.simps [simp del]

definition FindAndDelete :: "bytes \<Rightarrow> bytes \<Rightarrow> nat \<times> bytes" where
  "FindAndDelete script b = (if b = [] then (0, script) else FindAndDelete_loop b script)"

function FindOp :: "nat \<Rightarrow> bytes \<Rightarrow> nat" where
  "FindOp opc pc =
     (if pc = [] then 0
      else case GetOp2 pc of (ok, opcode, data, pc') \<Rightarrow>
        if ok then (if opcode = opc then 1 else 0) + FindOp opc pc' else 0)"
  by pat_completeness auto
termination
  by (relation "measure (\<lambda>(opc, pc). length pc)") (auto dest: GetOp2_measure)

declare FindOp.simps [simp del]

text \<open>\<open>GetSigOpCount(bool fAccurate)\<close>; counts stay far below \<open>2 ^ 32\<close> (at most 20 a byte).\<close>

definition sigop_weight :: "bool \<Rightarrow> nat \<Rightarrow> nat \<Rightarrow> nat" where
  "sigop_weight fAccurate lastOpcode opcode =
     (if opcode = OP_CHECKSIG \<or> opcode = OP_CHECKSIGVERIFY then 1
      else if opcode = OP_CHECKMULTISIG \<or> opcode = OP_CHECKMULTISIGVERIFY then
        (if fAccurate \<and> OP_1 \<le> lastOpcode \<and> lastOpcode \<le> OP_16
         then the (DecodeOP_N lastOpcode) else 20)
      else 0)"

function GetSigOpCount_loop :: "bool \<Rightarrow> nat \<Rightarrow> nat \<Rightarrow> bytes \<Rightarrow> nat" where
  "GetSigOpCount_loop fAccurate lastOpcode n pc =
     (if pc = [] then n
      else case GetOp2 pc of (ok, opcode, data, pc') \<Rightarrow>
        if \<not> ok then n
        else GetSigOpCount_loop fAccurate opcode (n + sigop_weight fAccurate lastOpcode opcode) pc')"
  by pat_completeness auto
termination
  by (relation "measure (\<lambda>(f, l, n, pc). length pc)") (auto dest: GetOp2_measure)

declare GetSigOpCount_loop.simps [simp del]

definition GetSigOpCount :: "bool \<Rightarrow> bytes \<Rightarrow> nat" where
  "GetSigOpCount fAccurate script = GetSigOpCount_loop fAccurate OP_INVALIDOPCODE 0 script"

section \<open>Pattern tests\<close>

definition IsPayToScriptHash :: "bytes \<Rightarrow> bool" where
  "IsPayToScriptHash s \<longleftrightarrow>
     length s = 23 \<and> unat (s ! 0) = OP_HASH160 \<and> s ! 1 = 0x14 \<and> unat (s ! 22) = OP_EQUAL"

definition IsZerocoinMint :: "bytes \<Rightarrow> bool" where
  "IsZerocoinMint s \<longleftrightarrow> length s > 0 \<and> unat (s ! 0) = OP_ZEROCOINMINT"

definition IsZerocoinSpend :: "bytes \<Rightarrow> bool" where
  "IsZerocoinSpend s \<longleftrightarrow> (if s = [] then False else unat (s ! 0) = OP_ZEROCOINSPEND)"

definition IsPayToWitnessScriptHash :: "bytes \<Rightarrow> bool" where
  "IsPayToWitnessScriptHash s \<longleftrightarrow> length s = 34 \<and> unat (s ! 0) = OP_0 \<and> s ! 1 = 0x20"

definition IsWitnessProgram :: "bytes \<Rightarrow> (nat \<times> bytes) option" where
  "IsWitnessProgram s =
     (if length s < 4 \<or> length s > 42 then None
      else if unat (s ! 0) \<noteq> OP_0 \<and> (unat (s ! 0) < OP_1 \<or> unat (s ! 0) > OP_16) then None
      else if unat (s ! 1) + 2 = length s then
        Some (the (DecodeOP_N (unat (s ! 0))), drop 2 s)
      else None)"

definition IsUnspendable :: "bytes \<Rightarrow> bool" where
  "IsUnspendable s \<longleftrightarrow> length s > 0 \<and> unat (s ! 0) = OP_RETURN"

function IsPushOnly :: "bytes \<Rightarrow> bool" where
  "IsPushOnly pc =
     (if pc = [] then True
      else case GetOp2 pc of (ok, opcode, data, pc') \<Rightarrow>
        if \<not> ok then False
        else if opcode > OP_16 then False
        else IsPushOnly pc')"
  by pat_completeness auto
termination
  by (relation "measure length") (auto dest: GetOp2_measure)

declare IsPushOnly.simps [simp del]

text \<open>The result of \<open>GetOp\<close> is ignored in the loop of \<open>IsNormalPaymentScript\<close>; a failing read leaves
  \<open>OP_INVALIDOPCODE\<close> in \<open>opcode\<close>.\<close>

function IsNormalPaymentScript_loop :: "nat \<Rightarrow> bytes \<Rightarrow> bool" where
  "IsNormalPaymentScript_loop i pc =
     (if pc = [] then True
      else case GetOp2 pc of (ok, opcode, data, pc') \<Rightarrow>
        if i = 0 \<and> opcode \<noteq> OP_DUP then False
        else if i = 1 \<and> opcode \<noteq> OP_HASH160 then False
        else if i = 3 \<and> opcode \<noteq> OP_EQUALVERIFY then False
        else if i = 4 \<and> opcode \<noteq> OP_CHECKSIG then False
        else if i = 5 then False
        else IsNormalPaymentScript_loop (i + 1) pc')"
  by pat_completeness auto
termination
  by (relation "measure (\<lambda>(i, pc). length pc)") (auto dest: GetOp2_measure)

declare IsNormalPaymentScript_loop.simps [simp del]

definition IsNormalPaymentScript :: "bytes \<Rightarrow> bool" where
  "IsNormalPaymentScript s = (if length s \<noteq> 25 then False else IsNormalPaymentScript_loop 0 s)"

text \<open>\<open>GetSigOpCount(const CScript& scriptSig)\<close>: the last item a push-only \<open>scriptSig\<close> pushes, or
  \<open>None\<close> where the source returns 0.\<close>

function last_push :: "bytes \<Rightarrow> bytes \<Rightarrow> bytes option" where
  "last_push data pc =
     (if pc = [] then Some data
      else case GetOp2 pc of (ok, opcode, data', pc') \<Rightarrow>
        if \<not> ok then None
        else if opcode > OP_16 then None
        else last_push data' pc')"
  by pat_completeness auto
termination
  by (relation "measure (\<lambda>(d, pc). length pc)") (auto dest: GetOp2_measure)

declare last_push.simps [simp del]

definition GetSigOpCount_p2sh :: "bytes \<Rightarrow> bytes \<Rightarrow> nat" where
  "GetSigOpCount_p2sh script scriptSig =
     (if \<not> IsPayToScriptHash script then GetSigOpCount True script
      else case last_push [] scriptSig of
             None \<Rightarrow> 0
           | Some data \<Rightarrow> GetSigOpCount True data)"

section \<open>Reading back what was pushed\<close>

text \<open>Instructions are read locally: what follows them does not matter.\<close>

lemma GetOp2_size_local:
  assumes "GetOp2_size opcode pc = Some (n, pc2)"
  shows "\<exists>hs. pc = hs @ pc2 \<and> (\<forall>zs. GetOp2_size opcode (hs @ zs) = Some (n, zs))"
proof -
  define k :: nat where
    "k = (if opcode < OP_PUSHDATA1 then 0 else if opcode = OP_PUSHDATA1 then 1
          else if opcode = OP_PUSHDATA2 then 2 else 4)"
  have k: "k \<le> length pc" and "pc2 = drop k pc"
    using assms by (auto simp: GetOp2_size_def k_def Suc_le_eq split: if_splits)
  then have "length (take k pc) = k" by simp
  then have "GetOp2_size opcode (take k pc @ zs) = Some (n, zs)" for zs
    using assms by (auto simp: GetOp2_size_def k_def opcode_defs split: if_splits)
  with \<open>pc2 = drop k pc\<close> show ?thesis by (metis append_take_drop_id)
qed

lemma GetOp2_instr:
  assumes "GetOp2 pc = (True, opcode, data, pc')"
  shows "\<exists>xs. pc = xs @ pc' \<and> xs \<noteq> [] \<and> (\<forall>ys. GetOp2 (xs @ ys) = (True, opcode, data, ys))"
proof (cases pc)
  case Nil
  then show ?thesis using assms by simp
next
  case (Cons b pc1)
  show ?thesis
  proof (cases "unat b \<le> OP_PUSHDATA4")
    case True
    then obtain n pc2 where size: "GetOp2_size (unat b) pc1 = Some (n, pc2)"
      and n: "n \<le> length pc2" and op: "opcode = unat b" "data = take n pc2" "pc' = drop n pc2"
      using assms Cons by (auto simp: GetOp2_def Let_def split: option.splits if_splits)
    from GetOp2_size_local [OF size] obtain hs where hs: "pc1 = hs @ pc2"
      "\<And>zs. GetOp2_size (unat b) (hs @ zs) = Some (n, zs)" by blast
    have "pc = (b # hs @ take n pc2) @ pc'" using Cons hs(1) op by simp
    moreover have "GetOp2 ((b # hs @ take n pc2) @ ys) = (True, opcode, data, ys)" for ys
      using True n op by (simp add: GetOp2_def hs(2))
    ultimately show ?thesis by (metis list.distinct(1) append_Cons)
  next
    case False
    then show ?thesis
      using assms Cons by (intro exI [of _ "[b]"]) (auto simp: GetOp2_def Let_def)
  qed
qed

lemma GetOp2_append:
  assumes "GetOp2 pc = (True, opcode, data, pc')"
  shows "GetOp2 (pc @ ys) = (True, opcode, data, pc' @ ys)"
proof -
  from GetOp2_instr [OF assms] obtain xs
    where "pc = xs @ pc'" "\<forall>ys. GetOp2 (xs @ ys) = (True, opcode, data, ys)" by blast
  then show ?thesis by simp
qed

lemma le_val_take_1: "le_val (take (Suc 0) (b # bs)) = unat b"
  by simp

lemma GetOp2_push_data:
  assumes "length d < 2 ^ 32"
  shows "\<exists>opcode. GetOp2 (push_data [] d @ rest) = (True, opcode, d, rest) \<and> opcode \<le> OP_PUSHDATA4"
proof -
  consider "length d < 76" | "76 \<le> length d" "length d \<le> 255"
    | "255 < length d" "length d \<le> 65535" | "65535 < length d"
    by linarith
  then show ?thesis
  proof cases
    case 1
    then show ?thesis
      by (simp add: push_data_def GetOp2_def GetOp2_size_def opcode_defs)
  next
    case 2
    then show ?thesis
      by (simp add: push_data_def GetOp2_def GetOp2_size_def opcode_defs)
  next
    case 3
    have "le_val (le_bytes 2 (length d)) = length d"
      using 3 by (simp add: le_val_le_bytes)
    then show ?thesis
      using 3 by (simp add: push_data_def GetOp2_def GetOp2_size_def opcode_defs)
  next
    case 4
    have "le_val (le_bytes 4 (length d)) = length d"
      using assms by (simp add: le_val_le_bytes)
    then show ?thesis
      using 4 by (simp add: push_data_def GetOp2_def GetOp2_size_def opcode_defs)
  qed
qed

lemma push_data_not_Nil [simp]: "push_data s d \<noteq> []"
  by (simp add: push_data_def)

lemma push_data_append: "push_data s d = s @ push_data [] d"
  by (simp add: push_data_def)

text \<open>Two scripts that start with instructions, one a prefix of the other, start with the same
  instruction.\<close>

lemma instr_prefix_eq:
  assumes "GetOp2 xs = (True, op1, d1, [])" and "GetOp2 ys = (True, op2, d2, [])"
    and "xs @ r = ys @ q"
  shows "xs = ys"
proof -
  have "GetOp2 (xs @ r) = (True, op1, d1, r)" "GetOp2 (ys @ q) = (True, op2, d2, q)"
    using assms(1,2) [THEN GetOp2_append] by auto
  with assms(3) have "r = q" by simp
  with assms(3) show ?thesis by simp
qed

section \<open>FindAndDelete removes every occurrence of an instruction\<close>

text \<open>\<open>occurs_at_instr b s\<close>: reading \<open>s\<close> from its start, \<open>b\<close> stands at an instruction boundary.\<close>

function occurs_at_instr :: "bytes \<Rightarrow> bytes \<Rightarrow> bool" where
  "occurs_at_instr b pc =
     (if length b \<le> length pc \<and> take (length b) pc = b then True
      else case GetOp2 pc of (ok, opcode, data, pc') \<Rightarrow>
        if ok then occurs_at_instr b pc' else False)"
  by pat_completeness auto
termination
  by (relation "measure (\<lambda>(b, pc). length pc)") (auto dest: GetOp2_measure)

declare occurs_at_instr.simps [simp del]

lemma strip_prefix_no_match:
  "strip_prefix b pc = (k, pc1) \<Longrightarrow> b \<noteq> [] \<Longrightarrow> \<not> (length b \<le> length pc1 \<and> take (length b) pc1 = b)"
proof (induction b pc arbitrary: k pc1 rule: strip_prefix.induct)
  case (1 b pc)
  show ?case
  proof (cases "length b \<le> length pc \<and> take (length b) pc = b")
    case True
    obtain n r where r: "strip_prefix b (drop (length b) pc) = (n, r)" by fastforce
    moreover have "pc1 = r" using "1.prems" True r by (simp add: strip_prefix.simps [of b pc])
    ultimately show ?thesis using "1.IH" "1.prems"(2) True by blast
  qed (use "1.prems" in \<open>auto simp: strip_prefix.simps [of b pc]\<close>)
qed

lemma take_prefix_iff: "(length b \<le> length s \<and> take (length b) s = b) \<longleftrightarrow> (\<exists>r. s = b @ r)"
  by (metis append_eq_conv_conj append_take_drop_id length_append le_add1)

lemma FindAndDelete_loop_clean:
  assumes "GetOp2 b = (True, bop, bdata, [])"
    and "FindAndDelete_loop b pc = (n, r)"
  shows "\<not> occurs_at_instr b r"
  using assms
proof (induction b pc arbitrary: n r rule: FindAndDelete_loop.induct)
  case (1 b pc)
  obtain k pc1 where k: "strip_prefix b pc = (k, pc1)" by fastforce
  obtain ok opcode data pc2 where op: "GetOp2 pc1 = (ok, opcode, data, pc2)" by (metis prod_cases4)
  note b = "1.prems"(1)
  then have "b \<noteq> []" by auto
  then have nm: "\<not> (length b \<le> length pc1 \<and> take (length b) pc1 = b)"
    using strip_prefix_no_match [OF k] by blast
  show ?case
  proof (cases ok)
    case False
    then have "r = pc1" using "1.prems" k op by (simp add: FindAndDelete_loop.simps [of b pc])
    then show ?thesis using nm op False by (simp add: occurs_at_instr.simps [of b pc1])
  next
    case True
    obtain m r' where rec: "FindAndDelete_loop b pc2 = (m, r')" by fastforce
    have r: "r = take (length pc1 - length pc2) pc1 @ r'"
      using "1.prems" k op rec True by (simp add: FindAndDelete_loop.simps [of b pc])
    from op True have "GetOp2 pc1 = (True, opcode, data, pc2)" by simp
    from GetOp2_instr [OF this] obtain xs where xs: "pc1 = xs @ pc2"
      "\<And>ys. GetOp2 (xs @ ys) = (True, opcode, data, ys)" by blast
    with r have r': "r = xs @ r'" by simp
    have "\<not> (\<exists>q. r = b @ q)"
    proof
      assume "\<exists>q. r = b @ q"
      then obtain q where "xs @ r' = b @ q" using r' by auto
      then have "xs = b" using instr_prefix_eq [OF _ b] xs(2) [of "[]"] by simp
      then show False using nm xs(1) take_prefix_iff by blast
    qed
    moreover have "\<not> occurs_at_instr b r'"
      using "1.IH" [OF k [symmetric]] op True rec b by auto
    ultimately show ?thesis
      using xs(2) [of r'] r' take_prefix_iff [of b r] by (subst occurs_at_instr.simps) auto
  qed
qed

text \<open>In particular for the use in signature checks, where \<open>b\<close> is the push of a signature.\<close>

lemma FindAndDelete_clean:
  assumes "length sig < 2 ^ 32" and "FindAndDelete script (push_data [] sig) = (n, r)"
  shows "\<not> occurs_at_instr (push_data [] sig) r"
proof -
  obtain opcode where "GetOp2 (push_data [] sig) = (True, opcode, sig, [])"
    using GetOp2_push_data [OF assms(1), of "[]"] by auto
  then show ?thesis
    using assms(2) by (auto simp: FindAndDelete_def dest: FindAndDelete_loop_clean)
qed

section \<open>Properties of the script container\<close>

text \<open>Pushing data and reading it back is the identity for every push of less than 4 GB: the
  next instruction is a push of exactly the data, and the iterator stops right behind it.\<close>

theorem push_data_roundtrip:
  assumes "length d < 2 ^ 32"
  shows "\<exists>opcode. GetOp2 (push_data [] d @ rest) = (True, opcode, d, rest) \<and> opcode \<le> OP_PUSHDATA4"
  using assms by (rule GetOp2_push_data)

lemma push_data_roundtrip_witness:
  "\<exists>opcode. GetOp2 (push_data [] [1, 2, 3] @ [0xac]) = (True, opcode, [1, 2, 3], [0xac]) \<and> opcode \<le> OP_PUSHDATA4"
  by (rule push_data_roundtrip) simp

text \<open>After \<open>FindAndDelete\<close> of a pushed signature no instruction boundary of the script shows that
  push any more, so a signature cannot sign itself.\<close>

theorem FindAndDelete_signature_gone:
  assumes "length sig < 2 ^ 32" and "FindAndDelete script (push_data [] sig) = (n, r)"
  shows "\<not> occurs_at_instr (push_data [] sig) r"
  using assms by (rule FindAndDelete_clean)

lemma FindAndDelete_signature_gone_witness:
  "\<not> occurs_at_instr (push_data [] [7, 8]) [0x51, 0xac]"
proof (rule FindAndDelete_signature_gone)
  show "FindAndDelete [0x51, 2, 7, 8, 0xac] (push_data [] [7, 8]) = (1, [0x51, 0xac])" by code_simp
qed simp

text \<open>The exact form of a pay-to-public-key-hash script.\<close>

definition is_p2pkh :: "bytes \<Rightarrow> bool" where
  "is_p2pkh s \<longleftrightarrow> length s = 25 \<and> take 3 s = [0x76, 0xa9, 20] \<and> drop 23 s = [0x88, 0xac]"

text \<open>\<open>IsNormalPaymentScript\<close> accepts scripts that are not pay-to-public-key-hash: it never looks at
  the third instruction, so 25 bytes with a push of 22 bytes and no signature check at all pass, and
  the collateral and InstantX code that calls it takes them for normal payments.\<close>

theorem IsNormalPaymentScript_too_weak:
  "\<exists>s. IsNormalPaymentScript s \<and> \<not> is_p2pkh s \<and> GetSigOpCount False s = 0"
proof (intro exI conjI)
  let ?s = "[0x76, 0xa9, 22] @ replicate 22 (0 :: byte)"
  show "IsNormalPaymentScript ?s" by code_simp
  show "\<not> is_p2pkh ?s" by code_simp
  show "GetSigOpCount False ?s = 0" by code_simp
qed

end
