(* ===== verification/Tx.thy ===== *)
theory Tx
  imports Serialize Script
begin

text \<open>
  Transactions (src/src/primitives/transaction.h and .cpp): outpoints, inputs, outputs, witnesses,
  and the two serialization formats.  \<open>uint256\<close> is a 256 bit word.  \<open>nRounds\<close> and \<open>prevPubKey\<close>
  are memory only; a read leaves the values of the default constructor in them.  \<open>CAmount\<close> is \<open>int\<close>,
  with the range of \<open>int64_t\<close> written out where it matters.
\<close>

type_synonym uint256 = "256 word"

definition COIN :: int where "COIN = 100000000"

record COutPoint =
  out_hash :: uint256
  out_n :: "32 word"

record CTxIn =
  prevout :: COutPoint
  scriptSig :: bytes
  nSequence :: "32 word"
  prevPubKey :: bytes

record CTxOut =
  nValue :: int
  scriptPubKey :: bytes
  nRounds :: int

type_synonym CScriptWitness = "bytes list"

record CTransaction =
  nVersion :: "32 word"
  vin :: "CTxIn list"
  vout :: "CTxOut list"
  wit :: "CScriptWitness list"
  nLockTime :: "32 word"

definition COutPoint_null :: COutPoint where
  "COutPoint_null = \<lparr>out_hash = 0, out_n = - 1\<rparr>"

definition COutPoint_IsNull :: "COutPoint \<Rightarrow> bool" where
  "COutPoint_IsNull p \<longleftrightarrow> out_hash p = 0 \<and> out_n p = - 1"

definition COutPoint_less :: "COutPoint \<Rightarrow> COutPoint \<Rightarrow> bool" where
  "COutPoint_less a b \<longleftrightarrow> out_hash a < out_hash b \<or> (out_hash a = out_hash b \<and> out_n a < out_n b)"

definition SEQUENCE_FINAL :: "32 word" where "SEQUENCE_FINAL = 0xffffffff"

definition CTxIn_IsFinal :: "CTxIn \<Rightarrow> bool" where
  "CTxIn_IsFinal i \<longleftrightarrow> nSequence i = SEQUENCE_FINAL"

definition CTxOut_null :: CTxOut where
  "CTxOut_null = \<lparr>nValue = - 1, scriptPubKey = [], nRounds = - 10\<rparr>"

definition CTxOut_IsNull :: "CTxOut \<Rightarrow> bool" where
  "CTxOut_IsNull out \<longleftrightarrow> nValue out = - 1"

definition CTxOut_IsEmpty :: "CTxOut \<Rightarrow> bool" where
  "CTxOut_IsEmpty out \<longleftrightarrow> nValue out = 0 \<and> scriptPubKey out = []"

definition CTxOut_IsZerocoinMint :: "CTxOut \<Rightarrow> bool" where
  "CTxOut_IsZerocoinMint out \<longleftrightarrow> scriptPubKey out \<noteq> [] \<and> IsZerocoinMint (scriptPubKey out)"

text \<open>\<open>CScriptWitness::IsNull\<close> and \<open>CTxWitness::IsNull\<close>.\<close>

definition CScriptWitness_IsNull :: "CScriptWitness \<Rightarrow> bool" where
  "CScriptWitness_IsNull w \<longleftrightarrow> w = []"

definition CTxWitness_IsNull :: "CScriptWitness list \<Rightarrow> bool" where
  "CTxWitness_IsNull ws \<longleftrightarrow> list_all CScriptWitness_IsNull ws"

lemma CTxWitness_IsNull_Nil [simp]: "CTxWitness_IsNull []"
  by (simp add: CTxWitness_IsNull_def)

section \<open>Serialization of the parts\<close>

definition ser_word :: "nat \<Rightarrow> 'a::len word \<Rightarrow> bytes" where
  "ser_word n w = WRITEDATA n (unat w)"

definition unser_word :: "nat \<Rightarrow> 'a::len word reader" where
  "unser_word n = rbind (READDATA n) (\<lambda>x. rreturn (of_nat x))"

lemma word_serializer:
  assumes "LENGTH('a) = 8 * n"
  shows "serializer (ser_word n) (unser_word n :: 'a::len word reader) (\<lambda>_. True)"
proof
  have b: "unat (w :: 'a word) < 256 ^ n" for w
    using unsigned_less [of w] by (simp add: assms power_mult)
  show "unser_word n (ser_word n x @ rest) = Inr (x, rest)" for x :: "'a word" and rest
    using b [of x] by (simp add: unser_word_def ser_word_def)
  show "s = ser_word n x @ r \<and> True" if rd: "unser_word n s = Inr (x, r)" for s r and x :: "'a word"
  proof -
    obtain y where y: "READDATA n s = Inr (y, r)" and x: "x = of_nat y"
      using rd by (auto simp: unser_word_def rbind_eq_Inr)
    then have "unat x = y" using READDATA_Inr [OF y] by (simp add: unat_of_nat assms power_mult)
    then show ?thesis using READDATA_Inr [OF y] by (simp add: ser_word_def)
  qed
qed

interpretation w32: serializer "ser_word 4" "unser_word 4 :: 32 word reader" "\<lambda>_. True"
  by (rule word_serializer) simp

interpretation w256: serializer "ser_word 32" "unser_word 32 :: 256 word reader" "\<lambda>_. True"
  by (rule word_serializer) simp

definition ser_COutPoint :: "COutPoint \<Rightarrow> bytes" where
  "ser_COutPoint p = ser_word 32 (out_hash p) @ ser_word 4 (out_n p)"

definition unser_COutPoint :: "COutPoint reader" where
  "unser_COutPoint = rbind (unser_word 32) (\<lambda>h. rbind (unser_word 4) (\<lambda>n.
     rreturn \<lparr>out_hash = h, out_n = n\<rparr>))"

definition ser_CTxIn :: "CTxIn \<Rightarrow> bytes" where
  "ser_CTxIn i = ser_COutPoint (prevout i) @ Serialize_bytes (scriptSig i) @ ser_word 4 (nSequence i)"

definition unser_CTxIn :: "CTxIn reader" where
  "unser_CTxIn = rbind unser_COutPoint (\<lambda>p. rbind Unserialize_bytes (\<lambda>sc. rbind (unser_word 4) (\<lambda>q.
     rreturn \<lparr>prevout = p, scriptSig = sc, nSequence = q, prevPubKey = []\<rparr>)))"

definition ser_CTxOut :: "CTxOut \<Rightarrow> bytes" where
  "ser_CTxOut out = WRITESIGNED 8 (nValue out) @ Serialize_bytes (scriptPubKey out)"

definition unser_CTxOut :: "CTxOut reader" where
  "unser_CTxOut = rbind (READSIGNED 8) (\<lambda>v. rbind Unserialize_bytes (\<lambda>sc.
     rreturn \<lparr>nValue = v, scriptPubKey = sc, nRounds = - 10\<rparr>))"

definition CTxIn_ok :: "CTxIn \<Rightarrow> bool" where
  "CTxIn_ok i \<longleftrightarrow> length (scriptSig i) \<le> MAX_SIZE \<and> prevPubKey i = []"

definition CTxOut_ok :: "CTxOut \<Rightarrow> bool" where
  "CTxOut_ok out \<longleftrightarrow> signed_ok 8 (nValue out) \<and> length (scriptPubKey out) \<le> MAX_SIZE \<and> nRounds out = - 10"

interpretation outpoint: serializer ser_COutPoint unser_COutPoint "\<lambda>_. True"
  by unfold_locales (auto simp: ser_COutPoint_def unser_COutPoint_def w32.bind_unser w256.bind_unser
      w32.bind_Inr w256.bind_Inr)

interpretation txin: serializer ser_CTxIn unser_CTxIn CTxIn_ok
  by unfold_locales (auto simp: ser_CTxIn_def unser_CTxIn_def CTxIn_ok_def outpoint.bind_unser
      vch.bind_unser w32.bind_unser outpoint.bind_Inr vch.bind_Inr w32.bind_Inr)

interpretation txout: serializer ser_CTxOut unser_CTxOut CTxOut_ok
  by unfold_locales (auto simp: ser_CTxOut_def unser_CTxOut_def CTxOut_ok_def i64.bind_unser
      vch.bind_unser i64.bind_Inr vch.bind_Inr)

interpretation txins: serializer "Serialize_vector ser_CTxIn" "Unserialize_vector unser_CTxIn"
  "vector_ok CTxIn_ok"
  by (rule txin.vector_serializer)

interpretation txouts: serializer "Serialize_vector ser_CTxOut" "Unserialize_vector unser_CTxOut"
  "vector_ok CTxOut_ok"
  by (rule txout.vector_serializer)

section \<open>SerializeTransaction\<close>

definition write_u8 :: "nat \<Rightarrow> bytes" where "write_u8 = WRITEDATA 1"
definition read_u8 :: "nat reader" where "read_u8 = READDATA 1"

interpretation byte1: serializer write_u8 read_u8 "\<lambda>x. x < 256"
  using uint_serializer [of 1] by (simp only: write_u8_def read_u8_def power_one_right)

text \<open>\<open>vtxinwit.resize\<close> pads the witness with empty stacks.\<close>

definition resize_wit :: "nat \<Rightarrow> CScriptWitness list \<Rightarrow> CScriptWitness list" where
  "resize_wit n ws = take n ws @ replicate (n - length ws) []"

definition write_tx :: "bool \<Rightarrow> CTransaction \<Rightarrow> bytes" where
  "write_tx fAllowWitness tx =
     (let ext = fAllowWitness \<and> \<not> CTxWitness_IsNull (wit tx) in
      ser_word 4 (nVersion tx) @
      (if ext then Serialize_vector ser_CTxIn [] @ write_u8 1 else []) @
      Serialize_vector ser_CTxIn (vin tx) @
      Serialize_vector ser_CTxOut (vout tx) @
      (if ext then concat (map (Serialize_vector Serialize_bytes) (resize_wit (length (vin tx)) (wit tx)))
       else []) @
      ser_word 4 (nLockTime tx))"

text \<open>The writing branch; \<open>None\<close> is the failing \<open>assert\<close> on the number of witnesses.\<close>

definition SerializeTransaction :: "bool \<Rightarrow> CTransaction \<Rightarrow> bytes option" where
  "SerializeTransaction fAllowWitness tx =
     (if length (wit tx) \<le> length (vin tx) then Some (write_tx fAllowWitness tx) else None)"

text \<open>The reading branch: first the flags with the two vectors, then the witness.\<close>

definition read_parts :: "bool \<Rightarrow> (nat \<times> CTxIn list \<times> CTxOut list) reader" where
  "read_parts fAllowWitness =
     rbind (Unserialize_vector unser_CTxIn) (\<lambda>ins.
       if length ins = 0 \<and> fAllowWitness then
         rbind (read_u8) (\<lambda>fl.
           if fl \<noteq> 0 then
             rbind (Unserialize_vector unser_CTxIn) (\<lambda>is2.
             rbind (Unserialize_vector unser_CTxOut) (\<lambda>outs. rreturn (fl, is2, outs)))
           else rreturn (fl, [], []))
       else rbind (Unserialize_vector unser_CTxOut) (\<lambda>outs. rreturn (0, ins, outs)))"

definition read_wit :: "nat \<Rightarrow> CScriptWitness list reader" where
  "read_wit n = rbind (Unserialize_n (Unserialize_vector Unserialize_bytes) n) (\<lambda>ws.
     if CTxWitness_IsNull ws then rthrow Superfluous_witness else rreturn ws)"

definition UnserializeTransaction :: "bool \<Rightarrow> CTransaction reader" where
  "UnserializeTransaction fAllowWitness =
     rbind (unser_word 4) (\<lambda>ver.
     rbind (read_parts fAllowWitness) (\<lambda>(fl, ins, outs).
     rbind (if odd fl \<and> fAllowWitness
            then rbind (read_wit (length ins)) (\<lambda>ws. rreturn (fl - 1, ws))
            else rreturn (fl, []))
       (\<lambda>(fl', ws). if fl' \<noteq> 0 then rthrow Unknown_optional_data
          else rbind (unser_word 4) (\<lambda>lt.
            rreturn \<lparr>nVersion = ver, vin = ins, vout = outs, wit = ws, nLockTime = lt\<rparr>))))"

definition tx_ok :: "bool \<Rightarrow> CTransaction \<Rightarrow> bool" where
  "tx_ok fAllowWitness tx \<longleftrightarrow> vector_ok CTxIn_ok (vin tx) \<and> vector_ok CTxOut_ok (vout tx) \<and>
     (if fAllowWitness then
        (vin tx = [] \<longrightarrow> vout tx = []) \<and>
        (wit tx = [] \<or> length (wit tx) = length (vin tx) \<and> \<not> CTxWitness_IsNull (wit tx) \<and>
           list_all (vector_ok (\<lambda>v. length v \<le> MAX_SIZE)) (wit tx))
      else wit tx = [])"

lemma Serialize_vector_Nil: "Serialize_vector ser [] = [0]"
  by (simp add: Serialize_vector_def WriteCompactSize_def WRITEDATA_def)

lemma write_u8_0 [simp]: "write_u8 0 = [0]"
  by (simp add: write_u8_def WRITEDATA_def)

lemma read_u8_0 [simp]: "read_u8 (0 # rest) = Inr (0, rest)"
  using byte1.unser_ser [of 0 rest] by simp

lemma read_Nil [simp]: "Unserialize_vector unser_CTxIn (0 # rest) = Inr ([], rest)"
  using txins.unser_ser [of "[]" rest] by (simp add: Serialize_vector_Nil vector_ok_def)

lemma read_wit_write:
  assumes "list_all (vector_ok (\<lambda>v. length v \<le> MAX_SIZE)) ws" and "\<not> CTxWitness_IsNull ws"
  shows "read_wit (length ws) (concat (map (Serialize_vector Serialize_bytes) ws) @ rest) = Inr (ws, rest)"
  using vchs.Unserialize_n_ser [of ws rest] assms by (simp add: read_wit_def rbind_def list_all_iff)

lemma read_wit_Inr:
  assumes "read_wit n s = Inr (ws, r)"
  shows "s = concat (map (Serialize_vector Serialize_bytes) ws) @ r \<and> length ws = n \<and>
    \<not> CTxWitness_IsNull ws \<and> list_all (vector_ok (\<lambda>v. length v \<le> MAX_SIZE)) ws"
  using assms by (auto simp: read_wit_def rbind_eq_Inr list_all_iff dest!: vchs.Unserialize_n_Inr split: if_splits)

lemma resize_wit_id: "length ws = n \<Longrightarrow> resize_wit n ws = ws"
  by (simp add: resize_wit_def)

lemma read_write_tx:
  assumes "tx_ok fa tx"
  shows "UnserializeTransaction fa (write_tx fa tx @ rest) = Inr (tx, rest)"
proof -
  have ins: "vector_ok CTxIn_ok (vin tx)" and outs: "vector_ok CTxOut_ok (vout tx)"
    using assms by (simp_all add: tx_ok_def)
  show ?thesis
  proof (cases "fa \<and> \<not> CTxWitness_IsNull (wit tx)")
    case True
    then have w: "length (wit tx) = length (vin tx)" "list_all (vector_ok (\<lambda>v. length v \<le> MAX_SIZE)) (wit tx)"
      using assms by (auto simp: tx_ok_def CTxWitness_IsNull_def)
    have "read_parts fa ([0] @ write_u8 1 @ Serialize_vector ser_CTxIn (vin tx) @
        Serialize_vector ser_CTxOut (vout tx) @ r) = Inr ((1, vin tx, vout tx), r)" for r
      using True ins outs
      by (simp add: read_parts_def byte1.bind_unser txins.bind_unser txouts.bind_unser)
    then show ?thesis
      using True w read_wit_write [OF w(2)]
      by (simp add: UnserializeTransaction_def write_tx_def Let_def Serialize_vector_Nil w32.bind_unser
          resize_wit_id rbind_def w32.unser_ser)
  next
    case False
    then have wn: "wit tx = []" using assms by (auto simp: tx_ok_def CTxWitness_IsNull_def split: if_splits)
    have "read_parts fa (Serialize_vector ser_CTxIn (vin tx) @ Serialize_vector ser_CTxOut (vout tx) @ r)
        = Inr ((0, vin tx, vout tx), r)" for r
    proof (cases "vin tx = [] \<and> fa")
      case True
      then have "vout tx = []" using assms by (simp add: tx_ok_def)
      then show ?thesis using True by (simp add: read_parts_def Serialize_vector_Nil rbind_def)
    next
      case False
      then show ?thesis using ins outs
        by (auto simp: read_parts_def txins.bind_unser txouts.bind_unser)
    qed
    then show ?thesis
      using False wn by (simp add: UnserializeTransaction_def write_tx_def Let_def w32.bind_unser
          rbind_def w32.unser_ser)
  qed
qed

lemma read_parts_Inr:
  assumes "read_parts fa s = Inr ((fl, ins, outs), r)"
  shows "vector_ok CTxIn_ok ins \<and> vector_ok CTxOut_ok outs \<and>
    (if fl = 0 then s = Serialize_vector ser_CTxIn ins @ Serialize_vector ser_CTxOut outs @ r \<and>
        (fa \<and> ins = [] \<longrightarrow> outs = [])
     else fa \<and> s = [0] @ write_u8 fl @ Serialize_vector ser_CTxIn ins @ Serialize_vector ser_CTxOut outs @ r)"
  using assms
  by (auto simp: read_parts_def txins.bind_Inr txouts.bind_Inr byte1.bind_Inr Serialize_vector_Nil
      vector_ok_def split: if_splits)

lemma write_read_tx:
  assumes "UnserializeTransaction fa s = Inr (tx, r)"
  shows "s = write_tx fa tx @ r \<and> tx_ok fa tx"
proof -
  obtain ver s1 fl ins outs s2 where v: "s = ser_word 4 ver @ s1"
    and p: "read_parts fa s1 = Inr ((fl, ins, outs), s2)"
    and rest: "rbind (if odd fl \<and> fa then rbind (read_wit (length ins)) (\<lambda>ws. rreturn (fl - 1, ws))
            else rreturn (fl, []))
       (\<lambda>(fl', ws). if fl' \<noteq> 0 then rthrow Unknown_optional_data
          else rbind (unser_word 4) (\<lambda>lt.
            rreturn \<lparr>nVersion = ver, vin = ins, vout = outs, wit = ws, nLockTime = lt\<rparr>)) s2 = Inr (tx, r)"
    using assms by (auto simp: UnserializeTransaction_def w32.bind_Inr rbind_eq_Inr [of "read_parts fa"])
  note parts = read_parts_Inr [OF p]
  show ?thesis
  proof (cases "odd fl \<and> fa")
    case True
    then obtain ws s3 where w: "read_wit (length ins) s2 = Inr (ws, s3)" and fl: "fl = 1"
      and l: "\<exists>lt. s3 = ser_word 4 lt @ r \<and>
        tx = \<lparr>nVersion = ver, vin = ins, vout = outs, wit = ws, nLockTime = lt\<rparr>"
      using rest by (auto simp: rbind_eq_Inr [of "rbind _ _"] rbind_eq_Inr [of "read_wit _"] w32.bind_Inr
          elim: oddE split: if_splits)
    have "ins \<noteq> []" using read_wit_Inr [OF w] by (auto simp: CTxWitness_IsNull_def)
    then show ?thesis
      using True parts fl l read_wit_Inr [OF w] v
      by (auto simp: write_tx_def tx_ok_def Let_def Serialize_vector_Nil resize_wit_id)
  next
    case False
    then have "fl = 0" and l: "\<exists>lt. s2 = ser_word 4 lt @ r \<and>
        tx = \<lparr>nVersion = ver, vin = ins, vout = outs, wit = [], nLockTime = lt\<rparr>"
      using rest by (auto simp: w32.bind_Inr split: if_splits)
    then show ?thesis
      using parts v by (auto simp: write_tx_def tx_ok_def Let_def CTxWitness_IsNull_def)
  qed
qed

interpretation tx: serializer "write_tx fa" "UnserializeTransaction fa" "tx_ok fa" for fa
  by unfold_locales (simp add: read_write_tx, rule write_read_tx)

text \<open>C38: The two transaction formats are unambiguous and not malleable: a stream is accepted as \<open>tx\<close>
  with rest \<open>r\<close> exactly when \<open>tx\<close> is well formed for the format (witness stacks all missing, or one
  for each input and one of them not empty; no outputs without inputs in the extended format) and the stream is what
  the writer produces for \<open>tx\<close>, followed by \<open>r\<close>.\<close>

theorem Transaction_canonical:
  "UnserializeTransaction fa s = Inr (tx, r) \<longleftrightarrow> tx_ok fa tx \<and> s = write_tx fa tx @ r"
  by (rule tx.unser_iff)

section \<open>Operations of a transaction\<close>

definition IsNull_tx :: "CTransaction \<Rightarrow> bool" where
  "IsNull_tx tx \<longleftrightarrow> vin tx = [] \<and> vout tx = []"

definition IsZerocoinSpend_tx :: "CTransaction \<Rightarrow> bool" where
  "IsZerocoinSpend_tx tx \<longleftrightarrow>
     (case vin tx of [] \<Rightarrow> False
      | i # _ \<Rightarrow> out_hash (prevout i) = 0 \<and>
          (case scriptSig i of [] \<Rightarrow> False | b # _ \<Rightarrow> unat b = OP_ZEROCOINSPEND))"

definition IsZerocoinMint_tx :: "CTransaction \<Rightarrow> bool" where
  "IsZerocoinMint_tx tx \<longleftrightarrow> list_ex (\<lambda>out. IsZerocoinMint (scriptPubKey out)) (vout tx)"

definition ContainsZerocoins :: "CTransaction \<Rightarrow> bool" where
  "ContainsZerocoins tx \<longleftrightarrow> IsZerocoinSpend_tx tx \<or> IsZerocoinMint_tx tx"

definition IsCoinBase :: "CTransaction \<Rightarrow> bool" where
  "IsCoinBase tx \<longleftrightarrow>
     (case vin tx of [i] \<Rightarrow> COutPoint_IsNull (prevout i) \<and> \<not> ContainsZerocoins tx | _ \<Rightarrow> False)"

definition IsCoinStake :: "CTransaction \<Rightarrow> bool" where
  "IsCoinStake tx \<longleftrightarrow>
     (case vin tx of [] \<Rightarrow> False | i # _ \<Rightarrow> \<not> COutPoint_IsNull (prevout i)) \<and>
     (case vout tx of o0 # o1 # _ \<Rightarrow> CTxOut_IsEmpty o0 | _ \<Rightarrow> False)"

definition IsKarmanodeReward :: "COutPoint \<Rightarrow> CTransaction \<Rightarrow> bool" where
  "IsKarmanodeReward p tx \<longleftrightarrow> IsCoinStake tx \<and> unat (out_n p) = length (vout tx) - 1 \<and>
     scriptPubKey (vout tx ! 1) \<noteq> scriptPubKey (vout tx ! unat (out_n p))"

text \<open>\<open>GetValueOut\<close>; \<open>None\<close> is the exception.  The sum is computed as on hosts where \<open>int64_t\<close>
  wraps, which is what the overflow check of the source relies on.\<close>

definition wrap64 :: "int \<Rightarrow> int" where
  "wrap64 x = (x + 2 ^ 63) mod 2 ^ 64 - 2 ^ 63"

fun GetValueOut_loop :: "int \<Rightarrow> CTxOut list \<Rightarrow> int option" where
  "GetValueOut_loop nValueOut [] = Some nValueOut"
| "GetValueOut_loop nValueOut (out # outs) =
     (if nValue out < 0 then None
      else if wrap64 (nValueOut + nValue out) < nValueOut then None
      else GetValueOut_loop (wrap64 (nValueOut + nValue out)) outs)"

definition GetValueOut :: "CTransaction \<Rightarrow> int option" where
  "GetValueOut tx = GetValueOut_loop 0 (vout tx)"

definition GetZerocoinMinted :: "CTransaction \<Rightarrow> int" where
  "GetZerocoinMinted tx =
     (case filter (\<lambda>out. IsZerocoinMint (scriptPubKey out)) (vout tx) of
        [] \<Rightarrow> 0 | out # _ \<Rightarrow> nValue out)"

definition GetZerocoinSpent :: "CTransaction \<Rightarrow> int" where
  "GetZerocoinSpent tx =
     (if \<not> IsZerocoinSpend_tx tx then 0
      else fold (\<lambda>i acc. if IsZerocoinSpend (scriptSig i)
                  then wrap64 (acc + uint (nSequence i) * COIN) else acc) (vin tx) 0)"

definition GetZerocoinMintCount :: "CTransaction \<Rightarrow> nat" where
  "GetZerocoinMintCount tx = length (filter (\<lambda>out. IsZerocoinMint (scriptPubKey out)) (vout tx))"

definition UsesUTXO :: "CTransaction \<Rightarrow> COutPoint \<Rightarrow> bool" where
  "UsesUTXO tx out \<longleftrightarrow> list_ex (\<lambda>i. prevout i = out) (vin tx)"

definition WITNESS_SCALE_FACTOR :: nat where "WITNESS_SCALE_FACTOR = 4"

definition GetTransactionCost :: "CTransaction \<Rightarrow> nat" where
  "GetTransactionCost tx =
     length (write_tx False tx) * (WITNESS_SCALE_FACTOR - 1) + length (write_tx True tx)"

definition CalculateModifiedSize :: "CTransaction \<Rightarrow> nat \<Rightarrow> nat" where
  "CalculateModifiedSize tx nTxSize =
     (let size0 = (if nTxSize = 0
                   then (GetTransactionCost tx + WITNESS_SCALE_FACTOR - 1) div WITNESS_SCALE_FACTOR
                   else nTxSize)
      in fold (\<lambda>i size. let offset = 41 + min 110 (length (scriptSig i))
                        in if size > offset then size - offset else size) (vin tx) size0)"

lemma wrap64_id: "- (2 ^ 63) \<le> x \<Longrightarrow> x < 2 ^ 63 \<Longrightarrow> wrap64 x = x"
  by (simp add: wrap64_def)

lemma wrap64_over: "2 ^ 63 \<le> x \<Longrightarrow> x < 2 ^ 64 \<Longrightarrow> wrap64 x = x - 2 ^ 64"
proof -
  assume a: "2 ^ 63 \<le> x" "x < 2 ^ 64"
  have "(x + 2 ^ 63) mod 2 ^ 64 = (x + 2 ^ 63 - 2 ^ 64) mod 2 ^ 64"
    by (metis diff_add_cancel mod_add_self2)
  also have "\<dots> = x + 2 ^ 63 - 2 ^ 64" using a by (intro mod_pos_pos_trivial) simp_all
  finally show ?thesis by (simp add: wrap64_def)
qed

lemma GetValueOut_loop_eq:
  assumes "0 \<le> acc" "acc < 2 ^ 63" and "\<forall>out \<in> set outs. nValue out < 2 ^ 63"
  shows "GetValueOut_loop acc outs =
    (if (\<forall>out \<in> set outs. 0 \<le> nValue out) \<and> acc + sum_list (map nValue outs) < 2 ^ 63
     then Some (acc + sum_list (map nValue outs)) else None)"
  using assms
proof (induction outs arbitrary: acc)
  case (Cons out outs)
  have nonneg: "\<forall>o' \<in> set outs. 0 \<le> nValue o' \<Longrightarrow> 0 \<le> sum_list (map nValue outs)"
    by (auto intro!: sum_list_nonneg)
  show ?case
  proof (cases "nValue out < 0")
    case False
    show ?thesis
    proof (cases "acc + nValue out < 2 ^ 63")
      case True
      have "wrap64 (acc + nValue out) = acc + nValue out"
        using True False Cons.prems by (intro wrap64_id) simp_all
      then show ?thesis
        using Cons.IH [of "acc + nValue out"] Cons.prems True False by (auto simp: algebra_simps)
    next
      case big: False
      have "wrap64 (acc + nValue out) = acc + nValue out - 2 ^ 64"
        using big Cons.prems by (intro wrap64_over) simp_all
      then have "wrap64 (acc + nValue out) < acc"
        using Cons.prems by simp
      then show ?thesis using False big nonneg by auto
    qed
  qed simp
qed simp

text \<open>\<open>GetValueOut\<close> returns the exact sum of the outputs, and throws precisely when an output is
  negative or the sum does not fit into \<open>int64_t\<close>.\<close>

theorem GetValueOut_correct:
  assumes "\<forall>out \<in> set (vout tx). nValue out < 2 ^ 63"
  shows "GetValueOut tx =
    (if (\<forall>out \<in> set (vout tx). 0 \<le> nValue out) \<and> sum_list (map nValue (vout tx)) < 2 ^ 63
     then Some (sum_list (map nValue (vout tx))) else None)"
  unfolding GetValueOut_def using GetValueOut_loop_eq [of 0 "vout tx"] assms by simp

definition sample_tx :: CTransaction where
  "sample_tx = \<lparr>nVersion = 2,
     vin = [\<lparr>prevout = \<lparr>out_hash = 5, out_n = 0\<rparr>, scriptSig = [1, 2], nSequence = 16, prevPubKey = []\<rparr>],
     vout = [\<lparr>nValue = 7, scriptPubKey = [0x51], nRounds = - 10\<rparr>,
             \<lparr>nValue = 5, scriptPubKey = [0x52], nRounds = - 10\<rparr>],
     wit = [], nLockTime = 50\<rparr>"

lemma GetValueOut_correct_witness: "GetValueOut sample_tx = Some 12"
  using GetValueOut_correct [of sample_tx] by (simp add: sample_tx_def)

end
