(* ===== verification/Coins.thy ===== *)
theory Coins
  imports Tx
begin

text \<open>
  \<open>CCoins\<close> (src/src/coins.h and coins.cpp), the unspent outputs of a transaction, with the undo
  record of a spent input (src/src/undo.h), the spending of an output, and the step of
  \<open>DisconnectBlock\<close> (src/src/main.cpp) that restores it.  Spent outputs are null and trailing spent
  outputs are dropped.
\<close>

record CCoins =
  fCoinBase :: bool
  fCoinStake :: bool
  coins_vout :: "CTxOut list"
  coins_height :: int
  coins_version :: int

record CTxInUndo =
  undo_txout :: CTxOut
  undo_fCoinBase :: bool
  undo_fCoinStake :: bool
  undo_height :: int
  undo_version :: int

section \<open>Operations\<close>

definition CCoins_empty :: CCoins where
  "CCoins_empty = \<lparr>fCoinBase = False, fCoinStake = False, coins_vout = [], coins_height = 0, coins_version = 0\<rparr>"

definition CCoins_Clear :: "CCoins \<Rightarrow> CCoins" where
  "CCoins_Clear c = c\<lparr>fCoinBase := False, fCoinStake := False, coins_vout := [], coins_height := 0, coins_version := 0\<rparr>"

definition strip_null :: "CTxOut list \<Rightarrow> CTxOut list" where
  "strip_null v = rev (dropWhile CTxOut_IsNull (rev v))"

definition Cleanup :: "CCoins \<Rightarrow> CCoins" where
  "Cleanup c = c\<lparr>coins_vout := strip_null (coins_vout c)\<rparr>"

text \<open>\<open>SetNull\<close> on an output in place.\<close>

definition ClearUnspendable :: "CCoins \<Rightarrow> CCoins" where
  "ClearUnspendable c =
     Cleanup (c\<lparr>coins_vout := map (\<lambda>out. if IsUnspendable (scriptPubKey out) then CTxOut_null else out) (coins_vout c)\<rparr>)"

definition FromTx :: "CTransaction \<Rightarrow> int \<Rightarrow> CCoins" where
  "FromTx tx nHeightIn =
     ClearUnspendable \<lparr>fCoinBase = IsCoinBase tx, fCoinStake = IsCoinStake tx, coins_vout = vout tx,
       coins_height = nHeightIn, coins_version = sint (nVersion tx)\<rparr>"

definition IsAvailable :: "CCoins \<Rightarrow> nat \<Rightarrow> bool" where
  "IsAvailable c nPos \<longleftrightarrow> nPos < length (coins_vout c) \<and> \<not> CTxOut_IsNull (coins_vout c ! nPos) \<and>
     \<not> IsZerocoinMint (scriptPubKey (coins_vout c ! nPos))"

definition IsPruned :: "CCoins \<Rightarrow> bool" where
  "IsPruned c \<longleftrightarrow> list_all CTxOut_IsNull (coins_vout c)"

definition CCoins_eq :: "CCoins \<Rightarrow> CCoins \<Rightarrow> bool" where
  "CCoins_eq a b \<longleftrightarrow>
     (if IsPruned a \<and> IsPruned b then True
      else fCoinBase a = fCoinBase b \<and> fCoinStake a = fCoinStake b \<and> coins_height a = coins_height b \<and>
        coins_version a = coins_version b \<and> coins_vout a = coins_vout b)"

text \<open>\<open>CCoins::Spend\<close>; \<open>None\<close> is the result \<open>false\<close>.\<close>

definition Spend :: "CCoins \<Rightarrow> nat \<Rightarrow> (CCoins \<times> CTxInUndo) option" where
  "Spend c n =
     (if n \<ge> length (coins_vout c) then None
      else if CTxOut_IsNull (coins_vout c ! n) then None
      else
        let c' = Cleanup (c\<lparr>coins_vout := (coins_vout c)[n := CTxOut_null]\<rparr>);
            undo = \<lparr>undo_txout = coins_vout c ! n, undo_fCoinBase = False, undo_fCoinStake = False,
                    undo_height = 0, undo_version = 0\<rparr>
        in Some (c', if length (coins_vout c') = 0
                     then undo\<lparr>undo_height := coins_height c, undo_fCoinBase := fCoinBase c,
                               undo_fCoinStake := fCoinStake c, undo_version := coins_version c\<rparr>
                     else undo))"

text \<open>The restoring of an input in \<open>DisconnectBlock\<close>: the coins, and whether the data was clean.
  \<open>resize\<close> fills with default constructed (null) outputs; the destructor of the modifier calls
  \<open>Cleanup\<close>.\<close>

definition undo_input :: "CCoins \<Rightarrow> nat \<Rightarrow> CTxInUndo \<Rightarrow> CCoins \<times> bool" where
  "undo_input coins n undo =
     (let clean1 = (if undo_height undo \<noteq> 0 then IsPruned coins else \<not> IsPruned coins);
          c1 = (if undo_height undo \<noteq> 0
                then (CCoins_Clear coins)\<lparr>fCoinBase := undo_fCoinBase undo, coins_height := undo_height undo,
                       coins_version := undo_version undo\<rparr>
                else coins);
          clean2 = (clean1 \<and> \<not> IsAvailable c1 n);
          v = coins_vout c1 @ replicate (n + 1 - length (coins_vout c1)) CTxOut_null
      in (Cleanup (c1\<lparr>coins_vout := v[n := undo_txout undo]\<rparr>), clean2))"

section \<open>The null tail\<close>

definition cleaned :: "CCoins \<Rightarrow> bool" where
  "cleaned c \<longleftrightarrow> coins_vout c = [] \<or> \<not> CTxOut_IsNull (last (coins_vout c))"

lemma CTxOut_null_IsNull [simp]: "CTxOut_IsNull CTxOut_null"
  by (simp add: CTxOut_IsNull_def CTxOut_null_def)

lemma strip_null_Nil [simp]: "strip_null [] = []"
  by (simp add: strip_null_def)

lemma strip_null_snoc [simp]: "strip_null (v @ [x]) = (if CTxOut_IsNull x then strip_null v else v @ [x])"
  by (simp add: strip_null_def)

lemma strip_null_split: "\<exists>k. v = strip_null v @ k \<and> list_all CTxOut_IsNull k"
proof (induction v rule: rev_induct)
  case (snoc x v)
  then obtain k where "v = strip_null v @ k" "list_all CTxOut_IsNull k" by blast
  then show ?case
    by (cases "CTxOut_IsNull x") (auto intro!: exI [of _ "k @ [x]"])
qed simp

lemma cleaned_Cleanup [simp]: "cleaned (Cleanup c)"
proof -
  have "strip_null v = [] \<or> \<not> CTxOut_IsNull (last (strip_null v))" for v
    by (induction v rule: rev_induct) auto
  then show ?thesis by (simp add: cleaned_def Cleanup_def)
qed

lemma strip_null_id: "v = [] \<or> \<not> CTxOut_IsNull (last v) \<Longrightarrow> strip_null v = v"
  by (cases v rule: rev_cases) auto

lemma Cleanup_id: "cleaned c \<Longrightarrow> Cleanup c = c"
  by (simp add: Cleanup_def cleaned_def strip_null_id)

lemma strip_null_eq_Nil: "strip_null v = [] \<longleftrightarrow> list_all CTxOut_IsNull v"
  by (induction v rule: rev_induct) auto

lemma IsPruned_Cleanup [simp]: "IsPruned (Cleanup c) = IsPruned c"
proof -
  obtain k where "coins_vout c = strip_null (coins_vout c) @ k" "list_all CTxOut_IsNull k"
    using strip_null_split by blast
  then have "list_all CTxOut_IsNull (coins_vout c) = list_all CTxOut_IsNull (strip_null (coins_vout c))"
    by (metis list_all_append)
  then show ?thesis by (simp add: IsPruned_def Cleanup_def)
qed

text \<open>Appending nulls again: what the resize in the undo step does to a stripped vector.\<close>

lemma strip_null_pad:
  assumes "list_all (\<lambda>out. CTxOut_IsNull out \<longrightarrow> out = CTxOut_null) v"
  shows "strip_null v @ replicate (length v - length (strip_null v)) CTxOut_null = v"
  using assms
proof (induction v rule: rev_induct)
  case (snoc x v)
  have "length (strip_null v) \<le> length v"
    using strip_null_split [of v] by (metis le_add1 length_append)
  then show ?case
    using snoc by (auto simp: Suc_diff_le replicate_append_same [symmetric] simp flip: append_assoc)
qed simp

section \<open>Spending and restoring\<close>

definition canonical_nulls :: "CCoins \<Rightarrow> bool" where
  "canonical_nulls c \<longleftrightarrow> list_all (\<lambda>out. CTxOut_IsNull out \<longrightarrow> out = CTxOut_null) (coins_vout c)"

lemma restore_vout:
  assumes "n < length v" and "\<not> CTxOut_IsNull (last v)" and "\<not> CTxOut_IsNull (v ! n)"
    and "list_all (\<lambda>out. CTxOut_IsNull out \<longrightarrow> out = CTxOut_null) v"
  defines "s \<equiv> strip_null (v[n := CTxOut_null])"
  shows "(s @ replicate (n + 1 - length s) CTxOut_null)[n := v ! n] = v"
proof -
  let ?w = "v[n := CTxOut_null]"
  have "list_all (\<lambda>out. CTxOut_IsNull out \<longrightarrow> out = CTxOut_null) ?w"
    using assms(1,4) by (auto simp: list_all_length nth_list_update)
  then have pad: "s @ replicate (length v - length s) CTxOut_null = ?w"
    using strip_null_pad [of ?w] by (simp add: s_def)
  have len: "length s \<le> length v"
    using arg_cong [OF pad, of length] by simp
  have "s @ replicate (n + 1 - length s) CTxOut_null = ?w"
  proof (cases "n + 1 = length v")
    case True
    then show ?thesis using pad by simp
  next
    case False
    then have "last ?w = last v" using assms(1) by (cases v rule: rev_cases) (auto simp: list_update_append)
    then have "strip_null ?w = ?w" using assms(2) by (intro strip_null_id) simp
    then show ?thesis using assms(1) by (simp add: s_def)
  qed
  then show ?thesis by simp
qed

lemma Spend_undo:
  assumes "cleaned c" and "canonical_nulls c" and "0 < coins_height c" and "Spend c n = Some (c', u)"
  shows "undo_input c' n u =
    (if coins_vout c' = [] then c\<lparr>fCoinStake := False\<rparr> else c, True)"
proof -
  let ?v = "coins_vout c"
  have n: "n < length ?v" "\<not> CTxOut_IsNull (?v ! n)" and c': "c' = Cleanup (c\<lparr>coins_vout := ?v[n := CTxOut_null]\<rparr>)"
    and u: "undo_txout u = ?v ! n" "undo_height u = (if coins_vout c' = [] then coins_height c else 0)"
      "coins_vout c' = [] \<longrightarrow> undo_fCoinBase u = fCoinBase c \<and> undo_version u = coins_version c"
    using assms(4) by (auto simp: Spend_def Let_def split: if_splits)
  have l: "\<not> CTxOut_IsNull (last ?v)" using assms(1) n(1) by (auto simp: cleaned_def)
  have cv: "coins_vout c' = strip_null (?v[n := CTxOut_null])" by (simp add: c' Cleanup_def)
  have rest: "(coins_vout c' @ replicate (n + 1 - length (coins_vout c')) CTxOut_null)[n := ?v ! n] = ?v"
    unfolding cv using restore_vout [OF n(1) l n(2)] assms(2) by (simp add: canonical_nulls_def)
  have na: "\<not> IsAvailable c' n"
  proof -
    obtain k where k: "?v[n := CTxOut_null] = coins_vout c' @ k"
      using strip_null_split [of "?v[n := CTxOut_null]"] cv by auto
    have "coins_vout c' ! n = CTxOut_null" if "n < length (coins_vout c')"
      using arg_cong [OF k, of "\<lambda>x. x ! n"] that n(1) by (simp add: nth_append)
    then show ?thesis by (auto simp: IsAvailable_def)
  qed
  have pr: "IsPruned c' \<longleftrightarrow> coins_vout c' = []"
  proof -
    have "cleaned c'" by (simp add: c')
    then show ?thesis by (cases "coins_vout c'" rule: rev_cases) (auto simp: IsPruned_def cleaned_def)
  qed
  have cc: "Cleanup c = c" using assms(1) by (rule Cleanup_id)
  have cs: "Cleanup (c\<lparr>fCoinStake := False\<rparr>) = c\<lparr>fCoinStake := False\<rparr>"
    using assms(1) by (intro Cleanup_id) (simp add: cleaned_def)
  show ?thesis
  proof (cases "coins_vout c' = []")
    case True
    let ?c1 = "(CCoins_Clear c')\<lparr>fCoinBase := undo_fCoinBase u, coins_height := undo_height u,
        coins_version := undo_version u\<rparr>"
    have "?c1\<lparr>coins_vout := ?v\<rparr> = c\<lparr>fCoinStake := False\<rparr>"
      using u True by (simp add: CCoins_Clear_def)
    then have "Cleanup (?c1\<lparr>coins_vout := ?v\<rparr>) = c\<lparr>fCoinStake := False\<rparr>" using cs by simp
    moreover have "(replicate (n + 1) CTxOut_null)[n := ?v ! n] = ?v" using rest True by simp
    moreover have "undo_height u \<noteq> 0" using u True assms(3) by simp
    ultimately show ?thesis
      using True pr u(1) by (simp add: undo_input_def Let_def CCoins_Clear_def IsAvailable_def del: replicate_Suc)
  next
    case False
    have "c'\<lparr>coins_vout := ?v\<rparr> = c" by (simp add: c' Cleanup_def)
    then show ?thesis
      using False pr u na rest cc by (simp add: undo_input_def Let_def)
  qed
qed

text \<open>Disconnecting undoes spending: for an output of a transaction that is not a coinstake, the
  undo record that \<open>Spend\<close> writes restores exactly the coins before, and the restore counts as
  clean.\<close>

theorem undo_restores_spent:
  assumes "cleaned c" and "canonical_nulls c" and "0 < coins_height c" and "\<not> fCoinStake c"
    and "Spend c n = Some (c', u)"
  shows "undo_input c' n u = (c, True)"
  using Spend_undo [OF assms(1-3,5)] assms(4) by simp

definition sample_coins :: "bool \<Rightarrow> CCoins" where
  "sample_coins stake = \<lparr>fCoinBase = False, fCoinStake = stake,
     coins_vout = [CTxOut_null, \<lparr>nValue = 7, scriptPubKey = [0x51], nRounds = - 10\<rparr>],
     coins_height = 100, coins_version = 1\<rparr>"

lemma undo_restores_spent_witness:
  "undo_input (sample_coins False\<lparr>coins_vout := []\<rparr>) 1
     \<lparr>undo_txout = \<lparr>nValue = 7, scriptPubKey = [0x51], nRounds = - 10\<rparr>, undo_fCoinBase = False,
      undo_fCoinStake = False, undo_height = 100, undo_version = 1\<rparr> = (sample_coins False, True)"
proof (rule undo_restores_spent)
  show "cleaned (sample_coins False)" "canonical_nulls (sample_coins False)" "0 < coins_height (sample_coins False)"
    "\<not> fCoinStake (sample_coins False)" by code_simp+
  show "Spend (sample_coins False) 1 = Some (sample_coins False\<lparr>coins_vout := []\<rparr>,
     \<lparr>undo_txout = \<lparr>nValue = 7, scriptPubKey = [0x51], nRounds = - 10\<rparr>, undo_fCoinBase = False,
      undo_fCoinStake = False, undo_height = 100, undo_version = 1\<rparr>)" by code_simp
qed

text \<open>A coinstake loses its mark in a reorganisation: the undo record stores \<open>fCoinStake\<close>, but the
  restore sets only \<open>fCoinBase\<close>, height and version, so after spending the last output of any
  coinstake and disconnecting again the coins differ from those before and are no longer a
  coinstake, while the restore still counts as clean.\<close>

theorem undo_forgets_coinstake:
  assumes "cleaned c" and "canonical_nulls c" and "0 < coins_height c" and "fCoinStake c"
    and "Spend c n = Some (c', u)" and "coins_vout c' = []"
  shows "snd (undo_input c' n u) \<and> \<not> fCoinStake (fst (undo_input c' n u)) \<and> undo_fCoinStake u \<and>
    \<not> CCoins_eq (fst (undo_input c' n u)) c"
proof -
  have "\<not> IsPruned c" "undo_fCoinStake u"
    using assms(4,5,6) by (auto simp: Spend_def Let_def IsPruned_def list_all_length not_le split: if_splits)
  then show ?thesis using Spend_undo [OF assms(1-3,5)] assms(4,6) by (simp add: CCoins_eq_def)
qed

lemma undo_forgets_coinstake_witness:
  "\<exists>c' u. Spend (sample_coins True) 1 = Some (c', u) \<and> \<not> fCoinStake (fst (undo_input c' 1 u))"
proof -
  have "Spend (sample_coins True) 1 = Some (sample_coins True\<lparr>coins_vout := []\<rparr>,
     \<lparr>undo_txout = \<lparr>nValue = 7, scriptPubKey = [0x51], nRounds = - 10\<rparr>, undo_fCoinBase = False,
      undo_fCoinStake = True, undo_height = 100, undo_version = 1\<rparr>)" (is "_ = Some (?c, ?u)")
    by code_simp
  moreover have "cleaned (sample_coins True)" "canonical_nulls (sample_coins True)"
    "0 < coins_height (sample_coins True)" "fCoinStake (sample_coins True)" by code_simp+
  moreover have "coins_vout ?c = []" by simp
  ultimately show ?thesis using undo_forgets_coinstake by blast
qed

end
