(* ===== verification/CoinsView.thy ===== *)
theory CoinsView
  imports Coins "HOL-Library.AList"
begin

text \<open>
  The views on the set of unspent outputs: the interface \<open>CCoinsView\<close>, the write-back cache
  \<open>CCoinsViewCache\<close> with its modifiers (src/src/coins.h, coins.cpp) and the database view
  \<open>CCoinsViewDB\<close> (src/src/txdb.cpp).  The virtual functions of a view are a record of functions on
  the state of the view; const functions that fill a cache return the new state.  \<open>CCoinsMap\<close> is
  an association list with distinct keys in any order, as the order of an unordered map is
  unspecified.  The key-value store below the database view is a map; a failed assertion is \<open>None\<close>.
\<close>

section \<open>The interface and the cache\<close>

record CCoinsCacheEntry =
  coins :: CCoins
  dirty :: bool
  fresh :: bool

type_synonym CCoinsMap = "(uint256 \<times> CCoinsCacheEntry) list"

record 'b CCoinsView =
  view_GetCoins :: "uint256 \<Rightarrow> 'b \<Rightarrow> CCoins option \<times> 'b"
  view_HaveCoins :: "uint256 \<Rightarrow> 'b \<Rightarrow> bool \<times> 'b"
  view_GetBestBlock :: "'b \<Rightarrow> uint256 \<times> 'b"
  view_BatchWrite :: "CCoinsMap \<Rightarrow> uint256 \<Rightarrow> 'b \<Rightarrow> (bool \<times> 'b) option"

record 'b CCoinsViewCache =
  base :: 'b
  hasModifier :: bool
  hashBlock :: uint256
  cacheCoins :: CCoinsMap

definition CCoinsCacheEntry_empty :: CCoinsCacheEntry where
  "CCoinsCacheEntry_empty = \<lparr>coins = CCoins_empty, dirty = False, fresh = False\<rparr>"

definition CCoinsViewCache_new :: "'b \<Rightarrow> 'b CCoinsViewCache" where
  "CCoinsViewCache_new baseIn = \<lparr>base = baseIn, hasModifier = False, hashBlock = 0, cacheCoins = []\<rparr>"

definition FetchCoins :: "'b CCoinsView \<Rightarrow> uint256 \<Rightarrow> 'b CCoinsViewCache \<Rightarrow>
    CCoinsCacheEntry option \<times> 'b CCoinsViewCache" where
  "FetchCoins V txid c =
     (case map_of (cacheCoins c) txid of
        Some e \<Rightarrow> (Some e, c)
      | None \<Rightarrow>
          (case view_GetCoins V txid (base c) of
             (None, b) \<Rightarrow> (None, c\<lparr>base := b\<rparr>)
           | (Some tmp, b) \<Rightarrow>
               let e = \<lparr>coins = tmp, dirty = False, fresh = IsPruned tmp\<rparr>
               in (Some e, c\<lparr>base := b, cacheCoins := AList.update txid e (cacheCoins c)\<rparr>)))"

definition AccessCoins :: "'b CCoinsView \<Rightarrow> uint256 \<Rightarrow> 'b CCoinsViewCache \<Rightarrow> CCoins option \<times> 'b CCoinsViewCache" where
  "AccessCoins V txid c = (case FetchCoins V txid c of (e, c') \<Rightarrow> (map_option coins e, c'))"

definition GetCoins :: "'b CCoinsView \<Rightarrow> uint256 \<Rightarrow> 'b CCoinsViewCache \<Rightarrow> CCoins option \<times> 'b CCoinsViewCache" where
  "GetCoins V txid c = (case FetchCoins V txid c of (Some e, c') \<Rightarrow> (Some (coins e), c') | (None, c') \<Rightarrow> (None, c'))"

definition HaveCoins :: "'b CCoinsView \<Rightarrow> uint256 \<Rightarrow> 'b CCoinsViewCache \<Rightarrow> bool \<times> 'b CCoinsViewCache" where
  "HaveCoins V txid c =
     (case FetchCoins V txid c of (Some e, c') \<Rightarrow> (coins_vout (coins e) \<noteq> [], c') | (None, c') \<Rightarrow> (False, c'))"

definition GetBestBlock :: "'b CCoinsView \<Rightarrow> 'b CCoinsViewCache \<Rightarrow> uint256 \<times> 'b CCoinsViewCache" where
  "GetBestBlock V c =
     (if hashBlock c = 0
      then case view_GetBestBlock V (base c) of (h, b) \<Rightarrow> (h, c\<lparr>base := b, hashBlock := h\<rparr>)
      else (hashBlock c, c))"

definition SetBestBlock :: "uint256 \<Rightarrow> 'b CCoinsViewCache \<Rightarrow> 'b CCoinsViewCache" where
  "SetBestBlock h c = c\<lparr>hashBlock := h\<rparr>"

definition GetCacheSize :: "'b CCoinsViewCache \<Rightarrow> nat" where
  "GetCacheSize c = length (cacheCoins c)"

subsection \<open>Modifiers\<close>

text \<open>\<open>ModifyCoins\<close> (which constructs the modifier), a change through the modifier, and its
  destructor.\<close>

definition ModifyCoins :: "'b CCoinsView \<Rightarrow> uint256 \<Rightarrow> 'b CCoinsViewCache \<Rightarrow> 'b CCoinsViewCache option" where
  "ModifyCoins V txid c =
     (if hasModifier c then None
      else
        let (e, b) =
          (case map_of (cacheCoins c) txid of
             Some e \<Rightarrow> (e, base c)
           | None \<Rightarrow>
               (case view_GetCoins V txid (base c) of
                  (None, b) \<Rightarrow> (CCoinsCacheEntry_empty\<lparr>coins := CCoins_Clear CCoins_empty, fresh := True\<rparr>, b)
                | (Some cs, b) \<Rightarrow> (CCoinsCacheEntry_empty\<lparr>coins := cs, fresh := IsPruned cs\<rparr>, b)))
        in Some (c\<lparr>base := b, hasModifier := True, cacheCoins := AList.update txid (e\<lparr>dirty := True\<rparr>) (cacheCoins c)\<rparr>))"

definition modifier_update :: "uint256 \<Rightarrow> (CCoins \<Rightarrow> CCoins) \<Rightarrow> 'b CCoinsViewCache \<Rightarrow> 'b CCoinsViewCache" where
  "modifier_update txid f c =
     (case map_of (cacheCoins c) txid of
        Some e \<Rightarrow> c\<lparr>cacheCoins := AList.update txid (e\<lparr>coins := f (coins e)\<rparr>) (cacheCoins c)\<rparr>
      | None \<Rightarrow> c)"

definition modifier_destroy :: "uint256 \<Rightarrow> 'b CCoinsViewCache \<Rightarrow> 'b CCoinsViewCache option" where
  "modifier_destroy txid c =
     (if \<not> hasModifier c then None
      else
        case map_of (cacheCoins c) txid of
          None \<Rightarrow> None
        | Some e \<Rightarrow>
            let e' = e\<lparr>coins := Cleanup (coins e)\<rparr>
            in Some (c\<lparr>hasModifier := False, cacheCoins :=
                 (if fresh e' \<and> IsPruned (coins e') then AList.delete txid (cacheCoins c)
                  else AList.update txid e' (cacheCoins c))\<rparr>))"

text \<open>The use of a modifier within one full expression or block, as all callers do, with a value that
  the use returns.\<close>

definition modifier_get :: "uint256 \<Rightarrow> 'b CCoinsViewCache \<Rightarrow> CCoins" where
  "modifier_get txid c = (case map_of (cacheCoins c) txid of Some e \<Rightarrow> coins e | None \<Rightarrow> CCoins_empty)"

definition with_modifier_r :: "'b CCoinsView \<Rightarrow> uint256 \<Rightarrow> (CCoins \<Rightarrow> CCoins \<times> 'r) \<Rightarrow> 'b CCoinsViewCache \<Rightarrow>
    ('r \<times> 'b CCoinsViewCache) option" where
  "with_modifier_r V txid f c =
     (case ModifyCoins V txid c of
        None \<Rightarrow> None
      | Some c1 \<Rightarrow>
          (case modifier_destroy txid (modifier_update txid (\<lambda>x. fst (f x)) c1) of
             None \<Rightarrow> None
           | Some c2 \<Rightarrow> Some (snd (f (modifier_get txid c1)), c2)))"

definition with_modifier :: "'b CCoinsView \<Rightarrow> uint256 \<Rightarrow> (CCoins \<Rightarrow> CCoins) \<Rightarrow> 'b CCoinsViewCache \<Rightarrow>
    'b CCoinsViewCache option" where
  "with_modifier V txid f c = map_option snd (with_modifier_r V txid (\<lambda>x. (f x, ())) c)"

subsection \<open>Writing back\<close>

definition BatchWrite_entry :: "uint256 \<Rightarrow> CCoinsCacheEntry \<Rightarrow> CCoinsMap \<Rightarrow> CCoinsMap option" where
  "BatchWrite_entry txid e m =
     (if \<not> dirty e then Some m
      else
        case map_of m txid of
          None \<Rightarrow>
            if \<not> IsPruned (coins e)
            then if \<not> fresh e then None
                 else Some (AList.update txid \<lparr>coins = coins e, dirty = True, fresh = True\<rparr> m)
            else Some m
        | Some us \<Rightarrow>
            if fresh us \<and> IsPruned (coins e) then Some (AList.delete txid m)
            else Some (AList.update txid (us\<lparr>coins := coins e, dirty := True\<rparr>) m))"

fun BatchWrite_loop :: "CCoinsMap \<Rightarrow> CCoinsMap \<Rightarrow> CCoinsMap option" where
  "BatchWrite_loop [] m = Some m"
| "BatchWrite_loop ((txid, e) # es) m =
     (case BatchWrite_entry txid e m of None \<Rightarrow> None | Some m' \<Rightarrow> BatchWrite_loop es m')"

definition BatchWrite :: "CCoinsMap \<Rightarrow> uint256 \<Rightarrow> 'b CCoinsViewCache \<Rightarrow> (bool \<times> 'b CCoinsViewCache) option" where
  "BatchWrite mapCoins hashBlockIn c =
     (if hasModifier c then None
      else case BatchWrite_loop mapCoins (cacheCoins c) of
             None \<Rightarrow> None
           | Some m \<Rightarrow> Some (True, c\<lparr>cacheCoins := m, hashBlock := hashBlockIn\<rparr>))"

definition Flush :: "'b CCoinsView \<Rightarrow> 'b CCoinsViewCache \<Rightarrow> (bool \<times> 'b CCoinsViewCache) option" where
  "Flush V c =
     (case view_BatchWrite V (cacheCoins c) (hashBlock c) (base c) of
        None \<Rightarrow> None
      | Some (fOk, b) \<Rightarrow> Some (fOk, c\<lparr>base := b, cacheCoins := []\<rparr>))"

text \<open>The virtual functions of \<open>CCoinsViewCache\<close>.\<close>

definition cache_view :: "'b CCoinsView \<Rightarrow> 'b CCoinsViewCache CCoinsView" where
  "cache_view V = \<lparr>view_GetCoins = GetCoins V, view_HaveCoins = HaveCoins V,
     view_GetBestBlock = GetBestBlock V, view_BatchWrite = BatchWrite\<rparr>"

subsection \<open>Reading the inputs of a transaction\<close>

definition GetOutputFor :: "'b CCoinsView \<Rightarrow> CTxIn \<Rightarrow> 'b CCoinsViewCache \<Rightarrow> (CTxOut \<times> 'b CCoinsViewCache) option" where
  "GetOutputFor V input c =
     (case AccessCoins V (out_hash (prevout input)) c of
        (None, c') \<Rightarrow> None
      | (Some cs, c') \<Rightarrow>
          if IsAvailable cs (unat (out_n (prevout input)))
          then Some (coins_vout cs ! unat (out_n (prevout input)), c') else None)"

fun GetValueIn_loop :: "'b CCoinsView \<Rightarrow> CTxIn list \<Rightarrow> int \<Rightarrow> 'b CCoinsViewCache \<Rightarrow> (int \<times> 'b CCoinsViewCache) option" where
  "GetValueIn_loop V [] nResult c = Some (nResult, c)"
| "GetValueIn_loop V (i # ins) nResult c =
     (case GetOutputFor V i c of
        None \<Rightarrow> None
      | Some (out, c') \<Rightarrow> GetValueIn_loop V ins (wrap64 (nResult + nValue out)) c')"

definition GetValueIn :: "'b CCoinsView \<Rightarrow> CTransaction \<Rightarrow> 'b CCoinsViewCache \<Rightarrow> (int \<times> 'b CCoinsViewCache) option" where
  "GetValueIn V tx c =
     (if IsCoinBase tx then Some (0, c)
      else if IsZerocoinSpend_tx tx then Some (GetZerocoinSpent tx, c)
      else GetValueIn_loop V (vin tx) 0 c)"

fun HaveInputs_loop :: "'b CCoinsView \<Rightarrow> CTxIn list \<Rightarrow> 'b CCoinsViewCache \<Rightarrow> bool \<times> 'b CCoinsViewCache" where
  "HaveInputs_loop V [] c = (True, c)"
| "HaveInputs_loop V (i # ins) c =
     (case AccessCoins V (out_hash (prevout i)) c of
        (None, c') \<Rightarrow> (False, c')
      | (Some cs, c') \<Rightarrow>
          if IsAvailable cs (unat (out_n (prevout i))) then HaveInputs_loop V ins c' else (False, c'))"

definition HaveInputs :: "'b CCoinsView \<Rightarrow> CTransaction \<Rightarrow> 'b CCoinsViewCache \<Rightarrow> bool \<times> 'b CCoinsViewCache" where
  "HaveInputs V tx c =
     (if \<not> IsCoinBase tx \<and> \<not> IsZerocoinSpend_tx tx then HaveInputs_loop V (vin tx) c else (True, c))"

section \<open>The database view\<close>

record coins_db =
  db_coins :: "uint256 \<Rightarrow> CCoins option"
  db_best :: "uint256 option"

definition DB_GetCoins :: "uint256 \<Rightarrow> coins_db \<Rightarrow> CCoins option \<times> coins_db" where
  "DB_GetCoins txid db = (db_coins db txid, db)"

definition DB_HaveCoins :: "uint256 \<Rightarrow> coins_db \<Rightarrow> bool \<times> coins_db" where
  "DB_HaveCoins txid db = (db_coins db txid \<noteq> None, db)"

definition DB_GetBestBlock :: "coins_db \<Rightarrow> uint256 \<times> coins_db" where
  "DB_GetBestBlock db = (case db_best db of None \<Rightarrow> 0 | Some h \<Rightarrow> h, db)"

definition BatchWriteCoins :: "uint256 \<Rightarrow> CCoins \<Rightarrow> (uint256 \<Rightarrow> CCoins option) \<Rightarrow> uint256 \<Rightarrow> CCoins option" where
  "BatchWriteCoins txid cs m = m(txid := (if IsPruned cs then None else Some cs))"

definition DB_BatchWrite :: "CCoinsMap \<Rightarrow> uint256 \<Rightarrow> coins_db \<Rightarrow> (bool \<times> coins_db) option" where
  "DB_BatchWrite mapCoins h db =
     (let m = fold (\<lambda>(txid, e) m. if dirty e then BatchWriteCoins txid (coins e) m else m) mapCoins (db_coins db)
      in Some (True, db\<lparr>db_coins := m, db_best := (if h \<noteq> 0 then Some h else db_best db)\<rparr>))"

definition db_view :: "coins_db CCoinsView" where
  "db_view = \<lparr>view_GetCoins = DB_GetCoins, view_HaveCoins = DB_HaveCoins,
     view_GetBestBlock = DB_GetBestBlock, view_BatchWrite = DB_BatchWrite\<rparr>"


section \<open>The unspent set of a view\<close>

text \<open>\<open>unspent\<close> identifies missing and pruned entries: the abstract state of a view is a partial
  function from transactions to coins with an unspent output.\<close>

definition unspent :: "CCoins option \<Rightarrow> CCoins option" where
  "unspent r = (case r of None \<Rightarrow> None | Some cs \<Rightarrow> if IsPruned cs then None else Some cs)"

type_synonym utxos = "uint256 \<Rightarrow> CCoins option"

definition apply_batch :: "CCoinsMap \<Rightarrow> utxos \<Rightarrow> utxos" where
  "apply_batch m A t =
     (case map_of m t of
        None \<Rightarrow> A t
      | Some e \<Rightarrow> if dirty e then unspent (Some (coins e)) else A t)"

definition batch_ok :: "utxos \<Rightarrow> (uint256 \<Rightarrow> bool) \<Rightarrow> CCoinsMap \<Rightarrow> bool" where
  "batch_ok A H m \<longleftrightarrow> distinct (map fst m) \<and>
     (\<forall>(t, e) \<in> set m. dirty e \<longrightarrow> (if fresh e then A t = None else H t))"

definition entry_ok :: "utxos \<Rightarrow> (uint256 \<Rightarrow> bool) \<Rightarrow> uint256 \<Rightarrow> CCoinsCacheEntry \<Rightarrow> bool" where
  "entry_ok A H t e \<longleftrightarrow> (if fresh e then A t = None else H t) \<and>
     (dirty e \<or> unspent (Some (coins e)) = A t)"

definition entries_ok :: "utxos \<Rightarrow> (uint256 \<Rightarrow> bool) \<Rightarrow> CCoinsMap \<Rightarrow> bool" where
  "entries_ok A H m \<longleftrightarrow> distinct (map fst m) \<and> (\<forall>t e. map_of m t = Some e \<longrightarrow> entry_ok A H t e)"

definition map_abs :: "utxos \<Rightarrow> CCoinsMap \<Rightarrow> utxos" where
  "map_abs A m t = (case map_of m t of None \<Rightarrow> A t | Some e \<Rightarrow> unspent (Some (coins e)))"

lemma unspent_simps [simp]:
  "unspent None = None"
  "IsPruned cs \<Longrightarrow> unspent (Some cs) = None"
  "\<not> IsPruned cs \<Longrightarrow> unspent (Some cs) = Some cs"
  by (auto simp: unspent_def)

lemma unspent_None_iff: "unspent (Some cs) = None \<longleftrightarrow> IsPruned cs"
  by (simp add: unspent_def)

lemma map_abs_update [simp]:
  "map_abs A (AList.update t e m) = (map_abs A m)(t := unspent (Some (coins e)))"
  by (auto simp: map_abs_def update_conv')

lemma map_abs_delete [simp]:
  "map_abs A (AList.delete t m) = (map_abs A m)(t := A t)"
  by (auto simp: map_abs_def delete_conv' restrict_map_def)

lemma entries_ok_update:
  "entries_ok A H m \<Longrightarrow> entry_ok A H t e \<Longrightarrow> entries_ok A H (AList.update t e m)"
  by (auto simp: entries_ok_def update_conv' distinct_update)

lemma entries_ok_delete: "entries_ok A H m \<Longrightarrow> entries_ok A H (AList.delete t m)"
  by (auto simp: entries_ok_def delete_conv' restrict_map_def distinct_delete split: if_splits)

lemma entries_ok_mono:
  "entries_ok A H m \<Longrightarrow> (\<And>t. H t \<Longrightarrow> H' t) \<Longrightarrow> entries_ok A H' m"
  by (auto simp: entries_ok_def entry_ok_def split: if_splits)

lemma entries_okD: "entries_ok A H m \<Longrightarrow> map_of m t = Some e \<Longrightarrow> entry_ok A H t e"
  by (simp add: entries_ok_def)

text \<open>One entry written into a cache, and the whole batch: the assertion that a missing entry is
  fresh never fails.\<close>

lemma BatchWrite_entry_ok:
  assumes m: "entries_ok A H m"
    and e: "dirty e \<Longrightarrow> (if fresh e then map_abs A m t = None else map_of m t \<noteq> None)"
  shows "\<exists>m'. BatchWrite_entry t e m = Some m' \<and> entries_ok A H m' \<and>
    map_abs A m' = (if dirty e then (map_abs A m)(t := unspent (Some (coins e))) else map_abs A m) \<and>
    (\<forall>u. u \<noteq> t \<longrightarrow> map_of m' u = map_of m u)"
proof (cases "dirty e")
  case d: True
  show ?thesis
  proof (cases "map_of m t")
    case None
    then have f: "fresh e" "A t = None"
      using e [OF d] by (auto simp: map_abs_def split: if_splits)
    show ?thesis
    proof (cases "IsPruned (coins e)")
      case True
      then have "(map_abs A m)(t := unspent (Some (coins e))) = map_abs A m"
        using None f by (auto simp: map_abs_def)
      then show ?thesis using d None True m by (simp add: BatchWrite_entry_def)
    next
      case False
      then show ?thesis using d None f m
        by (auto simp: BatchWrite_entry_def entry_ok_def update_conv' intro!: entries_ok_update)
    qed
  next
    case (Some us)
    have us: "entry_ok A H t us" using m Some by (rule entries_okD)
    show ?thesis
    proof (cases "fresh us \<and> IsPruned (coins e)")
      case True
      then show ?thesis using d Some m us
        by (auto simp: BatchWrite_entry_def entry_ok_def delete_conv' intro!: entries_ok_delete)
    next
      case False
      then show ?thesis using d Some m us
        by (auto simp: BatchWrite_entry_def entry_ok_def update_conv' intro!: entries_ok_update)
    qed
  qed
qed (use m in \<open>simp add: BatchWrite_entry_def\<close>)

lemma BatchWrite_loop_ok:
  assumes "entries_ok A H m" and "batch_ok (map_abs A m) (\<lambda>t. map_of m t \<noteq> None) es"
  shows "\<exists>m'. BatchWrite_loop es m = Some m' \<and> entries_ok A H m' \<and> map_abs A m' = apply_batch es (map_abs A m)"
  using assms
proof (induction es arbitrary: m)
  case Nil
  then show ?case by (auto simp: apply_batch_def)
next
  case (Cons x es)
  obtain t e where x: "x = (t, e)" by force
  have tn: "map_of es t = None"
    using Cons.prems(2) by (auto simp: batch_ok_def x map_of_eq_None_iff)
  have e: "dirty e \<Longrightarrow> (if fresh e then map_abs A m t = None else map_of m t \<noteq> None)"
    using Cons.prems(2) by (simp add: batch_ok_def x)
  obtain m1 where m1: "BatchWrite_entry t e m = Some m1" "entries_ok A H m1"
      "map_abs A m1 = (if dirty e then (map_abs A m)(t := unspent (Some (coins e))) else map_abs A m)"
      "\<And>u. u \<noteq> t \<Longrightarrow> map_of m1 u = map_of m u"
    using BatchWrite_entry_ok [OF Cons.prems(1) e] by blast
  have "batch_ok (map_abs A m1) (\<lambda>t. map_of m1 t \<noteq> None) es"
    unfolding batch_ok_def
  proof (intro conjI ballI)
    show "distinct (map fst es)" using Cons.prems(2) by (simp add: batch_ok_def)
    fix y assume y: "y \<in> set es"
    then have "fst y \<noteq> t" using tn by (auto simp: map_of_eq_None_iff)
    then show "case y of (u, e') \<Rightarrow> dirty e' \<longrightarrow> (if fresh e' then map_abs A m1 u = None else map_of m1 u \<noteq> None)"
      using Cons.prems(2) y m1(3,4) by (fastforce simp: batch_ok_def x split: prod.splits)
  qed
  then obtain m' where m': "BatchWrite_loop es m1 = Some m'" "entries_ok A H m'"
      "map_abs A m' = apply_batch es (map_abs A m1)"
    using Cons.IH [OF m1(2)] by blast
  have "apply_batch es (map_abs A m1) = apply_batch (x # es) (map_abs A m)"
    using tn m1(3) by (auto simp: apply_batch_def x split: option.splits)
  then show ?case using m1(1) m' by (simp add: x)
qed

text \<open>What a cache sends down is a correct batch, and applying it makes the set of the cache.\<close>

lemma entries_ok_batch: "entries_ok A H m \<Longrightarrow> batch_ok A H m"
  by (fastforce simp: entries_ok_def batch_ok_def entry_ok_def)

lemma apply_batch_entries: "entries_ok A H m \<Longrightarrow> apply_batch m A = map_abs A m"
proof (rule ext)
  fix t
  assume "entries_ok A H m"
  then show "apply_batch m A t = map_abs A m t"
    by (cases "map_of m t") (auto simp: apply_batch_def map_abs_def dest: entries_okD simp: entry_ok_def)
qed

section \<open>The contract of a view\<close>

locale coins_view =
  fixes V :: "'b CCoinsView"
    and abs :: "'b \<Rightarrow> utxos"
    and has :: "'b \<Rightarrow> uint256 \<Rightarrow> bool"
    and inv :: "'b \<Rightarrow> bool"
  assumes get_coins: "inv b \<Longrightarrow> view_GetCoins V t b = (r, b') \<Longrightarrow>
      inv b' \<and> abs b' = abs b \<and> unspent r = abs b t \<and> (\<forall>u. has b u \<longrightarrow> has b' u) \<and> (r \<noteq> None \<longrightarrow> has b' t)"
    and have_coins: "inv b \<Longrightarrow> view_HaveCoins V t b = (q, b') \<Longrightarrow>
      inv b' \<and> abs b' = abs b \<and> (\<forall>u. has b u \<longrightarrow> has b' u) \<and> (abs b t \<noteq> None \<longrightarrow> q)"
    and best_block: "inv b \<Longrightarrow> view_GetBestBlock V b = (h, b') \<Longrightarrow>
      inv b' \<and> abs b' = abs b \<and> (\<forall>u. has b u \<longrightarrow> has b' u)"
    and batch_write: "inv b \<Longrightarrow> batch_ok (abs b) (has b) m \<Longrightarrow>
      \<exists>b'. view_BatchWrite V m h b = Some (True, b') \<and> inv b' \<and> abs b' = apply_batch m (abs b) \<and>
        (h \<noteq> 0 \<longrightarrow> fst (view_GetBestBlock V b') = h)"

definition cache_abs :: "('b \<Rightarrow> utxos) \<Rightarrow> 'b CCoinsViewCache \<Rightarrow> utxos" where
  "cache_abs A c = map_abs (A (base c)) (cacheCoins c)"

definition cache_has :: "'b CCoinsViewCache \<Rightarrow> uint256 \<Rightarrow> bool" where
  "cache_has c t \<longleftrightarrow> map_of (cacheCoins c) t \<noteq> None"

definition cache_inv :: "('b \<Rightarrow> utxos) \<Rightarrow> ('b \<Rightarrow> uint256 \<Rightarrow> bool) \<Rightarrow> ('b \<Rightarrow> bool) \<Rightarrow> 'b CCoinsViewCache \<Rightarrow> bool" where
  "cache_inv A H I c \<longleftrightarrow> I (base c) \<and> \<not> hasModifier c \<and> entries_ok (A (base c)) (H (base c)) (cacheCoins c)"

text \<open>What a modification makes of the abstract state: the entry is replaced by what the
  function makes of the coins, or of some pruned coins when there are none.\<close>

definition modified :: "(CCoins \<Rightarrow> CCoins) \<Rightarrow> uint256 \<Rightarrow> utxos \<Rightarrow> utxos \<Rightarrow> bool" where
  "modified f t A A' \<longleftrightarrow> (\<exists>x. unspent (Some x) = A t \<and> A' = A(t := unspent (Some (Cleanup (f x)))))"

text \<open>The output an outpoint names in an unspent set, if it can be spent.\<close>

definition utxo_output :: "utxos \<Rightarrow> COutPoint \<Rightarrow> CTxOut option" where
  "utxo_output A p =
     (case A (out_hash p) of
        None \<Rightarrow> None
      | Some cs \<Rightarrow> if IsAvailable cs (unat (out_n p)) then Some (coins_vout cs ! unat (out_n p)) else None)"

lemma utxo_output_unspent:
  assumes "unspent r = A (out_hash p)"
  shows "utxo_output A p =
    (case r of
       None \<Rightarrow> None
     | Some cs \<Rightarrow> if IsAvailable cs (unat (out_n p)) then Some (coins_vout cs ! unat (out_n p)) else None)"
proof -
  have "\<not> IsAvailable cs n" if "IsPruned cs" for cs n
    using that by (auto simp: IsAvailable_def IsPruned_def list_all_length)
  then show ?thesis using assms by (auto simp: utxo_output_def unspent_def split: option.splits if_splits)
qed

context coins_view
begin

lemma fetch:
  assumes "cache_inv abs has inv c" and "FetchCoins V t c = (r, c')"
  shows "cache_inv abs has inv c' \<and> cache_abs abs c' = cache_abs abs c \<and> abs (base c') = abs (base c) \<and>
    unspent (map_option coins r) = cache_abs abs c t \<and> (\<forall>u. cache_has c u \<longrightarrow> cache_has c' u) \<and>
    (r \<noteq> None \<longrightarrow> cache_has c' t)"
proof (cases "map_of (cacheCoins c) t")
  case (Some e)
  then have "r = Some e" "c' = c" using assms(2) by (simp_all add: FetchCoins_def)
  then show ?thesis using assms(1) Some by (simp add: cache_has_def cache_abs_def map_abs_def)
next
  case None
  obtain q b where q: "view_GetCoins V t (base c) = (q, b)" by force
  have inv: "inv (base c)" "\<not> hasModifier c" "entries_ok (abs (base c)) (has (base c)) (cacheCoins c)"
    using assms(1) by (auto simp: cache_inv_def)
  have b: "inv b" "abs b = abs (base c)" "unspent q = abs (base c) t"
      "\<And>u. has (base c) u \<Longrightarrow> has b u" "q \<noteq> None \<Longrightarrow> has b t"
    using get_coins [OF inv(1) q] by auto
  have ok: "entries_ok (abs b) (has b) (cacheCoins c)"
    unfolding b(2) using inv(3) b(4) by (rule entries_ok_mono)
  show ?thesis
  proof (cases q)
    case N: None
    then show ?thesis using assms(2) None q b inv(2) ok
      by (auto simp: FetchCoins_def cache_inv_def cache_abs_def cache_has_def map_abs_def)
  next
    case (Some tmp)
    let ?e = "\<lparr>coins = tmp, dirty = False, fresh = IsPruned tmp\<rparr>"
    have r: "r = Some ?e" "c' = c\<lparr>base := b, cacheCoins := AList.update t ?e (cacheCoins c)\<rparr>"
      using assms(2) None q Some by (auto simp: FetchCoins_def Let_def)
    have "entry_ok (abs b) (has b) t ?e" using b Some by (auto simp: entry_ok_def)
    then have "entries_ok (abs b) (has b) (AList.update t ?e (cacheCoins c))"
      using ok by (intro entries_ok_update)
    moreover have "(map_abs (abs b) (cacheCoins c))(t := unspent (Some tmp)) = map_abs (abs b) (cacheCoins c)"
      using None b(2,3) Some by (auto simp: map_abs_def)
    ultimately show ?thesis using b Some inv(2) None
      by (auto simp: r cache_inv_def cache_abs_def cache_has_def update_conv' map_abs_def)
  qed
qed

lemma access:
  assumes "cache_inv abs has inv c" and "AccessCoins V t c = (r, c')"
  shows "cache_inv abs has inv c' \<and> cache_abs abs c' = cache_abs abs c \<and> abs (base c') = abs (base c) \<and>
    unspent r = cache_abs abs c t"
  using fetch [OF assms(1), of t] assms(2) by (fastforce simp: AccessCoins_def split: prod.splits)

lemma have_inputs_loop:
  assumes "cache_inv abs has inv c" and "HaveInputs_loop V ins c = (q, c')"
  shows "cache_inv abs has inv c' \<and> cache_abs abs c' = cache_abs abs c \<and> abs (base c') = abs (base c) \<and>
    (q \<longleftrightarrow> (\<forall>i \<in> set ins. utxo_output (cache_abs abs c) (prevout i) \<noteq> None))"
  using assms
proof (induction ins arbitrary: c)
  case (Cons i ins)
  obtain r c1 where r: "AccessCoins V (out_hash (prevout i)) c = (r, c1)" by force
  have c1: "cache_inv abs has inv c1" "cache_abs abs c1 = cache_abs abs c" "abs (base c1) = abs (base c)"
      "unspent r = cache_abs abs c (out_hash (prevout i))"
    using access [OF Cons.prems(1) r] by auto
  show ?case
    using Cons.IH [OF c1(1)] Cons.prems(2) r c1 utxo_output_unspent [where A = "cache_abs abs c" and p = "prevout i", OF c1(4)]
    by (auto split: option.splits if_splits)
qed simp

lemma value_in_loop:
  assumes "cache_inv abs has inv c" and "\<forall>i \<in> set ins. utxo_output (cache_abs abs c) (prevout i) \<noteq> None"
  shows "\<exists>c'. GetValueIn_loop V ins v c =
      Some (fold (\<lambda>i v. wrap64 (v + nValue (the (utxo_output (cache_abs abs c) (prevout i))))) ins v, c') \<and>
    cache_inv abs has inv c' \<and> cache_abs abs c' = cache_abs abs c"
  using assms
proof (induction ins arbitrary: c v)
  case (Cons i ins)
  obtain r c1 where r: "AccessCoins V (out_hash (prevout i)) c = (r, c1)" by force
  have c1: "cache_inv abs has inv c1" "cache_abs abs c1 = cache_abs abs c"
      "unspent r = cache_abs abs c (out_hash (prevout i))"
    using access [OF Cons.prems(1) r] by auto
  then obtain cs where cs: "r = Some cs" "IsAvailable cs (unat (out_n (prevout i)))"
      "utxo_output (cache_abs abs c) (prevout i) = Some (coins_vout cs ! unat (out_n (prevout i)))"
    using Cons.prems(2) utxo_output_unspent [where A = "cache_abs abs c" and p = "prevout i", OF c1(3)]
    by (auto split: option.splits if_splits)
  show ?case
    using Cons.IH [OF c1(1)] Cons.prems(2) cs c1(2) by (auto simp: GetOutputFor_def r)
qed simp

lemma modify_r:
  assumes "cache_inv abs has inv c"
  shows "\<exists>x c'. with_modifier_r V t f c = Some (snd (f x), c') \<and> cache_inv abs has inv c' \<and>
    unspent (Some x) = cache_abs abs c t \<and>
    cache_abs abs c' = (cache_abs abs c)(t := unspent (Some (Cleanup (fst (f x))))) \<and>
    abs (base c') = abs (base c)"
proof -
  have inv: "inv (base c)" "\<not> hasModifier c" "entries_ok (abs (base c)) (has (base c)) (cacheCoins c)"
    using assms(1) by (auto simp: cache_inv_def)
  text \<open>The entry before the change.\<close>
  obtain e b where e: "ModifyCoins V t c =
        Some (c\<lparr>base := b, hasModifier := True, cacheCoins := AList.update t (e\<lparr>dirty := True\<rparr>) (cacheCoins c)\<rparr>)"
      "inv b" "abs b = abs (base c)" "entries_ok (abs b) (has b) (cacheCoins c)"
      "if fresh e then abs b t = None else has b t" "unspent (Some (coins e)) = cache_abs abs c t"
  proof (cases "map_of (cacheCoins c) t")
    case (Some e)
    then have "entry_ok (abs (base c)) (has (base c)) t e" using inv(3) by (intro entries_okD)
    then show ?thesis using Some inv
      by (intro that [of e "base c"]) (auto simp: ModifyCoins_def entry_ok_def cache_abs_def map_abs_def)
  next
    case None
    obtain q b where q: "view_GetCoins V t (base c) = (q, b)" by force
    have b: "inv b" "abs b = abs (base c)" "unspent q = abs (base c) t"
        "\<And>u. has (base c) u \<Longrightarrow> has b u" "q \<noteq> None \<Longrightarrow> has b t"
      using get_coins [OF inv(1) q] by auto
    have ok: "entries_ok (abs b) (has b) (cacheCoins c)"
      unfolding b(2) using inv(3) b(4) by (rule entries_ok_mono)
    show ?thesis
    proof (cases q)
      case N: None
      let ?e = "CCoinsCacheEntry_empty\<lparr>coins := CCoins_Clear CCoins_empty, fresh := True\<rparr>"
      have "unspent (Some (coins ?e)) = None" by (simp add: CCoins_Clear_def IsPruned_def)
      then show ?thesis using None q b inv(2) ok N
        by (intro that [of ?e b]) (simp_all add: ModifyCoins_def cache_abs_def map_abs_def)
    next
      case (Some cs)
      let ?e = "CCoinsCacheEntry_empty\<lparr>coins := cs, fresh := IsPruned cs\<rparr>"
      show ?thesis using None q b inv(2) ok Some
        by (intro that [of ?e b]) (auto simp: ModifyCoins_def cache_abs_def map_abs_def)
    qed
  qed
  let ?m = "AList.update t (e\<lparr>dirty := True\<rparr>) (cacheCoins c)"
  let ?e' = "e\<lparr>dirty := True, coins := Cleanup (fst (f (coins e)))\<rparr>"
  let ?mf = "AList.update t (e\<lparr>dirty := True, coins := fst (f (coins e))\<rparr>) ?m"
  let ?c' = "c\<lparr>base := b, hasModifier := False, cacheCoins :=
     (if fresh e \<and> IsPruned (fst (f (coins e))) then AList.delete t ?mf else AList.update t ?e' ?mf)\<rparr>"
  have w: "with_modifier_r V t f c = Some (snd (f (coins e)), ?c')"
    by (simp add: with_modifier_r_def modifier_get_def e(1) modifier_update_def modifier_destroy_def Let_def update_conv')
  have ok: "entry_ok (abs b) (has b) t (e\<lparr>dirty := True, coins := x\<rparr>)" for x
    using e(5) by (simp add: entry_ok_def)
  have okm: "entries_ok (abs b) (has b) ?mf"
    using e(4) ok [of "fst (f (coins e))"] ok [of "coins e"] by (intro entries_ok_update) simp_all
  have "entries_ok (abs b) (has b) (AList.delete t ?mf)" using okm by (rule entries_ok_delete)
  moreover have "entries_ok (abs b) (has b) (AList.update t ?e' ?mf)" using okm ok by (rule entries_ok_update)
  ultimately have i: "cache_inv abs has inv ?c'" using e(2) by (simp add: cache_inv_def)
  have "cache_abs abs ?c' = (cache_abs abs c)(t := unspent (Some (Cleanup (fst (f (coins e))))))"
    using e(3,5) by (auto simp: cache_abs_def)
  then show ?thesis using w i e(3,6) by auto
qed

lemma modify:
  assumes "cache_inv abs has inv c"
  shows "\<exists>c'. with_modifier V t f c = Some c' \<and> cache_inv abs has inv c' \<and>
    modified f t (cache_abs abs c) (cache_abs abs c') \<and> abs (base c') = abs (base c)"
  using modify_r [OF assms, of t "\<lambda>x. (f x, ())"] by (force simp: with_modifier_def modified_def)

lemma flush:
  assumes "cache_inv abs has inv c"
  shows "\<exists>c'. Flush V c = Some (True, c') \<and> cache_inv abs has inv c' \<and> cacheCoins c' = [] \<and>
    cache_abs abs c' = cache_abs abs c \<and> abs (base c') = cache_abs abs c \<and>
    (hashBlock c \<noteq> 0 \<longrightarrow> fst (view_GetBestBlock V (base c')) = hashBlock c)"
proof -
  have inv: "inv (base c)" "\<not> hasModifier c" "entries_ok (abs (base c)) (has (base c)) (cacheCoins c)"
    using assms(1) by (auto simp: cache_inv_def)
  obtain b where "view_BatchWrite V (cacheCoins c) (hashBlock c) (base c) = Some (True, b)" "inv b"
      "abs b = apply_batch (cacheCoins c) (abs (base c))"
      "hashBlock c \<noteq> 0 \<longrightarrow> fst (view_GetBestBlock V b) = hashBlock c"
    using batch_write [OF inv(1) entries_ok_batch [OF inv(3)]] by blast
  then show ?thesis using inv
    by (auto simp: Flush_def cache_inv_def cache_abs_def apply_batch_entries entries_ok_def map_abs_def)
qed

lemma cache_batch:
  assumes "cache_inv abs has inv c" and "batch_ok (cache_abs abs c) (cache_has c) m"
  shows "\<exists>c'. BatchWrite m h c = Some (True, c') \<and> cache_inv abs has inv c' \<and>
    cache_abs abs c' = apply_batch m (cache_abs abs c) \<and> hashBlock c' = h"
proof -
  have inv: "inv (base c)" "\<not> hasModifier c" "entries_ok (abs (base c)) (has (base c)) (cacheCoins c)"
    using assms(1) by (auto simp: cache_inv_def)
  have "batch_ok (map_abs (abs (base c)) (cacheCoins c)) (\<lambda>t. map_of (cacheCoins c) t \<noteq> None) m"
    using assms(2) by (simp add: cache_abs_def cache_has_def [abs_def])
  from BatchWrite_loop_ok [OF inv(3) this] show ?thesis
    using inv by (auto simp: BatchWrite_def cache_inv_def cache_abs_def)
qed

lemma cache_best:
  assumes "cache_inv abs has inv c" and "GetBestBlock V c = (h, c')"
  shows "cache_inv abs has inv c' \<and> cache_abs abs c' = cache_abs abs c \<and> abs (base c') = abs (base c) \<and>
    cacheCoins c' = cacheCoins c"
proof (cases "hashBlock c = 0")
  case True
  obtain h' b where q: "view_GetBestBlock V (base c) = (h', b)" by force
  have inv: "inv (base c)" "\<not> hasModifier c" "entries_ok (abs (base c)) (has (base c)) (cacheCoins c)"
    using assms(1) by (auto simp: cache_inv_def)
  have b: "inv b" "abs b = abs (base c)" "\<And>u. has (base c) u \<Longrightarrow> has b u"
    using best_block [OF inv(1) q] by auto
  have "entries_ok (abs b) (has b) (cacheCoins c)"
    unfolding b(2) using inv(3) b(3) by (rule entries_ok_mono)
  then show ?thesis using assms(2) True q b inv by (auto simp: GetBestBlock_def cache_inv_def cache_abs_def)
qed (use assms in \<open>auto simp: GetBestBlock_def\<close>)

text \<open>A cache over a view keeps the contract of a view.\<close>

lemma cache_is_view: "coins_view (cache_view V) (cache_abs abs) cache_has (cache_inv abs has inv)"
proof
  fix b :: "'b CCoinsViewCache" and t r b'
  assume i: "cache_inv abs has inv b" and g: "view_GetCoins (cache_view V) t b = (r, b')"
  obtain q c' where q: "FetchCoins V t b = (q, c')" by force
  have "r = map_option coins q" "b' = c'" using g q by (auto simp: cache_view_def GetCoins_def split: option.splits)
  then show "cache_inv abs has inv b' \<and> cache_abs abs b' = cache_abs abs b \<and> unspent r = cache_abs abs b t \<and>
      (\<forall>u. cache_has b u \<longrightarrow> cache_has b' u) \<and> (r \<noteq> None \<longrightarrow> cache_has b' t)"
    using fetch [OF i q] by auto
next
  fix b :: "'b CCoinsViewCache" and t q b'
  assume i: "cache_inv abs has inv b" and g: "view_HaveCoins (cache_view V) t b = (q, b')"
  obtain r c' where r: "FetchCoins V t b = (r, c')" by force
  have "b' = c'" "q \<longleftrightarrow> (\<exists>e. r = Some e \<and> coins_vout (coins e) \<noteq> [])"
    using g r by (auto simp: cache_view_def HaveCoins_def split: option.splits)
  then show "cache_inv abs has inv b' \<and> cache_abs abs b' = cache_abs abs b \<and>
      (\<forall>u. cache_has b u \<longrightarrow> cache_has b' u) \<and> (cache_abs abs b t \<noteq> None \<longrightarrow> q)"
    using fetch [OF i r] by (auto simp: unspent_def IsPruned_def split: option.splits if_splits)
next
  fix b :: "'b CCoinsViewCache" and h b'
  assume i: "cache_inv abs has inv b" and g: "view_GetBestBlock (cache_view V) b = (h, b')"
  show "cache_inv abs has inv b' \<and> cache_abs abs b' = cache_abs abs b \<and> (\<forall>u. cache_has b u \<longrightarrow> cache_has b' u)"
    using cache_best [OF i, of h b'] g by (simp add: cache_view_def cache_has_def)
next
  fix b :: "'b CCoinsViewCache" and m h
  assume i: "cache_inv abs has inv b" and m: "batch_ok (cache_abs abs b) (cache_has b) m"
  show "\<exists>b'. view_BatchWrite (cache_view V) m h b = Some (True, b') \<and> cache_inv abs has inv b' \<and>
      cache_abs abs b' = apply_batch m (cache_abs abs b) \<and>
      (h \<noteq> 0 \<longrightarrow> fst (view_GetBestBlock (cache_view V) b') = h)"
    using cache_batch [OF i m, of h] by (auto simp: cache_view_def GetBestBlock_def)
qed

end

section \<open>The stack of views\<close>

text \<open>The node keeps one cache over the database (\<open>pcoinsTip\<close>); connecting and disconnecting blocks and
  checking transactions use a second cache over it.\<close>

definition db_abs :: "coins_db \<Rightarrow> utxos" where
  "db_abs db t = unspent (db_coins db t)"

lemma DB_batch:
  assumes "distinct (map fst m)"
  shows "unspent (fold (\<lambda>(txid, e) M. if dirty e then BatchWriteCoins txid (coins e) M else M) m M t) =
    apply_batch m (\<lambda>t. unspent (M t)) t"
  using assms
proof (induction m arbitrary: M)
  case (Cons x m)
  obtain u e where x: "x = (u, e)" by force
  have un: "map_of m u = None" using Cons.prems by (auto simp: x map_of_eq_None_iff)
  have step: "(\<lambda>t. unspent (BatchWriteCoins u (coins e) M t)) = (\<lambda>t. unspent (M t))(u := unspent (Some (coins e)))"
    by (rule ext) (simp add: BatchWriteCoins_def)
  have "unspent (fold (\<lambda>(txid, e) M. if dirty e then BatchWriteCoins txid (coins e) M else M) (x # m) M t) =
      apply_batch m (\<lambda>t. unspent ((if dirty e then BatchWriteCoins u (coins e) M else M) t)) t"
    using Cons.IH [of "if dirty e then BatchWriteCoins u (coins e) M else M"] Cons.prems by (simp add: x)
  also have "\<dots> = apply_batch m (if dirty e then (\<lambda>t. unspent (M t))(u := unspent (Some (coins e)))
      else (\<lambda>t. unspent (M t))) t"
    using step by (cases "dirty e") simp_all
  also have "\<dots> = apply_batch (x # m) (\<lambda>t. unspent (M t)) t"
    using un by (auto simp: x apply_batch_def split: option.splits)
  finally show ?case .
qed (simp add: apply_batch_def)

interpretation dbv: coins_view db_view db_abs "\<lambda>_ _. True" "\<lambda>_. True"
proof
  fix b :: coins_db and m h
  assume "batch_ok (db_abs b) (\<lambda>_. True) m"
  then show "\<exists>b'. view_BatchWrite db_view m h b = Some (True, b') \<and> True \<and> db_abs b' = apply_batch m (db_abs b) \<and>
      (h \<noteq> 0 \<longrightarrow> fst (view_GetBestBlock db_view b') = h)"
    by (auto simp: db_view_def DB_BatchWrite_def DB_GetBestBlock_def Let_def db_abs_def [abs_def] batch_ok_def DB_batch)
qed (auto simp: db_view_def DB_GetCoins_def DB_HaveCoins_def DB_GetBestBlock_def db_abs_def unspent_def
    split: option.splits)

abbreviation "tip_view \<equiv> cache_view db_view"
abbreviation "tip_abs \<equiv> cache_abs db_abs"
abbreviation "tip_inv \<equiv> cache_inv db_abs (\<lambda>_ _. True) (\<lambda>_. True)"

interpretation tipv: coins_view tip_view tip_abs cache_has tip_inv
  by (rule dbv.cache_is_view)

abbreviation "block_abs \<equiv> cache_abs tip_abs"
abbreviation "block_inv \<equiv> cache_inv tip_abs cache_has tip_inv"

interpretation blockv: coins_view "cache_view tip_view" block_abs cache_has block_inv
  by (rule tipv.cache_is_view)

lemma tip_new: "tip_inv (CCoinsViewCache_new db) \<and> tip_abs (CCoinsViewCache_new db) = db_abs db"
  by (auto simp: CCoinsViewCache_new_def cache_inv_def entries_ok_def cache_abs_def map_abs_def)

lemma block_new: "tip_inv c \<Longrightarrow> block_inv (CCoinsViewCache_new c) \<and> block_abs (CCoinsViewCache_new c) = tip_abs c"
  by (auto simp: CCoinsViewCache_new_def cache_inv_def entries_ok_def cache_abs_def map_abs_def)

text \<open>\<open>HaveInputs\<close> guards \<open>GetValueIn\<close>: on a block view, \<open>HaveInputs\<close> answers whether every input
  names an available output of the unspent set, changes nothing but the caches, and when it holds
  the assertion in \<open>GetOutputFor\<close> cannot fail and the value is the (64 bit) sum of those outputs.\<close>

theorem HaveInputs_GetValueIn:
  assumes "block_inv s" and "\<not> IsCoinBase tx" and "\<not> IsZerocoinSpend_tx tx"
    and "HaveInputs tip_view tx s = (q, s')"
  shows "block_inv s' \<and> block_abs s' = block_abs s \<and> tip_abs (base s') = tip_abs (base s) \<and>
    (q \<longleftrightarrow> (\<forall>i \<in> set (vin tx). utxo_output (block_abs s) (prevout i) \<noteq> None)) \<and>
    (q \<longrightarrow> (\<exists>s''. GetValueIn tip_view tx s' =
       Some (fold (\<lambda>i v. wrap64 (v + nValue (the (utxo_output (block_abs s) (prevout i))))) (vin tx) 0, s'')))"
proof -
  have h: "HaveInputs_loop tip_view (vin tx) s = (q, s')"
    using assms(2-4) by (simp add: HaveInputs_def)
  note r = tipv.have_inputs_loop [OF assms(1) h]
  then show ?thesis
    using tipv.value_in_loop [of s' "vin tx" 0] assms(2,3) by (auto simp: GetValueIn_def)
qed

definition sample_db :: coins_db where
  "sample_db = \<lparr>db_coins = (\<lambda>_. None)(5 := Some (sample_coins False\<lparr>coins_vout := [\<lparr>nValue = 7, scriptPubKey = [0x51], nRounds = - 10\<rparr>]\<rparr>)),
     db_best = None\<rparr>"

lemma HaveInputs_GetValueIn_witness:
  "\<exists>s''. GetValueIn tip_view sample_tx
     (snd (HaveInputs tip_view sample_tx (CCoinsViewCache_new (CCoinsViewCache_new sample_db)))) = Some (7, s'')"
proof -
  let ?s = "CCoinsViewCache_new (CCoinsViewCache_new sample_db)"
  obtain q s' where h: "HaveInputs tip_view sample_tx ?s = (q, s')" by force
  have i: "block_inv ?s" "block_abs ?s = db_abs sample_db"
    using tip_new [of sample_db] block_new [of "CCoinsViewCache_new sample_db"] by simp_all
  have t: "\<not> IsCoinBase sample_tx" "\<not> IsZerocoinSpend_tx sample_tx" by code_simp+
  have o: "utxo_output (db_abs sample_db) (prevout (vin sample_tx ! 0)) = Some \<lparr>nValue = 7, scriptPubKey = [0x51], nRounds = - 10\<rparr>"
    by code_simp
  have v: "vin sample_tx = [vin sample_tx ! 0]" by (simp add: sample_tx_def)
  show ?thesis
    using HaveInputs_GetValueIn [OF i(1) t h] h o unfolding i(2) by (subst (asm) (1 2) v) (simp add: wrap64_def)
qed

subsection \<open>Runs of operations\<close>

text \<open>The operations of a client on the two levels: reads and modifications in a scratch view over
  the tip cache, dropping the scratch view without a flush (a block that failed to connect), its
  flush into the tip cache, and the flush of the tip cache to disk, which happens between blocks, when
  no scratch view exists.\<close>

datatype view_op =
    Access uint256
  | Modify uint256 "CCoins \<Rightarrow> CCoins"
  | SetBest uint256
  | QueryBest
  | FlushBlock
  | DropBlock
  | FlushTip

type_synonym coins_stack = "coins_db CCoinsViewCache CCoinsViewCache"

definition run_op :: "view_op \<Rightarrow> coins_stack \<Rightarrow> coins_stack option" where
  "run_op op s =
     (case op of
        Access t \<Rightarrow> Some (snd (AccessCoins tip_view t s))
      | Modify t f \<Rightarrow> with_modifier tip_view t f s
      | SetBest h \<Rightarrow> Some (SetBestBlock h s)
      | QueryBest \<Rightarrow> Some (snd (GetBestBlock tip_view s))
      | FlushBlock \<Rightarrow> map_option snd (Flush tip_view s)
      | DropBlock \<Rightarrow> Some (CCoinsViewCache_new (base s))
      | FlushTip \<Rightarrow> map_option (\<lambda>(_, b). CCoinsViewCache_new b) (Flush db_view (base s)))"

fun run_ops :: "view_op list \<Rightarrow> coins_stack \<Rightarrow> coins_stack option" where
  "run_ops [] s = Some s"
| "run_ops (op # ops) s = (case run_op op s of None \<Rightarrow> None | Some s' \<Rightarrow> run_ops ops s')"

text \<open>The specification keeps two partial functions: the set of the scratch view and that of the
  tip.\<close>

fun spec_op :: "view_op \<Rightarrow> utxos \<times> utxos \<Rightarrow> utxos \<times> utxos" where
  "spec_op (Modify t f) (A, T) =
     (A(t := unspent (Some (Cleanup (f (case A t of None \<Rightarrow> CCoins_empty | Some cs \<Rightarrow> cs))))), T)"
| "spec_op FlushBlock (A, T) = (A, A)"
| "spec_op DropBlock (A, T) = (T, T)"
| "spec_op FlushTip (A, T) = (T, T)"
| "spec_op _ (A, T) = (A, T)"

text \<open>A modification must not read leftovers of pruned coins.\<close>

definition clean_modification :: "(CCoins \<Rightarrow> CCoins) \<Rightarrow> bool" where
  "clean_modification f \<longleftrightarrow>
     (\<forall>x. IsPruned x \<longrightarrow> unspent (Some (Cleanup (f x))) = unspent (Some (Cleanup (f CCoins_empty))))"

lemma clean_modification_const [simp]: "clean_modification (\<lambda>_. cs)"
  by (simp add: clean_modification_def)

lemma modified_clean:
  assumes "modified f t A A'" and "clean_modification f"
  shows "A' = A(t := unspent (Some (Cleanup (f (case A t of None \<Rightarrow> CCoins_empty | Some cs \<Rightarrow> cs)))))"
proof -
  obtain x where x: "unspent (Some x) = A t" "A' = A(t := unspent (Some (Cleanup (f x))))"
    using assms by (auto simp: modified_def)
  show ?thesis
  proof (cases "IsPruned x")
    case True
    then have "A t = None" "unspent (Some (Cleanup (f x))) = unspent (Some (Cleanup (f CCoins_empty)))"
      using x(1) assms(2) by (auto simp: clean_modification_def)
    then show ?thesis using x(2) by simp
  next
    case False
    then have "A t = Some x" using x(1) by simp
    then show ?thesis using x(2) by simp
  qed
qed

lemma run_op_correct:
  assumes i: "block_inv s" and f: "\<And>t f. op = Modify t f \<Longrightarrow> clean_modification f"
  shows "\<exists>s'. run_op op s = Some s' \<and> block_inv s' \<and>
    (block_abs s', tip_abs (base s')) = spec_op op (block_abs s, tip_abs (base s))"
proof (cases op)
  case (Access t)
  obtain r s' where r: "AccessCoins tip_view t s = (r, s')" by force
  then show ?thesis using tipv.access [OF i r] by (simp add: run_op_def Access)
next
  case (Modify t g)
  obtain s' where s': "with_modifier tip_view t g s = Some s'" "block_inv s'"
      "modified g t (block_abs s) (block_abs s')" "tip_abs (base s') = tip_abs (base s)"
    using tipv.modify [OF i] by blast
  then show ?thesis using modified_clean [OF s'(3) f [OF Modify]] by (simp add: run_op_def Modify)
next
  case (SetBest h)
  have "base (s\<lparr>hashBlock := h\<rparr>) = base s" by (cases s) simp
  then show ?thesis using i SetBest by (simp add: run_op_def SetBestBlock_def cache_inv_def cache_abs_def)
next
  case QueryBest
  obtain h s' where r: "GetBestBlock tip_view s = (h, s')" by force
  then show ?thesis using tipv.cache_best [OF i r] by (simp add: run_op_def QueryBest)
next
  case FlushBlock
  then show ?thesis using tipv.flush [OF i] by (auto simp: run_op_def)
next
  case DropBlock
  have "tip_inv (base s)" using i by (simp add: cache_inv_def [of tip_abs])
  from block_new [OF this] show ?thesis by (simp add: run_op_def DropBlock CCoinsViewCache_new_def)
next
  case FlushTip
  have "tip_inv (base s)" using i by (simp add: cache_inv_def [of tip_abs])
  then obtain b where b: "Flush db_view (base s) = Some (True, b)" "tip_inv b" "tip_abs b = tip_abs (base s)"
    using dbv.flush by blast
  then show ?thesis using block_new [OF b(2)] by (simp add: run_op_def FlushTip CCoinsViewCache_new_def)
qed

fun op_ok :: "view_op \<Rightarrow> bool" where
  "op_ok (Modify t f) = clean_modification f"
| "op_ok _ = True"

lemma run_ops_correct:
  assumes "block_inv s" and "\<forall>op \<in> set ops. op_ok op"
  shows "\<exists>s'. run_ops ops s = Some s' \<and> block_inv s' \<and>
    (block_abs s', tip_abs (base s')) = fold spec_op ops (block_abs s, tip_abs (base s))"
  using assms
proof (induction ops arbitrary: s)
  case (Cons op ops)
  have "\<And>t f. op = Modify t f \<Longrightarrow> clean_modification f" using Cons.prems(2) by auto
  then obtain s1 where s1: "run_op op s = Some s1" "block_inv s1"
      "(block_abs s1, tip_abs (base s1)) = spec_op op (block_abs s, tip_abs (base s))"
    using run_op_correct [OF Cons.prems(1)] by blast
  then show ?case using Cons.IH [OF s1(2)] Cons.prems(2) by simp
qed simp

text \<open>C25: The write-back caches implement the plain specification: whatever reads, modifications,
  block flushes, dropped blocks and tip flushes a node performs on fresh caches over a database, no
  assertion of the cache code fails, and after a final flush the database holds exactly the
  modifications of the blocks that were kept.  The one condition (\<open>op_ok\<close>): a modification must not read what a pruned entry left behind, that is,
  applied to coins without unspent outputs it leaves the same unspent coins as applied to new ones (\<open>clean_modification\<close>), as one that replaces the
  coins does; otherwise the result would depend on whether the pruned entry is still in a cache.\<close>

theorem coins_cache_refines:
  assumes "\<forall>op \<in> set ops. op_ok op"
  shows "\<exists>s. run_ops (ops @ [FlushBlock, FlushTip]) (CCoinsViewCache_new (CCoinsViewCache_new db)) = Some s \<and>
    db_abs (base (base s)) = fst (fold spec_op ops (db_abs db, db_abs db))"
proof -
  let ?s0 = "CCoinsViewCache_new (CCoinsViewCache_new db)"
  have s0: "block_inv ?s0" "block_abs ?s0 = db_abs db" "tip_abs (base ?s0) = db_abs db"
    using tip_new [of db] block_new [of "CCoinsViewCache_new db"] by (simp_all add: CCoinsViewCache_new_def)
  have "run_ops (xs @ ys) s = (case run_ops xs s of None \<Rightarrow> None | Some s' \<Rightarrow> run_ops ys s')" for xs ys s
    by (induction xs arbitrary: s) (auto split: option.splits)
  moreover obtain s1 where s1: "run_ops ops ?s0 = Some s1" "block_inv s1"
      "(block_abs s1, tip_abs (base s1)) = fold spec_op ops (db_abs db, db_abs db)"
    using run_ops_correct [OF s0(1) assms] s0(2,3) by auto
  moreover obtain s2 where s2: "run_op FlushBlock s1 = Some s2" "block_inv s2" "tip_abs (base s2) = block_abs s1"
    using run_op_correct [OF s1(2), of FlushBlock] by auto
  moreover have "tip_inv (base s2)" using s2(2) by (simp add: cache_inv_def [of tip_abs])
  then obtain b where "Flush db_view (base s2) = Some (True, b)" "db_abs (base b) = tip_abs (base s2)"
    using dbv.flush by blast
  then have "run_op FlushTip s2 = Some (CCoinsViewCache_new b)" "db_abs (base b) = block_abs s1"
    using s2(3) by (simp_all add: run_op_def)
  ultimately show ?thesis by (simp add: CCoinsViewCache_new_def) (metis fst_conv)
qed

lemma coins_cache_refines_witness:
  "\<exists>s. run_ops ([Access 3, Modify 3 (\<lambda>_. FromTx sample_tx 9), FlushBlock, FlushTip, Modify 3 (\<lambda>_. CCoins_empty), DropBlock]
      @ [FlushBlock, FlushTip]) (CCoinsViewCache_new (CCoinsViewCache_new \<lparr>db_coins = \<lambda>_. None, db_best = None\<rparr>)) = Some s \<and>
    db_abs (base (base s)) 3 = Some (FromTx sample_tx 9)"
proof -
  have f: "Cleanup (FromTx sample_tx 9) = FromTx sample_tx 9" "\<not> IsPruned (FromTx sample_tx 9)" by code_simp+
  let ?ops = "[Access 3, Modify 3 (\<lambda>_. FromTx sample_tx 9), FlushBlock, FlushTip, Modify 3 (\<lambda>_. CCoins_empty), DropBlock]"
  have e: "fst (fold spec_op ?ops (A, A)) 3 = Some (FromTx sample_tx 9)" for A
    by (simp add: f)
  have "\<forall>op \<in> set ?ops. op_ok op" by simp
  from coins_cache_refines [OF this] show ?thesis by (metis e)
qed

end
