(* ===== verification/SigEncoding.thy ===== *)
theory SigEncoding
  imports Script
begin

text \<open>
  The encoding rules of the script interpreter (src/src/script/interpreter.cpp, lines 40 to 253,
  and src/src/eccryptoverify.cpp): truth of a stack element, shapes of public keys and DER
  signatures, low-S, hash types, and minimal pushes.  A check that fails returns the error the
  source stores in \<open>serror\<close>, one that succeeds returns \<open>None\<close>.
\<close>

section \<open>Error codes, flags, hash types\<close>

datatype script_error =
    SCRIPT_ERR_UNKNOWN_ERROR | SCRIPT_ERR_EVAL_FALSE | SCRIPT_ERR_OP_RETURN
  | SCRIPT_ERR_SCRIPT_SIZE | SCRIPT_ERR_PUSH_SIZE | SCRIPT_ERR_OP_COUNT | SCRIPT_ERR_STACK_SIZE
  | SCRIPT_ERR_SIG_COUNT | SCRIPT_ERR_PUBKEY_COUNT
  | SCRIPT_ERR_VERIFY | SCRIPT_ERR_EQUALVERIFY | SCRIPT_ERR_CHECKMULTISIGVERIFY
  | SCRIPT_ERR_CHECKSIGVERIFY | SCRIPT_ERR_NUMEQUALVERIFY
  | SCRIPT_ERR_BAD_OPCODE | SCRIPT_ERR_DISABLED_OPCODE | SCRIPT_ERR_INVALID_STACK_OPERATION
  | SCRIPT_ERR_INVALID_ALTSTACK_OPERATION | SCRIPT_ERR_UNBALANCED_CONDITIONAL
  | SCRIPT_ERR_NEGATIVE_LOCKTIME | SCRIPT_ERR_UNSATISFIED_LOCKTIME
  | SCRIPT_ERR_SIG_HASHTYPE | SCRIPT_ERR_SIG_DER | SCRIPT_ERR_MINIMALDATA
  | SCRIPT_ERR_SIG_PUSHONLY | SCRIPT_ERR_SIG_HIGH_S | SCRIPT_ERR_SIG_NULLDUMMY
  | SCRIPT_ERR_PUBKEYTYPE | SCRIPT_ERR_CLEANSTACK
  | SCRIPT_ERR_DISCOURAGE_UPGRADABLE_NOPS | SCRIPT_ERR_DISCOURAGE_UPGRADABLE_WITNESS_PROGRAM
  | SCRIPT_ERR_WITNESS_PROGRAM_WRONG_LENGTH | SCRIPT_ERR_WITNESS_PROGRAM_WITNESS_EMPTY
  | SCRIPT_ERR_WITNESS_PROGRAM_MISMATCH | SCRIPT_ERR_WITNESS_MALLEATED
  | SCRIPT_ERR_WITNESS_MALLEATED_P2SH | SCRIPT_ERR_WITNESS_UNEXPECTED
  | SCRIPT_ERR_WITNESS_PUBKEYTYPE

named_theorems flag_defs \<open>values of the verification flags and hash types\<close>

definition SCRIPT_VERIFY_P2SH :: flags where [flag_defs]: "SCRIPT_VERIFY_P2SH = 0x1"
definition SCRIPT_VERIFY_STRICTENC :: flags where [flag_defs]: "SCRIPT_VERIFY_STRICTENC = 0x2"
definition SCRIPT_VERIFY_DERSIG :: flags where [flag_defs]: "SCRIPT_VERIFY_DERSIG = 0x4"
definition SCRIPT_VERIFY_LOW_S :: flags where [flag_defs]: "SCRIPT_VERIFY_LOW_S = 0x8"
definition SCRIPT_VERIFY_NULLDUMMY :: flags where [flag_defs]: "SCRIPT_VERIFY_NULLDUMMY = 0x10"
definition SCRIPT_VERIFY_SIGPUSHONLY :: flags where [flag_defs]: "SCRIPT_VERIFY_SIGPUSHONLY = 0x20"
definition SCRIPT_VERIFY_MINIMALDATA :: flags where [flag_defs]: "SCRIPT_VERIFY_MINIMALDATA = 0x40"
definition SCRIPT_VERIFY_DISCOURAGE_UPGRADABLE_NOPS :: flags
  where [flag_defs]: "SCRIPT_VERIFY_DISCOURAGE_UPGRADABLE_NOPS = 0x80"
definition SCRIPT_VERIFY_CLEANSTACK :: flags where [flag_defs]: "SCRIPT_VERIFY_CLEANSTACK = 0x100"
definition SCRIPT_VERIFY_CHECKLOCKTIMEVERIFY :: flags
  where [flag_defs]: "SCRIPT_VERIFY_CHECKLOCKTIMEVERIFY = 0x200"
definition SCRIPT_VERIFY_CHECKSEQUENCEVERIFY :: flags
  where [flag_defs]: "SCRIPT_VERIFY_CHECKSEQUENCEVERIFY = 0x400"
definition SCRIPT_VERIFY_WITNESS :: flags where [flag_defs]: "SCRIPT_VERIFY_WITNESS = 0x800"
definition SCRIPT_VERIFY_DISCOURAGE_UPGRADABLE_WITNESS_PROGRAM :: flags
  where [flag_defs]: "SCRIPT_VERIFY_DISCOURAGE_UPGRADABLE_WITNESS_PROGRAM = 0x1000"
definition SCRIPT_VERIFY_WITNESS_PUBKEYTYPE :: flags
  where [flag_defs]: "SCRIPT_VERIFY_WITNESS_PUBKEYTYPE = 0x8000"

definition SIGHASH_ALL :: nat where [flag_defs]: "SIGHASH_ALL = 1"
definition SIGHASH_NONE :: nat where [flag_defs]: "SIGHASH_NONE = 2"
definition SIGHASH_SINGLE :: nat where [flag_defs]: "SIGHASH_SINGLE = 3"
definition SIGHASH_ANYONECANPAY :: nat where [flag_defs]: "SIGHASH_ANYONECANPAY = 0x80"

datatype SigVersion = SIGVERSION_BASE | SIGVERSION_WITNESS_V0

section \<open>Truth values\<close>

text \<open>Any non-zero byte makes an element true, but for a \<open>0x80\<close> in last place (negative zero).\<close>

fun CastToBool :: "bytes \<Rightarrow> bool" where
  "CastToBool [] = False"
| "CastToBool (b # bs) =
     (if b \<noteq> 0 then (if bs = [] \<and> b = 0x80 then False else True) else CastToBool bs)"

section \<open>Public keys\<close>

definition IsCompressedOrUncompressedPubKey :: "bytes \<Rightarrow> bool" where
  "IsCompressedOrUncompressedPubKey vch =
     (if length vch < 33 then False
      else if vch ! 0 = 0x04 then (if length vch \<noteq> 65 then False else True)
      else if vch ! 0 = 0x02 \<or> vch ! 0 = 0x03 then (if length vch \<noteq> 33 then False else True)
      else False)"

definition IsCompressedPubKey :: "bytes \<Rightarrow> bool" where
  "IsCompressedPubKey vch =
     (if length vch \<noteq> 33 then False
      else if vch ! 0 \<noteq> 0x02 \<and> vch ! 0 \<noteq> 0x03 then False
      else True)"

section \<open>Signatures\<close>

definition IsValidSignatureEncoding :: "bytes \<Rightarrow> bool" where
  "IsValidSignatureEncoding sig =
     (if length sig < 9 then False
      else if length sig > 73 then False
      else if sig ! 0 \<noteq> 0x30 then False
      else if unat (sig ! 1) \<noteq> length sig - 3 then False
      else let lenR = unat (sig ! 3) in
        if 5 + lenR \<ge> length sig then False
        else let lenS = unat (sig ! (5 + lenR)) in
          if lenR + lenS + 7 \<noteq> length sig then False
          else if sig ! 2 \<noteq> 0x02 then False
          else if lenR = 0 then False
          else if sig ! 4 AND 0x80 \<noteq> 0 then False
          else if lenR > 1 \<and> sig ! 4 = 0 \<and> sig ! 5 AND 0x80 = 0 then False
          else if sig ! (lenR + 4) \<noteq> 0x02 then False
          else if lenS = 0 then False
          else if sig ! (lenR + 6) AND 0x80 \<noteq> 0 then False
          else if lenS > 1 \<and> sig ! (lenR + 6) = 0 \<and> sig ! (lenR + 7) AND 0x80 = 0 then False
          else True)"

text \<open>\<open>CompareBigEndian\<close>, \<open>CheckSignatureElement\<close> (src/src/eccryptoverify.cpp).\<close>

function CompareBigEndian :: "bytes \<Rightarrow> bytes \<Rightarrow> int" where
  "CompareBigEndian c1 c2 =
     (if length c1 > length c2 then
        (if hd c1 \<noteq> 0 then 1 else CompareBigEndian (tl c1) c2)
      else if length c2 > length c1 then
        (if hd c2 \<noteq> 0 then -1 else CompareBigEndian c1 (tl c2))
      else if length c1 > 0 then
        (if hd c1 > hd c2 then 1
         else if hd c2 > hd c1 then -1
         else CompareBigEndian (tl c1) (tl c2))
      else 0)"
  by pat_completeness auto
termination
  by (relation "measure (\<lambda>(c1, c2). length c1 + length c2)")
    (auto simp del: length_greater_0_conv)

declare CompareBigEndian.simps [simp del]

definition vchMaxModOrder :: bytes where
  "vchMaxModOrder =
     [0xFF, 0xFF, 0xFF, 0xFF, 0xFF, 0xFF, 0xFF, 0xFF,
      0xFF, 0xFF, 0xFF, 0xFF, 0xFF, 0xFF, 0xFF, 0xFE,
      0xBA, 0xAE, 0xDC, 0xE6, 0xAF, 0x48, 0xA0, 0x3B,
      0xBF, 0xD2, 0x5E, 0x8C, 0xD0, 0x36, 0x41, 0x40]"

definition vchMaxModHalfOrder :: bytes where
  "vchMaxModHalfOrder =
     [0x7F, 0xFF, 0xFF, 0xFF, 0xFF, 0xFF, 0xFF, 0xFF,
      0xFF, 0xFF, 0xFF, 0xFF, 0xFF, 0xFF, 0xFF, 0xFF,
      0x5D, 0x57, 0x6E, 0x73, 0x57, 0xA4, 0x50, 0x1D,
      0xDF, 0xE9, 0x2F, 0x46, 0x68, 0x1B, 0x20, 0xA0]"

definition CheckSignatureElement :: "bytes \<Rightarrow> bool \<Rightarrow> bool" where
  "CheckSignatureElement vch half \<longleftrightarrow>
     CompareBigEndian vch [] > 0 \<and>
     CompareBigEndian vch (if half then vchMaxModHalfOrder else vchMaxModOrder) \<le> 0"

definition IsLowDERSignature :: "bytes \<Rightarrow> script_error option" where
  "IsLowDERSignature vchSig =
     (if \<not> IsValidSignatureEncoding vchSig then Some SCRIPT_ERR_SIG_DER
      else
        let nLenR = unat (vchSig ! 3);
            nLenS = unat (vchSig ! (5 + nLenR));
            S = take nLenS (drop (6 + nLenR) vchSig)
        in if \<not> CheckSignatureElement S True then Some SCRIPT_ERR_SIG_HIGH_S else None)"

definition IsDefinedHashtypeSignature :: "bytes \<Rightarrow> bool" where
  "IsDefinedHashtypeSignature vchSig =
     (if length vchSig = 0 then False
      else
        let nHashType = vchSig ! (length vchSig - 1) AND NOT (of_nat SIGHASH_ANYONECANPAY)
        in if unat nHashType < SIGHASH_ALL \<or> unat nHashType > SIGHASH_SINGLE then False else True)"

definition CheckSignatureEncoding :: "bytes \<Rightarrow> flags \<Rightarrow> script_error option" where
  "CheckSignatureEncoding vchSig fl =
     (if length vchSig = 0 then None
      else if has_flag fl (SCRIPT_VERIFY_DERSIG OR SCRIPT_VERIFY_LOW_S OR SCRIPT_VERIFY_STRICTENC)
              \<and> \<not> IsValidSignatureEncoding vchSig then Some SCRIPT_ERR_SIG_DER
      else if has_flag fl SCRIPT_VERIFY_LOW_S \<and> IsLowDERSignature vchSig \<noteq> None
           then IsLowDERSignature vchSig
      else if has_flag fl SCRIPT_VERIFY_STRICTENC \<and> \<not> IsDefinedHashtypeSignature vchSig
           then Some SCRIPT_ERR_SIG_HASHTYPE
      else None)"

definition CheckPubKeyEncoding :: "bytes \<Rightarrow> flags \<Rightarrow> SigVersion \<Rightarrow> script_error option" where
  "CheckPubKeyEncoding vchPubKey fl sigversion =
     (if has_flag fl SCRIPT_VERIFY_STRICTENC \<and> \<not> IsCompressedOrUncompressedPubKey vchPubKey
      then Some SCRIPT_ERR_PUBKEYTYPE
      else if has_flag fl SCRIPT_VERIFY_WITNESS_PUBKEYTYPE \<and> sigversion = SIGVERSION_WITNESS_V0
              \<and> \<not> IsCompressedPubKey vchPubKey
      then Some SCRIPT_ERR_WITNESS_PUBKEYTYPE
      else None)"

section \<open>Minimal pushes\<close>

definition CheckMinimalPush :: "bytes \<Rightarrow> nat \<Rightarrow> bool" where
  "CheckMinimalPush data opcode =
     (if length data = 0 then opcode = OP_0
      else if length data = 1 \<and> 1 \<le> data ! 0 \<and> data ! 0 \<le> 16
           then opcode = OP_1 + (unat (data ! 0) - 1)
      else if length data = 1 \<and> data ! 0 = 0x81 then opcode = OP_1NEGATE
      else if length data \<le> 75 then opcode = length data
      else if length data \<le> 255 then opcode = OP_PUSHDATA1
      else if length data \<le> 65535 then opcode = OP_PUSHDATA2
      else True)"

section \<open>Comparison as numbers\<close>

definition be_val :: "bytes \<Rightarrow> nat" where
  "be_val bs = le_val (rev bs)"

lemma be_val_Nil [simp]: "be_val [] = 0"
  by (simp add: be_val_def)

lemma be_val_Cons: "be_val (b # bs) = unat b * 256 ^ length bs + be_val bs"
  by (simp add: be_val_def le_val_append)

lemma be_val_bound: "be_val bs < 256 ^ length bs"
  using le_val_bound [of "rev bs"] by (simp add: be_val_def)

lemma be_val_lead:
  assumes "b \<noteq> 0"
  shows "256 ^ length bs \<le> be_val (b # bs)"
proof -
  have "1 \<le> unat b" using assms by (simp add: Suc_le_eq unat_gt_0)
  then have "1 * 256 ^ length bs \<le> unat b * 256 ^ length bs" by (rule mult_le_mono1)
  then show ?thesis unfolding be_val_Cons by (metis mult_1 trans_le_add1)
qed

lemma be_val_cmp_hd:
  assumes "length xs = length ys" and "b < c"
  shows "be_val (b # xs) < be_val (c # ys)"
proof -
  have "Suc (unat b) \<le> unat c" using assms(2) by (simp add: word_less_nat_alt)
  then have "Suc (unat b) * 256 ^ length ys \<le> unat c * 256 ^ length ys" by (rule mult_le_mono1)
  then show ?thesis
    using be_val_bound [of xs] assms(1) by (simp add: be_val_Cons)
qed

lemma CompareBigEndian_sgn:
  "CompareBigEndian c1 c2 = sgn (int (be_val c1) - int (be_val c2))"
proof (induction c1 c2 rule: CompareBigEndian.induct)
  case (1 c1 c2)
  note simps = CompareBigEndian.simps [of c1 c2]
  consider "length c2 < length c1" | "length c1 < length c2" | "length c1 = length c2" by linarith
  then show ?case
  proof cases
    case 1
    then obtain b bs where c1: "c1 = b # bs" by (cases c1) auto
    have "256 ^ length c2 \<le> (256 :: nat) ^ length bs"
      using 1 c1 by (intro power_increasing) auto
    then have "be_val c2 < be_val c1" if "b \<noteq> 0"
      using be_val_bound [of c2] be_val_lead [OF that, of bs] c1
      by (metis order.strict_trans1 order.strict_trans2 not_le_imp_less not_le)
    then show ?thesis
      using 1 "1.IH"(1) by (subst simps, cases "b = 0") (simp_all add: c1, simp add: be_val_Cons)
  next
    case 2
    then obtain b bs where c2: "c2 = b # bs" by (cases c2) auto
    have "256 ^ length c1 \<le> (256 :: nat) ^ length bs"
      using 2 c2 by (intro power_increasing) auto
    then have "be_val c1 < be_val c2" if "b \<noteq> 0"
      using be_val_bound [of c1] be_val_lead [OF that, of bs] c2
      by (metis order.strict_trans1 order.strict_trans2 not_le_imp_less not_le)
    then show ?thesis
      using 2 "1.IH"(2) by (subst simps, cases "b = 0") (simp_all add: c2, simp add: be_val_Cons)
  next
    case 3
    show ?thesis
    proof (cases c1)
      case (Cons b bs)
      with 3 obtain c cs where c2: "c2 = c # cs" "length cs = length bs" by (cases c2) auto
      consider "b < c" | "c < b" | "b = c" by (meson linorder_cases)
      then show ?thesis
      proof cases
        case 1
        then show ?thesis
          using c2 be_val_cmp_hd [OF c2(2) [symmetric] 1] by (subst simps) (auto simp: Cons)
      next
        case 2
        then show ?thesis
          using c2 be_val_cmp_hd [OF c2(2) 2] by (subst simps) (auto simp: Cons)
      next
        case 3
        then show ?thesis
          using c2 "1.IH"(3) by (subst simps) (simp add: Cons be_val_Cons)
      qed
    qed (use 3 in \<open>subst simps, simp\<close>)
  qed
qed

section \<open>The accepted signatures are exactly the strict DER ones\<close>

definition der_int :: "bytes \<Rightarrow> bool" where
  "der_int R \<longleftrightarrow> R \<noteq> [] \<and> unat (R ! 0) < 128 \<and> (length R > 1 \<and> R ! 0 = 0 \<longrightarrow> 128 \<le> unat (R ! 1))"

definition der_sig :: "bytes \<Rightarrow> bytes \<Rightarrow> byte \<Rightarrow> bytes" where
  "der_sig R S h =
     [0x30, of_nat (length R + length S + 4), 0x02, of_nat (length R)] @ R
     @ [0x02, of_nat (length S)] @ S @ [h]"

lemma der_sig_nth:
  fixes R S :: bytes and h :: byte
  assumes "R \<noteq> []" and "S \<noteq> []" and "length R + length S \<le> 66"
  defines "sig \<equiv> der_sig R S h"
  shows "length sig = length R + length S + 7" "sig ! 0 = 0x30" "sig ! 2 = 0x02"
    "unat (sig ! 1) = length R + length S + 4" "unat (sig ! 3) = length R" "sig ! 4 = R ! 0"
    "1 < length R \<Longrightarrow> sig ! 5 = R ! 1" "sig ! (length R + 4) = 0x02"
    "unat (sig ! (5 + length R)) = length S" "sig ! (length R + 6) = S ! 0"
    "1 < length S \<Longrightarrow> sig ! (length R + 7) = S ! 1"
proof -
  have "unat (of_nat (length R + length S + 4) :: byte) = length R + length S + 4"
    using assms(3) by (simp only: unat_of_nat_byte) simp
  then show "unat (sig ! 1) = length R + length S + 4"
    by (simp add: sig_def der_sig_def del: of_nat_add)
qed (use assms in \<open>auto simp: der_sig_def nth_append nth_Cons'\<close>)

lemma IsValid_der_sig:
  assumes "der_int R" and "der_int S" and "length R + length S \<le> 66"
  shows "IsValidSignatureEncoding (der_sig R S h)"
proof -
  have ne: "R \<noteq> []" "S \<noteq> []" using assms by (auto simp: der_int_def)
  then have pos: "length R \<noteq> 0" "length S \<noteq> 0" by auto
  note nth = der_sig_nth [OF ne assms(3), of h]
  have "\<not> (1 < length R \<and> R ! 0 = 0 \<and> unat (der_sig R S h ! 5) < 128)"
    and "\<not> (1 < length S \<and> S ! 0 = 0 \<and> unat (der_sig R S h ! (length R + 7)) < 128)"
    using assms(1,2) nth(7,11) by (auto simp: der_int_def simp del: One_nat_def)
  moreover have "unat (R ! 0) < 128" "unat (S ! 0) < 128"
    using assms(1,2) by (auto simp: der_int_def)
  moreover have "9 \<le> length R + length S + 7" "length R + length S + 7 \<le> 73"
    using pos assms(3) by linarith+
  ultimately show ?thesis
    using pos assms(3) unfolding IsValidSignatureEncoding_def byte_and_80_zero Let_def nth(1-6) nth(8-10)
    by (cases R; cases S; auto simp del: One_nat_def)
qed

lemma drop_split: "drop n xs = take k (drop n xs) @ drop (n + k) xs"
  by (metis add.commute append_take_drop_id drop_drop)

lemma take_4: "4 \<le> length xs \<Longrightarrow> take 4 xs = [xs ! 0, xs ! 1, xs ! 2, xs ! 3]"
  by (rule nth_equalityI) (auto simp: numeral_eq_Suc less_Suc_eq)

lemma IsValid_imp_der_sig:
  assumes "IsValidSignatureEncoding sig"
  shows "\<exists>R S h. sig = der_sig R S h \<and> der_int R \<and> der_int S \<and> length R + length S \<le> 66"
proof -
  define lR lS where "lR = unat (sig ! 3)" and "lS = unat (sig ! (5 + lR))"
  define R S where "R = take lR (drop 4 sig)" and "S = take lS (drop (6 + lR) sig)"
  note valid = assms [unfolded IsValidSignatureEncoding_def Let_def byte_and_80_zero, folded lR_def, folded lS_def]
  have len: "length sig = lR + lS + 7" and le: "length sig \<le> 73" and pos: "lR \<noteq> 0" "lS \<noteq> 0"
    using valid by (simp_all split: if_splits)
  have heads: "sig ! 0 = 0x30" "sig ! 2 = 0x02" "sig ! (lR + 4) = 0x02" "unat (sig ! 1) = lR + lS + 4"
    using valid len by (simp_all split: if_splits)
  have lens: "length R = lR" "length S = lS" using len by (simp_all add: R_def S_def)
  have parts: "drop 4 sig = R @ drop (4 + lR) sig" "drop (6 + lR) sig = S @ drop (6 + lR + lS) sig"
    unfolding R_def S_def by (rule drop_split)+
  have mid: "drop (4 + lR) sig = [sig ! (lR + 4), sig ! (5 + lR)] @ drop (6 + lR) sig"
    using len by (simp add: Cons_nth_drop_Suc [symmetric] add.commute)
  have tail: "drop (6 + lR + lS) sig = [last sig]"
    using len by (simp add: Cons_nth_drop_Suc [symmetric] last_conv_nth length_0_conv [symmetric]
        ac_simps del: length_0_conv)
  have bytes: "sig ! 1 = of_nat (lR + lS + 4)" "sig ! 3 = of_nat lR" "sig ! (5 + lR) = of_nat lS"
    using heads(4) le len by (simp_all only: word_unat_eq_iff unat_of_nat_byte lR_def lS_def) simp_all
  have "sig = take 4 sig @ drop 4 sig" by simp
  also have "\<dots> = der_sig R S (last sig)"
    unfolding parts mid tail der_sig_def lens using len heads bytes
    by (subst take_4) (simp_all del: of_nat_add)
  finally have "sig = der_sig R S (last sig)" .
  moreover have "der_int R" "der_int S"
    using valid lens pos len by (auto simp: der_int_def R_def S_def add.commute split: if_splits)
  ultimately show ?thesis using len le lens by auto
qed

section \<open>Fewer flags, fewer failures\<close>

lemma CheckSignatureEncoding_mono [flag_mono]:
  assumes "flags_le f f'" and "CheckSignatureEncoding sig f' = None"
  shows "CheckSignatureEncoding sig f = None"
  using assms(2) has_flag_mono [OF assms(1)]
  by (auto simp: CheckSignatureEncoding_def split: if_splits)

lemma CheckPubKeyEncoding_mono [flag_mono]:
  assumes "flags_le f f'" and "CheckPubKeyEncoding pk f' v = None"
  shows "CheckPubKeyEncoding pk f v = None"
  using assms(2) has_flag_mono [OF assms(1)]
  by (auto simp: CheckPubKeyEncoding_def split: if_splits)

text \<open>The signature format check accepts exactly the strict DER signatures: \<open>0x30\<close>, the total
  length, two positive integers without excess padding, and the hash type byte, of at most 73 bytes.\<close>

theorem IsValidSignatureEncoding_iff:
  "IsValidSignatureEncoding sig \<longleftrightarrow>
    (\<exists>R S h. sig = der_sig R S h \<and> der_int R \<and> der_int S \<and> length R + length S \<le> 66)"
  using IsValid_imp_der_sig IsValid_der_sig by blast

end
