(* ===== verification/Interpreter.thy ===== *)
theory Interpreter
  imports SigEncoding
begin

text \<open>
  \<open>EvalScript\<close> (src/src/script/interpreter.cpp, lines 255 to 1036): the stack machine.

  The C++ vectors that are used as stacks (\<open>stack\<close>, \<open>altstack\<close>, \<open>vfExec\<close>) are lists with the top
  first, so \<open>stacktop(-1)\<close> is the head and \<open>stacktop(-i)\<close> is \<open>stack ! (i - 1)\<close>.  The iterators \<open>pc\<close>
  and \<open>pbegincodehash\<close> are the suffixes of the script they point at.  A failing evaluation returns
  \<open>Inl\<close> of the error the source stores in \<open>serror\<close>; an exception inside the loop is caught by the
  source and becomes \<open>SCRIPT_ERR_UNKNOWN_ERROR\<close>.
\<close>

section \<open>Environment and state\<close>

text \<open>\<open>BaseSignatureChecker\<close>: the three virtual methods.\<close>

record checker =
  CheckSig :: "bytes \<Rightarrow> bytes \<Rightarrow> bytes \<Rightarrow> SigVersion \<Rightarrow> bool"
  CheckLockTime :: "int \<Rightarrow> bool"
  CheckSequence :: "int \<Rightarrow> bool"

text \<open>The hash primitives of src/src/crypto are arguments of the model.\<close>

record hashes =
  h_RIPEMD160 :: "bytes \<Rightarrow> bytes"
  h_SHA1 :: "bytes \<Rightarrow> bytes"
  h_SHA256 :: "bytes \<Rightarrow> bytes"

definition CHash160 :: "hashes \<Rightarrow> bytes \<Rightarrow> bytes" where
  "CHash160 hs v = h_RIPEMD160 hs (h_SHA256 hs v)"

definition CHash256 :: "hashes \<Rightarrow> bytes \<Rightarrow> bytes" where
  "CHash256 hs v = h_SHA256 hs (h_SHA256 hs v)"

record eval_env =
  ee_flags :: flags
  ee_checker :: checker
  ee_sigversion :: SigVersion
  ee_hashes :: hashes

record eval_state =
  stack :: "bytes list"
  altstack :: "bytes list"
  vfExec :: "bool list"
  nOpCount :: nat
  pbegincodehash :: bytes

definition MAX_SCRIPT_ELEMENT_SIZE :: nat where "MAX_SCRIPT_ELEMENT_SIZE = 520"
definition MAX_OPS_PER_SCRIPT :: nat where "MAX_OPS_PER_SCRIPT = 201"
definition MAX_PUBKEYS_PER_MULTISIG :: nat where "MAX_PUBKEYS_PER_MULTISIG = 20"

definition SEQUENCE_LOCKTIME_DISABLE_FLAG :: int where
  "SEQUENCE_LOCKTIME_DISABLE_FLAG = 0x80000000"

definition vchFalse :: bytes where "vchFalse = []"
definition vchTrue :: bytes where "vchTrue = [1]"

definition bool_vch :: "bool \<Rightarrow> bytes" where
  "bool_vch b = (if b then vchTrue else vchFalse)"

abbreviation fRequireMinimal :: "eval_env \<Rightarrow> bool" where
  "fRequireMinimal env \<equiv> has_flag (ee_flags env) SCRIPT_VERIFY_MINIMALDATA"

text \<open>Reading a stack element as a number; \<open>scriptnum_error\<close> is caught as an unknown error.\<close>

definition stacknum :: "eval_env \<Rightarrow> nat \<Rightarrow> bytes \<Rightarrow> script_error + int" where
  "stacknum env n vch =
     (case CScriptNum_of_vch vch (fRequireMinimal env) n of
        Inl _ \<Rightarrow> Inl SCRIPT_ERR_UNKNOWN_ERROR
      | Inr v \<Rightarrow> Inr v)"

section \<open>Push value and time locks\<close>

definition op_pushnum :: "nat \<Rightarrow> eval_state \<Rightarrow> script_error + eval_state" where
  "op_pushnum opcode st =
     Inr (st\<lparr>stack := serialize (int opcode - int (OP_1 - 1)) # stack st\<rparr>)"

definition op_checklocktimeverify :: "eval_env \<Rightarrow> eval_state \<Rightarrow> script_error + eval_state" where
  "op_checklocktimeverify env st =
     (if \<not> has_flag (ee_flags env) SCRIPT_VERIFY_CHECKLOCKTIMEVERIFY then
        (if has_flag (ee_flags env) SCRIPT_VERIFY_DISCOURAGE_UPGRADABLE_NOPS
         then Inl SCRIPT_ERR_DISCOURAGE_UPGRADABLE_NOPS else Inr st)
      else case stack st of
        [] \<Rightarrow> Inl SCRIPT_ERR_INVALID_STACK_OPERATION
      | vch # _ \<Rightarrow>
          (case stacknum env 5 vch of
             Inl e \<Rightarrow> Inl e
           | Inr nLockTime \<Rightarrow>
               if nLockTime < 0 then Inl SCRIPT_ERR_NEGATIVE_LOCKTIME
               else if \<not> CheckLockTime (ee_checker env) nLockTime
                    then Inl SCRIPT_ERR_UNSATISFIED_LOCKTIME
               else Inr st))"

definition op_checksequenceverify :: "eval_env \<Rightarrow> eval_state \<Rightarrow> script_error + eval_state" where
  "op_checksequenceverify env st =
     (if \<not> has_flag (ee_flags env) SCRIPT_VERIFY_CHECKSEQUENCEVERIFY then
        (if has_flag (ee_flags env) SCRIPT_VERIFY_DISCOURAGE_UPGRADABLE_NOPS
         then Inl SCRIPT_ERR_DISCOURAGE_UPGRADABLE_NOPS else Inr st)
      else case stack st of
        [] \<Rightarrow> Inl SCRIPT_ERR_INVALID_STACK_OPERATION
      | vch # _ \<Rightarrow>
          (case stacknum env 5 vch of
             Inl e \<Rightarrow> Inl e
           | Inr nSequence \<Rightarrow>
               if nSequence < 0 then Inl SCRIPT_ERR_NEGATIVE_LOCKTIME
               else if nSequence AND SEQUENCE_LOCKTIME_DISABLE_FLAG \<noteq> 0 then Inr st
               else if \<not> CheckSequence (ee_checker env) nSequence
                    then Inl SCRIPT_ERR_UNSATISFIED_LOCKTIME
               else Inr st))"

definition op_nop_n :: "eval_env \<Rightarrow> eval_state \<Rightarrow> script_error + eval_state" where
  "op_nop_n env st =
     (if has_flag (ee_flags env) SCRIPT_VERIFY_DISCOURAGE_UPGRADABLE_NOPS
      then Inl SCRIPT_ERR_DISCOURAGE_UPGRADABLE_NOPS else Inr st)"

section \<open>Control\<close>

definition op_if :: "bool \<Rightarrow> nat \<Rightarrow> eval_state \<Rightarrow> script_error + eval_state" where
  "op_if fExec opcode st =
     (if fExec then
        (case stack st of
           [] \<Rightarrow> Inl SCRIPT_ERR_UNBALANCED_CONDITIONAL
         | vch # s \<Rightarrow>
             let fValue = (if opcode = OP_NOTIF then \<not> CastToBool vch else CastToBool vch)
             in Inr (st\<lparr>stack := s, vfExec := fValue # vfExec st\<rparr>))
      else Inr (st\<lparr>vfExec := False # vfExec st\<rparr>))"

definition op_else :: "eval_state \<Rightarrow> script_error + eval_state" where
  "op_else st =
     (case vfExec st of
        [] \<Rightarrow> Inl SCRIPT_ERR_UNBALANCED_CONDITIONAL
      | b # bs \<Rightarrow> Inr (st\<lparr>vfExec := (\<not> b) # bs\<rparr>))"

definition op_endif :: "eval_state \<Rightarrow> script_error + eval_state" where
  "op_endif st =
     (case vfExec st of
        [] \<Rightarrow> Inl SCRIPT_ERR_UNBALANCED_CONDITIONAL
      | b # bs \<Rightarrow> Inr (st\<lparr>vfExec := bs\<rparr>))"

definition op_verify :: "eval_state \<Rightarrow> script_error + eval_state" where
  "op_verify st =
     (case stack st of
        [] \<Rightarrow> Inl SCRIPT_ERR_INVALID_STACK_OPERATION
      | vch # s \<Rightarrow> if CastToBool vch then Inr (st\<lparr>stack := s\<rparr>) else Inl SCRIPT_ERR_VERIFY)"

section \<open>Stack operations\<close>

definition op_toaltstack :: "eval_state \<Rightarrow> script_error + eval_state" where
  "op_toaltstack st =
     (case stack st of
        [] \<Rightarrow> Inl SCRIPT_ERR_INVALID_STACK_OPERATION
      | vch # s \<Rightarrow> Inr (st\<lparr>stack := s, altstack := vch # altstack st\<rparr>))"

definition op_fromaltstack :: "eval_state \<Rightarrow> script_error + eval_state" where
  "op_fromaltstack st =
     (case altstack st of
        [] \<Rightarrow> Inl SCRIPT_ERR_INVALID_ALTSTACK_OPERATION
      | vch # s \<Rightarrow> Inr (st\<lparr>stack := vch # stack st, altstack := s\<rparr>))"

text \<open>The operations that rearrange the main stack only, one per opcode.  \<open>None\<close> is the failed size
  check, \<open>SCRIPT_ERR_INVALID_STACK_OPERATION\<close>.\<close>

fun op_2drop :: "bytes list \<Rightarrow> bytes list option" where
  "op_2drop (x2 # x1 # s) = Some s"
| "op_2drop s = None"

fun op_2dup :: "bytes list \<Rightarrow> bytes list option" where
  "op_2dup (x2 # x1 # s) = Some (x2 # x1 # x2 # x1 # s)"
| "op_2dup s = None"

fun op_3dup :: "bytes list \<Rightarrow> bytes list option" where
  "op_3dup (x3 # x2 # x1 # s) = Some (x3 # x2 # x1 # x3 # x2 # x1 # s)"
| "op_3dup s = None"

fun op_2over :: "bytes list \<Rightarrow> bytes list option" where
  "op_2over (x4 # x3 # x2 # x1 # s) = Some (x2 # x1 # x4 # x3 # x2 # x1 # s)"
| "op_2over s = None"

fun op_2rot :: "bytes list \<Rightarrow> bytes list option" where
  "op_2rot (x6 # x5 # x4 # x3 # x2 # x1 # s) = Some (x2 # x1 # x6 # x5 # x4 # x3 # s)"
| "op_2rot s = None"

fun op_2swap :: "bytes list \<Rightarrow> bytes list option" where
  "op_2swap (x4 # x3 # x2 # x1 # s) = Some (x2 # x1 # x4 # x3 # s)"
| "op_2swap s = None"

fun op_ifdup :: "bytes list \<Rightarrow> bytes list option" where
  "op_ifdup (x # s) = Some (if CastToBool x then x # x # s else x # s)"
| "op_ifdup s = None"

fun op_drop :: "bytes list \<Rightarrow> bytes list option" where
  "op_drop (x # s) = Some s"
| "op_drop s = None"

fun op_dup :: "bytes list \<Rightarrow> bytes list option" where
  "op_dup (x # s) = Some (x # x # s)"
| "op_dup s = None"

fun op_nip :: "bytes list \<Rightarrow> bytes list option" where
  "op_nip (x2 # x1 # s) = Some (x2 # s)"
| "op_nip s = None"

fun op_over :: "bytes list \<Rightarrow> bytes list option" where
  "op_over (x2 # x1 # s) = Some (x1 # x2 # x1 # s)"
| "op_over s = None"

fun op_rot :: "bytes list \<Rightarrow> bytes list option" where
  "op_rot (x3 # x2 # x1 # s) = Some (x1 # x3 # x2 # s)"
| "op_rot s = None"

fun op_swap :: "bytes list \<Rightarrow> bytes list option" where
  "op_swap (x2 # x1 # s) = Some (x1 # x2 # s)"
| "op_swap s = None"

fun op_tuck :: "bytes list \<Rightarrow> bytes list option" where
  "op_tuck (x2 # x1 # s) = Some (x2 # x1 # x2 # s)"
| "op_tuck s = None"

definition stack_shuffle :: "nat \<Rightarrow> (bytes list \<Rightarrow> bytes list option) option" where
  "stack_shuffle opcode =
     map_of [(OP_2DROP, op_2drop), (OP_2DUP, op_2dup), (OP_3DUP, op_3dup), (OP_2OVER, op_2over),
       (OP_2ROT, op_2rot), (OP_2SWAP, op_2swap), (OP_IFDUP, op_ifdup), (OP_DROP, op_drop),
       (OP_DUP, op_dup), (OP_NIP, op_nip), (OP_OVER, op_over), (OP_ROT, op_rot),
       (OP_SWAP, op_swap), (OP_TUCK, op_tuck)] opcode"

definition run_shuffle ::
  "(bytes list \<Rightarrow> bytes list option) \<Rightarrow> eval_state \<Rightarrow> script_error + eval_state" where
  "run_shuffle f st =
     (case f (stack st) of
        None \<Rightarrow> Inl SCRIPT_ERR_INVALID_STACK_OPERATION
      | Some s \<Rightarrow> Inr (st\<lparr>stack := s\<rparr>))"

definition op_depth :: "eval_state \<Rightarrow> script_error + eval_state" where
  "op_depth st = Inr (st\<lparr>stack := serialize (int (length (stack st))) # stack st\<rparr>)"

text \<open>\<open>OP_PICK\<close> and \<open>OP_ROLL\<close>; \<open>stacktop(-n-1)\<close> is \<open>s ! n\<close> once the count is popped.\<close>

definition op_pick_roll :: "eval_env \<Rightarrow> nat \<Rightarrow> eval_state \<Rightarrow> script_error + eval_state" where
  "op_pick_roll env opcode st =
     (case stack st of
        vch0 # vch1 # r \<Rightarrow>
          (case stacknum env nDefaultMaxNumSize vch0 of
             Inl e \<Rightarrow> Inl e
           | Inr v \<Rightarrow>
               let n = getint v; s = vch1 # r
               in if n < 0 \<or> n \<ge> int (length s) then Inl SCRIPT_ERR_INVALID_STACK_OPERATION
                  else
                    let vch = s ! nat n;
                        s' = (if opcode = OP_ROLL then take (nat n) s @ drop (nat n + 1) s else s)
                    in Inr (st\<lparr>stack := vch # s'\<rparr>))
      | _ \<Rightarrow> Inl SCRIPT_ERR_INVALID_STACK_OPERATION)"

definition op_size :: "eval_state \<Rightarrow> script_error + eval_state" where
  "op_size st =
     (case stack st of
        [] \<Rightarrow> Inl SCRIPT_ERR_INVALID_STACK_OPERATION
      | vch # s \<Rightarrow> Inr (st\<lparr>stack := serialize (int (length vch)) # vch # s\<rparr>))"

definition op_equal :: "nat \<Rightarrow> eval_state \<Rightarrow> script_error + eval_state" where
  "op_equal opcode st =
     (case stack st of
        vch2 # vch1 # s \<Rightarrow>
          let fEqual = (vch1 = vch2)
          in if opcode = OP_EQUALVERIFY then
               (if fEqual then Inr (st\<lparr>stack := s\<rparr>) else Inl SCRIPT_ERR_EQUALVERIFY)
             else Inr (st\<lparr>stack := bool_vch fEqual # s\<rparr>)
      | _ \<Rightarrow> Inl SCRIPT_ERR_INVALID_STACK_OPERATION)"

section \<open>Numeric operations\<close>

definition unary_result :: "nat \<Rightarrow> int \<Rightarrow> int" where
  "unary_result opcode bn =
     (if opcode = OP_1ADD then bn + 1
      else if opcode = OP_1SUB then bn - 1
      else if opcode = OP_NEGATE then - bn
      else if opcode = OP_ABS then (if bn < 0 then - bn else bn)
      else if opcode = OP_NOT then (if bn = 0 then 1 else 0)
      else (if bn \<noteq> 0 then 1 else 0))"

definition op_unary :: "eval_env \<Rightarrow> nat \<Rightarrow> eval_state \<Rightarrow> script_error + eval_state" where
  "op_unary env opcode st =
     (case stack st of
        [] \<Rightarrow> Inl SCRIPT_ERR_INVALID_STACK_OPERATION
      | vch # s \<Rightarrow>
          (case stacknum env nDefaultMaxNumSize vch of
             Inl e \<Rightarrow> Inl e
           | Inr bn \<Rightarrow> Inr (st\<lparr>stack := serialize (unary_result opcode bn) # s\<rparr>)))"

definition binary_result :: "nat \<Rightarrow> int \<Rightarrow> int \<Rightarrow> int" where
  "binary_result opcode bn1 bn2 =
     (if opcode = OP_ADD then bn1 + bn2
      else if opcode = OP_SUB then bn1 - bn2
      else if opcode = OP_BOOLAND then of_bool (bn1 \<noteq> 0 \<and> bn2 \<noteq> 0)
      else if opcode = OP_BOOLOR then of_bool (bn1 \<noteq> 0 \<or> bn2 \<noteq> 0)
      else if opcode = OP_NUMEQUAL then of_bool (bn1 = bn2)
      else if opcode = OP_NUMEQUALVERIFY then of_bool (bn1 = bn2)
      else if opcode = OP_NUMNOTEQUAL then of_bool (bn1 \<noteq> bn2)
      else if opcode = OP_LESSTHAN then of_bool (bn1 < bn2)
      else if opcode = OP_GREATERTHAN then of_bool (bn1 > bn2)
      else if opcode = OP_LESSTHANOREQUAL then of_bool (bn1 \<le> bn2)
      else if opcode = OP_GREATERTHANOREQUAL then of_bool (bn1 \<ge> bn2)
      else if opcode = OP_MIN then (if bn1 < bn2 then bn1 else bn2)
      else (if bn1 > bn2 then bn1 else bn2))"

definition op_binary :: "eval_env \<Rightarrow> nat \<Rightarrow> eval_state \<Rightarrow> script_error + eval_state" where
  "op_binary env opcode st =
     (case stack st of
        vch2 # vch1 # s \<Rightarrow>
          (case stacknum env nDefaultMaxNumSize vch1 of
             Inl e \<Rightarrow> Inl e
           | Inr bn1 \<Rightarrow>
               (case stacknum env nDefaultMaxNumSize vch2 of
                  Inl e \<Rightarrow> Inl e
                | Inr bn2 \<Rightarrow>
                    let vch = serialize (binary_result opcode bn1 bn2)
                    in if opcode = OP_NUMEQUALVERIFY then
                         (if CastToBool vch then Inr (st\<lparr>stack := s\<rparr>)
                          else Inl SCRIPT_ERR_NUMEQUALVERIFY)
                       else Inr (st\<lparr>stack := vch # s\<rparr>)))
      | _ \<Rightarrow> Inl SCRIPT_ERR_INVALID_STACK_OPERATION)"

definition op_within :: "eval_env \<Rightarrow> eval_state \<Rightarrow> script_error + eval_state" where
  "op_within env st =
     (case stack st of
        vch3 # vch2 # vch1 # s \<Rightarrow>
          (case stacknum env nDefaultMaxNumSize vch1 of
             Inl e \<Rightarrow> Inl e
           | Inr bn1 \<Rightarrow>
               (case stacknum env nDefaultMaxNumSize vch2 of
                  Inl e \<Rightarrow> Inl e
                | Inr bn2 \<Rightarrow>
                    (case stacknum env nDefaultMaxNumSize vch3 of
                       Inl e \<Rightarrow> Inl e
                     | Inr bn3 \<Rightarrow> Inr (st\<lparr>stack := bool_vch (bn2 \<le> bn1 \<and> bn1 < bn3) # s\<rparr>))))
      | _ \<Rightarrow> Inl SCRIPT_ERR_INVALID_STACK_OPERATION)"

section \<open>Crypto\<close>

definition hash_of_opcode :: "hashes \<Rightarrow> nat \<Rightarrow> bytes \<Rightarrow> bytes" where
  "hash_of_opcode hs opcode =
     (if opcode = OP_RIPEMD160 then h_RIPEMD160 hs
      else if opcode = OP_SHA1 then h_SHA1 hs
      else if opcode = OP_SHA256 then h_SHA256 hs
      else if opcode = OP_HASH160 then CHash160 hs
      else CHash256 hs)"

definition op_hash :: "eval_env \<Rightarrow> nat \<Rightarrow> eval_state \<Rightarrow> script_error + eval_state" where
  "op_hash env opcode st =
     (case stack st of
        [] \<Rightarrow> Inl SCRIPT_ERR_INVALID_STACK_OPERATION
      | vch # s \<Rightarrow> Inr (st\<lparr>stack := hash_of_opcode (ee_hashes env) opcode vch # s\<rparr>))"

text \<open>The two encoding checks in front of every signature check.\<close>

definition check_encodings :: "eval_env \<Rightarrow> bytes \<Rightarrow> bytes \<Rightarrow> script_error option" where
  "check_encodings env vchSig vchPubKey =
     (case CheckSignatureEncoding vchSig (ee_flags env) of
        Some e \<Rightarrow> Some e
      | None \<Rightarrow> CheckPubKeyEncoding vchPubKey (ee_flags env) (ee_sigversion env))"

text \<open>Dropping a signature from the signed script (\<open>SIGVERSION_BASE\<close> only).\<close>

definition drop_sig :: "eval_env \<Rightarrow> bytes \<Rightarrow> bytes \<Rightarrow> bytes" where
  "drop_sig env scriptCode vchSig =
     (if ee_sigversion env = SIGVERSION_BASE
      then snd (FindAndDelete scriptCode (push_data [] vchSig)) else scriptCode)"

definition op_checksig :: "eval_env \<Rightarrow> nat \<Rightarrow> eval_state \<Rightarrow> script_error + eval_state" where
  "op_checksig env opcode st =
     (case stack st of
        vchPubKey # vchSig # s \<Rightarrow>
          let scriptCode = drop_sig env (pbegincodehash st) vchSig
          in (case check_encodings env vchSig vchPubKey of
                Some e \<Rightarrow> Inl e
              | None \<Rightarrow>
                  let fSuccess = CheckSig (ee_checker env) vchSig vchPubKey scriptCode (ee_sigversion env)
                  in if opcode = OP_CHECKSIGVERIFY then
                       (if fSuccess then Inr (st\<lparr>stack := s\<rparr>) else Inl SCRIPT_ERR_CHECKSIGVERIFY)
                     else Inr (st\<lparr>stack := bool_vch fSuccess # s\<rparr>))
      | _ \<Rightarrow> Inl SCRIPT_ERR_INVALID_STACK_OPERATION)"

text \<open>
  The matching loop of \<open>OP_CHECKMULTISIG\<close>.  \<open>sigs\<close> and \<open>keys\<close> are the slots from \<open>isig\<close> and \<open>ikey\<close>
  on, so \<open>nSigsCount\<close> and \<open>nKeysCount\<close> are their lengths.  The source never starts a round with
  more signatures than keys, so the third equation is not reached.
\<close>

fun multisig_loop :: "eval_env \<Rightarrow> bytes \<Rightarrow> bytes list \<Rightarrow> bytes list \<Rightarrow> script_error + bool" where
  "multisig_loop env scriptCode [] keys = Inr True"
| "multisig_loop env scriptCode (vchSig # sigs) (vchPubKey # keys) =
     (case check_encodings env vchSig vchPubKey of
        Some e \<Rightarrow> Inl e
      | None \<Rightarrow>
          let fOk = CheckSig (ee_checker env) vchSig vchPubKey scriptCode (ee_sigversion env);
              sigs' = (if fOk then sigs else vchSig # sigs)
          in if length sigs' > length keys then Inr False
             else multisig_loop env scriptCode sigs' keys)"
| "multisig_loop env scriptCode (vchSig # sigs) [] = Inr False"

text \<open>Reading the operands: the signatures, the keys, the operation count and the stack below
  them, whose top is the extra element.\<close>

definition multisig_args ::
  "eval_env \<Rightarrow> eval_state \<Rightarrow> script_error + bytes list \<times> bytes list \<times> nat \<times> bytes list" where
  "multisig_args env st =
     (let s = stack st in
      if length s < 1 then Inl SCRIPT_ERR_INVALID_STACK_OPERATION
      else case stacknum env nDefaultMaxNumSize (s ! 0) of
        Inl e \<Rightarrow> Inl e
      | Inr v \<Rightarrow>
        if getint v < 0 \<or> getint v > int MAX_PUBKEYS_PER_MULTISIG then Inl SCRIPT_ERR_PUBKEY_COUNT
        else let nKeysCount = nat (getint v); nOps = nOpCount st + nKeysCount in
        if nOps > MAX_OPS_PER_SCRIPT then Inl SCRIPT_ERR_OP_COUNT
        else if length s < 2 + nKeysCount then Inl SCRIPT_ERR_INVALID_STACK_OPERATION
        else case stacknum env nDefaultMaxNumSize (s ! (1 + nKeysCount)) of
          Inl e \<Rightarrow> Inl e
        | Inr w \<Rightarrow>
          if getint w < 0 \<or> getint w > int nKeysCount then Inl SCRIPT_ERR_SIG_COUNT
          else let nSigsCount = nat (getint w) in
          if length s < 3 + nKeysCount + nSigsCount then Inl SCRIPT_ERR_INVALID_STACK_OPERATION
          else Inr (take nSigsCount (drop (2 + nKeysCount) s), take nKeysCount (drop 1 s), nOps,
                 drop (2 + nKeysCount + nSigsCount) s))"

definition op_checkmultisig :: "eval_env \<Rightarrow> nat \<Rightarrow> eval_state \<Rightarrow> script_error + eval_state" where
  "op_checkmultisig env opcode st =
     (case multisig_args env st of
        Inl e \<Rightarrow> Inl e
      | Inr (sigs, keys, nOps, rest) \<Rightarrow>
          let scriptCode = fold (\<lambda>vchSig code. drop_sig env code vchSig) sigs (pbegincodehash st)
          in (case multisig_loop env scriptCode sigs keys of
                Inl e \<Rightarrow> Inl e
              | Inr fSuccess \<Rightarrow>
                (case rest of
                   [] \<Rightarrow> Inl SCRIPT_ERR_INVALID_STACK_OPERATION
                 | dummy # r \<Rightarrow>
                   if has_flag (ee_flags env) SCRIPT_VERIFY_NULLDUMMY \<and> length dummy \<noteq> 0
                   then Inl SCRIPT_ERR_SIG_NULLDUMMY
                   else if opcode = OP_CHECKMULTISIGVERIFY then
                     (if fSuccess then Inr (st\<lparr>stack := r, nOpCount := nOps\<rparr>)
                      else Inl SCRIPT_ERR_CHECKMULTISIGVERIFY)
                   else Inr (st\<lparr>stack := bool_vch fSuccess # r, nOpCount := nOps\<rparr>))))"

section \<open>One instruction\<close>

definition disabled_opcodes :: "nat list" where
  "disabled_opcodes =
     [OP_CAT, OP_SUBSTR, OP_LEFT, OP_RIGHT, OP_INVERT, OP_AND, OP_OR, OP_XOR, OP_2MUL, OP_2DIV,
      OP_MUL, OP_DIV, OP_MOD, OP_LSHIFT, OP_RSHIFT]"

text \<open>The \<open>switch\<close>; \<open>pc'\<close> is the iterator after the instruction.\<close>

definition eval_switch ::
  "eval_env \<Rightarrow> bool \<Rightarrow> bytes \<Rightarrow> nat \<Rightarrow> eval_state \<Rightarrow> script_error + eval_state" where
  "eval_switch env fExec pc' opcode st =
     (if opcode = OP_1NEGATE \<or> (OP_1 \<le> opcode \<and> opcode \<le> OP_16) then op_pushnum opcode st
      else if opcode = OP_NOP then Inr st
      else if opcode = OP_CHECKLOCKTIMEVERIFY then op_checklocktimeverify env st
      else if opcode = OP_CHECKSEQUENCEVERIFY then op_checksequenceverify env st
      else if opcode \<in> {OP_NOP1, OP_NOP4, OP_NOP5, OP_NOP6, OP_NOP7, OP_NOP8, OP_NOP9, OP_NOP10}
           then op_nop_n env st
      else if opcode \<in> {OP_IF, OP_NOTIF} then op_if fExec opcode st
      else if opcode = OP_ELSE then op_else st
      else if opcode = OP_ENDIF then op_endif st
      else if opcode = OP_VERIFY then op_verify st
      else if opcode = OP_RETURN then Inl SCRIPT_ERR_OP_RETURN
      else if opcode = OP_TOALTSTACK then op_toaltstack st
      else if opcode = OP_FROMALTSTACK then op_fromaltstack st
      else if opcode = OP_DEPTH then op_depth st
      else if opcode \<in> {OP_PICK, OP_ROLL} then op_pick_roll env opcode st
      else if opcode = OP_SIZE then op_size st
      else if opcode \<in> {OP_EQUAL, OP_EQUALVERIFY} then op_equal opcode st
      else if opcode \<in> {OP_1ADD, OP_1SUB, OP_NEGATE, OP_ABS, OP_NOT, OP_0NOTEQUAL}
           then op_unary env opcode st
      else if opcode \<in> {OP_ADD, OP_SUB, OP_BOOLAND, OP_BOOLOR, OP_NUMEQUAL, OP_NUMEQUALVERIFY,
             OP_NUMNOTEQUAL, OP_LESSTHAN, OP_GREATERTHAN, OP_LESSTHANOREQUAL,
             OP_GREATERTHANOREQUAL, OP_MIN, OP_MAX} then op_binary env opcode st
      else if opcode = OP_WITHIN then op_within env st
      else if opcode \<in> {OP_RIPEMD160, OP_SHA1, OP_SHA256, OP_HASH160, OP_HASH256}
           then op_hash env opcode st
      else if opcode = OP_CODESEPARATOR then Inr (st\<lparr>pbegincodehash := pc'\<rparr>)
      else if opcode \<in> {OP_CHECKSIG, OP_CHECKSIGVERIFY} then op_checksig env opcode st
      else if opcode \<in> {OP_CHECKMULTISIG, OP_CHECKMULTISIGVERIFY} then op_checkmultisig env opcode st
      else case stack_shuffle opcode of
             Some f \<Rightarrow> run_shuffle f st
           | None \<Rightarrow> Inl SCRIPT_ERR_BAD_OPCODE)"

text \<open>The body of the loop, from reading the instruction to the size check.\<close>

definition exec_instr ::
  "eval_env \<Rightarrow> nat \<Rightarrow> bytes \<Rightarrow> bytes \<Rightarrow> eval_state \<Rightarrow> script_error + eval_state" where
  "exec_instr env opcode vchPushValue pc' st =
     (let fExec = (False \<notin> set (vfExec st)) in
      if fExec \<and> opcode \<le> OP_PUSHDATA4 then
        (if fRequireMinimal env \<and> \<not> CheckMinimalPush vchPushValue opcode
         then Inl SCRIPT_ERR_MINIMALDATA
         else Inr (st\<lparr>stack := vchPushValue # stack st\<rparr>))
      else if fExec \<or> (OP_IF \<le> opcode \<and> opcode \<le> OP_ENDIF)
           then eval_switch env fExec pc' opcode st
      else Inr st)"

definition eval_step :: "eval_env \<Rightarrow> bytes \<Rightarrow> eval_state \<Rightarrow> script_error + bytes \<times> eval_state" where
  "eval_step env pc st =
     (case GetOp2 pc of (ok, opcode, vchPushValue, pc') \<Rightarrow>
      if \<not> ok then Inl SCRIPT_ERR_BAD_OPCODE
      else if length vchPushValue > MAX_SCRIPT_ELEMENT_SIZE then Inl SCRIPT_ERR_PUSH_SIZE
      else
        let st1 = (if opcode > OP_16 then st\<lparr>nOpCount := nOpCount st + 1\<rparr> else st)
        in if opcode > OP_16 \<and> nOpCount st1 > MAX_OPS_PER_SCRIPT then Inl SCRIPT_ERR_OP_COUNT
           else if opcode \<in> set disabled_opcodes then Inl SCRIPT_ERR_DISABLED_OPCODE
           else case exec_instr env opcode vchPushValue pc' st1 of
                  Inl e \<Rightarrow> Inl e
                | Inr st2 \<Rightarrow>
                    if length (stack st2) + length (altstack st2) > 1000
                    then Inl SCRIPT_ERR_STACK_SIZE
                    else Inr (pc', st2))"

lemma eval_step_GetOp2:
  assumes "eval_step env pc st = Inr (pc', st')"
  obtains opcode data where "GetOp2 pc = (True, opcode, data, pc')"
  using assms by (cases "GetOp2 pc") (auto simp: eval_step_def Let_def split: if_splits sum.splits)

lemma eval_step_consumes: "eval_step env pc st = Inr (pc', st') \<Longrightarrow> length pc' < length pc"
  by (elim eval_step_GetOp2) auto

text \<open>The loop.\<close>

function eval_loop :: "eval_env \<Rightarrow> bytes \<Rightarrow> eval_state \<Rightarrow> script_error + eval_state" where
  "eval_loop env pc st =
     (if pc = [] then Inr st
      else case eval_step env pc st of
             Inl e \<Rightarrow> Inl e
           | Inr (pc', st') \<Rightarrow> eval_loop env pc' st')"
  by pat_completeness auto
termination
  by (relation "measure (\<lambda>(env, pc, st). length pc)") (auto dest: eval_step_consumes)

declare eval_loop.simps [simp del]

definition init_state :: "bytes list \<Rightarrow> bytes \<Rightarrow> eval_state" where
  "init_state s script =
     \<lparr>stack = s, altstack = [], vfExec = [], nOpCount = 0, pbegincodehash = script\<rparr>"

definition EvalScript :: "eval_env \<Rightarrow> bytes list \<Rightarrow> bytes \<Rightarrow> script_error + bytes list" where
  "EvalScript env s script =
     (if length script > 10000 then Inl SCRIPT_ERR_SCRIPT_SIZE
      else case eval_loop env script (init_state s script) of
             Inl e \<Rightarrow> Inl e
           | Inr st \<Rightarrow> if vfExec st \<noteq> [] then Inl SCRIPT_ERR_UNBALANCED_CONDITIONAL
                       else Inr (stack st))"

section \<open>Splitting an evaluation into its cases\<close>

named_theorems op_defs \<open>definitions of the operations on the state\<close>

lemmas op_handlers [op_defs] =
  op_pushnum_def op_checklocktimeverify_def op_checksequenceverify_def op_nop_n_def op_if_def
  op_else_def op_endif_def op_verify_def op_toaltstack_def op_fromaltstack_def op_depth_def
  op_pick_roll_def op_size_def op_equal_def op_unary_def op_binary_def op_within_def op_hash_def
  op_checksig_def run_shuffle_def

lemmas result_splits = if_splits sum.splits option.splits list.splits prod.splits

text \<open>
  What a relation between two runs of the \<open>switch\<close> (under two environments, on the same state) has
  to be checked against: every handler.  A property of one run is the case of equal environments.
\<close>

lemma if_rel:
  assumes "b \<Longrightarrow> Q x x'" and "\<not> b \<Longrightarrow> Q y y'"
  shows "Q (if b then x else y) (if b then x' else y')"
  using assms by simp

lemma eval_switch_rel:
  assumes "opcode = OP_1NEGATE \<or> (OP_1 \<le> opcode \<and> opcode \<le> OP_16) \<Longrightarrow>
      Q (op_pushnum opcode st) (op_pushnum opcode st)"
    and "Q (Inr st) (Inr st)"
    and "\<And>e. Q (Inl e) (Inl e)"
    and "Q (op_checklocktimeverify env st) (op_checklocktimeverify env' st)"
    and "Q (op_checksequenceverify env st) (op_checksequenceverify env' st)"
    and "Q (op_nop_n env st) (op_nop_n env' st)"
    and "Q (op_if fExec opcode st) (op_if fExec opcode st)"
    and "Q (op_else st) (op_else st)"
    and "Q (op_endif st) (op_endif st)"
    and "Q (op_verify st) (op_verify st)"
    and "Q (op_toaltstack st) (op_toaltstack st)"
    and "Q (op_fromaltstack st) (op_fromaltstack st)"
    and "Q (op_depth st) (op_depth st)"
    and "Q (op_pick_roll env opcode st) (op_pick_roll env' opcode st)"
    and "Q (op_size st) (op_size st)"
    and "Q (op_equal opcode st) (op_equal opcode st)"
    and "Q (op_unary env opcode st) (op_unary env' opcode st)"
    and "Q (op_binary env opcode st) (op_binary env' opcode st)"
    and "Q (op_within env st) (op_within env' st)"
    and "Q (op_hash env opcode st) (op_hash env' opcode st)"
    and "Q (Inr (st\<lparr>pbegincodehash := pc'\<rparr>)) (Inr (st\<lparr>pbegincodehash := pc'\<rparr>))"
    and "Q (op_checksig env opcode st) (op_checksig env' opcode st)"
    and "Q (op_checkmultisig env opcode st) (op_checkmultisig env' opcode st)"
    and "\<And>f. stack_shuffle opcode = Some f \<Longrightarrow> Q (run_shuffle f st) (run_shuffle f st)"
  shows "Q (eval_switch env fExec pc' opcode st) (eval_switch env' fExec pc' opcode st)"
proof -
  have "Q (case stack_shuffle opcode of Some f \<Rightarrow> run_shuffle f st | None \<Rightarrow> Inl SCRIPT_ERR_BAD_OPCODE)
    (case stack_shuffle opcode of Some f \<Rightarrow> run_shuffle f st | None \<Rightarrow> Inl SCRIPT_ERR_BAD_OPCODE)"
    using assms(3, 24) by (simp split: option.split)
  then show ?thesis
    unfolding eval_switch_def by (intro if_rel [where Q = Q] assms) assumption+
qed

lemma exec_instr_cases:
  assumes "exec_instr env opcode vch pc' st = Inr st'"
  shows "(False \<notin> set (vfExec st) \<and> opcode \<le> OP_PUSHDATA4 \<and> st' = st\<lparr>stack := vch # stack st\<rparr>)
    \<or> (eval_switch env (False \<notin> set (vfExec st)) pc' opcode st = Inr st' \<and>
       (False \<notin> set (vfExec st) \<longrightarrow> OP_PUSHDATA4 < opcode))
    \<or> (st' = st \<and> False \<in> set (vfExec st) \<and> \<not> (OP_IF \<le> opcode \<and> opcode \<le> OP_ENDIF))"
  using assms unfolding exec_instr_def Let_def
  by (auto split: if_split_asm)

lemma stack_shuffle_cases:
  assumes "stack_shuffle opcode = Some f"
  shows "f \<in> {op_2drop, op_2dup, op_3dup, op_2over, op_2rot, op_2swap, op_ifdup, op_drop, op_dup,
    op_nip, op_over, op_rot, op_swap, op_tuck}"
  using map_of_SomeD [OF assms [unfolded stack_shuffle_def]] by auto

end
