(* ===== verification/InterpreterFacts.thy ===== *)
theory InterpreterFacts
  imports Interpreter "HOL-Library.Sublist"
begin

text \<open>
  What \<open>EvalScript\<close> guarantees: resource limits, the static shape of every script that evaluates
  successfully, and that dropping verification flags never turns success into failure
  (the "softfork safe" remarks of src/src/script/interpreter.h).
\<close>

section \<open>A concrete environment\<close>

text \<open>A concrete environment for the examples: constant hashes, and a checker that accepts a
  signature equal to its key.\<close>

definition sample_hashes :: hashes where
  "sample_hashes = \<lparr>h_RIPEMD160 = \<lambda>_. replicate 20 5, h_SHA1 = \<lambda>_. replicate 20 1,
     h_SHA256 = \<lambda>_. replicate 32 2\<rparr>"

definition sample_checker :: checker where
  "sample_checker = \<lparr>CheckSig = \<lambda>sig pk code v. sig = pk, CheckLockTime = \<lambda>n. n \<le> 100,
     CheckSequence = \<lambda>n. n \<le> 100\<rparr>"

definition sample_env :: "flags \<Rightarrow> eval_env" where
  "sample_env f = \<lparr>ee_flags = f, ee_checker = sample_checker, ee_sigversion = SIGVERSION_BASE,
     ee_hashes = sample_hashes\<rparr>"

section \<open>Resource limits\<close>

definition hashes_wf :: "hashes \<Rightarrow> bool" where
  "hashes_wf hs \<longleftrightarrow>
     (\<forall>v. length (h_RIPEMD160 hs v) = 20 \<and> length (h_SHA1 hs v) = 20 \<and> length (h_SHA256 hs v) = 32)"

lemma length_hash_of_opcode [size_bounds]:
  "hashes_wf hs \<Longrightarrow> length (hash_of_opcode hs opcode v) \<le> 520"
  by (simp add: hashes_wf_def hash_of_opcode_def CHash160_def CHash256_def)

definition elems_small :: "eval_state \<Rightarrow> bool" where
  "elems_small st \<longleftrightarrow>
     (\<forall>v \<in> set (stack st) \<union> set (altstack st). length v \<le> MAX_SCRIPT_ELEMENT_SIZE)"

definition within_limits :: "eval_state \<Rightarrow> bool" where
  "within_limits st \<longleftrightarrow>
     elems_small st \<and> length (stack st) + length (altstack st) \<le> 1000 \<and>
     nOpCount st \<le> MAX_OPS_PER_SCRIPT"

lemma length_serialize_small [size_bounds]: "\<bar>v\<bar> < 2 ^ 64 \<Longrightarrow> length (serialize v) \<le> 520"
  using serialize_length [of v 8] by simp

lemma stacknum_bound:
  "stacknum env n vch = Inr v \<Longrightarrow> 0 < n \<Longrightarrow> \<bar>v\<bar> < 2 ^ (8 * n - 1)"
  by (auto simp: stacknum_def dest: CScriptNum_of_vch_bound split: sum.splits)

lemma stacknum_4: "stacknum env nDefaultMaxNumSize vch = Inr v \<Longrightarrow> \<bar>v\<bar> < 2 ^ 31"
  using stacknum_bound [of env 4] by (simp add: nDefaultMaxNumSize_def)

lemma unary_result_bound: "\<bar>v\<bar> < 2 ^ 31 \<Longrightarrow> \<bar>unary_result opcode v\<bar> < 2 ^ 64"
  by (auto simp: unary_result_def)

lemma if_pred: "(b \<Longrightarrow> P x) \<Longrightarrow> (\<not> b \<Longrightarrow> P y) \<Longrightarrow> P (if b then x else y)"
  by simp

lemma binary_result_bound:
  assumes "\<bar>v\<bar> < 2 ^ 31" and "\<bar>w\<bar> < 2 ^ 31"
  shows "\<bar>binary_result opcode v w\<bar> < 2 ^ 64"
proof -
  have b: "\<bar>of_bool c :: int\<bar> < 2 ^ 64" for c by (simp add: of_bool_def)
  have "\<bar>v + w\<bar> < 2 ^ 64" "\<bar>v - w\<bar> < 2 ^ 64" "\<bar>v\<bar> < 2 ^ 64" "\<bar>w\<bar> < 2 ^ 64"
    using assms by simp_all
  then show ?thesis
    unfolding binary_result_def by (intro if_pred [where P = "\<lambda>x. \<bar>x\<bar> < 2 ^ 64"] b) assumption+
qed

lemma length_bool_vch [size_bounds]: "length (bool_vch b) \<le> 520"
  by (simp add: bool_vch_def vchTrue_def vchFalse_def)

lemma length_unary [size_bounds]:
  "\<bar>v\<bar> < 2 ^ 31 \<Longrightarrow> length (serialize (unary_result opcode v)) \<le> 520"
  by (intro length_serialize_small unary_result_bound)

lemma length_binary [size_bounds]:
  "\<bar>v\<bar> < 2 ^ 31 \<Longrightarrow> \<bar>w\<bar> < 2 ^ 31 \<Longrightarrow> length (serialize (binary_result opcode v w)) \<le> 520"
  by (intro length_serialize_small binary_result_bound)

lemma multisig_args_unpack:
  assumes "multisig_args env st = Inr r"
  shows "\<exists>n m. int n \<le> int MAX_PUBKEYS_PER_MULTISIG \<and> nOpCount st + n \<le> MAX_OPS_PER_SCRIPT \<and>
    int m \<le> int n \<and> 3 + n + m \<le> length (stack st) \<and>
    r = (take m (drop (2 + n) (stack st)), take n (drop 1 (stack st)), nOpCount st + n,
         drop (2 + n + m) (stack st))"
proof -
  obtain v where v: "stacknum env nDefaultMaxNumSize (stack st ! 0) = Inr v"
    and s1: "\<not> length (stack st) < 1"
    using assms by (simp add: multisig_args_def Let_def split: if_split_asm sum.split_asm)
  define n where "n = nat (getint v)"
  have k: "\<not> (getint v < 0 \<or> getint v > int MAX_PUBKEYS_PER_MULTISIG)"
    using assms v by (auto simp: multisig_args_def Let_def split: if_split_asm)
  have s2: "\<not> nOpCount st + n > MAX_OPS_PER_SCRIPT" "\<not> length (stack st) < 2 + n"
    using assms v k s1 by (auto simp: multisig_args_def Let_def n_def split: if_split_asm)
  obtain w where w: "stacknum env nDefaultMaxNumSize (stack st ! (1 + n)) = Inr w"
    using assms v k s1 s2
    by (simp add: multisig_args_def Let_def n_def [symmetric] split: sum.split_asm)
  define m where "m = nat (getint w)"
  have j: "\<not> (getint w < 0 \<or> getint w > int n)"
    using assms v k s1 s2 w by (simp add: multisig_args_def Let_def n_def [symmetric] split: if_split_asm)
  have s3: "\<not> length (stack st) < 3 + n + m"
    using assms v k s1 s2 w j
    by (simp add: multisig_args_def Let_def n_def [symmetric] m_def [symmetric] split: if_split_asm)
  have "r = (take m (drop (2 + n) (stack st)), take n (drop 1 (stack st)), nOpCount st + n,
         drop (2 + n + m) (stack st))"
    using assms v k s1 s2 w j s3
    by (simp add: multisig_args_def Let_def n_def [symmetric] m_def [symmetric])
  moreover have "int n \<le> int MAX_PUBKEYS_PER_MULTISIG" "int m \<le> int n"
    using k j by (simp_all add: n_def m_def)
  ultimately show ?thesis using s2 s3 by (metis not_less)
qed

lemma multisig_args_Inr:
  assumes "multisig_args env st = Inr (sigs, keys, nOps, rest)"
  shows "length sigs \<le> length keys \<and> length keys \<le> MAX_PUBKEYS_PER_MULTISIG \<and>
    nOps = nOpCount st + length keys \<and> nOps \<le> MAX_OPS_PER_SCRIPT \<and>
    set rest \<subseteq> set (stack st) \<and> rest \<noteq> []"
proof -
  from multisig_args_unpack [OF assms] obtain n m where
    b: "int n \<le> int MAX_PUBKEYS_PER_MULTISIG" "nOpCount st + n \<le> MAX_OPS_PER_SCRIPT"
      "int m \<le> int n" "3 + n + m \<le> length (stack st)" and
    r: "sigs = take m (drop (2 + n) (stack st))" "keys = take n (drop 1 (stack st))"
      "nOps = nOpCount st + n" "rest = drop (2 + n + m) (stack st)"
    by blast
  have "length keys = n" "length sigs = m" using b r by simp_all
  then show ?thesis using b r set_drop_subset [of "2 + n + m" "stack st"] by simp
qed

lemma op_checkmultisig_Inr:
  assumes "op_checkmultisig env opcode st = Inr st'"
  obtains n r b where "n \<le> MAX_OPS_PER_SCRIPT" "nOpCount st \<le> n" "set r \<subseteq> set (stack st)"
    "st' = st\<lparr>stack := r, nOpCount := n\<rparr> \<or> st' = st\<lparr>stack := bool_vch b # r, nOpCount := n\<rparr>"
proof -
  obtain sigs keys nOps rest where args: "multisig_args env st = Inr (sigs, keys, nOps, rest)"
    using assms by (auto simp: op_checkmultisig_def split: sum.split_asm)
  note facts = multisig_args_Inr [OF args]
  obtain d r where rest: "rest = d # r" using facts by (cases rest) auto
  then have "set r \<subseteq> set (stack st)" using facts by auto
  moreover obtain b where
    "st' = st\<lparr>stack := r, nOpCount := nOps\<rparr> \<or> st' = st\<lparr>stack := bool_vch b # r, nOpCount := nOps\<rparr>"
    using assms args rest
    by (auto simp: op_checkmultisig_def Let_def split: sum.split_asm if_split_asm)
  ultimately show ?thesis using that [of nOps r] facts by fastforce
qed

text \<open>Shuffles invent no element.\<close>

lemma shuffle_sets:
  shows "op_2drop s = Some s' \<Longrightarrow> set s' \<subseteq> set s"
    and "op_2dup s = Some s' \<Longrightarrow> set s' \<subseteq> set s"
    and "op_3dup s = Some s' \<Longrightarrow> set s' \<subseteq> set s"
    and "op_2over s = Some s' \<Longrightarrow> set s' \<subseteq> set s"
    and "op_2rot s = Some s' \<Longrightarrow> set s' \<subseteq> set s"
    and "op_2swap s = Some s' \<Longrightarrow> set s' \<subseteq> set s"
    and "op_ifdup s = Some s' \<Longrightarrow> set s' \<subseteq> set s"
    and "op_drop s = Some s' \<Longrightarrow> set s' \<subseteq> set s"
    and "op_dup s = Some s' \<Longrightarrow> set s' \<subseteq> set s"
    and "op_nip s = Some s' \<Longrightarrow> set s' \<subseteq> set s"
    and "op_over s = Some s' \<Longrightarrow> set s' \<subseteq> set s"
    and "op_rot s = Some s' \<Longrightarrow> set s' \<subseteq> set s"
    and "op_swap s = Some s' \<Longrightarrow> set s' \<subseteq> set s"
    and "op_tuck s = Some s' \<Longrightarrow> set s' \<subseteq> set s"
  subgoal by (cases s rule: op_2drop.cases) (auto split: if_splits)
  subgoal by (cases s rule: op_2dup.cases) (auto split: if_splits)
  subgoal by (cases s rule: op_3dup.cases) (auto split: if_splits)
  subgoal by (cases s rule: op_2over.cases) (auto split: if_splits)
  subgoal by (cases s rule: op_2rot.cases) (auto split: if_splits)
  subgoal by (cases s rule: op_2swap.cases) (auto split: if_splits)
  subgoal by (cases s rule: op_ifdup.cases) (auto split: if_splits)
  subgoal by (cases s rule: op_drop.cases) (auto split: if_splits)
  subgoal by (cases s rule: op_dup.cases) (auto split: if_splits)
  subgoal by (cases s rule: op_nip.cases) (auto split: if_splits)
  subgoal by (cases s rule: op_over.cases) (auto split: if_splits)
  subgoal by (cases s rule: op_rot.cases) (auto split: if_splits)
  subgoal by (cases s rule: op_swap.cases) (auto split: if_splits)
  subgoal by (cases s rule: op_tuck.cases) (auto split: if_splits)
  done

lemma stack_shuffle_set:
  assumes "stack_shuffle opcode = Some f" and "f s = Some s'"
  shows "set s' \<subseteq> set s"
  using stack_shuffle_cases [OF assms(1)] assms(2)
  by (elim insertE emptyE) (simp_all only: shuffle_sets)

lemma nth_nat_mem: "0 \<le> n \<Longrightarrow> n < int (length xs) \<Longrightarrow> xs ! nat n \<in> set xs"
  by (simp add: nat_less_iff)

lemma op_pick_roll_Inr:
  assumes "op_pick_roll env opcode st = Inr st'"
  obtains x y r n where "stack st = x # y # r" "0 \<le> n" "n < int (length (y # r))"
    "st' = st\<lparr>stack := (y # r) ! nat n #
       (if opcode = OP_ROLL then take (nat n) (y # r) @ drop (nat n + 1) (y # r) else y # r)\<rparr>"
proof -
  obtain x y r where s: "stack st = x # y # r"
    using assms by (auto simp: op_pick_roll_def split: list.split_asm)
  obtain v where v: "stacknum env nDefaultMaxNumSize x = Inr v"
    using assms by (simp add: op_pick_roll_def s split: sum.split_asm)
  have n: "\<not> (getint v < 0 \<or> getint v \<ge> int (length (y # r)))"
    using assms by (simp add: op_pick_roll_def s v Let_def split: if_split_asm)
  show ?thesis
    using assms n by (intro that [OF s, of "getint v"]) (simp_all add: op_pick_roll_def s v Let_def del: not_le)
qed

lemma op_pick_roll_set:
  assumes "op_pick_roll env opcode st = Inr st'"
  shows "set (stack st') \<subseteq> set (stack st) \<and> altstack st' = altstack st \<and> nOpCount st' = nOpCount st"
proof -
  obtain x y r n where st: "stack st = x # y # r" "0 \<le> n" "n < int (length (y # r))"
    "st' = st\<lparr>stack := (y # r) ! nat n #
       (if opcode = OP_ROLL then take (nat n) (y # r) @ drop (nat n + 1) (y # r) else y # r)\<rparr>"
    using assms by (rule op_pick_roll_Inr)
  then show ?thesis
    using nth_nat_mem [OF st(2,3)] by (auto dest: in_set_takeD in_set_dropD)
qed

lemma eval_switch_small:
  assumes "eval_switch env fExec pc' opcode st = Inr st'"
    and "elems_small st" and "length (stack st) \<le> 1000" and "hashes_wf (ee_hashes env)"
    and "opcode \<le> 255"
  shows "elems_small st'"
proof -
  let ?Q = "\<lambda>r (r' :: script_error + eval_state). \<forall>st'. r = Inr st' \<longrightarrow> elems_small st'"
  have "?Q (eval_switch env fExec pc' opcode st) (eval_switch env fExec pc' opcode st)"
  proof (rule eval_switch_rel [where Q = ?Q], goal_cases)
    case 1
    have "\<bar>int opcode - int (OP_1 - 1)\<bar> < 2 ^ 64" using assms(5) by (simp add: opcode_defs)
    then show ?case using assms(2) by (auto simp: op_pushnum_def elems_small_def MAX_SCRIPT_ELEMENT_SIZE_def size_bounds)
  next
    case 13
    have "\<bar>int (length (stack st))\<bar> < 2 ^ 64" using assms(3) by simp
    then show ?case using assms(2) by (auto simp: op_depth_def elems_small_def MAX_SCRIPT_ELEMENT_SIZE_def size_bounds)
  next
    case 14
    then show ?case using assms(2) op_pick_roll_set [of env opcode st] by (fastforce simp: elems_small_def)
  next
    case 15
    then show ?case using assms(2)
      by (auto simp: op_size_def elems_small_def MAX_SCRIPT_ELEMENT_SIZE_def size_bounds split: list.splits)
  next
    case 17
    then show ?case using assms(2)
      by (auto simp: op_unary_def elems_small_def MAX_SCRIPT_ELEMENT_SIZE_def dest!: stacknum_4 intro!: length_unary [simplified]
          split: list.splits sum.splits)
  next
    case 18
    then show ?case using assms(2)
      by (auto simp: op_binary_def Let_def elems_small_def MAX_SCRIPT_ELEMENT_SIZE_def dest!: stacknum_4 intro!: length_binary [simplified]
          split: list.splits sum.splits if_splits)
  next
    case 20
    then show ?case using assms(2,4)
      by (auto simp: op_hash_def elems_small_def MAX_SCRIPT_ELEMENT_SIZE_def size_bounds split: list.splits)
  next
    case 23
    then show ?case using assms(2)
      by (auto elim!: op_checkmultisig_Inr dest!: subsetD simp: elems_small_def MAX_SCRIPT_ELEMENT_SIZE_def size_bounds)
  next
    case (24 f)
    then show ?case using assms(2)
      by (auto simp: run_shuffle_def elems_small_def dest!: stack_shuffle_set split: option.splits)
  qed (use assms(2) in \<open>auto simp: op_handlers Let_def elems_small_def MAX_SCRIPT_ELEMENT_SIZE_def size_bounds
        split: if_splits list.splits sum.splits option.splits\<close>)
  with assms(1) show ?thesis by blast
qed

lemma eval_switch_alt:
  assumes "eval_switch env fExec pc' opcode st = Inr st'" and "nOpCount st \<le> MAX_OPS_PER_SCRIPT"
  shows "nOpCount st' \<le> MAX_OPS_PER_SCRIPT"
proof -
  let ?Q = "\<lambda>r (r' :: script_error + eval_state). \<forall>st'. r = Inr st' \<longrightarrow> nOpCount st' \<le> MAX_OPS_PER_SCRIPT"
  have "?Q (eval_switch env fExec pc' opcode st) (eval_switch env fExec pc' opcode st)"
  proof (rule eval_switch_rel [where Q = ?Q], goal_cases)
    case 14
    then show ?case using assms(2) op_pick_roll_set [of env opcode st] by fastforce
  next
    case 23
    then show ?case by (auto elim!: op_checkmultisig_Inr)
  qed (use assms(2) in \<open>auto simp: op_handlers Let_def
        split: if_splits list.splits sum.splits option.splits\<close>)
  with assms(1) show ?thesis by blast
qed

lemma eval_switch_codehash:
  assumes "eval_switch env fExec pc' opcode st = Inr st'"
  shows "pbegincodehash st' = pbegincodehash st \<or> pbegincodehash st' = pc'"
proof -
  let ?Q = "\<lambda>r (r' :: script_error + eval_state). \<forall>st'. r = Inr st' \<longrightarrow>
    pbegincodehash st' = pbegincodehash st \<or> pbegincodehash st' = pc'"
  have "?Q (eval_switch env fExec pc' opcode st) (eval_switch env fExec pc' opcode st)"
  proof (rule eval_switch_rel [where Q = ?Q], goal_cases)
    case 14
    then show ?case by (auto elim!: op_pick_roll_Inr)
  next
    case 23
    then show ?case by (auto elim!: op_checkmultisig_Inr)
  qed (auto simp: op_handlers Let_def split: if_splits list.splits sum.splits option.splits)
  with assms show ?thesis by blast
qed

text \<open>What a step that succeeds has checked and done.\<close>

lemma eval_step_unpack:
  assumes "eval_step env pc st = Inr (pc', st')"
  obtains opcode data st1 where "GetOp2 pc = (True, opcode, data, pc')"
    "length data \<le> MAX_SCRIPT_ELEMENT_SIZE" "opcode \<notin> set disabled_opcodes"
    "st1 = (if OP_16 < opcode then st\<lparr>nOpCount := nOpCount st + 1\<rparr> else st)"
    "OP_16 < opcode \<longrightarrow> nOpCount st1 \<le> MAX_OPS_PER_SCRIPT"
    "exec_instr env opcode data pc' st1 = Inr st'"
    "length (stack st') + length (altstack st') \<le> 1000"
proof -
  obtain opcode data where g: "GetOp2 pc = (True, opcode, data, pc')"
    using assms by (rule eval_step_GetOp2)
  show ?thesis
    using assms
    by (intro that [OF g, of "if OP_16 < opcode then st\<lparr>nOpCount := nOpCount st + 1\<rparr> else st"])
      (auto simp: eval_step_def g Let_def split: if_split_asm sum.split_asm)
qed

definition good_state :: "bytes \<Rightarrow> eval_state \<Rightarrow> bool" where
  "good_state script st \<longleftrightarrow> within_limits st \<and> suffix (pbegincodehash st) script"

lemma exec_instr_good:
  assumes x: "exec_instr env opcode data pc' st = Inr st'" and h: "hashes_wf (ee_hashes env)"
    and o255: "opcode \<le> 255" and d: "length data \<le> MAX_SCRIPT_ELEMENT_SIZE"
    and g: "good_state script st" and p: "suffix pc' script"
  shows "elems_small st' \<and> nOpCount st' \<le> MAX_OPS_PER_SCRIPT \<and> suffix (pbegincodehash st') script"
  using exec_instr_cases [OF x]
proof (elim disjE conjE)
  assume "st' = st\<lparr>stack := data # stack st\<rparr>"
  then show ?thesis using g d by (auto simp: good_state_def within_limits_def elems_small_def)
next
  assume s: "eval_switch env (False \<notin> set (vfExec st)) pc' opcode st = Inr st'"
  have "length (stack st) \<le> 1000" "elems_small st" "nOpCount st \<le> MAX_OPS_PER_SCRIPT"
    using g by (auto simp: good_state_def within_limits_def)
  then show ?thesis
    using eval_switch_small [OF s _ _ h o255] eval_switch_alt [OF s] eval_switch_codehash [OF s] g p
    by (auto simp: good_state_def)
next
  assume "st' = st"
  then show ?thesis using g by (auto simp: good_state_def within_limits_def)
qed

lemma eval_step_good:
  assumes s: "eval_step env pc st = Inr (pc', st')" and h: "hashes_wf (ee_hashes env)"
    and g: "good_state script st" and p: "suffix pc script"
  shows "good_state script st' \<and> suffix pc' script"
proof -
  from s obtain opcode data st1 where u: "GetOp2 pc = (True, opcode, data, pc')"
    "length data \<le> MAX_SCRIPT_ELEMENT_SIZE"
    "st1 = (if OP_16 < opcode then st\<lparr>nOpCount := nOpCount st + 1\<rparr> else st)"
    "OP_16 < opcode \<longrightarrow> nOpCount st1 \<le> MAX_OPS_PER_SCRIPT"
    "exec_instr env opcode data pc' st1 = Inr st'"
    "length (stack st') + length (altstack st') \<le> 1000"
    by (rule eval_step_unpack)
  have "suffix pc' pc" using GetOp2_suffix [OF u(1)] by (simp add: suffix_def)
  then have p': "suffix pc' script" using p suffix_order.trans by blast
  have "opcode \<le> 255" using GetOp2_opcode_lt [OF u(1)] .
  moreover have "good_state script st1"
    using g u(3,4) by (auto simp: good_state_def within_limits_def elems_small_def split: if_splits)
  ultimately have "elems_small st' \<and> nOpCount st' \<le> MAX_OPS_PER_SCRIPT \<and> suffix (pbegincodehash st') script"
    using exec_instr_good [OF u(5) h _ u(2) _ p'] by blast
  then show ?thesis using u(6) p' by (simp add: good_state_def within_limits_def)
qed

section \<open>Reachable states of an evaluation\<close>

inductive eval_reach :: "eval_env \<Rightarrow> bytes list \<Rightarrow> bytes \<Rightarrow> bytes \<Rightarrow> eval_state \<Rightarrow> bool"
  for env s script where
  start: "eval_reach env s script script (init_state s script)"
| step: "eval_reach env s script pc st \<Longrightarrow> eval_step env pc st = Inr (pc', st') \<Longrightarrow>
    eval_reach env s script pc' st'"

lemma eval_loop_reach:
  "eval_loop env pc st = Inr st' \<Longrightarrow> eval_reach env s script pc st \<Longrightarrow> eval_reach env s script [] st'"
proof (induction env pc st rule: eval_loop.induct)
  case (1 env pc st)
  show ?case
  proof (cases "pc = []")
    case True
    then show ?thesis using 1 by (simp add: eval_loop.simps [of env "[]"])
  next
    case False
    then obtain pc1 st1 where r: "eval_step env pc st = Inr (pc1, st1)"
      and l: "eval_loop env pc1 st1 = Inr st'"
      using "1.prems"(1) by (auto simp: eval_loop.simps [of env pc] split: sum.splits)
    show ?thesis
      using "1.IH" [OF False r refl l] eval_reach.step [OF "1.prems"(2) r] by blast
  qed
qed

lemma eval_reach_good:
  assumes "eval_reach env s script pc st" and "hashes_wf (ee_hashes env)"
    and "good_state script (init_state s script)"
  shows "good_state script st \<and> suffix pc script"
  using assms(1)
proof induction
  case start
  show ?case using assms(3) by simp
next
  case (step pc st pc' st')
  then show ?case using eval_step_good [OF _ assms(2)] by blast
qed

text \<open>C29: Every state the interpreter passes through keeps the consensus limits: at most 201 counted
  operations, at most 1000 elements on the two stacks together, each of at most 520 bytes, and
  \<open>pbegincodehash\<close> and \<open>pc\<close> point into the script, for a start on at most 1000 elements of at most
  520 bytes and hash functions of the documented output lengths.\<close>

theorem EvalScript_limits:
  assumes "eval_reach env s script pc st" and "hashes_wf (ee_hashes env)"
    and "length s \<le> 1000" and "\<forall>v \<in> set s. length v \<le> MAX_SCRIPT_ELEMENT_SIZE"
  shows "length (stack st) + length (altstack st) \<le> 1000 \<and> nOpCount st \<le> MAX_OPS_PER_SCRIPT \<and>
    (\<forall>v \<in> set (stack st) \<union> set (altstack st). length v \<le> MAX_SCRIPT_ELEMENT_SIZE) \<and>
    suffix pc script \<and> suffix (pbegincodehash st) script"
proof -
  have "good_state script (init_state s script)"
    using assms(3,4) by (simp add: good_state_def within_limits_def elems_small_def init_state_def)
  then show ?thesis
    using eval_reach_good [OF assms(1,2)] by (simp add: good_state_def within_limits_def elems_small_def)
qed

lemma sample_hashes_wf: "hashes_wf (ee_hashes (sample_env f))"
  by (simp add: hashes_wf_def sample_env_def sample_hashes_def)

lemma EvalScript_limits_witness:
  "length (stack \<lparr>stack = [[2]], altstack = [], vfExec = [], nOpCount = 0, pbegincodehash = [0x52, 0x76]\<rparr>) +
     length (altstack \<lparr>stack = [[2]], altstack = [], vfExec = [], nOpCount = 0, pbegincodehash = [0x52, 0x76]\<rparr>) \<le> 1000 \<and>
   suffix [0x76] [0x52, 0x76 :: byte]"
proof -
  let ?st = "\<lparr>stack = [[2]], altstack = [], vfExec = [], nOpCount = 0, pbegincodehash = [0x52, 0x76]\<rparr>"
  have "eval_step (sample_env 0) [0x52, 0x76] (init_state [] [0x52, 0x76]) = Inr ([0x76], ?st)"
    by code_simp
  then have "eval_reach (sample_env 0) [] [0x52, 0x76] [0x76] ?st"
    by (rule eval_reach.step [OF eval_reach.start])
  from EvalScript_limits [OF this sample_hashes_wf] show ?thesis by simp
qed

section \<open>The static shape of a script that evaluates\<close>

text \<open>The instructions of a script, as the loops over \<open>GetOp\<close> see them.\<close>

function parse_script :: "bytes \<Rightarrow> (nat \<times> bytes) list option" where
  "parse_script pc =
     (if pc = [] then Some []
      else case GetOp2 pc of
        (ok, opcode, data, pc') \<Rightarrow>
          if ok then map_option (Cons (opcode, data)) (parse_script pc') else None)"
  by pat_completeness auto
termination
  by (relation "measure length") (auto dest!: sym [of _ "GetOp2 _"])

declare parse_script.simps [simp del]

definition static_ok :: "nat \<times> bytes \<Rightarrow> bool" where
  "static_ok i \<longleftrightarrow> length (snd i) \<le> MAX_SCRIPT_ELEMENT_SIZE \<and> fst i \<notin> set disabled_opcodes \<and>
     fst i \<noteq> OP_VERIF \<and> fst i \<noteq> OP_VERNOTIF"

definition counted_ops :: "(nat \<times> bytes) list \<Rightarrow> nat" where
  "counted_ops ops = length (filter (\<lambda>i. OP_16 < fst i) ops)"

lemma eval_switch_ops:
  assumes "eval_switch env fExec pc' opcode st = Inr st'"
  shows "nOpCount st \<le> nOpCount st'"
proof -
  let ?Q = "\<lambda>r (r' :: script_error + eval_state). \<forall>st'. r = Inr st' \<longrightarrow> nOpCount st \<le> nOpCount st'"
  have "?Q (eval_switch env fExec pc' opcode st) (eval_switch env fExec pc' opcode st)"
  proof (rule eval_switch_rel [where Q = ?Q], goal_cases)
    case 14
    then show ?case using op_pick_roll_set [of env opcode st] by fastforce
  next
    case 23
    then show ?case by (auto elim!: op_checkmultisig_Inr)
  qed (auto simp: op_handlers Let_def split: if_splits list.splits sum.splits option.splits)
  with assms show ?thesis by blast
qed

lemma eval_switch_verif:
  "opcode = OP_VERIF \<or> opcode = OP_VERNOTIF \<Longrightarrow> eval_switch env fExec pc' opcode st = Inl SCRIPT_ERR_BAD_OPCODE"
  by (auto simp: eval_switch_def stack_shuffle_def opcode_defs)

lemma exec_instr_static:
  assumes "exec_instr env opcode data pc' st = Inr st'"
  shows "opcode \<noteq> OP_VERIF \<and> opcode \<noteq> OP_VERNOTIF \<and> nOpCount st \<le> nOpCount st'"
  using exec_instr_cases [OF assms]
  by (elim disjE) (auto simp: eval_switch_ops eval_switch_verif opcode_defs
      dest: eval_switch_verif [unfolded opcode_defs])

lemma eval_step_static:
  assumes "eval_step env pc st = Inr (pc', st')"
  obtains opcode data where "GetOp2 pc = (True, opcode, data, pc')" "static_ok (opcode, data)"
    "nOpCount st + (if OP_16 < opcode then 1 else 0) \<le> nOpCount st'"
proof -
  from assms obtain opcode data st1 where u: "GetOp2 pc = (True, opcode, data, pc')"
    "length data \<le> MAX_SCRIPT_ELEMENT_SIZE" "opcode \<notin> set disabled_opcodes"
    "st1 = (if OP_16 < opcode then st\<lparr>nOpCount := nOpCount st + 1\<rparr> else st)"
    "exec_instr env opcode data pc' st1 = Inr st'"
    by (rule eval_step_unpack)
  show ?thesis
    using exec_instr_static [OF u(5)] u(2,3,4) by (intro that [OF u(1)]) (auto simp: static_ok_def)
qed

lemma eval_loop_static:
  assumes "eval_loop env pc st = Inr st'"
  shows "\<exists>ops. parse_script pc = Some ops \<and> (\<forall>i \<in> set ops. static_ok i) \<and>
    nOpCount st + counted_ops ops \<le> nOpCount st'"
  using assms
proof (induction env pc st rule: eval_loop.induct)
  case (1 env pc st)
  show ?case
  proof (cases "pc = []")
    case True
    then show ?thesis
      using 1 by (simp add: eval_loop.simps [of env "[]"] parse_script.simps [of "[]"] counted_ops_def)
  next
    case False
    then obtain pc1 st1 where r: "eval_step env pc st = Inr (pc1, st1)"
      and l: "eval_loop env pc1 st1 = Inr st'"
      using "1.prems" by (auto simp: eval_loop.simps [of env pc] split: sum.splits)
    obtain ops where ops: "parse_script pc1 = Some ops" "\<forall>i \<in> set ops. static_ok i"
      "nOpCount st1 + counted_ops ops \<le> nOpCount st'"
      using "1.IH" [OF False r refl l] by blast
    obtain opcode data where s: "GetOp2 pc = (True, opcode, data, pc1)" "static_ok (opcode, data)"
      "nOpCount st + (if OP_16 < opcode then 1 else 0) \<le> nOpCount st1"
      using r by (rule eval_step_static)
    have "parse_script pc = Some ((opcode, data) # ops)"
      using False s(1) ops(1) by (simp add: parse_script.simps [of pc])
    then show ?thesis
      using s(2,3) ops(2,3) by (auto simp: counted_ops_def)
  qed
qed

lemma eval_loop_ops_bound:
  assumes "eval_loop env pc st = Inr st'" and "nOpCount st \<le> MAX_OPS_PER_SCRIPT"
  shows "nOpCount st' \<le> MAX_OPS_PER_SCRIPT"
  using assms
proof (induction env pc st rule: eval_loop.induct)
  case (1 env pc st)
  show ?case
  proof (cases "pc = []")
    case True
    then show ?thesis using 1 by (simp add: eval_loop.simps [of env "[]"])
  next
    case False
    then obtain pc1 st1 where r: "eval_step env pc st = Inr (pc1, st1)"
      and l: "eval_loop env pc1 st1 = Inr st'"
      using "1.prems" by (auto simp: eval_loop.simps [of env pc] split: sum.splits)
    obtain opcode data st2 where u: "GetOp2 pc = (True, opcode, data, pc1)"
      "st2 = (if OP_16 < opcode then st\<lparr>nOpCount := nOpCount st + 1\<rparr> else st)"
      "OP_16 < opcode \<longrightarrow> nOpCount st2 \<le> MAX_OPS_PER_SCRIPT"
      "exec_instr env opcode data pc1 st2 = Inr st1"
      using r by (rule eval_step_unpack)
    have "nOpCount st2 \<le> MAX_OPS_PER_SCRIPT" using u(2,3) "1.prems"(2) by (auto split: if_splits)
    then have "nOpCount st1 \<le> MAX_OPS_PER_SCRIPT"
      using exec_instr_cases [OF u(4)] by (auto dest: eval_switch_alt)
    then show ?thesis using "1.IH" [OF False r refl l] by blast
  qed
qed

text \<open>A script on which \<open>EvalScript\<close> succeeds is well formed throughout, also in branches that are
  not executed: it has at most 10000 bytes, splits into instructions, pushes at most 520 bytes at a
  time, contains no disabled opcode and no \<open>OP_VERIF\<close> or \<open>OP_VERNOTIF\<close>, and at most 201
  instructions above \<open>OP_16\<close>.\<close>

theorem EvalScript_static:
  assumes "EvalScript env s script = Inr s'"
  shows "length script \<le> 10000 \<and> (\<exists>ops. parse_script script = Some ops \<and>
    (\<forall>(opcode, data) \<in> set ops. length data \<le> MAX_SCRIPT_ELEMENT_SIZE \<and>
       opcode \<notin> set disabled_opcodes \<and> opcode \<noteq> OP_VERIF \<and> opcode \<noteq> OP_VERNOTIF) \<and>
    length (filter (\<lambda>(opcode, data). OP_16 < opcode) ops) \<le> MAX_OPS_PER_SCRIPT)"
proof -
  obtain st where l: "eval_loop env script (init_state s script) = Inr st" and "length script \<le> 10000"
    using assms by (auto simp: EvalScript_def split: if_splits sum.splits)
  moreover obtain ops where "parse_script script = Some ops" "\<forall>i \<in> set ops. static_ok i"
    "nOpCount (init_state s script) + counted_ops ops \<le> nOpCount st"
    using eval_loop_static [OF l] by blast
  moreover have "nOpCount st \<le> MAX_OPS_PER_SCRIPT"
    using eval_loop_ops_bound [OF l] by (simp add: init_state_def)
  ultimately show ?thesis
    by (auto simp: static_ok_def counted_ops_def case_prod_unfold)
qed

lemma EvalScript_static_witness:
  "\<exists>ops. parse_script [0x52, 0x53, 0x93] = Some ops \<and>
     length (filter (\<lambda>(opcode, data). OP_16 < opcode) ops) \<le> MAX_OPS_PER_SCRIPT"
proof -
  have "EvalScript (sample_env 0) [] [0x52, 0x53, 0x93] = Inr [[5]]" by code_simp
  from EvalScript_static [OF this] show ?thesis by blast
qed

section \<open>Scripts that only push\<close>

lemma eval_loop_pushonly:
  assumes "eval_loop env pc st = Inr st'" and "IsPushOnly pc" and "vfExec st = []"
  shows "\<exists>xs. stack st' = xs @ stack st \<and> altstack st' = altstack st \<and> vfExec st' = []"
  using assms
proof (induction env pc st rule: eval_loop.induct)
  case (1 env pc st)
  show ?case
  proof (cases "pc = []")
    case True
    then show ?thesis using 1 by (simp add: eval_loop.simps [of env "[]"])
  next
    case False
    then obtain pc1 st1 where r: "eval_step env pc st = Inr (pc1, st1)"
      and l: "eval_loop env pc1 st1 = Inr st'"
      using "1.prems" by (auto simp: eval_loop.simps [of env pc] split: sum.splits)
    obtain opcode data st2 where u: "GetOp2 pc = (True, opcode, data, pc1)"
      "st2 = (if OP_16 < opcode then st\<lparr>nOpCount := nOpCount st + 1\<rparr> else st)"
      "exec_instr env opcode data pc1 st2 = Inr st1"
      using r by (rule eval_step_unpack)
    have p: "opcode \<le> OP_16" "IsPushOnly pc1"
      using "1.prems"(2) False u(1) by (auto simp: IsPushOnly.simps [of pc] split: if_splits)
    have "\<exists>x. st1 = st\<lparr>stack := x # stack st\<rparr>"
      using exec_instr_cases [OF u(3)] u(2) p(1) "1.prems"(3)
      by (auto simp: eval_switch_def op_pushnum_def stack_shuffle_def opcode_defs split: if_splits)
    then show ?thesis using "1.IH" [OF False r refl l p(2)] "1.prems"(3) by auto
  qed
qed

text \<open>A push-only script (the form \<open>VerifyScript\<close> demands of a P2SH \<open>scriptSig\<close>) can only add
  elements on top of the stack it starts from.\<close>

theorem EvalScript_pushonly:
  assumes "IsPushOnly script" and "EvalScript env s script = Inr s'"
  shows "suffix s s'"
proof -
  obtain st where "eval_loop env script (init_state s script) = Inr st" "s' = stack st"
    using assms(2) by (auto simp: EvalScript_def split: if_splits sum.splits)
  then show ?thesis
    using eval_loop_pushonly [of env script "init_state s script"] assms(1)
    by (auto simp: init_state_def suffix_def)
qed

lemma EvalScript_pushonly_witness: "suffix [[9 :: byte]] [[3], [9]]"
proof -
  have "IsPushOnly [0x53]" by code_simp
  moreover have "EvalScript (sample_env 0) [[9]] [0x53] = Inr [[3], [9]]" by code_simp
  ultimately show ?thesis by (rule EvalScript_pushonly)
qed

section \<open>Signature opcodes\<close>

lemma subseq_tl: "subseq (k1 # ks) (k # keys) \<Longrightarrow> subseq ks keys"
  by (metis list.inject subseq_Cons' subseq_Cons2_iff)

lemma multisig_step:
  assumes "P s k"
  shows "(\<exists>ks. subseq ks (k # keys) \<and> list_all2 P (s # sigs) ks) \<longleftrightarrow>
    (\<exists>ks. subseq ks keys \<and> list_all2 P sigs ks)"
  using assms by (auto simp: list_all2_Cons1 dest: subseq_tl)

lemma multisig_skip:
  assumes "\<not> P s k"
  shows "(\<exists>ks. subseq ks (k # keys) \<and> list_all2 P (s # sigs) ks) \<longleftrightarrow>
    (\<exists>ks. subseq ks keys \<and> list_all2 P (s # sigs) ks)"
  (is "?L \<longleftrightarrow> ?R")
proof
  assume ?L
  then obtain k1 ks where "subseq (k1 # ks) (k # keys)" "P s k1" "list_all2 P sigs ks"
    by (auto simp: list_all2_Cons1 simp del: subseq_Cons2_iff)
  moreover from this have "subseq (k1 # ks) keys" using assms by (metis subseq_Cons2_neq)
  ultimately show ?R by (intro exI [of _ "k1 # ks"]) simp
next
  assume ?R
  then obtain ks where "subseq ks keys" "list_all2 P (s # sigs) ks" by blast
  then show ?L by (intro exI [of _ ks]) (simp add: list_emb_Cons)
qed

lemma multisig_short:
  "length keys < length sigs \<Longrightarrow> \<not> (\<exists>ks. subseq ks keys \<and> list_all2 P sigs ks)"
  using list_emb_length list_all2_lengthD by fastforce

text \<open>\<open>OP_CHECKMULTISIG\<close> decides the m-of-n contract: when the encoding checks pass, its matching
  loop returns true exactly when the signatures, in order, are valid for some subsequence of the
  public keys, so that no key is used twice.\<close>

theorem multisig_loop_correct:
  assumes "\<forall>sig \<in> set sigs. \<forall>pk \<in> set keys. check_encodings env sig pk = None"
  shows "multisig_loop env code sigs keys = Inr (\<exists>ks. subseq ks keys \<and>
    list_all2 (\<lambda>sig pk. CheckSig (ee_checker env) sig pk code (ee_sigversion env)) sigs ks)"
  using assms
proof (induction env code sigs keys rule: multisig_loop.induct)
  case (1 env code keys)
  then show ?case by simp
next
  case (2 env code s sigs k keys)
  let ?P = "\<lambda>sig pk. CheckSig (ee_checker env) sig pk code (ee_sigversion env)"
  have c: "check_encodings env s k = None" using "2.prems" by simp
  define sigs' where "sigs' = (if ?P s k then sigs else s # sigs)"
  have eq: "(\<exists>ks. subseq ks (k # keys) \<and> list_all2 ?P (s # sigs) ks) \<longleftrightarrow>
      (\<exists>ks. subseq ks keys \<and> list_all2 ?P sigs' ks)"
    using multisig_step [of ?P s k keys sigs] multisig_skip [of ?P s k keys sigs]
    by (simp add: sigs'_def)
  have run: "multisig_loop env code (s # sigs) (k # keys) =
      (if length sigs' > length keys then Inr False else multisig_loop env code sigs' keys)"
    by (simp add: c sigs'_def Let_def)
  have sub: "\<forall>sig \<in> set sigs'. \<forall>pk \<in> set keys. check_encodings env sig pk = None"
    using "2.prems" by (auto simp: sigs'_def)
  show ?case
  proof (cases "length sigs' > length keys")
    case True
    then show ?thesis using multisig_short [OF True, of ?P] by (simp only: run eq if_True)
  next
    case False
    have ih: "multisig_loop env code sigs' keys = Inr (\<exists>ks. subseq ks keys \<and> list_all2 ?P sigs' ks)"
      using "2.IH" [OF c refl] False sub by (simp add: sigs'_def)
    then show ?thesis using False by (simp only: run eq if_False)
  qed
next
  case (3 env code s sigs)
  then show ?case by (auto simp: list_all2_Cons1)
qed

lemma multisig_loop_correct_witness:
  "multisig_loop (sample_env 0) [] [[7], [9]] [[7], [8], [9]] = Inr True"
proof -
  have c: "\<forall>sig \<in> set [[7], [9]]. \<forall>pk \<in> set [[7], [8], [9]]. check_encodings (sample_env 0) sig pk = None"
    by code_simp
  have "\<exists>ks. subseq ks [[7], [8], [9 :: byte]] \<and>
      list_all2 (\<lambda>sig pk. CheckSig (ee_checker (sample_env 0)) sig pk [] (ee_sigversion (sample_env 0)))
        [[7], [9]] ks"
    by (rule exI [of _ "[[7], [9]]"]) (simp add: sample_env_def sample_checker_def)
  then show ?thesis by (simp only: multisig_loop_correct [OF c])
qed

section \<open>Pay to public key hash\<close>

text \<open>\<open>CScriptVisitor::operator()(const CKeyID&)\<close> of src/src/script/standard.cpp.\<close>

definition CScriptVisitor_keyID :: "bytes \<Rightarrow> bytes" where
  "CScriptVisitor_keyID keyID =
     push_opcode (push_opcode (push_data (push_opcode (push_opcode [] OP_DUP) OP_HASH160) keyID)
       OP_EQUALVERIFY) OP_CHECKSIG"

lemma CScriptVisitor_keyID_eq:
  "length h = 20 \<Longrightarrow> CScriptVisitor_keyID h = 0x76 # 0xa9 # 20 # h @ [0x88, 0xac]"
  by (simp add: CScriptVisitor_keyID_def push_opcode_def push_data_def opcode_defs)

lemma eval_loop_Cons:
  "pc \<noteq> [] \<Longrightarrow> eval_loop env pc st = (case eval_step env pc st of Inl e \<Rightarrow> Inl e
     | Inr (pc', st') \<Rightarrow> eval_loop env pc' st')"
  by (simp add: eval_loop.simps [of env pc])

definition size_check :: "bytes \<Rightarrow> script_error + eval_state \<Rightarrow> script_error + bytes \<times> eval_state" where
  "size_check r x = (case x of Inl e \<Rightarrow> Inl e
     | Inr st \<Rightarrow> if length (stack st) + length (altstack st) > 1000
                then Inl SCRIPT_ERR_STACK_SIZE else Inr (r, st))"

lemma eval_step_op:
  assumes "OP_16 < unat b" and "unat b \<notin> set disabled_opcodes" and "nOpCount st < MAX_OPS_PER_SCRIPT"
    and "False \<notin> set (vfExec st)"
  shows "eval_step env (b # r) st =
    size_check r (eval_switch env True r (unat b) (st\<lparr>nOpCount := nOpCount st + 1\<rparr>))"
proof -
  have "\<not> unat b \<le> OP_PUSHDATA4" using assms(1) by (simp add: opcode_defs)
  moreover from this have "GetOp2 (b # r) = (True, unat b, [], r)" by (simp add: GetOp2_def)
  ultimately show ?thesis
    using assms by (simp add: eval_step_def Let_def exec_instr_def size_check_def)
qed

lemma eval_step_push:
  assumes "1 < length d" and "length d \<le> 75" and "False \<notin> set (vfExec st)"
  shows "eval_step env (of_nat (length d) # d @ r) st = size_check r (Inr (st\<lparr>stack := d # stack st\<rparr>))"
proof -
  have u: "unat (of_nat (length d) :: byte) = length d"
    using assms(2) by (simp add: unat_of_nat_byte)
  have g: "GetOp2 (of_nat (length d) # d @ r) = (True, length d, d, r)"
    using assms(2) by (simp add: GetOp2_def GetOp2_size_def u opcode_defs)
  have m: "CheckMinimalPush d (length d)" using assms(1,2) by (auto simp: CheckMinimalPush_def)
  have "length d \<notin> set disabled_opcodes" using assms(2) by (auto simp: disabled_opcodes_def opcode_defs)
  then show ?thesis
    using assms m
    by (simp add: eval_step_def g Let_def exec_instr_def size_check_def opcode_defs MAX_SCRIPT_ELEMENT_SIZE_def)
qed

lemma EvalScript_p2pkh_eq:
  assumes "length h = 20" and "length s \<le> 900"
  shows "EvalScript env (pk # sig # s) (CScriptVisitor_keyID h) =
    (if CHash160 (ee_hashes env) pk \<noteq> h then Inl SCRIPT_ERR_EQUALVERIFY
     else case check_encodings env sig pk of
       Some e \<Rightarrow> Inl e
     | None \<Rightarrow> Inr (bool_vch (CheckSig (ee_checker env) sig pk
         (drop_sig env (CScriptVisitor_keyID h) sig) (ee_sigversion env)) # s))"
proof -
  have push: "eval_step env (20 # h @ r) st = size_check r (Inr (st\<lparr>stack := h # stack st\<rparr>))"
    if "False \<notin> set (vfExec st)" for r st
    using eval_step_push [of h st env r] assms(1) that by simp
  have dup: "eval_step env (0x76 # r) st = size_check r (run_shuffle op_dup (st\<lparr>nOpCount := nOpCount st + 1\<rparr>))"
    and hash: "eval_step env (0xa9 # r) st = size_check r (op_hash env 0xa9 (st\<lparr>nOpCount := nOpCount st + 1\<rparr>))"
    and equal: "eval_step env (0x88 # r) st = size_check r (op_equal 0x88 (st\<lparr>nOpCount := nOpCount st + 1\<rparr>))"
    and csig: "eval_step env (0xac # r) st = size_check r (op_checksig env 0xac (st\<lparr>nOpCount := nOpCount st + 1\<rparr>))"
    if "False \<notin> set (vfExec st)" "nOpCount st < 201" for r st
    using that eval_step_op [where b = "0x76" and env = env and r = r and st = st]
      eval_step_op [where b = "0xa9" and env = env and r = r and st = st]
      eval_step_op [where b = "0x88" and env = env and r = r and st = st]
      eval_step_op [where b = "0xac" and env = env and r = r and st = st]
    by (simp_all add: eval_switch_def opcode_defs stack_shuffle_def disabled_opcodes_def MAX_OPS_PER_SCRIPT_def)
  have "length (CScriptVisitor_keyID h) \<le> 10000"
    using assms(1) by (simp add: CScriptVisitor_keyID_eq)
  then show ?thesis
    using assms(2)
    by (auto simp: EvalScript_def CScriptVisitor_keyID_eq [OF assms(1)] eval_loop_Cons push dup hash equal csig
        init_state_def run_shuffle_def op_hash_def op_equal_def op_checksig_def size_check_def Let_def
        hash_of_opcode_def opcode_defs eval_loop.simps [of env "[]"] split: option.splits)
qed

text \<open>The standard pay-to-public-key-hash script does what its name says: run on a signature and a
  public key, it fails with \<open>SCRIPT_ERR_EQUALVERIFY\<close> unless the key has the hash, fails with the
  encoding error when the signature or the key is badly encoded, and otherwise leaves the result of
  the signature check of the script (less the signature) on top of what was below.\<close>

theorem EvalScript_p2pkh:
  assumes "length h = 20" and "length s \<le> 900"
  shows "EvalScript env (pk # sig # s) (CScriptVisitor_keyID h) =
    (if CHash160 (ee_hashes env) pk \<noteq> h then Inl SCRIPT_ERR_EQUALVERIFY
     else case check_encodings env sig pk of
       Some e \<Rightarrow> Inl e
     | None \<Rightarrow> Inr (bool_vch (CheckSig (ee_checker env) sig pk
         (drop_sig env (CScriptVisitor_keyID h) sig) (ee_sigversion env)) # s))"
  using assms by (rule EvalScript_p2pkh_eq)

lemma EvalScript_p2pkh_witness:
  "EvalScript (sample_env 0) [[7], [7]] (CScriptVisitor_keyID (replicate 20 5)) = Inr [[1]]"
proof -
  have "check_encodings (sample_env 0) [7] [7] = None" by code_simp
  then show ?thesis
    using EvalScript_p2pkh [of "replicate 20 5" "[]" "sample_env 0" "[7]" "[7]"]
    by (simp add: sample_env_def sample_hashes_def sample_checker_def CHash160_def bool_vch_def vchTrue_def)
qed

end
