(* ===== verification/SoftFork.thy ===== *)
theory SoftFork
  imports InterpreterFacts
begin

text \<open>
  Verification flags only tighten.  src/src/script/interpreter.h marks most \<open>SCRIPT_VERIFY_*\<close> flags
  as "softfork safe": a script that is valid with the flag is valid without it, and leaves the same
  stack.  \<open>softfork_le f f'\<close> says that \<open>f\<close> drops flags of \<open>f'\<close>; the two NOPs that became
  \<open>OP_CHECKLOCKTIMEVERIFY\<close> and \<open>OP_CHECKSEQUENCEVERIFY\<close> must not be dropped alone while
  \<open>SCRIPT_VERIFY_DISCOURAGE_UPGRADABLE_NOPS\<close> stays, since the NOP itself is then an error.
\<close>

definition softfork_le :: "flags \<Rightarrow> flags \<Rightarrow> bool" where
  "softfork_le f f' \<longleftrightarrow> flags_le f f' \<and>
     (has_flag f SCRIPT_VERIFY_DISCOURAGE_UPGRADABLE_NOPS \<longrightarrow>
        (has_flag f' SCRIPT_VERIFY_CHECKLOCKTIMEVERIFY \<longrightarrow> has_flag f SCRIPT_VERIFY_CHECKLOCKTIMEVERIFY) \<and>
        (has_flag f' SCRIPT_VERIFY_CHECKSEQUENCEVERIFY \<longrightarrow> has_flag f SCRIPT_VERIFY_CHECKSEQUENCEVERIFY))"

lemma softfork_le_flag: "softfork_le f f' \<Longrightarrow> has_flag f g \<Longrightarrow> has_flag f' g"
  unfolding softfork_le_def by (auto dest: has_flag_mono)

lemma softfork_le_refl [simp]: "softfork_le f f"
  by (simp add: softfork_le_def)

text \<open>The relation between a run under the strict flags and the run that drops some.\<close>

definition succ_rel :: "'e + 'a \<Rightarrow> 'e + 'a \<Rightarrow> bool" where
  "succ_rel strict lax \<longleftrightarrow> (\<forall>x. strict = Inr x \<longrightarrow> lax = Inr x)"

lemma succ_rel_refl [simp]: "succ_rel r r"
  by (simp add: succ_rel_def)

lemma succ_rel_Inl [simp]: "succ_rel (Inl e) r"
  by (simp add: succ_rel_def)

lemma succ_rel_case:
  assumes "succ_rel r r'" and "\<And>x. succ_rel (g x) (g' x)"
  shows "succ_rel (case r of Inl e \<Rightarrow> Inl e | Inr x \<Rightarrow> g x) (case r' of Inl e \<Rightarrow> Inl e | Inr x \<Rightarrow> g' x)"
  using assms by (cases r) (auto simp: succ_rel_def)

lemma succ_rel_if:
  "(\<not> b \<Longrightarrow> succ_rel x y) \<Longrightarrow> succ_rel (if b then Inl e else x) (if b then Inl e else y)"
  by simp

abbreviation with_flags :: "eval_env \<Rightarrow> flags \<Rightarrow> eval_env" where
  "with_flags env f \<equiv> env\<lparr>ee_flags := f\<rparr>"

lemma stacknum_softfork:
  "softfork_le f f' \<Longrightarrow> succ_rel (stacknum (with_flags env f') n vch) (stacknum (with_flags env f) n vch)"
  using softfork_le_flag [of f f' SCRIPT_VERIFY_MINIMALDATA]
  by (auto simp: stacknum_def succ_rel_def CScriptNum_of_vch_def)

lemma check_encodings_softfork:
  assumes "softfork_le f f'" and "check_encodings (with_flags env f') sig pk = None"
  shows "check_encodings (with_flags env f) sig pk = None"
proof -
  have "flags_le f f'" using assms(1) by (simp add: softfork_le_def)
  then show ?thesis
    using assms(2) CheckSignatureEncoding_mono CheckPubKeyEncoding_mono
    by (auto simp: check_encodings_def split: option.splits)
qed

lemma multisig_loop_softfork:
  assumes "softfork_le f f'"
  shows "succ_rel (multisig_loop (with_flags env f') code sigs keys)
           (multisig_loop (with_flags env f) code sigs keys)"
proof (induction "with_flags env f'" code sigs keys rule: multisig_loop.induct)
  case (2 code sig sigs pk keys)
  show ?case
  proof (cases "check_encodings (with_flags env f') sig pk")
    case None
    then show ?thesis
      using 2 [OF None refl refl] check_encodings_softfork [OF assms None]
      by (simp add: Let_def)
  next
    case (Some e)
    then show ?thesis by simp
  qed
qed simp_all

lemma multisig_args_softfork:
  assumes "softfork_le f f'"
  shows "succ_rel (multisig_args (with_flags env f') st) (multisig_args (with_flags env f) st)"
  unfolding multisig_args_def Let_def
  by (intro succ_rel_if succ_rel_case stacknum_softfork assms) simp_all

lemma op_cltv_softfork:
  assumes "softfork_le f f'"
  shows "succ_rel (op_checklocktimeverify (with_flags env f') st) (op_checklocktimeverify (with_flags env f) st)"
proof -
  have n: "stacknum (with_flags env f') 5 v = Inr x \<Longrightarrow> stacknum (with_flags env f) 5 v = Inr x" for v x
    using stacknum_softfork [OF assms] by (auto simp: succ_rel_def)
  show ?thesis
    using assms softfork_le_flag [OF assms]
    by (auto simp: succ_rel_def op_checklocktimeverify_def softfork_le_def dest: n
        split: if_splits list.splits sum.splits)
qed

lemma op_csv_softfork:
  assumes "softfork_le f f'"
  shows "succ_rel (op_checksequenceverify (with_flags env f') st) (op_checksequenceverify (with_flags env f) st)"
proof -
  have n: "stacknum (with_flags env f') 5 v = Inr x \<Longrightarrow> stacknum (with_flags env f) 5 v = Inr x" for v x
    using stacknum_softfork [OF assms] by (auto simp: succ_rel_def)
  show ?thesis
    using assms softfork_le_flag [OF assms]
    by (auto simp: succ_rel_def op_checksequenceverify_def softfork_le_def dest: n
        split: if_splits list.splits sum.splits)
qed

lemma op_checksig_softfork:
  assumes "softfork_le f f'"
  shows "succ_rel (op_checksig (with_flags env f') opcode st) (op_checksig (with_flags env f) opcode st)"
  using check_encodings_softfork [OF assms, of env]
  by (auto simp: succ_rel_def op_checksig_def drop_sig_def Let_def split: list.splits option.splits)

lemma op_checkmultisig_softfork:
  assumes "softfork_le f f'"
  shows "succ_rel (op_checkmultisig (with_flags env f') opcode st) (op_checkmultisig (with_flags env f) opcode st)"
proof (cases "multisig_args (with_flags env f') st")
  case (Inl e)
  then show ?thesis by (simp add: op_checkmultisig_def)
next
  case (Inr r)
  obtain sigs keys nOps rest where r: "r = (sigs, keys, nOps, rest)" by (cases r)
  have a: "multisig_args (with_flags env f) st = Inr (sigs, keys, nOps, rest)"
    using multisig_args_softfork [OF assms, of env st] Inr r by (simp add: succ_rel_def)
  have d: "drop_sig (with_flags env f') = drop_sig (with_flags env f)"
    by (intro ext) (simp add: drop_sig_def)
  show ?thesis
    using softfork_le_flag [OF assms, of SCRIPT_VERIFY_NULLDUMMY]
    by (auto simp: op_checkmultisig_def Inr r a d Let_def split: list.split
        intro!: succ_rel_case multisig_loop_softfork [OF assms])
qed

lemma binary_softfork:
  assumes "softfork_le f f'"
  shows "succ_rel (op_binary (with_flags env f') opcode st) (op_binary (with_flags env f) opcode st)"
  unfolding op_binary_def
  by (auto split: list.split intro!: succ_rel_case stacknum_softfork assms)

lemma within_softfork:
  assumes "softfork_le f f'"
  shows "succ_rel (op_within (with_flags env f') st) (op_within (with_flags env f) st)"
  unfolding op_within_def
  by (auto split: list.split intro!: succ_rel_case stacknum_softfork assms)

lemma eval_switch_softfork:
  assumes "softfork_le f f'"
  shows "succ_rel (eval_switch (with_flags env f') fExec pc' opcode st)
           (eval_switch (with_flags env f) fExec pc' opcode st)"
proof (rule eval_switch_rel [where Q = succ_rel], goal_cases)
  case 4 show ?case by (rule op_cltv_softfork [OF assms])
next
  case 5 show ?case by (rule op_csv_softfork [OF assms])
next
  case 6 show ?case using softfork_le_flag [OF assms] by (auto simp: op_nop_n_def)
next
  case 14 show ?case
    unfolding op_pick_roll_def
    by (auto split: list.split intro!: succ_rel_case stacknum_softfork assms)
next
  case 17 show ?case
    unfolding op_unary_def
    by (auto split: list.split intro!: succ_rel_case stacknum_softfork assms)
next
  case 18 show ?case by (rule binary_softfork [OF assms])
next
  case 19 show ?case by (rule within_softfork [OF assms])
next
  case 20 show ?case by (simp add: op_hash_def split: list.split)
next
  case 22 show ?case by (rule op_checksig_softfork [OF assms])
next
  case 23 show ?case by (rule op_checkmultisig_softfork [OF assms])
qed simp_all

lemma eval_step_softfork:
  assumes "softfork_le f f'"
  shows "succ_rel (eval_step (with_flags env f') pc st) (eval_step (with_flags env f) pc st)"
proof -
  have "succ_rel (exec_instr (with_flags env f') op d pc' s) (exec_instr (with_flags env f) op d pc' s)"
    for op d pc' s
    using eval_switch_softfork [OF assms] softfork_le_flag [OF assms, of SCRIPT_VERIFY_MINIMALDATA]
    by (auto simp: exec_instr_def Let_def)
  then show ?thesis
    unfolding eval_step_def Let_def
    by (auto split: prod.split intro!: succ_rel_case)
qed

lemma eval_loop_softfork:
  assumes "softfork_le f f'"
  shows "succ_rel (eval_loop (with_flags env f') pc st) (eval_loop (with_flags env f) pc st)"
proof (induction "with_flags env f'" pc st rule: eval_loop.induct)
  case (1 pc st)
  show ?case
  proof (cases "pc = []")
    case False
    show ?thesis
    proof (cases "eval_step (with_flags env f') pc st")
      case (Inr r)
      moreover have "eval_step (with_flags env f) pc st = Inr r"
        using eval_step_softfork [OF assms, of env pc st] Inr by (simp add: succ_rel_def)
      ultimately show ?thesis
        using 1 [OF False Inr] False
        by (cases r) (simp add: eval_loop.simps [of _ pc st])
    qed (simp add: eval_loop.simps [of _ pc st] False)
  qed (simp add: eval_loop.simps [of _ "[]" st])
qed

lemma EvalScript_succ_rel:
  assumes "softfork_le f f'"
  shows "succ_rel (EvalScript (with_flags env f') s script) (EvalScript (with_flags env f) s script)"
  unfolding EvalScript_def
  by (intro succ_rel_if succ_rel_case eval_loop_softfork assms) simp

text \<open>Dropping verification flags keeps every successful evaluation and its final stack: if
  \<open>EvalScript\<close> succeeds under the flags \<open>f'\<close>, it succeeds under \<open>f\<close> with the same stack.\<close>

theorem EvalScript_softfork:
  assumes "softfork_le f f'" and "EvalScript (with_flags env f') s script = Inr s'"
  shows "EvalScript (with_flags env f) s script = Inr s'"
  using EvalScript_succ_rel [OF assms(1)] assms(2) by (simp add: succ_rel_def)

lemma EvalScript_softfork_witness:
  "EvalScript (with_flags (sample_env 0) 0) [] [0x52, 0x53, 0x93] = Inr [[5]]"
proof -
  have "softfork_le 0 SCRIPT_VERIFY_MINIMALDATA" by code_simp
  moreover have "EvalScript (with_flags (sample_env 0) SCRIPT_VERIFY_MINIMALDATA) [] [0x52, 0x53, 0x93] = Inr [[5]]"
    by code_simp
  ultimately show ?thesis by (rule EvalScript_softfork)
qed

end
