(* ===== verification/SigHash.thy ===== *)
theory SigHash
  imports Tx InterpreterFacts
begin

text \<open>
  Signature hashes and the transaction signature checker (src/src/script/interpreter.cpp, lines 1038
  to 1347, and the public key container of src/src/pubkey.h).  The elliptic curve verification of
  \<open>CPubKey::Verify\<close> (secp256k1 or OpenSSL) is the parameter \<open>ec_verify\<close>.
\<close>

section \<open>CTransactionSignatureSerializer\<close>

definition hash_single :: "nat \<Rightarrow> bool" where
  "hash_single nHashType \<longleftrightarrow> nHashType AND 0x1f = SIGHASH_SINGLE"

definition hash_none :: "nat \<Rightarrow> bool" where
  "hash_none nHashType \<longleftrightarrow> nHashType AND 0x1f = SIGHASH_NONE"

definition anyone_can_pay :: "nat \<Rightarrow> bool" where
  "anyone_can_pay nHashType \<longleftrightarrow> nHashType AND SIGHASH_ANYONECANPAY \<noteq> 0"

function count_codesep :: "bytes \<Rightarrow> nat" where
  "count_codesep pc =
     (case GetOp2 pc of (ok, opcode, data, pc') \<Rightarrow>
        if ok then (if opcode = OP_CODESEPARATOR then 1 else 0) + count_codesep pc' else 0)"
  by pat_completeness auto
termination by (relation "measure length") (auto dest!: sym [of _ "GetOp2 _"])

declare count_codesep.simps [simp del]

text \<open>The second loop of \<open>SerializeScriptCode\<close>: \<open>itBegin\<close> and \<open>it\<close> are suffixes of the script.\<close>

function write_code :: "bytes \<Rightarrow> bytes \<Rightarrow> bytes" where
  "write_code itBegin pc =
     (case GetOp2 pc of (ok, opcode, data, pc') \<Rightarrow>
        if ok then
          (if opcode = OP_CODESEPARATOR
           then take (length itBegin - length pc' - 1) itBegin @ write_code pc' pc'
           else write_code itBegin pc')
        else if itBegin \<noteq> [] then take (length itBegin - length pc') itBegin else [])"
  by pat_completeness auto
termination by (relation "measure (\<lambda>(b, pc). length pc)") (auto dest!: sym [of _ "GetOp2 _"])

declare write_code.simps [simp del]

definition SerializeScriptCode :: "bytes \<Rightarrow> bytes" where
  "SerializeScriptCode scriptCode =
     WriteCompactSize (length scriptCode - count_codesep scriptCode) @ write_code scriptCode scriptCode"

definition SerializeInput :: "CTransaction \<Rightarrow> bytes \<Rightarrow> nat \<Rightarrow> nat \<Rightarrow> nat \<Rightarrow> bytes" where
  "SerializeInput txTo scriptCode nIn nHashType nInput0 =
     (let nInput = (if anyone_can_pay nHashType then nIn else nInput0) in
      ser_COutPoint (prevout (vin txTo ! nInput)) @
      (if nInput \<noteq> nIn then Serialize_bytes [] else SerializeScriptCode scriptCode) @
      (if nInput \<noteq> nIn \<and> (hash_single nHashType \<or> hash_none nHashType)
       then WRITESIGNED 4 0 else ser_word 4 (nSequence (vin txTo ! nInput))))"

definition SerializeOutput :: "CTransaction \<Rightarrow> nat \<Rightarrow> nat \<Rightarrow> nat \<Rightarrow> bytes" where
  "SerializeOutput txTo nIn nHashType nOutput =
     (if hash_single nHashType \<and> nOutput \<noteq> nIn then ser_CTxOut CTxOut_null
      else ser_CTxOut (vout txTo ! nOutput))"

definition Serialize_for_signature :: "CTransaction \<Rightarrow> bytes \<Rightarrow> nat \<Rightarrow> nat \<Rightarrow> bytes" where
  "Serialize_for_signature txTo scriptCode nIn nHashType =
     (let nInputs = (if anyone_can_pay nHashType then 1 else length (vin txTo));
          nOutputs = (if hash_none nHashType then 0
                      else if hash_single nHashType then nIn + 1 else length (vout txTo))
      in ser_word 4 (nVersion txTo) @
         WriteCompactSize nInputs @ concat (map (SerializeInput txTo scriptCode nIn nHashType) [0..<nInputs]) @
         WriteCompactSize nOutputs @ concat (map (SerializeOutput txTo nIn nHashType) [0..<nOutputs]) @
         ser_word 4 (nLockTime txTo))"

section \<open>SignatureHash\<close>

definition uint256_of :: "bytes \<Rightarrow> uint256" where
  "uint256_of h = of_nat (le_val h)"

definition GetHash :: "hashes \<Rightarrow> bytes \<Rightarrow> uint256" where
  "GetHash hs ss = uint256_of (CHash256 hs ss)"

definition hashPrevouts :: "hashes \<Rightarrow> CTransaction \<Rightarrow> nat \<Rightarrow> uint256" where
  "hashPrevouts hs txTo nHashType =
     (if \<not> anyone_can_pay nHashType
      then GetHash hs (concat (map (\<lambda>i. ser_COutPoint (prevout i)) (vin txTo))) else 0)"

definition hashSequence :: "hashes \<Rightarrow> CTransaction \<Rightarrow> nat \<Rightarrow> uint256" where
  "hashSequence hs txTo nHashType =
     (if \<not> anyone_can_pay nHashType \<and> \<not> hash_single nHashType \<and> \<not> hash_none nHashType
      then GetHash hs (concat (map (\<lambda>i. ser_word 4 (nSequence i)) (vin txTo))) else 0)"

definition hashOutputs :: "hashes \<Rightarrow> CTransaction \<Rightarrow> nat \<Rightarrow> nat \<Rightarrow> uint256" where
  "hashOutputs hs txTo nIn nHashType =
     (if \<not> hash_single nHashType \<and> \<not> hash_none nHashType
      then GetHash hs (concat (map ser_CTxOut (vout txTo)))
      else if hash_single nHashType \<and> nIn < length (vout txTo)
      then GetHash hs (ser_CTxOut (vout txTo ! nIn)) else 0)"

definition SignatureHash ::
  "hashes \<Rightarrow> bytes \<Rightarrow> CTransaction \<Rightarrow> nat \<Rightarrow> nat \<Rightarrow> int \<Rightarrow> SigVersion \<Rightarrow> uint256" where
  "SignatureHash hs scriptCode txTo nIn nHashType amount sigversion =
     (if sigversion = SIGVERSION_WITNESS_V0 then
        GetHash hs
          (ser_word 4 (nVersion txTo) @
           ser_word 32 (hashPrevouts hs txTo nHashType) @
           ser_word 32 (hashSequence hs txTo nHashType) @
           ser_COutPoint (prevout (vin txTo ! nIn)) @
           Serialize_bytes scriptCode @
           WRITESIGNED 8 amount @
           ser_word 4 (nSequence (vin txTo ! nIn)) @
           ser_word 32 (hashOutputs hs txTo nIn nHashType) @
           ser_word 4 (nLockTime txTo) @
           WRITEDATA 4 nHashType)
      else if nIn \<ge> length (vin txTo) then 1
      else if hash_single nHashType \<and> nIn \<ge> length (vout txTo) then 1
      else GetHash hs (Serialize_for_signature txTo scriptCode nIn nHashType @ WRITEDATA 4 nHashType))"

section \<open>CPubKey\<close>

definition GetLen :: "byte \<Rightarrow> nat" where
  "GetLen chHeader =
     (if chHeader = 2 \<or> chHeader = 3 then 33
      else if chHeader = 4 \<or> chHeader = 6 \<or> chHeader = 7 then 65 else 0)"

text \<open>The 65 byte buffer, of which only the first \<open>size()\<close> bytes count; \<open>Invalidate\<close> puts \<open>0xFF\<close> first.\<close>

definition CPubKey_Set :: "bytes \<Rightarrow> bytes" where
  "CPubKey_Set v =
     (let len = (if v = [] then 0 else GetLen (v ! 0))
      in if len \<noteq> 0 \<and> len = length v then v else [0xff])"

definition CPubKey_size :: "bytes \<Rightarrow> nat" where
  "CPubKey_size vch = GetLen (vch ! 0)"

definition CPubKey_IsValid :: "bytes \<Rightarrow> bool" where
  "CPubKey_IsValid vch \<longleftrightarrow> CPubKey_size vch > 0"

definition CPubKey_IsCompressed :: "bytes \<Rightarrow> bool" where
  "CPubKey_IsCompressed vch \<longleftrightarrow> CPubKey_size vch = 33"

type_synonym ec_verify = "bytes \<Rightarrow> uint256 \<Rightarrow> bytes \<Rightarrow> bool"

definition CPubKey_Verify :: "ec_verify \<Rightarrow> bytes \<Rightarrow> uint256 \<Rightarrow> bytes \<Rightarrow> bool" where
  "CPubKey_Verify ec pubkey hash vchSig \<longleftrightarrow>
     CPubKey_IsValid pubkey \<and> ec (take (CPubKey_size pubkey) pubkey) hash vchSig"

section \<open>TransactionSignatureChecker\<close>

definition LOCKTIME_THRESHOLD :: int where "LOCKTIME_THRESHOLD = 500000000"

definition TSC_CheckSig ::
  "hashes \<Rightarrow> ec_verify \<Rightarrow> CTransaction \<Rightarrow> nat \<Rightarrow> int \<Rightarrow> bytes \<Rightarrow> bytes \<Rightarrow> bytes \<Rightarrow> SigVersion \<Rightarrow> bool" where
  "TSC_CheckSig hs ec txTo nIn amount vchSigIn vchPubKey scriptCode sigversion =
     (let pubkey = CPubKey_Set vchPubKey in
      if \<not> CPubKey_IsValid pubkey then False
      else if vchSigIn = [] then False
      else
        let nHashType = unat (last vchSigIn);
            vchSig = butlast vchSigIn;
            sighash = SignatureHash hs scriptCode txTo nIn nHashType amount sigversion
        in CPubKey_Verify ec pubkey sighash vchSig)"

definition TSC_CheckLockTime :: "CTransaction \<Rightarrow> nat \<Rightarrow> int \<Rightarrow> bool" where
  "TSC_CheckLockTime txTo nIn nLock =
     (if \<not> ((uint (nLockTime txTo) < LOCKTIME_THRESHOLD \<and> nLock < LOCKTIME_THRESHOLD) \<or>
            (uint (nLockTime txTo) \<ge> LOCKTIME_THRESHOLD \<and> nLock \<ge> LOCKTIME_THRESHOLD)) then False
      else if nLock > uint (nLockTime txTo) then False
      else if CTxIn_IsFinal (vin txTo ! nIn) then False
      else True)"

definition SEQUENCE_LOCKTIME_TYPE_FLAG :: int where "SEQUENCE_LOCKTIME_TYPE_FLAG = 0x400000"
definition SEQUENCE_LOCKTIME_MASK :: int where "SEQUENCE_LOCKTIME_MASK = 0xffff"

definition TSC_CheckSequence :: "CTransaction \<Rightarrow> nat \<Rightarrow> int \<Rightarrow> bool" where
  "TSC_CheckSequence txTo nIn nSeq =
     (let txToSequence = uint (nSequence (vin txTo ! nIn)) in
      if uint (nVersion txTo) < 2 then False
      else if txToSequence AND SEQUENCE_LOCKTIME_DISABLE_FLAG \<noteq> 0 then False
      else
        let nLockTimeMask = SEQUENCE_LOCKTIME_TYPE_FLAG OR SEQUENCE_LOCKTIME_MASK;
            txToSequenceMasked = txToSequence AND nLockTimeMask;
            nSequenceMasked = nSeq AND nLockTimeMask
        in if \<not> ((txToSequenceMasked < SEQUENCE_LOCKTIME_TYPE_FLAG \<and> nSequenceMasked < SEQUENCE_LOCKTIME_TYPE_FLAG) \<or>
                 (txToSequenceMasked \<ge> SEQUENCE_LOCKTIME_TYPE_FLAG \<and> nSequenceMasked \<ge> SEQUENCE_LOCKTIME_TYPE_FLAG))
           then False
           else if nSequenceMasked > txToSequenceMasked then False
           else True)"

definition TransactionSignatureChecker :: "hashes \<Rightarrow> ec_verify \<Rightarrow> CTransaction \<Rightarrow> nat \<Rightarrow> int \<Rightarrow> checker" where
  "TransactionSignatureChecker hs ec txTo nIn amount =
     \<lparr>CheckSig = TSC_CheckSig hs ec txTo nIn amount,
      CheckLockTime = TSC_CheckLockTime txTo nIn,
      CheckSequence = TSC_CheckSequence txTo nIn\<rparr>"

section \<open>The script code that is signed\<close>

definition codesep :: bytes where "codesep = [0xab]"

lemma strip_codesep_Cons: "strip_prefix codesep (0xab # r) =
    (case strip_prefix codesep r of (n, r') \<Rightarrow> (Suc n, r'))"
  by (subst strip_prefix.simps) (simp add: codesep_def)

lemma strip_codesep_other: "pc = [] \<or> hd pc \<noteq> 0xab \<Longrightarrow> strip_prefix codesep pc = (0, pc)"
  by (subst strip_prefix.simps) (cases pc; auto simp: codesep_def)

lemma FindAndDelete_codesep_Cons:
  "FindAndDelete_loop codesep (0xab # r) =
    (Suc (fst (FindAndDelete_loop codesep r)), snd (FindAndDelete_loop codesep r))"
  by (subst (1 2 3) FindAndDelete_loop.simps)
    (simp add: strip_codesep_Cons split: prod.split)

lemma GetOp2_opcode_hd: "GetOp2 (b # pc) = (True, opcode, data, pc') \<Longrightarrow> opcode = unat b"
  by (auto simp: GetOp2_def Let_def split: option.splits if_splits)

lemma codesep_step:
  assumes "GetOp2 pc = (True, opcode, data, pc')" and "opcode \<noteq> OP_CODESEPARATOR"
  shows "FindAndDelete_loop codesep pc = (fst (FindAndDelete_loop codesep pc'),
      take (length pc - length pc') pc @ snd (FindAndDelete_loop codesep pc'))"
proof -
  obtain b r where pc: "pc = b # r" using assms(1) by (cases pc) auto
  have "b \<noteq> 0xab"
    using GetOp2_opcode_hd [of b r opcode data pc'] assms pc by (auto simp: opcode_defs)
  then have "strip_prefix codesep pc = (0, pc)" using pc by (intro strip_codesep_other) simp
  then show ?thesis
    using assms(1) by (subst FindAndDelete_loop.simps) (simp split: prod.split)
qed

lemma GetOp2_codesep:
  assumes "GetOp2 pc = (True, OP_CODESEPARATOR, data, pc')"
  shows "pc = 0xab # pc'"
proof -
  obtain b r where pc: "pc = b # r" using assms by (cases pc) auto
  have "unat b = 0xab" using GetOp2_opcode_hd [of b r] assms pc by (simp add: opcode_defs)
  then have "b = 0xab" by (simp add: word_unat_eq_iff)
  then show ?thesis using assms pc by (simp add: GetOp2_def opcode_defs)
qed

lemma GetOp2_take: "GetOp2 pc = (ok, opcode, data, pc') \<Longrightarrow> take (length pc - length pc') pc @ pc' = pc"
  by (drule GetOp2_suffix) auto

text \<open>The three loops over the script agree on a script that splits into instructions.\<close>

lemma codesep_loops:
  assumes "parse_script pc \<noteq> None"
  shows "write_code (pre @ pc) pc = pre @ snd (FindAndDelete_loop codesep pc) \<and>
    count_codesep pc = fst (FindAndDelete_loop codesep pc) \<and>
    length (snd (FindAndDelete_loop codesep pc)) + count_codesep pc = length pc"
  using assms
proof (induction "length pc" arbitrary: pc pre rule: less_induct)
  case less
  show ?case
  proof (cases "pc = []")
    case True
    have "strip_prefix codesep [] = (0, [])" by (rule strip_codesep_other) simp
    then have "FindAndDelete_loop codesep [] = (0, [])"
      by (subst FindAndDelete_loop.simps) simp
    then show ?thesis using True by (simp add: write_code.simps [of pre] count_codesep.simps [of "[]"])
  next
    case False
    then obtain opcode data pc' where g: "GetOp2 pc = (True, opcode, data, pc')"
      and p': "parse_script pc' \<noteq> None"
      using less.prems by (auto simp: parse_script.simps [of pc] split: if_splits prod.splits)
    have len: "length pc' < length pc" using g by auto
    note IH = less.hyps [OF len p']
    show ?thesis
    proof (cases "opcode = OP_CODESEPARATOR")
      case True
      then have pc: "pc = 0xab # pc'" using g GetOp2_codesep by simp
      have "write_code (pre @ pc) pc = pre @ write_code pc' pc'"
        using g True pc by (subst write_code.simps) simp
      moreover have "count_codesep pc = Suc (count_codesep pc')"
        using g True by (subst count_codesep.simps) simp
      ultimately show ?thesis using IH [of "[]"] by (simp add: pc FindAndDelete_codesep_Cons)
    next
      case False
      note tk = GetOp2_take [OF g]
      have "write_code (pre @ pc) pc = write_code (pre @ pc) pc'"
        using g False by (subst write_code.simps) simp
      then have w: "write_code (pre @ pc) pc = write_code ((pre @ take (length pc - length pc') pc) @ pc') pc'"
        using tk by simp
      have "count_codesep pc = count_codesep pc'"
        using g False by (subst count_codesep.simps) simp
      moreover have "length (take (length pc - length pc') pc) = length pc - length pc'" by simp
      ultimately show ?thesis
        using IH [of "pre @ take (length pc - length pc') pc"] codesep_step [OF g False] w len
        by (simp del: length_take, arith)
    qed
  qed
qed

lemma SerializeScriptCode_eq:
  assumes "parse_script code \<noteq> None"
  shows "SerializeScriptCode code = Serialize_bytes (snd (FindAndDelete code [0xab]))"
proof -
  note loops = codesep_loops [OF assms, of "[]"]
  then have "length code - count_codesep code = length (snd (FindAndDelete_loop codesep code))"
    by linarith
  then show ?thesis
    using loops by (simp add: SerializeScriptCode_def Serialize_bytes_def FindAndDelete_def codesep_def)
qed

section \<open>The reference signature transaction\<close>

text \<open>\<open>SignatureHashOld\<close> of src/src/test/sighash_tests.cpp builds a modified copy of the transaction and
  serializes it; the production code serializes in one pass without a copy.\<close>

definition SignatureHashOld_vin :: "CTransaction \<Rightarrow> bytes \<Rightarrow> nat \<Rightarrow> nat \<Rightarrow> CTxIn list" where
  "SignatureHashOld_vin txTo scriptCode nIn nHashType =
     (let blank = map (\<lambda>i. i\<lparr>scriptSig := []\<rparr>) (vin txTo);
          code = blank[nIn := (blank ! nIn)\<lparr>scriptSig := snd (FindAndDelete scriptCode [0xab])\<rparr>];
          others = (if hash_none nHashType \<or> hash_single nHashType
                    then map (\<lambda>(j, i). if j \<noteq> nIn then i\<lparr>nSequence := 0\<rparr> else i) (enumerate 0 code)
                    else code)
      in if anyone_can_pay nHashType then [others ! nIn] else others)"

definition SignatureHashOld_vout :: "CTransaction \<Rightarrow> nat \<Rightarrow> nat \<Rightarrow> CTxOut list" where
  "SignatureHashOld_vout txTo nIn nHashType =
     (if hash_none nHashType then []
      else if hash_single nHashType then replicate nIn CTxOut_null @ [vout txTo ! nIn]
      else vout txTo)"

definition SignatureHashOld_tx :: "CTransaction \<Rightarrow> bytes \<Rightarrow> nat \<Rightarrow> nat \<Rightarrow> CTransaction" where
  "SignatureHashOld_tx txTo scriptCode nIn nHashType =
     txTo\<lparr>vin := SignatureHashOld_vin txTo scriptCode nIn nHashType,
          vout := SignatureHashOld_vout txTo nIn nHashType\<rparr>"

lemma Old_vin_nth:
  assumes "j < length (vin txTo)" "nIn < length (vin txTo)" "\<not> anyone_can_pay ht"
  shows "SignatureHashOld_vin txTo code nIn ht ! j = (vin txTo ! j)
    \<lparr>scriptSig := (if j = nIn then snd (FindAndDelete code [0xab]) else []),
     nSequence := (if j \<noteq> nIn \<and> (hash_none ht \<or> hash_single ht) then 0 else nSequence (vin txTo ! j))\<rparr>"
  using assms by (auto simp: SignatureHashOld_vin_def Let_def nth_enumerate_eq nth_list_update)

lemma length_Old_vin:
  "\<not> anyone_can_pay ht \<Longrightarrow> length (SignatureHashOld_vin txTo code nIn ht) = length (vin txTo)"
  by (simp add: SignatureHashOld_vin_def Let_def)

lemma Old_vin_acp:
  assumes "nIn < length (vin txTo)" "anyone_can_pay ht"
  shows "SignatureHashOld_vin txTo code nIn ht = [(vin txTo ! nIn)\<lparr>scriptSig := snd (FindAndDelete code [0xab])\<rparr>]"
  using assms by (auto simp: SignatureHashOld_vin_def Let_def nth_enumerate_eq nth_list_update)

lemma zero_seq: "WRITESIGNED 4 0 = ser_word 4 (0 :: 32 word)"
  by (simp add: WRITESIGNED_def ser_word_def of_signed_def)

lemma Serialize_inputs_eq:
  assumes "nIn < length (vin txTo)" and "parse_script code \<noteq> None"
  shows "(let n = (if anyone_can_pay ht then 1 else length (vin txTo)) in
      WriteCompactSize n @ concat (map (SerializeInput txTo code nIn ht) [0..<n])) =
    Serialize_vector ser_CTxIn (SignatureHashOld_vin txTo code nIn ht)"
proof (cases "anyone_can_pay ht")
  case True
  then show ?thesis
    using assms by (simp add: Old_vin_acp Serialize_vector_def SerializeInput_def ser_CTxIn_def
        SerializeScriptCode_eq)
next
  case False
  have "map (SerializeInput txTo code nIn ht) [0..<length (vin txTo)] =
      map ser_CTxIn (SignatureHashOld_vin txTo code nIn ht)"
  proof (rule nth_equalityI)
    fix j assume "j < length (map (SerializeInput txTo code nIn ht) [0..<length (vin txTo)])"
    then have "j < length (vin txTo)" by simp
    then show "map (SerializeInput txTo code nIn ht) [0..<length (vin txTo)] ! j =
        map ser_CTxIn (SignatureHashOld_vin txTo code nIn ht) ! j"
      using False assms
      by (simp add: length_Old_vin Old_vin_nth SerializeInput_def ser_CTxIn_def SerializeScriptCode_eq zero_seq
          disj_commute)
  qed (simp add: length_Old_vin False)
  then show ?thesis using False by (simp add: Serialize_vector_def length_Old_vin)
qed

lemma Serialize_outputs_eq:
  assumes "hash_single ht \<longrightarrow> nIn < length (vout txTo)"
  shows "(let n = (if hash_none ht then 0 else if hash_single ht then nIn + 1 else length (vout txTo)) in
      WriteCompactSize n @ concat (map (SerializeOutput txTo nIn ht) [0..<n])) =
    Serialize_vector ser_CTxOut (SignatureHashOld_vout txTo nIn ht)"
proof -
  have ns: "hash_none ht \<Longrightarrow> \<not> hash_single ht" by (simp add: hash_none_def hash_single_def SIGHASH_NONE_def SIGHASH_SINGLE_def)
  have 1: "map (SerializeOutput txTo nIn ht) [0..<nIn] = map ser_CTxOut (replicate nIn CTxOut_null)" if "hash_single ht"
    by (rule nth_equalityI) (simp_all add: SerializeOutput_def that)
  have 2: "map (SerializeOutput txTo nIn ht) [0..<length (vout txTo)] = map ser_CTxOut (vout txTo)" if "\<not> hash_single ht"
    by (rule nth_equalityI) (simp_all add: SerializeOutput_def that)
  show ?thesis
    using ns 1 2 by (auto simp: SignatureHashOld_vout_def Serialize_vector_def SerializeOutput_def simp del: map_replicate)
qed

lemma Serialize_for_signature_eq:
  assumes "nIn < length (vin txTo)" and "hash_single ht \<longrightarrow> nIn < length (vout txTo)"
    and "parse_script code \<noteq> None"
  shows "Serialize_for_signature txTo code nIn ht = write_tx False (SignatureHashOld_tx txTo code nIn ht)"
  using Serialize_inputs_eq [OF assms(1,3), of ht] Serialize_outputs_eq [OF assms(2)]
  by (simp add: Serialize_for_signature_def write_tx_def SignatureHashOld_tx_def Let_def)

text \<open>C30: The one pass serializer of the signature hash writes exactly what the reference algorithm of
  the test suite writes: the serialization of the modified copy of the transaction, with the code
  separators deleted from the script code.  This holds for every transaction and hash type when the input number is in range, for
  \<open>SIGHASH_SINGLE\<close> there is an output with that number, and the script code parses to its end; in the first two cases \<open>SignatureHash\<close>
  answers the hash one without serializing.\<close>

theorem Serialize_for_signature_reference:
  assumes "nIn < length (vin txTo)" and "hash_single ht \<longrightarrow> nIn < length (vout txTo)"
    and "parse_script code \<noteq> None"
  shows "Serialize_for_signature txTo code nIn ht = write_tx False (SignatureHashOld_tx txTo code nIn ht)"
  using assms by (rule Serialize_for_signature_eq)

lemma Serialize_for_signature_reference_witness:
  "Serialize_for_signature sample_tx [0x51, 0xab, 0xac] 0 1 =
    write_tx False (SignatureHashOld_tx sample_tx [0x51, 0xab, 0xac] 0 1)"
proof (rule Serialize_for_signature_reference)
  show "0 < length (vin sample_tx)" by (simp add: sample_tx_def)
  show "hash_single 1 \<longrightarrow> 0 < length (vout sample_tx)" by (simp add: sample_tx_def)
  show "parse_script [0x51, 0xab, 0xac] \<noteq> None" by code_simp
qed

section \<open>What a signature commits to\<close>

text \<open>The fields of a transaction that are serialized.\<close>

definition strip_mem :: "CTransaction \<Rightarrow> CTransaction" where
  "strip_mem tx = tx\<lparr>vin := map (\<lambda>i. i\<lparr>prevPubKey := []\<rparr>) (vin tx),
     vout := map (\<lambda>out. out\<lparr>nRounds := - 10\<rparr>) (vout tx)\<rparr>"

lemma write_tx_strip_mem: "write_tx fa (strip_mem tx) = write_tx fa tx"
proof -
  have "ser_CTxIn (i\<lparr>prevPubKey := []\<rparr>) = ser_CTxIn i" for i by (simp add: ser_CTxIn_def)
  moreover have "ser_CTxOut (out\<lparr>nRounds := - 10\<rparr>) = ser_CTxOut out" for out by (simp add: ser_CTxOut_def)
  ultimately show ?thesis by (simp add: write_tx_def strip_mem_def Serialize_vector_def Let_def o_def)
qed

definition plain_tx :: "CTransaction \<Rightarrow> bool" where
  "plain_tx tx \<longleftrightarrow> length (vin tx) \<le> MAX_SIZE \<and> length (vout tx) \<le> MAX_SIZE \<and>
     (\<forall>out \<in> set (vout tx). signed_ok 8 (nValue out) \<and> length (scriptPubKey out) \<le> MAX_SIZE)"

lemma Old_tx_ok:
  assumes "plain_tx tx" and "nIn < length (vin tx)" and "\<not> hash_none ht" "\<not> hash_single ht"
    and "\<not> anyone_can_pay ht" and "length (snd (FindAndDelete code [0xab])) \<le> MAX_SIZE" and "wit tx = []"
  shows "tx_ok False (strip_mem (SignatureHashOld_tx tx code nIn ht))"
proof -
  have "CTxIn_ok (i\<lparr>prevPubKey := []\<rparr>)" if i: "i \<in> set (SignatureHashOld_vin tx code nIn ht)" for i
  proof -
    obtain j where "j < length (vin tx)" "i = SignatureHashOld_vin tx code nIn ht ! j"
      using i assms(5) by (auto simp: in_set_conv_nth length_Old_vin)
    then show ?thesis using assms by (simp add: Old_vin_nth CTxIn_ok_def)
  qed
  moreover have "CTxOut_ok (out\<lparr>nRounds := - 10\<rparr>)" if "out \<in> set (vout tx)" for out
    using that assms(1) by (simp add: CTxOut_ok_def plain_tx_def)
  ultimately show ?thesis
    using assms by (auto simp: tx_ok_def strip_mem_def SignatureHashOld_tx_def SignatureHashOld_vout_def
        vector_ok_def plain_tx_def length_Old_vin)
qed

lemma Old_vin_fields:
  assumes "nIn < length (vin tx)" and "\<not> hash_none ht" "\<not> hash_single ht" "\<not> anyone_can_pay ht"
  shows "map prevout (SignatureHashOld_vin tx code nIn ht) = map prevout (vin tx)"
    and "map nSequence (SignatureHashOld_vin tx code nIn ht) = map nSequence (vin tx)"
    and "scriptSig (SignatureHashOld_vin tx code nIn ht ! nIn) = snd (FindAndDelete code [0xab])"
  using assms by (auto intro!: nth_equalityI simp: Old_vin_nth length_Old_vin)

lemma sighash_all_plain:
  assumes "plain_tx tx" "plain_tx tx'" and "nIn < length (vin tx)" "nIn < length (vin tx')"
    and "\<not> hash_none ht" "\<not> hash_single ht" "\<not> anyone_can_pay ht"
    and "parse_script code \<noteq> None" "parse_script code' \<noteq> None"
    and "length (snd (FindAndDelete code [0xab])) \<le> MAX_SIZE"
      "length (snd (FindAndDelete code' [0xab])) \<le> MAX_SIZE"
    and "Serialize_for_signature tx code nIn ht = Serialize_for_signature tx' code' nIn ht" and "wit tx = []" "wit tx' = []"
  shows "nVersion tx = nVersion tx' \<and> map prevout (vin tx) = map prevout (vin tx') \<and>
    map nSequence (vin tx) = map nSequence (vin tx') \<and> map nValue (vout tx) = map nValue (vout tx') \<and>
    map scriptPubKey (vout tx) = map scriptPubKey (vout tx') \<and> nLockTime tx = nLockTime tx' \<and>
    snd (FindAndDelete code [0xab]) = snd (FindAndDelete code' [0xab])"
proof -
  let ?S = "strip_mem (SignatureHashOld_tx tx code nIn ht)"
  let ?S' = "strip_mem (SignatureHashOld_tx tx' code' nIn ht)"
  have "write_tx False ?S @ [] = write_tx False ?S' @ []"
    using assms by (simp add: write_tx_strip_mem flip: Serialize_for_signature_eq)
  moreover have "tx_ok False ?S" "tx_ok False ?S'" using assms by (simp_all add: Old_tx_ok)
  ultimately have eq: "?S = ?S'" using tx.ser_inject by blast
  have vins: "map (\<lambda>i. i\<lparr>prevPubKey := []\<rparr>) (SignatureHashOld_vin tx code nIn ht) =
      map (\<lambda>i. i\<lparr>prevPubKey := []\<rparr>) (SignatureHashOld_vin tx' code' nIn ht)"
    and vouts: "map (\<lambda>out. out\<lparr>nRounds := - 10\<rparr>) (vout tx) = map (\<lambda>out. out\<lparr>nRounds := - 10\<rparr>) (vout tx')"
    and rest: "nVersion tx = nVersion tx'" "nLockTime tx = nLockTime tx'"
    using arg_cong [OF eq, of vin] arg_cong [OF eq, of vout] arg_cong [OF eq, of nVersion]
      arg_cong [OF eq, of nLockTime] assms(5,6)
    by (simp_all add: strip_mem_def SignatureHashOld_tx_def SignatureHashOld_vout_def)
  have f: "map f (SignatureHashOld_vin tx code nIn ht) = map f (SignatureHashOld_vin tx' code' nIn ht)"
    if "\<And>i. f (i\<lparr>prevPubKey := []\<rparr>) = f i" for f :: "CTxIn \<Rightarrow> 'x"
    using arg_cong [OF vins, of "map f"] that by (simp add: o_def)
  have g: "map f (vout tx) = map f (vout tx')" if "\<And>out. f (out\<lparr>nRounds := - 10\<rparr>) = f out" for f :: "CTxOut \<Rightarrow> 'x"
    using arg_cong [OF vouts, of "map f"] that by (simp add: o_def)
  have "map scriptSig (SignatureHashOld_vin tx code nIn ht) ! nIn =
      map scriptSig (SignatureHashOld_vin tx' code' nIn ht) ! nIn"
    using f [of scriptSig] by simp
  then show ?thesis
    using f [of prevout] f [of nSequence] g [of nValue] g [of scriptPubKey] rest assms
    by (simp add: Old_vin_fields length_Old_vin)
qed

text \<open>C37: A \<open>SIGHASH_ALL\<close> signature commits to the whole transaction but its witness.  Take two transactions of plain sizes (numbers of inputs
  and outputs, scripts and the two script codes within \<open>MAX_SIZE\<close>, amounts of 64 bits), two script codes that parse to their ends, and the same number
  of an existing input and hash type, without \<open>SIGHASH_NONE\<close>, \<open>SIGHASH_SINGLE\<close> or \<open>SIGHASH_ANYONECANPAY\<close>.  If they have the same
  serialization for signature, then they have the same version, the same outpoints and sequence
  numbers, the same outputs (value and script), the same lock time, and the same script code up to
  code separators.\<close>

theorem sighash_all_commits:
  assumes "plain_tx tx" "plain_tx tx'" and "nIn < length (vin tx)" "nIn < length (vin tx')"
    and "\<not> hash_none ht" "\<not> hash_single ht" "\<not> anyone_can_pay ht"
    and "parse_script code \<noteq> None" "parse_script code' \<noteq> None"
    and "length (snd (FindAndDelete code [0xab])) \<le> MAX_SIZE"
      "length (snd (FindAndDelete code' [0xab])) \<le> MAX_SIZE"
    and "Serialize_for_signature tx code nIn ht = Serialize_for_signature tx' code' nIn ht"
  shows "nVersion tx = nVersion tx' \<and> map prevout (vin tx) = map prevout (vin tx') \<and>
    map nSequence (vin tx) = map nSequence (vin tx') \<and> map nValue (vout tx) = map nValue (vout tx') \<and>
    map scriptPubKey (vout tx) = map scriptPubKey (vout tx') \<and> nLockTime tx = nLockTime tx' \<and>
    snd (FindAndDelete code [0xab]) = snd (FindAndDelete code' [0xab])"
proof -
  have w: "Serialize_for_signature (t\<lparr>wit := []\<rparr>) c nIn ht = Serialize_for_signature t c nIn ht" for t c
  proof -
    have "SerializeInput (t\<lparr>wit := []\<rparr>) c nIn ht = SerializeInput t c nIn ht" "SerializeOutput (t\<lparr>wit := []\<rparr>) nIn ht = SerializeOutput t nIn ht"
      by (intro ext, simp add: SerializeInput_def Let_def, intro ext, simp add: SerializeOutput_def)
    then show ?thesis by (simp add: Serialize_for_signature_def)
  qed
  have p: "plain_tx (t\<lparr>wit := []\<rparr>) = plain_tx t" for t by (simp add: plain_tx_def)
  show ?thesis using sighash_all_plain [of "tx\<lparr>wit := []\<rparr>" "tx'\<lparr>wit := []\<rparr>" nIn ht code code'] assms by (simp add: w p)
qed

lemma sighash_all_commits_witness:
  "snd (FindAndDelete [0x51, 0xab, 0xac] [0xab]) = snd (FindAndDelete [0x51, 0xac] [0xab :: byte])"
proof -
  have p: "plain_tx sample_tx" by (simp add: plain_tx_def sample_tx_def MAX_SIZE_def signed_ok_def)
  have n: "0 < length (vin sample_tx)" by (simp add: sample_tx_def)
  have h: "\<not> hash_none 1" "\<not> hash_single 1" "\<not> anyone_can_pay 1" by code_simp+
  have c: "parse_script [0x51, 0xab, 0xac] \<noteq> None" "parse_script [0x51, 0xac] \<noteq> None" by code_simp+
  have f: "FindAndDelete [0x51, 0xab, 0xac] [0xab] = (1, [0x51, 0xac])"
    "FindAndDelete [0x51, 0xac] [0xab] = (0, [0x51, 0xac])" by code_simp+
  then have l: "length (snd (FindAndDelete [0x51, 0xab, 0xac] [0xab])) \<le> MAX_SIZE"
    "length (snd (FindAndDelete [0x51, 0xac] [0xab])) \<le> MAX_SIZE" by (simp_all add: MAX_SIZE_def)
  have "Serialize_for_signature sample_tx [0x51, 0xab, 0xac] 0 1 = Serialize_for_signature sample_tx [0x51, 0xac] 0 1"
    using n h c f by (simp add: Serialize_for_signature_eq SignatureHashOld_tx_def SignatureHashOld_vin_def)
  from sighash_all_commits [OF p p n n h c l this] show ?thesis by blast
qed

text \<open>What the weakest hash type leaves open: a \<open>SIGHASH_NONE\<close> signature with
  \<open>SIGHASH_ANYONECANPAY\<close> signs only version, lock time, and the outpoint and sequence number of its
  own input; every output and every other input can change.\<close>

theorem sighash_none_anyonecanpay:
  assumes "hash_none ht" and "anyone_can_pay ht"
    and "nVersion tx = nVersion tx'" "nLockTime tx = nLockTime tx'"
    and "prevout (vin tx ! nIn) = prevout (vin tx' ! nIn)"
      "nSequence (vin tx ! nIn) = nSequence (vin tx' ! nIn)"
  shows "Serialize_for_signature tx code nIn ht = Serialize_for_signature tx' code nIn ht"
  using assms by (simp add: Serialize_for_signature_def Let_def SerializeInput_def)

lemma sighash_none_anyonecanpay_witness:
  "Serialize_for_signature sample_tx [0xac] 0 0x82 = Serialize_for_signature (sample_tx\<lparr>vout := []\<rparr>) [0xac] 0 0x82"
proof (rule sighash_none_anyonecanpay)
  show "hash_none 0x82" "anyone_can_pay 0x82" by code_simp+
qed simp_all

end
