(* ===== verification/VerifyScript.thy ===== *)
theory VerifyScript
  imports SoftFork SigHash
begin

text \<open>
  \<open>VerifyScript\<close>, witness programs and the count of witness signature operations
  (src/src/script/interpreter.cpp, lines 1349 to 1567).  A failing \<open>assert\<close> is
  \<open>Assert_failed\<close>, an error is \<open>Script_failed\<close> of the code stored in \<open>serror\<close>.  The evaluation
  stacks have their top first; a witness stack is in the order of the C++ vector, so \<open>back()\<close> is its
  last element and the evaluation starts from its reverse.
\<close>

datatype verify_fail = Assert_failed | Script_failed script_error

definition lift_error :: "script_error + 'a \<Rightarrow> verify_fail + 'a" where
  "lift_error r = (case r of Inl e \<Rightarrow> Inl (Script_failed e) | Inr x \<Rightarrow> Inr x)"

definition vbind :: "'e + 'a \<Rightarrow> ('a \<Rightarrow> 'e + 'b) \<Rightarrow> 'e + 'b" where
  "vbind r f = (case r of Inl e \<Rightarrow> Inl e | Inr x \<Rightarrow> f x)"

definition check :: "bool \<Rightarrow> script_error \<Rightarrow> verify_fail + unit" where
  "check b e = (if b then Inr () else Inl (Script_failed e))"

definition assertion :: "bool \<Rightarrow> verify_fail + unit" where
  "assertion b = (if b then Inr () else Inl Assert_failed)"

abbreviation env_flag :: "eval_env \<Rightarrow> flags \<Rightarrow> bool" where
  "env_flag env f \<equiv> has_flag (ee_flags env) f"

section \<open>Witness programs\<close>

text \<open>Choosing the script and the stack; \<open>None\<close> is the early success of a future version.\<close>

definition witness_script ::
  "eval_env \<Rightarrow> CScriptWitness \<Rightarrow> nat \<Rightarrow> bytes \<Rightarrow> script_error + (bytes list \<times> bytes) option" where
  "witness_script env witness witversion program =
     (if witversion = 0 then
        (if length program = 32 then
           (if length witness = 0 then Inl SCRIPT_ERR_WITNESS_PROGRAM_WITNESS_EMPTY
            else let spk = last witness in
              if h_SHA256 (ee_hashes env) spk \<noteq> program
              then Inl SCRIPT_ERR_WITNESS_PROGRAM_MISMATCH
              else Inr (Some (rev (butlast witness), spk)))
         else if length program = 20 then
           (if length witness \<noteq> 2 then Inl SCRIPT_ERR_WITNESS_PROGRAM_MISMATCH
            else Inr (Some (rev witness, CScriptVisitor_keyID program)))
         else Inl SCRIPT_ERR_WITNESS_PROGRAM_WRONG_LENGTH)
      else if env_flag env SCRIPT_VERIFY_DISCOURAGE_UPGRADABLE_WITNESS_PROGRAM
           then Inl SCRIPT_ERR_DISCOURAGE_UPGRADABLE_WITNESS_PROGRAM
      else Inr None)"

definition VerifyWitnessProgram ::
  "eval_env \<Rightarrow> CScriptWitness \<Rightarrow> nat \<Rightarrow> bytes \<Rightarrow> script_error + unit" where
  "VerifyWitnessProgram env witness witversion program =
     vbind (witness_script env witness witversion program) (\<lambda>r.
       case r of None \<Rightarrow> Inr ()
       | Some (s, script) \<Rightarrow>
           if \<not> list_all (\<lambda>v. length v \<le> MAX_SCRIPT_ELEMENT_SIZE) s then Inl SCRIPT_ERR_PUSH_SIZE
           else vbind (EvalScript (env\<lparr>ee_sigversion := SIGVERSION_WITNESS_V0\<rparr>) s script) (\<lambda>s'.
             case s' of [v] \<Rightarrow> if CastToBool v then Inr () else Inl SCRIPT_ERR_EVAL_FALSE
             | _ \<Rightarrow> Inl SCRIPT_ERR_EVAL_FALSE))"

section \<open>VerifyScript\<close>

text \<open>The evaluation of a script whose final stack must have a true top.\<close>

definition eval_true :: "eval_env \<Rightarrow> bytes list \<Rightarrow> bytes \<Rightarrow> verify_fail + bytes list" where
  "eval_true env s script =
     vbind (lift_error (EvalScript (env\<lparr>ee_sigversion := SIGVERSION_BASE\<rparr>) s script)) (\<lambda>s'.
       vbind (check (s' \<noteq> [] \<and> CastToBool (hd s')) SCRIPT_ERR_EVAL_FALSE) (\<lambda>_. Inr s'))"

text \<open>The two places where a witness program is recognised; the result is the stack and \<open>hadWitness\<close>.
  \<open>stack.resize(1)\<close> keeps the bottom element.\<close>

definition witness_part ::
  "eval_env \<Rightarrow> CScriptWitness \<Rightarrow> bytes \<Rightarrow> bool \<Rightarrow> script_error \<Rightarrow> bytes list \<times> bool \<Rightarrow>
   verify_fail + bytes list \<times> bool" where
  "witness_part env witness script sig_ok malleated st =
     (if env_flag env SCRIPT_VERIFY_WITNESS then
        (case IsWitnessProgram script of
           None \<Rightarrow> Inr st
         | Some (witversion, program) \<Rightarrow>
             vbind (check sig_ok malleated) (\<lambda>_.
             vbind (lift_error (VerifyWitnessProgram env witness witversion program)) (\<lambda>_.
             Inr ([last (fst st)], True))))
      else Inr st)"

definition p2sh_part ::
  "eval_env \<Rightarrow> bytes \<Rightarrow> bytes \<Rightarrow> CScriptWitness \<Rightarrow> bytes list \<Rightarrow> bytes list \<times> bool \<Rightarrow>
   verify_fail + bytes list \<times> bool" where
  "p2sh_part env ssig spk witness stackCopy st =
     (if env_flag env SCRIPT_VERIFY_P2SH \<and> IsPayToScriptHash spk then
        vbind (check (IsPushOnly ssig) SCRIPT_ERR_SIG_PUSHONLY) (\<lambda>_.
        vbind (assertion (stackCopy \<noteq> [])) (\<lambda>_.
        let pubKey2 = hd stackCopy in
        vbind (eval_true env (tl stackCopy) pubKey2) (\<lambda>s.
        witness_part env witness pubKey2 (ssig = push_data [] pubKey2)
          SCRIPT_ERR_WITNESS_MALLEATED_P2SH (s, snd st))))
      else Inr st)"

definition final_part :: "eval_env \<Rightarrow> CScriptWitness \<Rightarrow> bytes list \<times> bool \<Rightarrow> verify_fail + unit" where
  "final_part env witness st =
     vbind (if env_flag env SCRIPT_VERIFY_CLEANSTACK then
              vbind (assertion (env_flag env SCRIPT_VERIFY_P2SH)) (\<lambda>_.
              vbind (assertion (env_flag env SCRIPT_VERIFY_WITNESS)) (\<lambda>_.
              check (length (fst st) = 1) SCRIPT_ERR_CLEANSTACK))
            else Inr ()) (\<lambda>_.
     if env_flag env SCRIPT_VERIFY_WITNESS then
       vbind (assertion (env_flag env SCRIPT_VERIFY_P2SH)) (\<lambda>_.
       check (snd st \<or> CScriptWitness_IsNull witness) SCRIPT_ERR_WITNESS_UNEXPECTED)
     else Inr ())"

text \<open>A missing witness (\<open>NULL\<close>) is the empty one.  \<open>stackCopy\<close> is only filled under
  \<open>SCRIPT_VERIFY_P2SH\<close>.\<close>

definition VerifyScript ::
  "eval_env \<Rightarrow> bytes \<Rightarrow> bytes \<Rightarrow> CScriptWitness option \<Rightarrow> verify_fail + unit" where
  "VerifyScript env ssig spk witness0 =
     (let witness = (case witness0 of None \<Rightarrow> [] | Some w \<Rightarrow> w) in
      vbind (check (\<not> (env_flag env SCRIPT_VERIFY_SIGPUSHONLY \<and> \<not> IsPushOnly ssig))
               SCRIPT_ERR_SIG_PUSHONLY) (\<lambda>_.
      vbind (lift_error (EvalScript (env\<lparr>ee_sigversion := SIGVERSION_BASE\<rparr>) [] ssig)) (\<lambda>s0.
      let stackCopy = (if env_flag env SCRIPT_VERIFY_P2SH then s0 else []) in
      vbind (eval_true env s0 spk) (\<lambda>s1.
      vbind (witness_part env witness spk (length ssig = 0) SCRIPT_ERR_WITNESS_MALLEATED
               (s1, False)) (\<lambda>st2.
      vbind (p2sh_part env ssig spk witness stackCopy st2) (\<lambda>st3.
      final_part env witness st3))))))"

section \<open>Witness signature operations\<close>

definition WitnessSigOps :: "nat \<Rightarrow> bytes \<Rightarrow> CScriptWitness \<Rightarrow> nat" where
  "WitnessSigOps witversion witprogram witness =
     (if witversion = 0 then
        (if length witprogram = 20 then 1
         else if length witprogram = 32 \<and> length witness > 0 then GetSigOpCount True (last witness)
         else 0)
      else 0)"

text \<open>The last data pushed; the result of \<open>GetOp\<close> is not looked at.\<close>

function last_data :: "bytes \<Rightarrow> bytes \<Rightarrow> bytes" where
  "last_data data pc =
     (if pc = [] then data
      else case GetOp2 pc of (ok, opcode, data', pc') \<Rightarrow> last_data data' pc')"
  by pat_completeness auto
termination by (relation "measure (\<lambda>(d, pc). length pc)") (auto dest: GetOp2_measure)

declare last_data.simps [simp del]

definition CountWitnessSigOps ::
  "bytes \<Rightarrow> bytes \<Rightarrow> CScriptWitness option \<Rightarrow> flags \<Rightarrow> verify_fail + nat" where
  "CountWitnessSigOps ssig spk witness0 fl =
     (let witness = (case witness0 of None \<Rightarrow> [] | Some w \<Rightarrow> w) in
      if \<not> has_flag fl SCRIPT_VERIFY_WITNESS then Inr 0
      else vbind (assertion (has_flag fl SCRIPT_VERIFY_P2SH)) (\<lambda>_.
        case IsWitnessProgram spk of
          Some (v, prog) \<Rightarrow> Inr (WitnessSigOps v prog witness)
        | None \<Rightarrow>
            if IsPayToScriptHash spk \<and> IsPushOnly ssig then
              (case IsWitnessProgram (last_data [] ssig) of
                 Some (v, prog) \<Rightarrow> Inr (WitnessSigOps v prog witness)
               | None \<Rightarrow> Inr 0)
            else Inr 0))"

section \<open>Success, step by step\<close>

lemma vbind_eq_Inr: "vbind r f = Inr y \<longleftrightarrow> (\<exists>x. r = Inr x \<and> f x = Inr y)"
  by (auto simp: vbind_def split: sum.splits)

lemma check_eq_Inr: "check b e = Inr u \<longleftrightarrow> b"
  by (simp add: check_def)

lemma assertion_eq_Inr: "assertion b = Inr u \<longleftrightarrow> b"
  by (simp add: assertion_def)

lemma lift_error_eq_Inr: "lift_error r = Inr x \<longleftrightarrow> r = Inr x"
  by (simp add: lift_error_def split: sum.splits)

lemmas success_simps = vbind_eq_Inr check_eq_Inr assertion_eq_Inr lift_error_eq_Inr

section \<open>Pay to script hash\<close>

lemma IsPayToScriptHash_form:
  assumes "IsPayToScriptHash s"
  shows "\<exists>h. length h = 20 \<and> s = 0xa9 # 20 # h @ [0x87]"
proof -
  obtain b c r where s: "s = b # c # r" "length r = 21"
    using assms by (auto simp: IsPayToScriptHash_def length_Suc_conv eval_nat_numeral)
  then have "r \<noteq> []" by auto
  then have r: "r = butlast r @ [last r]" by (rule append_butlast_last_id [symmetric])
  have l: "length (butlast r) = 20" using s by simp
  have "last r = r ! 20" using r l by (metis nth_append_length)
  then have u: "unat b = 0xa9" "c = 20" "unat (last r) = 0x87"
    using assms s by (simp_all add: IsPayToScriptHash_def opcode_defs)
  have "b = 0xa9" "last r = 0x87" using u by (simp_all add: word_unat_eq_iff)
  then have "s = 0xa9 # 20 # butlast r @ [0x87]" using s u r by simp
  then show ?thesis using l by blast
qed

lemma EvalScript_p2sh:
  assumes "IsPayToScriptHash spk" and "EvalScript env s spk = Inr s'"
  shows "\<exists>x r. s = x # r \<and> s' = bool_vch (CHash160 (ee_hashes env) x = take 20 (drop 2 spk)) # r"
proof -
  obtain h where h: "length h = 20" "spk = 0xa9 # 20 # h @ [0x87]"
    using IsPayToScriptHash_form [OF assms(1)] by blast
  have push: "eval_step env (20 # h @ r) st = size_check r (Inr (st\<lparr>stack := h # stack st\<rparr>))"
    if "False \<notin> set (vfExec st)" for r st
    using eval_step_push [of h st env r] h(1) that by simp
  have hash: "eval_step env (0xa9 # r) st = size_check r (op_hash env 0xa9 (st\<lparr>nOpCount := nOpCount st + 1\<rparr>))"
    and equal: "eval_step env (0x87 # r) st = size_check r (op_equal 0x87 (st\<lparr>nOpCount := nOpCount st + 1\<rparr>))"
    if "False \<notin> set (vfExec st)" "nOpCount st < 201" for r st
    using that eval_step_op [where b = "0xa9" and env = env and r = r and st = st]
      eval_step_op [where b = "0x87" and env = env and r = r and st = st]
    by (simp_all add: eval_switch_def opcode_defs stack_shuffle_def disabled_opcodes_def MAX_OPS_PER_SCRIPT_def)
  have "length spk \<le> 10000" using h by simp
  then show ?thesis
    using h assms(2)
    by (cases s)
      (auto simp: EvalScript_def eval_loop_Cons push hash equal init_state_def op_hash_def op_equal_def
        size_check_def Let_def hash_of_opcode_def opcode_defs eval_loop.simps [of env "[]"]
        split: if_splits)
qed

lemma CastToBool_bool_vch [simp]: "CastToBool (bool_vch b) = b"
  by (cases b) (simp_all add: bool_vch_def vchTrue_def vchFalse_def)

lemma eval_true_Inr:
  "eval_true env s script = Inr s' \<longleftrightarrow>
    EvalScript (env\<lparr>ee_sigversion := SIGVERSION_BASE\<rparr>) s script = Inr s' \<and> s' \<noteq> [] \<and> CastToBool (hd s')"
  by (auto simp: eval_true_def success_simps)

abbreviation base_env :: "eval_env \<Rightarrow> eval_env" where
  "base_env env \<equiv> env\<lparr>ee_sigversion := SIGVERSION_BASE\<rparr>"

text \<open>C26: Under \<open>SCRIPT_VERIFY_P2SH\<close>, spending a pay-to-script-hash output requires the script with that hash: if \<open>VerifyScript\<close>
  accepts with that flag set, the \<open>scriptSig\<close> is push only, the last element it pushes is a script whose \<open>Hash160\<close> is the
  one in the output, and this script evaluates to true on the elements pushed before it.\<close>

theorem VerifyScript_p2sh_sound:
  assumes "VerifyScript env ssig spk w = Inr ()" and "IsPayToScriptHash spk"
    and "env_flag env SCRIPT_VERIFY_P2SH"
  shows "IsPushOnly ssig \<and> (\<exists>redeem s0 s'. EvalScript (base_env env) [] ssig = Inr (redeem # s0) \<and>
    CHash160 (ee_hashes env) redeem = take 20 (drop 2 spk) \<and>
    EvalScript (base_env env) s0 redeem = Inr s' \<and> s' \<noteq> [] \<and> CastToBool (hd s'))"
proof -
  obtain s0 s1 st2 st3 where s0: "EvalScript (base_env env) [] ssig = Inr s0"
    and s1: "eval_true env s0 spk = Inr s1"
    and p: "p2sh_part env ssig spk (case w of None \<Rightarrow> [] | Some w \<Rightarrow> w) s0 st2 = Inr st3"
    using assms(1,3) by (auto simp: VerifyScript_def Let_def success_simps)
  obtain x r where s0x: "s0 = x # r" and "s1 = bool_vch (CHash160 (ee_hashes env) x = take 20 (drop 2 spk)) # r"
    using EvalScript_p2sh [OF assms(2), of "base_env env" s0 s1] s1 by (auto simp: eval_true_Inr)
  then have "CHash160 (ee_hashes env) x = take 20 (drop 2 spk)" using s1 by (simp add: eval_true_Inr)
  moreover obtain s' where "IsPushOnly ssig" "eval_true env r x = Inr s'"
    using p assms(2,3) s0x by (auto simp: p2sh_part_def Let_def success_simps)
  ultimately show ?thesis using s0 s0x by (auto simp: eval_true_Inr)
qed

lemma VerifyScript_p2sh_sound_witness:
  "\<exists>redeem s0. EvalScript (base_env (sample_env 1)) [] [1, 0x51] = Inr (redeem # s0) \<and>
     CHash160 (ee_hashes (sample_env 1)) redeem = replicate 20 5"
proof -
  have "VerifyScript (sample_env 1) [1, 0x51] ([0xa9, 20] @ replicate 20 5 @ [0x87]) None = Inr ()"
    by code_simp
  moreover have "IsPayToScriptHash ([0xa9, 20] @ replicate 20 5 @ [0x87])" by code_simp
  moreover have "env_flag (sample_env 1) SCRIPT_VERIFY_P2SH" by code_simp
  moreover have "take 20 (drop 2 ([0xa9, 20] @ replicate 20 5 @ [0x87 :: byte])) = replicate 20 5" by code_simp
  ultimately show ?thesis using VerifyScript_p2sh_sound by metis
qed

section \<open>Aborts\<close>

definition flags_consistent :: "flags \<Rightarrow> bool" where
  "flags_consistent f \<longleftrightarrow>
     (has_flag f SCRIPT_VERIFY_WITNESS \<longrightarrow> has_flag f SCRIPT_VERIFY_P2SH) \<and>
     (has_flag f SCRIPT_VERIFY_CLEANSTACK \<longrightarrow> has_flag f SCRIPT_VERIFY_WITNESS)"

lemma vbind_abort:
  "vbind r f = Inl Assert_failed \<longleftrightarrow> r = Inl Assert_failed \<or> (\<exists>x. r = Inr x \<and> f x = Inl Assert_failed)"
  by (auto simp: vbind_def split: sum.splits)

lemma check_abort [simp]: "check b e \<noteq> Inl Assert_failed"
  by (simp add: check_def)

lemma lift_abort [simp]: "lift_error r \<noteq> Inl Assert_failed"
  by (simp add: lift_error_def split: sum.splits)

lemma assertion_abort: "assertion b = Inl Assert_failed \<longleftrightarrow> \<not> b"
  by (simp add: assertion_def)

lemma eval_true_abort [simp]: "eval_true env s script \<noteq> Inl Assert_failed"
  by (simp add: eval_true_def vbind_abort)

lemma witness_part_abort [simp]: "witness_part env w script ok e st \<noteq> Inl Assert_failed"
  by (auto simp: witness_part_def vbind_abort split: option.splits)

text \<open>C28: No script can make a node abort: under flags where \<open>WITNESS\<close> comes with \<open>P2SH\<close> and \<open>CLEANSTACK\<close>
  with \<open>WITNESS\<close>, none of the four assertions of \<open>VerifyScript\<close> fails.  The one inside the P2SH branch
  holds because the \<open>HASH160\<close> of the output script already fails on an empty stack.\<close>

theorem VerifyScript_no_abort:
  assumes "flags_consistent (ee_flags env)"
  shows "VerifyScript env ssig spk w \<noteq> Inl Assert_failed"
proof -
  have p: "p2sh_part env ssig spk wit0 s0 st2 \<noteq> Inl Assert_failed"
    if "eval_true env s0 spk = Inr s1" for wit0 s0 s1 st2
    using that EvalScript_p2sh [of spk "base_env env" s0 s1]
    by (auto simp: p2sh_part_def vbind_abort assertion_abort Let_def eval_true_Inr)
  have f: "final_part env wit0 st \<noteq> Inl Assert_failed" for wit0 st
    using assms by (auto simp: final_part_def vbind_abort assertion_abort flags_consistent_def)
  have np: "p2sh_part env ssig spk wit0 s0 st2 \<noteq> Inl Assert_failed" if "\<not> env_flag env SCRIPT_VERIFY_P2SH"
    for wit0 s0 st2
    using that by (simp add: p2sh_part_def)
  show ?thesis
    using p f np by (auto simp: VerifyScript_def Let_def vbind_abort)
qed

lemma VerifyScript_no_abort_witness: "VerifyScript (sample_env 0x901) [] [] None \<noteq> Inl Assert_failed"
proof (rule VerifyScript_no_abort)
  show "flags_consistent (ee_flags (sample_env 0x901))" by code_simp
qed

section \<open>Pay to witness public key hash\<close>

text \<open>C27: Under \<open>SCRIPT_VERIFY_WITNESS\<close> (which \<open>ConnectBlock\<close> sets once \<open>SPORK_20\<close> is active), spending a version 0 witness output
  of 20 bytes requires the key and its signature: if
  \<open>VerifyScript\<close> accepts with that flag set, the \<open>scriptSig\<close> is empty and the witness is a signature and a public key
  with \<open>Hash160\<close> equal to the program, both well encoded, that pass the signature check of the
  implied pay-to-public-key-hash script under the version 0 rules.\<close>

theorem VerifyScript_p2wpkh_sound:
  assumes "VerifyScript env ssig spk w = Inr ()"
    and "env_flag env SCRIPT_VERIFY_WITNESS" and "IsWitnessProgram spk = Some (0, program)"
    and "length program = 20"
  shows "ssig = [] \<and> (\<exists>sig pk. w = Some [sig, pk] \<and> CHash160 (ee_hashes env) pk = program \<and>
    check_encodings (env\<lparr>ee_sigversion := SIGVERSION_WITNESS_V0\<rparr>) sig pk = None \<and>
    CheckSig (ee_checker env) sig pk (CScriptVisitor_keyID program) SIGVERSION_WITNESS_V0)"
proof -
  define wit0 where "wit0 = (case w of None \<Rightarrow> [] | Some w \<Rightarrow> w)"
  obtain s1 st2 where
    "witness_part env wit0 spk (length ssig = 0) SCRIPT_ERR_WITNESS_MALLEATED (s1, False) = Inr st2"
    using assms(1) by (auto simp: VerifyScript_def Let_def success_simps wit0_def)
  then have "ssig = []" and v: "VerifyWitnessProgram env wit0 0 program = Inr ()"
    using assms(2,3) by (auto simp: witness_part_def success_simps)
  then have "length wit0 = 2" using assms(4)
    by (auto simp: VerifyWitnessProgram_def witness_script_def vbind_def split: if_splits)
  then obtain sig pk where wit0: "wit0 = [sig, pk]"
    by (auto simp: length_Suc_conv eval_nat_numeral)
  let ?env = "env\<lparr>ee_sigversion := SIGVERSION_WITNESS_V0\<rparr>"
  obtain v where e: "EvalScript ?env [pk, sig] (CScriptVisitor_keyID program) = Inr [v]" "CastToBool v"
    using v assms(4) wit0
    by (auto simp: VerifyWitnessProgram_def witness_script_def vbind_eq_Inr vbind_def
        split: if_splits list.splits sum.splits)
  then have "CHash160 (ee_hashes env) pk = program \<and> check_encodings ?env sig pk = None \<and>
    CheckSig (ee_checker env) sig pk (CScriptVisitor_keyID program) SIGVERSION_WITNESS_V0"
    using EvalScript_p2pkh_eq [of program "[]" ?env pk sig] assms(4)
    by (auto simp: drop_sig_def split: if_splits option.splits)
  moreover have "w = Some [sig, pk]" using wit0 by (cases w) (auto simp: wit0_def)
  ultimately show ?thesis using \<open>ssig = []\<close> by blast
qed

lemma VerifyScript_p2wpkh_sound_witness:
  "\<exists>sig pk. Some [[7], [7]] = Some [sig, pk] \<and> CHash160 (ee_hashes (sample_env 0x801)) pk = replicate 20 5"
proof -
  have "VerifyScript (sample_env 0x801) [] ([0, 20] @ replicate 20 5) (Some [[7], [7]]) = Inr ()"
    by code_simp
  moreover have "env_flag (sample_env 0x801) SCRIPT_VERIFY_WITNESS" by code_simp
  moreover have "IsWitnessProgram ([0, 20] @ replicate 20 5) = Some (0, replicate 20 5)" by code_simp
  moreover have "length (replicate 20 (5 :: byte)) = 20" by simp
  ultimately show ?thesis using VerifyScript_p2wpkh_sound by blast
qed

section \<open>Verification flags are soft forks\<close>

lemma succ_rel_vbind:
  "succ_rel r r' \<Longrightarrow> (\<And>x. succ_rel (f x) (f' x)) \<Longrightarrow> succ_rel (vbind r f) (vbind r' f')"
  by (auto simp: succ_rel_def vbind_def split: sum.splits)

lemma succ_rel_lift: "succ_rel r r' \<Longrightarrow> succ_rel (lift_error r) (lift_error r')"
  by (auto simp: succ_rel_def lift_error_def split: sum.splits)

lemma EvalScript_rel:
  "softfork_le f f' \<Longrightarrow> succ_rel (EvalScript (with_flags env f'\<lparr>ee_sigversion := v\<rparr>) s script)
     (EvalScript (with_flags env f\<lparr>ee_sigversion := v\<rparr>) s script)"
proof -
  have "with_flags env g\<lparr>ee_sigversion := v\<rparr> = with_flags (env\<lparr>ee_sigversion := v\<rparr>) g" for g
    by (cases env) simp
  then show "softfork_le f f' \<Longrightarrow> ?thesis" by (simp only: EvalScript_succ_rel)
qed

lemma eval_true_rel:
  "softfork_le f f' \<Longrightarrow> succ_rel (eval_true (with_flags env f') s script) (eval_true (with_flags env f) s script)"
  unfolding eval_true_def by (intro succ_rel_vbind succ_rel_lift EvalScript_rel) simp_all

lemma VerifyWitnessProgram_rel:
  assumes "softfork_le f f'"
  shows "succ_rel (VerifyWitnessProgram (with_flags env f') w v p) (VerifyWitnessProgram (with_flags env f) w v p)"
proof -
  have "succ_rel (witness_script (with_flags env f') w v p) (witness_script (with_flags env f) w v p)"
    using softfork_le_flag [OF assms, of SCRIPT_VERIFY_DISCOURAGE_UPGRADABLE_WITNESS_PROGRAM]
    by (auto simp: witness_script_def Let_def succ_rel_def)
  then show ?thesis
    unfolding VerifyWitnessProgram_def
    by (intro succ_rel_vbind) (auto split: option.split intro!: succ_rel_vbind EvalScript_rel [OF assms])
qed

lemma witness_part_rel:
  assumes "softfork_le f f'" and "has_flag f SCRIPT_VERIFY_WITNESS"
  shows "succ_rel (witness_part (with_flags env f') w script ok e st) (witness_part (with_flags env f) w script ok e st)"
  using softfork_le_flag [OF assms]  assms(2)
  by (auto simp: witness_part_def split: option.split
      intro!: succ_rel_vbind succ_rel_lift VerifyWitnessProgram_rel [OF assms(1)])

lemma witness_part_off:
  "\<not> env_flag env SCRIPT_VERIFY_WITNESS \<Longrightarrow> witness_part env w script ok e st = Inr st"
  by (simp add: witness_part_def)

lemma final_part_off:
  "\<not> env_flag env SCRIPT_VERIFY_WITNESS \<Longrightarrow> \<not> env_flag env SCRIPT_VERIFY_CLEANSTACK \<Longrightarrow>
    final_part env w st = Inr ()"
  by (simp add: final_part_def vbind_def)

lemma p2sh_part_rel:
  assumes "softfork_le f f'" and "has_flag f SCRIPT_VERIFY_WITNESS" "has_flag f SCRIPT_VERIFY_P2SH"
  shows "succ_rel (p2sh_part (with_flags env f') ssig spk w s st) (p2sh_part (with_flags env f) ssig spk w s st)"
  using softfork_le_flag [OF assms(1,3)] assms(3)
  by (auto simp: p2sh_part_def Let_def intro!: succ_rel_vbind eval_true_rel witness_part_rel assms)

lemma p2sh_part_off:
  assumes "softfork_le f f'" and "\<not> has_flag f SCRIPT_VERIFY_WITNESS"
    and "has_flag f SCRIPT_VERIFY_P2SH" and "p2sh_part (with_flags env f') ssig spk w s st' = Inr r'"
  shows "\<exists>r. p2sh_part (with_flags env f) ssig spk w s st = Inr r"
proof (cases "IsPayToScriptHash spk")
  case True
  have "has_flag f' SCRIPT_VERIFY_P2SH" using softfork_le_flag [OF assms(1,3)] .
  then obtain s' where "IsPushOnly ssig" "s \<noteq> []" "eval_true (with_flags env f') (tl s) (hd s) = Inr s'"
    using assms(4) True by (auto simp: p2sh_part_def Let_def success_simps)
  moreover from this have "eval_true (with_flags env f) (tl s) (hd s) = Inr s'"
    using eval_true_rel [OF assms(1), of env "tl s" "hd s"] by (simp add: succ_rel_def)
  ultimately show ?thesis
    using True assms(2,3) by (simp add: p2sh_part_def Let_def success_simps witness_part_off)
next
  case False
  then show ?thesis by (simp add: p2sh_part_def)
qed

lemma final_part_rel:
  assumes "softfork_le f f'" and "flags_consistent f"
  shows "succ_rel (final_part (with_flags env f') w st) (final_part (with_flags env f) w st)"
  using softfork_le_flag [OF assms(1)] assms(2)
  by (auto simp: final_part_def succ_rel_def success_simps flags_consistent_def split: if_splits)

text \<open>C3: Verification flags are soft forks for whole inputs too: if \<open>VerifyScript\<close> accepts under the
  flags \<open>f'\<close>, it accepts under flags \<open>f\<close> that drop some of them, under two conditions.  (1) As \<open>softfork_le\<close> says, neither
  \<open>CHECKLOCKTIMEVERIFY\<close> nor \<open>CHECKSEQUENCEVERIFY\<close> is dropped from \<open>f'\<close> while \<open>DISCOURAGE_UPGRADABLE_NOPS\<close> stays in \<open>f\<close>:
  without its flag the opcode is a NOP, which that flag rejects, so there the claim can fail.  (2) \<open>f\<close> meets the preconditions
  the source asserts (no \<open>WITNESS\<close> without \<open>P2SH\<close>, no \<open>CLEANSTACK\<close> without both).\<close>

theorem VerifyScript_softfork:
  assumes "softfork_le f f'" and "flags_consistent f"
    and "VerifyScript (with_flags env f') ssig spk w = Inr ()"
  shows "VerifyScript (with_flags env f) ssig spk w = Inr ()"
proof -
  define wit0 where "wit0 = (case w of None \<Rightarrow> [] | Some w \<Rightarrow> w)"
  note fl = softfork_le_flag [OF assms(1)]
  obtain s0 s1 st2 st3 where
    po: "\<not> (has_flag f' SCRIPT_VERIFY_SIGPUSHONLY \<and> \<not> IsPushOnly ssig)" and
    e0: "EvalScript (base_env (with_flags env f')) [] ssig = Inr s0" and
    e1: "eval_true (with_flags env f') s0 spk = Inr s1" and
    w2: "witness_part (with_flags env f') wit0 spk (length ssig = 0) SCRIPT_ERR_WITNESS_MALLEATED (s1, False) = Inr st2" and
    p3: "p2sh_part (with_flags env f') ssig spk wit0 (if has_flag f' SCRIPT_VERIFY_P2SH then s0 else []) st2 = Inr st3" and
    fin: "final_part (with_flags env f') wit0 st3 = Inr ()"
    using assms(3) unfolding VerifyScript_def Let_def wit0_def by (simp add: success_simps) blast
  have po': "\<not> (has_flag f SCRIPT_VERIFY_SIGPUSHONLY \<and> \<not> IsPushOnly ssig)" using po fl by blast
  have e0': "EvalScript (base_env (with_flags env f)) [] ssig = Inr s0"
    using EvalScript_rel [OF assms(1), where env = env] e0 by (simp add: succ_rel_def)
  have e1': "eval_true (with_flags env f) s0 spk = Inr s1"
    using eval_true_rel [OF assms(1), of env s0 spk] e1 by (simp add: succ_rel_def)
  let ?copy = "if has_flag f SCRIPT_VERIFY_P2SH then s0 else []"
  have "\<exists>t2 t3. witness_part (with_flags env f) wit0 spk (length ssig = 0) SCRIPT_ERR_WITNESS_MALLEATED (s1, False) = Inr t2 \<and>
     p2sh_part (with_flags env f) ssig spk wit0 ?copy t2 = Inr t3 \<and> final_part (with_flags env f) wit0 t3 = Inr ()"
  proof (cases "has_flag f SCRIPT_VERIFY_WITNESS")
    case True
    then have p: "has_flag f SCRIPT_VERIFY_P2SH" using assms(2) by (simp add: flags_consistent_def)
    have "witness_part (with_flags env f) wit0 spk (length ssig = 0) SCRIPT_ERR_WITNESS_MALLEATED (s1, False) = Inr st2"
      by (rule witness_part_rel [OF assms(1) True, unfolded succ_rel_def, rule_format, OF w2])
    moreover have "p2sh_part (with_flags env f) ssig spk wit0 ?copy st2 = Inr st3"
      using p2sh_part_rel [OF assms(1) True p, unfolded succ_rel_def, rule_format, OF p3] p fl [OF p]
      by simp
    moreover have "final_part (with_flags env f) wit0 st3 = Inr ()"
      using final_part_rel [OF assms(1,2), of env wit0 st3] fin by (simp add: succ_rel_def)
    ultimately show ?thesis by blast
  next
    case False
    then have c: "\<not> has_flag f SCRIPT_VERIFY_CLEANSTACK" using assms(2) by (auto simp: flags_consistent_def)
    have "\<exists>t3. p2sh_part (with_flags env f) ssig spk wit0 ?copy (s1, False) = Inr t3"
    proof (cases "has_flag f SCRIPT_VERIFY_P2SH")
      case True
      then show ?thesis using p2sh_part_off [OF assms(1) False True] p3 fl [OF True] by auto
    qed (auto simp: p2sh_part_def)
    then show ?thesis using False c by (auto simp: witness_part_off final_part_off)
  qed
  then show ?thesis
    using po' e0' e1' unfolding VerifyScript_def Let_def wit0_def [symmetric]
    by (auto simp: success_simps)
qed

lemma VerifyScript_softfork_witness:
  "VerifyScript (with_flags (sample_env 0) 0) [0x51] [0x51, 0x88, 0x51] None = Inr ()"
proof -
  have "softfork_le 0 0x41" "flags_consistent 0" by code_simp+
  moreover have "VerifyScript (with_flags (sample_env 0) 0x41) [0x51] [0x51, 0x88, 0x51] None = Inr ()"
    by code_simp
  ultimately show ?thesis by (rule VerifyScript_softfork)
qed

end
