(* ===== verification/UpdateCoins.thy ===== *)
theory UpdateCoins
  imports CoinsView VerifyScript
begin

text \<open>
  Connecting and disconnecting transactions in src/src/main.cpp, on the coins views: \<open>UpdateCoins\<close>, the
  loop of \<open>ConnectBlock\<close> over the transactions (its effect on the coins and the undo data), and the
  loop of \<open>DisconnectBlock\<close>.  Side tables that are not coins (zerocoin database, \<open>mapStakeSpent\<close>,
  indexes) are left out.  The hash functions are the parameter \<open>hashes\<close>.
\<close>

definition tx_GetHash :: "hashes \<Rightarrow> CTransaction \<Rightarrow> uint256" where
  "tx_GetHash hs tx = GetHash hs (write_tx False tx)"

section \<open>UpdateCoins\<close>

definition Spend_r :: "nat \<Rightarrow> CCoins \<Rightarrow> CCoins \<times> CTxInUndo option" where
  "Spend_r n cs = (case Spend cs n of None \<Rightarrow> (cs, None) | Some (cs', undo) \<Rightarrow> (cs', Some undo))"

fun spend_inputs :: "'b CCoinsView \<Rightarrow> CTxIn list \<Rightarrow> 'b CCoinsViewCache \<Rightarrow>
    (CTxInUndo list \<times> 'b CCoinsViewCache) option" where
  "spend_inputs V [] c = Some ([], c)"
| "spend_inputs V (txin # ins) c =
     (case with_modifier_r V (out_hash (prevout txin)) (Spend_r (unat (out_n (prevout txin)))) c of
        None \<Rightarrow> None
      | Some (None, _) \<Rightarrow> None
      | Some (Some undo, c') \<Rightarrow>
          (case spend_inputs V ins c' of None \<Rightarrow> None | Some (undos, c'') \<Rightarrow> Some (undo # undos, c'')))"

definition has_inputs :: "CTransaction \<Rightarrow> bool" where
  "has_inputs tx \<longleftrightarrow> \<not> IsCoinBase tx \<and> \<not> IsZerocoinSpend_tx tx"

definition UpdateCoins :: "'b CCoinsView \<Rightarrow> hashes \<Rightarrow> CTransaction \<Rightarrow> int \<Rightarrow> 'b CCoinsViewCache \<Rightarrow>
    (CTxInUndo list \<times> 'b CCoinsViewCache) option" where
  "UpdateCoins V hs tx nHeight inputs =
     (case (if has_inputs tx then spend_inputs V (vin tx) inputs else Some ([], inputs)) of
        None \<Rightarrow> None
      | Some (undos, c) \<Rightarrow>
          map_option (\<lambda>c'. (undos, c')) (with_modifier V (tx_GetHash hs tx) (\<lambda>_. FromTx tx nHeight) c))"

text \<open>The calls of \<open>UpdateCoins\<close> that \<open>ConnectBlock\<close> makes for the transactions of a block in order, with their undo records; the record of
  the coinbase is the dummy that \<open>ConnectBlock\<close> drops.  The checks that come before each call are in theory \<open>ConnectBlock\<close>, whose loop
  has the same effect on the unspent set when it succeeds.\<close>

fun connect_txs :: "'b CCoinsView \<Rightarrow> hashes \<Rightarrow> int \<Rightarrow> CTransaction list \<Rightarrow> 'b CCoinsViewCache \<Rightarrow>
    (CTxInUndo list list \<times> 'b CCoinsViewCache) option" where
  "connect_txs V hs nHeight [] c = Some ([], c)"
| "connect_txs V hs nHeight (tx # txs) c =
     (case UpdateCoins V hs tx nHeight c of
        None \<Rightarrow> None
      | Some (undo, c') \<Rightarrow>
          (case connect_txs V hs nHeight txs c' of
             None \<Rightarrow> None
           | Some (undos, c'') \<Rightarrow> Some (undo # undos, c'')))"

section \<open>DisconnectBlock\<close>

text \<open>The check and removal of the outputs of a transaction; the flag says whether they matched.\<close>

definition remove_outputs :: "CTransaction \<Rightarrow> int \<Rightarrow> CCoins \<Rightarrow> CCoins \<times> bool" where
  "remove_outputs tx nHeight outs =
     (let outs1 = ClearUnspendable outs;
          outsBlock = FromTx tx nHeight;
          outs2 = (if coins_version outsBlock < 0 then outs1\<lparr>coins_version := coins_version outsBlock\<rparr> else outs1)
      in (CCoins_Clear outs2, CCoins_eq outs2 outsBlock))"

fun restore_inputs :: "'b CCoinsView \<Rightarrow> (CTxIn \<times> CTxInUndo) list \<Rightarrow> bool \<Rightarrow> 'b CCoinsViewCache \<Rightarrow>
    (bool \<times> 'b CCoinsViewCache) option" where
  "restore_inputs V [] fClean c = Some (fClean, c)"
| "restore_inputs V ((txin, undo) # r) fClean c =
     (case with_modifier_r V (out_hash (prevout txin))
             (\<lambda>cs. undo_input cs (unat (out_n (prevout txin))) undo) c of
        None \<Rightarrow> None
      | Some (ok, c') \<Rightarrow> restore_inputs V r (fClean \<and> ok) c')"

datatype disconnect_fail = disconnect_assertion | undo_inconsistent | zerocoin_erase_failed

text \<open>One transaction; inputs are restored from the last to the first.  \<open>zc\<close> says whether erasing the
  zerocoin mints and spends of the transaction from the zerocoin database succeeds.\<close>

definition disconnect_tx :: "'b CCoinsView \<Rightarrow> hashes \<Rightarrow> (CTransaction \<Rightarrow> bool) \<Rightarrow> int \<Rightarrow> CTransaction \<Rightarrow> CTxInUndo list \<Rightarrow> bool \<Rightarrow>
    'b CCoinsViewCache \<Rightarrow> disconnect_fail + bool \<times> 'b CCoinsViewCache" where
  "disconnect_tx V hs zc nHeight tx txundo fClean view =
     (if ContainsZerocoins tx \<and> \<not> zc tx then Inl zerocoin_erase_failed else
      case with_modifier_r V (tx_GetHash hs tx) (remove_outputs tx nHeight) view of
        None \<Rightarrow> Inl disconnect_assertion
      | Some (ok, c) \<Rightarrow>
          if \<not> has_inputs tx then Inr (fClean \<and> ok, c)
          else if length txundo \<noteq> length (vin tx) then Inl undo_inconsistent
          else (case restore_inputs V (rev (zip (vin tx) txundo)) (fClean \<and> ok) c of
                  None \<Rightarrow> Inl disconnect_assertion
                | Some r \<Rightarrow> Inr r))"

text \<open>The transactions in reverse order, each with its undo record.\<close>

fun disconnect_txs :: "'b CCoinsView \<Rightarrow> hashes \<Rightarrow> (CTransaction \<Rightarrow> bool) \<Rightarrow> int \<Rightarrow> (CTransaction \<times> CTxInUndo list) list \<Rightarrow> bool \<Rightarrow>
    'b CCoinsViewCache \<Rightarrow> disconnect_fail + bool \<times> 'b CCoinsViewCache" where
  "disconnect_txs V hs zc nHeight [] fClean c = Inr (fClean, c)"
| "disconnect_txs V hs zc nHeight ((tx, undo) # r) fClean c =
     (case disconnect_tx V hs zc nHeight tx undo fClean c of
        Inl e \<Rightarrow> Inl e
      | Inr (ok, c') \<Rightarrow> disconnect_txs V hs zc nHeight r ok c')"

text \<open>\<open>DisconnectBlock\<close> on the undo data of the block, which has no entry for the coinbase; \<open>bh\<close> and
  \<open>prev\<close> are the hashes of the block and of its predecessor.  Reading the undo data from disk and
  erasing accumulator checkpoints are left out.\<close>

definition DisconnectBlock :: "'b CCoinsView \<Rightarrow> hashes \<Rightarrow> (CTransaction \<Rightarrow> bool) \<Rightarrow> int \<Rightarrow> uint256 \<Rightarrow> uint256 \<Rightarrow>
    CTransaction list \<Rightarrow> CTxInUndo list list \<Rightarrow> 'b CCoinsViewCache \<Rightarrow>
    disconnect_fail + bool \<times> 'b CCoinsViewCache" where
  "DisconnectBlock V hs zc nHeight bh prev vtx vtxundo view =
     (case GetBestBlock V view of
        (best, view1) \<Rightarrow>
          if best \<noteq> bh then Inl disconnect_assertion
          else if length vtxundo + 1 \<noteq> length vtx then Inl undo_inconsistent
          else (case disconnect_txs V hs zc nHeight (rev (zip vtx ([] # vtxundo))) True view1 of
                  Inl e \<Rightarrow> Inl e
                | Inr (fClean, c) \<Rightarrow> Inr (fClean, SetBestBlock prev c)))"

section \<open>Effect on the unspent set\<close>

definition forget_stake :: "CCoins \<Rightarrow> CCoins" where
  "forget_stake cs = cs\<lparr>fCoinStake := False\<rparr>"

text \<open>\<open>B\<close> is \<open>A\<close>, except that some coins of the transactions \<open>X\<close> lost their coinstake mark.\<close>

definition lost_marks :: "uint256 set \<Rightarrow> utxos \<Rightarrow> utxos \<Rightarrow> bool" where
  "lost_marks X A B \<longleftrightarrow> (\<forall>t. B t = A t \<or> (t \<in> X \<and> B t = map_option forget_stake (A t)))"

definition coins_wf :: "CCoins \<Rightarrow> bool" where
  "coins_wf cs \<longleftrightarrow> \<not> IsPruned cs \<and> cleaned cs \<and> canonical_nulls cs \<and> 0 < coins_height cs"

definition utxos_wf :: "utxos \<Rightarrow> bool" where
  "utxos_wf A \<longleftrightarrow> (\<forall>t cs. A t = Some cs \<longrightarrow> coins_wf cs)"

fun spend_abs :: "utxos \<Rightarrow> CTxIn list \<Rightarrow> (CTxInUndo list \<times> utxos) option" where
  "spend_abs A [] = Some ([], A)"
| "spend_abs A (txin # ins) =
     (case A (out_hash (prevout txin)) of
        None \<Rightarrow> None
      | Some cs \<Rightarrow>
          (case Spend cs (unat (out_n (prevout txin))) of
             None \<Rightarrow> None
           | Some (cs', u) \<Rightarrow>
               (case spend_abs (A(out_hash (prevout txin) := unspent (Some cs'))) ins of
                  None \<Rightarrow> None
                | Some (us, A') \<Rightarrow> Some (u # us, A'))))"

definition update_abs :: "hashes \<Rightarrow> int \<Rightarrow> CTransaction \<Rightarrow> utxos \<Rightarrow> (CTxInUndo list \<times> utxos) option" where
  "update_abs hs h tx A =
     (case (if has_inputs tx then spend_abs A (vin tx) else Some ([], A)) of
        None \<Rightarrow> None
      | Some (us, A') \<Rightarrow> Some (us, A'(tx_GetHash hs tx := unspent (Some (FromTx tx h)))))"

fun connect_abs :: "hashes \<Rightarrow> int \<Rightarrow> CTransaction list \<Rightarrow> utxos \<Rightarrow> (CTxInUndo list list \<times> utxos) option" where
  "connect_abs hs h [] A = Some ([], A)"
| "connect_abs hs h (tx # txs) A =
     (case update_abs hs h tx A of
        None \<Rightarrow> None
      | Some (us, A') \<Rightarrow>
          (case connect_abs hs h txs A' of None \<Rightarrow> None | Some (uss, A'') \<Rightarrow> Some (us # uss, A'')))"

lemma Spend_pruned: "IsPruned cs \<Longrightarrow> Spend cs n = None"
  by (auto simp: Spend_def IsPruned_def list_all_length)

lemma Spend_cleaned: "Spend cs n = Some (cs', u) \<Longrightarrow> Cleanup cs' = cs'"
  by (auto simp: Spend_def Let_def Cleanup_id split: if_splits)

lemma Spend_wf:
  assumes "Spend cs n = Some (cs', u)" and "coins_wf cs" and "\<not> IsPruned cs'"
  shows "coins_wf cs'"
proof -
  have c': "n < length (coins_vout cs)" "cs' = Cleanup (cs\<lparr>coins_vout := (coins_vout cs)[n := CTxOut_null]\<rparr>)"
    using assms(1) by (auto simp: Spend_def Let_def split: if_splits)
  obtain k where k: "(coins_vout cs)[n := CTxOut_null] = strip_null ((coins_vout cs)[n := CTxOut_null]) @ k"
    using strip_null_split by blast
  have "list_all (\<lambda>out. CTxOut_IsNull out \<longrightarrow> out = CTxOut_null) ((coins_vout cs)[n := CTxOut_null])"
    using assms(2) c'(1) by (auto simp: coins_wf_def canonical_nulls_def list_all_length nth_list_update)
  then have "list_all (\<lambda>out. CTxOut_IsNull out \<longrightarrow> out = CTxOut_null) (strip_null ((coins_vout cs)[n := CTxOut_null]))"
    by (metis k list_all_append)
  then have "canonical_nulls cs'" by (simp add: c'(2) canonical_nulls_def Cleanup_def)
  moreover have "cleaned cs'" "coins_height cs' = coins_height cs"
    unfolding c'(2) by (rule cleaned_Cleanup) (simp add: Cleanup_def)
  ultimately show ?thesis using assms(2,3) by (simp add: coins_wf_def)
qed

lemma pruned_vout: "cleaned cs \<Longrightarrow> IsPruned cs \<longleftrightarrow> coins_vout cs = []"
  by (cases "coins_vout cs" rule: rev_cases) (auto simp: IsPruned_def cleaned_def)

text \<open>Restoring a spent output from what is left of its coins.\<close>

lemma undo_input_pruned:
  assumes "IsPruned x" and "IsPruned y" and "undo_height u \<noteq> 0"
  shows "undo_input x n u = undo_input y n u"
proof -
  have "CCoins_Clear x = CCoins_Clear y" by (cases x; cases y) (simp add: CCoins_Clear_def)
  then show ?thesis using assms by (simp add: undo_input_def Let_def)
qed

lemma undo_input_forget:
  assumes "undo_height u = 0"
  shows "undo_input (forget_stake x) n u = (forget_stake (fst (undo_input x n u)), snd (undo_input x n u))"
  using assms by (simp add: undo_input_def Let_def forget_stake_def IsPruned_def IsAvailable_def Cleanup_def)

lemma undo_step:
  assumes "Spend cs n = Some (cs', u)" and "coins_wf cs"
    and "unspent (Some x) = unspent (Some cs') \<or> unspent (Some x) = map_option forget_stake (unspent (Some cs'))"
  shows "undo_input x n u = (cs, True) \<or> undo_input x n u = (forget_stake cs, True)"
proof -
  have wf: "cleaned cs" "canonical_nulls cs" "0 < coins_height cs" using assms(2) by (auto simp: coins_wf_def)
  note s = Spend_undo [OF wf assms(1)]
  have cl: "cleaned cs'" using Spend_cleaned [OF assms(1)] by (metis cleaned_Cleanup)
  have h: "undo_height u = (if coins_vout cs' = [] then coins_height cs else 0)"
    using assms(1) by (auto simp: Spend_def Let_def split: if_splits)
  show ?thesis
  proof (cases "coins_vout cs' = []")
    case True
    then have p: "IsPruned cs'" using cl by (simp add: pruned_vout)
    then have "IsPruned x" using assms(3) by (auto simp: unspent_None_iff)
    moreover have "undo_height u \<noteq> 0" using h True wf(3) by simp
    ultimately have "undo_input x n u = undo_input cs' n u" using p by (intro undo_input_pruned)
    then show ?thesis using s True by (simp add: forget_stake_def)
  next
    case False
    then have "\<not> IsPruned cs'" using cl by (simp add: pruned_vout)
    then have "x = cs' \<or> x = forget_stake cs'"
      using assms(3) by (auto simp: unspent_def split: if_splits)
    then show ?thesis using s False h by (auto simp: undo_input_forget)
  qed
qed

lemma spend_abs_ConsE:
  assumes "spend_abs A (txin # ins) = Some (us, A')"
  obtains cs cs' u us' where "A (out_hash (prevout txin)) = Some cs"
    "Spend cs (unat (out_n (prevout txin))) = Some (cs', u)" "us = u # us'"
    "spend_abs (A(out_hash (prevout txin) := unspent (Some cs'))) ins = Some (us', A')"
  using assms by (auto split: option.splits)

lemma spend_abs_wf: "spend_abs A ins = Some (us, A') \<Longrightarrow> utxos_wf A \<Longrightarrow> utxos_wf A'"
proof (induction ins arbitrary: A us)
  case (Cons txin ins)
  let ?t = "out_hash (prevout txin)"
  obtain cs cs' u us' where cs: "A ?t = Some cs" "Spend cs (unat (out_n (prevout txin))) = Some (cs', u)"
      "spend_abs (A(?t := unspent (Some cs'))) ins = Some (us', A')"
    using Cons.prems(1) by (rule spend_abs_ConsE)
  have "utxos_wf (A(?t := unspent (Some cs')))"
    using Cons.prems(2) cs(1) Spend_wf [OF cs(2)] by (auto simp: utxos_wf_def unspent_def)
  then show ?case using Cons.IH [OF cs(3)] by blast
qed simp

lemma spend_abs_dom: "spend_abs A ins = Some (us, A') \<Longrightarrow> A t = None \<Longrightarrow> A' t = None"
proof (induction ins arbitrary: A us)
  case (Cons txin ins)
  obtain cs cs' u us' where cs: "A (out_hash (prevout txin)) = Some cs"
      "spend_abs (A(out_hash (prevout txin) := unspent (Some cs'))) ins = Some (us', A')"
    using Cons.prems(1) by (rule spend_abs_ConsE)
  have "t \<noteq> out_hash (prevout txin)" using cs(1) Cons.prems(2) by auto
  then show ?case using Cons.IH [OF cs(2)] Cons.prems(2) by simp
qed simp

lemma spend_abs_length: "spend_abs A ins = Some (us, A') \<Longrightarrow> length us = length ins"
proof (induction ins arbitrary: A us)
  case (Cons txin ins)
  from Cons.prems obtain cs cs' u us' where "us = u # us'"
      "spend_abs (A(out_hash (prevout txin) := unspent (Some cs'))) ins = Some (us', A')"
    by (rule spend_abs_ConsE)
  then show ?case using Cons.IH by simp
qed simp

lemma spend_abs_other: "spend_abs A ins = Some (us, A') \<Longrightarrow> t \<notin> (\<lambda>i. out_hash (prevout i)) ` set ins \<Longrightarrow> A' t = A t"
proof (induction ins arbitrary: A us)
  case (Cons txin ins)
  obtain cs cs' u us' where cs: "A (out_hash (prevout txin)) = Some cs"
      "spend_abs (A(out_hash (prevout txin) := unspent (Some cs'))) ins = Some (us', A')"
    using Cons.prems(1) by (rule spend_abs_ConsE)
  then show ?case using Cons.IH [OF cs(2)] Cons.prems(2) by simp
qed simp

subsection \<open>The outputs of a transaction\<close>

lemma FromTx_cleaned: "cleaned (FromTx tx h)" and FromTx_height: "coins_height (FromTx tx h) = h"
  and FromTx_stake: "fCoinStake (FromTx tx h) = IsCoinStake tx"
  by (simp_all add: FromTx_def ClearUnspendable_def) (simp_all add: Cleanup_def)

lemma IsUnspendable_Nil [simp]: "\<not> IsUnspendable []"
  by (simp add: IsUnspendable_def)

definition clear_output :: "CTxOut \<Rightarrow> CTxOut" where
  "clear_output out = (if IsUnspendable (scriptPubKey out) then CTxOut_null else out)"

lemma FromTx_vout: "coins_vout (FromTx tx h) = strip_null (map clear_output (vout tx))"
  by (simp add: FromTx_def ClearUnspendable_def Cleanup_def clear_output_def [abs_def])

lemma list_all_strip_null: "list_all P v \<Longrightarrow> list_all P (strip_null v)"
  using strip_null_split [of v] by (metis list_all_append)

lemma ClearUnspendable_FromTx: "ClearUnspendable (FromTx tx h) = FromTx tx h"
proof -
  let ?v = "coins_vout (FromTx tx h)"
  have "list_all (\<lambda>out. \<not> IsUnspendable (scriptPubKey out)) (map clear_output (vout tx))"
    by (simp add: list_all_length clear_output_def CTxOut_null_def)
  then have "list_all (\<lambda>out. \<not> IsUnspendable (scriptPubKey out)) ?v"
    unfolding FromTx_vout by (rule list_all_strip_null)
  then have "map (\<lambda>out. if IsUnspendable (scriptPubKey out) then CTxOut_null else out) ?v = ?v"
    by (intro map_idI) (simp add: list_all_iff)
  then show ?thesis using Cleanup_id [OF FromTx_cleaned [of tx h]] by (simp add: ClearUnspendable_def)
qed

lemma FromTx_wf:
  assumes "0 < h" and "\<forall>out \<in> set (vout tx). \<not> CTxOut_IsNull out" and "\<not> IsPruned (FromTx tx h)"
  shows "coins_wf (FromTx tx h)"
proof -
  have "list_all (\<lambda>out. CTxOut_IsNull out \<longrightarrow> out = CTxOut_null) (map clear_output (vout tx))"
    using assms(2) by (auto simp: list_all_iff clear_output_def)
  then have "canonical_nulls (FromTx tx h)"
    unfolding canonical_nulls_def FromTx_vout by (rule list_all_strip_null)
  then show ?thesis using assms FromTx_cleaned [of tx h] FromTx_height [of tx h] by (simp add: coins_wf_def)
qed

lemma IsPruned_ClearUnspendable: "IsPruned x \<Longrightarrow> IsPruned (ClearUnspendable x)"
  unfolding ClearUnspendable_def IsPruned_Cleanup by (auto simp: IsPruned_def list_all_iff)

lemma remove_outputs_clean:
  assumes "unspent (Some x) = unspent (Some (FromTx tx h))"
  shows "remove_outputs tx h x = (CCoins_Clear x, True)"
proof (cases "IsPruned (FromTx tx h)")
  case True
  then have "IsPruned x" using assms by (simp add: unspent_None_iff)
  then have "IsPruned (ClearUnspendable x)" by (rule IsPruned_ClearUnspendable)
  moreover have "CCoins_Clear (ClearUnspendable x) = CCoins_Clear x"
    by (simp add: CCoins_Clear_def ClearUnspendable_def Cleanup_def)
  moreover have "CCoins_Clear (ClearUnspendable x\<lparr>coins_version := v\<rparr>) = CCoins_Clear (ClearUnspendable x)" for v
    by (simp add: CCoins_Clear_def)
  ultimately show ?thesis using True
    by (simp add: remove_outputs_def Let_def CCoins_eq_def) (simp add: IsPruned_def)
next
  case False
  then have "x = FromTx tx h" using assms by (auto simp: unspent_def split: if_splits)
  then show ?thesis by (simp add: remove_outputs_def Let_def ClearUnspendable_FromTx CCoins_eq_def)
qed

lemma unspent_Clear: "unspent (Some (Cleanup (CCoins_Clear x))) = None"
  unfolding unspent_None_iff IsPruned_Cleanup by (simp add: CCoins_Clear_def IsPruned_def)

lemma lost_marksD: "lost_marks X A B \<Longrightarrow> B t = A t \<or> t \<in> X \<and> B t = map_option forget_stake (A t)"
  by (simp add: lost_marks_def)

lemma update_abs_other:
  assumes "update_abs hs h tx A = Some (us, A')" and "A t = None" and "t \<noteq> tx_GetHash hs tx"
  shows "A' t = None"
  using assms spend_abs_dom [of A "vin tx"] by (auto simp: update_abs_def split: option.splits if_splits)

lemma update_abs_wf:
  assumes "update_abs hs h tx A = Some (us, A')" and "utxos_wf A" and "0 < h"
    and "\<forall>out \<in> set (vout tx). \<not> CTxOut_IsNull out"
  shows "utxos_wf A'"
proof -
  obtain A1 where A1: "utxos_wf A1" "A' = A1(tx_GetHash hs tx := unspent (Some (FromTx tx h)))"
    using assms(1,2) spend_abs_wf by (fastforce simp: update_abs_def split: option.splits if_splits)
  then show ?thesis using FromTx_wf [OF assms(3,4)] by (auto simp: utxos_wf_def unspent_def)
qed

definition spent_hashes :: "CTransaction \<Rightarrow> uint256 set" where
  "spent_hashes tx = (if has_inputs tx then (\<lambda>i. out_hash (prevout i)) ` set (vin tx) else {})"

context coins_view
begin

text \<open>The cache operations do on the unspent set what the functions above do.\<close>

lemma spend_inputs_abs:
  assumes "cache_inv abs has inv c"
  shows "case spend_abs (cache_abs abs c) ins of
      None \<Rightarrow> spend_inputs V ins c = None
    | Some (us, A') \<Rightarrow> \<exists>c'. spend_inputs V ins c = Some (us, c') \<and> cache_inv abs has inv c' \<and>
        cache_abs abs c' = A' \<and> abs (base c') = abs (base c)"
  using assms
proof (induction ins arbitrary: c)
  case (Cons txin ins)
  let ?t = "out_hash (prevout txin)" and ?n = "unat (out_n (prevout txin))"
  obtain x c1 where x: "with_modifier_r V ?t (Spend_r ?n) c = Some (snd (Spend_r ?n x), c1)"
      "cache_inv abs has inv c1" "unspent (Some x) = cache_abs abs c ?t"
      "cache_abs abs c1 = (cache_abs abs c)(?t := unspent (Some (Cleanup (fst (Spend_r ?n x)))))"
      "abs (base c1) = abs (base c)"
    using modify_r [OF Cons.prems] by blast
  show ?case
  proof (cases "Spend x ?n")
    case None
    have "cache_abs abs c ?t = None \<or> cache_abs abs c ?t = Some x"
      using x(3) by (auto simp: unspent_def split: if_splits)
    then have "spend_abs (cache_abs abs c) (txin # ins) = None" using None by auto
    then show ?thesis using x(1) None by (simp add: Spend_r_def)
  next
    case (Some r)
    obtain cs' u where r: "Spend x ?n = Some (cs', u)" using Some by (cases r) auto
    then have "\<not> IsPruned x" using Spend_pruned by fastforce
    then have "cache_abs abs c ?t = Some x" using x(3) by simp
    moreover have "cache_abs abs c1 = (cache_abs abs c)(?t := unspent (Some cs'))"
      using x(4) r Spend_cleaned [OF r] by (simp add: Spend_r_def)
    ultimately have "spend_abs (cache_abs abs c) (txin # ins) =
        (case spend_abs (cache_abs abs c1) ins of None \<Rightarrow> None | Some (us, A') \<Rightarrow> Some (u # us, A'))"
      using r by simp
    moreover have "spend_inputs V (txin # ins) c =
        (case spend_inputs V ins c1 of None \<Rightarrow> None | Some (us, c') \<Rightarrow> Some (u # us, c'))"
      using x(1) r by (simp add: Spend_r_def)
    ultimately show ?thesis
      using Cons.IH [OF x(2)] x(5) by (cases "spend_abs (cache_abs abs c1) ins") auto
  qed
qed simp

lemma UpdateCoins_abs:
  assumes "cache_inv abs has inv c"
  shows "case update_abs hs h tx (cache_abs abs c) of
      None \<Rightarrow> UpdateCoins V hs tx h c = None
    | Some (us, A') \<Rightarrow> \<exists>c'. UpdateCoins V hs tx h c = Some (us, c') \<and> cache_inv abs has inv c' \<and>
        cache_abs abs c' = A' \<and> abs (base c') = abs (base c)"
proof -
  let ?s = "if has_inputs tx then spend_inputs V (vin tx) c else Some ([], c)"
  let ?a = "if has_inputs tx then spend_abs (cache_abs abs c) (vin tx) else Some ([], cache_abs abs c)"
  have s: "case ?a of None \<Rightarrow> ?s = None
    | Some (us, A') \<Rightarrow> \<exists>c'. ?s = Some (us, c') \<and> cache_inv abs has inv c' \<and> cache_abs abs c' = A' \<and>
        abs (base c') = abs (base c)"
    using spend_inputs_abs [OF assms, of "vin tx"] assms by simp
  show ?thesis
  proof (cases ?a)
    case None
    then show ?thesis using s by (simp add: update_abs_def UpdateCoins_def)
  next
    case (Some r)
    then obtain us A' c1 where a: "?a = Some (us, A')" "?s = Some (us, c1)" "cache_inv abs has inv c1"
        "cache_abs abs c1 = A'" "abs (base c1) = abs (base c)"
      using s by (cases r) auto
    obtain c2 where c2: "with_modifier V (tx_GetHash hs tx) (\<lambda>_. FromTx tx h) c1 = Some c2"
        "cache_inv abs has inv c2" "modified (\<lambda>_. FromTx tx h) (tx_GetHash hs tx) A' (cache_abs abs c2)"
        "abs (base c2) = abs (base c1)"
      using modify [OF a(3)] a(4) by blast
    have "Cleanup (FromTx tx h) = FromTx tx h"
      by (rule Cleanup_id) (simp add: FromTx_def ClearUnspendable_def)
    then have "cache_abs abs c2 = A'(tx_GetHash hs tx := unspent (Some (FromTx tx h)))"
      using c2(3) by (auto simp: modified_def)
    then show ?thesis using a c2 by (simp add: update_abs_def UpdateCoins_def)
  qed
qed

lemma connect_txs_abs:
  assumes "cache_inv abs has inv c"
  shows "case connect_abs hs h txs (cache_abs abs c) of
      None \<Rightarrow> connect_txs V hs h txs c = None
    | Some (uss, A') \<Rightarrow> \<exists>c'. connect_txs V hs h txs c = Some (uss, c') \<and> cache_inv abs has inv c' \<and>
        cache_abs abs c' = A' \<and> abs (base c') = abs (base c)"
  using assms
proof (induction txs arbitrary: c)
  case (Cons tx txs)
  show ?case
  proof (cases "update_abs hs h tx (cache_abs abs c)")
    case None
    then show ?thesis using UpdateCoins_abs [OF Cons.prems, of hs tx h] by simp
  next
    case (Some r)
    then obtain us c1 where u: "update_abs hs h tx (cache_abs abs c) = Some (us, cache_abs abs c1)"
        "UpdateCoins V hs tx h c = Some (us, c1)" "cache_inv abs has inv c1" "abs (base c1) = abs (base c)"
      using UpdateCoins_abs [OF Cons.prems, of hs tx h] by (cases r) auto
    then show ?thesis using Cons.IH [OF u(3)] by (auto split: option.splits)
  qed
qed simp

subsection \<open>Disconnecting\<close>

lemma restore_append:
  "restore_inputs V (xs @ ys) f c =
    (case restore_inputs V xs f c of None \<Rightarrow> None | Some (f', c') \<Rightarrow> restore_inputs V ys f' c')"
  by (induction xs arbitrary: f c) (auto split: option.splits prod.splits)

lemma disconnect_append:
  "disconnect_txs V hs zc h (xs @ ys) f c =
    (case disconnect_txs V hs zc h xs f c of Inl e \<Rightarrow> Inl e | Inr (f', c') \<Rightarrow> disconnect_txs V hs zc h ys f' c')"
  by (induction xs arbitrary: f c) (auto split: sum.splits prod.splits)

lemma restore_inputs_abs:
  assumes "spend_abs A ins = Some (us, A')" and "utxos_wf A"
    and "cache_inv abs has inv c" and "lost_marks X A' (cache_abs abs c)"
  shows "\<exists>c'. restore_inputs V (rev (zip ins us)) f c = Some (f, c') \<and> cache_inv abs has inv c' \<and>
    lost_marks (X \<union> (\<lambda>i. out_hash (prevout i)) ` set ins) A (cache_abs abs c')"
  using assms
proof (induction ins arbitrary: A us)
  case (Cons i ins)
  let ?t = "out_hash (prevout i)" and ?n = "unat (out_n (prevout i))"
  let ?H = "(\<lambda>i. out_hash (prevout i)) ` set ins"
  obtain cs cs' u us' where cs: "A ?t = Some cs" "Spend cs ?n = Some (cs', u)" "us = u # us'"
      "spend_abs (A(?t := unspent (Some cs'))) ins = Some (us', A')"
    using Cons.prems(1) by (rule spend_abs_ConsE)
  let ?A1 = "A(?t := unspent (Some cs'))"
  have wf: "coins_wf cs" using Cons.prems(2) cs(1) by (simp add: utxos_wf_def)
  have "utxos_wf ?A1"
    using Cons.prems(2) Spend_wf [OF cs(2) wf] by (auto simp: utxos_wf_def unspent_def)
  then obtain c1 where c1: "restore_inputs V (rev (zip ins us')) f c = Some (f, c1)"
      "cache_inv abs has inv c1" "lost_marks (X \<union> ?H) ?A1 (cache_abs abs c1)"
    using Cons.IH [OF cs(4) _ Cons.prems(3,4)] by blast
  obtain x c2 where x: "with_modifier_r V ?t (\<lambda>cs. undo_input cs ?n u) c1 = Some (snd (undo_input x ?n u), c2)"
      "cache_inv abs has inv c2" "unspent (Some x) = cache_abs abs c1 ?t"
      "cache_abs abs c2 = (cache_abs abs c1)(?t := unspent (Some (Cleanup (fst (undo_input x ?n u)))))"
    using modify_r [OF c1(2)] by blast
  have "cache_abs abs c1 ?t = unspent (Some cs') \<or> cache_abs abs c1 ?t = map_option forget_stake (unspent (Some cs'))"
    using lost_marksD [OF c1(3), of ?t] by auto
  then have u: "undo_input x ?n u = (cs, True) \<or> undo_input x ?n u = (forget_stake cs, True)"
    using undo_step [OF cs(2) wf] x(3) by metis
  have keep: "unspent (Some (Cleanup cs)) = Some cs" "unspent (Some (Cleanup (forget_stake cs))) = Some (forget_stake cs)"
    using wf by (simp_all add: coins_wf_def Cleanup_id cleaned_def forget_stake_def IsPruned_def)
  have "lost_marks (X \<union> insert ?t ?H) A (cache_abs abs c2)"
    unfolding lost_marks_def
  proof
    fix t
    show "cache_abs abs c2 t = A t \<or> t \<in> X \<union> insert ?t ?H \<and> cache_abs abs c2 t = map_option forget_stake (A t)"
    proof (cases "t = ?t")
      case True
      then show ?thesis using u keep cs(1) x(4) by auto
    next
      case False
      then have "cache_abs abs c2 t = cache_abs abs c1 t" "?A1 t = A t" using x(4) by simp_all
      then show ?thesis using lost_marksD [OF c1(3), of t] by auto
    qed
  qed
  moreover have "snd (undo_input x ?n u)" using u by auto
  ultimately show ?case using c1(1) x(1,2) by (auto simp: cs(3) restore_append)
qed simp

lemma disconnect_tx_abs:
  assumes u: "update_abs hs h tx A = Some (us, A')" and wf: "utxos_wf A" and new: "A (tx_GetHash hs tx) = None"
    and c: "cache_inv abs has inv c" "lost_marks X A' (cache_abs abs c)"
    and stake: "IsCoinStake tx \<Longrightarrow> tx_GetHash hs tx \<notin> X" and zc: "ContainsZerocoins tx \<Longrightarrow> zc tx"
  shows "\<exists>c'. disconnect_tx V hs zc h tx us f c = Inr (f, c') \<and> cache_inv abs has inv c' \<and>
    lost_marks (X \<union> spent_hashes tx) A (cache_abs abs c')"
proof -
  let ?t = "tx_GetHash hs tx" and ?F = "FromTx tx h"
  obtain A1 where A1: "(if has_inputs tx then spend_abs A (vin tx) else Some ([], A)) = Some (us, A1)"
      "A' = A1(?t := unspent (Some ?F))"
    using u by (auto simp: update_abs_def split: option.splits)
  have t1: "A1 ?t = None" using A1(1) new spend_abs_dom by (auto split: if_splits)
  obtain x c1 where x: "with_modifier_r V ?t (remove_outputs tx h) c = Some (snd (remove_outputs tx h x), c1)"
      "cache_inv abs has inv c1" "unspent (Some x) = cache_abs abs c ?t"
      "cache_abs abs c1 = (cache_abs abs c)(?t := unspent (Some (Cleanup (fst (remove_outputs tx h x)))))"
    using modify_r [OF c(1)] by blast
  have "cache_abs abs c ?t = unspent (Some ?F)"
  proof (cases "IsCoinStake tx")
    case True
    then show ?thesis using lost_marksD [OF c(2), of ?t] stake by (simp add: A1(2))
  next
    case False
    then have "map_option forget_stake (unspent (Some ?F)) = unspent (Some ?F)"
      using FromTx_stake [of tx h] by (simp add: unspent_def forget_stake_def)
    then show ?thesis using lost_marksD [OF c(2), of ?t] by (auto simp: A1(2))
  qed
  then have r: "remove_outputs tx h x = (CCoins_Clear x, True)" using x(3) by (intro remove_outputs_clean) simp
  have l1: "lost_marks X A1 (cache_abs abs c1)"
    unfolding lost_marks_def
  proof
    fix t
    show "cache_abs abs c1 t = A1 t \<or> t \<in> X \<and> cache_abs abs c1 t = map_option forget_stake (A1 t)"
    proof (cases "t = ?t")
      case True
      then show ?thesis using x(4) r t1 unspent_Clear by simp
    next
      case False
      then have "cache_abs abs c1 t = cache_abs abs c t" "A' t = A1 t" using x(4) A1(2) by simp_all
      then show ?thesis using lost_marksD [OF c(2), of t] by auto
    qed
  qed
  show ?thesis
  proof (cases "has_inputs tx")
    case False
    then show ?thesis using A1(1) x(1,2) r l1 zc by (auto simp: disconnect_tx_def spent_hashes_def)
  next
    case True
    then have s: "spend_abs A (vin tx) = Some (us, A1)" using A1(1) by simp
    from restore_inputs_abs [OF s wf x(2) l1, of f] show ?thesis
      using True x(1) r zc spend_abs_length [OF s] by (auto simp: disconnect_tx_def spent_hashes_def)
  qed
qed

lemma disconnect_txs_abs:
  assumes "connect_abs hs h txs A = Some (uss, A')" and "utxos_wf A" and "0 < h"
    and "\<forall>tx \<in> set txs. \<forall>out \<in> set (vout tx). \<not> CTxOut_IsNull out"
    and "distinct (map (tx_GetHash hs) txs)" and "\<forall>tx \<in> set txs. A (tx_GetHash hs tx) = None"
    and "cache_inv abs has inv c" and "lost_marks X A' (cache_abs abs c)"
    and "\<forall>tx \<in> set txs. IsCoinStake tx \<longrightarrow> tx_GetHash hs tx \<notin> X \<union> (\<Union>tx' \<in> set txs. spent_hashes tx')"
    and "\<forall>tx \<in> set txs. ContainsZerocoins tx \<longrightarrow> zc tx"
  shows "\<exists>c'. disconnect_txs V hs zc h (rev (zip txs uss)) f c = Inr (f, c') \<and> cache_inv abs has inv c' \<and>
    lost_marks (X \<union> (\<Union>tx' \<in> set txs. spent_hashes tx')) A (cache_abs abs c')"
  using assms
proof (induction txs arbitrary: A uss)
  case (Cons tx txs)
  obtain us A1 uss' where u: "update_abs hs h tx A = Some (us, A1)" "connect_abs hs h txs A1 = Some (uss', A')"
      "uss = us # uss'"
    using Cons.prems(1) by (auto split: option.splits)
  have wf: "utxos_wf A1" using update_abs_wf [OF u(1) Cons.prems(2,3)] Cons.prems(4) by simp
  have new: "\<forall>tx' \<in> set txs. A1 (tx_GetHash hs tx') = None"
  proof
    fix tx'
    assume "tx' \<in> set txs"
    then have m: "A (tx_GetHash hs tx') = None" "tx_GetHash hs tx' \<in> tx_GetHash hs ` set txs"
      using Cons.prems(6) by simp_all
    then have "tx_GetHash hs tx' \<noteq> tx_GetHash hs tx" using Cons.prems(5) by (metis distinct.simps(2) list.map(2) set_map)
    with m(1) show "A1 (tx_GetHash hs tx') = None" by (rule update_abs_other [OF u(1)])
  qed
  have rest: "\<forall>tx \<in> set txs. \<forall>out \<in> set (vout tx). \<not> CTxOut_IsNull out" "distinct (map (tx_GetHash hs) txs)"
    "\<forall>tx \<in> set txs. IsCoinStake tx \<longrightarrow> tx_GetHash hs tx \<notin> X \<union> (\<Union>tx' \<in> set txs. spent_hashes tx')"
    using Cons.prems(4,5,9) by simp_all
  have z: "ContainsZerocoins tx \<Longrightarrow> zc tx" "\<forall>tx \<in> set txs. ContainsZerocoins tx \<longrightarrow> zc tx"
    using Cons.prems(10) by simp_all
  obtain c1 where c1: "disconnect_txs V hs zc h (rev (zip txs uss')) f c = Inr (f, c1)" "cache_inv abs has inv c1"
      "lost_marks (X \<union> (\<Union>tx' \<in> set txs. spent_hashes tx')) A1 (cache_abs abs c1)"
    using Cons.IH [OF u(2) wf Cons.prems(3) rest(1,2) new Cons.prems(7,8) rest(3) z(2)] by blast
  have st: "IsCoinStake tx \<Longrightarrow> tx_GetHash hs tx \<notin> X \<union> (\<Union>tx' \<in> set txs. spent_hashes tx')"
    using Cons.prems(9) by auto
  have n: "A (tx_GetHash hs tx) = None" using Cons.prems(6) by simp
  obtain c2 where "disconnect_tx V hs zc h tx us f c1 = Inr (f, c2)" "cache_inv abs has inv c2"
      "lost_marks (X \<union> (\<Union>tx' \<in> set txs. spent_hashes tx') \<union> spent_hashes tx) A (cache_abs abs c2)"
    using disconnect_tx_abs [where zc = zc, OF u(1) Cons.prems(2) n c1(2,3) st z(1)] by blast
  then show ?case using c1(1) by (simp add: u(3) disconnect_append Un_ac)
qed simp

end

lemma connect_abs_length: "connect_abs hs h txs A = Some (uss, A') \<Longrightarrow> length uss = length txs"
  by (induction txs arbitrary: A uss) (auto split: option.splits)

section \<open>Disconnecting a block\<close>

lemma set_best: "block_inv s \<Longrightarrow> block_inv (SetBestBlock h s) \<and> block_abs (SetBestBlock h s) = block_abs s"
  using run_op_correct [of s "SetBest h"] by (simp add: run_op_def)

text \<open>Disconnecting a block undoes connecting it.  When a block passed the checks that no
  transaction overwrites unspent coins (BIP30), no output is negative and no coinstake of the block is
  spent within it, then after connecting its transactions on a block view, \<open>DisconnectBlock\<close> with
  the collected undo data succeeds on any view with the same unspent set, finds the data clean, and
  returns to the unspent set before, except for coinstake marks of transactions the block spent from;
  when no spent coins are marked, the set is exactly the one before.\<close>

theorem DisconnectBlock_undoes:
  assumes "block_inv s" and "utxos_wf (block_abs s)" and "0 < h"
    and "\<forall>tx \<in> set vtx. \<forall>out \<in> set (vout tx). \<not> CTxOut_IsNull out"
    and "distinct (map (tx_GetHash hs) vtx)" and "\<forall>tx \<in> set vtx. block_abs s (tx_GetHash hs tx) = None"
    and "\<forall>tx \<in> set vtx. IsCoinStake tx \<longrightarrow> tx_GetHash hs tx \<notin> (\<Union>tx' \<in> set vtx. spent_hashes tx')"
    and "vtx \<noteq> []" and "IsCoinBase (hd vtx)"
    and "connect_txs tip_view hs h vtx s = Some (undos, s1)"
    and "block_inv s2" and "block_abs s2 = block_abs s1" and "fst (GetBestBlock tip_view s2) = bh"
    and "\<forall>tx \<in> set vtx. ContainsZerocoins tx \<longrightarrow> zc tx"
  shows "\<exists>s3. DisconnectBlock tip_view hs zc h bh prev vtx (tl undos) s2 = Inr (True, s3) \<and> block_inv s3 \<and>
    hashBlock s3 = prev \<and>
    lost_marks (\<Union>tx \<in> set vtx. spent_hashes tx) (block_abs s) (block_abs s3) \<and>
    ((\<forall>t cs. block_abs s t = Some cs \<and> t \<in> (\<Union>tx \<in> set vtx. spent_hashes tx) \<longrightarrow> \<not> fCoinStake cs) \<longrightarrow>
      block_abs s3 = block_abs s)"
proof -
  obtain A' where A': "connect_abs hs h vtx (block_abs s) = Some (undos, A')" "block_abs s1 = A'"
    using tipv.connect_txs_abs [OF assms(1), of hs h vtx] assms(10) by (auto split: option.splits)
  have u: "undos = [] # tl undos"
    using A'(1) assms(8,9) by (cases vtx) (auto simp: update_abs_def has_inputs_def split: option.splits)
  have len: "length (tl undos) + 1 = length vtx"
    using connect_abs_length [OF A'(1)] u by (metis Suc_eq_plus1 length_Cons)
  obtain s2' where b2: "GetBestBlock tip_view s2 = (bh, s2')" using assms(13) by (cases "GetBestBlock tip_view s2") auto
  note s2' = tipv.cache_best [OF assms(11) b2]
  have l0: "lost_marks {} A' (block_abs s2')" using assms(12) A'(2) s2' by (simp add: lost_marks_def)
  have st: "\<forall>tx \<in> set vtx. IsCoinStake tx \<longrightarrow> tx_GetHash hs tx \<notin> {} \<union> (\<Union>tx' \<in> set vtx. spent_hashes tx')"
    using assms(7) by simp
  obtain s3 where s3: "disconnect_txs tip_view hs zc h (rev (zip vtx undos)) True s2' = Inr (True, s3)" "block_inv s3"
      "lost_marks ({} \<union> (\<Union>tx \<in> set vtx. spent_hashes tx)) (block_abs s) (block_abs s3)"
    using tipv.disconnect_txs_abs [OF A'(1) assms(2-6) conjunct1 [OF s2'] l0 st assms(14)] by blast
  have d: "DisconnectBlock tip_view hs zc h bh prev vtx (tl undos) s2 = Inr (True, SetBestBlock prev s3)"
    using s3(1) u len b2 by (simp add: DisconnectBlock_def)
  have set: "block_inv (SetBestBlock prev s3)" "block_abs (SetBestBlock prev s3) = block_abs s3"
      "hashBlock (SetBestBlock prev s3) = prev"
    using set_best [OF s3(2), of prev] by (simp_all add: SetBestBlock_def)
  have "block_abs s3 = block_abs s"
    if n: "\<forall>t cs. block_abs s t = Some cs \<and> t \<in> (\<Union>tx \<in> set vtx. spent_hashes tx) \<longrightarrow> \<not> fCoinStake cs"
  proof
    fix t
    have "forget_stake cs = cs" if "block_abs s t = Some cs" "t \<in> (\<Union>tx \<in> set vtx. spent_hashes tx)" for cs
      using n that by (simp add: forget_stake_def)
    note f = this
    from lost_marksD [OF s3(3), of t] show "block_abs s3 t = block_abs s t"
    proof (elim disjE conjE)
      assume "t \<in> {} \<union> (\<Union>tx \<in> set vtx. spent_hashes tx)" "block_abs s3 t = map_option forget_stake (block_abs s t)"
      then show ?thesis using f by (cases "block_abs s t") simp_all
    qed
  qed
  then show ?thesis using d set s3(3) by auto
qed

text \<open>Serialized words computed on words, for evaluation.\<close>

fun word_bytes :: "nat \<Rightarrow> 'a::len word \<Rightarrow> bytes" where
  "word_bytes 0 w = []"
| "word_bytes (Suc n) w = ucast w # word_bytes n (drop_bit 8 w)"

lemma le_bytes_word: "le_bytes n (unat w) = word_bytes n w"
proof (induction n arbitrary: w)
  case (Suc n)
  have "unat (drop_bit 8 w) = unat w div 256" by (simp only: unat_drop_bit_eq) (simp add: drop_bit_eq_div)
  moreover have "of_nat (unat w mod 256) = (ucast w :: byte)"
    by (simp add: word_unat_eq_iff unat_of_nat unsigned_ucast_eq take_bit_eq_mod)
  ultimately show ?case using Suc [of "drop_bit 8 w"] by simp
qed simp

lemma ser_word_code [code]: "ser_word n w = word_bytes n w"
  by (simp add: ser_word_def WRITEDATA_def le_bytes_word)

text \<open>A block that spends an output of the sample database.\<close>

definition sum_hashes :: hashes where
  "sum_hashes = \<lparr>h_RIPEMD160 = (\<lambda>v. foldr (+) v 0 # replicate 19 0), h_SHA1 = (\<lambda>v. foldr (+) v 0 # replicate 19 0),
     h_SHA256 = (\<lambda>v. foldr (+) v 0 # replicate 31 0)\<rparr>"

definition sample_coinbase :: CTransaction where
  "sample_coinbase = \<lparr>nVersion = 1,
     vin = [\<lparr>prevout = COutPoint_null, scriptSig = [1, 2], nSequence = SEQUENCE_FINAL, prevPubKey = []\<rparr>],
     vout = [\<lparr>nValue = 3, scriptPubKey = [0x51], nRounds = - 10\<rparr>], wit = [], nLockTime = 0\<rparr>"

lemma DisconnectBlock_undoes_witness:
  "\<exists>undos s1 s3. connect_txs tip_view sum_hashes 200 [sample_coinbase, sample_tx]
      (CCoinsViewCache_new (CCoinsViewCache_new sample_db)) = Some (undos, s1) \<and>
    DisconnectBlock tip_view sum_hashes (\<lambda>_. True) 200 0 9 [sample_coinbase, sample_tx] (tl undos) s1 = Inr (True, s3) \<and>
    block_abs s3 = db_abs sample_db"
proof -
  let ?s = "CCoinsViewCache_new (CCoinsViewCache_new sample_db)" and ?vtx = "[sample_coinbase, sample_tx]"
  have i: "block_inv ?s" "block_abs ?s = db_abs sample_db"
    using tip_new [of sample_db] block_new [of "CCoinsViewCache_new sample_db"] by simp_all
  let ?cs = "sample_coins False\<lparr>coins_vout := [\<lparr>nValue = 7, scriptPubKey = [0x51], nRounds = - 10\<rparr>]\<rparr>"
  have d: "db_abs sample_db = (\<lambda>_. None)(5 := Some ?cs)"
  proof -
    have "\<not> IsPruned ?cs" by code_simp
    then show ?thesis by (auto simp: db_abs_def sample_db_def)
  qed
  have cs: "coins_wf ?cs" "\<not> fCoinStake ?cs" by code_simp+
  have wf: "utxos_wf (block_abs ?s)" using cs(1) unfolding i(2) d by (simp add: utxos_wf_def)
  have h: "tx_GetHash sum_hashes sample_coinbase \<noteq> 5" "tx_GetHash sum_hashes sample_tx \<noteq> 5"
    "distinct (map (tx_GetHash sum_hashes) ?vtx)" by code_simp+
  have new: "\<forall>tx \<in> set ?vtx. block_abs ?s (tx_GetHash sum_hashes tx) = None"
    using h(1,2) unfolding i(2) d by simp
  have tx: "\<forall>tx \<in> set ?vtx. \<forall>out \<in> set (vout tx). \<not> CTxOut_IsNull out" "\<forall>tx \<in> set ?vtx. \<not> IsCoinStake tx"
    "IsCoinBase (hd ?vtx)" by code_simp+
  have "Option.is_none (connect_txs tip_view sum_hashes 200 ?vtx ?s) = False" by code_simp
  then obtain undos s1 where c: "connect_txs tip_view sum_hashes 200 ?vtx ?s = Some (undos, s1)"
    by (cases "connect_txs tip_view sum_hashes 200 ?vtx ?s") auto
  have b: "block_inv s1"
    using tipv.connect_txs_abs [OF i(1), of sum_hashes 200 ?vtx] c by (auto split: option.splits)
  have "fst (GetBestBlock tip_view (snd (the (connect_txs tip_view sum_hashes 200 ?vtx ?s)))) = 0" by code_simp
  then have best: "fst (GetBestBlock tip_view s1) = 0" unfolding c by simp
  have h0: "0 < (200 :: int)" by simp
  obtain s3 where s3: "DisconnectBlock tip_view sum_hashes (\<lambda>_. True) 200 0 9 ?vtx (tl undos) s1 = Inr (True, s3)"
      "(\<forall>t cs. block_abs ?s t = Some cs \<and> t \<in> (\<Union>tx \<in> set ?vtx. spent_hashes tx) \<longrightarrow> \<not> fCoinStake cs) \<longrightarrow>
        block_abs s3 = block_abs ?s"
    using DisconnectBlock_undoes [OF i(1) wf h0 tx(1) h(3) new _ _ tx(3) c b refl best, where zc = "\<lambda>_. True" and prev = 9] tx(2) by blast
  have "\<forall>t cs. block_abs ?s t = Some cs \<and> t \<in> (\<Union>tx \<in> set ?vtx. spent_hashes tx) \<longrightarrow> \<not> fCoinStake cs"
    using cs(2) unfolding i(2) d by auto
  then have "block_abs s3 = db_abs sample_db" using s3(2) i(2) by (metis (no_types, lifting))
  then show ?thesis using c s3(1) by blast
qed

end
