(* ===== verification/TxChecks.thy ===== *)
theory TxChecks
  imports UpdateCoins
begin

text \<open>
  The checks on transactions of src/src/main.cpp: \<open>CheckTransaction\<close>, \<open>IsFinalTx\<close>, \<open>CheckInputs\<close> with
  its script checks, and the counts of signature operations; the signature cache of
  src/src/script/sigcache.cpp.  \<open>CValidationState\<close> is the value \<open>Rejected\<close> with the misbehaviour
  score, code and reason that the code passes to \<open>DoS\<close> or \<open>Invalid\<close>; a failed assertion or an
  exception is \<open>Aborted\<close>.  The chain parameters, the block index and the zerocoin checks are
  parameters.
\<close>

datatype check_fail = Rejected int nat string | Aborted

record chain_params =
  MaxMoneyOut :: int
  COINBASE_MATURITY :: int
  Zerocoin_MaxSpendsPerTransaction :: int

definition REJECT_INVALID :: nat where "REJECT_INVALID = 0x10"
definition REJECT_NONSTANDARD :: nat where "REJECT_NONSTANDARD = 0x40"
definition MAX_BLOCK_BASE_SIZE :: nat where "MAX_BLOCK_BASE_SIZE = 1000000"

definition DoS :: "int \<Rightarrow> nat \<Rightarrow> string \<Rightarrow> check_fail + 'a" where
  "DoS level code reason = Inl (Rejected level code reason)"

definition Invalid :: "nat \<Rightarrow> string \<Rightarrow> check_fail + 'a" where
  "Invalid code reason = DoS 0 code reason"

definition MoneyRange :: "chain_params \<Rightarrow> int \<Rightarrow> bool" where
  "MoneyRange P nValueOut \<longleftrightarrow> nValueOut \<ge> 0 \<and> nValueOut \<le> MaxMoneyOut P"

section \<open>CheckTransaction\<close>

record zerocoin_checks =
  CheckZerocoinMint :: "CTxOut \<Rightarrow> bool"
  CheckZerocoinSpend :: "CTransaction \<Rightarrow> bool"

fun check_outputs :: "chain_params \<Rightarrow> zerocoin_checks \<Rightarrow> bool \<Rightarrow> CTxOut list \<Rightarrow> int \<Rightarrow> int \<Rightarrow> check_fail + int" where
  "check_outputs P zc fZerocoinActive [] nValueOut nZCSpendCount = Inr nZCSpendCount"
| "check_outputs P zc fZerocoinActive (txout # outs) nValueOut nZCSpendCount =
     (if nValue txout < 0 then DoS 100 REJECT_INVALID ''bad-txns-vout-negative''
      else if nValue txout > MaxMoneyOut P then DoS 100 REJECT_INVALID ''bad-txns-vout-toolarge''
      else
        let v = wrap64 (nValueOut + nValue txout) in
        if \<not> MoneyRange P v then DoS 100 REJECT_INVALID ''bad-txns-txouttotal-toolarge''
        else if fZerocoinActive \<and> CTxOut_IsZerocoinMint txout \<and> \<not> CheckZerocoinMint zc txout then DoS 100 0 []
        else check_outputs P zc fZerocoinActive outs v
               (if fZerocoinActive \<and> IsZerocoinSpend (scriptPubKey txout) then nZCSpendCount + 1 else nZCSpendCount))"

fun check_duplicates :: "CTxIn list \<Rightarrow> COutPoint list \<Rightarrow> check_fail + unit" where
  "check_duplicates [] vInOutPoints = Inr ()"
| "check_duplicates (txin # ins) vInOutPoints =
     (if prevout txin \<in> set vInOutPoints then DoS 100 REJECT_INVALID ''bad-txns-inputs-duplicate''
      else check_duplicates ins
             (if \<not> IsZerocoinSpend (scriptSig txin) then prevout txin # vInOutPoints else vInOutPoints))"

definition check_inputs_form :: "chain_params \<Rightarrow> bool \<Rightarrow> CTransaction \<Rightarrow> check_fail + unit" where
  "check_inputs_form P fZerocoinActive tx =
     (if IsCoinBase tx then
        (if length (scriptSig (vin tx ! 0)) < 2 \<or> length (scriptSig (vin tx ! 0)) > 150
         then DoS 100 REJECT_INVALID ''bad-cb-length'' else Inr ())
      else if fZerocoinActive \<and> IsZerocoinSpend_tx tx then
        (if length (vin tx) < 1 \<or> int (length (vin tx)) > Zerocoin_MaxSpendsPerTransaction P
         then DoS 10 REJECT_INVALID ''bad-zerocoinspend'' else Inr ())
      else if list_ex (\<lambda>txin. COutPoint_IsNull (prevout txin) \<and> fZerocoinActive \<and> \<not> IsZerocoinSpend (scriptSig txin)) (vin tx)
        then DoS 10 REJECT_INVALID ''bad-txns-prevout-null''
      else Inr ())"

definition CheckTransaction :: "chain_params \<Rightarrow> zerocoin_checks \<Rightarrow> bool \<Rightarrow> CTransaction \<Rightarrow> check_fail + unit" where
  "CheckTransaction P zc fZerocoinActive tx =
     (if vin tx = [] then DoS 10 REJECT_INVALID ''bad-txns-vin-empty''
      else if vout tx = [] then DoS 10 REJECT_INVALID ''bad-txns-vout-empty''
      else if length (write_tx False tx) > MAX_BLOCK_BASE_SIZE then DoS 100 REJECT_INVALID ''bad-txns-oversize''
      else
        vbind (check_outputs P zc fZerocoinActive (vout tx) 0 0) (\<lambda>nZCSpendCount.
        if fZerocoinActive \<and> nZCSpendCount > Zerocoin_MaxSpendsPerTransaction P then DoS 100 0 []
        else if fZerocoinActive \<and> IsZerocoinSpend_tx tx \<and> \<not> list_all (\<lambda>i. IsZerocoinSpend (scriptSig i)) (vin tx)
          then DoS 100 0 []
        else if fZerocoinActive \<and> IsZerocoinSpend_tx tx \<and> \<not> CheckZerocoinSpend zc tx then DoS 100 0 []
        else
          vbind (check_duplicates (vin tx) []) (\<lambda>_.
          check_inputs_form P fZerocoinActive tx)))"

lemma vbind_Inr_iff [simp]: "vbind r f = Inr y \<longleftrightarrow> (\<exists>x. r = Inr x \<and> f x = Inr y)"
  by (cases r) (auto simp: vbind_def)

lemma DoS_not_Inr [simp]: "DoS l c r \<noteq> Inr x"
  by (simp add: DoS_def)

lemma check_outputs_Inr:
  assumes "0 \<le> v" "v \<le> MaxMoneyOut P" "MaxMoneyOut P < 2 ^ 62"
  shows "check_outputs P zc act outs v n = Inr m \<longleftrightarrow>
    (\<forall>out \<in> set outs. 0 \<le> nValue out \<and> nValue out \<le> MaxMoneyOut P \<and>
      (act \<and> CTxOut_IsZerocoinMint out \<longrightarrow> CheckZerocoinMint zc out)) \<and>
    v + sum_list (map nValue outs) \<le> MaxMoneyOut P \<and>
    m = n + (if act then int (length (filter (\<lambda>out. IsZerocoinSpend (scriptPubKey out)) outs)) else 0)"
  using assms
proof (induction outs arbitrary: v n)
  case (Cons out outs)
  show ?case
  proof (cases "0 \<le> nValue out \<and> nValue out \<le> MaxMoneyOut P")
    case True
    then have w: "wrap64 (v + nValue out) = v + nValue out"
      using Cons.prems by (intro wrap64_id) auto
    show ?thesis
    proof (cases "v + nValue out \<le> MaxMoneyOut P")
      case le: True
      then show ?thesis
        using Cons.IH [of "v + nValue out"] Cons.prems True
        by (auto simp: w Let_def MoneyRange_def algebra_simps)
    next
      case False
      moreover have "0 \<le> sum_list (map nValue outs)" if "\<forall>out \<in> set outs. 0 \<le> nValue out"
        using that by (auto intro!: sum_list_nonneg)
      ultimately show ?thesis using True by (auto simp: w Let_def MoneyRange_def)
    qed
  qed auto
qed auto

definition no_duplicates :: "CTxIn list \<Rightarrow> bool" where
  "no_duplicates ins \<longleftrightarrow> (\<forall>j < length ins. \<forall>i < j. prevout (ins ! i) = prevout (ins ! j) \<longrightarrow>
     IsZerocoinSpend (scriptSig (ins ! i)))"

lemma check_duplicates_Inr:
  "check_duplicates ins seen = Inr () \<longleftrightarrow> (\<forall>txin \<in> set ins. prevout txin \<notin> set seen) \<and> no_duplicates ins"
proof (induction ins arbitrary: seen)
  case (Cons txin ins)
  have "no_duplicates (txin # ins) \<longleftrightarrow>
      (\<forall>i \<in> set ins. prevout txin = prevout i \<longrightarrow> IsZerocoinSpend (scriptSig txin)) \<and> no_duplicates ins"
    unfolding all_set_conv_all_nth no_duplicates_def by (auto simp: All_less_Suc2)
  then show ?case by (auto simp: Cons.IH)
qed (simp add: no_duplicates_def)

text \<open>C10: \<open>CheckTransaction\<close> accepts exactly the following transactions (for a maximal amount below \<open>2 ^ 62\<close>): inputs and outputs
  present, at most a million bytes without witness, every output between 0 and the maximum and their exact sum at most the maximum (no 64 bit
  overflow), a coinbase script of 2 to 150 bytes, no outpoint repeated after an input that carries it and is not a zerocoin spend, and, only once
  zerocoin is active, the zerocoin rules and no null outpoint.  An outpoint may so be repeated, whether or not zerocoin is active, when every earlier
  input with it has a \<open>scriptSig\<close> of the form of a zerocoin spend: \<open>vInOutPoints\<close> only records the outpoints of the other inputs.\<close>

theorem CheckTransaction_iff:
  assumes "0 \<le> MaxMoneyOut P" and "MaxMoneyOut P < 2 ^ 62"
  shows "CheckTransaction P zc act tx = Inr () \<longleftrightarrow>
    vin tx \<noteq> [] \<and> vout tx \<noteq> [] \<and> length (write_tx False tx) \<le> 1000000 \<and>
    (\<forall>out \<in> set (vout tx). 0 \<le> nValue out \<and> nValue out \<le> MaxMoneyOut P) \<and>
    sum_list (map nValue (vout tx)) \<le> MaxMoneyOut P \<and>
    no_duplicates (vin tx) \<and>
    (IsCoinBase tx \<longrightarrow> 2 \<le> length (scriptSig (vin tx ! 0)) \<and> length (scriptSig (vin tx ! 0)) \<le> 150) \<and>
    (act \<longrightarrow>
      (\<forall>out \<in> set (vout tx). CTxOut_IsZerocoinMint out \<longrightarrow> CheckZerocoinMint zc out) \<and>
      int (length (filter (\<lambda>out. IsZerocoinSpend (scriptPubKey out)) (vout tx))) \<le> Zerocoin_MaxSpendsPerTransaction P \<and>
      (IsZerocoinSpend_tx tx \<longrightarrow> (\<forall>i \<in> set (vin tx). IsZerocoinSpend (scriptSig i)) \<and> CheckZerocoinSpend zc tx) \<and>
      (\<not> IsCoinBase tx \<longrightarrow>
        (if IsZerocoinSpend_tx tx then int (length (vin tx)) \<le> Zerocoin_MaxSpendsPerTransaction P
         else \<forall>i \<in> set (vin tx). COutPoint_IsNull (prevout i) \<longrightarrow> IsZerocoinSpend (scriptSig i))))"
proof -
  note outs = check_outputs_Inr [where v = 0 and outs = "vout tx" and zc = zc and n = 0, OF order_refl assms]
  have form: "check_inputs_form P a tx = Inr () \<longleftrightarrow>
      (IsCoinBase tx \<longrightarrow> 2 \<le> length (scriptSig (vin tx ! 0)) \<and> length (scriptSig (vin tx ! 0)) \<le> 150) \<and>
      (\<not> IsCoinBase tx \<and> a \<longrightarrow>
        (if IsZerocoinSpend_tx tx then vin tx \<noteq> [] \<and> int (length (vin tx)) \<le> Zerocoin_MaxSpendsPerTransaction P
         else \<forall>i \<in> set (vin tx). COutPoint_IsNull (prevout i) \<longrightarrow> IsZerocoinSpend (scriptSig i)))" for a
    by (cases "vin tx") (auto simp: check_inputs_form_def list_ex_iff)
  show ?thesis
    unfolding CheckTransaction_def MAX_BLOCK_BASE_SIZE_def
    by (cases act) (auto simp: outs form check_duplicates_Inr list_all_iff not_le not_less)
qed

section \<open>Lock times\<close>

text \<open>\<open>IsFinalTx\<close> with the chain height and the adjusted time that stand in for zero arguments.\<close>

definition IsFinalTx :: "int \<Rightarrow> int \<Rightarrow> CTransaction \<Rightarrow> int \<Rightarrow> int \<Rightarrow> bool" where
  "IsFinalTx chainHeight adjustedTime tx nBlockHeight nBlockTime =
     (if nLockTime tx = 0 then True
      else
        let h = (if nBlockHeight = 0 then chainHeight else nBlockHeight);
            t = (if nBlockTime = 0 then adjustedTime else nBlockTime)
        in if uint (nLockTime tx) < (if uint (nLockTime tx) < LOCKTIME_THRESHOLD then h else t) then True
           else list_all CTxIn_IsFinal (vin tx))"

lemma CheckLockTime_final:
  assumes "TSC_CheckLockTime tx nIn n" and "nIn < length (vin tx)" and "0 \<le> n"
    and "IsFinalTx ch at tx h t" and "0 < h" and "0 < t"
  shows "n < (if n < LOCKTIME_THRESHOLD then h else t)"
proof -
  have nf: "\<not> CTxIn_IsFinal (vin tx ! nIn)" and le: "n \<le> uint (nLockTime tx)"
    and same: "n < LOCKTIME_THRESHOLD \<longleftrightarrow> uint (nLockTime tx) < LOCKTIME_THRESHOLD"
    using assms(1) by (auto simp: TSC_CheckLockTime_def split: if_splits)
  show ?thesis
  proof (cases "nLockTime tx = 0")
    case True
    then show ?thesis using le assms(3,5,6) by (simp add: LOCKTIME_THRESHOLD_def)
  next
    case False
    moreover have "\<not> list_all CTxIn_IsFinal (vin tx)" using nf assms(2) by (auto simp: list_all_length)
    ultimately have "uint (nLockTime tx) < (if uint (nLockTime tx) < LOCKTIME_THRESHOLD then h else t)"
      using assms(4-6) by (auto simp: IsFinalTx_def Let_def split: if_splits)
    then show ?thesis using le same by auto
  qed
qed

text \<open>What an instruction up to \<open>OP_16\<close> pushes.\<close>

definition pushed :: "nat \<Rightarrow> bytes \<Rightarrow> bytes" where
  "pushed opcode data = (if opcode \<le> OP_PUSHDATA4 then data else serialize (int opcode - int (OP_1 - 1)))"

lemma eval_step_pushed:
  assumes "eval_step env c st = Inr (pc', st')" and "GetOp2 c = (True, opcode, data, r)" and "opcode \<le> OP_16"
    and "False \<notin> set (vfExec st)"
  shows "pc' = r \<and> st' = st\<lparr>stack := pushed opcode data # stack st\<rparr>"
proof -
  consider "opcode \<le> OP_PUSHDATA4" | "opcode = OP_RESERVED" | "opcode = OP_1NEGATE \<or> OP_1 \<le> opcode"
    using assms(3) unfolding opcode_defs by linarith
  then show ?thesis
  proof cases
    case 1
    then show ?thesis using assms by (auto simp: eval_step_def exec_instr_def Let_def pushed_def split: if_splits)
  next
    case 2
    then have "eval_switch env True r opcode st = Inl SCRIPT_ERR_BAD_OPCODE" by (simp add: eval_switch_def opcode_defs stack_shuffle_def)
    then show ?thesis using assms 2 by (simp add: eval_step_def exec_instr_def Let_def opcode_defs split: if_splits)
  next
    case 3
    then have n: "opcode > OP_PUSHDATA4" by (auto simp: opcode_defs)
    have "eval_switch env True r opcode st = op_pushnum opcode st" using 3 assms(3) by (auto simp: eval_switch_def)
    then show ?thesis using assms n
      by (auto simp: eval_step_def exec_instr_def Let_def pushed_def op_pushnum_def split: if_splits)
  qed
qed

lemma EvalScript_cltv:
  assumes ok: "EvalScript env s c = Inr s'" and c: "GetOp2 c = (True, opcode, data, 0xb1 # rest)" "opcode \<le> OP_16"
    and flag: "has_flag (ee_flags env) SCRIPT_VERIFY_CHECKLOCKTIMEVERIFY"
  shows "\<exists>n. stacknum env 5 (pushed opcode data) = Inr n \<and> 0 \<le> n \<and> CheckLockTime (ee_checker env) n"
proof -
  let ?st = "init_state s c" and ?d = "pushed opcode data"
  have v: "vfExec ?st = []" "nOpCount ?st = 0" "stack ?st = s" "altstack ?st = []" by (simp_all add: init_state_def)
  have "c \<noteq> []" using GetOp2_ok_nonempty c(1) by blast
  then obtain pc1 st1 where 1: "eval_step env c ?st = Inr (pc1, st1)" "\<exists>st. eval_loop env pc1 st1 = Inr st"
    using ok by (auto simp: EvalScript_def eval_loop_Cons split: sum.splits if_splits)
  have p1: "pc1 = 0xb1 # rest" "st1 = ?st\<lparr>stack := ?d # s\<rparr>"
    using eval_step_pushed [OF 1(1) c] v by simp_all
  have "eval_step env (0xb1 # rest) st1 = size_check rest (op_checklocktimeverify env (st1\<lparr>nOpCount := nOpCount st1 + 1\<rparr>))"
    using eval_step_op [where b = "0xb1" and env = env and r = rest and st = st1] v p1(2)
    by (simp add: eval_switch_def opcode_defs stack_shuffle_def disabled_opcodes_def MAX_OPS_PER_SCRIPT_def)
  then obtain st where "op_checklocktimeverify env (?st\<lparr>stack := ?d # s, nOpCount := 1\<rparr>) = Inr st"
    using 1(2) v unfolding p1 by (auto simp: eval_loop_Cons size_check_def split: sum.splits if_splits)
  then show ?thesis using flag by (auto simp: op_checklocktimeverify_def split: sum.splits if_splits)
qed

text \<open>C24: \<open>OP_CHECKLOCKTIMEVERIFY\<close> locks coins until the height or time it names.  If a script whose first instruction is any push (of
  data, of a small number or of -1) and whose second is \<open>OP_CHECKLOCKTIMEVERIFY\<close> succeeds, on any initial stack, under flags that include
  \<open>SCRIPT_VERIFY_CHECKLOCKTIMEVERIFY\<close>, for an existing input of a transaction, then what was pushed is a number \<open>n\<close>, not negative, of at most
  five bytes, and if the transaction is final for a block of height \<open>h\<close> and time \<open>t\<close>, both positive, then \<open>n\<close> is below that height (when it is
  below the threshold) or that time (from the threshold on).  Without the flag the opcode is a NOP.\<close>

theorem checklocktimeverify_locks:
  assumes "EvalScript env s c = Inr s'" and "GetOp2 c = (True, opcode, data, 0xb1 # rest)" and "opcode \<le> OP_16"
    and "has_flag (ee_flags env) SCRIPT_VERIFY_CHECKLOCKTIMEVERIFY"
    and "ee_checker env = TransactionSignatureChecker hs ec tx nIn amount" and "nIn < length (vin tx)"
  shows "\<exists>n. stacknum env 5 (pushed opcode data) = Inr n \<and> 0 \<le> n \<and>
    (\<forall>ch at h t. 0 < h \<and> 0 < t \<and> IsFinalTx ch at tx h t \<longrightarrow> n < (if n < LOCKTIME_THRESHOLD then h else t))"
proof -
  obtain n where n: "stacknum env 5 (pushed opcode data) = Inr n" "0 \<le> n" "TSC_CheckLockTime tx nIn n"
    using EvalScript_cltv [OF assms(1-4)] assms(5) by (auto simp: TransactionSignatureChecker_def)
  then show ?thesis using CheckLockTime_final [OF n(3) assms(6) n(2)] by blast
qed

definition sample_params :: chain_params where
  "sample_params = \<lparr>MaxMoneyOut = 3000000000000000, COINBASE_MATURITY = 10, Zerocoin_MaxSpendsPerTransaction = 7\<rparr>"

definition no_zerocoin :: zerocoin_checks where
  "no_zerocoin = \<lparr>CheckZerocoinMint = (\<lambda>_. False), CheckZerocoinSpend = (\<lambda>_. False)\<rparr>"

lemma CheckTransaction_iff_witness: "CheckTransaction sample_params no_zerocoin True sample_tx = Inr ()"
proof -
  have "length (write_tx False sample_tx) \<le> 1000000" by (simp add: write_tx_def sample_tx_def
      Serialize_vector_def WriteCompactSize_def ser_CTxIn_def ser_CTxOut_def ser_COutPoint_def Serialize_bytes_def
      ser_word_def WRITEDATA_def WRITESIGNED_def)
  moreover have "no_duplicates (vin sample_tx)" by (simp add: no_duplicates_def sample_tx_def)
  moreover have "IsCoinBase sample_tx = False" "IsZerocoinSpend_tx sample_tx = False"
      "list_all (\<lambda>out. \<not> CTxOut_IsZerocoinMint out \<and> \<not> IsZerocoinSpend (scriptPubKey out)) (vout sample_tx)"
      "list_all (\<lambda>i. \<not> COutPoint_IsNull (prevout i)) (vin sample_tx)" by code_simp+
  ultimately show ?thesis
    by (subst CheckTransaction_iff) (simp_all add: sample_params_def sample_tx_def)
qed

definition cltv_env :: eval_env where
  "cltv_env = \<lparr>ee_flags = SCRIPT_VERIFY_CHECKLOCKTIMEVERIFY,
     ee_checker = TransactionSignatureChecker sum_hashes (\<lambda>_ _ _. False) sample_tx 0 0,
     ee_sigversion = SIGVERSION_BASE, ee_hashes = sum_hashes\<rparr>"

lemma checklocktimeverify_locks_witness:
  "EvalScript cltv_env [] [2, 40, 0, 0xb1, 0x75, 0x51] = Inr [[1]] \<and>
    (40 :: int) < (if (40 :: int) < LOCKTIME_THRESHOLD then 51 else 1)"
proof -
  have e: "EvalScript cltv_env [] [2, 40, 0, 0xb1, 0x75, 0x51] = Inr [[1]]" by code_simp
  have g: "GetOp2 [2, 40, 0, 0xb1, 0x75, 0x51] = (True, 2, [40, 0], 0xb1 # [0x75, 0x51])" by code_simp
  have n: "stacknum cltv_env 5 (pushed 2 [40, 0]) = Inr 40" by code_simp
  have "\<exists>n. stacknum cltv_env 5 (pushed 2 [40, 0]) = Inr n \<and> 0 \<le> n \<and>
      (\<forall>ch at h t. 0 < h \<and> 0 < t \<and> IsFinalTx ch at sample_tx h t \<longrightarrow> n < (if n < LOCKTIME_THRESHOLD then h else t))"
    by (rule checklocktimeverify_locks [OF e g, of sum_hashes "\<lambda>_ _ _. False" sample_tx 0 0])
      (simp_all add: cltv_env_def has_flag_def flag_defs sample_tx_def opcode_defs)
  then have "\<forall>ch at h t. 0 < h \<and> 0 < t \<and> IsFinalTx ch at sample_tx h t \<longrightarrow>
      (40 :: int) < (if (40 :: int) < LOCKTIME_THRESHOLD then h else t)" using n by auto
  moreover have "IsFinalTx 0 0 sample_tx 51 1" by (simp add: sample_tx_def IsFinalTx_def LOCKTIME_THRESHOLD_def)
  ultimately have "(40 :: int) < (if (40 :: int) < LOCKTIME_THRESHOLD then 51 else 1)" by (metis zero_less_numeral zero_less_one)
  then show ?thesis using e by blast
qed

section \<open>Signature operations\<close>

definition GetLegacySigOpCount :: "CTransaction \<Rightarrow> nat" where
  "GetLegacySigOpCount tx =
     sum_list (map (\<lambda>i. GetSigOpCount False (scriptSig i)) (vin tx)) +
     sum_list (map (\<lambda>out. GetSigOpCount False (scriptPubKey out)) (vout tx))"

fun p2sh_sigops_loop :: "'b CCoinsView \<Rightarrow> CTxIn list \<Rightarrow> nat \<Rightarrow> 'b CCoinsViewCache \<Rightarrow> (nat \<times> 'b CCoinsViewCache) option" where
  "p2sh_sigops_loop V [] nSigOps c = Some (nSigOps, c)"
| "p2sh_sigops_loop V (txin # ins) nSigOps c =
     (case GetOutputFor V txin c of
        None \<Rightarrow> None
      | Some (out, c') \<Rightarrow>
          p2sh_sigops_loop V ins
            (if IsPayToScriptHash (scriptPubKey out)
             then nSigOps + GetSigOpCount_p2sh (scriptPubKey out) (scriptSig txin) else nSigOps) c')"

definition GetP2SHSigOpCount :: "'b CCoinsView \<Rightarrow> CTransaction \<Rightarrow> 'b CCoinsViewCache \<Rightarrow> (nat \<times> 'b CCoinsViewCache) option" where
  "GetP2SHSigOpCount V tx c =
     (if IsCoinBase tx \<or> IsZerocoinSpend_tx tx then Some (0, c) else p2sh_sigops_loop V (vin tx) 0 c)"

definition input_witness :: "CTransaction \<Rightarrow> nat \<Rightarrow> CScriptWitness option" where
  "input_witness tx i = (if i < length (wit tx) then Some (wit tx ! i) else None)"

fun witness_sigops_loop :: "'b CCoinsView \<Rightarrow> CTransaction \<Rightarrow> flags \<Rightarrow> nat list \<Rightarrow> nat \<Rightarrow> 'b CCoinsViewCache \<Rightarrow>
    (nat \<times> 'b CCoinsViewCache) option" where
  "witness_sigops_loop V tx fl [] nSigOps c = Some (nSigOps, c)"
| "witness_sigops_loop V tx fl (i # is) nSigOps c =
     (case GetOutputFor V (vin tx ! i) c of
        None \<Rightarrow> None
      | Some (out, c') \<Rightarrow>
          (case CountWitnessSigOps (scriptSig (vin tx ! i)) (scriptPubKey out) (input_witness tx i) fl of
             Inl _ \<Rightarrow> None
           | Inr n \<Rightarrow> witness_sigops_loop V tx fl is (nSigOps + n) c'))"

definition GetTransactionSigOpCost :: "'b CCoinsView \<Rightarrow> CTransaction \<Rightarrow> flags \<Rightarrow> 'b CCoinsViewCache \<Rightarrow>
    (nat \<times> 'b CCoinsViewCache) option" where
  "GetTransactionSigOpCost V tx fl c =
     (let n0 = GetLegacySigOpCount tx * WITNESS_SCALE_FACTOR in
      if IsCoinBase tx \<or> ContainsZerocoins tx then Some (n0, c)
      else case (if has_flag fl SCRIPT_VERIFY_P2SH then GetP2SHSigOpCount V tx c else Some (0, c)) of
             None \<Rightarrow> None
           | Some (p, c') \<Rightarrow>
               witness_sigops_loop V tx fl [0..<length (vin tx)] (n0 + p * WITNESS_SCALE_FACTOR) c')"

section \<open>CheckInputs\<close>

definition MANDATORY_SCRIPT_VERIFY_FLAGS :: flags where
  "MANDATORY_SCRIPT_VERIFY_FLAGS = SCRIPT_VERIFY_P2SH"

definition STANDARD_SCRIPT_VERIFY_FLAGS :: flags where
  "STANDARD_SCRIPT_VERIFY_FLAGS = MANDATORY_SCRIPT_VERIFY_FLAGS OR SCRIPT_VERIFY_DERSIG OR SCRIPT_VERIFY_STRICTENC OR
     SCRIPT_VERIFY_MINIMALDATA OR SCRIPT_VERIFY_NULLDUMMY OR SCRIPT_VERIFY_DISCOURAGE_UPGRADABLE_NOPS OR
     SCRIPT_VERIFY_WITNESS OR SCRIPT_VERIFY_CLEANSTACK OR SCRIPT_VERIFY_LOW_S OR
     SCRIPT_VERIFY_DISCOURAGE_UPGRADABLE_WITNESS_PROGRAM OR SCRIPT_VERIFY_WITNESS_PUBKEYTYPE OR
     SCRIPT_VERIFY_CHECKSEQUENCEVERIFY OR SCRIPT_VERIFY_CHECKLOCKTIMEVERIFY"

definition STANDARD_NOT_MANDATORY_VERIFY_FLAGS :: flags where
  "STANDARD_NOT_MANDATORY_VERIFY_FLAGS = STANDARD_SCRIPT_VERIFY_FLAGS AND NOT MANDATORY_SCRIPT_VERIFY_FLAGS"

record CScriptCheck =
  sc_scriptPubKey :: bytes
  sc_amount :: int
  sc_nIn :: nat
  sc_nFlags :: flags

definition CScriptCheck_of :: "CCoins \<Rightarrow> CTransaction \<Rightarrow> nat \<Rightarrow> flags \<Rightarrow> CScriptCheck" where
  "CScriptCheck_of txFrom txTo nIn nFlags =
     (let out = coins_vout txFrom ! unat (out_n (prevout (vin txTo ! nIn)))
      in \<lparr>sc_scriptPubKey = scriptPubKey out, sc_amount = nValue out, sc_nIn = nIn, sc_nFlags = nFlags\<rparr>)"

definition run_check :: "hashes \<Rightarrow> ec_verify \<Rightarrow> CTransaction \<Rightarrow> CScriptCheck \<Rightarrow> verify_fail + unit" where
  "run_check hs ec tx ck =
     VerifyScript \<lparr>ee_flags = sc_nFlags ck, ee_checker = TransactionSignatureChecker hs ec tx (sc_nIn ck) (sc_amount ck),
         ee_sigversion = SIGVERSION_BASE, ee_hashes = hs\<rparr>
       (scriptSig (vin tx ! sc_nIn ck)) (sc_scriptPubKey ck) (input_witness tx (sc_nIn ck))"

fun check_values :: "'b CCoinsView \<Rightarrow> chain_params \<Rightarrow> int \<Rightarrow> CTxIn list \<Rightarrow> int \<Rightarrow> 'b CCoinsViewCache \<Rightarrow>
    check_fail + int \<times> 'b CCoinsViewCache" where
  "check_values V P nSpendHeight [] nValueIn c = Inr (nValueIn, c)"
| "check_values V P nSpendHeight (txin # ins) nValueIn c =
     (case AccessCoins V (out_hash (prevout txin)) c of
        (None, _) \<Rightarrow> Inl Aborted
      | (Some cs, c') \<Rightarrow>
          if (fCoinBase cs \<or> fCoinStake cs) \<and> nSpendHeight - coins_height cs < COINBASE_MATURITY P
          then Invalid REJECT_INVALID ''bad-txns-premature-spend-of-coinbase''
          else
            let value = nValue (coins_vout cs ! unat (out_n (prevout txin)));
                v = wrap64 (nValueIn + value)
            in if \<not> MoneyRange P value \<or> \<not> MoneyRange P v
               then DoS 100 REJECT_INVALID ''bad-txns-inputvalues-outofrange''
               else check_values V P nSpendHeight ins v c')"

definition check_fee :: "chain_params \<Rightarrow> CTransaction \<Rightarrow> int \<Rightarrow> check_fail + unit" where
  "check_fee P tx nValueIn =
     (if IsCoinStake tx then Inr ()
      else case GetValueOut tx of
        None \<Rightarrow> Inl Aborted
      | Some nValueOut \<Rightarrow>
          if nValueIn < nValueOut then DoS 100 REJECT_INVALID ''bad-txns-in-belowout''
          else
            let nTxFee = wrap64 (nValueIn - nValueOut) in
            if nTxFee < 0 then DoS 100 REJECT_INVALID ''bad-txns-fee-negative''
            else if \<not> MoneyRange P nTxFee then DoS 100 REJECT_INVALID ''bad-txns-fee-outofrange''
            else Inr ())"

text \<open>The script checks, run at once or collected in \<open>pvChecks\<close>.  The reason given on failure is without the
  text of the script error.\<close>

definition script_failure :: "hashes \<Rightarrow> ec_verify \<Rightarrow> CTransaction \<Rightarrow> CScriptCheck \<Rightarrow> verify_fail \<Rightarrow> check_fail + 'a" where
  "script_failure hs ec tx ck e =
     (if e = Assert_failed then Inl Aborted
      else if sc_nFlags ck AND STANDARD_NOT_MANDATORY_VERIFY_FLAGS \<noteq> 0 then
        (case run_check hs ec tx (ck\<lparr>sc_nFlags := sc_nFlags ck AND NOT STANDARD_NOT_MANDATORY_VERIFY_FLAGS\<rparr>) of
           Inr _ \<Rightarrow> Invalid REJECT_NONSTANDARD ''non-mandatory-script-verify-flag''
         | Inl e2 \<Rightarrow> if e2 = Assert_failed then Inl Aborted
                     else DoS 100 REJECT_INVALID ''mandatory-script-verify-flag-failed'')
      else DoS 100 REJECT_INVALID ''mandatory-script-verify-flag-failed'')"

fun check_scripts :: "'b CCoinsView \<Rightarrow> hashes \<Rightarrow> ec_verify \<Rightarrow> CTransaction \<Rightarrow> flags \<Rightarrow> bool \<Rightarrow> nat list \<Rightarrow>
    CScriptCheck list \<Rightarrow> 'b CCoinsViewCache \<Rightarrow> check_fail + CScriptCheck list \<times> 'b CCoinsViewCache" where
  "check_scripts V hs ec tx fl collect [] pvChecks c = Inr (pvChecks, c)"
| "check_scripts V hs ec tx fl collect (i # is) pvChecks c =
     (case AccessCoins V (out_hash (prevout (vin tx ! i))) c of
        (None, _) \<Rightarrow> Inl Aborted
      | (Some cs, c') \<Rightarrow>
          let ck = CScriptCheck_of cs tx i fl in
          if collect then check_scripts V hs ec tx fl collect is (pvChecks @ [ck]) c'
          else case run_check hs ec tx ck of
                 Inr _ \<Rightarrow> check_scripts V hs ec tx fl collect is pvChecks c'
               | Inl e \<Rightarrow> script_failure hs ec tx ck e)"

definition CheckInputs :: "'b CCoinsView \<Rightarrow> hashes \<Rightarrow> ec_verify \<Rightarrow> chain_params \<Rightarrow> (uint256 \<Rightarrow> int option) \<Rightarrow>
    CTransaction \<Rightarrow> bool \<Rightarrow> flags \<Rightarrow> bool \<Rightarrow> 'b CCoinsViewCache \<Rightarrow>
    check_fail + CScriptCheck list \<times> 'b CCoinsViewCache" where
  "CheckInputs V hs ec P heights tx fScriptChecks fl collect c =
     (if has_inputs tx then
        (case HaveInputs V tx c of
           (False, _) \<Rightarrow> Invalid 0 []
         | (True, c1) \<Rightarrow>
             (case GetBestBlock V c1 of (best, c2) \<Rightarrow>
               case heights best of
                 None \<Rightarrow> Inl Aborted
               | Some nHeight \<Rightarrow>
                   vbind (check_values V P (nHeight + 1) (vin tx) 0 c2) (\<lambda>(nValueIn, c3).
                   vbind (check_fee P tx nValueIn) (\<lambda>_.
                   if fScriptChecks then check_scripts V hs ec tx fl collect [0..<length (vin tx)] [] c3
                   else Inr ([], c3)))))
      else Inr ([], c))"

text \<open>The value of an input in an unspent set, and its maturity.\<close>

definition input_value :: "utxos \<Rightarrow> CTxIn \<Rightarrow> int" where
  "input_value A txin = nValue (the (utxo_output A (prevout txin)))"

definition input_ok :: "chain_params \<Rightarrow> int \<Rightarrow> utxos \<Rightarrow> CTxIn \<Rightarrow> bool" where
  "input_ok P nSpendHeight A txin \<longleftrightarrow>
     (\<exists>cs out. A (out_hash (prevout txin)) = Some cs \<and> utxo_output A (prevout txin) = Some out \<and>
       0 \<le> nValue out \<and> nValue out \<le> MaxMoneyOut P \<and>
       (fCoinBase cs \<or> fCoinStake cs \<longrightarrow> nSpendHeight - coins_height cs \<ge> COINBASE_MATURITY P))"

lemma Invalid_not_Inr [simp]: "Invalid c r \<noteq> Inr x"
  by (simp add: Invalid_def)

lemma script_failure_not_Inr [simp]: "script_failure hs ec tx ck e \<noteq> Inr x"
  by (auto simp: script_failure_def split: sum.splits)

lemma check_fee_Inr:
  assumes "check_fee P tx v = Inr ()" and "\<not> IsCoinStake tx" and "0 \<le> v" and "v < 2 ^ 62"
    and "\<forall>out \<in> set (vout tx). nValue out < 2 ^ 63"
  shows "sum_list (map nValue (vout tx)) \<le> v \<and> v - sum_list (map nValue (vout tx)) \<le> MaxMoneyOut P \<and>
    (\<forall>out \<in> set (vout tx). 0 \<le> nValue out)"
proof -
  let ?s = "sum_list (map nValue (vout tx))"
  obtain vo where vo: "GetValueOut tx = Some vo" "vo \<le> v" "MoneyRange P (wrap64 (v - vo))"
    using assms(1,2) by (auto simp: check_fee_def Let_def split: option.splits if_splits)
  have l: "GetValueOut tx = (if (\<forall>out \<in> set (vout tx). 0 \<le> nValue out) \<and> ?s < 2 ^ 63 then Some ?s else None)"
    unfolding GetValueOut_def using GetValueOut_loop_eq [of 0 "vout tx"] assms(5) by simp
  then have s: "vo = ?s" "\<forall>out \<in> set (vout tx). 0 \<le> nValue out" using vo(1) by (auto split: if_splits)
  then have "0 \<le> ?s" by (auto intro!: sum_list_nonneg)
  then have "wrap64 (v - vo) = v - vo" using vo(2) assms(3,4) s(1) by (intro wrap64_id) simp_all
  then show ?thesis using vo(2,3) s by (simp add: MoneyRange_def)
qed

context coins_view
begin

lemma check_values_ok:
  assumes "cache_inv abs has inv c" and "\<forall>i \<in> set ins. utxo_output (cache_abs abs c) (prevout i) \<noteq> None"
    and "check_values V P h ins v c = Inr (v', c')" and "0 \<le> v" "v \<le> MaxMoneyOut P" "MaxMoneyOut P < 2 ^ 62"
  shows "cache_inv abs has inv c' \<and> cache_abs abs c' = cache_abs abs c \<and>
    (\<forall>i \<in> set ins. input_ok P h (cache_abs abs c) i) \<and>
    v' = v + sum_list (map (input_value (cache_abs abs c)) ins) \<and> 0 \<le> v' \<and> v' \<le> MaxMoneyOut P"
  using assms
proof (induction ins arbitrary: c v)
  case (Cons i ins)
  let ?A = "cache_abs abs c" and ?n = "unat (out_n (prevout i))"
  obtain r c1 where r: "AccessCoins V (out_hash (prevout i)) c = (r, c1)" by force
  have c1: "cache_inv abs has inv c1" "cache_abs abs c1 = ?A" "unspent r = ?A (out_hash (prevout i))"
    using access [OF Cons.prems(1) r] by auto
  obtain cs where cs: "r = Some cs" "IsAvailable cs ?n" "utxo_output ?A (prevout i) = Some (coins_vout cs ! ?n)"
    using Cons.prems(2) utxo_output_unspent [where A = ?A and p = "prevout i", OF c1(3)]
    by (auto split: option.splits if_splits)
  have "\<not> IsPruned cs" using cs(2) by (auto simp: IsAvailable_def IsPruned_def list_all_length)
  then have A: "?A (out_hash (prevout i)) = Some cs" using c1(3) cs(1) by simp
  let ?x = "nValue (coins_vout cs ! ?n)"
  have m: "fCoinBase cs \<or> fCoinStake cs \<longrightarrow> h - coins_height cs \<ge> COINBASE_MATURITY P"
    "MoneyRange P ?x" "MoneyRange P (wrap64 (v + ?x))"
    "check_values V P h ins (wrap64 (v + ?x)) c1 = Inr (v', c')"
    using Cons.prems(3) by (auto simp: r cs(1) Let_def split: if_splits)
  have w: "wrap64 (v + ?x) = v + ?x"
    using m(2) Cons.prems(4-6) by (intro wrap64_id) (simp_all add: MoneyRange_def)
  have v: "0 \<le> v + ?x" "v + ?x \<le> MaxMoneyOut P" using m(3) w by (simp_all add: MoneyRange_def)
  have ins: "\<forall>i \<in> set ins. utxo_output (cache_abs abs c1) (prevout i) \<noteq> None"
    using Cons.prems(2) c1(2) by simp
  have "input_ok P h ?A i" "input_value ?A i = ?x"
    using A cs(3) m(1,2) by (simp_all add: input_ok_def input_value_def MoneyRange_def)
  then show ?case
    using Cons.IH [OF c1(1) ins m(4) [unfolded w] v Cons.prems(6)] by (auto simp: c1(2))
qed simp

text \<open>Both ways of checking scripts: when the checks run or, collected, all succeed, every input does.\<close>

lemma check_scripts_ok:
  assumes "cache_inv abs has inv c" and "check_scripts V hs ec tx fl collect is cks c = Inr (cks', c')"
    and "\<forall>i \<in> set is. utxo_output (cache_abs abs c) (prevout (vin tx ! i)) \<noteq> None"
  shows "cache_inv abs has inv c' \<and> cache_abs abs c' = cache_abs abs c \<and> set cks \<subseteq> set cks' \<and>
    ((\<forall>ck \<in> set cks'. run_check hs ec tx ck = Inr ()) \<longrightarrow>
     (\<forall>i \<in> set is. run_check hs ec tx
        (let out = the (utxo_output (cache_abs abs c) (prevout (vin tx ! i)))
         in \<lparr>sc_scriptPubKey = scriptPubKey out, sc_amount = nValue out, sc_nIn = i, sc_nFlags = fl\<rparr>) = Inr ()))"
  using assms
proof (induction "is" arbitrary: c cks)
  case (Cons i "is")
  let ?A = "cache_abs abs c" and ?p = "prevout (vin tx ! i)"
  obtain r c1 where r: "AccessCoins V (out_hash ?p) c = (r, c1)" by force
  have c1: "cache_inv abs has inv c1" "cache_abs abs c1 = ?A" "unspent r = ?A (out_hash ?p)"
    using access [OF Cons.prems(1) r] by auto
  obtain cs where cs: "r = Some cs" "utxo_output ?A ?p = Some (coins_vout cs ! unat (out_n ?p))"
    using Cons.prems(3) utxo_output_unspent [where A = ?A and p = ?p, OF c1(3)]
    by (auto split: option.splits if_splits)
  let ?ck = "CScriptCheck_of cs tx i fl"
  have ck: "?ck = (let out = the (utxo_output ?A ?p)
      in \<lparr>sc_scriptPubKey = scriptPubKey out, sc_amount = nValue out, sc_nIn = i, sc_nFlags = fl\<rparr>)"
    by (simp add: CScriptCheck_of_def cs(2) Let_def)
  have rest: "\<forall>i \<in> set is. utxo_output (cache_abs abs c1) (prevout (vin tx ! i)) \<noteq> None"
    using Cons.prems(3) c1(2) by simp
  show ?case
  proof (cases collect)
    case True
    then have s: "check_scripts V hs ec tx fl collect is (cks @ [?ck]) c1 = Inr (cks', c')"
      using Cons.prems(2) by (simp add: r cs(1) Let_def)
    show ?thesis using Cons.IH [OF c1(1) s rest] by (auto simp: c1(2) ck)
  next
    case False
    have s: "run_check hs ec tx ?ck = Inr ()" "check_scripts V hs ec tx fl collect is cks c1 = Inr (cks', c')"
      using Cons.prems(2) False by (auto simp: r cs(1) Let_def split: sum.splits)
    show ?thesis using Cons.IH [OF c1(1) s(2) rest] s(1) by (auto simp: c1(2) ck)
  qed
qed simp

text \<open>Counting signature operations only reads the view.\<close>

lemma output_for:
  assumes "cache_inv abs has inv c" and "GetOutputFor V i c = Some (out, c')"
  shows "cache_inv abs has inv c' \<and> cache_abs abs c' = cache_abs abs c"
proof -
  obtain r c1 where r: "AccessCoins V (out_hash (prevout i)) c = (r, c1)" by force
  then show ?thesis using access [OF assms(1) r] assms(2) by (auto simp: GetOutputFor_def split: option.splits if_splits)
qed

lemma p2sh_sigops:
  "cache_inv abs has inv c \<Longrightarrow> p2sh_sigops_loop V ins n c = Some (m, c') \<Longrightarrow>
    cache_inv abs has inv c' \<and> cache_abs abs c' = cache_abs abs c"
proof (induction ins arbitrary: n c)
  case (Cons i ins)
  obtain out c1 k where o: "GetOutputFor V i c = Some (out, c1)" "p2sh_sigops_loop V ins k c1 = Some (m, c')"
    using Cons.prems(2) by (auto split: option.splits)
  show ?case using output_for [OF Cons.prems(1) o(1)] Cons.IH [OF _ o(2)] by simp
qed simp

lemma witness_sigops:
  "cache_inv abs has inv c \<Longrightarrow> witness_sigops_loop V tx fl is n c = Some (m, c') \<Longrightarrow>
    cache_inv abs has inv c' \<and> cache_abs abs c' = cache_abs abs c"
proof (induction "is" arbitrary: n c)
  case (Cons i "is")
  obtain out c1 k where o: "GetOutputFor V (vin tx ! i) c = Some (out, c1)" "witness_sigops_loop V tx fl is k c1 = Some (m, c')"
    using Cons.prems(2) by (auto split: option.splits sum.splits)
  show ?case using output_for [OF Cons.prems(1) o(1)] Cons.IH [OF _ o(2)] by simp
qed simp

lemma sigop_cost:
  assumes "cache_inv abs has inv c" and "GetTransactionSigOpCost V tx fl c = Some (n, c')"
  shows "cache_inv abs has inv c' \<and> cache_abs abs c' = cache_abs abs c"
proof (cases "IsCoinBase tx \<or> ContainsZerocoins tx")
  case False
  then obtain p k c1 where p: "(if has_flag fl SCRIPT_VERIFY_P2SH then GetP2SHSigOpCount V tx c else Some (0, c)) = Some (p, c1)"
      "witness_sigops_loop V tx fl [0..<length (vin tx)] k c1 = Some (n, c')"
    using assms(2) unfolding GetTransactionSigOpCost_def Let_def by (auto split: option.splits)
  have "cache_inv abs has inv c1 \<and> cache_abs abs c1 = cache_abs abs c"
    using p(1) p2sh_sigops [OF assms(1)] assms(1) by (auto simp: GetP2SHSigOpCount_def split: if_splits)
  then show ?thesis using witness_sigops [OF _ p(2)] by simp
qed (use assms in \<open>auto simp: GetTransactionSigOpCost_def Let_def\<close>)

lemma check_inputs_ok:
  assumes "cache_inv abs has inv s" and "has_inputs tx" and "0 \<le> MaxMoneyOut P" and "MaxMoneyOut P < 2 ^ 62"
    and "\<forall>out \<in> set (vout tx). nValue out < 2 ^ 63"
    and "CheckInputs V hs ec P heights tx fScriptChecks fl collect s = Inr (checks, s')"
  shows "cache_inv abs has inv s' \<and> cache_abs abs s' = cache_abs abs s \<and>
    (\<exists>nHeight. heights (fst (GetBestBlock V (snd (HaveInputs V tx s)))) = Some nHeight \<and>
      (\<forall>i \<in> set (vin tx). input_ok P (nHeight + 1) (cache_abs abs s) i)) \<and>
    sum_list (map (input_value (cache_abs abs s)) (vin tx)) \<le> MaxMoneyOut P \<and>
    (\<not> IsCoinStake tx \<longrightarrow>
      sum_list (map nValue (vout tx)) \<le> sum_list (map (input_value (cache_abs abs s)) (vin tx))) \<and>
    (fScriptChecks \<and> (\<forall>ck \<in> set checks. run_check hs ec tx ck = Inr ()) \<longrightarrow>
      (\<forall>i < length (vin tx). run_check hs ec tx
        (let out = the (utxo_output (cache_abs abs s) (prevout (vin tx ! i)))
         in \<lparr>sc_scriptPubKey = scriptPubKey out, sc_amount = nValue out, sc_nIn = i, sc_nFlags = fl\<rparr>) = Inr ()))"
proof -
  let ?A = "cache_abs abs s"
  have ni: "\<not> IsCoinBase tx" "\<not> IsZerocoinSpend_tx tx" using assms(2) by (auto simp: has_inputs_def)
  obtain q c1 where q: "HaveInputs V tx s = (q, c1)" by force
  obtain best c2 where b: "GetBestBlock V c1 = (best, c2)" by force
  have qt: "q" using assms(2,6) q by (auto simp: CheckInputs_def split: bool.splits)
  obtain nHeight v c3 where x: "heights best = Some nHeight"
      "check_values V P (nHeight + 1) (vin tx) 0 c2 = Inr (v, c3)" "check_fee P tx v = Inr ()"
      "(if fScriptChecks then check_scripts V hs ec tx fl collect [0..<length (vin tx)] [] c3
        else Inr ([], c3)) = Inr (checks, s')"
    using assms(2,6) q b qt by (auto simp: CheckInputs_def split: option.splits)
  have h: "HaveInputs_loop V (vin tx) s = (True, c1)" using ni q qt by (simp add: HaveInputs_def)
  have c1: "cache_inv abs has inv c1" "cache_abs abs c1 = ?A" "\<forall>i \<in> set (vin tx). utxo_output ?A (prevout i) \<noteq> None"
    using have_inputs_loop [OF assms(1) h] by auto
  have c2: "cache_inv abs has inv c2" "cache_abs abs c2 = ?A" using cache_best [OF c1(1) b] c1(2) by auto
  have have2: "\<forall>i \<in> set (vin tx). utxo_output (cache_abs abs c2) (prevout i) \<noteq> None" using c1(3) c2(2) by simp
  have c3: "cache_inv abs has inv c3" "cache_abs abs c3 = ?A" "\<forall>i \<in> set (vin tx). input_ok P (nHeight + 1) ?A i"
      "v = sum_list (map (input_value ?A) (vin tx))" "0 \<le> v" "v \<le> MaxMoneyOut P"
    using check_values_ok [OF c2(1) have2 x(2) order_refl assms(3,4)] c2(2) by auto
  have fee: "\<not> IsCoinStake tx \<longrightarrow> sum_list (map nValue (vout tx)) \<le> v"
    using check_fee_Inr [OF x(3) _ c3(5) _ assms(5)] c3(6) assms(4) by auto
  have have3: "\<forall>i \<in> set [0..<length (vin tx)]. utxo_output (cache_abs abs c3) (prevout (vin tx ! i)) \<noteq> None"
    using c1(3) c3(2) by simp
  have s': "cache_inv abs has inv s' \<and> cache_abs abs s' = ?A \<and> (fScriptChecks \<and> (\<forall>ck \<in> set checks. run_check hs ec tx ck = Inr ()) \<longrightarrow>
      (\<forall>i < length (vin tx). run_check hs ec tx
        (let out = the (utxo_output ?A (prevout (vin tx ! i)))
         in \<lparr>sc_scriptPubKey = scriptPubKey out, sc_amount = nValue out, sc_nIn = i, sc_nFlags = fl\<rparr>) = Inr ()))"
  proof (cases fScriptChecks)
    case True
    then have "check_scripts V hs ec tx fl collect [0..<length (vin tx)] [] c3 = Inr (checks, s')" using x(4) by simp
    from check_scripts_ok [OF c3(1) this have3] show ?thesis by (simp add: c3(2))
  next
    case False
    then show ?thesis using x(4) c3 by simp
  qed
  have "heights (fst (GetBestBlock V (snd (HaveInputs V tx s)))) = Some nHeight"
    using x(1) b q by simp
  then show ?thesis using s' c3 fee by blast
qed

end

text \<open>C6: No inflation and no theft through \<open>CheckInputs\<close>: for a transaction with ordinary inputs that passed
  \<open>CheckTransaction\<close>, acceptance on a block view means that every input names an available output of
  the unspent set, coinbase and coinstake outputs are mature, input values and their exact sum are in
  range, the outputs add up to no more than the inputs (unless it is a coinstake) and, when scripts
  are checked and the checks handed to the worker threads succeed too, the script of every input
  verifies against the script of the output it spends.  The unspent set is unchanged.\<close>

theorem CheckInputs_sound:
  assumes "block_inv s" and "has_inputs tx" and "0 \<le> MaxMoneyOut P" and "MaxMoneyOut P < 2 ^ 62"
    and "\<forall>out \<in> set (vout tx). nValue out < 2 ^ 63"
    and "CheckInputs tip_view hs ec P heights tx fScriptChecks fl collect s = Inr (checks, s')"
  shows "block_inv s' \<and> block_abs s' = block_abs s \<and>
    (\<exists>nHeight. heights (fst (GetBestBlock tip_view (snd (HaveInputs tip_view tx s)))) = Some nHeight \<and>
      (\<forall>i \<in> set (vin tx). input_ok P (nHeight + 1) (block_abs s) i)) \<and>
    sum_list (map (input_value (block_abs s)) (vin tx)) \<le> MaxMoneyOut P \<and>
    (\<not> IsCoinStake tx \<longrightarrow>
      sum_list (map nValue (vout tx)) \<le> sum_list (map (input_value (block_abs s)) (vin tx))) \<and>
    (fScriptChecks \<and> (\<forall>ck \<in> set checks. run_check hs ec tx ck = Inr ()) \<longrightarrow>
      (\<forall>i < length (vin tx). run_check hs ec tx
        (let out = the (utxo_output (block_abs s) (prevout (vin tx ! i)))
         in \<lparr>sc_scriptPubKey = scriptPubKey out, sc_amount = nValue out, sc_nIn = i, sc_nFlags = fl\<rparr>) = Inr ()))"
  by (rule tipv.check_inputs_ok [OF assms])

definition paying_tx :: CTransaction where
  "paying_tx = sample_tx\<lparr>vout := [\<lparr>nValue = 6, scriptPubKey = [0x51], nRounds = - 10\<rparr>]\<rparr>"

lemma CheckInputs_sound_witness:
  "\<exists>s'. CheckInputs tip_view sum_hashes (\<lambda>_ _ _. False) sample_params (\<lambda>_. Some 150) paying_tx True
      SCRIPT_VERIFY_P2SH False (CCoinsViewCache_new (CCoinsViewCache_new sample_db)) = Inr ([], s') \<and>
    block_abs s' = db_abs sample_db \<and> input_value (db_abs sample_db) (vin paying_tx ! 0) \<ge> 6"
proof -
  let ?s = "CCoinsViewCache_new (CCoinsViewCache_new sample_db)"
  let ?r = "CheckInputs tip_view sum_hashes (\<lambda>_ _ _. False) sample_params (\<lambda>_. Some 150) paying_tx True
      SCRIPT_VERIFY_P2SH False ?s"
  have i: "block_inv ?s" "block_abs ?s = db_abs sample_db"
    using tip_new [of sample_db] block_new [of "CCoinsViewCache_new sample_db"] by simp_all
  have "(case ?r of Inl _ \<Rightarrow> False | Inr (cks, _) \<Rightarrow> cks = [])" by code_simp
  then obtain s' where r: "?r = Inr ([], s')" by (auto split: sum.splits)
  have h: "has_inputs paying_tx" "\<not> IsCoinStake paying_tx" by code_simp+
  have p: "0 \<le> MaxMoneyOut sample_params" "MaxMoneyOut sample_params < 2 ^ 62" by (simp_all add: sample_params_def)
  have o: "\<forall>out \<in> set (vout paying_tx). nValue out < 2 ^ 63" by (simp add: paying_tx_def)
  have "sum_list (map nValue (vout paying_tx)) \<le> sum_list (map (input_value (db_abs sample_db)) (vin paying_tx))"
    using CheckInputs_sound [OF i(1) h(1) p o r] h(2) i(2) by simp
  moreover have "sum_list (map (input_value A) (vin paying_tx)) = input_value A (vin paying_tx ! 0)" for A
    by (simp add: paying_tx_def sample_tx_def)
  moreover have "sum_list (map nValue (vout paying_tx)) = 6" by (simp add: paying_tx_def)
  moreover have "block_abs s' = db_abs sample_db" using CheckInputs_sound [OF i(1) h(1) p o r] i(2) by simp
  ultimately show ?thesis using r by auto
qed

section \<open>The signature cache\<close>

type_synonym sigdata = "uint256 \<times> bytes \<times> bytes"

definition SigCache_Get :: "sigdata set \<Rightarrow> sigdata \<Rightarrow> bool" where
  "SigCache_Get setValid k \<longleftrightarrow> k \<in> setValid"

text \<open>Eviction of random entries until the cache is small enough; \<open>pick n S\<close> is the entry that the \<open>n\<close>-th
  random number selects from \<open>S\<close>.\<close>

function SigCache_evict :: "(nat \<Rightarrow> sigdata set \<Rightarrow> sigdata) \<Rightarrow> int \<Rightarrow> nat \<Rightarrow> sigdata set \<Rightarrow> sigdata set" where
  "SigCache_evict pick nMaxCacheSize n S =
     (if finite S \<and> int (card S) > nMaxCacheSize \<and> pick n S \<in> S
      then SigCache_evict pick nMaxCacheSize (Suc n) (S - {pick n S}) else S)"
  by auto
termination
  by (relation "measure (\<lambda>(pick, m, n, S). card S)") (simp_all add: card_Diff1_less del: card_Diff_insert)

definition SigCache_Set :: "(nat \<Rightarrow> sigdata set \<Rightarrow> sigdata) \<Rightarrow> int \<Rightarrow> sigdata set \<Rightarrow> sigdata \<Rightarrow> sigdata set" where
  "SigCache_Set pick nMaxCacheSize S k =
     (if nMaxCacheSize \<le> 0 then S else insert k (SigCache_evict pick nMaxCacheSize 0 S))"

definition CachingVerifySignature :: "(sigdata \<Rightarrow> bool) \<Rightarrow> (nat \<Rightarrow> sigdata set \<Rightarrow> sigdata) \<Rightarrow> int \<Rightarrow> bool \<Rightarrow>
    sigdata \<Rightarrow> sigdata set \<Rightarrow> bool \<times> sigdata set" where
  "CachingVerifySignature verify pick nMaxCacheSize store k S =
     (if SigCache_Get S k then (True, S)
      else if \<not> verify k then (False, S)
      else (True, if store then SigCache_Set pick nMaxCacheSize S k else S))"

declare SigCache_evict.simps [simp del]

lemma SigCache_evict:
  assumes "finite S" and "\<And>n T. T \<noteq> {} \<Longrightarrow> pick n T \<in> T" and "0 \<le> m"
  shows "SigCache_evict pick m n S \<subseteq> S \<and> int (card (SigCache_evict pick m n S)) \<le> m"
  using assms
proof (induction pick m n S rule: SigCache_evict.induct)
  case (1 pick m n S)
  show ?case
  proof (cases "int (card S) > m")
    case True
    then have "S \<noteq> {}" using 1(4) by auto
    then have p: "pick n S \<in> S" by (rule 1(3))
    have c: "finite S \<and> int (card S) > m \<and> pick n S \<in> S" using True p 1(2) by blast
    have e: "SigCache_evict pick m n S = SigCache_evict pick m (Suc n) (S - {pick n S})"
      using c by (simp add: SigCache_evict.simps [of pick m n S])
    have "SigCache_evict pick m (Suc n) (S - {pick n S}) \<subseteq> S - {pick n S} \<and>
        int (card (SigCache_evict pick m (Suc n) (S - {pick n S}))) \<le> m"
      by (rule 1(1) [OF c _ 1(3,4)]) (simp_all add: 1(2))
    then show ?thesis unfolding e by blast
  next
    case False
    then have "SigCache_evict pick m n S = S" by (simp add: SigCache_evict.simps [of pick m n S])
    then show ?thesis using False by simp
  qed
qed

text \<open>A run of signature checks through the cache.\<close>

fun run_cached :: "(sigdata \<Rightarrow> bool) \<Rightarrow> (nat \<Rightarrow> sigdata set \<Rightarrow> sigdata) \<Rightarrow> int \<Rightarrow> (bool \<times> sigdata) list \<Rightarrow> sigdata set \<Rightarrow>
    bool list \<times> sigdata set" where
  "run_cached verify pick m [] S = ([], S)"
| "run_cached verify pick m ((store, k) # ks) S =
     (let (r, S') = CachingVerifySignature verify pick m store k S; (rs, S'') = run_cached verify pick m ks S'
      in (r # rs, S''))"

text \<open>The signature cache is transparent and bounded: over any run of signature checks that starts
  with the empty cache, whatever entries the random eviction picks, every answer is the answer of the
  verification itself, and the cache never holds more than one entry above its limit.\<close>

theorem sigcache_transparent:
  assumes "\<And>n T. T \<noteq> {} \<Longrightarrow> pick n T \<in> T" and "0 < m"
  shows "fst (run_cached verify pick m ks {}) = map (\<lambda>(store, k). verify k) ks \<and>
    int (card (snd (run_cached verify pick m ks {}))) \<le> m + 1"
proof -
  have "fst (run_cached verify pick m ks S) = map (\<lambda>(store, k). verify k) ks \<and>
      finite (snd (run_cached verify pick m ks S)) \<and> int (card (snd (run_cached verify pick m ks S))) \<le> m + 1"
    if "finite S" "\<forall>k \<in> S. verify k" "int (card S) \<le> m + 1" for S
    using that
  proof (induction ks arbitrary: S)
    case (Cons x ks)
    obtain store k where x: "x = (store, k)" by (cases x)
    note ev = SigCache_evict [where pick = pick and m = m and n = 0, OF Cons.prems(1) assms(1) less_imp_le [OF assms(2)]]
    have fin: "finite (SigCache_evict pick m 0 S)" using ev Cons.prems(1) finite_subset by blast
    have "int (card (insert k (SigCache_evict pick m 0 S))) \<le> m + 1"
      using ev fin by (simp add: card_insert_if)
    then have S': "finite (snd (CachingVerifySignature verify pick m store k S)) \<and>
        (\<forall>k \<in> snd (CachingVerifySignature verify pick m store k S). verify k) \<and>
        int (card (snd (CachingVerifySignature verify pick m store k S))) \<le> m + 1"
      using Cons.prems ev fin assms(2) by (auto simp: CachingVerifySignature_def SigCache_Set_def)
    have r: "fst (CachingVerifySignature verify pick m store k S) = verify k"
      using Cons.prems(2) by (auto simp: CachingVerifySignature_def SigCache_Get_def)
    show ?case
      using Cons.IH [of "snd (CachingVerifySignature verify pick m store k S)"] S' r
      by (auto simp: x split_def Let_def)
  qed simp
  from this [of "{}"] show ?thesis using assms(2) by simp
qed

lemma sigcache_transparent_witness:
  "fst (run_cached (\<lambda>(h, _, _). h = 1) (\<lambda>_ S. SOME k. k \<in> S) 1
     [(True, (1, [], [])), (True, (2, [], [])), (True, (1, [], []))] {}) = [True, False, True]"
  using sigcache_transparent [of "\<lambda>_ S. SOME k. k \<in> S" 1 "\<lambda>(h, _, _). h = 1"
      "[(True, (1, [], [])), (True, (2, [], [])), (True, (1, [], []))]"] by (auto simp: some_in_eq)

end
