(* ===== verification/Compress.thy ===== *)
theory Compress
  imports UpdateCoins
begin

text \<open>
  The compact formats of the coins database and the undo files: amounts and scripts
  (src/src/compressor.h and compressor.cpp), \<open>CCoins\<close> (src/src/coins.h) and \<open>CTxInUndo\<close>
  (src/src/undo.h).  Uncompressing a public key needs the curve: \<open>curve_keys\<close> are the operations of
  secp256k1 or OpenSSL behind \<open>CPubKey::IsFullyValid\<close> and \<open>CPubKey::Decompress\<close>.
\<close>

section \<open>Amounts\<close>

text \<open>The loop that divides by 10, and the amount without its trailing zeros.  The assertion of the source
  on the last digit is lemma \<open>strip_zeros_digit\<close>.\<close>

function strip_zeros :: "nat \<Rightarrow> nat \<Rightarrow> nat \<times> nat" where
  "strip_zeros n e = (if n mod 10 = 0 \<and> e < 9 then strip_zeros (n div 10) (e + 1) else (n, e))"
  by auto
termination by (relation "measure (\<lambda>(n, e). 9 - e)") auto

declare strip_zeros.simps [simp del]

definition CompressAmount :: "nat \<Rightarrow> nat" where
  "CompressAmount n =
     (if n = 0 then 0
      else
        let (n, e) = strip_zeros n 0
        in if e < 9 then
             let d = n mod 10; n = n div 10 in (1 + (n * 9 + d - 1) * 10 + e) mod 2 ^ 64
           else (1 + (n - 1) * 10 + 9) mod 2 ^ 64)"

text \<open>The final loop of \<open>DecompressAmount\<close>.\<close>

fun add_zeros :: "nat \<Rightarrow> nat \<Rightarrow> nat" where
  "add_zeros 0 n = n"
| "add_zeros (Suc e) n = add_zeros e ((n * 10) mod 2 ^ 64)"

definition DecompressAmount :: "nat \<Rightarrow> nat" where
  "DecompressAmount x =
     (if x = 0 then 0
      else
        let x = x - 1; e = x mod 10; x = x div 10;
            n = (if e < 9 then let d = x mod 9 + 1 in (x div 9 * 10 + d) mod 2 ^ 64 else (x + 1) mod 2 ^ 64)
        in add_zeros e n)"

lemma strip_zeros:
  "e \<le> 9 \<Longrightarrow> strip_zeros n e = (m, f) \<Longrightarrow>
    e \<le> f \<and> f \<le> 9 \<and> n = m * 10 ^ (f - e) \<and> (f < 9 \<longrightarrow> m mod 10 \<noteq> 0)"
proof (induction n e rule: strip_zeros.induct)
  case (1 n e)
  show ?case
  proof (cases "n mod 10 = 0 \<and> e < 9")
    case True
    then have s: "strip_zeros (n div 10) (e + 1) = (m, f)" using 1(3) by (simp add: strip_zeros.simps [of n e])
    then have h: "e + 1 \<le> f" "f \<le> 9" "n div 10 = m * 10 ^ (f - (e + 1))" "f < 9 \<longrightarrow> m mod 10 \<noteq> 0"
      using 1(1) [OF True _ s] True by auto
    have "n = 10 * (n div 10)" using True by auto
    also have "\<dots> = m * 10 ^ Suc (f - (e + 1))" by (simp only: h(3)) simp
    also have "Suc (f - (e + 1)) = f - e" using h(1) by simp
    finally show ?thesis using h by simp
  next
    case False
    then show ?thesis using 1(2,3) by (auto simp: strip_zeros.simps [of n e])
  qed
qed

lemma strip_zeros_digit: "strip_zeros n 0 = (m, f) \<Longrightarrow> f < 9 \<Longrightarrow> 1 \<le> m mod 10 \<and> m mod 10 \<le> 9"
  using strip_zeros [of 0 n m f] by auto

lemma strip_zeros_power:
  "e + f \<le> 9 \<Longrightarrow> e + f < 9 \<longrightarrow> m mod 10 \<noteq> 0 \<Longrightarrow> strip_zeros (m * 10 ^ f) e = (m, e + f)"
proof (induction f arbitrary: e)
  case (Suc f)
  have m: "m * 10 ^ Suc f mod 10 = 0" "m * 10 ^ Suc f div 10 = m * 10 ^ f" by simp_all
  have "strip_zeros (m * 10 ^ Suc f) e = strip_zeros (m * 10 ^ f) (e + 1)"
    unfolding strip_zeros.simps [of "m * 10 ^ Suc f" e] m using Suc.prems(1) by simp
  then show ?case using Suc.IH [of "e + 1"] Suc.prems by simp
next
  case 0
  then show ?case by (auto simp: strip_zeros.simps [of m e])
qed

lemma le_times_power10: "n \<le> n * 10 ^ e" for n :: nat
  by simp

lemma add_zeros: "n * 10 ^ e < 2 ^ 64 \<Longrightarrow> add_zeros e n = n * 10 ^ e"
proof (induction e arbitrary: n)
  case (Suc e)
  have "n * 10 ^ Suc e = n * 10 * 10 ^ e" by simp
  then have "n * 10 < 2 ^ 64" using Suc.prems le_times_power10 [of "n * 10" e] by linarith
  then show ?case using Suc.IH [of "n * 10"] Suc.prems by simp
qed simp

text \<open>The two shapes of a compressed amount.\<close>

lemma CompressAmount_digit:
  assumes "d \<in> {1..9}" and "f < 9" and "1 + (q * 9 + d - 1) * 10 + f < 2 ^ 64"
  shows "CompressAmount ((q * 10 + d) * 10 ^ f) = 1 + (q * 9 + d - 1) * 10 + f"
proof -
  have z: "strip_zeros ((q * 10 + d) * 10 ^ f) 0 = (q * 10 + d, f)"
    using strip_zeros_power [of 0 f "q * 10 + d"] assms(1,2) by auto
  have m: "(q * 10 + d) mod 10 = d" "(q * 10 + d) div 10 = q" using assms(1) by auto
  have "(q * 10 + d) * 10 ^ f \<noteq> 0" using assms(1) by simp
  then show ?thesis
    using assms(2,3) m unfolding CompressAmount_def z Let_def prod.case by (simp only: if_False if_True m mod_less)
qed

lemma CompressAmount_nine:
  assumes "0 < m" and "1 + (m - 1) * 10 + 9 < 2 ^ 64"
  shows "CompressAmount (m * 10 ^ 9) = 1 + (m - 1) * 10 + 9"
  using strip_zeros_power [of 0 9 m] assms by (simp add: CompressAmount_def)

lemma DecompressAmount_digit:
  assumes "d \<in> {1..9}" and "f < 9" and "(q * 10 + d) * 10 ^ f < 2 ^ 64"
  shows "DecompressAmount (1 + (q * 9 + d - 1) * 10 + f) = (q * 10 + d) * 10 ^ f"
proof -
  obtain k where k: "d = Suc k" "k < 9" using assms(1) by (cases d) auto
  have f: "(a * 10 + f) mod 10 = f" "(a * 10 + f) div 10 = a" for a using assms(2) by simp_all
  have m: "(q * 9 + d - 1) mod 9 + 1 = d" "(q * 9 + d - 1) div 9 = q" using k by simp_all
  have "q * 10 + d < 2 ^ 64" using assms(3) le_times_power10 [of "q * 10 + d" f] by linarith
  then show ?thesis
    using assms(2,3) by (simp add: DecompressAmount_def f m [simplified] add_zeros Let_def)
qed

lemma DecompressAmount_nine:
  assumes "0 < m" and "m * 10 ^ 9 < 2 ^ 64"
  shows "DecompressAmount (1 + (m - 1) * 10 + 9) = m * 10 ^ 9"
proof -
  have m: "((m - 1) * 10 + 9) mod 10 = 9" "((m - 1) * 10 + 9) div 10 = m - 1" by simp_all
  have "m < 2 ^ 64" using assms(2) by simp
  then show ?thesis using assms add_zeros [of m 9] by (simp add: DecompressAmount_def m Let_def)
qed

lemma amount_cases:
  assumes "0 < (n :: nat)"
  obtains (digit) q d f where "n = (q * 10 + d) * 10 ^ f" "d \<in> {1..9}" "f < 9"
  | (nine) m where "n = m * 10 ^ 9" "0 < m"
proof -
  obtain m f where z: "strip_zeros n 0 = (m, f)" by force
  have s: "f \<le> 9" "n = m * 10 ^ f" "f < 9 \<longrightarrow> m mod 10 \<noteq> 0" using strip_zeros [OF _ z] by auto
  show ?thesis
  proof (cases "f < 9")
    case True
    have "n = (m div 10 * 10 + m mod 10) * 10 ^ f" using s(2) by simp
    moreover have "m mod 10 \<in> {1..9}" using s(3) True by auto
    ultimately show ?thesis using digit True by blast
  next
    case False
    then have "n = m * 10 ^ 9" using s by simp
    moreover from this have "0 < m" using assms by (cases m) auto
    ultimately show ?thesis by (rule nine)
  qed
qed

lemma CompressAmount_inverse:
  assumes n: "n < 2 ^ 60"
  shows "DecompressAmount (CompressAmount n) = n"
proof (cases "n = 0")
  case False
  then have "0 < n" by simp
  then show ?thesis
  proof (cases rule: amount_cases)
    case (digit q d f)
    have "q * 10 + d < 2 ^ 60" using n digit(1) le_times_power10 [of "q * 10 + d" f] by linarith
    then have "1 + (q * 9 + d - 1) * 10 + f < 2 ^ 64" using digit(3) by simp
    moreover have "(q * 10 + d) * 10 ^ f < 2 ^ 64" using n digit(1) by simp
    ultimately show ?thesis unfolding digit(1) using digit(2,3)
      by (simp only: CompressAmount_digit DecompressAmount_digit)
  next
    case (nine m)
    have "1 + (m - 1) * 10 + 9 < 2 ^ 64" "m * 10 ^ 9 < 2 ^ 64" using n nine by simp_all
    then show ?thesis unfolding nine(1) using nine(2)
      by (simp only: CompressAmount_nine DecompressAmount_nine)
  qed
qed (simp add: CompressAmount_def DecompressAmount_def)

lemma DecompressAmount_inverse:
  assumes x: "x < 10 ^ 11"
  shows "CompressAmount (DecompressAmount x) = x"
proof (cases "x = 0")
  case False
  define e y where "e = (x - 1) mod 10" and "y = (x - 1) div 10"
  have xe: "x = 1 + y * 10 + e" "e < 10" "y < 10 ^ 10" using False x by (auto simp: e_def y_def)
  show ?thesis
  proof (cases "e < 9")
    case True
    define q d where "q = y div 9" and "d = y mod 9 + 1"
    have d: "d \<in> {1..9}" "y = q * 9 + d - 1" by (auto simp: d_def q_def)
    have eq: "x = 1 + (q * 9 + d - 1) * 10 + e" using xe d(2) by simp
    have "10 ^ e \<le> (10 :: nat) ^ 8" using True by (intro power_increasing) auto
    moreover have "q * 10 + d \<le> 11111111200" using d xe(3) by simp
    ultimately have "(q * 10 + d) * 10 ^ e \<le> 11111111200 * 10 ^ 8" by (rule mult_le_mono [rotated])
    then have b: "(q * 10 + d) * 10 ^ e < 2 ^ 64" by simp
    have b2: "1 + (q * 9 + d - 1) * 10 + e < 2 ^ 64" using x eq by simp
    show ?thesis unfolding eq DecompressAmount_digit [OF d(1) True b]
      by (rule CompressAmount_digit [OF d(1) True b2])
  next
    case False
    have m: "0 < y + 1" by simp
    have eq: "x = 1 + ((y + 1) - 1) * 10 + 9" using xe False by simp
    have b: "(y + 1) * 10 ^ 9 < 2 ^ 64" using xe(3) by simp
    have b2: "1 + ((y + 1) - 1) * 10 + 9 < 2 ^ 64" using x eq by simp
    show ?thesis by (subst (1 2) eq) (simp only: DecompressAmount_nine [OF m b] CompressAmount_nine [OF m b2])
  qed
qed (simp add: CompressAmount_def DecompressAmount_def)

text \<open>Compressing amounts loses nothing: for every amount below 2 to the 60, and so for every amount in
  the money range, \<open>DecompressAmount\<close> inverts \<open>CompressAmount\<close> without overflow; and every code
  below 10 to the 11 is the code of the amount it decompresses to.\<close>

theorem CompressAmount_roundtrip:
  "(n < 2 ^ 60 \<longrightarrow> DecompressAmount (CompressAmount n) = n) \<and>
   (x < 10 ^ 11 \<longrightarrow> CompressAmount (DecompressAmount x) = x)"
  using CompressAmount_inverse DecompressAmount_inverse by blast

lemma CompressAmount_roundtrip_witness: "DecompressAmount (CompressAmount 5000000) = 5000000 \<and> CompressAmount (DecompressAmount 77) = 77"
  using CompressAmount_roundtrip [of 5000000 77] by simp

section \<open>Scripts\<close>

record curve_keys =
  fully_valid :: "bytes \<Rightarrow> bool"
  decompress_key :: "bytes \<Rightarrow> bytes option"

definition nSpecialScripts :: nat where "nSpecialScripts = 6"

definition IsToKeyID :: "bytes \<Rightarrow> bytes option" where
  "IsToKeyID s =
     (if length s = 25 \<and> unat (s ! 0) = OP_DUP \<and> unat (s ! 1) = OP_HASH160 \<and> s ! 2 = 20 \<and>
         unat (s ! 23) = OP_EQUALVERIFY \<and> unat (s ! 24) = OP_CHECKSIG
      then Some (take 20 (drop 3 s)) else None)"

definition IsToScriptID :: "bytes \<Rightarrow> bytes option" where
  "IsToScriptID s =
     (if length s = 23 \<and> unat (s ! 0) = OP_HASH160 \<and> s ! 1 = 20 \<and> unat (s ! 22) = OP_EQUAL
      then Some (take 20 (drop 2 s)) else None)"

definition IsToPubKey :: "curve_keys \<Rightarrow> bytes \<Rightarrow> bytes option" where
  "IsToPubKey K s =
     (if length s = 35 \<and> s ! 0 = 33 \<and> unat (s ! 34) = OP_CHECKSIG \<and> (s ! 1 = 2 \<or> s ! 1 = 3)
      then Some (CPubKey_Set (take 33 (drop 1 s)))
      else if length s = 67 \<and> s ! 0 = 65 \<and> unat (s ! 66) = OP_CHECKSIG \<and> s ! 1 = 4
      then let pubkey = CPubKey_Set (take 65 (drop 1 s)) in if fully_valid K pubkey then Some pubkey else None
      else None)"

definition Compress :: "curve_keys \<Rightarrow> bytes \<Rightarrow> bytes option" where
  "Compress K s =
     (case IsToKeyID s of
        Some keyID \<Rightarrow> Some (0 # keyID)
      | None \<Rightarrow>
          (case IsToScriptID s of
             Some scriptID \<Rightarrow> Some (1 # scriptID)
           | None \<Rightarrow>
               (case IsToPubKey K s of
                  Some pubkey \<Rightarrow>
                    if pubkey ! 0 = 2 \<or> pubkey ! 0 = 3 then Some (pubkey ! 0 # take 32 (drop 1 pubkey))
                    else if pubkey ! 0 = 4 then Some ((4 OR (pubkey ! 64 AND 1)) # take 32 (drop 1 pubkey))
                    else None
                | None \<Rightarrow> None)))"

definition GetSpecialSize :: "nat \<Rightarrow> nat" where
  "GetSpecialSize nSize =
     (if nSize = 0 \<or> nSize = 1 then 20
      else if nSize = 2 \<or> nSize = 3 \<or> nSize = 4 \<or> nSize = 5 then 32 else 0)"

text \<open>\<open>None\<close> is the result \<open>false\<close>, which leaves the script unchanged.  That the uncompressed key has 65 bytes,
  which the source asserts, is a law of \<open>decompress_key\<close>.\<close>

definition Decompress :: "curve_keys \<Rightarrow> nat \<Rightarrow> bytes \<Rightarrow> bytes option" where
  "Decompress K nSize v =
     (if nSize = 0 then Some (map of_nat [OP_DUP, OP_HASH160, 20] @ take 20 v @ map of_nat [OP_EQUALVERIFY, OP_CHECKSIG])
      else if nSize = 1 then Some (map of_nat [OP_HASH160, 20] @ take 20 v @ [of_nat OP_EQUAL])
      else if nSize = 2 \<or> nSize = 3 then Some (33 # of_nat nSize # take 32 v @ [of_nat OP_CHECKSIG])
      else if nSize = 4 \<or> nSize = 5 then
        map_option (\<lambda>pubkey. 65 # pubkey @ [of_nat OP_CHECKSIG])
          (decompress_key K (CPubKey_Set (of_nat (nSize - 2) # take 32 v)))
      else None)"

definition ser_CScriptCompressor :: "curve_keys \<Rightarrow> bytes \<Rightarrow> bytes" where
  "ser_CScriptCompressor K s =
     (case Compress K s of
        Some compr \<Rightarrow> compr
      | None \<Rightarrow> WriteVarInt ((length s + nSpecialScripts) mod 2 ^ 32) @ s)"

definition size_CScriptCompressor :: "curve_keys \<Rightarrow> bytes \<Rightarrow> nat" where
  "size_CScriptCompressor K s =
     (case Compress K s of
        Some compr \<Rightarrow> length compr
      | None \<Rightarrow> length s + GetSizeOfVarInt ((length s + nSpecialScripts) mod 2 ^ 32))"

definition unser_CScriptCompressor :: "curve_keys \<Rightarrow> bytes \<Rightarrow> bytes reader" where
  "unser_CScriptCompressor K script =
     rbind ReadVarInt (\<lambda>w :: 32 word.
       if unat w < nSpecialScripts then
         rbind (read_bytes (GetSpecialSize (unat w))) (\<lambda>vch.
           rreturn (case Decompress K (unat w) vch of Some s \<Rightarrow> s | None \<Rightarrow> script))
       else read_bytes (unat w - nSpecialScripts))"

text \<open>What the code relies on: a fully valid uncompressed key is determined by its first coordinate and the
  parity of the second, and uncompressing it gives the key back.\<close>

definition compressed_key :: "bytes \<Rightarrow> bytes" where
  "compressed_key k = (2 OR (k ! 64 AND 1)) # take 32 (drop 1 k)"

definition keys_law :: "curve_keys \<Rightarrow> bool" where
  "keys_law K \<longleftrightarrow> (\<forall>k. length k = 65 \<and> k ! 0 = 4 \<and> fully_valid K k \<longrightarrow> decompress_key K (compressed_key k) = Some k)"

lemma byte_of_unat: "unat b = n \<Longrightarrow> b = of_nat n" for b :: byte
  by auto

lemma segments: "s = take a s @ take b (drop a s) @ drop (a + b) s"
  by (metis append_take_drop_id drop_drop add.commute)

lemma segment_nth: "i + k \<le> length s \<Longrightarrow> take k (drop i s) = map (\<lambda>j. s ! (i + j)) [0..<k]"
  by (rule nth_equalityI) auto

text \<open>A script that consists of \<open>a\<close> known bytes, \<open>n\<close> arbitrary bytes and \<open>b\<close> known bytes.\<close>

lemma split_script:
  assumes "length s = a + n + b"
  shows "s = map (\<lambda>j. s ! j) [0..<a] @ take n (drop a s) @ map (\<lambda>j. s ! (a + n + j)) [0..<b]"
  using segments [of s a n] segment_nth [of 0 a s] segment_nth [of "a + n" b s] assms by simp

lemma and_1_cases: "(b :: byte) AND 1 = 0 \<or> b AND 1 = 1"
  by (cases "even b") (simp_all add: and_one_eq mod2_eq_if)

lemma GetLen_simps [simp]: "GetLen 2 = 33" "GetLen 3 = 33" "GetLen 4 = 65"
  by (simp_all add: GetLen_def)

lemma IsToKeyID_Some:
  assumes "IsToKeyID s = Some h"
  shows "length h = 20 \<and> Decompress K 0 h = Some s"
proof -
  have l: "length s = 25" "unat (s ! 0) = OP_DUP" "unat (s ! 1) = OP_HASH160" "s ! 2 = 20"
      "unat (s ! 23) = OP_EQUALVERIFY" "unat (s ! 24) = OP_CHECKSIG" and h: "h = take 20 (drop 3 s)"
    using assms by (auto simp: IsToKeyID_def split: if_splits)
  have "s = map (\<lambda>j. s ! j) [0..<3] @ h @ map (\<lambda>j. s ! (3 + 20 + j)) [0..<2]"
    unfolding h using l(1) by (intro split_script) simp
  moreover have "s ! 0 = of_nat OP_DUP" "s ! 1 = of_nat OP_HASH160" "s ! 23 = of_nat OP_EQUALVERIFY" "s ! 24 = of_nat OP_CHECKSIG"
    using l(2,3,5,6) by (auto dest: byte_of_unat)
  ultimately show ?thesis using l(1,4) by (simp add: h Decompress_def upt_rec numeral_eq_Suc)
qed

lemma IsToScriptID_Some:
  assumes "IsToScriptID s = Some h"
  shows "length h = 20 \<and> Decompress K 1 h = Some s"
proof -
  have l: "length s = 23" "unat (s ! 0) = OP_HASH160" "s ! 1 = 20" "unat (s ! 22) = OP_EQUAL"
      and h: "h = take 20 (drop 2 s)"
    using assms by (auto simp: IsToScriptID_def split: if_splits)
  have "s = map (\<lambda>j. s ! j) [0..<2] @ h @ map (\<lambda>j. s ! (2 + 20 + j)) [0..<1]"
    unfolding h using l(1) by (intro split_script) simp
  moreover have "s ! 0 = of_nat OP_HASH160" "s ! 22 = of_nat OP_EQUAL"
    using l(2,4) by (auto dest: byte_of_unat)
  ultimately show ?thesis using l(1,3) by (simp add: h Decompress_def upt_rec numeral_eq_Suc)
qed

text \<open>The two shapes of a public key script that \<open>Compress\<close> accepts.\<close>

lemma IsToPubKey_Some:
  assumes "IsToPubKey K s = Some k"
  obtains (compressed) x where "s = 33 # x @ [of_nat OP_CHECKSIG]" "length x = 33" "x ! 0 = 2 \<or> x ! 0 = 3" "k = x"
  | (uncompressed) x where "s = 65 # x @ [of_nat OP_CHECKSIG]" "length x = 65" "x ! 0 = 4" "k = x" "fully_valid K x"
proof -
  have shape: "s = s ! 0 # take n (drop 1 s) @ [s ! (1 + n)]" if "length s = n + 2" for n
    using split_script [of s 1 n 1] that by (simp add: numeral_2_eq_2)
  consider (a) "length s = 35" "s ! 0 = 33" "unat (s ! 34) = OP_CHECKSIG" "s ! 1 = 2 \<or> s ! 1 = 3" "k = CPubKey_Set (take 33 (drop 1 s))"
    | (b) "length s = 67" "s ! 0 = 65" "unat (s ! 66) = OP_CHECKSIG" "s ! 1 = 4" "k = CPubKey_Set (take 65 (drop 1 s))"
        "fully_valid K k"
    using assms by (auto simp: IsToPubKey_def Let_def split: if_splits)
  then show ?thesis
  proof cases
    case a
    let ?x = "take 33 (drop 1 s)"
    have x: "length ?x = 33" "?x ! 0 = s ! 1" using a(1) by simp_all
    have e: "s = 33 # ?x @ [of_nat OP_CHECKSIG]"
      using shape [of 33] a(1,2) byte_of_unat [OF a(3)] by simp
    have "CPubKey_Set ?x = ?x" using x a(4) by (auto simp: CPubKey_Set_def Let_def)
    then show ?thesis using compressed [OF e x(1)] a(4,5) x(2) by simp
  next
    case b
    let ?x = "take 65 (drop 1 s)"
    have x: "length ?x = 65" "?x ! 0 = s ! 1" using b(1) by simp_all
    have e: "s = 65 # ?x @ [of_nat OP_CHECKSIG]"
      using shape [of 65] b(1,2) byte_of_unat [OF b(3)] by simp
    have k: "k = ?x" using x b(4,5) by (auto simp: CPubKey_Set_def Let_def)
    show ?thesis using uncompressed [OF e x(1) _ k] b(4,6) k x(2) by simp
  qed
qed

lemma Compress_Some:
  assumes "keys_law K" and "Compress K s = Some c"
  obtains n v where "c = of_nat n # v" "n < 6" "length v = GetSpecialSize n" "Decompress K n v = Some s"
proof -
  have tl: "length x = Suc n \<Longrightarrow> x = x ! 0 # take n (drop 1 x)" for x :: bytes and n by (cases x) simp_all
  show ?thesis
  proof (cases "IsToKeyID s")
    case (Some h)
    then show ?thesis using assms(2) IsToKeyID_Some [OF Some, of K] that [of 0 h]
      by (simp add: Compress_def GetSpecialSize_def)
  next
    case nk: None
    show ?thesis
    proof (cases "IsToScriptID s")
      case (Some h)
      then show ?thesis using assms(2) nk IsToScriptID_Some [OF Some, of K] that [of 1 h]
        by (simp add: Compress_def GetSpecialSize_def)
    next
      case ns: None
      then obtain k where k: "IsToPubKey K s = Some k"
        using assms(2) nk by (auto simp: Compress_def split: option.splits)
      from k show ?thesis
      proof (cases rule: IsToPubKey_Some)
        case (compressed x)
        have x: "x = x ! 0 # take 32 (drop 1 x)" using tl [of x 32] compressed(2) by simp
        have n: "x ! 0 = of_nat (unat (x ! 0))" "unat (x ! 0) = 2 \<or> unat (x ! 0) = 3" using compressed(3) by auto
        have "c = of_nat (unat (x ! 0)) # take 32 (drop 1 x)"
          using assms(2) nk ns k compressed(3,4) by (auto simp: Compress_def)
        moreover have "Decompress K (unat (x ! 0)) (take 32 (drop 1 x)) = Some s"
          using n(2) x compressed(1) by (auto simp: Decompress_def)
        moreover have "length (take 32 (drop 1 x)) = GetSpecialSize (unat (x ! 0))" "unat (x ! 0) < 6"
          using n(2) compressed(2) by (auto simp: GetSpecialSize_def)
        ultimately show ?thesis using that by blast
      next
        case (uncompressed x)
        let ?v = "take 32 (drop 1 x)"
        obtain n where n: "n = 4 \<or> n = 5" "4 OR (x ! 64 AND 1) = (of_nat n :: byte)"
            "of_nat (n - 2) = 2 OR (x ! 64 AND 1)"
        proof (cases "x ! 64 AND 1 = 0")
          case True
          then show ?thesis using that [of 4] by simp
        next
          case False
          then have "x ! 64 AND 1 = 1" using and_1_cases by blast
          then show ?thesis using that [of 5] by simp
        qed
        have set: "CPubKey_Set (of_nat (n - 2) # ?v) = of_nat (n - 2) # ?v"
          using n(1) uncompressed(2) by (auto simp: CPubKey_Set_def)
        have "decompress_key K (compressed_key x) = Some x"
          using assms(1) uncompressed(2,3,5) by (simp add: keys_law_def)
        then have "Decompress K n ?v = Some s"
          using n(1) set uncompressed(1) by (auto simp: Decompress_def compressed_key_def n(3) [symmetric])
        moreover have "c = of_nat n # ?v"
          using assms(2) nk ns k uncompressed(3,4) n(2) by (auto simp: Compress_def)
        moreover have "length ?v = GetSpecialSize n" "n < 6"
          using n(1) uncompressed(2) by (auto simp: GetSpecialSize_def)
        ultimately show ?thesis using that by blast
      qed
    qed
  qed
qed

lemma script_roundtrip:
  assumes "keys_law K"
  shows "roundtrip (ser_CScriptCompressor K) (unser_CScriptCompressor K script) (\<lambda>s. length s + nSpecialScripts < 2 ^ 32)"
proof
  fix s rest :: bytes assume l: "length s + nSpecialScripts < 2 ^ 32"
  show "unser_CScriptCompressor K script (ser_CScriptCompressor K s @ rest) = Inr (s, rest)"
  proof (cases "Compress K s")
    case None
    have "unat (of_nat (length s + nSpecialScripts) :: 32 word) = length s + nSpecialScripts"
      using l by (simp add: unat_of_nat del: of_nat_add)
    then show ?thesis
      using l None by (simp add: ser_CScriptCompressor_def unser_CScriptCompressor_def del: of_nat_add)
  next
    case (Some c)
    obtain n v where c: "c = of_nat n # v" "n < 6" "length v = GetSpecialSize n" "Decompress K n v = Some s"
      by (rule Compress_Some [OF assms Some])
    have n: "n = 0 \<or> n = 1 \<or> n = 2 \<or> n = 3 \<or> n = 4 \<or> n = 5" using c(2) by auto
    have "(of_nat n :: byte) AND 0x80 = 0" using n by auto
    moreover have "ucast ((of_nat n :: byte) AND 0x7f) = (of_nat n :: 32 word)" using n by auto
    ultimately have "ReadVarInt (c @ rest) = Inr (of_nat n :: 32 word, v @ rest)"
      by (simp add: ReadVarInt_def c(1))
    moreover have "unat (of_nat n :: 32 word) = n" using n by auto
    ultimately show ?thesis
      using c(2,3,4) by (simp add: ser_CScriptCompressor_def unser_CScriptCompressor_def Some nSpecialScripts_def)
  qed
qed

section \<open>Outputs\<close>

definition ser_CTxOutCompressor :: "curve_keys \<Rightarrow> CTxOut \<Rightarrow> bytes" where
  "ser_CTxOutCompressor K txout =
     WriteVarInt (CompressAmount (nat (nValue txout mod 2 ^ 64))) @ ser_CScriptCompressor K (scriptPubKey txout)"

definition size_CTxOutCompressor :: "curve_keys \<Rightarrow> CTxOut \<Rightarrow> nat" where
  "size_CTxOutCompressor K txout =
     GetSizeOfVarInt (CompressAmount (nat (nValue txout mod 2 ^ 64))) + size_CScriptCompressor K (scriptPubKey txout)"

text \<open>Reading into the output \<open>txout\<close>.\<close>

definition unser_CTxOutCompressor :: "curve_keys \<Rightarrow> CTxOut \<Rightarrow> CTxOut reader" where
  "unser_CTxOutCompressor K txout =
     rbind ReadVarInt (\<lambda>nVal :: 64 word.
     rbind (unser_CScriptCompressor K (scriptPubKey txout)) (\<lambda>s.
     rreturn (txout\<lparr>nValue := wrap64 (int (DecompressAmount (unat nVal))), scriptPubKey := s\<rparr>)))"

definition compressible :: "CTxOut \<Rightarrow> bool" where
  "compressible out \<longleftrightarrow> 0 \<le> nValue out \<and> nValue out < 2 ^ 60 \<and>
     length (scriptPubKey out) + nSpecialScripts < 2 ^ 32 \<and> nRounds out = - 10"

lemma CompressAmount_less: "CompressAmount n < 2 ^ 64"
  by (simp add: CompressAmount_def Let_def split: prod.split)

lemma txout_roundtrip:
  assumes "keys_law K"
  shows "roundtrip (ser_CTxOutCompressor K) (unser_CTxOutCompressor K CTxOut_null) compressible"
proof
  fix x rest assume ok: "compressible x"
  have v: "nValue x mod 18446744073709551616 = nValue x" "nat (nValue x) < 2 ^ 60"
    using ok by (simp_all add: compressible_def nat_less_iff)
  have w: "0 \<le> nValue x" "wrap64 (nValue x) = nValue x" using ok by (simp_all add: compressible_def wrap64_id)
  have len: "length (scriptPubKey x) + nSpecialScripts < 2 ^ 32" and
    x: "x = \<lparr>nValue = nValue x, scriptPubKey = scriptPubKey x, nRounds = - 10\<rparr>"
    using ok by (simp_all add: compressible_def)
  have u: "unat (of_nat (CompressAmount n) :: 64 word) = CompressAmount n" for n
    using CompressAmount_less [of n] by (simp add: unat_of_nat)
  show "unser_CTxOutCompressor K CTxOut_null (ser_CTxOutCompressor K x @ rest) = Inr (x, rest)"
    using CompressAmount_inverse [OF v(2)] w x
    by (simp add: unser_CTxOutCompressor_def ser_CTxOutCompressor_def v(1) u CTxOut_null_def
        roundtrip.bind_unser [OF script_roundtrip [OF assms] len])
qed

lemma length_script: "length (ser_CScriptCompressor K s) = size_CScriptCompressor K s"
  by (simp add: ser_CScriptCompressor_def size_CScriptCompressor_def WriteVarInt_def length_WriteVarInt_loop
      split: option.split)

lemma length_txout: "length (ser_CTxOutCompressor K out) = size_CTxOutCompressor K out"
  by (simp add: ser_CTxOutCompressor_def size_CTxOutCompressor_def WriteVarInt_def length_WriteVarInt_loop length_script)

section \<open>Coins\<close>

text \<open>\<open>VARINT\<close> of an \<open>int\<close>: a negative number ends the loop of \<open>WriteVarInt\<close> at once.\<close>

definition WriteVarInt_int :: "int \<Rightarrow> bytes" where
  "WriteVarInt_int n = (if n < 0 then [of_int n AND 0x7f] else WriteVarInt (nat n))"

definition GetSizeOfVarInt_int :: "int \<Rightarrow> nat" where
  "GetSizeOfVarInt_int n = (if n < 0 then 1 else GetSizeOfVarInt (nat n))"

definition ReadVarInt_int :: "int reader" where
  "ReadVarInt_int = rbind ReadVarInt (\<lambda>w :: 32 word. rreturn (sint w))"

text \<open>The outputs from the third on in groups of eight; the pair is the size of the bitmask and the number of its
  bytes that are not zero.\<close>

definition mask_group :: "CTxOut list \<Rightarrow> nat \<Rightarrow> CTxOut list" where
  "mask_group v b = take 8 (drop (2 + b * 8) v)"

definition CalcMaskSize :: "CTxOut list \<Rightarrow> nat \<times> nat" where
  "CalcMaskSize v =
     fold (\<lambda>b (nLastUsedByte, nNonzeroBytes).
         if list_all CTxOut_IsNull (mask_group v b) then (nLastUsedByte, nNonzeroBytes) else (b + 1, nNonzeroBytes + 1))
       [0..<(length v - 2 + 7) div 8] (0, 0)"

definition avail_byte :: "CTxOut list \<Rightarrow> byte" where
  "avail_byte g = fold (\<lambda>i chAvail. if \<not> CTxOut_IsNull (g ! i) then chAvail OR push_bit i 1 else chAvail) [0..<length g] 0"

definition is_unspent :: "CTxOut list \<Rightarrow> nat \<Rightarrow> bool" where
  "is_unspent v i \<longleftrightarrow> i < length v \<and> \<not> CTxOut_IsNull (v ! i)"

text \<open>The header code with factor 16; \<open>None\<close> is the failed assertion, for pruned coins.\<close>

definition header_code :: "nat \<Rightarrow> CCoins \<Rightarrow> nat option" where
  "header_code factor c =
     (let nMaskCode = snd (CalcMaskSize (coins_vout c));
          fFirst = is_unspent (coins_vout c) 0; fSecond = is_unspent (coins_vout c) 1
      in if fFirst \<or> fSecond \<or> nMaskCode \<noteq> 0
         then Some ((factor * (nMaskCode - (if fFirst \<or> fSecond then 0 else 1)) + (if fCoinBase c then 1 else 0) +
           (if fCoinStake c then 2 else 0) + (if fFirst then 4 else 0) + (if fSecond then 8 else 0)) mod 2 ^ 32)
         else None)"

definition ser_CCoins :: "curve_keys \<Rightarrow> CCoins \<Rightarrow> bytes option" where
  "ser_CCoins K c =
     map_option (\<lambda>nCode.
         WriteVarInt_int (coins_version c) @ WriteVarInt nCode @
         map (\<lambda>b. avail_byte (mask_group (coins_vout c) b)) [0..<fst (CalcMaskSize (coins_vout c))] @
         concat (map (ser_CTxOutCompressor K) (filter (\<lambda>out. \<not> CTxOut_IsNull out) (coins_vout c))) @
         WriteVarInt_int (coins_height c))
       (header_code 16 c)"

definition GetSerializeSize_CCoins :: "curve_keys \<Rightarrow> CCoins \<Rightarrow> nat option" where
  "GetSerializeSize_CCoins K c =
     map_option (\<lambda>nCode.
         GetSizeOfVarInt_int (coins_version c) + GetSizeOfVarInt nCode +
         fst (CalcMaskSize (coins_vout c)) +
         sum_list (map (size_CTxOutCompressor K) (filter (\<lambda>out. \<not> CTxOut_IsNull out) (coins_vout c))) +
         GetSizeOfVarInt_int (coins_height c))
       (header_code 8 c)"

fun read_mask :: "nat \<Rightarrow> bool list \<Rightarrow> bool list reader" where
  "read_mask 0 vAvail s = Inr (vAvail, s)"
| "read_mask (Suc nMaskCode) vAvail [] = Inl End_of_data"
| "read_mask (Suc nMaskCode) vAvail (chAvail # s) =
     read_mask (if chAvail \<noteq> 0 then nMaskCode else Suc nMaskCode)
       (vAvail @ map (\<lambda>p. chAvail AND push_bit p 1 \<noteq> 0) [0..<8]) s"

fun read_outputs :: "curve_keys \<Rightarrow> bool list \<Rightarrow> CTxOut list reader" where
  "read_outputs K [] = rreturn []"
| "read_outputs K (a # as) =
     rbind (if a then unser_CTxOutCompressor K CTxOut_null else rreturn CTxOut_null) (\<lambda>out.
     rbind (read_outputs K as) (\<lambda>outs. rreturn (out # outs)))"

definition unser_CCoins :: "curve_keys \<Rightarrow> CCoins reader" where
  "unser_CCoins K =
     rbind ReadVarInt_int (\<lambda>version.
     rbind ReadVarInt (\<lambda>w :: 32 word.
       let nCode = unat w;
           nMaskCode = nCode div 16 + (if nCode AND 12 \<noteq> 0 then 0 else 1)
       in
     rbind (read_mask nMaskCode [nCode AND 4 \<noteq> 0, nCode AND 8 \<noteq> 0]) (\<lambda>vAvail.
     rbind (read_outputs K vAvail) (\<lambda>vout.
     rbind ReadVarInt_int (\<lambda>height.
     rreturn (Cleanup \<lparr>fCoinBase = (nCode AND 1 \<noteq> 0), fCoinStake = (nCode AND 2 \<noteq> 0), coins_vout = vout,
       coins_height = height, coins_version = version\<rparr>))))))"

text \<open>The bitmask.\<close>

lemma bit_avail_fold:
  "n \<le> length g \<Longrightarrow> bit (fold (\<lambda>i ch. if \<not> CTxOut_IsNull (g ! i) then ch OR push_bit i 1 else ch) [0..<n] (0 :: byte)) k \<longleftrightarrow>
    k < n \<and> k < 8 \<and> \<not> CTxOut_IsNull (g ! k)"
  by (induction n) (auto simp: bit_simps less_Suc_eq)

lemma bit_avail_byte: "bit (avail_byte (mask_group v b)) k \<longleftrightarrow> k < 8 \<and> is_unspent v (2 + b * 8 + k)"
  using bit_avail_fold [of "length (mask_group v b)" "mask_group v b" k]
  by (auto simp: avail_byte_def is_unspent_def mask_group_def)

lemma avail_byte_0: "avail_byte (mask_group v b) = 0 \<longleftrightarrow> list_all CTxOut_IsNull (mask_group v b)"
proof -
  have "avail_byte (mask_group v b) = 0 \<longleftrightarrow> (\<forall>k. \<not> bit (avail_byte (mask_group v b)) k)"
    by (auto simp: bit_eq_iff bit_avail_byte)
  also have "\<dots> \<longleftrightarrow> list_all CTxOut_IsNull (mask_group v b)"
    unfolding bit_avail_byte by (auto simp: list_all_length is_unspent_def mask_group_def)
  finally show ?thesis .
qed

lemma mask_size_fold:
  assumes "fold (\<lambda>b (l, z). if list_all CTxOut_IsNull (mask_group v b) then (l, z) else (b + 1, z + 1)) [0..<n] (0, 0) = (L, Z)"
  shows "L \<le> n \<and> Z = length (filter (\<lambda>b. avail_byte (mask_group v b) \<noteq> 0) [0..<L]) \<and>
    (\<forall>b. L \<le> b \<and> b < n \<longrightarrow> avail_byte (mask_group v b) = 0) \<and> (0 < L \<longrightarrow> avail_byte (mask_group v (L - 1)) \<noteq> 0)"
  using assms
proof (induction n arbitrary: L Z)
  case (Suc n)
  obtain l z where f: "fold (\<lambda>b (l, z). if list_all CTxOut_IsNull (mask_group v b) then (l, z) else (b + 1, z + 1)) [0..<n] (0, 0 :: nat) = (l, z)"
    by force
  note ih = Suc.IH [OF f]
  show ?case
  proof (cases "list_all CTxOut_IsNull (mask_group v n)")
    case True
    then show ?thesis using Suc.prems f ih by (auto simp: avail_byte_0 less_Suc_eq)
  next
    case False
    have "[0..<n + 1] = [0..<l] @ [l..<n] @ [n]" using ih upt_add_eq_append [of 0 l "n - l"] by simp
    moreover have "filter (\<lambda>b. avail_byte (mask_group v b) \<noteq> 0) [l..<n] = []" using ih by (auto simp: filter_empty_conv)
    ultimately show ?thesis using Suc.prems f ih False by (auto simp: avail_byte_0)
  qed
qed simp

lemma CalcMaskSize:
  assumes "CalcMaskSize v = (L, Z)"
  shows "Z = length (filter (\<lambda>b. avail_byte (mask_group v b) \<noteq> 0) [0..<L])"
    and "L \<le> b \<Longrightarrow> avail_byte (mask_group v b) = 0" and "0 < L \<Longrightarrow> avail_byte (mask_group v (L - 1)) \<noteq> 0"
    and "8 * L \<le> length v + 7" and "Z \<le> L"
proof -
  note f = mask_size_fold [OF assms [unfolded CalcMaskSize_def]]
  show "Z = length (filter (\<lambda>b. avail_byte (mask_group v b) \<noteq> 0) [0..<L])" and
    "0 < L \<Longrightarrow> avail_byte (mask_group v (L - 1)) \<noteq> 0" using f by auto
  then show "Z \<le> L" using length_filter_le [of _ "[0..<L]"] by (metis length_upt minus_nat.diff_0)
  show "8 * L \<le> length v + 7" using f by auto
  show "avail_byte (mask_group v b) = 0" if "L \<le> b"
  proof (cases "b < (length v - 2 + 7) div 8")
    case False
    then have "length v \<le> 2 + b * 8" by auto
    then show ?thesis by (simp add: mask_group_def avail_byte_def)
  qed (use f that in blast)
qed

lemma read_mask:
  "B = [] \<or> last B \<noteq> 0 \<Longrightarrow> read_mask (length (filter (\<lambda>b. b \<noteq> 0) B)) acc (B @ rest) =
    Inr (acc @ concat (map (\<lambda>b. map (\<lambda>p. b AND push_bit p 1 \<noteq> 0) [0..<8]) B), rest)"
proof (induction B arbitrary: acc)
  case (Cons b B)
  have "filter (\<lambda>b. b \<noteq> 0) (b # B) \<noteq> []" using Cons.prems last_in_set [of "b # B"] by (auto simp: filter_empty_conv)
  then obtain k where k: "length (filter (\<lambda>b. b \<noteq> 0) (b # B)) = Suc k" by (cases "filter (\<lambda>b. b \<noteq> 0) (b # B)") auto
  then have "(if b \<noteq> 0 then k else Suc k) = length (filter (\<lambda>b. b \<noteq> 0) B)" by (auto split: if_splits)
  then show ?case using Cons.IH Cons.prems k by (auto split: if_splits)
qed simp

lemma concat_groups: "concat (map (\<lambda>b. map (\<lambda>p. h (b * 8 + p)) [0..<8]) [0..<L]) = map h [0..<8 * L]"
proof (induction L)
  case (Suc L)
  have "[0..<8 * Suc L] = [0..<8 * L] @ map (\<lambda>p. L * 8 + p) [0..<8]"
    using upt_add_eq_append [of 0 "8 * L" 8] map_add_upt [of "L * 8" 8] by (simp add: mult.commute add.commute)
  then show ?case using Suc by (simp add: comp_def)
qed simp

text \<open>Reading the bitmask that was written gives the availability of the outputs from the third on.\<close>

lemma read_mask_written:
  assumes "CalcMaskSize v = (L, Z)"
  shows "read_mask Z acc (map (\<lambda>b. avail_byte (mask_group v b)) [0..<L] @ rest) =
    Inr (acc @ map (\<lambda>i. is_unspent v (2 + i)) [0..<8 * L], rest)"
proof -
  let ?B = "map (\<lambda>b. avail_byte (mask_group v b)) [0..<L]"
  note c = CalcMaskSize [OF assms]
  have Z: "Z = length (filter (\<lambda>b. b \<noteq> 0) ?B)" using c(1) by (simp add: filter_map comp_def)
  have last: "?B = [] \<or> last ?B \<noteq> 0" using c(3) by (cases L) auto
  have "map (\<lambda>p. avail_byte (mask_group v b) AND push_bit p 1 \<noteq> 0) [0..<8] =
      map (\<lambda>p. is_unspent v (2 + (b * 8 + p))) [0..<8]" for b
    by (rule map_cong [OF refl]) (auto simp: and_exp_eq_0_iff_not_bit bit_avail_byte)
  then have "concat (map (\<lambda>b. map (\<lambda>p. b AND push_bit p 1 \<noteq> 0) [0..<8]) ?B) = map (\<lambda>i. is_unspent v (2 + i)) [0..<8 * L]"
    unfolding map_map comp_def by (simp only: concat_groups [of "\<lambda>i. is_unspent v (2 + i)" L])
  then show ?thesis unfolding Z read_mask [OF last] by (simp only:)
qed

lemma read_outputs_written:
  assumes "keys_law K" and "\<forall>out \<in> set v. out = CTxOut_null \<or> \<not> CTxOut_IsNull out \<and> compressible out"
  shows "read_outputs K (map (\<lambda>out. \<not> CTxOut_IsNull out) v @ replicate k False)
      (concat (map (ser_CTxOutCompressor K) (filter (\<lambda>out. \<not> CTxOut_IsNull out) v)) @ rest) =
    Inr (v @ replicate k CTxOut_null, rest)"
  using assms(2)
proof (induction v)
  case Nil
  have "read_outputs K (replicate k False) rest = Inr (replicate k CTxOut_null, rest)" by (induction k) simp_all
  then show ?case by simp
next
  case (Cons out v)
  then show ?case
    by (auto simp: roundtrip.bind_unser [OF txout_roundtrip [OF assms(1)]])
qed

text \<open>The flags of the header code.\<close>

lemma header_bits:
  fixes a b c d :: bool and m :: nat
  defines "n \<equiv> 16 * m + (if a then 1 else 0) + (if b then 2 else 0) + (if c then 4 else 0) + (if d then 8 else 0)"
  shows "n AND 1 \<noteq> 0 \<longleftrightarrow> a" and "n AND 2 \<noteq> 0 \<longleftrightarrow> b" and "n AND 4 \<noteq> 0 \<longleftrightarrow> c" and "n AND 8 \<noteq> 0 \<longleftrightarrow> d"
    and "n AND 12 \<noteq> 0 \<longleftrightarrow> c \<or> d" and "n div 16 = m"
proof -
  define f :: nat where "f = (if a then 1 else 0) + (if b then 2 else 0) + (if c then 4 else 0) + (if d then 8 else 0)"
  have f: "odd f = a" "odd (f div 2) = b" "odd (f div 4) = c" "odd (f div 8) = d" "f < 16"
    unfolding f_def by (cases a; cases b; cases c; cases d; simp)+
  have n: "n = 2 * (8 * m) + f" "n div 2 = 2 * (4 * m) + f div 2" "n div 4 = 2 * (2 * m) + f div 4" "n div 8 = 2 * m + f div 8"
    "n div 16 = m"
    using f(5) unfolding n_def f_def by arith+
  have bits: "odd n = a" "odd (n div 2) = b" "odd (n div 4) = c" "odd (n div 8) = d"
    using f(1-4) by (simp add: n(1), simp_all add: n(2-4))
  have single: "n AND 2 ^ k \<noteq> 0 \<longleftrightarrow> odd (n div 2 ^ k)" for k
    using and_exp_eq_0_iff_not_bit [of n k] by (simp add: bit_iff_odd)
  show "n AND 1 \<noteq> 0 \<longleftrightarrow> a" "n AND 2 \<noteq> 0 \<longleftrightarrow> b" using single [of 0] single [of 1] bits by simp_all
  show c4: "n AND 4 \<noteq> 0 \<longleftrightarrow> c" and d8: "n AND 8 \<noteq> 0 \<longleftrightarrow> d" using single [of 2] single [of 3] bits by simp_all
  have "n AND (4 OR 8) = (n AND 4) OR (n AND 8)" by (rule bit_eqI) (simp only: bit_and_iff bit_or_iff, blast)
  then have "n AND 12 = (n AND 4) OR (n AND 8)" by simp
  then show "n AND 12 \<noteq> 0 \<longleftrightarrow> c \<or> d" unfolding c4 [symmetric] d8 [symmetric] by (simp only: or_eq_0_iff de_Morgan_conj)
  show "n div 16 = m" by (rule n(5))
qed

text \<open>What the coins database can hold: unspent data without a null tail, as \<open>CCoinsViewCache\<close> writes it.\<close>

definition CCoins_ok :: "CCoins \<Rightarrow> bool" where
  "CCoins_ok c \<longleftrightarrow> \<not> IsPruned c \<and> cleaned c \<and> length (coins_vout c) < 2 ^ 30 \<and>
     (\<forall>out \<in> set (coins_vout c). out = CTxOut_null \<or> \<not> CTxOut_IsNull out \<and> compressible out) \<and>
     0 \<le> coins_height c \<and> coins_height c < 2 ^ 31 \<and> 0 \<le> coins_version c \<and> coins_version c < 2 ^ 31"

lemma ReadVarInt_int_Write:
  "0 \<le> x \<Longrightarrow> x < 2 ^ 31 \<Longrightarrow> rbind ReadVarInt_int f (WriteVarInt_int x @ rest) = f x rest"
proof -
  assume x: "0 \<le> x" "x < 2 ^ 31"
  have "sint (of_nat (nat x) :: 32 word) = x"
    using x by (simp add: sint_uint signed_take_bit_int_eq_self unsigned_of_int take_bit_int_eq_self)
  then show ?thesis using x by (simp add: ReadVarInt_int_def WriteVarInt_int_def)
qed

lemma is_unspent_mask:
  assumes "CalcMaskSize v = (L, Z)" and "is_unspent v i" and "2 \<le> i"
  shows "i < 2 + 8 * L \<and> Z \<noteq> 0"
proof -
  let ?b = "(i - 2) div 8" and ?k = "(i - 2) mod 8"
  have "2 + ?b * 8 + ?k = i" using assms(3) by simp
  then have "bit (avail_byte (mask_group v ?b)) ?k" using assms(2) bit_avail_byte [of v ?b ?k] by simp
  then have nz: "avail_byte (mask_group v ?b) \<noteq> 0" by auto
  then have b: "?b < L" using CalcMaskSize(2) [OF assms(1), of ?b] by (meson not_le)
  then have "?b \<in> set (filter (\<lambda>b. avail_byte (mask_group v b) \<noteq> 0) [0..<L])" using nz by simp
  then have "Z \<noteq> 0" using CalcMaskSize(1) [OF assms(1)] by (metis length_0_conv list.set(1) empty_iff)
  moreover have "i < 2 + 8 * L" using b assms(3) by (simp add: less_mult_imp_div_less div_less_iff_less_mult)
  ultimately show ?thesis by simp
qed

lemma header_code_None: "header_code f c = None \<longleftrightarrow> IsPruned c"
proof -
  let ?v = "coins_vout c"
  obtain L Z where m: "CalcMaskSize ?v = (L, Z)" by force
  have "IsPruned c \<longleftrightarrow> (\<forall>i. \<not> is_unspent ?v i)" by (simp add: IsPruned_def list_all_length is_unspent_def)
  also have "\<dots> \<longleftrightarrow> \<not> (is_unspent ?v 0 \<or> is_unspent ?v 1 \<or> Z \<noteq> 0)"
  proof -
    have "\<exists>i. is_unspent ?v i" if "Z \<noteq> 0"
    proof -
      have "filter (\<lambda>b. avail_byte (mask_group ?v b) \<noteq> 0) [0..<L] \<noteq> []"
        using that CalcMaskSize(1) [OF m] by auto
      then obtain b where "avail_byte (mask_group ?v b) \<noteq> 0" by (auto simp: filter_empty_conv)
      then obtain k where "bit (avail_byte (mask_group ?v b)) k" by (metis bit_eqI bit_0_eq bot_apply bot_bool_def)
      then show ?thesis by (auto simp: bit_avail_byte)
    qed
    moreover have "i = 0 \<or> i = 1 \<or> Z \<noteq> 0" if "is_unspent ?v i" for i
      using is_unspent_mask [OF m that] by (cases "2 \<le> i") auto
    ultimately show ?thesis by blast
  qed
  finally show ?thesis by (simp add: header_code_def m Let_def)
qed

lemma header_code_Some:
  assumes "CCoins_ok c" and "CalcMaskSize (coins_vout c) = (L, Z)"
  defines "b0 \<equiv> is_unspent (coins_vout c) 0" and "b1 \<equiv> is_unspent (coins_vout c) 1"
  defines "m \<equiv> Z - (if b0 \<or> b1 then 0 else 1)"
  defines "n \<equiv> 16 * m + (if fCoinBase c then 1 else 0) + (if fCoinStake c then 2 else 0) + (if b0 then 4 else 0) + (if b1 then 8 else 0)"
  shows "header_code 16 c = Some n \<and> n < 2 ^ 32 \<and> m + (if b0 \<or> b1 then 0 else 1) = Z"
proof -
  have np: "header_code 16 c \<noteq> None" using assms(1) unfolding header_code_None by (simp add: CCoins_ok_def)
  have "Z \<le> L" "8 * L \<le> length (coins_vout c) + 7" using CalcMaskSize(4,5) [OF assms(2)] by blast+
  then have "8 * m \<le> length (coins_vout c) + 7" unfolding m_def by auto
  then have "16 * m \<le> 2 * 2 ^ 30 + 14" using assms(1) by (simp add: CCoins_ok_def)
  then have n: "n < 2 ^ 32" unfolding n_def by auto
  have z: "b0 \<or> b1 \<or> Z \<noteq> 0" using np by (auto simp: header_code_def assms(2) Let_def b0_def b1_def split: if_splits)
  then have "header_code 16 c = Some (n mod 2 ^ 32)"
    unfolding header_code_def assms(2) Let_def snd_conv b0_def [symmetric] b1_def [symmetric] n_def m_def by simp
  moreover have "m + (if b0 \<or> b1 then 0 else 1) = Z" using z unfolding m_def by auto
  ultimately show ?thesis using n by simp
qed

lemma CCoins_roundtrip_aux:
  assumes K: "keys_law K" and ok: "CCoins_ok c"
  shows "\<exists>s. ser_CCoins K c = Some s \<and> unser_CCoins K (s @ rest) = Inr (c, rest)"
proof -
  let ?v = "coins_vout c"
  obtain L Z where m: "CalcMaskSize ?v = (L, Z)" by force
  define b0 b1 where "b0 = is_unspent ?v 0" and "b1 = is_unspent ?v 1"
  define q where "q = Z - (if b0 \<or> b1 then 0 else 1)"
  define n where "n = 16 * q + (if fCoinBase c then 1 else 0) + (if fCoinStake c then 2 else 0) + (if b0 then 4 else 0) + (if b1 then 8 else 0)"
  note h = header_code_Some [OF ok m, folded b0_def b1_def, folded q_def, folded n_def]
  note bits = header_bits [of q "fCoinBase c" "fCoinStake c" b0 b1, folded n_def]
  have u: "unat (of_nat n :: 32 word) = n" using h by (simp add: unat_of_nat)
  have avail: "[b0, b1] @ map (\<lambda>i. is_unspent ?v (2 + i)) [0..<8 * L] = map (is_unspent ?v) [0..<2 + 8 * L]"
    by (rule nth_equalityI) (auto simp: b0_def b1_def nth_Cons nth_append split: nat.split simp del: upt_Suc)
  have len: "length ?v \<le> 2 + 8 * L"
  proof (rule ccontr)
    assume l: "\<not> length ?v \<le> 2 + 8 * L"
    then have u: "is_unspent ?v (length ?v - 1)"
      using ok by (cases ?v rule: rev_cases) (auto simp: CCoins_ok_def cleaned_def is_unspent_def)
    have "2 \<le> length ?v - 1" using l by linarith
    then have "length ?v - 1 < 2 + 8 * L" using is_unspent_mask [OF m u] by blast
    then show False using l by linarith
  qed
  then obtain k where k: "2 + 8 * L = length ?v + k" using le_Suc_ex by blast
  have "map (is_unspent ?v) [0..<length ?v + k] = map (\<lambda>out. \<not> CTxOut_IsNull out) ?v @ replicate k False"
    by (rule nth_equalityI) (auto simp: is_unspent_def nth_append)
  note vAvail = this [folded k, folded avail]
  have outs: "\<forall>out \<in> set ?v. out = CTxOut_null \<or> \<not> CTxOut_IsNull out \<and> compressible out"
    and range: "0 \<le> coins_height c" "coins_height c < 2 ^ 31" "0 \<le> coins_version c" "coins_version c < 2 ^ 31"
    and cl: "cleaned c" using ok by (auto simp: CCoins_ok_def)
  have clean: "Cleanup (c\<lparr>coins_vout := ?v @ replicate k CTxOut_null\<rparr>) = c"
  proof -
    have "strip_null (?v @ replicate k CTxOut_null) = strip_null ?v"
      by (induction k) (simp, simp only: replicate_Suc replicate_append_same [symmetric] append_assoc [symmetric]
          strip_null_snoc CTxOut_null_IsNull if_True)
    then show ?thesis using cl by (simp add: Cleanup_def strip_null_id cleaned_def)
  qed
  have rec: "\<lparr>fCoinBase = fCoinBase c, fCoinStake = fCoinStake c, coins_vout = w, coins_height = coins_height c,
      coins_version = coins_version c\<rparr> = c\<lparr>coins_vout := w\<rparr>" for w by (cases c) simp
  have Z: "n div 16 + (if n AND 12 \<noteq> 0 then 0 else 1) = Z" using h unfolding bits by simp
  have mask: "rbind (read_mask Z [b0, b1]) f (map (\<lambda>b. avail_byte (mask_group ?v b)) [0..<L] @ r) =
      f ([b0, b1] @ map (\<lambda>i. is_unspent ?v (2 + i)) [0..<8 * L]) r" for f and r
    by (simp only: rbind_def read_mask_written [OF m] sum.case prod.case)
  have outputs: "rbind (read_outputs K (map (\<lambda>out. \<not> CTxOut_IsNull out) ?v @ replicate k False)) f
      (concat (map (ser_CTxOutCompressor K) (filter (\<lambda>out. \<not> CTxOut_IsNull out) ?v)) @ r) =
      f (?v @ replicate k CTxOut_null) r" for f and r
    by (simp only: rbind_def read_outputs_written [OF K outs] sum.case prod.case)
  have "unser_CCoins K ((WriteVarInt_int (coins_version c) @ WriteVarInt n @
         map (\<lambda>b. avail_byte (mask_group ?v b)) [0..<L] @
         concat (map (ser_CTxOutCompressor K) (filter (\<lambda>out. \<not> CTxOut_IsNull out) ?v)) @
         WriteVarInt_int (coins_height c)) @ rest) = Inr (c, rest)"
    unfolding unser_CCoins_def append_assoc ReadVarInt_int_Write [OF range(3,4)]
      rbind_Inr [where m = ReadVarInt, OF ReadVarInt_Write] Let_def u Z bits(3,4)
      mask vAvail outputs
      ReadVarInt_int_Write [OF range(1,2)] bits(1,2) rec clean by simp
  then show ?thesis using h m by (simp add: ser_CCoins_def)
qed

section \<open>Undo records\<close>

definition ser_CTxInUndo :: "curve_keys \<Rightarrow> CTxInUndo \<Rightarrow> bytes" where
  "ser_CTxInUndo K u =
     WriteVarInt (nat ((undo_height u * 4 + (if undo_fCoinBase u then 2 else 0) + (if undo_fCoinStake u then 1 else 0)) mod 2 ^ 32)) @
     (if undo_height u > 0 then WriteVarInt_int (undo_version u) else []) @
     ser_CTxOutCompressor K (undo_txout u)"

definition unser_CTxInUndo :: "curve_keys \<Rightarrow> CTxInUndo reader" where
  "unser_CTxInUndo K =
     rbind ReadVarInt (\<lambda>w :: 32 word.
       let nCode = unat w; nHeight = int (nCode div 4) in
     rbind (if nHeight > 0 then ReadVarInt_int else rreturn 0) (\<lambda>version.
     rbind (unser_CTxOutCompressor K CTxOut_null) (\<lambda>out.
     rreturn \<lparr>undo_txout = out, undo_fCoinBase = (nCode AND 2 \<noteq> 0), undo_fCoinStake = (nCode AND 1 \<noteq> 0),
       undo_height = nHeight, undo_version = version\<rparr>)))"

text \<open>\<open>CTxUndo\<close>, the undo records of a transaction.\<close>

definition ser_CTxUndo :: "curve_keys \<Rightarrow> CTxInUndo list \<Rightarrow> bytes" where
  "ser_CTxUndo K vprevout = Serialize_vector (ser_CTxInUndo K) vprevout"

definition unser_CTxUndo :: "curve_keys \<Rightarrow> CTxInUndo list reader" where
  "unser_CTxUndo K = Unserialize_vector (unser_CTxInUndo K)"

definition CTxInUndo_ok :: "CTxInUndo \<Rightarrow> bool" where
  "CTxInUndo_ok u \<longleftrightarrow> compressible (undo_txout u) \<and> 0 \<le> undo_height u \<and> undo_height u < 2 ^ 30 \<and>
     0 \<le> undo_version u \<and> undo_version u < 2 ^ 31 \<and> (undo_height u = 0 \<longrightarrow> undo_version u = 0)"

lemma undo_bits:
  fixes a b :: bool and m :: nat
  defines "n \<equiv> m * 4 + (if b then 2 else 0) + (if a then 1 else 0)"
  shows "n AND 1 \<noteq> 0 \<longleftrightarrow> a" and "n AND 2 \<noteq> 0 \<longleftrightarrow> b" and "n div 4 = m"
proof -
  have "odd n = a" "odd (n div 2) = b" unfolding n_def by (cases a; cases b; simp; presburger)+
  then show "n AND 1 \<noteq> 0 \<longleftrightarrow> a" "n AND 2 \<noteq> 0 \<longleftrightarrow> b"
    using and_exp_eq_0_iff_not_bit [of n 0] and_exp_eq_0_iff_not_bit [of n 1] by (simp_all add: bit_iff_odd)
  show "n div 4 = m" unfolding n_def by (cases a; cases b) simp_all
qed

lemma undo_roundtrip:
  assumes K: "keys_law K"
  shows "roundtrip (ser_CTxInUndo K) (unser_CTxInUndo K) CTxInUndo_ok"
proof
  fix u rest assume ok: "CTxInUndo_ok u"
  define m where "m = nat (undo_height u)"
  define n where "n = m * 4 + (if undo_fCoinBase u then 2 else 0) + (if undo_fCoinStake u then 1 else 0)"
  have m: "undo_height u = int m" "m < 2 ^ 30" using ok by (auto simp: m_def CTxInUndo_ok_def)
  have n: "n < 2 ^ 32" using m(2) by (simp add: n_def)
  have code: "nat ((undo_height u * 4 + (if undo_fCoinBase u then 2 else 0) + (if undo_fCoinStake u then 1 else 0)) mod 2 ^ 32) = n"
  proof -
    have "undo_height u * 4 + (if undo_fCoinBase u then 2 else 0) + (if undo_fCoinStake u then 1 else 0) = int n"
      by (simp add: n_def m(1))
    moreover have "int n mod 2 ^ 32 = int n" using n by (intro mod_pos_pos_trivial) simp_all
    ultimately show ?thesis by (simp only: nat_int)
  qed
  have w: "unat (of_nat n :: 32 word) = n" using n by (simp add: unat_of_nat)
  note bits = undo_bits [of m "undo_fCoinBase u" "undo_fCoinStake u", folded n_def]
  have out: "compressible (undo_txout u)" and v: "0 \<le> undo_version u" "undo_version u < 2 ^ 31" "m = 0 \<Longrightarrow> undo_version u = 0"
    using ok m(1) by (auto simp: CTxInUndo_ok_def)
  have version: "rbind (if int m > 0 then ReadVarInt_int else rreturn 0) f
      ((if int m > 0 then WriteVarInt_int (undo_version u) else []) @ r) = f (undo_version u) r" for f and r
    using v by (simp add: ReadVarInt_int_Write [OF v(1,2)])
  have rec: "\<lparr>undo_txout = undo_txout u, undo_fCoinBase = undo_fCoinBase u, undo_fCoinStake = undo_fCoinStake u,
      undo_height = int m, undo_version = undo_version u\<rparr> = u" using m(1) by (cases u) simp
  show "unser_CTxInUndo K (ser_CTxInUndo K u @ rest) = Inr (u, rest)"
    unfolding unser_CTxInUndo_def ser_CTxInUndo_def code [unfolded m(1)] append_assoc Let_def m(1) w bits version
      rbind_Inr [where m = ReadVarInt, OF ReadVarInt_Write]
      roundtrip.bind_unser [OF txout_roundtrip [OF K] out] rec by simp
qed

text \<open>C39: The coins database and the undo files lose nothing: unspent data without a null tail, with values,
  height and version in range, is read back exactly as it was written, whatever its outputs, flags and
  scripts (public keys rest on the law of the curve operations); so are the undo records of a
  transaction; and only pruned coins fail the assertion of \<open>Serialize\<close>.\<close>

theorem CCoins_roundtrip:
  assumes "keys_law K"
  shows "(CCoins_ok c \<longrightarrow> (\<exists>s. ser_CCoins K c = Some s \<and> unser_CCoins K (s @ rest) = Inr (c, rest))) \<and>
    (vector_ok CTxInUndo_ok us \<longrightarrow> unser_CTxUndo K (ser_CTxUndo K us @ rest) = Inr (us, rest)) \<and>
    (ser_CCoins K c = None \<longleftrightarrow> IsPruned c)"
proof (intro conjI impI)
  assume "vector_ok CTxInUndo_ok us"
  then show "unser_CTxUndo K (ser_CTxUndo K us @ rest) = Inr (us, rest)"
    unfolding unser_CTxUndo_def ser_CTxUndo_def
    by (rule roundtrip.unser_ser [OF roundtrip.vector_roundtrip [OF undo_roundtrip [OF assms]]])
next
  show "ser_CCoins K c = None \<longleftrightarrow> IsPruned c" using header_code_None [of 16 c] by (simp add: ser_CCoins_def)
qed (rule CCoins_roundtrip_aux [OF assms])

text \<open>A curve for examples: the second coordinate is its parity.\<close>

definition toy_keys :: curve_keys where
  "toy_keys = \<lparr>fully_valid = (\<lambda>k. k = take 33 k @ replicate 31 0 @ [k ! 64 AND 1]),
     decompress_key = (\<lambda>k. Some (4 # take 32 (drop 1 k) @ replicate 31 0 @ [k ! 0 AND 1]))\<rparr>"

lemma toy_keys_law: "keys_law toy_keys"
proof -
  have "4 # take 32 (drop 1 k) @ replicate 31 0 @ [(2 OR (k ! 64 AND 1)) AND 1] = k"
    if k: "length k = 65" "k ! 0 = 4" "k = take 33 k @ replicate 31 0 @ [k ! 64 AND 1]" for k :: bytes
  proof -
    have "take 33 k = 4 # take 32 (drop 1 k)" using k(1,2) by (cases k) simp_all
    moreover have "(2 OR (k ! 64 AND 1)) AND 1 = k ! 64 AND 1" using and_1_cases [of "k ! 64"] by auto
    ultimately show ?thesis using k(3) by simp
  qed
  then show ?thesis by (simp add: keys_law_def toy_keys_def compressed_key_def)
qed

definition stored_coins :: CCoins where
  "stored_coins = \<lparr>fCoinBase = False, fCoinStake = True,
     coins_vout = CTxOut_null # replicate 3 \<lparr>nValue = 70000, scriptPubKey = 65 # 4 # replicate 63 0 @ [1, 0xac], nRounds = - 10\<rparr>,
     coins_height = 120, coins_version = 1\<rparr>"

lemma CCoins_roundtrip_witness:
  "\<exists>s. ser_CCoins toy_keys stored_coins = Some s \<and> unser_CCoins toy_keys (s @ [7]) = Inr (stored_coins, [7])"
proof -
  have "CCoins_ok stored_coins"
    by (simp add: CCoins_ok_def stored_coins_def IsPruned_def cleaned_def CTxOut_IsNull_def compressible_def
        CTxOut_null_def nSpecialScripts_def numeral_3_eq_3)
  then show ?thesis using CCoins_roundtrip [OF toy_keys_law, of stored_coins "[7]" "[]"] by blast
qed

section \<open>Sizes\<close>

lemma length_WriteVarInt_int: "length (WriteVarInt_int x) = GetSizeOfVarInt_int x"
  by (simp add: WriteVarInt_int_def GetSizeOfVarInt_int_def WriteVarInt_def length_WriteVarInt_loop)

text \<open>The written size differs from the predicted one by the sizes of the two header codes.\<close>

lemma ser_CCoins_length:
  assumes "ser_CCoins K c = Some s" and "GetSerializeSize_CCoins K c = Some n"
    and "header_code 16 c = Some x" and "header_code 8 c = Some y"
  shows "length s + GetSizeOfVarInt y = n + GetSizeOfVarInt x"
  using assms by (auto simp: ser_CCoins_def GetSerializeSize_CCoins_def length_WriteVarInt_int length_concat
      length_txout comp_def WriteVarInt_def length_WriteVarInt_loop)

definition big_coins :: CCoins where
  "big_coins = \<lparr>fCoinBase = False, fCoinStake = False,
     coins_vout = replicate 66 \<lparr>nValue = 1, scriptPubKey = [0x51], nRounds = - 10\<rparr>, coins_height = 1, coins_version = 1\<rparr>"

lemma big_coins_mask: "CalcMaskSize (coins_vout big_coins) = (8, 8)" and big_coins_unspent:
  "is_unspent (coins_vout big_coins) 0" "is_unspent (coins_vout big_coins) 1"
  by code_simp+

text \<open>\<open>CCoins::GetSerializeSize\<close> is wrong: it computes the header code with factor 8 where \<open>Serialize\<close> has
  factor 16, so for coins with 66 unspent outputs it predicts one byte less than is written.\<close>

theorem GetSerializeSize_too_small:
  "\<exists>s n. ser_CCoins K big_coins = Some s \<and> GetSerializeSize_CCoins K big_coins = Some n \<and> length s = n + 1"
proof -
  have h: "header_code 16 big_coins = Some 140" "header_code 8 big_coins = Some 76"
    unfolding header_code_def big_coins_mask Let_def using big_coins_unspent by (simp_all add: big_coins_def)
  obtain s where s: "ser_CCoins K big_coins = Some s" using h(1) by (simp add: ser_CCoins_def)
  obtain n where n: "GetSerializeSize_CCoins K big_coins = Some n" using h(2) by (simp add: GetSerializeSize_CCoins_def)
  have "GetSizeOfVarInt 76 = 1" "GetSizeOfVarInt 140 = 2" by (simp_all add: GetSizeOfVarInt.simps)
  then show ?thesis using ser_CCoins_length [OF s n h] s n by simp
qed

section \<open>What is written can be read back\<close>

lemma compressible_clear_output:
  "compressible out \<Longrightarrow> clear_output out = CTxOut_null \<or> \<not> CTxOut_IsNull (clear_output out) \<and> compressible (clear_output out)"
  by (auto simp: clear_output_def compressible_def CTxOut_IsNull_def)

lemma set_strip_null: "set (strip_null v) \<subseteq> set v" and length_strip_null: "length (strip_null v) \<le> length v"
  using strip_null_split [of v] by (metis Un_upper1 set_append, metis le_add1 length_append)

lemma FromTx_ok:
  assumes "\<forall>out \<in> set (vout tx). compressible out" and "length (vout tx) < 2 ^ 30"
    and "0 \<le> h" "h < 2 ^ 31" "0 \<le> sint (nVersion tx)"
  shows "IsPruned (FromTx tx h) \<or> CCoins_ok (FromTx tx h)"
proof -
  have "out = CTxOut_null \<or> \<not> CTxOut_IsNull out \<and> compressible out" if "out \<in> set (coins_vout (FromTx tx h))" for out
    using that assms(1) set_strip_null [of "map clear_output (vout tx)"] compressible_clear_output
    unfolding FromTx_vout by fastforce
  moreover have "length (coins_vout (FromTx tx h)) < 2 ^ 30"
    using length_strip_null [of "map clear_output (vout tx)"] assms(2) unfolding FromTx_vout by simp
  moreover have "coins_version (FromTx tx h) = sint (nVersion tx)"
    by (simp add: FromTx_def ClearUnspendable_def Cleanup_def)
  moreover have "sint (nVersion tx) < 2 ^ 31" using sint_lt [of "nVersion tx"] by simp
  ultimately show ?thesis using assms(3-5) FromTx_cleaned [of tx h] by (simp add: CCoins_ok_def FromTx_height)
qed

lemma Spend_ok:
  assumes "CCoins_ok c" and "coins_height c < 2 ^ 30" and "0 < coins_height c" and "Spend c n = Some (c', u)"
  shows "(IsPruned c' \<or> CCoins_ok c') \<and> CTxInUndo_ok u \<and> coins_height c' = coins_height c"
proof -
  let ?v = "(coins_vout c)[n := CTxOut_null]"
  have n: "n < length (coins_vout c)" "\<not> CTxOut_IsNull (coins_vout c ! n)"
    and c': "c' = Cleanup (c\<lparr>coins_vout := ?v\<rparr>)" using assms(4) by (auto simp: Spend_def Let_def split: if_splits)
  have txout: "undo_txout u = coins_vout c ! n" using assms(4) by (auto simp: Spend_def Let_def split: if_splits)
  have meta: "(undo_height u = 0 \<and> undo_version u = 0) \<or> (undo_height u = coins_height c \<and> undo_version u = coins_version c)"
    using assms(4) by (auto simp: Spend_def Let_def split: if_splits)
  have outs: "\<forall>out \<in> set (coins_vout c). out = CTxOut_null \<or> \<not> CTxOut_IsNull out \<and> compressible out"
    using assms(1) by (simp add: CCoins_ok_def)
  then have "compressible (undo_txout u)" using n unfolding txout by (metis CTxOut_null_IsNull nth_mem)
  then have u: "CTxInUndo_ok u" using meta assms(1-3) by (auto simp: CTxInUndo_ok_def CCoins_ok_def)
  have "set (strip_null ?v) \<subseteq> insert CTxOut_null (set (coins_vout c))"
    using set_strip_null [of ?v] set_update_subset_insert [of "coins_vout c" n CTxOut_null] by blast
  then have o': "\<forall>out \<in> set (coins_vout c'). out = CTxOut_null \<or> \<not> CTxOut_IsNull out \<and> compressible out"
    using outs unfolding c' by (auto simp: Cleanup_def)
  have l: "length (coins_vout c') < 2 ^ 30"
    using length_strip_null [of ?v] assms(1) unfolding c' by (simp add: Cleanup_def CCoins_ok_def)
  have cl: "cleaned c'" unfolding c' by (rule cleaned_Cleanup)
  have same: "coins_height c' = coins_height c" "coins_version c' = coins_version c" unfolding c' by (simp_all add: Cleanup_def)
  have "IsPruned c' \<or> CCoins_ok c'" using o' l cl same assms(1) by (auto simp: CCoins_ok_def)
  then show ?thesis using u same by simp
qed

definition utxos_ok :: "utxos \<Rightarrow> bool" where
  "utxos_ok A \<longleftrightarrow> (\<forall>t cs. A t = Some cs \<longrightarrow> CCoins_ok cs \<and> 0 < coins_height cs \<and> coins_height cs < 2 ^ 30)"

definition tx_storable :: "CTransaction \<Rightarrow> bool" where
  "tx_storable tx \<longleftrightarrow> (\<forall>out \<in> set (vout tx). compressible out) \<and> length (vout tx) < 2 ^ 30 \<and> 0 \<le> sint (nVersion tx)"

lemma spend_abs_ok:
  "spend_abs A ins = Some (us, A') \<Longrightarrow> utxos_ok A \<Longrightarrow> utxos_ok A' \<and> (\<forall>u \<in> set us. CTxInUndo_ok u)"
proof (induction ins arbitrary: A us)
  case (Cons txin ins)
  let ?t = "out_hash (prevout txin)"
  obtain cs cs' u us' where cs: "A ?t = Some cs" "Spend cs (unat (out_n (prevout txin))) = Some (cs', u)" "us = u # us'"
      "spend_abs (A(?t := unspent (Some cs'))) ins = Some (us', A')"
    using Cons.prems(1) by (rule spend_abs_ConsE)
  have ok: "CCoins_ok cs" "0 < coins_height cs" "coins_height cs < 2 ^ 30" using Cons.prems(2) cs(1) by (auto simp: utxos_ok_def)
  note s = Spend_ok [OF ok(1,3,2) cs(2)]
  have a: "utxos_ok (A(?t := unspent (Some cs')))"
    using Cons.prems(2) s ok(2,3) by (auto simp: utxos_ok_def unspent_def)
  show ?case using Cons.IH [OF cs(4) a] cs(3) s by simp
qed simp

lemma update_abs_ok:
  assumes "update_abs hs h tx A = Some (us, A')" and "utxos_ok A" and "0 < h" "h < 2 ^ 30" and "tx_storable tx"
  shows "utxos_ok A' \<and> (\<forall>u \<in> set us. CTxInUndo_ok u)"
proof -
  obtain A1 where A1: "(if has_inputs tx then spend_abs A (vin tx) else Some ([], A)) = Some (us, A1)"
      "A' = A1(tx_GetHash hs tx := unspent (Some (FromTx tx h)))"
    using assms(1) by (auto simp: update_abs_def split: option.splits)
  have a: "utxos_ok A1 \<and> (\<forall>u \<in> set us. CTxInUndo_ok u)"
    using A1(1) assms(2) spend_abs_ok by (cases "has_inputs tx") auto
  have "IsPruned (FromTx tx h) \<or> CCoins_ok (FromTx tx h)"
    using assms(3-5) by (intro FromTx_ok) (auto simp: tx_storable_def)
  then show ?thesis using a assms(3,4) FromTx_height [of tx h] by (auto simp: A1(2) utxos_ok_def unspent_def)
qed

lemma connect_abs_ok:
  "connect_abs hs h txs A = Some (uss, A') \<Longrightarrow> utxos_ok A \<Longrightarrow> 0 < h \<Longrightarrow> h < 2 ^ 30 \<Longrightarrow> \<forall>tx \<in> set txs. tx_storable tx \<Longrightarrow>
    utxos_ok A' \<and> (\<forall>us \<in> set uss. \<forall>u \<in> set us. CTxInUndo_ok u)"
proof (induction txs arbitrary: A uss)
  case (Cons tx txs)
  obtain us A1 uss' where u: "update_abs hs h tx A = Some (us, A1)" "connect_abs hs h txs A1 = Some (uss', A')" "uss = us # uss'"
    using Cons.prems(1) by (auto split: option.splits)
  have "utxos_ok A1 \<and> (\<forall>u \<in> set us. CTxInUndo_ok u)" using update_abs_ok [OF u(1)] Cons.prems(2-5) by simp
  then show ?case using Cons.IH [OF u(2)] Cons.prems(3-5) u(3) by simp
qed simp

text \<open>C40: Well-formedness is preserved from block to block and is enough for the disk.  The loop of \<open>UpdateCoins\<close> over the transactions of a
  block (\<open>connect_txs\<close>) at a height between 0 and \<open>2 ^ 30\<close>, both excluded, on well formed caches (\<open>block_inv\<close>) whose unspent set is storable (\<open>utxos_ok\<close>) leaves storable coins, and the coins
  and the undo records that the block wrote are read back from their bytes exactly, an undo record when it has at most \<open>MAX_SIZE\<close> entries.
  The transactions must be storable (\<open>tx_storable\<close>): fewer than \<open>2 ^ 30\<close> outputs, each with an amount from 0 below \<open>2 ^ 60\<close>, a script shorter than
  \<open>2 ^ 32 - 6\<close> bytes and the memory-only \<open>nRounds\<close> at its default, and a version that is not negative.  No check enforces the last: coins
  with a negative version do not read back.  The curve library
  must decompress the compressed form of a valid key to the key (\<open>keys_law\<close>).\<close>

theorem connect_txs_storable:
  assumes "keys_law K" and "block_inv s" and "utxos_ok (block_abs s)" and "0 < h" and "h < 2 ^ 30"
    and "\<forall>tx \<in> set txs. tx_storable tx" and "connect_txs tip_view hs h txs s = Some (undos, s')"
  shows "utxos_ok (block_abs s') \<and>
    (\<forall>t cs. block_abs s' t = Some cs \<longrightarrow>
      (\<exists>bs. ser_CCoins K cs = Some bs \<and> unser_CCoins K (bs @ rest) = Inr (cs, rest))) \<and>
    (\<forall>us \<in> set undos. length us \<le> MAX_SIZE \<longrightarrow> unser_CTxUndo K (ser_CTxUndo K us @ rest) = Inr (us, rest))"
proof -
  obtain A' where A': "connect_abs hs h txs (block_abs s) = Some (undos, A')" "block_abs s' = A'"
    using tipv.connect_txs_abs [OF assms(2), of hs h txs] assms(7) by (auto split: option.splits)
  note ok = connect_abs_ok [OF A'(1) assms(3-6)]
  have "unser_CTxUndo K (ser_CTxUndo K us @ rest) = Inr (us, rest)" if "us \<in> set undos" "length us \<le> MAX_SIZE" for us
    unfolding unser_CTxUndo_def ser_CTxUndo_def
    by (rule roundtrip.unser_ser [OF roundtrip.vector_roundtrip [OF undo_roundtrip [OF assms(1)]]])
      (use ok that in \<open>auto simp: vector_ok_def\<close>)
  moreover have "\<exists>bs. ser_CCoins K cs = Some bs \<and> unser_CCoins K (bs @ rest) = Inr (cs, rest)" if "block_abs s' t = Some cs" for t cs
    using ok that by (intro CCoins_roundtrip_aux [OF assms(1)]) (auto simp: A'(2) utxos_ok_def)
  ultimately show ?thesis using ok A'(2) by blast
qed

lemma connect_txs_storable_witness:
  "\<exists>undos s'. connect_txs tip_view sum_hashes 200 [sample_coinbase, sample_tx] (CCoinsViewCache_new (CCoinsViewCache_new sample_db)) = Some (undos, s') \<and>
    utxos_ok (block_abs s')"
proof -
  let ?s = "CCoinsViewCache_new (CCoinsViewCache_new sample_db)"
  have i: "block_inv ?s" "block_abs ?s = db_abs sample_db"
    using tip_new [of sample_db] block_new [of "CCoinsViewCache_new sample_db"] by simp_all
  have "Option.is_none (connect_txs tip_view sum_hashes 200 [sample_coinbase, sample_tx] ?s) = False" by code_simp
  then obtain undos s' where r: "connect_txs tip_view sum_hashes 200 [sample_coinbase, sample_tx] ?s = Some (undos, s')"
    by (auto simp: Option.is_none_def)
  have ok: "utxos_ok (db_abs sample_db)"
    by (simp add: utxos_ok_def db_abs_def sample_db_def unspent_def CCoins_ok_def sample_coins_def IsPruned_def cleaned_def
        CTxOut_IsNull_def compressible_def nSpecialScripts_def)
  have tx: "\<forall>tx \<in> set [sample_coinbase, sample_tx]. tx_storable tx"
    by (simp add: tx_storable_def sample_coinbase_def sample_tx_def compressible_def nSpecialScripts_def)
  show ?thesis using connect_txs_storable [OF toy_keys_law i(1) _ _ _ tx r] ok i(2) r by auto
qed

end
