(* ===== verification/Chain.thy ===== *)
theory Chain
  imports Prelude
begin

text \<open>
  The block index (src/src/chain.h, src/src/main.cpp): a tree of \<open>CBlockIndex\<close> objects linked by
  \<open>pprev\<close> and by the skip pointers \<open>pskip\<close>, and the active chain \<open>CChain\<close> (src/src/chain.h,
  src/src/chain.cpp).  The heap of objects is a map from addresses; dereferencing an address that
  holds no object, or \<open>NULL\<close>, is \<open>None\<close>.  Loops along \<open>pprev\<close> are partial functions, so not ending is
  \<open>None\<close> too.
\<close>

type_synonym ptr = nat
type_synonym uint256 = "256 word"

record CBlockIndex =
  phashBlock :: uint256
  pprev :: "ptr option"
  pskip :: "ptr option"
  nHeight :: nat
  nChainWork :: nat
  nTx :: nat
  nChainTx :: nat
  nStatus :: "32 word"
  nSequenceId :: nat
  block_nTime :: nat

type_synonym block_heap = "ptr \<Rightarrow> CBlockIndex option"

definition deref :: "block_heap \<Rightarrow> ptr option \<Rightarrow> CBlockIndex option" where
  "deref m r = (case r of None \<Rightarrow> None | Some p \<Rightarrow> m p)"

lemma deref_simps [simp]: "deref m None = None" "deref m (Some p) = m p"
  by (simp_all add: deref_def)

section \<open>The skip list\<close>

definition InvertLowestOne :: "int \<Rightarrow> int" where
  "InvertLowestOne n = n AND (n - 1)"

definition GetSkipHeight :: "int \<Rightarrow> int" where
  "GetSkipHeight height =
     (if height < 2 then 0
      else if height AND 1 \<noteq> 0 then InvertLowestOne (InvertLowestOne (height - 1)) + 1
      else InvertLowestOne height)"

lemma InvertLowestOne_bounds: "0 < n \<Longrightarrow> 0 \<le> InvertLowestOne n \<and> InvertLowestOne n < n"
  using AND_upper2 [of "n - 1" n] by (simp add: InvertLowestOne_def)

lemma InvertLowestOne_0 [simp]: "InvertLowestOne 0 = 0"
  by (simp add: InvertLowestOne_def)

lemma GetSkipHeight_bounds:
  assumes "0 < h"
  shows "0 \<le> GetSkipHeight h \<and> GetSkipHeight h < h"
proof (cases "h < 2")
  case False
  then have a: "0 \<le> InvertLowestOne (h - 1)" "InvertLowestOne (h - 1) < h - 1"
    using InvertLowestOne_bounds [of "h - 1"] by auto
  have b: "0 \<le> InvertLowestOne (InvertLowestOne (h - 1)) \<and> InvertLowestOne (InvertLowestOne (h - 1)) \<le> InvertLowestOne (h - 1)"
    using InvertLowestOne_bounds [of "InvertLowestOne (h - 1)"] a(1) by (cases "InvertLowestOne (h - 1) = 0") auto
  then show ?thesis using False a InvertLowestOne_bounds [of h] by (simp add: GetSkipHeight_def)
qed (use assms in \<open>simp add: GetSkipHeight_def\<close>)

text \<open>The loop of \<open>GetAncestor\<close>, down to \<open>height\<close>, which is not negative; it returns a pointer.\<close>

function GetAncestor_loop :: "block_heap \<Rightarrow> nat \<Rightarrow> ptr option \<Rightarrow> nat \<Rightarrow> ptr option option" where
  "GetAncestor_loop m height pindexWalk heightWalk =
     (if heightWalk > height then
        let heightSkip = GetSkipHeight (int heightWalk); heightSkipPrev = GetSkipHeight (int heightWalk - 1)
        in case deref m pindexWalk of
             None \<Rightarrow> None
           | Some b \<Rightarrow>
               if heightSkip = int height \<or>
                  (heightSkip > int height \<and> \<not> (heightSkipPrev < heightSkip - 2 \<and> heightSkipPrev \<ge> int height))
               then GetAncestor_loop m height (pskip b) (nat heightSkip)
               else GetAncestor_loop m height (pprev b) (heightWalk - 1)
      else Some pindexWalk)"
  by auto
termination
proof (relation "measure (\<lambda>(m, h, p, w). w)", goal_cases)
  case (2 m height p w hs hp b)
  then show ?case using GetSkipHeight_bounds [of "int w"] by (auto simp: nat_less_iff)
qed auto

declare GetAncestor_loop.simps [simp del]

definition GetAncestor :: "block_heap \<Rightarrow> ptr \<Rightarrow> int \<Rightarrow> ptr option option" where
  "GetAncestor m p height =
     (case m p of
        None \<Rightarrow> None
      | Some b \<Rightarrow> if height > int (nHeight b) \<or> height < 0 then Some None
                  else GetAncestor_loop m (nat height) (Some p) (nHeight b))"

definition BuildSkip :: "block_heap \<Rightarrow> ptr \<Rightarrow> block_heap option" where
  "BuildSkip m p =
     (case m p of
        None \<Rightarrow> None
      | Some b \<Rightarrow>
          (case pprev b of
             None \<Rightarrow> Some m
           | Some q \<Rightarrow>
               (case GetAncestor m q (GetSkipHeight (int (nHeight b))) of
                  None \<Rightarrow> None
                | Some r \<Rightarrow> Some (m(p \<mapsto> b\<lparr>pskip := r\<rparr>)))))"

text \<open>The reference: walking back step by step.\<close>

fun walk :: "block_heap \<Rightarrow> nat \<Rightarrow> ptr \<Rightarrow> ptr option" where
  "walk m 0 p = Some p"
| "walk m (Suc n) p = (case m p of None \<Rightarrow> None | Some b \<Rightarrow> (case pprev b of None \<Rightarrow> None | Some q \<Rightarrow> walk m n q))"

text \<open>The invariant of the block index.\<close>

definition block_ok :: "block_heap \<Rightarrow> ptr \<Rightarrow> CBlockIndex \<Rightarrow> bool" where
  "block_ok m p b \<longleftrightarrow>
     (case pprev b of
        None \<Rightarrow> nHeight b = 0
      | Some q \<Rightarrow> (\<exists>c. m q = Some c \<and> nHeight b = Suc (nHeight c)) \<and>
          pskip b = walk m (nHeight b - nat (GetSkipHeight (int (nHeight b)))) p)"

definition index_wf :: "block_heap \<Rightarrow> bool" where
  "index_wf m \<longleftrightarrow> (\<forall>p b. m p = Some b \<longrightarrow> block_ok m p b)"

lemma index_wfD:
  assumes "index_wf m" and "m p = Some b"
  shows "pprev b = None \<Longrightarrow> nHeight b = 0"
    and "pprev b = Some q \<Longrightarrow> \<exists>c. m q = Some c \<and> nHeight b = Suc (nHeight c)"
    and "pprev b = Some q \<Longrightarrow> pskip b = walk m (nHeight b - nat (GetSkipHeight (int (nHeight b)))) p"
    and "0 < nHeight b \<Longrightarrow> \<exists>q c. pprev b = Some q \<and> m q = Some c \<and> nHeight b = Suc (nHeight c)"
proof -
  have "block_ok m p b" using assms by (simp add: index_wf_def)
  then show "pprev b = None \<Longrightarrow> nHeight b = 0"
    and "pprev b = Some q \<Longrightarrow> \<exists>c. m q = Some c \<and> nHeight b = Suc (nHeight c)"
    and "pprev b = Some q \<Longrightarrow> pskip b = walk m (nHeight b - nat (GetSkipHeight (int (nHeight b)))) p"
    and "0 < nHeight b \<Longrightarrow> \<exists>q c. pprev b = Some q \<and> m q = Some c \<and> nHeight b = Suc (nHeight c)"
    by (auto simp: block_ok_def split: option.splits)
qed

lemma walk_height:
  assumes "index_wf m" and "m p = Some b" and "n \<le> nHeight b"
  shows "\<exists>q c. walk m n p = Some q \<and> m q = Some c \<and> nHeight c = nHeight b - n"
  using assms(2,3)
proof (induction n arbitrary: p b)
  case (Suc n)
  then obtain q c where q: "pprev b = Some q" "m q = Some c" "nHeight b = Suc (nHeight c)"
    using index_wfD(4) [OF assms(1) Suc.prems(1)] by auto
  then show ?case using Suc.IH [OF q(2)] Suc.prems by simp
qed auto

lemma walk_add: "walk m (n + k) p = (case walk m n p of None \<Rightarrow> None | Some q \<Rightarrow> walk m k q)"
  by (induction n arbitrary: p) (simp_all split: option.split)

definition take_skip :: "nat \<Rightarrow> nat \<Rightarrow> bool" where
  "take_skip h hw \<longleftrightarrow> (let s = GetSkipHeight (int hw); s' = GetSkipHeight (int hw - 1) in
     s = int h \<or> (s > int h \<and> \<not> (s' < s - 2 \<and> s' \<ge> int h)))"

lemma GetAncestor_loop_step:
  assumes "h < hw" and "deref m p = Some b"
  shows "GetAncestor_loop m h p hw =
    (if take_skip h hw then GetAncestor_loop m h (pskip b) (nat (GetSkipHeight (int hw)))
     else GetAncestor_loop m h (pprev b) (hw - 1))"
  using assms by (subst GetAncestor_loop.simps) (simp add: take_skip_def Let_def)

lemma GetAncestor_loop_stop: "\<not> h < hw \<Longrightarrow> GetAncestor_loop m h p hw = Some p"
  by (subst GetAncestor_loop.simps) simp

lemma GetAncestor_loop_walk:
  assumes "index_wf m"
  shows "m p = Some b \<Longrightarrow> nHeight b = hw \<Longrightarrow> h \<le> hw \<Longrightarrow> GetAncestor_loop m h (Some p) hw = Some (walk m (hw - h) p)"
proof (induction hw arbitrary: p b rule: less_induct)
  case (less hw)
  show ?case
  proof (cases "h < hw")
    case False
    then show ?thesis using less.prems by (simp add: GetAncestor_loop_stop)
  next
    case True
    let ?s = "GetSkipHeight (int hw)"
    have step: "GetAncestor_loop m h (Some p) hw =
      (if take_skip h hw then GetAncestor_loop m h (pskip b) (nat ?s) else GetAncestor_loop m h (pprev b) (hw - 1))"
      using GetAncestor_loop_step [OF True, of m "Some p" b] less.prems(1) by simp
    have s: "0 \<le> ?s" "?s < int hw" using GetSkipHeight_bounds [of "int hw"] True by auto
    obtain q c where q: "pprev b = Some q" "m q = Some c" "hw = Suc (nHeight c)"
      using index_wfD(4) [OF assms less.prems(1)] True less.prems(2) by auto
    show ?thesis
    proof (cases "take_skip h hw")
      case skip: True
      define k where "k = nat ?s"
      have k: "k < hw" "h \<le> k" using s skip by (auto simp: k_def nat_less_iff take_skip_def Let_def)
      have "pskip b = walk m (hw - k) p"
        using index_wfD(3) [OF assms less.prems(1) q(1)] less.prems(2) by (simp add: k_def)
      moreover obtain r d where r: "walk m (hw - k) p = Some r" "m r = Some d" "nHeight d = k"
        using walk_height [OF assms less.prems(1), of "hw - k"] less.prems(2) k by auto
      ultimately have "GetAncestor_loop m h (Some p) hw = GetAncestor_loop m h (Some r) k"
        using step skip by (simp add: k_def)
      also have "\<dots> = Some (walk m (k - h) r)" by (rule less.IH [OF k(1) r(2,3) k(2)])
      also have "walk m (k - h) r = walk m (hw - h) p"
        using walk_add [of m "hw - k" "k - h" p] r(1) k by simp
      finally show ?thesis .
    next
      case noskip: False
      have "GetAncestor_loop m h (Some p) hw = GetAncestor_loop m h (Some q) (nHeight c)"
        using step noskip q by simp
      also have "\<dots> = Some (walk m (nHeight c - h) q)"
        using True q(3) by (intro less.IH [OF _ q(2)]) auto
      also have "walk m (nHeight c - h) q = walk m (hw - h) p"
        using True q less.prems(1) by (simp add: Suc_diff_le)
      finally show ?thesis .
    qed
  qed
qed

text \<open>A heap with more objects gives the same results.\<close>

lemma walk_mono: "m \<subseteq>\<^sub>m m' \<Longrightarrow> walk m n p = Some q \<Longrightarrow> walk m' n p = Some q"
proof (induction n arbitrary: p)
  case (Suc n)
  then obtain b r where b: "m p = Some b" "pprev b = Some r" "walk m n r = Some q" by (auto split: option.splits)
  then have "m' p = Some b" using Suc.prems(1) by (metis domI map_le_def)
  then show ?case using Suc.IH [OF Suc.prems(1) b(3)] b(2) by simp
qed simp

lemma GetAncestor_loop_mono:
  "m \<subseteq>\<^sub>m m' \<Longrightarrow> GetAncestor_loop m h p hw = Some r \<Longrightarrow> GetAncestor_loop m' h p hw = Some r"
proof (induction hw arbitrary: p rule: less_induct)
  case (less hw)
  show ?case
  proof (cases "h < hw")
    case True
    obtain b where b: "deref m p = Some b"
      using less.prems(2) True by (subst (asm) GetAncestor_loop.simps) (auto simp: Let_def split: option.splits)
    then have b': "deref m' p = Some b" using less.prems(1) by (cases p) (auto simp: map_le_def dom_def)
    have s: "nat (GetSkipHeight (int hw)) < hw" using GetSkipHeight_bounds [of "int hw"] True by (auto simp: nat_less_iff)
    show ?thesis
    proof (cases "take_skip h hw")
      case skip: True
      then have "GetAncestor_loop m h (pskip b) (nat (GetSkipHeight (int hw))) = Some r"
        using less.prems(2) GetAncestor_loop_step [OF True b] by simp
      then show ?thesis using less.IH [OF s less.prems(1)] GetAncestor_loop_step [OF True b'] skip by simp
    next
      case False
      then have "GetAncestor_loop m h (pprev b) (hw - 1) = Some r"
        using less.prems(2) GetAncestor_loop_step [OF True b] by simp
      then show ?thesis using less.IH [OF _ less.prems(1)] GetAncestor_loop_step [OF True b'] False True by simp
    qed
  next
    case False
    then show ?thesis using less.prems(2) by (simp add: GetAncestor_loop_stop)
  qed
qed

lemma GetAncestor_mono: "m \<subseteq>\<^sub>m m' \<Longrightarrow> GetAncestor m p h = Some r \<Longrightarrow> GetAncestor m' p h = Some r"
  using GetAncestor_loop_mono [of m m'] by (auto simp: GetAncestor_def map_le_def dom_def split: option.splits if_splits)

text \<open>C14: The skip list finds the right ancestor and always ends: in a well-formed block index, \<open>GetAncestor\<close>
  never follows a null pointer, returns the block that walking back along \<open>pprev\<close> step by step
  reaches at that height, and \<open>NULL\<close> for heights above the block or negative.\<close>

theorem GetAncestor_correct:
  assumes "index_wf m" and "m p = Some b"
  shows "GetAncestor m p h = Some (if 0 \<le> h \<and> h \<le> int (nHeight b) then walk m (nHeight b - nat h) p else None) \<and>
    (0 \<le> h \<and> h \<le> int (nHeight b) \<longrightarrow> (\<exists>q c. GetAncestor m p h = Some (Some q) \<and> m q = Some c \<and> int (nHeight c) = h))"
proof -
  have a: "GetAncestor m p h = Some (walk m (nHeight b - nat h) p)" if "0 \<le> h" "h \<le> int (nHeight b)"
    using that assms GetAncestor_loop_walk [OF assms refl, of "nat h"] by (simp add: GetAncestor_def nat_le_iff)
  moreover have "\<exists>q c. walk m (nHeight b - nat h) p = Some q \<and> m q = Some c \<and> int (nHeight c) = h"
    if "0 \<le> h" "h \<le> int (nHeight b)"
    using walk_height [OF assms, of "nHeight b - nat h"] that by auto
  ultimately show ?thesis using assms(2) by (auto simp: GetAncestor_def)
qed

section \<open>The active chain\<close>

text \<open>\<open>CChain::vChain\<close>, indexed by height; \<open>None\<close> is a null pointer.\<close>

type_synonym CChain = "ptr option list"

definition chain_at :: "CChain \<Rightarrow> int \<Rightarrow> ptr option" where
  "chain_at v h = (if h < 0 \<or> h \<ge> int (length v) then None else v ! nat h)"

definition Genesis :: "CChain \<Rightarrow> ptr option" where
  "Genesis v = (if length v > 0 then v ! 0 else None)"

definition Tip :: "CChain \<Rightarrow> ptr option" where
  "Tip v = (if length v < 1 then None else v ! (length v - 1))"

definition Height :: "CChain \<Rightarrow> int" where
  "Height v = int (length v) - 1"

text \<open>\<open>Contains\<close> and \<open>Next\<close> for an object \<open>p\<close> of the heap.\<close>

definition Contains :: "block_heap \<Rightarrow> CChain \<Rightarrow> ptr \<Rightarrow> bool" where
  "Contains m v p \<longleftrightarrow> (case m p of None \<Rightarrow> False | Some b \<Rightarrow> chain_at v (int (nHeight b)) = Some p)"

definition Next :: "block_heap \<Rightarrow> CChain \<Rightarrow> ptr \<Rightarrow> ptr option" where
  "Next m v p = (if Contains m v p then (case m p of None \<Rightarrow> None | Some b \<Rightarrow> chain_at v (int (nHeight b) + 1)) else None)"

text \<open>\<open>SetTip\<close>; writing out of bounds is \<open>None\<close>.\<close>

partial_function (option) SetTip_loop :: "block_heap \<Rightarrow> ptr option \<Rightarrow> CChain \<Rightarrow> CChain option" where
  "SetTip_loop m pindex v =
     (case pindex of
        None \<Rightarrow> Some v
      | Some p \<Rightarrow>
          (case m p of
             None \<Rightarrow> None
           | Some b \<Rightarrow>
               if nHeight b \<ge> length v then None
               else if v ! nHeight b = Some p then Some v
               else SetTip_loop m (pprev b) (v[nHeight b := Some p])))"

definition resize :: "nat \<Rightarrow> CChain \<Rightarrow> CChain" where
  "resize n v = take n v @ replicate (n - length v) None"

definition SetTip :: "block_heap \<Rightarrow> ptr option \<Rightarrow> CChain \<Rightarrow> CChain option" where
  "SetTip m pindex v =
     (case pindex of
        None \<Rightarrow> Some []
      | Some p \<Rightarrow>
          (case m p of
             None \<Rightarrow> None
           | Some b \<Rightarrow> SetTip_loop m (Some p) (resize (nHeight b + 1) v)))"

partial_function (option) FindFork_loop :: "block_heap \<Rightarrow> CChain \<Rightarrow> ptr option \<Rightarrow> ptr option option" where
  "FindFork_loop m v pindex =
     (case pindex of
        None \<Rightarrow> Some None
      | Some p \<Rightarrow>
          (case m p of
             None \<Rightarrow> None
           | Some b \<Rightarrow> if Contains m v p then Some (Some p) else FindFork_loop m v (pprev b)))"

definition FindFork :: "block_heap \<Rightarrow> CChain \<Rightarrow> ptr \<Rightarrow> ptr option option" where
  "FindFork m v p =
     (case m p of
        None \<Rightarrow> None
      | Some b \<Rightarrow>
          if int (nHeight b) > Height v then
            (case GetAncestor m p (Height v) of None \<Rightarrow> None | Some r \<Rightarrow> FindFork_loop m v r)
          else FindFork_loop m v (Some p))"

partial_function (option) LastCommonAncestor_loop :: "block_heap \<Rightarrow> ptr option \<Rightarrow> ptr option \<Rightarrow> (ptr option \<times> ptr option) option" where
  "LastCommonAncestor_loop m pa pb =
     (if pa \<noteq> pb \<and> pa \<noteq> None \<and> pb \<noteq> None then
        (case (deref m pa, deref m pb) of
           (Some a, Some b) \<Rightarrow> LastCommonAncestor_loop m (pprev a) (pprev b)
         | _ \<Rightarrow> None)
      else Some (pa, pb))"

text \<open>The final assertion that the two pointers are equal is \<open>None\<close> when it fails.\<close>

definition LastCommonAncestor :: "block_heap \<Rightarrow> ptr \<Rightarrow> ptr \<Rightarrow> ptr option option" where
  "LastCommonAncestor m pa pb =
     (case (m pa, m pb) of
        (Some a, Some b) \<Rightarrow>
          (case (if nHeight a > nHeight b then GetAncestor m pa (int (nHeight b)) else Some (Some pa),
                 if nHeight b > nHeight a then GetAncestor m pb (int (nHeight a)) else Some (Some pb)) of
             (Some pa', Some pb') \<Rightarrow>
               (case LastCommonAncestor_loop m pa' pb' of
                  None \<Rightarrow> None
                | Some (x, y) \<Rightarrow> if x = y then Some x else None)
           | _ \<Rightarrow> None)
      | _ \<Rightarrow> None)"

section \<open>Locators\<close>

text \<open>\<open>GetLocator\<close> from the block \<open>pindex\<close>; the hashes collected so far are \<open>vHave\<close>.\<close>

partial_function (option) GetLocator_loop :: "block_heap \<Rightarrow> CChain \<Rightarrow> ptr option \<Rightarrow> int \<Rightarrow> uint256 list \<Rightarrow> uint256 list option" where
  "GetLocator_loop m v pindex nStep vHave =
     (case pindex of
        None \<Rightarrow> Some vHave
      | Some p \<Rightarrow>
          (case m p of
             None \<Rightarrow> None
           | Some b \<Rightarrow>
               if nHeight b = 0 then Some (vHave @ [phashBlock b])
               else
                 (case (if Contains m v p then Some (chain_at v (max (int (nHeight b) - nStep) 0))
                        else GetAncestor m p (max (int (nHeight b) - nStep) 0)) of
                    None \<Rightarrow> None
                  | Some pindex' \<Rightarrow>
                      GetLocator_loop m v pindex' (if length (vHave @ [phashBlock b]) > 10 then nStep * 2 else nStep)
                        (vHave @ [phashBlock b]))))"

definition GetLocator :: "block_heap \<Rightarrow> CChain \<Rightarrow> ptr option \<Rightarrow> uint256 list option" where
  "GetLocator m v pindex = GetLocator_loop m v (if pindex = None then Tip v else pindex) 1 []"

fun FindForkInGlobalIndex :: "block_heap \<Rightarrow> (uint256 \<Rightarrow> ptr option) \<Rightarrow> CChain \<Rightarrow> uint256 list \<Rightarrow> ptr option option" where
  "FindForkInGlobalIndex m mapBlockIndex v [] = Some (Genesis v)"
| "FindForkInGlobalIndex m mapBlockIndex v (hash # locator) =
     (case mapBlockIndex hash of
        None \<Rightarrow> FindForkInGlobalIndex m mapBlockIndex v locator
      | Some p \<Rightarrow>
          if Contains m v p then Some (Some p)
          else
            (case GetAncestor m p (Height v) of
               None \<Rightarrow> None
             | Some r \<Rightarrow> if r = Tip v then Some (Tip v) else FindForkInGlobalIndex m mapBlockIndex v locator))"

section \<open>The invariant of the chain\<close>

definition chain_ok :: "block_heap \<Rightarrow> CChain \<Rightarrow> bool" where
  "chain_ok m v \<longleftrightarrow> (\<forall>i < length v. \<exists>p b. v ! i = Some p \<and> m p = Some b \<and> nHeight b = i \<and>
     pprev b = (if i = 0 then None else v ! (i - 1)))"

text \<open>The chain that ends in \<open>p\<close>.\<close>

definition path :: "block_heap \<Rightarrow> ptr \<Rightarrow> nat \<Rightarrow> CChain" where
  "path m p h = map (\<lambda>i. walk m (h - i) p) [0..<Suc h]"

lemma length_path [simp]: "length (path m p h) = Suc h"
  by (simp add: path_def)

lemma path_nth [simp]: "i \<le> h \<Longrightarrow> path m p h ! i = walk m (h - i) p"
  by (simp add: path_def del: upt_Suc)

lemma chain_ok_walk:
  "chain_ok m v \<Longrightarrow> i + n < length v \<Longrightarrow> v ! (i + n) = Some q \<Longrightarrow> v ! i = walk m n q"
proof (induction n arbitrary: q)
  case (Suc n)
  obtain p b where p: "v ! (i + Suc n) = Some p" "m p = Some b" "pprev b = v ! (i + n)"
    using Suc.prems(1,2) unfolding chain_ok_def by (metis add_Suc_right diff_Suc_1 nat.distinct(1))
  obtain r where r: "v ! (i + n) = Some r" using Suc.prems(1,2) unfolding chain_ok_def by (metis Suc_lessD add_Suc_right)
  then have "v ! i = walk m n r" using Suc.IH [OF Suc.prems(1) _ r] Suc.prems(2) by simp
  then show ?case using p r Suc.prems(3) by simp
qed simp

lemma chain_ok_path: "chain_ok m v \<Longrightarrow> Tip v = Some p \<Longrightarrow> v = path m p (length v - 1)"
proof (rule nth_equalityI)
  assume ok: "chain_ok m v" "Tip v = Some p"
  then have n: "v \<noteq> []" "v ! (length v - 1) = Some p" by (auto simp: Tip_def split: if_splits)
  then show "length v = length (path m p (length v - 1))" by simp
  fix i assume "i < length v"
  then show "v ! i = path m p (length v - 1) ! i"
    using chain_ok_walk [OF ok(1), of i "length v - 1 - i" p] n by simp
qed

lemma path_ok:
  assumes "index_wf m" and "m p = Some b"
  shows "chain_ok m (path m p (nHeight b))"
  unfolding chain_ok_def
proof (intro allI impI)
  fix i assume i: "i < length (path m p (nHeight b))"
  then have i: "i \<le> nHeight b" by simp
  obtain q c where q: "walk m (nHeight b - i) p = Some q" "m q = Some c" "nHeight c = i"
    using walk_height [OF assms, of "nHeight b - i"] i by auto
  have "pprev c = (if i = 0 then None else path m p (nHeight b) ! (i - 1))"
  proof (cases i)
    case 0
    then show ?thesis using index_wfD(2) [OF assms(1) q(2)] q(3) by (cases "pprev c") auto
  next
    case (Suc k)
    then have "walk m (nHeight b - k) p = walk m 1 q"
      using walk_add [of m "nHeight b - i" 1 p] q(1) i by (simp add: Suc_diff_le [symmetric])
    moreover have "pprev c = walk m 1 q" using q(2) by (simp split: option.split)
    ultimately show ?thesis using Suc i by simp
  qed
  then show "\<exists>p' b'. path m p (nHeight b) ! i = Some p' \<and> m p' = Some b' \<and> nHeight b' = i \<and>
      pprev b' = (if i = 0 then None else path m p (nHeight b) ! (i - 1))"
    using q i by auto
qed

lemma SetTip_loop_path:
  assumes "index_wf m" and "chain_ok m u"
  shows "m q = Some c \<Longrightarrow> nHeight c = k \<Longrightarrow> k < length v \<Longrightarrow>
    (\<And>i. i \<le> k \<Longrightarrow> v ! i = (if i < length u then u ! i else None)) \<Longrightarrow>
    \<exists>v'. SetTip_loop m (Some q) v = Some v' \<and> length v' = length v \<and>
      (\<forall>i \<le> k. v' ! i = walk m (k - i) q) \<and> (\<forall>i > k. v' ! i = v ! i)"
proof (induction k arbitrary: q c v)
  case 0
  have p: "pprev c = None" using index_wfD(2) [OF assms(1) 0(1)] 0(2) by (cases "pprev c") auto
  show ?case
  proof (cases "v ! 0 = Some q")
    case True
    then show ?thesis using 0 by (subst SetTip_loop.simps) simp
  next
    case False
    then show ?thesis using 0 p by (subst SetTip_loop.simps, simp) (subst SetTip_loop.simps, simp)
  qed
next
  case (Suc k)
  obtain r d where r: "pprev c = Some r" "m r = Some d" "nHeight d = k"
    using index_wfD(4) [OF assms(1) Suc.prems(1)] Suc.prems(2) by auto
  have w: "walk m (Suc k - i) q = walk m (k - i) r" if "i \<le> k" for i
    using that Suc.prems(1) r(1) by (simp add: Suc_diff_le)
  show ?case
  proof (cases "v ! Suc k = Some q")
    case True
    then have u: "Suc k < length u" "u ! Suc k = Some q" using Suc.prems(4) [of "Suc k"] by (auto split: if_splits)
    have "v ! i = walk m (Suc k - i) q" if "i \<le> Suc k" for i
      using chain_ok_walk [OF assms(2), of i "Suc k - i" q] that u Suc.prems(4) [OF that] by simp
    then show ?thesis using True Suc.prems by (subst SetTip_loop.simps) simp
  next
    case False
    let ?v = "v[Suc k := Some q]"
    obtain v' where v': "SetTip_loop m (Some r) ?v = Some v'" "length v' = length v"
        "\<forall>i \<le> k. v' ! i = walk m (k - i) r" "\<forall>i > k. v' ! i = ?v ! i"
      using Suc.IH [OF r(2,3), of ?v] Suc.prems(3,4) by auto
    have "SetTip_loop m (Some q) v = Some v'"
      using False Suc.prems v'(1) r(1) by (subst SetTip_loop.simps) simp
    moreover have "v' ! i = walk m (Suc k - i) q" if "i \<le> Suc k" for i
      using that v'(3,4) w [of i] Suc.prems(3) by (cases "i = Suc k") auto
    ultimately show ?thesis using v'(2,4) by auto
  qed
qed

lemma SetTip_path:
  assumes "index_wf m" and "chain_ok m v" and "m p = Some b"
  shows "SetTip m (Some p) v = Some (path m p (nHeight b))"
proof -
  let ?v = "resize (nHeight b + 1) v"
  have l: "length ?v = Suc (nHeight b)" by (simp add: resize_def)
  have old: "?v ! i = (if i < length v then v ! i else None)" if "i \<le> nHeight b" for i
    using that by (auto simp: resize_def nth_append)
  obtain v' where v': "SetTip_loop m (Some p) ?v = Some v'" "length v' = length ?v" "\<forall>i \<le> nHeight b. v' ! i = walk m (nHeight b - i) p"
    using SetTip_loop_path [OF assms(1,2,3) refl _ old] l by auto
  have "v' = path m p (nHeight b)" by (rule nth_equalityI) (use v' l in auto)
  then show ?thesis using v'(1) assms(3) by (simp add: SetTip_def)
qed

text \<open>The blocks of the chain among the ancestors of a block.\<close>

lemma Contains_iff:
  assumes "chain_ok m v" and "m p = Some b"
  shows "Contains m v p \<longleftrightarrow> nHeight b < length v \<and> v ! nHeight b = Some p"
  using assms(2) by (auto simp: Contains_def chain_at_def)

lemma Contains_walk:
  assumes "index_wf m" and "chain_ok m v" and "m p = Some b" and "Contains m v p" and "n \<le> nHeight b"
  shows "\<exists>q. walk m n p = Some q \<and> Contains m v q"
proof -
  obtain q c where q: "walk m n p = Some q" "m q = Some c" "nHeight c = nHeight b - n"
    using walk_height [OF assms(1,3,5)] by auto
  have "v ! (nHeight b - n) = walk m n p"
    using chain_ok_walk [OF assms(2), of "nHeight b - n" n p] assms(4,5) Contains_iff [OF assms(2,3)] by simp
  then show ?thesis using q assms(3-5) Contains_iff [OF assms(2,3)] Contains_iff [OF assms(2) q(2)] by auto
qed

lemma FindFork_loop_correct:
  assumes "index_wf m"
  shows "m p = Some b \<Longrightarrow> \<exists>r. FindFork_loop m v (Some p) = Some r \<and>
    (case r of
       None \<Rightarrow> \<forall>n q. walk m n p = Some q \<longrightarrow> \<not> Contains m v q
     | Some q \<Rightarrow> \<exists>n. walk m n p = Some q \<and> Contains m v q \<and> (\<forall>k q'. k < n \<and> walk m k p = Some q' \<longrightarrow> \<not> Contains m v q'))"
proof (induction "nHeight b" arbitrary: p b)
  case 0
  have n: "pprev b = None" using index_wfD(2) [OF assms 0(2)] 0(1) by (cases "pprev b") auto
  have w: "walk m n p = Some q \<longleftrightarrow> n = 0 \<and> q = p" for n q using 0(2) n by (cases n) auto
  have "FindFork_loop m v (Some p) = Some (if Contains m v p then Some p else None)"
    using 0(2) n by (subst FindFork_loop.simps, simp) (subst FindFork_loop.simps, simp)
  then show ?case using w by auto
next
  case (Suc k)
  obtain r d where r: "pprev b = Some r" "m r = Some d" "nHeight d = k"
    using index_wfD(4) [OF assms Suc(3)] Suc(2) by auto
  show ?case
  proof (cases "Contains m v p")
    case True
    then have "FindFork_loop m v (Some p) = Some (Some p)" using Suc(3) by (subst FindFork_loop.simps) simp
    then show ?thesis using True by (intro exI [of _ "Some p"]) (auto intro!: exI [of _ 0])
  next
    case False
    then have s: "FindFork_loop m v (Some p) = FindFork_loop m v (Some r)" using Suc(3) r(1) by (subst FindFork_loop.simps) simp
    have w: "walk m (Suc n) p = walk m n r" for n using Suc(3) r(1) by simp
    obtain x where x: "FindFork_loop m v (Some r) = Some x"
      "case x of
       None \<Rightarrow> \<forall>n q. walk m n r = Some q \<longrightarrow> \<not> Contains m v q
     | Some q \<Rightarrow> \<exists>n. walk m n r = Some q \<and> Contains m v q \<and> (\<forall>k q'. k < n \<and> walk m k r = Some q' \<longrightarrow> \<not> Contains m v q')"
      using Suc(1) [OF r(3) [symmetric] r(2)] by blast
    show ?thesis
    proof (cases x)
      case None
      then have "\<not> Contains m v q" if "walk m n p = Some q" for n q
        using that x(2) False w by (cases n) auto
      then show ?thesis using s x(1) None by simp
    next
      case (Some q)
      then obtain n where n: "walk m n r = Some q" "Contains m v q" "\<forall>k q'. k < n \<and> walk m k r = Some q' \<longrightarrow> \<not> Contains m v q'"
        using x(2) by auto
      have "\<not> Contains m v q'" if "k < Suc n" "walk m k p = Some q'" for k q'
        using that n(3) False w by (cases k) auto
      then show ?thesis using s x(1) Some n(1,2) w [of n] by (intro exI [of _ x]) (auto intro!: exI [of _ "Suc n"])
    qed
  qed
qed

lemma walk_Some:
  assumes "index_wf m" and "m p = Some b" and "walk m n p = Some q"
  shows "n \<le> nHeight b \<and> (\<exists>c. m q = Some c \<and> nHeight c = nHeight b - n)"
proof -
  have "n \<le> nHeight b"
  proof (rule ccontr)
    assume "\<not> n \<le> nHeight b"
    then have n: "n = nHeight b + Suc (n - Suc (nHeight b))" by simp
    obtain r d where r: "walk m (nHeight b) p = Some r" "m r = Some d" "nHeight d = 0"
      using walk_height [OF assms(1,2) order_refl] by auto
    have "pprev d = None" using index_wfD(2) [OF assms(1) r(2)] r(3) by (cases "pprev d") auto
    then have "walk m n p = None" by (subst n, subst walk_add) (simp add: r)
    then show False using assms(3) by simp
  qed
  then show ?thesis using walk_height [OF assms(1,2)] assms(3) by fastforce
qed

text \<open>Switching the tip is exact: in a well-formed block index, from any earlier chain, \<open>SetTip\<close> neither
  writes out of bounds nor loops, and the new active chain holds, at every height up to the new tip,
  exactly the ancestor of the tip at that height, and nothing above; so a block is contained in it
  if and only if it is the tip or one of its ancestors.\<close>

theorem SetTip_correct:
  assumes "index_wf m" and "chain_ok m v" and "m p = Some b"
  shows "\<exists>v'. SetTip m (Some p) v = Some v' \<and> chain_ok m v' \<and> Tip v' = Some p \<and> Height v' = int (nHeight b) \<and>
    (\<forall>h. chain_at v' (int h) = (if h \<le> nHeight b then walk m (nHeight b - h) p else None)) \<and>
    (\<forall>q c. m q = Some c \<longrightarrow> (Contains m v' q \<longleftrightarrow> (\<exists>n. walk m n p = Some q)))"
proof (intro exI [of _ "path m p (nHeight b)"] conjI allI impI)
  let ?v = "path m p (nHeight b)"
  show "SetTip m (Some p) v = Some ?v" by (rule SetTip_path [OF assms])
  show ok: "chain_ok m ?v" by (rule path_ok [OF assms(1,3)])
  show "Tip ?v = Some p" by (simp add: Tip_def)
  show "Height ?v = int (nHeight b)" by (simp add: Height_def)
  show "chain_at ?v (int h) = (if h \<le> nHeight b then walk m (nHeight b - h) p else None)" for h
    by (simp add: chain_at_def)
  fix q c assume q: "m q = Some c"
  have "(nHeight c < Suc (nHeight b) \<and> ?v ! nHeight c = Some q) \<longleftrightarrow> (\<exists>n. walk m n p = Some q)"
  proof
    assume "nHeight c < Suc (nHeight b) \<and> ?v ! nHeight c = Some q"
    then show "\<exists>n. walk m n p = Some q" by (intro exI [of _ "nHeight b - nHeight c"]) (auto simp: less_Suc_eq_le)
  next
    assume "\<exists>n. walk m n p = Some q"
    then obtain n where n: "walk m n p = Some q" by blast
    then show "nHeight c < Suc (nHeight b) \<and> ?v ! nHeight c = Some q"
      using walk_Some [OF assms(1,3) n] q by auto
  qed
  then show "Contains m ?v q \<longleftrightarrow> (\<exists>n. walk m n p = Some q)" using Contains_iff [OF ok q] by simp
qed

lemma FindFork_eq:
  assumes "index_wf m" and "chain_ok m v" and "m p = Some b"
  shows "\<exists>r. FindFork m v p = Some r \<and>
    (case r of
       None \<Rightarrow> \<forall>n q. walk m n p = Some q \<longrightarrow> \<not> Contains m v q
     | Some q \<Rightarrow> \<exists>n. walk m n p = Some q \<and> Contains m v q \<and> (\<forall>k q'. k < n \<and> walk m k p = Some q' \<longrightarrow> \<not> Contains m v q'))"
proof (cases "int (nHeight b) > Height v")
  case False
  then show ?thesis using FindFork_loop_correct [OF assms(1,3), of v] assms(3) by (simp add: FindFork_def)
next
  case True
  have high: "\<not> Contains m v q" if "walk m k p = Some q" "nHeight b - k \<ge> length v" for k q
    using that walk_Some [OF assms(1,3) that(1)] Contains_iff [OF assms(2)] by fastforce
  show ?thesis
  proof (cases "length v")
    case 0
    then have "FindFork m v p = Some None"
      using True assms(3) by (simp add: FindFork_def GetAncestor_def Height_def) (subst FindFork_loop.simps, simp)
    then show ?thesis using high 0 by auto
  next
    case (Suc l)
    define n where "n = nHeight b - l"
    have l: "l < nHeight b" "Height v = int l" using True Suc by (simp_all add: Height_def)
    obtain r d where r: "walk m n p = Some r" "m r = Some d" "nHeight d = l"
      using walk_height [OF assms(1,3), of n] l by (auto simp: n_def)
    have "GetAncestor m p (int l) = Some (Some r)"
      using GetAncestor_loop_walk [OF assms(1,3) refl, of l] l r(1) assms(3) by (simp add: GetAncestor_def n_def)
    then have f: "FindFork m v p = FindFork_loop m v (Some r)" using True assms(3) l by (simp add: FindFork_def)
    have w: "walk m (n + k) p = walk m k r" for k using walk_add [of m n k p] r(1) by simp
    have above: "\<not> Contains m v q'" if "k < n" "walk m k p = Some q'" for k q'
      using high [OF that(2)] that(1) Suc l by (simp add: n_def)
    obtain x where x: "FindFork_loop m v (Some r) = Some x"
      "case x of
       None \<Rightarrow> \<forall>n q. walk m n r = Some q \<longrightarrow> \<not> Contains m v q
     | Some q \<Rightarrow> \<exists>n. walk m n r = Some q \<and> Contains m v q \<and> (\<forall>k q'. k < n \<and> walk m k r = Some q' \<longrightarrow> \<not> Contains m v q')"
      using FindFork_loop_correct [OF assms(1) r(2)] by blast
    show ?thesis
    proof (cases x)
      case None
      have "\<not> Contains m v q" if "walk m k p = Some q" for k q
      proof (cases "k < n")
        case False
        then show ?thesis using that x(2) None w [of "k - n"] by simp
      qed (rule above [OF _ that])
      then show ?thesis using f x(1) None by simp
    next
      case (Some q)
      then obtain i where i: "walk m i r = Some q" "Contains m v q" "\<forall>k q'. k < i \<and> walk m k r = Some q' \<longrightarrow> \<not> Contains m v q'"
        using x(2) by auto
      have "\<not> Contains m v q'" if "k < n + i" "walk m k p = Some q'" for k q'
      proof (cases "k < n")
        case False
        then have "k - n < i" "walk m (k - n) r = Some q'" using that w [of "k - n"] by simp_all
        then show ?thesis using i(3) by blast
      qed (rule above [OF _ that(2)])
      then show ?thesis using f x(1) Some i(1,2) w [of i] by (intro exI [of _ x]) (auto intro!: exI [of _ "n + i"])
    qed
  qed
qed

lemma LastCommonAncestor_loop_correct:
  assumes "index_wf m"
  shows "m pa = Some a \<Longrightarrow> m pb = Some b \<Longrightarrow> nHeight a = k \<Longrightarrow> nHeight b = k \<Longrightarrow> walk m k pa = walk m k pb \<Longrightarrow>
    \<exists>r n. LastCommonAncestor_loop m (Some pa) (Some pb) = Some (Some r, Some r) \<and> n \<le> k \<and>
      walk m n pa = Some r \<and> walk m n pb = Some r \<and> (\<forall>j < n. walk m j pa \<noteq> walk m j pb)"
proof (induction k arbitrary: pa pb a b)
  case 0
  then show ?case by (subst LastCommonAncestor_loop.simps) auto
next
  case (Suc k)
  show ?case
  proof (cases "pa = pb")
    case True
    then show ?thesis by (subst LastCommonAncestor_loop.simps) (auto intro!: exI [of _ 0])
  next
    case False
    obtain qa a' where qa: "pprev a = Some qa" "m qa = Some a'" "nHeight a' = k"
      using index_wfD(4) [OF assms Suc.prems(1)] Suc.prems(3) by auto
    obtain qb b' where qb: "pprev b = Some qb" "m qb = Some b'" "nHeight b' = k"
      using index_wfD(4) [OF assms Suc.prems(2)] Suc.prems(4) by auto
    have w: "walk m (Suc n) pa = walk m n qa" "walk m (Suc n) pb = walk m n qb" for n
      using Suc.prems(1,2) qa(1) qb(1) by simp_all
    obtain r n where r: "LastCommonAncestor_loop m (Some qa) (Some qb) = Some (Some r, Some r)" "n \<le> k"
      "walk m n qa = Some r" "walk m n qb = Some r" "\<forall>j < n. walk m j qa \<noteq> walk m j qb"
      using Suc.IH [OF qa(2) qb(2) qa(3) qb(3)] Suc.prems(5) w by auto
    have "LastCommonAncestor_loop m (Some pa) (Some pb) = Some (Some r, Some r)"
      using False Suc.prems(1,2) qa(1) qb(1) r(1) by (subst LastCommonAncestor_loop.simps) simp
    moreover have "walk m j pa \<noteq> walk m j pb" if "j < Suc n" for j
      using that False r(5) w by (cases j) auto
    ultimately show ?thesis using r(2-4) w by (intro exI [of _ r] exI [of _ "Suc n"]) auto
  qed
qed

text \<open>Forks are found: \<open>FindFork\<close> returns the last ancestor of a block that is on the active chain, or \<open>NULL\<close>
  when there is none; and \<open>LastCommonAncestor\<close> of two blocks of the same tree never fails its
  assertion and returns a common ancestor below which every other common ancestor lies.\<close>

theorem fork_points_correct:
  assumes "index_wf m" and "chain_ok m v" and "m pa = Some a" and "m pb = Some b"
    and "walk m (nHeight a) pa = walk m (nHeight b) pb"
  shows "(\<exists>r. FindFork m v pa = Some r \<and>
      (case r of
         None \<Rightarrow> \<forall>n q. walk m n pa = Some q \<longrightarrow> \<not> Contains m v q
       | Some q \<Rightarrow> \<exists>n. walk m n pa = Some q \<and> Contains m v q \<and> (\<forall>k q'. k < n \<and> walk m k pa = Some q' \<longrightarrow> \<not> Contains m v q'))) \<and>
    (\<exists>r. LastCommonAncestor m pa pb = Some (Some r) \<and>
      (\<exists>i. walk m i pa = Some r) \<and> (\<exists>j. walk m j pb = Some r) \<and>
      (\<forall>x i j. walk m i pa = Some x \<and> walk m j pb = Some x \<longrightarrow> (\<exists>k. walk m k r = Some x)))"
proof (rule conjI [OF FindFork_eq [OF assms(1-3)]])
  define k where "k = min (nHeight a) (nHeight b)"
  obtain qa a' where qa: "walk m (nHeight a - k) pa = Some qa" "m qa = Some a'" "nHeight a' = k"
    using walk_height [OF assms(1,3), of "nHeight a - k"] by (auto simp: k_def)
  obtain qb b' where qb: "walk m (nHeight b - k) pb = Some qb" "m qb = Some b'" "nHeight b' = k"
    using walk_height [OF assms(1,4), of "nHeight b - k"] by (auto simp: k_def)
  have wa: "walk m (nHeight a - k + n) pa = walk m n qa" for n using walk_add [of m "nHeight a - k" n pa] qa(1) by simp
  have wb: "walk m (nHeight b - k + n) pb = walk m n qb" for n using walk_add [of m "nHeight b - k" n pb] qb(1) by simp
  have same: "walk m k qa = walk m k qb" using wa [of k] wb [of k] assms(5) by (simp add: k_def)
  obtain r n where r: "LastCommonAncestor_loop m (Some qa) (Some qb) = Some (Some r, Some r)"
    "walk m n qa = Some r" "walk m n qb = Some r" "\<forall>j < n. walk m j qa \<noteq> walk m j qb"
    using LastCommonAncestor_loop_correct [OF assms(1) qa(2) qb(2) qa(3) qb(3) same] by blast
  have "(if nHeight a > nHeight b then GetAncestor m pa (int (nHeight b)) else Some (Some pa)) = Some (Some qa)"
    using GetAncestor_loop_walk [OF assms(1,3) refl, of "nHeight b"] qa(1) assms(3) by (auto simp: GetAncestor_def k_def min_def)
  moreover have "(if nHeight b > nHeight a then GetAncestor m pb (int (nHeight a)) else Some (Some pb)) = Some (Some qb)"
    using GetAncestor_loop_walk [OF assms(1,4) refl, of "nHeight a"] qb(1) assms(4) by (auto simp: GetAncestor_def k_def min_def)
  ultimately have l: "LastCommonAncestor m pa pb = Some (Some r)"
    using r(1) assms(3,4) unfolding LastCommonAncestor_def by simp
  have "\<exists>k'. walk m k' r = Some x" if x: "walk m i pa = Some x" "walk m j pb = Some x" for x i j
  proof -
    obtain c where c: "m x = Some c" "i \<le> nHeight a" "j \<le> nHeight b" "nHeight c = nHeight a - i" "nHeight c = nHeight b - j"
      using walk_Some [OF assms(1,3) x(1)] walk_Some [OF assms(1,4) x(2)] by auto
    define h where "h = k - nHeight c"
    have h: "i = nHeight a - k + h" "j = nHeight b - k + h" using c(2-5) by (auto simp: h_def k_def)
    then have e: "walk m h qa = Some x" "walk m h qb = Some x" using x wa [of h] wb [of h] by simp_all
    then have "n \<le> h" using r(4) by (metis not_le)
    then have "walk m (h - n) r = Some x" using walk_add [of m n "h - n" qa] r(2) e(1) by simp
    then show ?thesis by blast
  qed
  then show "\<exists>r. LastCommonAncestor m pa pb = Some (Some r) \<and> (\<exists>i. walk m i pa = Some r) \<and> (\<exists>j. walk m j pb = Some r) \<and>
      (\<forall>x i j. walk m i pa = Some x \<and> walk m j pb = Some x \<longrightarrow> (\<exists>k. walk m k r = Some x))"
    using l r(2,3) wa [of n] wb [of n] by (metis (no_types))
qed

section \<open>Locators find common blocks\<close>

text \<open>Hashes identify the blocks of the index.\<close>

definition hashes_ok :: "block_heap \<Rightarrow> (uint256 \<Rightarrow> ptr option) \<Rightarrow> bool" where
  "hashes_ok m mapBlockIndex \<longleftrightarrow> (\<forall>h p. mapBlockIndex h = Some p \<longleftrightarrow> (\<exists>b. m p = Some b \<and> phashBlock b = h))"

text \<open>A list of hashes of ancestors of \<open>p\<close>.\<close>

definition ancestor_hashes :: "block_heap \<Rightarrow> ptr \<Rightarrow> uint256 list \<Rightarrow> bool" where
  "ancestor_hashes m p hs \<longleftrightarrow> (\<forall>h \<in> set hs. \<exists>n q c. walk m n p = Some q \<and> m q = Some c \<and> phashBlock c = h)"

lemma GetLocator_loop_correct:
  assumes "index_wf m" and "chain_ok m v"
  shows "m q = Some c \<Longrightarrow> walk m n p = Some q \<Longrightarrow> 1 \<le> st \<Longrightarrow> ancestor_hashes m p hs \<Longrightarrow>
    \<exists>l. GetLocator_loop m v (Some q) st hs = Some (hs @ phashBlock c # l) \<and> ancestor_hashes m p (phashBlock c # l) \<and>
      length l \<le> nHeight c"
proof (induction "nHeight c" arbitrary: q c n st hs rule: less_induct)
  case less
  have c: "ancestor_hashes m p [phashBlock c]" using less.prems(1,2) by (auto simp: ancestor_hashes_def)
  show ?case
  proof (cases "nHeight c = 0")
    case True
    then show ?thesis using less.prems(1) c by (subst GetLocator_loop.simps) simp
  next
    case False
    define h where "h = nat (max (int (nHeight c) - st) 0)"
    have h: "int h = max (int (nHeight c) - st) 0" "h < nHeight c" using less.prems(3) False by (auto simp: h_def)
    obtain r d where r: "walk m (nHeight c - h) q = Some r" "m r = Some d" "nHeight d = h"
      using walk_height [OF assms(1) less.prems(1), of "nHeight c - h"] h(2) by auto
    have anc: "GetAncestor m q (int h) = Some (Some r)"
      using GetAncestor_loop_walk [OF assms(1) less.prems(1) refl, of h] h(2) r(1) less.prems(1) by (simp add: GetAncestor_def)
    have at: "chain_at v (int h) = Some r" if "Contains m v q"
    proof -
      have q: "nHeight c < length v" "v ! nHeight c = Some q" using that Contains_iff [OF assms(2) less.prems(1)] by auto
      then have "v ! h = Some r" using chain_ok_walk [OF assms(2), of h "nHeight c - h" q] h(2) r(1) by simp
      then show ?thesis using q(1) h(2) by (simp add: chain_at_def)
    qed
    have w: "walk m (n + (nHeight c - h)) p = Some r" using walk_add [of m n "nHeight c - h" p] less.prems(2) r(1) by simp
    let ?hs = "hs @ [phashBlock c]" and ?st = "if length (hs @ [phashBlock c]) > 10 then st * 2 else st"
    have hs: "ancestor_hashes m p ?hs" using less.prems(4) c by (auto simp: ancestor_hashes_def)
    have st: "1 \<le> ?st" using less.prems(3) by simp
    obtain l where l: "GetLocator_loop m v (Some r) ?st ?hs = Some (?hs @ phashBlock d # l)"
        "ancestor_hashes m p (phashBlock d # l)" "length l \<le> nHeight d"
      using less.hyps [OF _ r(2) w st hs] r(3) h(2) by auto
    have "GetLocator_loop m v (Some q) st hs = GetLocator_loop m v (Some r) ?st ?hs"
      using less.prems(1) False anc at by (subst GetLocator_loop.simps) (simp add: h(1) [symmetric])
    then show ?thesis using l c r(3) h(2) by (auto simp: ancestor_hashes_def)
  qed
qed

lemma FindForkInGlobalIndex_correct:
  assumes "index_wf m" and "chain_ok m v" and "hashes_ok m mbi" and "v \<noteq> []"
  shows "ancestor_hashes m p hs \<Longrightarrow> \<exists>r. FindForkInGlobalIndex m mbi v hs = Some (Some r) \<and> Contains m v r \<and>
    (Some r = Genesis v \<or> (\<exists>n. walk m n p = Some r))"
proof (induction hs)
  case Nil
  obtain g b where g: "v ! 0 = Some g" "m g = Some b" "nHeight b = 0"
    using assms(2,4) unfolding chain_ok_def by (metis length_greater_0_conv)
  then show ?case using assms(4) Contains_iff [OF assms(2) g(2)] by (auto simp: Genesis_def)
next
  case (Cons h hs)
  obtain n q c where q: "walk m n p = Some q" "m q = Some c" "phashBlock c = h"
    using Cons.prems by (auto simp: ancestor_hashes_def)
  have f: "mbi h = Some q" using q(2,3) assms(3) by (auto simp: hashes_ok_def)
  have ih: "\<exists>r. FindForkInGlobalIndex m mbi v hs = Some (Some r) \<and> Contains m v r \<and>
    (Some r = Genesis v \<or> (\<exists>n. walk m n p = Some r))"
    using Cons by (simp add: ancestor_hashes_def)
  obtain t d where t: "Tip v = Some t" "m t = Some d" "nHeight d = length v - 1" "v ! (length v - 1) = Some t"
    using assms(2,4) unfolding chain_ok_def Tip_def
    by (metis One_nat_def Suc_pred diff_less length_greater_0_conv lessI not_less_eq zero_less_Suc)
  have ct: "Contains m v t" using t(3,4) assms(4) Contains_iff [OF assms(2) t(2)] by simp
  show ?case
  proof (cases "Contains m v q")
    case True
    then show ?thesis using f q(1) by auto
  next
    case False
    have "\<exists>r. GetAncestor m q (Height v) = Some r \<and> (r = Some t \<longrightarrow> (\<exists>k. walk m k p = Some t))"
    proof (cases "Height v \<le> int (nHeight c)")
      case True
      have hv: "0 \<le> Height v" using assms(4) by (simp add: Height_def)
      then have "GetAncestor m q (Height v) = Some (walk m (nHeight c - nat (Height v)) q)"
        using GetAncestor_loop_walk [OF assms(1) q(2) refl, of "nat (Height v)"] True q(2) by (simp add: GetAncestor_def nat_le_iff)
      moreover have "walk m (n + k) p = walk m k q" for k using walk_add [of m n k p] q(1) by simp
      ultimately show ?thesis by metis
    next
      case False
      then show ?thesis using q(2) by (simp add: GetAncestor_def)
    qed
    then obtain r where r: "GetAncestor m q (Height v) = Some r" "r = Some t \<longrightarrow> (\<exists>k. walk m k p = Some t)" by blast
    then show ?thesis using False f ih t(1) ct by auto
  qed
qed

text \<open>Locators find common blocks: the locator that \<open>GetLocator\<close> makes for a block \<open>p\<close> on any node starts
  with \<open>p\<close>, has only ancestors of \<open>p\<close> and is no longer than the chain; and a node with the same
  genesis block that gets any list of hashes of ancestors of \<open>p\<close> finds a block of its own active
  chain that is an ancestor of \<open>p\<close>, so that synchronisation starts from common history.\<close>

theorem locators_find_common_block:
  assumes "index_wf m" and "chain_ok m v" and "m p = Some b" and "chain_ok m v'" and "hashes_ok m mbi" and "v' \<noteq> []"
    and "Genesis v' = walk m (nHeight b) p"
  shows "\<exists>hs r n. GetLocator m v (Some p) = Some (phashBlock b # hs) \<and> length hs \<le> nHeight b \<and>
    ancestor_hashes m p (phashBlock b # hs) \<and>
    FindForkInGlobalIndex m mbi v' (phashBlock b # hs) = Some (Some r) \<and> Contains m v' r \<and> walk m n p = Some r"
proof -
  obtain hs where hs: "GetLocator_loop m v (Some p) 1 [] = Some (phashBlock b # hs)" "ancestor_hashes m p (phashBlock b # hs)"
      "length hs \<le> nHeight b"
    using GetLocator_loop_correct [OF assms(1-3), of 0 p 1 "[]"] by (auto simp: ancestor_hashes_def)
  obtain r where r: "FindForkInGlobalIndex m mbi v' (phashBlock b # hs) = Some (Some r)" "Contains m v' r"
      "Some r = Genesis v' \<or> (\<exists>n. walk m n p = Some r)"
    using FindForkInGlobalIndex_correct [OF assms(1,4,5,6) hs(2)] by blast
  then obtain n where "walk m n p = Some r" using assms(7) by metis
  then show ?thesis using hs r(1,2) by (auto simp: GetLocator_def)
qed

section \<open>Examples\<close>

text \<open>A main chain 0, \dots, 5 and a branch 12, 13 from block 1.\<close>

definition sample_block :: "ptr option \<Rightarrow> ptr option \<Rightarrow> nat \<Rightarrow> uint256 \<Rightarrow> CBlockIndex" where
  "sample_block q s h hash = \<lparr>phashBlock = hash, pprev = q, pskip = s, nHeight = h, nChainWork = h, nTx = 1, nChainTx = h + 1,
     nStatus = 11, nSequenceId = 0, block_nTime = h\<rparr>"

definition sample_heap :: block_heap where
  "sample_heap = map_of
     [(0, sample_block None None 0 100), (1, sample_block (Some 0) (Some 0) 1 101), (2, sample_block (Some 1) (Some 0) 2 102),
      (3, sample_block (Some 2) (Some 1) 3 103), (4, sample_block (Some 3) (Some 0) 4 104),
      (12, sample_block (Some 1) (Some 0) 2 112), (13, sample_block (Some 12) (Some 1) 3 113)]"

lemma sample_wf: "index_wf sample_heap"
proof -
  have "\<forall>(p, b) \<in> set [(0, sample_block None None 0 100), (1, sample_block (Some 0) (Some 0) 1 101), (2, sample_block (Some 1) (Some 0) 2 102),
      (3, sample_block (Some 2) (Some 1) 3 103), (4, sample_block (Some 3) (Some 0) 4 104),
      (12, sample_block (Some 1) (Some 0) 2 112), (13, sample_block (Some 12) (Some 1) 3 113)]. block_ok sample_heap p b"
    by (simp add: block_ok_def sample_heap_def sample_block_def GetSkipHeight_def InvertLowestOne_def numeral_eq_Suc)
  then show ?thesis by (auto simp: index_wf_def sample_heap_def dest: map_of_SomeD)
qed

lemma GetAncestor_correct_witness: "GetAncestor sample_heap 4 1 = Some (Some 1)"
  using GetAncestor_correct [OF sample_wf, of 4 _ 1] by (simp add: sample_heap_def sample_block_def numeral_eq_Suc)

lemma sample_chain_ok: "chain_ok sample_heap [Some 0, Some 1, Some 2, Some 3]"
  by (auto simp: chain_ok_def sample_heap_def sample_block_def less_Suc_eq numeral_eq_Suc)

lemma SetTip_correct_witness:
  "\<exists>v'. SetTip sample_heap (Some 13) [Some 0, Some 1, Some 2, Some 3] = Some v' \<and> Tip v' = Some 13 \<and>
    \<not> Contains sample_heap v' 3 \<and> Contains sample_heap v' 1"
proof -
  have b: "sample_heap 13 = Some (sample_block (Some 12) (Some 1) 3 113)" "sample_heap 3 = Some (sample_block (Some 2) (Some 1) 3 103)"
    "sample_heap 1 = Some (sample_block (Some 0) (Some 0) 1 101)"
    by (simp_all add: sample_heap_def)
  have "walk sample_heap 2 13 = Some 1" by (simp add: sample_heap_def sample_block_def numeral_2_eq_2)
  moreover have "walk sample_heap n 13 \<noteq> Some 3" for n
    using walk_Some [OF sample_wf b(1), of n 3] b(2) by (cases n) (auto simp: sample_block_def b(1))
  ultimately show ?thesis using SetTip_correct [OF sample_wf sample_chain_ok b(1)] b(2,3) by auto
qed

lemma fork_points_correct_witness: "\<exists>r. LastCommonAncestor sample_heap 13 4 = Some (Some r) \<and> (\<exists>i. walk sample_heap i 13 = Some r)"
proof -
  have w: "walk sample_heap (nHeight (sample_block (Some 12) (Some 1) 3 113)) 13 =
      walk sample_heap (nHeight (sample_block (Some 3) (Some 0) 4 104)) 4"
    by (simp add: sample_heap_def sample_block_def numeral_eq_Suc)
  show ?thesis using fork_points_correct [OF sample_wf sample_chain_ok _ _ w] by (auto simp: sample_heap_def)
qed

definition sample_hashes :: "uint256 \<Rightarrow> ptr option" where
  "sample_hashes = map_of [(100, 0), (101, 1), (102, 2), (103, 3), (104, 4), (112, 12), (113, 13)]"

lemma locators_find_common_block_witness:
  "\<exists>hs r n. GetLocator sample_heap [Some 0, Some 1, Some 2, Some 3] (Some 13) = Some (113 # hs) \<and>
    FindForkInGlobalIndex sample_heap sample_hashes [Some 0, Some 1, Some 2, Some 3] (113 # hs) = Some (Some r) \<and>
    walk sample_heap n 13 = Some r"
proof -
  have b: "sample_heap 13 = Some (sample_block (Some 12) (Some 1) 3 113)" by (simp add: sample_heap_def)
  have h: "hashes_ok sample_heap sample_hashes"
    unfolding hashes_ok_def sample_heap_def sample_hashes_def by (auto simp: sample_block_def split: if_splits)
  have g: "Genesis [Some 0, Some 1, Some 2, Some 3] = walk sample_heap (nHeight (sample_block (Some 12) (Some 1) 3 113)) 13"
    by (simp add: Genesis_def sample_heap_def sample_block_def numeral_eq_Suc)
  have "phashBlock (sample_block (Some 12) (Some 1) 3 113) = 113" by (simp add: sample_block_def)
  then show ?thesis
    using locators_find_common_block [OF sample_wf sample_chain_ok b sample_chain_ok h _ g] by auto
qed

end
