(* ===== verification/BestChain.thy ===== *)
theory BestChain
  imports Chain
begin

text \<open>
  The choice of the best chain (src/src/main.cpp): the candidates \<open>setBlockIndexCandidates\<close>, adding
  blocks to the index, \<open>FindMostWorkChain\<close>, \<open>ActivateBestChain\<close> with its steps, and invalidating and
  reconsidering blocks.  The sets of pointers are lists; the order of \<open>CBlockIndexWorkComparator\<close> is
  applied where the code reads the largest element or a range.  What \<open>ConnectBlock\<close>, reading undo data and \<open>DisconnectBlock\<close>, and the flush
  say for each block is a parameter (\<open>block_results\<close>); theories \<open>UpdateCoins\<close> and \<open>ConnectBlock\<close> model these functions on the
  coins views.  A failed assertion, a null pointer or a loop that does not
  end is \<open>None\<close>.  The fields of the proof of stake, \<open>pnext\<close>, the list of changed entries for the disk,
  warnings and notifications are left out.
\<close>

section \<open>Block status\<close>

definition BLOCK_VALID_TREE :: "32 word" where "BLOCK_VALID_TREE = 2"
definition BLOCK_VALID_TRANSACTIONS :: "32 word" where "BLOCK_VALID_TRANSACTIONS = 3"
definition BLOCK_VALID_MASK :: "32 word" where "BLOCK_VALID_MASK = 1 OR 2 OR 3 OR 4 OR 5"
definition BLOCK_HAVE_DATA :: "32 word" where "BLOCK_HAVE_DATA = 8"
definition BLOCK_FAILED_VALID :: "32 word" where "BLOCK_FAILED_VALID = 32"
definition BLOCK_FAILED_CHILD :: "32 word" where "BLOCK_FAILED_CHILD = 64"
definition BLOCK_FAILED_MASK :: "32 word" where "BLOCK_FAILED_MASK = BLOCK_FAILED_VALID OR BLOCK_FAILED_CHILD"
definition BLOCK_OPT_WITNESS :: "32 word" where "BLOCK_OPT_WITNESS = 128"

definition failed :: "CBlockIndex \<Rightarrow> bool" where
  "failed b \<longleftrightarrow> nStatus b AND BLOCK_FAILED_MASK \<noteq> 0"

definition have_data :: "CBlockIndex \<Rightarrow> bool" where
  "have_data b \<longleftrightarrow> nStatus b AND BLOCK_HAVE_DATA \<noteq> 0"

definition IsValid :: "32 word \<Rightarrow> CBlockIndex \<Rightarrow> bool" where
  "IsValid nUpTo b \<longleftrightarrow> \<not> failed b \<and> nStatus b AND BLOCK_VALID_MASK \<ge> nUpTo"

definition RaiseValidity :: "32 word \<Rightarrow> CBlockIndex \<Rightarrow> CBlockIndex" where
  "RaiseValidity nUpTo b =
     (if failed b then b
      else if nStatus b AND BLOCK_VALID_MASK < nUpTo
      then b\<lparr>nStatus := (nStatus b AND NOT BLOCK_VALID_MASK) OR nUpTo\<rparr> else b)"

section \<open>State\<close>

record chain_state =
  heap :: block_heap
  mapBlockIndex :: "(uint256 \<times> ptr) list"
  chainActive :: CChain
  candidates :: "ptr list"
  mapBlocksUnlinked :: "(ptr option \<times> ptr) list"
  pindexBestInvalid :: "ptr option"
  pindexBestHeader :: "ptr option"
  nBlockSequenceId :: nat

definition update_block :: "ptr \<Rightarrow> (CBlockIndex \<Rightarrow> CBlockIndex) \<Rightarrow> chain_state \<Rightarrow> chain_state" where
  "update_block p f s = s\<lparr>heap := (heap s)(p := map_option f (heap s p))\<rparr>"

definition erase_candidate :: "ptr \<Rightarrow> chain_state \<Rightarrow> chain_state" where
  "erase_candidate p s = s\<lparr>candidates := removeAll p (candidates s)\<rparr>"

definition insert_candidate :: "ptr \<Rightarrow> chain_state \<Rightarrow> chain_state" where
  "insert_candidate p s = s\<lparr>candidates := List.insert p (candidates s)\<rparr>"

text \<open>\<open>CBlockIndexWorkComparator\<close>: the first block is worse than the second.\<close>

definition WorkComparator :: "block_heap \<Rightarrow> ptr \<Rightarrow> ptr \<Rightarrow> bool" where
  "WorkComparator m pa pb =
     (case (m pa, m pb) of
        (Some a, Some b) \<Rightarrow>
          if nChainWork a > nChainWork b then False
          else if nChainWork a < nChainWork b then True
          else if nSequenceId a < nSequenceId b then False
          else if nSequenceId a > nSequenceId b then True
          else if pa < pb then False
          else if pa > pb then True
          else False
      | _ \<Rightarrow> False)"

text \<open>The last element of the set.\<close>

definition best_candidate :: "block_heap \<Rightarrow> ptr list \<Rightarrow> ptr option" where
  "best_candidate m ps =
     fold (\<lambda>p best. case best of None \<Rightarrow> Some p | Some q \<Rightarrow> if WorkComparator m q p then Some p else Some q) ps None"

text \<open>\<open>pindexBestInvalid\<close> in \<open>InvalidChainFound\<close> and \<open>FindMostWorkChain\<close>.\<close>

definition note_invalid :: "ptr \<Rightarrow> chain_state \<Rightarrow> chain_state" where
  "note_invalid p s =
     (case (pindexBestInvalid s, heap s p) of
        (Some q, Some b) \<Rightarrow>
          (case heap s q of
             Some c \<Rightarrow> if nChainWork b > nChainWork c then s\<lparr>pindexBestInvalid := Some p\<rparr> else s
           | None \<Rightarrow> s)
      | _ \<Rightarrow> s\<lparr>pindexBestInvalid := Some p\<rparr>)"

text \<open>The log message reads the tip.\<close>

definition InvalidChainFound :: "ptr \<Rightarrow> chain_state \<Rightarrow> chain_state option" where
  "InvalidChainFound p s = (case Tip (chainActive s) of None \<Rightarrow> None | Some tip \<Rightarrow> Some (note_invalid p s))"

section \<open>FindMostWorkChain\<close>

text \<open>The first loop: the first block on the way to the active chain that cannot be used, and whether it failed.\<close>

partial_function (option) test_path :: "block_heap \<Rightarrow> CChain \<Rightarrow> ptr option \<Rightarrow> (ptr \<times> bool) option option" where
  "test_path m v pindexTest =
     (case pindexTest of
        None \<Rightarrow> Some None
      | Some p \<Rightarrow>
          (case m p of
             None \<Rightarrow> None
           | Some b \<Rightarrow>
               if Contains m v p then Some None
               else if \<not> (nChainTx b \<noteq> 0 \<or> nHeight b = 0) then None
               else if failed b \<or> \<not> have_data b then Some (Some (p, failed b))
               else test_path m v (pprev b)))"

text \<open>The second loop: removing the blocks above the unusable one.\<close>

partial_function (option) remove_chain :: "bool \<Rightarrow> ptr \<Rightarrow> ptr option \<Rightarrow> chain_state \<Rightarrow> chain_state option" where
  "remove_chain fFailedChain pindexTest pindexFailed s =
     (if pindexFailed = Some pindexTest then Some s
      else
        (case pindexFailed of
           None \<Rightarrow> None
         | Some p \<Rightarrow>
             (case heap s p of
                None \<Rightarrow> None
              | Some b \<Rightarrow>
                  remove_chain fFailedChain pindexTest (pprev b)
                    (erase_candidate p
                      (if fFailedChain then update_block p (\<lambda>b. b\<lparr>nStatus := nStatus b OR BLOCK_FAILED_CHILD\<rparr>) s
                       else s\<lparr>mapBlocksUnlinked := mapBlocksUnlinked s @ [(pprev b, p)]\<rparr>)))))"

partial_function (option) FindMostWorkChain :: "chain_state \<Rightarrow> (ptr option \<times> chain_state) option" where
  "FindMostWorkChain s =
     (case best_candidate (heap s) (candidates s) of
        None \<Rightarrow> Some (None, s)
      | Some pindexNew \<Rightarrow>
          (case test_path (heap s) (chainActive s) (Some pindexNew) of
             None \<Rightarrow> None
           | Some None \<Rightarrow> Some (Some pindexNew, s)
           | Some (Some (pindexTest, fFailedChain)) \<Rightarrow>
               (case remove_chain fFailedChain pindexTest (Some pindexNew)
                       (if fFailedChain then note_invalid pindexNew s else s) of
                  None \<Rightarrow> None
                | Some s' \<Rightarrow> FindMostWorkChain (erase_candidate pindexTest s'))))"

text \<open>The assertion is that a candidate is left.\<close>

definition PruneBlockIndexCandidates :: "chain_state \<Rightarrow> chain_state option" where
  "PruneBlockIndexCandidates s =
     (case Tip (chainActive s) of
        None \<Rightarrow> None
      | Some tip \<Rightarrow>
          let cs = filter (\<lambda>p. \<not> WorkComparator (heap s) p tip) (candidates s)
          in if cs = [] then None else Some (s\<lparr>candidates := cs\<rparr>))"

section \<open>Connecting and disconnecting\<close>

datatype connect_result = Connected | Invalid_block bool | System_error

record block_results =
  connect_result_of :: "ptr \<Rightarrow> connect_result"
  disconnect_works :: "ptr \<Rightarrow> bool"
  final_flush_works :: bool

text \<open>The log message reads the new tip, which must not be \<open>NULL\<close>.\<close>

definition UpdateTip :: "ptr option \<Rightarrow> chain_state \<Rightarrow> chain_state option" where
  "UpdateTip p s =
     (case SetTip (heap s) p (chainActive s) of
        None \<Rightarrow> None
      | Some v \<Rightarrow> if Tip v = None then None else Some (s\<lparr>chainActive := v\<rparr>))"

text \<open>\<open>False\<close> is the failure of the function.\<close>

definition DisconnectTip :: "block_results \<Rightarrow> chain_state \<Rightarrow> (bool \<times> chain_state) option" where
  "DisconnectTip R s =
     (case Tip (chainActive s) of
        None \<Rightarrow> None
      | Some pindexDelete \<Rightarrow>
          if \<not> disconnect_works R pindexDelete then Some (False, s)
          else (case heap s pindexDelete of
                  None \<Rightarrow> None
                | Some b \<Rightarrow> map_option (Pair True) (UpdateTip (pprev b) s)))"

definition InvalidBlockFound :: "bool \<Rightarrow> ptr \<Rightarrow> chain_state \<Rightarrow> chain_state option" where
  "InvalidBlockFound corruption p s =
     (if \<not> corruption
      then InvalidChainFound p (erase_candidate p (update_block p (\<lambda>b. b\<lparr>nStatus := nStatus b OR BLOCK_FAILED_VALID\<rparr>) s))
      else Some s)"

definition ConnectTip :: "block_results \<Rightarrow> ptr \<Rightarrow> chain_state \<Rightarrow> (connect_result \<times> chain_state) option" where
  "ConnectTip R p s =
     (case heap s p of
        None \<Rightarrow> None
      | Some b \<Rightarrow>
          if pprev b \<noteq> Tip (chainActive s) then None
          else (case connect_result_of R p of
                  Connected \<Rightarrow> map_option (Pair Connected) (UpdateTip (Some p) s)
                | Invalid_block corruption \<Rightarrow> map_option (Pair (Invalid_block corruption)) (InvalidBlockFound corruption p s)
                | System_error \<Rightarrow> Some (System_error, s)))"

text \<open>The first loop of \<open>ActivateBestChainStep\<close>.\<close>

partial_function (option) disconnect_to :: "block_results \<Rightarrow> ptr option \<Rightarrow> chain_state \<Rightarrow> (bool \<times> chain_state) option" where
  "disconnect_to R pindexFork s =
     (if Tip (chainActive s) \<noteq> None \<and> Tip (chainActive s) \<noteq> pindexFork then
        (case DisconnectTip R s of
           None \<Rightarrow> None
         | Some (ok, s') \<Rightarrow> if ok then disconnect_to R pindexFork s' else Some (False, s'))
      else Some (True, s))"

text \<open>The blocks above the height \<open>h\<close>, from the highest down.\<close>

partial_function (option) blocks_above :: "block_heap \<Rightarrow> int \<Rightarrow> ptr option \<Rightarrow> ptr list \<Rightarrow> ptr list option" where
  "blocks_above m h pindexIter acc =
     (case pindexIter of
        None \<Rightarrow> Some acc
      | Some p \<Rightarrow>
          (case m p of
             None \<Rightarrow> None
           | Some b \<Rightarrow> if int (nHeight b) = h then Some acc else blocks_above m h (pprev b) (acc @ [p])))"

datatype step_end = Go_on | Stop bool | Failed

definition better_than :: "block_heap \<Rightarrow> ptr option \<Rightarrow> ptr option \<Rightarrow> bool" where
  "better_than m tip old =
     (case old of
        None \<Rightarrow> True
      | Some q \<Rightarrow> (case (deref m tip, m q) of (Some a, Some b) \<Rightarrow> nChainWork a > nChainWork b | _ \<Rightarrow> False))"

text \<open>Connecting the blocks of one round, lowest first; \<open>lowest\<close> is \<open>vpindexToConnect.back()\<close>, the lowest block.\<close>

fun connect_blocks :: "block_results \<Rightarrow> ptr option \<Rightarrow> ptr \<Rightarrow> ptr list \<Rightarrow> chain_state \<Rightarrow> (step_end \<times> chain_state) option" where
  "connect_blocks R pindexOldTip lowest [] s = Some (Go_on, s)"
| "connect_blocks R pindexOldTip lowest (p # ps) s =
     (case ConnectTip R p s of
        None \<Rightarrow> None
      | Some (Invalid_block corruption, s') \<Rightarrow>
          if \<not> corruption then map_option (Pair (Stop True)) (InvalidChainFound lowest s') else Some (Stop True, s')
      | Some (System_error, s') \<Rightarrow> Some (Failed, s')
      | Some (Connected, s') \<Rightarrow>
          (case PruneBlockIndexCandidates s' of
             None \<Rightarrow> None
           | Some s'' \<Rightarrow>
               if better_than (heap s'') (Tip (chainActive s'')) pindexOldTip then Some (Stop False, s'')
               else connect_blocks R pindexOldTip lowest ps s''))"

partial_function (option) connect_rounds :: "block_results \<Rightarrow> ptr option \<Rightarrow> ptr \<Rightarrow> int \<Rightarrow> chain_state \<Rightarrow> (bool \<times> chain_state) option" where
  "connect_rounds R pindexOldTip pindexMostWork h s =
     (case heap s pindexMostWork of
        None \<Rightarrow> None
      | Some b \<Rightarrow>
          if h = int (nHeight b) then Some (True, s)
          else
            let nTargetHeight = min (h + 32) (int (nHeight b)) in
            (case GetAncestor (heap s) pindexMostWork nTargetHeight of
               None \<Rightarrow> None
             | Some pindexIter \<Rightarrow>
                 (case blocks_above (heap s) h pindexIter [] of
                    None \<Rightarrow> None
                  | Some vpindexToConnect \<Rightarrow>
                      (case connect_blocks R pindexOldTip (last vpindexToConnect) (rev vpindexToConnect) s of
                         None \<Rightarrow> None
                       | Some (Failed, s') \<Rightarrow> Some (False, s')
                       | Some (Stop fInvalidFound, s') \<Rightarrow> Some (True, s')
                       | Some (Go_on, s') \<Rightarrow> connect_rounds R pindexOldTip pindexMostWork nTargetHeight s'))))"

definition ActivateBestChainStep :: "block_results \<Rightarrow> ptr \<Rightarrow> chain_state \<Rightarrow> (bool \<times> chain_state) option" where
  "ActivateBestChainStep R pindexMostWork s =
     (case FindFork (heap s) (chainActive s) pindexMostWork of
        None \<Rightarrow> None
      | Some pindexFork \<Rightarrow>
          (case disconnect_to R pindexFork s of
             None \<Rightarrow> None
           | Some (False, s') \<Rightarrow> Some (False, s')
           | Some (True, s') \<Rightarrow>
               connect_rounds R (Tip (chainActive s)) pindexMostWork
                 (case deref (heap s) pindexFork of None \<Rightarrow> -1 | Some b \<Rightarrow> int (nHeight b)) s'))"

partial_function (option) ActivateBestChain :: "block_results \<Rightarrow> chain_state \<Rightarrow> (bool \<times> chain_state) option" where
  "ActivateBestChain R s =
     (case FindMostWorkChain s of
        None \<Rightarrow> None
      | Some (None, s1) \<Rightarrow> Some (True, s1)
      | Some (Some pindexMostWork, s1) \<Rightarrow>
          if Tip (chainActive s1) = Some pindexMostWork then Some (True, s1)
          else
            (case ActivateBestChainStep R pindexMostWork s1 of
               None \<Rightarrow> None
             | Some (ok, s2) \<Rightarrow>
                 if \<not> ok then Some (False, s2)
                 else if Tip (chainActive s2) = Some pindexMostWork then Some (final_flush_works R, s2)
                 else ActivateBestChain R s2))"

section \<open>Adding blocks\<close>

text \<open>\<open>AddToBlockIndex\<close>: \<open>new\<close> is the address of the new object, \<open>proof\<close> is \<open>GetBlockProof\<close> of the header.  The sums
  of \<open>uint256\<close> and \<open>unsigned int\<close> values wrap around, as does the static counter \<open>nBlockSequenceId\<close>.\<close>

definition AddToBlockIndex :: "ptr \<Rightarrow> uint256 \<Rightarrow> uint256 \<Rightarrow> nat \<Rightarrow> nat \<Rightarrow> chain_state \<Rightarrow> (ptr \<times> chain_state) option" where
  "AddToBlockIndex new hash hashPrevBlock proof t s =
     (case map_of (mapBlockIndex s) hash of
        Some p \<Rightarrow> Some (p, s)
      | None \<Rightarrow>
          let b = \<lparr>phashBlock = hash, pprev = None, pskip = None, nHeight = 0, nChainWork = 0, nTx = 0, nChainTx = 0,
                   nStatus = 0, nSequenceId = 0, block_nTime = t\<rparr>;
              s1 = s\<lparr>mapBlockIndex := (hash, new) # mapBlockIndex s\<rparr>
          in
          (case (case map_of (mapBlockIndex s1) hashPrevBlock of
                   None \<Rightarrow> Some ((heap s)(new \<mapsto> b))
                 | Some q \<Rightarrow>
                     (case heap s q of
                        None \<Rightarrow> None
                      | Some c \<Rightarrow>
                          BuildSkip ((heap s)(new \<mapsto> b\<lparr>pprev := Some q, nHeight := nHeight c + 1\<rparr>)) new)) of
             None \<Rightarrow> None
           | Some m \<Rightarrow>
               (case m new of
                  None \<Rightarrow> None
                | Some b1 \<Rightarrow>
                    let work = nat_u256 ((case deref m (pprev b1) of None \<Rightarrow> 0 | Some c \<Rightarrow> nChainWork c) + proof);
                        b2 = RaiseValidity BLOCK_VALID_TREE (b1\<lparr>nChainWork := work\<rparr>);
                        best = (case deref m (pindexBestHeader s) of
                                  None \<Rightarrow> Some new
                                | Some h \<Rightarrow> if nChainWork h < work then Some new else pindexBestHeader s)
                    in Some (new, s1\<lparr>heap := m(new \<mapsto> b2), pindexBestHeader := best\<rparr>))))"

text \<open>\<open>ReceivedBlockTransactions\<close>; the descendants that were waiting for the block are taken from
  \<open>mapBlocksUnlinked\<close>.\<close>

definition link_block :: "ptr \<Rightarrow> chain_state \<Rightarrow> chain_state option" where
  "link_block p s =
     (case heap s p of
        None \<Rightarrow> None
      | Some b \<Rightarrow>
          (case (case pprev b of None \<Rightarrow> Some 0 | Some q \<Rightarrow> map_option nChainTx (heap s q)) of
             None \<Rightarrow> None
           | Some n \<Rightarrow>
               let s1 = (update_block p (\<lambda>b. b\<lparr>nChainTx := nat_u32 (n + nTx b), nSequenceId := nBlockSequenceId s\<rparr>) s)
                          \<lparr>nBlockSequenceId := nat_u32 (nBlockSequenceId s + 1)\<rparr>
               in Some (case Tip (chainActive s1) of
                          None \<Rightarrow> insert_candidate p s1
                        | Some tip \<Rightarrow> if \<not> WorkComparator (heap s1) p tip then insert_candidate p s1 else s1)))"

function process_queue :: "ptr list \<Rightarrow> chain_state \<Rightarrow> chain_state option" where
  "process_queue [] s = Some s"
| "process_queue (p # queue) s =
     (case link_block p s of
        None \<Rightarrow> None
      | Some s1 \<Rightarrow>
          process_queue (queue @ map snd (filter (\<lambda>x. fst x = Some p) (mapBlocksUnlinked s)))
            (s1\<lparr>mapBlocksUnlinked := filter (\<lambda>x. fst x \<noteq> Some p) (mapBlocksUnlinked s)\<rparr>))"
  by pat_completeness auto
termination
proof (relation "measure (\<lambda>(q, s). length q + length (mapBlocksUnlinked s))", goal_cases)
  case (2 p queue s s1)
  have "length (mapBlocksUnlinked s) = length (filter (\<lambda>x. fst x = Some p) (mapBlocksUnlinked s)) +
      length (filter (\<lambda>x. fst x \<noteq> Some p) (mapBlocksUnlinked s))"
    by (metis sum_length_filter_compl)
  then show ?case by simp
qed simp

definition ReceivedBlockTransactions :: "ptr \<Rightarrow> nat \<Rightarrow> chain_state \<Rightarrow> chain_state option" where
  "ReceivedBlockTransactions p n s =
     (let s1 = update_block p (\<lambda>b. RaiseValidity BLOCK_VALID_TRANSACTIONS
                 (b\<lparr>nTx := nat_u32 n, nChainTx := 0, nStatus := nStatus b OR BLOCK_HAVE_DATA OR BLOCK_OPT_WITNESS\<rparr>)) s
      in case heap s1 p of
           None \<Rightarrow> None
         | Some b \<Rightarrow>
             (case pprev b of
                None \<Rightarrow> process_queue [p] s1
              | Some q \<Rightarrow>
                  (case heap s1 q of
                     None \<Rightarrow> None
                   | Some c \<Rightarrow>
                       if nChainTx c \<noteq> 0 then process_queue [p] s1
                       else if IsValid BLOCK_VALID_TREE c
                       then Some (s1\<lparr>mapBlocksUnlinked := mapBlocksUnlinked s1 @ [(Some q, p)]\<rparr>)
                       else Some s1)))"

section \<open>Invalidating and reconsidering\<close>

partial_function (option) disconnect_while_contains :: "block_results \<Rightarrow> ptr \<Rightarrow> chain_state \<Rightarrow> (bool \<times> chain_state) option" where
  "disconnect_while_contains R p s =
     (if Contains (heap s) (chainActive s) p then
        (case Tip (chainActive s) of
           None \<Rightarrow> None
         | Some pindexWalk \<Rightarrow>
             (case DisconnectTip R (erase_candidate pindexWalk
                     (update_block pindexWalk (\<lambda>b. b\<lparr>nStatus := nStatus b OR BLOCK_FAILED_CHILD\<rparr>) s)) of
                None \<Rightarrow> None
              | Some (ok, s') \<Rightarrow> if ok then disconnect_while_contains R p s' else Some (False, s')))
      else Some (True, s))"

definition linked_and_valid :: "CBlockIndex \<Rightarrow> bool" where
  "linked_and_valid b \<longleftrightarrow> IsValid BLOCK_VALID_TRANSACTIONS b \<and> nChainTx b \<noteq> 0"

definition restore_candidates :: "chain_state \<Rightarrow> chain_state option" where
  "restore_candidates s =
     (case Tip (chainActive s) of
        None \<Rightarrow> None
      | Some tip \<Rightarrow>
          Some (fold (\<lambda>(h, p) s. case heap s p of
                        None \<Rightarrow> s
                      | Some b \<Rightarrow> if linked_and_valid b \<and> \<not> WorkComparator (heap s) p tip then insert_candidate p s else s)
            (mapBlockIndex s) s))"

definition InvalidateBlock :: "block_results \<Rightarrow> ptr \<Rightarrow> chain_state \<Rightarrow> (bool \<times> chain_state) option" where
  "InvalidateBlock R p s =
     (case disconnect_while_contains R p
             (erase_candidate p (update_block p (\<lambda>b. b\<lparr>nStatus := nStatus b OR BLOCK_FAILED_VALID\<rparr>) s)) of
        None \<Rightarrow> None
      | Some (False, s1) \<Rightarrow> Some (False, s1)
      | Some (True, s1) \<Rightarrow>
          (case restore_candidates s1 of None \<Rightarrow> None | Some s2 \<Rightarrow> map_option (Pair True) (InvalidChainFound p s2)))"

definition clear_failure :: "CBlockIndex \<Rightarrow> CBlockIndex" where
  "clear_failure b = b\<lparr>nStatus := nStatus b AND NOT BLOCK_FAILED_MASK\<rparr>"

fun reconsider_descendants :: "ptr \<Rightarrow> int \<Rightarrow> ptr list \<Rightarrow> chain_state \<Rightarrow> chain_state option" where
  "reconsider_descendants pindex h [] s = Some s"
| "reconsider_descendants pindex h (p # ps) s =
     (case heap s p of
        None \<Rightarrow> None
      | Some b \<Rightarrow>
          if IsValid BLOCK_VALID_TRANSACTIONS b then reconsider_descendants pindex h ps s
          else
            (case GetAncestor (heap s) p h of
               None \<Rightarrow> None
             | Some a \<Rightarrow>
                 if a \<noteq> Some pindex then reconsider_descendants pindex h ps s
                 else
                   let s1 = update_block p clear_failure s in
                   (case (if linked_and_valid (clear_failure b) then
                            (case Tip (chainActive s1) of
                               None \<Rightarrow> None
                             | Some tip \<Rightarrow> Some (if WorkComparator (heap s1) tip p then insert_candidate p s1 else s1))
                          else Some s1) of
                      None \<Rightarrow> None
                    | Some s2 \<Rightarrow>
                        reconsider_descendants pindex h ps
                          (if pindexBestInvalid s2 = Some p then s2\<lparr>pindexBestInvalid := None\<rparr> else s2))))"

partial_function (option) reconsider_ancestors :: "ptr option \<Rightarrow> chain_state \<Rightarrow> chain_state option" where
  "reconsider_ancestors r s =
     (case r of
        None \<Rightarrow> Some s
      | Some p \<Rightarrow>
          (case heap s p of
             None \<Rightarrow> None
           | Some b \<Rightarrow> reconsider_ancestors (pprev b) (if failed b then update_block p clear_failure s else s)))"

definition ReconsiderBlock :: "ptr \<Rightarrow> chain_state \<Rightarrow> chain_state option" where
  "ReconsiderBlock p s =
     (case heap s p of
        None \<Rightarrow> None
      | Some b \<Rightarrow>
          (case reconsider_descendants p (int (nHeight b)) (map snd (mapBlockIndex s)) s of
             None \<Rightarrow> None
           | Some s1 \<Rightarrow> reconsider_ancestors (Some p) s1))"

section \<open>The invariant\<close>

definition state_wf :: "chain_state \<Rightarrow> bool" where
  "state_wf s \<longleftrightarrow> index_wf (heap s) \<and> finite (dom (heap s)) \<and> chain_ok (heap s) (chainActive s) \<and>
     (\<forall>p \<in> set (candidates s). \<exists>b. heap s p = Some b \<and> nChainTx b \<noteq> 0) \<and>
     (\<forall>p b. heap s p = Some b \<and> nChainTx b \<noteq> 0 \<longrightarrow> nTx b \<noteq> 0) \<and>
     (\<forall>p b q c. heap s p = Some b \<and> pprev b = Some q \<and> heap s q = Some c \<longrightarrow>
        nChainWork c < nChainWork b \<and> (nChainTx b \<noteq> 0 \<longrightarrow> nChainTx c \<noteq> 0)) \<and>
     (\<forall>(a, p) \<in> set (mapBlocksUnlinked s). \<exists>b. heap s p = Some b \<and> pprev b = a \<and> nTx b \<noteq> 0)"

lemma state_wfD:
  assumes "state_wf s"
  shows "index_wf (heap s)" and "finite (dom (heap s))" and "chain_ok (heap s) (chainActive s)"
    and "p \<in> set (candidates s) \<Longrightarrow> \<exists>b. heap s p = Some b \<and> nChainTx b \<noteq> 0"
    and "heap s p = Some b \<Longrightarrow> nChainTx b \<noteq> 0 \<Longrightarrow> nTx b \<noteq> 0"
    and "heap s p = Some b \<Longrightarrow> pprev b = Some q \<Longrightarrow> heap s q = Some c \<Longrightarrow> nChainWork c < nChainWork b"
    and "heap s p = Some b \<Longrightarrow> pprev b = Some q \<Longrightarrow> heap s q = Some c \<Longrightarrow> nChainTx b \<noteq> 0 \<Longrightarrow> nChainTx c \<noteq> 0"
    and "(a, p) \<in> set (mapBlocksUnlinked s) \<Longrightarrow> \<exists>b. heap s p = Some b \<and> pprev b = a \<and> nTx b \<noteq> 0"
  using assms unfolding state_wf_def by blast+

text \<open>Heaps that differ in the status of blocks only.\<close>

definition same_links :: "block_heap \<Rightarrow> block_heap \<Rightarrow> bool" where
  "same_links m m' \<longleftrightarrow> (\<forall>p. map_option (\<lambda>b. b\<lparr>nStatus := 0\<rparr>) (m p) = map_option (\<lambda>b. b\<lparr>nStatus := 0\<rparr>) (m' p))"

lemma same_links_refl [simp]: "same_links m m"
  by (simp add: same_links_def)

lemma same_links_trans: "same_links m m' \<Longrightarrow> same_links m' m'' \<Longrightarrow> same_links m m''"
  by (simp add: same_links_def)

lemma same_links_sym: "same_links m m' \<Longrightarrow> same_links m' m"
  by (simp add: same_links_def)

lemma status_eqD:
  assumes "b\<lparr>nStatus := 0\<rparr> = c\<lparr>nStatus := 0\<rparr>"
  shows "pprev b = pprev c \<and> pskip b = pskip c \<and> nHeight b = nHeight c \<and> nChainWork b = nChainWork c \<and>
    nTx b = nTx c \<and> nChainTx b = nChainTx c \<and> nSequenceId b = nSequenceId c \<and> phashBlock b = phashBlock c"
  using assms by (cases b; cases c) simp

lemma same_linksD:
  assumes "same_links m m'" and "m p = Some b"
  shows "\<exists>c. m' p = Some c \<and> pprev c = pprev b \<and> pskip c = pskip b \<and> nHeight c = nHeight b \<and> nChainWork c = nChainWork b \<and>
    nTx c = nTx b \<and> nChainTx c = nChainTx b \<and> nSequenceId c = nSequenceId b"
proof -
  have "map_option (\<lambda>b. b\<lparr>nStatus := 0\<rparr>) (m' p) = Some (b\<lparr>nStatus := 0\<rparr>)"
    using assms unfolding same_links_def by (metis option.simps(9))
  then obtain c where c: "m' p = Some c" "c\<lparr>nStatus := 0\<rparr> = b\<lparr>nStatus := 0\<rparr>" by (auto simp del: CBlockIndex.update_convs)
  then show ?thesis using status_eqD [OF c(2)] by auto
qed

lemma same_links_None: "same_links m m' \<Longrightarrow> m p = None \<longleftrightarrow> m' p = None"
  unfolding same_links_def by (metis map_option_is_None)

text \<open>What only depends on how the blocks are connected.\<close>

definition same_shape :: "block_heap \<Rightarrow> block_heap \<Rightarrow> bool" where
  "same_shape m m' \<longleftrightarrow> (\<forall>p. map_option (\<lambda>b. (pprev b, pskip b, nHeight b)) (m p) = map_option (\<lambda>b. (pprev b, pskip b, nHeight b)) (m' p))"

lemma same_shapeD:
  assumes "same_shape m m'" and "m p = Some b"
  shows "\<exists>c. m' p = Some c \<and> pprev c = pprev b \<and> pskip c = pskip b \<and> nHeight c = nHeight b"
proof -
  have "map_option (\<lambda>b. (pprev b, pskip b, nHeight b)) (m' p) = Some (pprev b, pskip b, nHeight b)"
    using assms unfolding same_shape_def by (metis (no_types, lifting) option.simps(9))
  then show ?thesis by auto
qed

lemma same_shape_sym: "same_shape m m' \<Longrightarrow> same_shape m' m"
  by (simp add: same_shape_def)

lemma same_shape_None:
  assumes "same_shape m m'"
  shows "m p = None \<longleftrightarrow> m' p = None"
proof -
  have "map_option (\<lambda>b. (pprev b, pskip b, nHeight b)) (m p) = map_option (\<lambda>b. (pprev b, pskip b, nHeight b)) (m' p)"
    using assms by (simp add: same_shape_def)
  then show ?thesis by (cases "m p"; cases "m' p") simp_all
qed

lemma walk_shape: "same_shape m m' \<Longrightarrow> walk m n p = walk m' n p"
proof (induction n arbitrary: p)
  case (Suc n)
  show ?case
  proof (cases "m p")
    case None
    then show ?thesis using same_shape_None [OF Suc.prems, of p] by simp
  next
    case (Some b)
    then obtain c where "m' p = Some c" "pprev c = pprev b" using same_shapeD [OF Suc.prems] by blast
    then show ?thesis using Some Suc.IH [OF Suc.prems] by (simp split: option.split)
  qed
qed simp

lemma index_wf_shape:
  assumes "same_shape m m'" and "index_wf m"
  shows "index_wf m'"
  unfolding index_wf_def
proof (intro allI impI)
  fix p c assume c: "m' p = Some c"
  obtain b where b: "m p = Some b" "pprev b = pprev c" "pskip b = pskip c" "nHeight b = nHeight c"
    using same_shapeD [OF same_shape_sym [OF assms(1)] c] by auto
  have "block_ok m p b" using assms(2) b(1) by (simp add: index_wf_def)
  moreover have "\<exists>d. m' q = Some d \<and> nHeight d = nHeight e" if "m q = Some e" for q e
    using same_shapeD [OF assms(1) that] by blast
  ultimately show "block_ok m' p c"
    unfolding block_ok_def b(2-4) walk_shape [OF assms(1)] by (fastforce split: option.splits)
qed

lemma chain_ok_shape:
  assumes "same_shape m m'" and "chain_ok m v"
  shows "chain_ok m' v"
  unfolding chain_ok_def
proof (intro allI impI)
  fix i assume "i < length v"
  then obtain p b where b: "v ! i = Some p" "m p = Some b" "nHeight b = i" "pprev b = (if i = 0 then None else v ! (i - 1))"
    using assms(2) unfolding chain_ok_def by blast
  obtain c where "m' p = Some c" "nHeight c = nHeight b" "pprev c = pprev b" using same_shapeD [OF assms(1) b(2)] by blast
  then show "\<exists>p b. v ! i = Some p \<and> m' p = Some b \<and> nHeight b = i \<and> pprev b = (if i = 0 then None else v ! (i - 1))"
    using b by auto
qed

lemma Contains_shape:
  assumes "same_shape m m'"
  shows "Contains m v p = Contains m' v p"
proof (cases "m p")
  case None
  then show ?thesis using same_shape_None [OF assms, of p] by (simp add: Contains_def)
next
  case (Some b)
  then show ?thesis using same_shapeD [OF assms Some] by (auto simp: Contains_def)
qed

lemma same_links_shape:
  assumes "same_links m m'"
  shows "same_shape m m'"
  unfolding same_shape_def
proof
  fix p
  show "map_option (\<lambda>b. (pprev b, pskip b, nHeight b)) (m p) = map_option (\<lambda>b. (pprev b, pskip b, nHeight b)) (m' p)"
  proof (cases "m p")
    case None
    then show ?thesis using same_links_None [OF assms, of p] by simp
  next
    case (Some b)
    then show ?thesis using same_linksD [OF assms Some] by auto
  qed
qed

lemmas walk_same = walk_shape [OF same_links_shape]
  and index_wf_same = index_wf_shape [OF same_links_shape]
  and chain_ok_same = chain_ok_shape [OF same_links_shape]
  and Contains_same = Contains_shape [OF same_links_shape]

lemma WorkComparator_same:
  assumes "same_links m m'"
  shows "WorkComparator m p q = WorkComparator m' p q"
proof (cases "m p = None \<or> m q = None")
  case True
  have n: "\<not> WorkComparator x p q" if "x p = None \<or> x q = None" for x
    using that by (auto simp: WorkComparator_def split: option.split)
  have "m' p = None \<or> m' q = None" using True same_links_None [OF assms, of p] same_links_None [OF assms, of q] by metis
  then show ?thesis using n [OF True] n [of m'] by blast
next
  case False
  then obtain a b where ab: "m p = Some a" "m q = Some b" by auto
  obtain a' where "m' p = Some a'" "nChainWork a' = nChainWork a" "nSequenceId a' = nSequenceId a" using same_linksD [OF assms ab(1)] by blast
  moreover obtain b' where "m' q = Some b'" "nChainWork b' = nChainWork b" "nSequenceId b' = nSequenceId b" using same_linksD [OF assms ab(2)] by blast
  ultimately show ?thesis by (simp add: WorkComparator_def ab)
qed

lemma same_links_status: "same_links m (m(p := map_option (\<lambda>b. b\<lparr>nStatus := f b\<rparr>) (m p)))"
  by (auto simp: same_links_def option.map_comp comp_def)

lemma state_wf_same:
  assumes "state_wf s" and "same_links (heap s) (heap s')" and "chain_ok (heap s) (chainActive s')"
    and "set (candidates s') \<subseteq> set (candidates s)"
    and "\<And>a p. (a, p) \<in> set (mapBlocksUnlinked s') \<Longrightarrow> \<exists>b. heap s p = Some b \<and> pprev b = a \<and> nTx b \<noteq> 0"
  shows "state_wf s'"
proof -
  note sl = same_linksD [OF assms(2)] and ls = same_linksD [OF same_links_sym [OF assms(2)]]
  note w = state_wfD [OF assms(1)]
  have d: "dom (heap s') = dom (heap s)" unfolding dom_def using same_links_None [OF assms(2)] by simp
  have "\<exists>b. heap s' p = Some b \<and> nChainTx b \<noteq> 0" if "p \<in> set (candidates s')" for p
    using w(4) [of p] assms(4) that sl by fastforce
  moreover have "nTx b \<noteq> 0" if "heap s' p = Some b" "nChainTx b \<noteq> 0" for p b
    using ls [OF that(1)] w(5) [of p] that(2) by auto
  moreover have "nChainWork c < nChainWork b \<and> (nChainTx b \<noteq> 0 \<longrightarrow> nChainTx c \<noteq> 0)"
    if h: "heap s' p = Some b" "pprev b = Some q" "heap s' q = Some c" for p b q c
  proof -
    obtain b' where b': "heap s p = Some b'" "pprev b' = pprev b" "nChainWork b' = nChainWork b" "nChainTx b' = nChainTx b"
      using ls [OF h(1)] by auto
    obtain c' where c': "heap s q = Some c'" "nChainWork c' = nChainWork c" "nChainTx c' = nChainTx c" using ls [OF h(3)] by auto
    show ?thesis using w(6,7) [OF b'(1) _ c'(1)] b' c' h(2) by auto
  qed
  moreover have "\<exists>b. heap s' p = Some b \<and> pprev b = a \<and> nTx b \<noteq> 0" if "(a, p) \<in> set (mapBlocksUnlinked s')" for a p
    using assms(5) [OF that] sl by fastforce
  ultimately show ?thesis
    using index_wf_same [OF assms(2) w(1)] chain_ok_same [OF assms(2,3)] w(2) d unfolding state_wf_def by auto
qed

text \<open>What an ancestor inherits.\<close>

lemma ancestor_facts:
  assumes "state_wf s" and "heap s p = Some b" and "walk (heap s) n p = Some q" and "heap s q = Some c"
  shows "(nChainTx b \<noteq> 0 \<longrightarrow> nChainTx c \<noteq> 0) \<and> nChainWork c + n \<le> nChainWork b"
  using assms(2,3)
proof (induction n arbitrary: p b)
  case 0
  then show ?case using assms(4) by simp
next
  case (Suc n)
  obtain r where r: "pprev b = Some r" "walk (heap s) n r = Some q" using Suc.prems by (auto split: option.splits)
  obtain d where d: "heap s r = Some d" using index_wfD(2) [OF state_wfD(1) [OF assms(1)] Suc.prems(1) r(1)] by auto
  show ?case
    using Suc.IH [OF d r(2)] state_wfD(6,7) [OF assms(1) Suc.prems(1) r(1) d] by auto
qed

section \<open>The comparator\<close>

lemma WorkComparator_irrefl [simp]: "\<not> WorkComparator m p p"
  by (auto simp: WorkComparator_def split: option.split)

lemma WorkComparator_negtrans:
  "WorkComparator m q p \<Longrightarrow> \<not> WorkComparator m q c \<Longrightarrow> m c \<noteq> None \<Longrightarrow> \<not> WorkComparator m p c"
  by (auto simp: WorkComparator_def split: option.splits if_splits)

lemma best_candidate_fold:
  assumes "\<forall>p \<in> set ps. m p \<noteq> None"
  shows "case fold (\<lambda>p best. case best of None \<Rightarrow> Some p | Some q \<Rightarrow> if WorkComparator m q p then Some p else Some q) ps None of
      None \<Rightarrow> ps = []
    | Some p \<Rightarrow> p \<in> set ps \<and> (\<forall>c \<in> set ps. \<not> WorkComparator m p c)"
  using assms
proof (induction ps rule: rev_induct)
  case (snoc x ps)
  let ?f = "\<lambda>p best. case best of None \<Rightarrow> Some p | Some q \<Rightarrow> if WorkComparator m q p then Some p else Some q"
  show ?case
  proof (cases "fold ?f ps None")
    case None
    then show ?thesis using snoc by simp
  next
    case (Some q)
    have ih: "q \<in> set ps" "\<forall>c \<in> set ps. \<not> WorkComparator m q c" using snoc Some by simp_all
    show ?thesis using Some ih snoc.prems WorkComparator_negtrans [of m q x] by auto
  qed
qed simp

lemma best_candidate:
  assumes "\<forall>p \<in> set ps. m p \<noteq> None"
  shows "best_candidate m ps = None \<longleftrightarrow> ps = []"
    and "best_candidate m ps = Some p \<Longrightarrow> p \<in> set ps \<and> (\<forall>c \<in> set ps. \<not> WorkComparator m p c)"
  using best_candidate_fold [OF assms] unfolding best_candidate_def by (auto split: option.splits)

section \<open>The most work chain\<close>

definition unusable :: "CBlockIndex \<Rightarrow> bool" where
  "unusable b \<longleftrightarrow> failed b \<or> \<not> have_data b"

text \<open>\<open>q\<close> is on the way from \<open>p\<close> to the active chain \<open>v\<close>, \<open>n\<close> blocks below \<open>p\<close>.\<close>

definition on_way :: "block_heap \<Rightarrow> CChain \<Rightarrow> ptr \<Rightarrow> nat \<Rightarrow> ptr \<Rightarrow> bool" where
  "on_way m v p n q \<longleftrightarrow> walk m n p = Some q \<and> (\<forall>k \<le> n. \<forall>x. walk m k p = Some x \<longrightarrow> \<not> Contains m v x)"

definition usable :: "block_heap \<Rightarrow> CChain \<Rightarrow> ptr \<Rightarrow> bool" where
  "usable m v p \<longleftrightarrow> (\<forall>n q c. on_way m v p n q \<and> m q = Some c \<longrightarrow> \<not> unusable c)"

lemma on_way_0 [simp]: "on_way m v p 0 q \<longleftrightarrow> q = p \<and> \<not> Contains m v p"
  by (auto simp: on_way_def)

lemma on_way_Suc:
  assumes "m p = Some b"
  shows "on_way m v p (Suc n) q \<longleftrightarrow> \<not> Contains m v p \<and> (\<exists>r. pprev b = Some r \<and> on_way m v r n q)"
proof -
  have "(\<forall>k \<le> Suc n. \<forall>x. walk m k p = Some x \<longrightarrow> \<not> Contains m v x) \<longleftrightarrow>
      \<not> Contains m v p \<and> (\<forall>k \<le> n. \<forall>x. walk m (Suc k) p = Some x \<longrightarrow> \<not> Contains m v x)"
    by (metis Suc_le_mono le_0_eq not0_implies_Suc option.inject walk.simps(1) zero_le)
  then show ?thesis using assms by (auto simp: on_way_def split: option.splits)
qed

lemma on_way_trans: "on_way m v p n q \<Longrightarrow> on_way m v q k r \<Longrightarrow> on_way m v p (n + k) r"
  unfolding on_way_def
proof (elim conjE, intro conjI allI impI)
  assume a: "walk m n p = Some q" "walk m k q = Some r" "\<forall>k \<le> n. \<forall>x. walk m k p = Some x \<longrightarrow> \<not> Contains m v x"
    "\<forall>i \<le> k. \<forall>x. walk m i q = Some x \<longrightarrow> \<not> Contains m v x"
  show "walk m (n + k) p = Some r" using walk_add [of m n k p] a(1,2) by simp
  fix i x assume "i \<le> n + k" "walk m i p = Some x"
  note ix = this
  show "\<not> Contains m v x"
  proof (cases "i \<le> n")
    case True
    then show ?thesis using a(3) ix(2) by blast
  next
    case False
    then have "walk m (i - n) q = Some x" "i - n \<le> k" using walk_add [of m n "i - n" p] a(1) ix by simp_all
    then show ?thesis using a(4) by blast
  qed
qed

lemma walk_after: "walk m k p = Some x \<Longrightarrow> walk m (k + i) p = walk m i x"
  using walk_add [of m k i p] by simp

lemma on_way_drop:
  assumes "on_way m v p n q" and "k \<le> n" and "walk m k p = Some x"
  shows "on_way m v x (n - k) q"
proof -
  have w: "walk m (k + i) p = walk m i x" for i by (rule walk_after [OF assms(3)])
  have "\<not> Contains m v y" if "i \<le> n - k" "walk m i x = Some y" for i y
    using assms(1,2) that w [of i] unfolding on_way_def by (metis add.commute le_diff_conv2)
  then show ?thesis using assms(1,2) w [of "n - k"] unfolding on_way_def by simp
qed

lemma usable_on_way: "usable m v p \<Longrightarrow> on_way m v p n q \<Longrightarrow> usable m v q"
  unfolding usable_def using on_way_trans by blast

lemma test_path:
  assumes "state_wf s"
  shows "heap s p = Some b \<Longrightarrow> nChainTx b \<noteq> 0 \<Longrightarrow> \<exists>r. test_path (heap s) (chainActive s) (Some p) = Some r \<and>
    (case r of
       None \<Rightarrow> usable (heap s) (chainActive s) p
     | Some (q, f) \<Rightarrow> \<exists>n c. on_way (heap s) (chainActive s) p n q \<and> heap s q = Some c \<and> unusable c \<and> f = failed c)"
proof (induction "nHeight b" arbitrary: p b)
  case 0
  let ?m = "heap s" and ?v = "chainActive s"
  note wf = state_wfD(1) [OF assms]
  have n: "pprev b = None" using index_wfD(2) [OF wf 0(2)] 0(1) by (cases "pprev b") auto
  have t: "test_path ?m ?v (Some p) = Some (if Contains ?m ?v p then None else if unusable b then Some (p, failed b) else None)"
    using 0(2,3) n by (subst test_path.simps, simp add: unusable_def) (subst test_path.simps, simp)
  have w: "on_way ?m ?v p k q \<longleftrightarrow> k = 0 \<and> q = p \<and> \<not> Contains ?m ?v p" for k q
    using on_way_Suc [of ?m p b ?v, OF 0(2)] n by (cases k) auto
  show ?case using t w 0(2) by (auto simp: usable_def)
next
  case (Suc h)
  let ?m = "heap s" and ?v = "chainActive s"
  note wf = state_wfD(1) [OF assms]
  obtain r d where r: "pprev b = Some r" "?m r = Some d" "nHeight d = h"
    using index_wfD(4) [OF wf Suc(3)] Suc(2) by auto
  have tx: "nChainTx d \<noteq> 0" by (rule state_wfD(7) [OF assms Suc(3) r(1,2) Suc(4)])
  note way = on_way_Suc [of ?m p b ?v, OF Suc(3), unfolded r(1)]
  show ?case
  proof (cases "Contains ?m ?v p")
    case True
    then have "test_path ?m ?v (Some p) = Some None" using Suc(3) by (subst test_path.simps) simp
    moreover have "usable ?m ?v p" using True way by (auto simp: usable_def) (metis not0_implies_Suc on_way_0)
    ultimately show ?thesis by auto
  next
    case nc: False
    show ?thesis
    proof (cases "unusable b")
      case True
      then have "test_path ?m ?v (Some p) = Some (Some (p, failed b))"
        using Suc(3,4) nc by (subst test_path.simps) (simp add: unusable_def)
      then show ?thesis using True nc Suc(3) by (auto intro!: exI [of _ 0])
    next
      case False
      then have t: "test_path ?m ?v (Some p) = test_path ?m ?v (Some r)"
        using Suc(3,4) nc r(1) by (subst test_path.simps) (simp add: unusable_def)
      obtain x where x: "test_path ?m ?v (Some r) = Some x"
        "case x of None \<Rightarrow> usable ?m ?v r
         | Some (q, f) \<Rightarrow> \<exists>n c. on_way ?m ?v r n q \<and> ?m q = Some c \<and> unusable c \<and> f = failed c"
        using Suc(1) [OF r(3) [symmetric] r(2) tx] by blast
      show ?thesis
      proof (cases x)
        case None
        have "\<not> unusable c" if "on_way ?m ?v p n q" "?m q = Some c" for n q c
          using that way None x(2) False Suc(3) by (cases n) (auto simp: usable_def)
        then show ?thesis using t x(1) None by (auto simp: usable_def)
      next
        case (Some y)
        obtain q f where y: "y = (q, f)" by (cases y)
        obtain n c where n: "on_way ?m ?v r n q" "?m q = Some c" "unusable c" "f = failed c"
          using x(2) Some y by auto
        have "on_way ?m ?v p (Suc n) q" using way nc n(1) by auto
        then show ?thesis using t x(1) Some y n(2-4) by (intro exI [of _ x]) auto
      qed
    qed
  qed
qed

text \<open>A linked block without data.\<close>

definition data_missing :: "block_heap \<Rightarrow> bool" where
  "data_missing m \<longleftrightarrow> (\<exists>q c. m q = Some c \<and> nChainTx c \<noteq> 0 \<and> \<not> have_data c)"

text \<open>The effect of removing blocks from the candidates.\<close>

definition removed :: "ptr set \<Rightarrow> chain_state \<Rightarrow> chain_state \<Rightarrow> bool" where
  "removed X s s' \<longleftrightarrow> chainActive s' = chainActive s \<and> mapBlockIndex s' = mapBlockIndex s \<and>
     nBlockSequenceId s' = nBlockSequenceId s \<and> candidates s' = filter (\<lambda>c. c \<notin> X) (candidates s) \<and>
     (\<forall>p. heap s' p = heap s p \<or>
        p \<in> X \<and> heap s' p = map_option (\<lambda>b. b\<lparr>nStatus := nStatus b OR BLOCK_FAILED_CHILD\<rparr>) (heap s p)) \<and>
     (\<forall>(a, p) \<in> set (mapBlocksUnlinked s'). (a, p) \<in> set (mapBlocksUnlinked s) \<or>
        (\<exists>b. heap s p = Some b \<and> pprev b = a \<and> p \<in> X)) \<and>
     (mapBlocksUnlinked s' = mapBlocksUnlinked s \<or> data_missing (heap s))"

lemma have_data_child [simp]: "have_data (b\<lparr>nStatus := nStatus b OR BLOCK_FAILED_CHILD\<rparr>) = have_data b"
  by (simp add: have_data_def bit.conj_disj_distrib2 BLOCK_FAILED_CHILD_def BLOCK_HAVE_DATA_def)

lemma removed_missing:
  assumes "removed X s s'" and "data_missing (heap s')"
  shows "data_missing (heap s)"
proof -
  obtain q c where q: "heap s' q = Some c" "nChainTx c \<noteq> 0" "\<not> have_data c" using assms(2) unfolding data_missing_def by blast
  have "heap s' q = heap s q \<or> heap s' q = map_option (\<lambda>b. b\<lparr>nStatus := nStatus b OR BLOCK_FAILED_CHILD\<rparr>) (heap s q)"
    using assms(1) unfolding removed_def by blast
  then obtain d where "heap s q = Some d" "nChainTx d \<noteq> 0" "\<not> have_data d" using q by (cases "heap s q") auto
  then show ?thesis unfolding data_missing_def by blast
qed

lemma removed_links: "removed X s s' \<Longrightarrow> same_links (heap s) (heap s')"
  unfolding same_links_def
proof
  fix p assume "removed X s s'"
  then have "heap s' p = heap s p \<or> heap s' p = map_option (\<lambda>b. b\<lparr>nStatus := nStatus b OR BLOCK_FAILED_CHILD\<rparr>) (heap s p)"
    unfolding removed_def by blast
  then show "map_option (\<lambda>b. b\<lparr>nStatus := 0\<rparr>) (heap s p) = map_option (\<lambda>b. b\<lparr>nStatus := 0\<rparr>) (heap s' p)"
    by (cases "heap s p") auto
qed

lemma removed_trans:
  assumes "removed X s s'" and "removed Y s' s''"
  shows "removed (X \<union> Y) s s''"
proof -
  have h: "heap s'' p = heap s p \<or>
      p \<in> X \<union> Y \<and> heap s'' p = map_option (\<lambda>b. b\<lparr>nStatus := nStatus b OR BLOCK_FAILED_CHILD\<rparr>) (heap s p)" for p
  proof -
    have "heap s' p = heap s p \<or> p \<in> X \<and> heap s' p = map_option (\<lambda>b. b\<lparr>nStatus := nStatus b OR BLOCK_FAILED_CHILD\<rparr>) (heap s p)"
      "heap s'' p = heap s' p \<or> p \<in> Y \<and> heap s'' p = map_option (\<lambda>b. b\<lparr>nStatus := nStatus b OR BLOCK_FAILED_CHILD\<rparr>) (heap s' p)"
      using assms unfolding removed_def by blast+
    then show ?thesis by (elim disjE conjE) (simp_all add: option.map_comp comp_def or.assoc)
  qed
  have u: "(a, p) \<in> set (mapBlocksUnlinked s) \<or> (\<exists>b. heap s p = Some b \<and> pprev b = a \<and> p \<in> X \<union> Y)"
    if ap: "(a, p) \<in> set (mapBlocksUnlinked s'')" for a p
  proof (cases "(a, p) \<in> set (mapBlocksUnlinked s')")
    case True
    then show ?thesis using assms(1) unfolding removed_def by blast
  next
    case False
    then obtain b where b: "heap s' p = Some b" "pprev b = a" "p \<in> Y" using ap assms(2) unfolding removed_def by blast
    then show ?thesis using same_linksD [OF same_links_sym [OF removed_links [OF assms(1)]] b(1)] by auto
  qed
  have "chainActive s'' = chainActive s" "mapBlockIndex s'' = mapBlockIndex s" "nBlockSequenceId s'' = nBlockSequenceId s"
    "candidates s'' = filter (\<lambda>c. c \<notin> X \<union> Y) (candidates s)"
    using assms by (auto simp: removed_def intro: filter_cong)
  moreover have "mapBlocksUnlinked s'' = mapBlocksUnlinked s \<or> data_missing (heap s)"
    using assms removed_missing [OF assms(1)] unfolding removed_def by metis
  ultimately show ?thesis using h u unfolding removed_def by blast
qed

lemma removed_empty: "removed {} s s"
  by (auto simp: removed_def)

lemma removed_wf:
  assumes "removed X s s'" and "state_wf s" and "X \<subseteq> {p. \<exists>b. heap s p = Some b \<and> nChainTx b \<noteq> 0}"
  shows "state_wf s'"
proof (rule state_wf_same [OF assms(2) removed_links [OF assms(1)]])
  show "chain_ok (heap s) (chainActive s')" using assms(1) state_wfD(3) [OF assms(2)] by (simp add: removed_def)
  show "set (candidates s') \<subseteq> set (candidates s)" using assms(1) by (auto simp: removed_def)
  fix a p assume ap: "(a, p) \<in> set (mapBlocksUnlinked s')"
  show "\<exists>b. heap s p = Some b \<and> pprev b = a \<and> nTx b \<noteq> 0"
  proof (cases "(a, p) \<in> set (mapBlocksUnlinked s)")
    case True
    then show ?thesis by (rule state_wfD(8) [OF assms(2)])
  next
    case False
    then obtain b where b: "heap s p = Some b" "pprev b = a" "p \<in> X" using ap assms(1) unfolding removed_def by blast
    then have "nChainTx b \<noteq> 0" using assms(3) by auto
    then show ?thesis using b state_wfD(5) [OF assms(2) b(1)] by auto
  qed
qed

lemma removed_one:
  assumes "heap s p = Some b" and "f \<or> data_missing (heap s)"
  shows "removed {p} s (erase_candidate p (if f then update_block p (\<lambda>b. b\<lparr>nStatus := nStatus b OR BLOCK_FAILED_CHILD\<rparr>) s
     else s\<lparr>mapBlocksUnlinked := mapBlocksUnlinked s @ [(pprev b, p)]\<rparr>))"
  using assms by (auto simp: removed_def erase_candidate_def update_block_def removeAll_filter_not_eq intro: filter_cong)

lemma removed_erase: "removed {p} s (erase_candidate p s)"
  by (auto simp: removed_def erase_candidate_def removeAll_filter_not_eq intro: filter_cong)

lemma remove_chain:
  assumes "index_wf (heap s)" and "heap s p = Some b" and "walk (heap s) n p = Some q" and "f \<or> data_missing (heap s)"
  shows "\<exists>s'. remove_chain f q (Some p) s = Some s' \<and> removed {x. \<exists>k < n. walk (heap s) k p = Some x} s s'"
  using assms
proof (induction n arbitrary: p b s)
  case 0
  then have "remove_chain f q (Some p) s = Some s" by (subst remove_chain.simps) simp
  then show ?case using removed_empty [of s] by simp
next
  case (Suc n)
  obtain r where r: "pprev b = Some r" "walk (heap s) n r = Some q" using Suc.prems(2,3) by (auto split: option.splits)
  obtain d where d: "heap s r = Some d" "nHeight b = Suc (nHeight d)"
    using index_wfD(2) [OF Suc.prems(1,2) r(1)] by auto
  obtain c where c: "heap s q = Some c" "nHeight c = nHeight b - Suc n" "Suc n \<le> nHeight b"
    using walk_Some [OF Suc.prems(1-3)] by auto
  have pq: "p \<noteq> q" using c Suc.prems(2) by auto
  define s1 where "s1 = erase_candidate p (if f then update_block p (\<lambda>b. b\<lparr>nStatus := nStatus b OR BLOCK_FAILED_CHILD\<rparr>) s
     else s\<lparr>mapBlocksUnlinked := mapBlocksUnlinked s @ [(pprev b, p)]\<rparr>)"
  have s1: "removed {p} s s1" unfolding s1_def by (rule removed_one [OF Suc.prems(2,4)])
  note links = removed_links [OF s1]
  obtain d' where d': "heap s1 r = Some d'" using same_linksD [OF links d(1)] by blast
  have w: "walk (heap s1) k r = walk (heap s) k r" for k using walk_same [OF links] by simp
  have data: "f \<or> data_missing (heap s1)" using Suc.prems(4) by (auto simp: s1_def erase_candidate_def)
  obtain s' where s': "remove_chain f q (Some r) s1 = Some s'" "removed {x. \<exists>k < n. walk (heap s1) k r = Some x} s1 s'"
    using Suc.IH [OF index_wf_same [OF links Suc.prems(1)] d' _ data] r(2) w by auto
  have "remove_chain f q (Some p) s = remove_chain f q (pprev b) s1"
    using pq Suc.prems(2) by (subst remove_chain.simps) (simp add: s1_def)
  then have "remove_chain f q (Some p) s = Some s'" using s'(1) r(1) by simp
  moreover have "{p} \<union> {x. \<exists>k < n. walk (heap s1) k r = Some x} = {x. \<exists>k < Suc n. walk (heap s) k p = Some x}"
  proof -
    have "walk (heap s) (Suc k) p = walk (heap s) k r" for k using Suc.prems(2) r(1) by simp
    then have "(\<exists>k < Suc n. walk (heap s) k p = Some x) \<longleftrightarrow> x = p \<or> (\<exists>k < n. walk (heap s) k r = Some x)" for x
      by (metis Suc_less_eq less_Suc_eq_0_disj option.inject walk.simps(1))
    then show ?thesis unfolding w by auto
  qed
  ultimately show ?case using removed_trans [OF s1 s'(2)] by auto
qed

lemma removed_note [simp]: "removed X (note_invalid p s) s' = removed X s s'"
proof -
  have "chainActive (note_invalid p s) = chainActive s" "mapBlockIndex (note_invalid p s) = mapBlockIndex s"
    "candidates (note_invalid p s) = candidates s" "heap (note_invalid p s) = heap s"
    "mapBlocksUnlinked (note_invalid p s) = mapBlocksUnlinked s" "nBlockSequenceId (note_invalid p s) = nBlockSequenceId s"
    by (auto simp: note_invalid_def split: option.split)
  then show ?thesis by (simp only: removed_def)
qed

lemma heap_note [simp]: "heap (note_invalid p s) = heap s"
  by (auto simp: note_invalid_def split: option.split)

text \<open>Removing unusable blocks does not change what is usable.\<close>

lemma failed_or: "failed b \<Longrightarrow> failed (b\<lparr>nStatus := nStatus b OR x\<rparr>)"
  by (simp add: failed_def bit.conj_disj_distrib2 or_eq_0_iff)

lemma usable_removed:
  assumes "removed X s s'" and "\<And>x. x \<in> X \<Longrightarrow> \<not> usable (heap s) (chainActive s) x"
  shows "usable (heap s') (chainActive s') p \<longleftrightarrow> usable (heap s) (chainActive s) p"
proof -
  note links = removed_links [OF assms(1)]
  have v: "chainActive s' = chainActive s" using assms(1) by (simp add: removed_def)
  have way: "on_way (heap s') v p n q \<longleftrightarrow> on_way (heap s) v p n q" for v n q
    unfolding on_way_def walk_same [OF links] Contains_same [OF links] ..
  have h: "heap s' q = heap s q \<or> q \<in> X \<and> heap s' q = map_option (\<lambda>b. b\<lparr>nStatus := nStatus b OR BLOCK_FAILED_CHILD\<rparr>) (heap s q)" for q
    using assms(1) unfolding removed_def by blast
  show ?thesis
  proof
    assume u: "usable (heap s') (chainActive s') p"
    show "usable (heap s) (chainActive s) p"
      unfolding usable_def
    proof (intro allI impI, elim conjE)
      fix n q c assume q: "on_way (heap s) (chainActive s) p n q" "heap s q = Some c"
      then obtain c' where c': "heap s' q = Some c'" "c' = c \<or> c' = c\<lparr>nStatus := nStatus c OR BLOCK_FAILED_CHILD\<rparr>"
        using h [of q] by auto
      then have "\<not> unusable c'" using u q(1) way unfolding usable_def v by blast
      then show "\<not> unusable c" using c'(2) failed_or [of c] by (auto simp: unusable_def)
    qed
  next
    assume u: "usable (heap s) (chainActive s) p"
    show "usable (heap s') (chainActive s') p"
      unfolding usable_def v
    proof (intro allI impI, elim conjE)
      fix n q c assume q: "on_way (heap s') (chainActive s) p n q" "heap s' q = Some c"
      then have q': "on_way (heap s) (chainActive s) p n q" using way by blast
      then have "q \<notin> X" using assms(2) usable_on_way [OF u] by blast
      then have "heap s q = Some c" using h [of q] q(2) by simp
      then show "\<not> unusable c" using u q' unfolding usable_def by blast
    qed
  qed
qed

lemma FindMostWorkChain_spec:
  "state_wf s \<Longrightarrow> \<exists>r s' X. FindMostWorkChain s = Some (r, s') \<and> state_wf s' \<and> removed X s s' \<and>
    (\<forall>x \<in> X. \<not> usable (heap s) (chainActive s) x) \<and>
    (case r of
       None \<Rightarrow> candidates s' = []
     | Some p \<Rightarrow> p \<in> set (candidates s') \<and> usable (heap s) (chainActive s) p \<and>
         (\<forall>c \<in> set (candidates s'). \<not> WorkComparator (heap s) p c))"
proof (induction "length (candidates s)" arbitrary: s rule: less_induct)
  case less
  let ?m = "heap s" and ?v = "chainActive s"
  have dom: "\<forall>p \<in> set (candidates s). ?m p \<noteq> None" using state_wfD(4) [OF less.prems] by fastforce
  show ?case
  proof (cases "best_candidate ?m (candidates s)")
    case None
    then have "candidates s = []" using best_candidate(1) [OF dom] by blast
    moreover have "FindMostWorkChain s = Some (None, s)" using None by (subst FindMostWorkChain.simps) simp
    ultimately show ?thesis using less.prems removed_empty [of s]
      by (intro exI [of _ None] exI [of _ s] exI [of _ "{}"]) simp
  next
    case (Some p)
    have p: "p \<in> set (candidates s)" "\<forall>c \<in> set (candidates s). \<not> WorkComparator ?m p c"
      using best_candidate(2) [OF dom Some] by auto
    obtain b where b: "?m p = Some b" "nChainTx b \<noteq> 0" using state_wfD(4) [OF less.prems p(1)] by blast
    obtain t where t: "test_path ?m ?v (Some p) = Some t"
      "case t of None \<Rightarrow> usable ?m ?v p
       | Some (q, f) \<Rightarrow> \<exists>n c. on_way ?m ?v p n q \<and> ?m q = Some c \<and> unusable c \<and> f = failed c"
      using test_path [OF less.prems b] by blast
    show ?thesis
    proof (cases t)
      case None
      then have "FindMostWorkChain s = Some (Some p, s)" using Some t(1) by (subst FindMostWorkChain.simps) simp
      then show ?thesis using less.prems removed_empty [of s] p t(2) None
        by (intro exI [of _ "Some p"] exI [of _ s] exI [of _ "{}"]) simp
    next
      case (Some y)
      obtain q f where y: "y = (q, f)" by (cases y)
      obtain n c where n: "on_way ?m ?v p n q" "?m q = Some c" "unusable c" "f = failed c" using t(2) Some y by auto
      have w: "walk ?m n p = Some q" using n(1) by (simp add: on_way_def)
      have "nChainTx c \<noteq> 0" using ancestor_facts [OF less.prems b(1) w n(2)] b(2) by simp
      then have data: "f \<or> data_missing ?m" using n(2-4) unfolding unusable_def data_missing_def by blast
      define s0 where "s0 = (if f then note_invalid p s else s)"
      have s0: "heap s0 = ?m" "removed X s0 s' = removed X s s'" for X s' by (simp_all add: s0_def)
      obtain s1 where s1: "remove_chain f q (Some p) s0 = Some s1" "removed {x. \<exists>k < n. walk ?m k p = Some x} s s1"
        using remove_chain [of s0 p b n q f] state_wfD(1) [OF less.prems] b(1) w data unfolding s0 by blast
      define X where "X = {x. \<exists>k < n. walk ?m k p = Some x} \<union> {q}"
      define s2 where "s2 = erase_candidate q s1"
      have r2: "removed X s s2" unfolding X_def s2_def by (rule removed_trans [OF s1(2) removed_erase])
      have bad: "\<not> usable ?m ?v x" if x: "x \<in> X" for x
      proof -
        obtain k where k: "k \<le> n" "walk ?m k p = Some x"
          using x w unfolding X_def by (auto intro: less_imp_le)
        then have "on_way ?m ?v x (n - k) q" using on_way_drop n(1) by blast
        then show ?thesis using n(2,3) unfolding usable_def by blast
      qed
      have Xdom: "X \<subseteq> {x. \<exists>b. ?m x = Some b \<and> nChainTx b \<noteq> 0}"
      proof
        fix x assume "x \<in> X"
        then obtain k where k: "walk ?m k p = Some x" using w unfolding X_def by auto
        then obtain d where "?m x = Some d" using walk_Some [OF state_wfD(1) [OF less.prems] b(1) k] by blast
        then show "x \<in> {x. \<exists>b. ?m x = Some b \<and> nChainTx b \<noteq> 0}"
          using ancestor_facts [OF less.prems b(1) k] b(2) by auto
      qed
      have wf2: "state_wf s2" by (rule removed_wf [OF r2 less.prems Xdom])
      have pX: "p \<in> X" unfolding X_def using w by (cases n) auto
      have c2: "candidates s2 = filter (\<lambda>c. c \<notin> X) (candidates s)" using r2 by (simp add: removed_def)
      then have len: "length (candidates s2) < length (candidates s)"
        using p(1) pX by (metis length_filter_less)
      have f: "FindMostWorkChain s = FindMostWorkChain s2"
        using \<open>best_candidate ?m (candidates s) = Some p\<close> t(1) Some y s1(1)
        by (subst FindMostWorkChain.simps) (simp add: s0_def s2_def)
      obtain r s' Y where ih: "FindMostWorkChain s2 = Some (r, s')" "state_wf s'" "removed Y s2 s'"
        "\<forall>x \<in> Y. \<not> usable (heap s2) (chainActive s2) x"
        "case r of None \<Rightarrow> candidates s' = []
         | Some p \<Rightarrow> p \<in> set (candidates s') \<and> usable (heap s2) (chainActive s2) p \<and>
             (\<forall>c \<in> set (candidates s'). \<not> WorkComparator (heap s2) p c)"
        using less.hyps [OF len wf2] by blast
      have us: "usable (heap s2) (chainActive s2) x \<longleftrightarrow> usable ?m ?v x" for x by (rule usable_removed [OF r2 bad])
      have wc: "WorkComparator (heap s2) x z \<longleftrightarrow> WorkComparator ?m x z" for x z
        using WorkComparator_same [OF removed_links [OF r2]] by simp
      have Y: "\<forall>x \<in> X \<union> Y. \<not> usable ?m ?v x" using ih(4) bad unfolding us by blast
      have r: "case r of None \<Rightarrow> candidates s' = []
         | Some p \<Rightarrow> p \<in> set (candidates s') \<and> usable ?m ?v p \<and>
             (\<forall>c \<in> set (candidates s'). \<not> WorkComparator ?m p c)"
        using ih(5) by (cases r) (simp_all add: us wc)
      show ?thesis using ih(1,2) unfolding f [symmetric]
        by (intro exI [of _ r] exI [of _ s'] exI [of _ "X \<union> Y"] conjI removed_trans [OF r2 ih(3)] Y r)
    qed
  qed
qed

text \<open>C12: \<open>FindMostWorkChain\<close> ends without a failed assertion and returns the best chain that can be used: of the
  candidates whose blocks above the active chain all have data and are not known to be invalid, the
  last one in the order of the set, or \<open>NULL\<close> when there is none.  The candidates it removes on the way and the
  blocks it marks are all unusable, and the active chain stays.\<close>

theorem FindMostWorkChain_best:
  assumes "state_wf s"
  shows "\<exists>r s'. FindMostWorkChain s = Some (r, s') \<and> state_wf s' \<and> chainActive s' = chainActive s \<and>
    (\<forall>p. usable (heap s') (chainActive s') p \<longleftrightarrow> usable (heap s) (chainActive s) p) \<and>
    set (candidates s') \<subseteq> set (candidates s) \<and>
    (\<forall>c \<in> set (candidates s). usable (heap s) (chainActive s) c \<longrightarrow> c \<in> set (candidates s')) \<and>
    (case r of
       None \<Rightarrow> \<forall>c \<in> set (candidates s). \<not> usable (heap s) (chainActive s) c
     | Some p \<Rightarrow> p \<in> set (candidates s) \<and> usable (heap s) (chainActive s) p \<and>
         (\<forall>c \<in> set (candidates s). usable (heap s) (chainActive s) c \<longrightarrow> \<not> WorkComparator (heap s) p c))"
proof -
  obtain r s' X where f: "FindMostWorkChain s = Some (r, s')" "state_wf s'" and X: "removed X s s'"
    "\<forall>x \<in> X. \<not> usable (heap s) (chainActive s) x"
    and r: "case r of None \<Rightarrow> candidates s' = []
      | Some p \<Rightarrow> p \<in> set (candidates s') \<and> usable (heap s) (chainActive s) p \<and>
         (\<forall>c \<in> set (candidates s'). \<not> WorkComparator (heap s) p c)"
    using FindMostWorkChain_spec [OF assms] by blast
  have c: "set (candidates s') = {c \<in> set (candidates s). c \<notin> X}" "chainActive s' = chainActive s"
    using X(1) by (auto simp: removed_def)
  have kept: "\<forall>c \<in> set (candidates s). usable (heap s) (chainActive s) c \<longrightarrow> c \<in> set (candidates s')"
    using X(2) c(1) by blast
  have us: "\<forall>p. usable (heap s') (chainActive s') p \<longleftrightarrow> usable (heap s) (chainActive s) p"
    using usable_removed [OF X(1)] X(2) by blast
  show ?thesis
    by (rule exI [of _ r], rule exI [of _ s'])
      (use f us kept c r in \<open>auto split: option.split\<close>)
qed

text \<open>The tip is block 1; the branches above it end in 4, whose ancestor 3 has failed, and in 13.\<close>

definition sample_state :: chain_state where
  "sample_state =
     \<lparr>heap = sample_heap(3 := map_option (\<lambda>b. b\<lparr>nStatus := 43\<rparr>) (sample_heap 3)),
      mapBlockIndex = map (\<lambda>p. (word_of_nat (100 + p), p)) [0, 1, 2, 3, 4, 12, 13], chainActive = [Some 0, Some 1], candidates = [1, 2, 4, 12, 13],
      mapBlocksUnlinked = [], pindexBestInvalid = None, pindexBestHeader = Some 4, nBlockSequenceId = 1\<rparr>"

lemma sample_links: "same_links sample_heap (heap sample_state)"
  using same_links_status [of sample_heap 3 "\<lambda>b. 43"] by (simp add: sample_state_def)

lemma sample_heap_cases:
  "heap sample_state p = Some b \<Longrightarrow> b \<in> {sample_block None None 0 100, sample_block (Some 0) (Some 0) 1 101,
     sample_block (Some 1) (Some 0) 2 102, (sample_block (Some 2) (Some 1) 3 103)\<lparr>nStatus := 43\<rparr>,
     sample_block (Some 3) (Some 0) 4 104, sample_block (Some 1) (Some 0) 2 112, sample_block (Some 12) (Some 1) 3 113}"
  by (auto simp: sample_state_def sample_heap_def split: if_splits)

lemma sample_lookup [simp]:
  "heap sample_state 0 = Some (sample_block None None 0 100)"
  "heap sample_state 1 = Some (sample_block (Some 0) (Some 0) 1 101)"
  "heap sample_state (Suc 0) = Some (sample_block (Some 0) (Some 0) 1 101)"
  "heap sample_state 2 = Some (sample_block (Some 1) (Some 0) 2 102)"
  "heap sample_state 3 = Some ((sample_block (Some 2) (Some 1) 3 103)\<lparr>nStatus := 43\<rparr>)"
  "heap sample_state 4 = Some (sample_block (Some 3) (Some 0) 4 104)"
  "heap sample_state 12 = Some (sample_block (Some 1) (Some 0) 2 112)"
  "heap sample_state 13 = Some (sample_block (Some 12) (Some 1) 3 113)"
  by (simp_all add: sample_state_def sample_heap_def)

lemma sample_state_wf: "state_wf sample_state"
proof -
  have "chain_ok (heap sample_state) (chainActive sample_state)"
    by (auto simp: chain_ok_def sample_state_def sample_heap_def sample_block_def less_Suc_eq)
  moreover have "finite (dom (heap sample_state))"
    by (rule finite_subset [of _ "{0, 1, 2, 3, 4, 12, 13}"]) (auto simp: sample_state_def sample_heap_def split: if_splits)
  moreover have "nTx b = 1" "nChainWork b = nHeight b" "nChainTx b = nHeight b + 1" if "heap sample_state p = Some b" for p b
    using sample_heap_cases [OF that] by (auto simp: sample_block_def)
  moreover have i: "index_wf (heap sample_state)" by (rule index_wf_same [OF sample_links sample_wf])
  moreover have "nHeight b = Suc (nHeight c)"
    if "heap sample_state p = Some b" "pprev b = Some q" "heap sample_state q = Some c" for p b q c
    using index_wfD(2) [OF i that(1,2)] that(3) by auto
  moreover have "\<forall>p \<in> set (candidates sample_state). heap sample_state p \<noteq> None"
    by (simp add: sample_state_def sample_heap_def)
  moreover have "mapBlocksUnlinked sample_state = []" by (simp add: sample_state_def)
  ultimately show ?thesis unfolding state_wf_def by auto
qed

lemma sample_contains: "Contains (heap sample_state) (chainActive sample_state) p \<longleftrightarrow> p = 0 \<or> p = 1"
  by (auto simp: Contains_def chain_at_def sample_state_def sample_heap_def sample_block_def)

lemma sample_usable: "usable (heap sample_state) (chainActive sample_state) 13"
  "\<not> usable (heap sample_state) (chainActive sample_state) 4"
proof -
  let ?m = "heap sample_state" and ?v = "chainActive sample_state"
  have n: "\<not> on_way ?m ?v (Suc 0) n q" for n q
    using on_way_Suc [of ?m 1] by (cases n) (auto simp: sample_contains sample_block_def)
  have w: "on_way ?m ?v 12 n q \<Longrightarrow> q = 12" "on_way ?m ?v 13 n q \<Longrightarrow> q \<in> {12, 13}" for n q
  proof -
    show a: "q = 12" if "on_way ?m ?v 12 n q" for n q
      using that on_way_Suc [of ?m 12] n by (cases n) (auto simp: sample_block_def)
    show "q \<in> {12, 13}" if "on_way ?m ?v 13 n q"
      using that on_way_Suc [of ?m 13] a by (cases n) (auto simp: sample_block_def)
  qed
  have "\<not> unusable c" if "on_way ?m ?v 13 n q" "?m q = Some c" for n q c
    using w(2) [OF that(1)] that(2)
    by (auto simp: sample_block_def unusable_def failed_def have_data_def BLOCK_FAILED_MASK_def BLOCK_FAILED_VALID_def
      BLOCK_FAILED_CHILD_def BLOCK_HAVE_DATA_def)
  then show "usable ?m ?v 13" unfolding usable_def by blast
  have "on_way ?m ?v 4 1 3"
    by (auto simp: on_way_def sample_contains sample_block_def le_Suc_eq)
  moreover have "unusable ((sample_block (Some 2) (Some 1) 3 103)\<lparr>nStatus := 43\<rparr>)"
    by (simp add: unusable_def failed_def BLOCK_FAILED_MASK_def BLOCK_FAILED_VALID_def BLOCK_FAILED_CHILD_def)
  ultimately show "\<not> usable ?m ?v 4" unfolding usable_def using sample_lookup(5) by blast
qed

lemma FindMostWorkChain_best_witness: "\<exists>s'. FindMostWorkChain sample_state = Some (Some 13, s') \<and> state_wf s'"
proof -
  obtain r s' where f: "FindMostWorkChain sample_state = Some (r, s')" "state_wf s'"
    and r: "case r of None \<Rightarrow> \<forall>c \<in> set (candidates sample_state). \<not> usable (heap sample_state) (chainActive sample_state) c
      | Some p \<Rightarrow> p \<in> set (candidates sample_state) \<and> usable (heap sample_state) (chainActive sample_state) p \<and>
         (\<forall>c \<in> set (candidates sample_state). usable (heap sample_state) (chainActive sample_state) c \<longrightarrow>
            \<not> WorkComparator (heap sample_state) p c)"
    using FindMostWorkChain_best [OF sample_state_wf] by blast
  have c: "set (candidates sample_state) = {1, 2, 4, 12, 13}" by (auto simp: sample_state_def)
  have w: "WorkComparator (heap sample_state) p 13" if "p \<in> {1, 2, 12}" for p
    using that by (auto simp: WorkComparator_def sample_block_def)
  have "r = Some 13"
  proof (cases r)
    case None
    then show ?thesis using r sample_usable(1) unfolding c by simp
  next
    case (Some p)
    then show ?thesis using r sample_usable w unfolding c by auto
  qed
  then show ?thesis using f by blast
qed

end
