(* ===== verification/ActivateChain.thy ===== *)
theory ActivateChain
  imports BestChain
begin

text \<open>
  What \<open>ActivateBestChain\<close> achieves (src/src/main.cpp): it ends and leaves the best valid block as the
  tip.  The blocks that can be part of the active chain (\<open>good\<close>) do not change while it runs, the best
  of them stays a candidate, and each step connects more work or finds one more invalid block.
\<close>

section \<open>Good blocks\<close>

text \<open>All blocks up to \<open>p\<close> have data, have not failed, and would connect.\<close>

definition good :: "block_results \<Rightarrow> block_heap \<Rightarrow> ptr \<Rightarrow> bool" where
  "good R m p \<longleftrightarrow> (\<forall>n q. walk m n p = Some q \<longrightarrow>
     (\<exists>c. m q = Some c \<and> \<not> unusable c \<and> nChainTx c \<noteq> 0 \<and> connect_result_of R q = Connected))"

lemma goodD: "good R m p \<Longrightarrow> \<exists>c. m p = Some c \<and> \<not> unusable c \<and> nChainTx c \<noteq> 0 \<and> connect_result_of R p = Connected"
  unfolding good_def by (metis walk.simps(1))

lemma good_walk: "good R m p \<Longrightarrow> walk m n p = Some q \<Longrightarrow> good R m q"
  unfolding good_def using walk_after by metis

lemma good_step:
  assumes "m p = Some b" and "\<not> unusable b" and "nChainTx b \<noteq> 0" and "connect_result_of R p = Connected"
    and "\<And>q. pprev b = Some q \<Longrightarrow> good R m q"
  shows "good R m p"
  unfolding good_def
proof (intro allI impI)
  fix n q assume w: "walk m n p = Some q"
  show "\<exists>c. m q = Some c \<and> \<not> unusable c \<and> nChainTx c \<noteq> 0 \<and> connect_result_of R q = Connected"
  proof (cases n)
    case 0
    then show ?thesis using w assms by simp
  next
    case (Suc k)
    then obtain r where "pprev b = Some r" "walk m k r = Some q" using w assms(1) by (auto split: option.splits)
    then show ?thesis using assms(5) unfolding good_def by blast
  qed
qed

lemma good_usable: "good R m p \<Longrightarrow> usable m v p"
  unfolding usable_def on_way_def good_def by fastforce

text \<open>Marking other blocks as failed does not change which blocks are good.\<close>

lemma good_change:
  assumes "same_links m m'" and "\<And>q. good R m q \<Longrightarrow> m' q = m q"
    and "\<And>q c c'. m q = Some c \<Longrightarrow> m' q = Some c' \<Longrightarrow> \<not> unusable c' \<Longrightarrow> \<not> unusable c"
  shows "good R m' p \<longleftrightarrow> good R m p"
proof
  assume g: "good R m p"
  then have "m' q = m q" if "walk m n p = Some q" for n q using that good_walk assms(2) by blast
  then show "good R m' p" using g unfolding good_def walk_same [OF assms(1), symmetric] by metis
next
  assume g: "good R m' p"
  show "good R m p"
    unfolding good_def
  proof (intro allI impI)
    fix n q assume "walk m n p = Some q"
    then obtain c' where c': "m' q = Some c'" "\<not> unusable c'" "nChainTx c' \<noteq> 0" "connect_result_of R q = Connected"
      using g unfolding good_def walk_same [OF assms(1), symmetric] by blast
    obtain c where c: "m q = Some c" "nChainTx c = nChainTx c'" using same_linksD [OF same_links_sym [OF assms(1)] c'(1)] by blast
    show "\<exists>c. m q = Some c \<and> \<not> unusable c \<and> nChainTx c \<noteq> 0 \<and> connect_result_of R q = Connected"
      using c c' assms(3) [OF c(1) c'(1,2)] by auto
  qed
qed

text \<open>Setting failure bits.\<close>

definition failure_bits :: "32 word \<Rightarrow> bool" where
  "failure_bits x \<longleftrightarrow> x AND NOT BLOCK_FAILED_MASK = 0"

lemma failure_bits [simp]: "failure_bits 0" "failure_bits BLOCK_FAILED_CHILD" "failure_bits BLOCK_FAILED_VALID"
  by (simp_all add: failure_bits_def BLOCK_FAILED_MASK_def BLOCK_FAILED_CHILD_def BLOCK_FAILED_VALID_def)

lemma failure_bits_or: "failure_bits x \<Longrightarrow> failure_bits y \<Longrightarrow> failure_bits (x OR y)"
  by (simp add: failure_bits_def bit.conj_disj_distrib2)

lemma failure_bits_other:
  assumes "failure_bits x" and "y AND BLOCK_FAILED_MASK = 0"
  shows "x AND y = 0"
proof (rule bit_eqI)
  fix n assume "possible_bit TYPE(32 word) n"
  then have n: "n < 32" by simp
  have "\<not> bit (x AND NOT BLOCK_FAILED_MASK) n" "\<not> bit (y AND BLOCK_FAILED_MASK) n"
    using assms by (simp_all only: failure_bits_def bit_0_eq bot_apply bot_bool_def not_False_eq_True)
  then show "bit (x AND y) n = bit (0 :: 32 word) n" using n by (auto simp: bit_and_iff bit_not_iff)
qed

lemma failure_bits_keep:
  assumes "failure_bits x"
  shows "have_data (b\<lparr>nStatus := nStatus b OR x\<rparr>) = have_data b"
    and "nStatus (b\<lparr>nStatus := nStatus b OR x\<rparr>) AND BLOCK_VALID_MASK = nStatus b AND BLOCK_VALID_MASK"
proof -
  have "x AND BLOCK_HAVE_DATA = 0" "x AND BLOCK_VALID_MASK = 0"
    by (rule failure_bits_other [OF assms], simp add: BLOCK_FAILED_MASK_def BLOCK_FAILED_CHILD_def BLOCK_FAILED_VALID_def
      BLOCK_HAVE_DATA_def BLOCK_VALID_MASK_def)+
  then show "have_data (b\<lparr>nStatus := nStatus b OR x\<rparr>) = have_data b"
    "nStatus (b\<lparr>nStatus := nStatus b OR x\<rparr>) AND BLOCK_VALID_MASK = nStatus b AND BLOCK_VALID_MASK"
    by (simp_all add: have_data_def bit.conj_disj_distrib2)
qed

lemma unusable_or: "failure_bits x \<Longrightarrow> unusable b \<Longrightarrow> unusable (b\<lparr>nStatus := nStatus b OR x\<rparr>)"
  using failed_or [of b x] by (auto simp: unusable_def failure_bits_keep)

text \<open>Heaps that differ in more failure bits only.\<close>

definition failures_added :: "block_heap \<Rightarrow> block_heap \<Rightarrow> bool" where
  "failures_added m m' \<longleftrightarrow>
     (\<forall>q. \<exists>x. failure_bits x \<and> m' q = map_option (\<lambda>b. b\<lparr>nStatus := nStatus b OR x\<rparr>) (m q))"

lemma failures_added_refl [simp]: "failures_added m m"
  unfolding failures_added_def by (auto intro!: exI [of _ 0] simp: option.map_ident)

lemma failures_added_trans:
  assumes "failures_added m m'" and "failures_added m' m''"
  shows "failures_added m m''"
  unfolding failures_added_def
proof
  fix q
  obtain x y where "failure_bits x" "m' q = map_option (\<lambda>b. b\<lparr>nStatus := nStatus b OR x\<rparr>) (m q)"
    "failure_bits y" "m'' q = map_option (\<lambda>b. b\<lparr>nStatus := nStatus b OR y\<rparr>) (m' q)"
    using assms unfolding failures_added_def by meson
  then show "\<exists>x. failure_bits x \<and> m'' q = map_option (\<lambda>b. b\<lparr>nStatus := nStatus b OR x\<rparr>) (m q)"
    by (intro exI [of _ "x OR y"]) (simp add: option.map_comp comp_def or.assoc failure_bits_or)
qed

lemma failures_added_one:
  assumes "failure_bits x"
  shows "failures_added m (m(p := map_option (\<lambda>b. b\<lparr>nStatus := nStatus b OR x\<rparr>) (m p)))"
  unfolding failures_added_def
proof
  fix q
  show "\<exists>x'. failure_bits x' \<and> (m(p := map_option (\<lambda>b. b\<lparr>nStatus := nStatus b OR x\<rparr>) (m p))) q =
      map_option (\<lambda>b. b\<lparr>nStatus := nStatus b OR x'\<rparr>) (m q)"
  proof (cases "q = p")
    case True
    then show ?thesis using assms by (intro exI [of _ x]) simp
  next
    case False
    then show ?thesis by (intro exI [of _ 0]) (simp add: option.map_ident)
  qed
qed

lemma failures_added_links:
  assumes "failures_added m m'"
  shows "same_links m m'"
  unfolding same_links_def
proof
  fix q
  obtain x where "m' q = map_option (\<lambda>b. b\<lparr>nStatus := nStatus b OR x\<rparr>) (m q)" using assms unfolding failures_added_def by blast
  then show "map_option (\<lambda>b. b\<lparr>nStatus := 0\<rparr>) (m q) = map_option (\<lambda>b. b\<lparr>nStatus := 0\<rparr>) (m' q)" by (cases "m q") auto
qed

lemma removed_failures:
  assumes "removed X s s'"
  shows "failures_added (heap s) (heap s')"
  unfolding failures_added_def
proof
  fix q
  have "heap s' q = heap s q \<or> heap s' q = map_option (\<lambda>b. b\<lparr>nStatus := nStatus b OR BLOCK_FAILED_CHILD\<rparr>) (heap s q)"
    using assms unfolding removed_def by blast
  then show "\<exists>x. failure_bits x \<and> heap s' q = map_option (\<lambda>b. b\<lparr>nStatus := nStatus b OR x\<rparr>) (heap s q)"
    by (elim disjE) (rule exI [of _ 0], simp add: option.map_ident, rule exI [of _ BLOCK_FAILED_CHILD], simp)
qed

lemma good_removed:
  assumes "removed X s s'" and "\<forall>x \<in> X. \<not> usable (heap s) (chainActive s) x"
  shows "good R (heap s') p \<longleftrightarrow> good R (heap s) p"
proof (rule good_change [OF removed_links [OF assms(1)]])
  have h: "heap s' q = heap s q \<or> q \<in> X \<and> heap s' q = map_option (\<lambda>b. b\<lparr>nStatus := nStatus b OR BLOCK_FAILED_CHILD\<rparr>) (heap s q)" for q
    using assms(1) unfolding removed_def by blast
  show "heap s' q = heap s q" if "good R (heap s) q" for q
    using h [of q] assms(2) good_usable [OF that] by blast
  show "\<not> unusable c" if "heap s q = Some c" "heap s' q = Some c'" "\<not> unusable c'" for q c c'
    using h [of q] that unusable_or [of BLOCK_FAILED_CHILD c] by auto
qed

section \<open>The invariant of the activation\<close>

definition unfailed :: "block_heap \<Rightarrow> ptr set" where
  "unfailed m = {p. \<exists>b. m p = Some b \<and> \<not> failed b}"

definition one_root :: "block_heap \<Rightarrow> bool" where
  "one_root m \<longleftrightarrow> (\<forall>p b q c. m p = Some b \<and> pprev b = None \<and> m q = Some c \<and> pprev c = None \<longrightarrow> p = q)"

text \<open>Blocks are valid or not, and storage works.\<close>

definition reliable :: "block_results \<Rightarrow> bool" where
  "reliable R \<longleftrightarrow> final_flush_works R \<and>
     (\<forall>p. disconnect_works R p \<and> connect_result_of R p \<in> {Connected, Invalid_block False})"

definition best_good :: "block_results \<Rightarrow> block_heap \<Rightarrow> ptr \<Rightarrow> bool" where
  "best_good R m g \<longleftrightarrow> good R m g \<and> (\<forall>p. good R m p \<longrightarrow> \<not> WorkComparator m g p)"

text \<open>What the activation keeps of a state.\<close>

definition keeps :: "chain_state \<Rightarrow> chain_state \<Rightarrow> bool" where
  "keeps s s' \<longleftrightarrow> failures_added (heap s) (heap s') \<and> mapBlockIndex s' = mapBlockIndex s \<and>
     nBlockSequenceId s' = nBlockSequenceId s \<and> (mapBlocksUnlinked s' = mapBlocksUnlinked s \<or> data_missing (heap s))"

lemma keeps_links: "keeps s s' \<Longrightarrow> same_links (heap s) (heap s')"
  using failures_added_links by (simp add: keeps_def)

lemma failures_added_missing:
  assumes "failures_added m m'" and "data_missing m'"
  shows "data_missing m"
proof -
  obtain q c where q: "m' q = Some c" "nChainTx c \<noteq> 0" "\<not> have_data c" using assms(2) unfolding data_missing_def by blast
  obtain x where x: "failure_bits x" "m' q = map_option (\<lambda>b. b\<lparr>nStatus := nStatus b OR x\<rparr>) (m q)"
    using assms(1) unfolding failures_added_def by blast
  obtain b where b: "m q = Some b" "c = b\<lparr>nStatus := nStatus b OR x\<rparr>" using x(2) q(1) by (cases "m q") auto
  then have "nChainTx b \<noteq> 0" "\<not> have_data b" using q(2,3) failure_bits_keep(1) [OF x(1), of b] by auto
  then show ?thesis using b(1) unfolding data_missing_def by blast
qed

lemma keeps_refl: "keeps s s"
  by (simp add: keeps_def)

lemma keeps_trans: "keeps s s' \<Longrightarrow> keeps s' s'' \<Longrightarrow> keeps s s''"
  using failures_added_trans [of "heap s" "heap s'" "heap s''"] failures_added_missing [of "heap s" "heap s'"]
  unfolding keeps_def by auto

lemma removed_keeps: "removed X s s' \<Longrightarrow> keeps s s'"
  using removed_failures unfolding keeps_def removed_def by blast

lemma keeps_update: "keeps s (s\<lparr>chainActive := v\<rparr>)" "keeps s (s\<lparr>candidates := cs\<rparr>)"
  by (simp_all add: keeps_def)

lemma keeps_note [simp]: "keeps s (note_invalid p s') = keeps s s'"
proof -
  have "mapBlockIndex (note_invalid p s') = mapBlockIndex s'" "nBlockSequenceId (note_invalid p s') = nBlockSequenceId s'"
    "mapBlocksUnlinked (note_invalid p s') = mapBlocksUnlinked s'"
    by (auto simp: note_invalid_def split: option.split)
  then show ?thesis by (simp add: keeps_def)
qed

text \<open>\<open>s0\<close> is the state at the start, \<open>g\<close> the best good block.\<close>

definition activating :: "block_results \<Rightarrow> chain_state \<Rightarrow> ptr \<Rightarrow> chain_state \<Rightarrow> bool" where
  "activating R s0 g s \<longleftrightarrow> state_wf s \<and> keeps s0 s \<and> one_root (heap s0) \<and> best_good R (heap s0) g \<and>
     (\<forall>p. good R (heap s) p \<longleftrightarrow> good R (heap s0) p) \<and> g \<in> set (candidates s) \<and>
     (\<forall>t. Tip (chainActive s) = Some t \<longrightarrow> good R (heap s0) t)"

lemma activatingD:
  assumes "activating R s0 g s"
  shows "state_wf s" and "same_links (heap s0) (heap s)" and "one_root (heap s0)" and "best_good R (heap s0) g"
    and "good R (heap s) p \<longleftrightarrow> good R (heap s0) p" and "g \<in> set (candidates s)"
    and "Tip (chainActive s) = Some t \<Longrightarrow> good R (heap s0) t" and "keeps s0 s"
  using assms keeps_links unfolding activating_def by blast+

section \<open>Moving the tip\<close>

lemma Tip_path [simp]: "Tip (path m p h) = Some p"
proof -
  have "path m p h \<noteq> []" by (simp add: path_def)
  then show ?thesis by (simp add: Tip_def)
qed

lemma Tip_lookup:
  assumes "chain_ok m v" and "Tip v = Some p"
  shows "\<exists>b. m p = Some b \<and> v = path m p (nHeight b)"
proof -
  have n: "v \<noteq> []" "v ! (length v - 1) = Some p" using assms(2) by (auto simp: Tip_def split: if_splits)
  then obtain b where "m p = Some b" "nHeight b = length v - 1"
    using assms(1) unfolding chain_ok_def by (metis diff_less length_greater_0_conv option.inject zero_less_one)
  then show ?thesis using chain_ok_path [OF assms] by auto
qed

lemma UpdateTip_path:
  assumes "state_wf s" and "heap s p = Some b"
  shows "UpdateTip (Some p) s = Some (s\<lparr>chainActive := path (heap s) p (nHeight b)\<rparr>)"
  using SetTip_path [OF state_wfD(1,3) [OF assms(1)] assms(2)] by (simp add: UpdateTip_def)

lemma state_wf_path:
  assumes "state_wf s" and "heap s p = Some b"
  shows "state_wf (s\<lparr>chainActive := path (heap s) p (nHeight b)\<rparr>)"
  by (rule state_wf_same [OF assms(1)])
    (use path_ok [OF state_wfD(1) [OF assms(1)] assms(2)] state_wfD(8) [OF assms(1)] in auto)

lemma disconnect_to_ancestor:
  assumes "\<forall>p. disconnect_works R p"
  shows "state_wf s \<Longrightarrow> Tip (chainActive s) = Some p \<Longrightarrow> walk (heap s) n p = Some r \<Longrightarrow> heap s r = Some c \<Longrightarrow>
    disconnect_to R (Some r) s = Some (True, s\<lparr>chainActive := path (heap s) r (nHeight c)\<rparr>)"
proof (induction n arbitrary: s p)
  case 0
  then have "chainActive s = path (heap s) r (nHeight c)"
    using Tip_lookup [OF state_wfD(3) [OF 0(1)], of r] by auto
  moreover have "disconnect_to R (Some r) s = Some (True, s)" using 0(2,3) by (subst disconnect_to.simps) simp
  ultimately show ?case by (metis chain_state.surjective chain_state.update_convs(3))
next
  case (Suc n)
  note wf = state_wfD(1) [OF Suc.prems(1)]
  obtain b where b: "heap s p = Some b" using Tip_lookup [OF state_wfD(3) [OF Suc.prems(1)] Suc.prems(2)] by blast
  obtain q where q: "pprev b = Some q" "walk (heap s) n q = Some r" using Suc.prems(3) b by (auto split: option.splits)
  obtain d where d: "heap s q = Some d" using index_wfD(2) [OF wf b q(1)] by blast
  have "p \<noteq> r" using walk_Some [OF wf b Suc.prems(3)] b by auto
  define s1 where "s1 = s\<lparr>chainActive := path (heap s) q (nHeight d)\<rparr>"
  have "DisconnectTip R s = Some (True, s1)"
    using assms Suc.prems(2) b q(1) UpdateTip_path [OF Suc.prems(1) d] by (simp add: DisconnectTip_def s1_def)
  then have "disconnect_to R (Some r) s = disconnect_to R (Some r) s1"
    using Suc.prems(2) \<open>p \<noteq> r\<close> by (subst disconnect_to.simps) simp
  also have "\<dots> = Some (True, s1\<lparr>chainActive := path (heap s1) r (nHeight c)\<rparr>)"
    by (rule Suc.IH [of _ q]) (use state_wf_path [OF Suc.prems(1) d] q(2) Suc.prems(4) in \<open>simp_all add: s1_def\<close>)
  finally show ?case by (simp add: s1_def)
qed

text \<open>The fork with another block.\<close>

lemma root_of:
  assumes "index_wf m" and "m p = Some b"
  shows "\<exists>q c. walk m (nHeight b) p = Some q \<and> m q = Some c \<and> pprev c = None"
proof -
  obtain q c where q: "walk m (nHeight b) p = Some q" "m q = Some c" "nHeight c = 0"
    using walk_height [OF assms order_refl] by auto
  then have "pprev c = None" using index_wfD(2) [OF assms(1) q(2)] by (cases "pprev c") auto
  then show ?thesis using q by blast
qed

lemma fork_exists:
  assumes "state_wf s" and "one_root (heap s)" and "heap s p = Some b" and "Tip (chainActive s) = Some t"
  shows "\<exists>r n k c. FindFork (heap s) (chainActive s) p = Some (Some r) \<and> heap s r = Some c \<and>
    walk (heap s) n p = Some r \<and> walk (heap s) k t = Some r \<and>
    (\<forall>i q. i < n \<and> walk (heap s) i p = Some q \<longrightarrow> \<not> Contains (heap s) (chainActive s) q)"
proof -
  let ?m = "heap s" and ?v = "chainActive s"
  note wf = state_wfD(1) [OF assms(1)] and ok = state_wfD(3) [OF assms(1)]
  obtain d where d: "?m t = Some d" "?v = path ?m t (nHeight d)" using Tip_lookup [OF ok assms(4)] by blast
  have t: "Contains ?m ?v t" using Contains_iff [OF ok d(1)] d(2) by simp
  obtain x y where x: "walk ?m (nHeight d) t = Some x" "?m x = Some y" "pprev y = None" using root_of [OF wf d(1)] by blast
  have root: "Contains ?m ?v x" using Contains_walk [OF wf ok d(1) t, of "nHeight d"] x(1) by auto
  obtain x' y' where x': "walk ?m (nHeight b) p = Some x'" "?m x' = Some y'" "pprev y' = None" using root_of [OF wf assms(3)] by blast
  have "x' = x" using assms(2) x(2,3) x'(2,3) unfolding one_root_def by blast
  then have "walk ?m (nHeight b) p = Some x" using x'(1) by simp
  moreover obtain w where w: "FindFork ?m ?v p = Some w"
    "case w of None \<Rightarrow> \<forall>n q. walk ?m n p = Some q \<longrightarrow> \<not> Contains ?m ?v q
     | Some q \<Rightarrow> \<exists>n. walk ?m n p = Some q \<and> Contains ?m ?v q \<and> (\<forall>k q'. k < n \<and> walk ?m k p = Some q' \<longrightarrow> \<not> Contains ?m ?v q')"
    using FindFork_eq [OF wf ok assms(3)] by blast
  ultimately obtain r where r': "w = Some r" using root by (cases w) auto
  then obtain n where r: "FindFork ?m ?v p = Some (Some r)" "walk ?m n p = Some r" "Contains ?m ?v r"
    "\<forall>k q'. k < n \<and> walk ?m k p = Some q' \<longrightarrow> \<not> Contains ?m ?v q'"
    using w by auto
  obtain c where c: "?m r = Some c" using walk_Some [OF wf assms(3) r(2)] by blast
  then have "?v ! nHeight c = Some r" "nHeight c < length ?v" using Contains_iff [OF ok c] r(3) by auto
  then have "walk ?m (nHeight d - nHeight c) t = Some r" using d(2) by simp
  then show ?thesis using r c by blast
qed

section \<open>Connecting blocks\<close>

text \<open>A list of blocks, each on top of the one before.\<close>

fun stacked :: "block_heap \<Rightarrow> ptr option \<Rightarrow> ptr list \<Rightarrow> bool" where
  "stacked m t [] \<longleftrightarrow> True"
| "stacked m t (p # ps) \<longleftrightarrow> (\<exists>b. m p = Some b \<and> pprev b = t \<and> nChainTx b \<noteq> 0 \<and> \<not> unusable b) \<and> stacked m (Some p) ps"

lemma walk_Suc_last:
  "walk m n p = Some q \<Longrightarrow> m q = Some c \<Longrightarrow> walk m (Suc n) p = pprev c"
  using walk_after [of m n p q 1] by (simp split: option.split)

lemma blocks_above:
  assumes "index_wf m" and "-1 \<le> h"
  shows "m p = Some b \<Longrightarrow> int (nHeight b) = h + int n \<Longrightarrow>
    blocks_above m h (Some p) acc = Some (acc @ map (\<lambda>k. the (walk m k p)) [0..<n])"
proof (induction n arbitrary: p b acc)
  case 0
  then show ?case by (subst blocks_above.simps) simp
next
  case (Suc n)
  have u: "map (\<lambda>k. the (walk m k p)) [0..<Suc n] = p # map (\<lambda>k. the (walk m (Suc k) p)) [0..<n]"
    unfolding upt_conv_Cons [OF zero_less_Suc] by (simp add: map_Suc_upt [symmetric] del: upt_Suc walk.simps(2))
  have s: "blocks_above m h (Some p) acc = blocks_above m h (pprev b) (acc @ [p])"
    using Suc.prems by (subst blocks_above.simps) simp
  show ?case
  proof (cases "pprev b")
    case None
    then have "n = 0" using index_wfD(1) [OF assms(1) Suc.prems(1)] Suc.prems(2) assms(2) by auto
    then show ?thesis using s None by (simp add: blocks_above.simps [of m h None])
  next
    case (Some q)
    then obtain c where c: "m q = Some c" "nHeight b = Suc (nHeight c)" using index_wfD(2) [OF assms(1) Suc.prems(1)] by blast
    have "map (\<lambda>k. the (walk m (Suc k) p)) [0..<n] = map (\<lambda>k. the (walk m k q)) [0..<n]"
      using Suc.prems(1) Some by simp
    then show ?thesis using Suc.IH [OF c(1), of "acc @ [p]"] Suc.prems(2) c(2) s u Some by (simp del: upt_Suc)
  qed
qed

lemma stacked_ancestors:
  assumes "index_wf m" and "m p = Some b" and "n \<le> Suc (nHeight b)"
    and "\<And>k q c. k < n \<Longrightarrow> walk m k p = Some q \<Longrightarrow> m q = Some c \<Longrightarrow> nChainTx c \<noteq> 0 \<and> \<not> unusable c"
  shows "stacked m (walk m n p) (map (\<lambda>k. the (walk m k p)) (rev [0..<n]))"
  using assms(3,4)
proof (induction n)
  case (Suc n)
  obtain q c where q: "walk m n p = Some q" "m q = Some c"
    using walk_height [OF assms(1,2), of n] Suc.prems(1) by auto
  have "stacked m (walk m n p) (map (\<lambda>k. the (walk m k p)) (rev [0..<n]))"
    using Suc.IH Suc.prems by (meson Suc_leD less_SucI)
  then show ?case using q Suc.prems(2) [OF lessI q] walk_Suc_last [OF q] by simp
qed simp

text \<open>One block.\<close>

lemma InvalidBlockFound_activating:
  assumes "activating R s0 g s" and "heap s p = Some b" and "\<not> failed b" and "connect_result_of R p \<noteq> Connected"
    and "Tip (chainActive s) \<noteq> None"
  shows "\<exists>s'. InvalidBlockFound False p s = Some s' \<and> activating R s0 g s' \<and> chainActive s' = chainActive s \<and>
    unfailed (heap s') \<subset> unfailed (heap s)"
proof -
  note a = activatingD [OF assms(1)]
  define s1 where "s1 = erase_candidate p (update_block p (\<lambda>b. b\<lparr>nStatus := nStatus b OR BLOCK_FAILED_VALID\<rparr>) s)"
  have h1: "heap s1 = (heap s)(p := map_option (\<lambda>b. b\<lparr>nStatus := nStatus b OR BLOCK_FAILED_VALID\<rparr>) (heap s p))"
    "chainActive s1 = chainActive s" "set (candidates s1) = set (candidates s) - {p}" "mapBlocksUnlinked s1 = mapBlocksUnlinked s"
    by (simp_all add: s1_def erase_candidate_def update_block_def)
  define s' where "s' = note_invalid p s1"
  have h: "heap s' = heap s1" "chainActive s' = chainActive s1" "candidates s' = candidates s1"
    "mapBlocksUnlinked s' = mapBlocksUnlinked s1"
    by (auto simp: s'_def note_invalid_def split: option.split)
  have links: "same_links (heap s) (heap s')" unfolding h h1 by (rule same_links_status)
  have ng: "\<not> good R (heap s) p" using goodD [of R "heap s" p] assms(4) by blast
  have good: "good R (heap s') q \<longleftrightarrow> good R (heap s) q" for q
  proof (rule good_change [OF links])
    show "heap s' q = heap s q" if "good R (heap s) q" for q using that ng h h1 by auto
    show "\<not> unusable c" if "heap s q = Some c" "heap s' q = Some c'" "\<not> unusable c'" for q c c'
      using that unusable_or [of BLOCK_FAILED_VALID c] unfolding h h1 by (auto split: if_splits)
  qed
  have wf: "state_wf s'"
    by (rule state_wf_same [OF a(1) links])
      (use state_wfD(3,8) [OF a(1)] h h1 in auto)
  have "g \<noteq> p" using ng a(4,5) unfolding best_good_def by blast
  have "keeps s s1" using failures_added_one [of BLOCK_FAILED_VALID "heap s" p]
    by (simp add: keeps_def s1_def erase_candidate_def update_block_def)
  then have "keeps s0 s'" using keeps_trans [OF a(8)] by (simp add: s'_def)
  then have "activating R s0 g s'"
    using \<open>g \<noteq> p\<close> a wf good h h1 unfolding activating_def by auto
  moreover have "unfailed (heap s') \<subset> unfailed (heap s)"
  proof (rule psubsetI)
    show "unfailed (heap s') \<subseteq> unfailed (heap s)"
      using failed_or [where x = BLOCK_FAILED_VALID] unfolding h h1 unfailed_def by (auto split: if_splits)
    have "p \<in> unfailed (heap s)" using assms(2,3) by (auto simp: unfailed_def)
    moreover have "p \<notin> unfailed (heap s')"
      using assms(2) unfolding h h1 unfailed_def
      by (simp add: failed_def BLOCK_FAILED_MASK_def bit.conj_disj_distrib bit.conj_disj_distrib2 or_eq_0_iff BLOCK_FAILED_VALID_def)
    ultimately show "unfailed (heap s') \<noteq> unfailed (heap s)" by blast
  qed
  moreover have "InvalidBlockFound False p s = Some s'"
    using assms(5) h1(2) by (auto simp: InvalidBlockFound_def InvalidChainFound_def s'_def s1_def)
  ultimately show ?thesis using h h1 by auto
qed

lemma root_good:
  assumes "activating R s0 g s" and "heap s p = Some b" and "pprev b = None"
  shows "connect_result_of R p = Connected"
proof -
  note a = activatingD [OF assms(1)]
  have g: "good R (heap s0) g" using a(4) by (simp add: best_good_def)
  obtain c where c: "(heap s0) g = Some c" using goodD [OF g] by blast
  obtain x y where x: "walk (heap s0) (nHeight c) g = Some x" "(heap s0) x = Some y" "pprev y = None"
    using root_of [OF index_wf_same [OF same_links_sym [OF a(2)] state_wfD(1) [OF a(1)]] c] by blast
  obtain b' where b': "(heap s0) p = Some b'" "pprev b' = pprev b" using same_linksD [OF same_links_sym [OF a(2)] assms(2)] by blast
  have "x = p" using a(3) x(2,3) b' assms(3) unfolding one_root_def by metis
  then show ?thesis using goodD [OF good_walk [OF g x(1)]] by blast
qed

lemma connect_one:
  assumes "activating R s0 g s" and "heap s p = Some b" and "pprev b = Tip (chainActive s)" and "nChainTx b \<noteq> 0"
    and "\<not> unusable b" and "connect_result_of R p = Connected"
  shows "\<exists>s' s''. ConnectTip R p s = Some (Connected, s') \<and> PruneBlockIndexCandidates s' = Some s'' \<and>
    activating R s0 g s'' \<and> heap s'' = heap s \<and> Tip (chainActive s'') = Some p"
proof -
  note a = activatingD [OF assms(1)]
  define s' where "s' = s\<lparr>chainActive := path (heap s) p (nHeight b)\<rparr>"
  define s'' where "s'' = s'\<lparr>candidates := filter (\<lambda>q. \<not> WorkComparator (heap s) q p) (candidates s)\<rparr>"
  have c: "ConnectTip R p s = Some (Connected, s')"
    using UpdateTip_path [OF a(1) assms(2)] assms by (simp add: ConnectTip_def s'_def)
  have "good R (heap s) p"
    by (rule good_step [of "heap s" p b, OF assms(2,5,4,6)]) (use a(5,7) assms(3) in auto)
  then have gp: "good R (heap s0) p" using a(5) by blast
  then have "\<not> WorkComparator (heap s) g p" using a(4) WorkComparator_same [OF a(2)] by (auto simp: best_good_def)
  then have g: "g \<in> set (candidates s'')" using a(6) by (simp add: s''_def)
  then have "PruneBlockIndexCandidates s' = Some s''"
    by (auto simp: PruneBlockIndexCandidates_def Let_def s'_def s''_def filter_empty_conv)
  moreover have "state_wf s''"
    by (rule state_wf_same [OF state_wf_path [OF a(1) assms(2)]])
      (use path_ok [OF state_wfD(1) [OF a(1)] assms(2)] state_wfD(8) [OF a(1)] in \<open>auto simp: s'_def s''_def\<close>)
  moreover have "heap s'' = heap s" "Tip (chainActive s'') = Some p" by (simp_all add: s'_def s''_def)
  moreover have "keeps s0 s''"
    using keeps_trans [OF a(8) keeps_trans [OF keeps_update(1) keeps_update(2)]] unfolding s''_def s'_def by blast
  ultimately show ?thesis using c a(2-5) g gp unfolding activating_def by (intro exI conjI) simp_all
qed

lemma note_fields [simp]:
  "chainActive (note_invalid p s) = chainActive s" "candidates (note_invalid p s) = candidates s"
  "mapBlocksUnlinked (note_invalid p s) = mapBlocksUnlinked s"
  by (auto simp: note_invalid_def split: option.split)

lemma activating_note [simp]: "activating R s0 g (note_invalid p s) = activating R s0 g s"
  by (simp add: activating_def state_wf_def)

lemma connect_blocks_progress:
  assumes "reliable R"
  shows "activating R s0 g s \<Longrightarrow> stacked (heap s) (Tip (chainActive s)) ps \<Longrightarrow>
    \<exists>e s'. connect_blocks R old lowest ps s = Some (e, s') \<and> activating R s0 g s' \<and>
      (case e of
         Failed \<Rightarrow> False
       | Go_on \<Rightarrow> heap s' = heap s \<and> Tip (chainActive s') = (if ps = [] then Tip (chainActive s) else Some (last ps))
       | Stop True \<Rightarrow> unfailed (heap s') \<subset> unfailed (heap s)
       | Stop False \<Rightarrow> heap s' = heap s \<and> (Tip (chainActive s') \<noteq> None \<and> better_than (heap s') (Tip (chainActive s')) old))"
proof (induction ps arbitrary: s)
  case (Cons p ps)
  obtain b where b: "heap s p = Some b" "pprev b = Tip (chainActive s)" "nChainTx b \<noteq> 0" "\<not> unusable b"
    and st: "stacked (heap s) (Some p) ps"
    using Cons.prems(2) by auto
  show ?case
  proof (cases "connect_result_of R p = Connected")
    case True
    obtain s' s'' where c: "ConnectTip R p s = Some (Connected, s')" "PruneBlockIndexCandidates s' = Some s''"
      "activating R s0 g s''" "heap s'' = heap s" "Tip (chainActive s'') = Some p"
      using connect_one [OF Cons.prems(1) b True] by blast
    show ?thesis
    proof (cases "better_than (heap s'') (Tip (chainActive s'')) old")
      case True
      then show ?thesis using c by (intro exI [of _ "Stop False"] exI [of _ s'']) simp
    next
      case False
      then have "connect_blocks R old lowest (p # ps) s = connect_blocks R old lowest ps s''" using c by simp
      moreover obtain e t where e: "connect_blocks R old lowest ps s'' = Some (e, t)" "activating R s0 g t"
        "case e of
           Failed \<Rightarrow> False
         | Go_on \<Rightarrow> heap t = heap s'' \<and> Tip (chainActive t) = (if ps = [] then Tip (chainActive s'') else Some (last ps))
         | Stop True \<Rightarrow> unfailed (heap t) \<subset> unfailed (heap s'')
         | Stop False \<Rightarrow> heap t = heap s'' \<and> (Tip (chainActive t) \<noteq> None \<and> better_than (heap t) (Tip (chainActive t)) old)"
        using Cons.IH [OF c(3)] st c(4,5) by auto
      ultimately show ?thesis using c(4,5)
        by (intro exI [of _ e] exI [of _ t]) (auto split: step_end.split bool.splits)
    qed
  next
    case False
    then have r: "connect_result_of R p = Invalid_block False" using assms by (auto simp: reliable_def)
    have tip: "Tip (chainActive s) \<noteq> None" using root_good [OF Cons.prems(1) b(1)] b(2) False by auto
    have "\<not> failed b" using b(4) by (simp add: unusable_def)
    then obtain s' where s': "InvalidBlockFound False p s = Some s'" "activating R s0 g s'" "chainActive s' = chainActive s"
      "unfailed (heap s') \<subset> unfailed (heap s)"
      using InvalidBlockFound_activating [OF Cons.prems(1) b(1) _ False tip] by blast
    have "connect_blocks R old lowest (p # ps) s = Some (Stop True, note_invalid lowest s')"
      using b r s' tip by (auto simp: ConnectTip_def InvalidChainFound_def)
    then show ?thesis using s' by (intro exI [of _ "Stop True"] exI [of _ "note_invalid lowest s'"]) simp
  qed
qed (auto)

text \<open>All rounds.\<close>

lemma connect_rounds_progress:
  assumes "reliable R"
  shows "activating R s0 g s \<Longrightarrow> heap s p = Some b \<Longrightarrow> -1 \<le> h \<Longrightarrow> h \<le> int (nHeight b) \<Longrightarrow>
    Tip (chainActive s) = walk (heap s) (nat (int (nHeight b) - h)) p \<Longrightarrow>
    (\<And>k q c. k < nat (int (nHeight b) - h) \<Longrightarrow> walk (heap s) k p = Some q \<Longrightarrow> heap s q = Some c \<Longrightarrow> nChainTx c \<noteq> 0 \<and> \<not> unusable c) \<Longrightarrow>
    \<exists>s'. connect_rounds R old p h s = Some (True, s') \<and> activating R s0 g s' \<and>
      (unfailed (heap s') \<subset> unfailed (heap s) \<or>
       heap s' = heap s \<and> (Tip (chainActive s') = Some p \<or> (Tip (chainActive s') \<noteq> None \<and> better_than (heap s') (Tip (chainActive s')) old)))"
proof (induction "nat (int (nHeight b) - h)" arbitrary: s h rule: less_induct)
  case less
  note prems = less.prems
  note wf = state_wfD(1) [OF activatingD(1) [OF prems(1)]]
  show ?case
  proof (cases "h = int (nHeight b)")
    case True
    then have "connect_rounds R old p h s = Some (True, s)" using prems(2) by (subst connect_rounds.simps) simp
    moreover have "Tip (chainActive s) = Some p" using prems(5) True by simp
    ultimately show ?thesis using prems(1) by blast
  next
    case False
    define t where "t = min (h + 32) (int (nHeight b))"
    have t: "h < t" "t \<le> int (nHeight b)" "0 \<le> t" using False prems(3,4) by (auto simp: t_def)
    define k where "k = nHeight b - nat t"
    have k: "k = nat (int (nHeight b) - t)" "k \<le> nHeight b" using t by (auto simp: k_def)
    obtain q c where q: "walk (heap s) k p = Some q" "heap s q = Some c" "nHeight c = nat t"
      using walk_height [OF wf prems(2) k(2)] k_def t by auto
    have anc: "GetAncestor (heap s) p t = Some (Some q)"
      using GetAncestor_loop_walk [OF wf prems(2) refl, of "nat t"] t prems(2) q(1) by (simp add: GetAncestor_def k_def nat_le_iff)
    define n where "n = nat (t - h)"
    have n: "int (nHeight c) = h + int n" "n \<noteq> 0" "n \<le> Suc (nHeight c)" using t q(3) prems(3) by (auto simp: n_def)
    define l where "l = map (\<lambda>k. the (walk (heap s) k q)) [0..<n]"
    have l: "blocks_above (heap s) h (Some q) [] = Some l"
      using blocks_above [OF wf prems(3) q(2) n(1), of "[]"] by (simp add: l_def)
    have kn: "k + n = nat (int (nHeight b) - h)" using k t prems(3) by (simp add: n_def)
    have w: "walk (heap s) (k + i) p = walk (heap s) i q" for i by (rule walk_after [OF q(1)])
    have fine: "nChainTx d \<noteq> 0 \<and> \<not> unusable d" if "i < n" "walk (heap s) i q = Some x" "heap s x = Some d" for i x d
      using prems(6) [of "k + i" x d] that w [of i] kn by simp
    have "stacked (heap s) (walk (heap s) n q) (map (\<lambda>k. the (walk (heap s) k q)) (rev [0..<n]))"
      by (rule stacked_ancestors [OF wf q(2) n(3) fine])
    moreover have "Tip (chainActive s) = walk (heap s) n q" using prems(5) w [of n] kn by simp
    moreover have "rev l = map (\<lambda>k. the (walk (heap s) k q)) (rev [0..<n])" by (simp add: l_def rev_map)
    ultimately have st: "stacked (heap s) (Tip (chainActive s)) (rev l)" by simp
    have last: "rev l \<noteq> []" "last (rev l) = q" using n(2) by (simp_all add: l_def last_rev hd_map upt_conv_Cons)
    obtain e s1 where e: "connect_blocks R old (last l) (rev l) s = Some (e, s1)" "activating R s0 g s1"
      and ce: "case e of
         Failed \<Rightarrow> False
       | Go_on \<Rightarrow> heap s1 = heap s \<and> Tip (chainActive s1) = (if rev l = [] then Tip (chainActive s) else Some (last (rev l)))
       | Stop True \<Rightarrow> unfailed (heap s1) \<subset> unfailed (heap s)
       | Stop False \<Rightarrow> heap s1 = heap s \<and> (Tip (chainActive s1) \<noteq> None \<and> better_than (heap s1) (Tip (chainActive s1)) old)"
      using connect_blocks_progress [OF assms prems(1) st] by blast
    have r: "connect_rounds R old p h s =
        (case e of Failed \<Rightarrow> Some (False, s1) | Stop f \<Rightarrow> Some (True, s1) | Go_on \<Rightarrow> connect_rounds R old p t s1)"
      using prems(2) False anc l e(1) by (subst connect_rounds.simps) (simp add: t_def Let_def split: step_end.split)
    show ?thesis
    proof (cases e)
      case Go_on
      then have s1: "heap s1 = heap s" "Tip (chainActive s1) = Some q" using ce last by auto
      have "\<exists>s'. connect_rounds R old p t s1 = Some (True, s') \<and> activating R s0 g s' \<and>
        (unfailed (heap s') \<subset> unfailed (heap s1) \<or>
         heap s' = heap s1 \<and> (Tip (chainActive s') = Some p \<or> (Tip (chainActive s') \<noteq> None \<and> better_than (heap s') (Tip (chainActive s')) old)))"
      proof (rule less.hyps [OF _ e(2)])
        show "nat (int (nHeight b) - t) < nat (int (nHeight b) - h)" using t by simp
        show "Tip (chainActive s1) = walk (heap s1) (nat (int (nHeight b) - t)) p" using s1 q(1) k(1) by simp
        show "nChainTx c \<noteq> 0 \<and> \<not> unusable c"
          if "i < nat (int (nHeight b) - t)" "walk (heap s1) i p = Some x" "heap s1 x = Some c" for i x c
          using prems(6) [of i x c] that s1(1) t by simp
      qed (use prems(2) s1 t in auto)
      then show ?thesis using r Go_on s1(1) by auto
    next
      case (Stop f)
      then show ?thesis using r ce e(2) by (cases f) auto
    next
      case Failed
      then show ?thesis using ce by simp
    qed
  qed
qed

section \<open>Steps\<close>

lemma Tip_None: "chain_ok m v \<Longrightarrow> Tip v = None \<Longrightarrow> v = []"
proof (rule ccontr)
  assume ok: "chain_ok m v" and n: "Tip v = None" "v \<noteq> []"
  then have "length v - 1 < length v" by simp
  then obtain p where "v ! (length v - 1) = Some p" using ok unfolding chain_ok_def by blast
  then show False using n by (auto simp: Tip_def split: if_splits)
qed

lemma ancestors_usable:
  assumes "state_wf s" and "heap s p = Some b" and "nChainTx b \<noteq> 0" and "usable (heap s) (chainActive s) p"
    and "walk (heap s) k p = Some q" and "heap s q = Some c"
    and "\<forall>i \<le> k. \<forall>x. walk (heap s) i p = Some x \<longrightarrow> \<not> Contains (heap s) (chainActive s) x"
  shows "nChainTx c \<noteq> 0 \<and> \<not> unusable c"
proof -
  have "on_way (heap s) (chainActive s) p k q" using assms(5,7) unfolding on_way_def by blast
  then have "\<not> unusable c" using assms(4,6) unfolding usable_def by blast
  then show ?thesis using ancestor_facts [OF assms(1,2,5,6)] assms(3) by simp
qed

lemma one_root_same:
  assumes "same_links m m'" and "one_root m"
  shows "one_root m'"
proof -
  have "\<exists>b'. m p = Some b' \<and> pprev b' = None" if "m' p = Some b" "pprev b = None" for p b
    using same_linksD [OF same_links_sym [OF assms(1)] that(1)] that(2) by auto
  then show ?thesis using assms(2) unfolding one_root_def by blast
qed

lemma step_progress:
  assumes "reliable R" and "activating R s0 g s" and "heap s p = Some b" and "nChainTx b \<noteq> 0"
    and "usable (heap s) (chainActive s) p"
  shows "\<exists>s'. ActivateBestChainStep R p s = Some (True, s') \<and> activating R s0 g s' \<and>
      (unfailed (heap s') \<subset> unfailed (heap s) \<or>
       heap s' = heap s \<and> (Tip (chainActive s') = Some p \<or> (Tip (chainActive s') \<noteq> None \<and> better_than (heap s') (Tip (chainActive s')) (Tip (chainActive s)))))"
proof -
  let ?m = "heap s" and ?v = "chainActive s"
  note a = activatingD [OF assms(2)]
  note wf = state_wfD(1) [OF a(1)] and ok = state_wfD(3) [OF a(1)]
  show ?thesis
  proof (cases "Tip ?v")
    case None
    then have v: "?v = []" by (rule Tip_None [OF ok])
    then have nc: "\<not> Contains ?m ?v x" for x by (auto simp: Contains_def chain_at_def split: option.split)
    have f: "FindFork ?m ?v p = Some None" using FindFork_eq [OF wf ok assms(3)] nc by (auto split: option.splits)
    have d: "disconnect_to R None s = Some (True, s)" using None by (subst disconnect_to.simps) simp
    have "Tip ?v = walk ?m (nat (int (nHeight b) - (-1))) p"
    proof -
      obtain q c where "walk ?m (nHeight b) p = Some q" "?m q = Some c" "pprev c = None" using root_of [OF wf assms(3)] by blast
      then show ?thesis using walk_Suc_last [of ?m "nHeight b" p q c] None by (simp add: nat_add_distrib del: walk.simps)
    qed
    then have "\<exists>s'. connect_rounds R (Tip ?v) p (-1) s = Some (True, s') \<and> activating R s0 g s' \<and>
      (unfailed (heap s') \<subset> unfailed ?m \<or> heap s' = ?m \<and> (Tip (chainActive s') = Some p \<or> (Tip (chainActive s') \<noteq> None \<and> better_than (heap s') (Tip (chainActive s')) (Tip ?v))))"
      by (intro connect_rounds_progress [OF assms(1,2,3)])
        (use ancestors_usable [OF a(1) assms(3-5)] nc in auto)
    then show ?thesis using f d by (simp add: ActivateBestChainStep_def)
  next
    case (Some t)
    obtain r n k c where r: "FindFork ?m ?v p = Some (Some r)" "?m r = Some c" "walk ?m n p = Some r" "walk ?m k t = Some r"
      "\<forall>i q. i < n \<and> walk ?m i p = Some q \<longrightarrow> \<not> Contains ?m ?v q"
      using fork_exists [OF a(1) one_root_same [OF a(2,3)] assms(3) Some] by blast
    define s1 where "s1 = s\<lparr>chainActive := path ?m r (nHeight c)\<rparr>"
    have d: "disconnect_to R (Some r) s = Some (True, s1)"
      using disconnect_to_ancestor [OF _ a(1) Some r(4,2)] assms(1) by (simp add: s1_def reliable_def)
    have "good R (heap s0) r" using good_walk [of R ?m t k r] a(5) a(7) [OF Some] r(4) by blast
    then have a1: "activating R s0 g s1"
      using assms(2) state_wf_path [OF a(1) r(2)] keeps_trans [OF a(8) keeps_update(1)]
      by (simp add: activating_def s1_def)
    have n: "n \<le> nHeight b" "nHeight c = nHeight b - n" using walk_Some [OF wf assms(3) r(3)] r(2) by auto
    then have nn: "nat (int (nHeight b) - int (nHeight c)) = n" by simp
    have "\<exists>s'. connect_rounds R (Tip ?v) p (int (nHeight c)) s1 = Some (True, s') \<and> activating R s0 g s' \<and>
      (unfailed (heap s') \<subset> unfailed (heap s1) \<or>
       heap s' = heap s1 \<and> (Tip (chainActive s') = Some p \<or> (Tip (chainActive s') \<noteq> None \<and> better_than (heap s') (Tip (chainActive s')) (Tip ?v))))"
    proof (rule connect_rounds_progress [OF assms(1) a1])
      show "Tip (chainActive s1) = walk (heap s1) (nat (int (nHeight b) - int (nHeight c))) p" using nn r(3) by (simp add: s1_def)
      show "nChainTx d \<noteq> 0 \<and> \<not> unusable d"
        if "i < nat (int (nHeight b) - int (nHeight c))" "walk (heap s1) i p = Some x" "heap s1 x = Some d" for i x d
        by (rule ancestors_usable [OF a(1) assms(3-5), of i x d]) (use that r(5) nn in \<open>simp_all add: s1_def, meson le_less_trans\<close>)
    qed (use assms(3) n in \<open>auto simp: s1_def\<close>)
    then show ?thesis using r(1,2) d by (simp add: ActivateBestChainStep_def s1_def)
  qed
qed

section \<open>The whole activation\<close>

lemma WorkComparator_total: "m p = Some a \<Longrightarrow> m q = Some b \<Longrightarrow> p \<noteq> q \<Longrightarrow> WorkComparator m p q \<or> WorkComparator m q p"
  by (simp add: WorkComparator_def)

lemma best_unique:
  assumes "best_good R m g" and "good R m p" and "\<not> WorkComparator m p g"
  shows "p = g"
  using assms goodD [of R m p] goodD [of R m g] WorkComparator_total [of m p _ g] unfolding best_good_def by blast

lemma FindMostWorkChain_activating:
  assumes "activating R s0 g s"
  shows "\<exists>p b s'. FindMostWorkChain s = Some (Some p, s') \<and> activating R s0 g s' \<and> chainActive s' = chainActive s \<and>
    heap s' p = Some b \<and> nChainTx b \<noteq> 0 \<and> usable (heap s') (chainActive s') p \<and> \<not> WorkComparator (heap s0) p g \<and>
    unfailed (heap s') \<subseteq> unfailed (heap s)"
proof -
  note a = activatingD [OF assms]
  obtain r s' X where f: "FindMostWorkChain s = Some (r, s')" "state_wf s'" and X: "removed X s s'"
    "\<forall>x \<in> X. \<not> usable (heap s) (chainActive s) x"
    and r: "case r of None \<Rightarrow> candidates s' = []
      | Some p \<Rightarrow> p \<in> set (candidates s') \<and> usable (heap s) (chainActive s) p \<and>
         (\<forall>c \<in> set (candidates s'). \<not> WorkComparator (heap s) p c)"
    using FindMostWorkChain_spec [OF a(1)] by blast
  have v: "chainActive s' = chainActive s" "candidates s' = filter (\<lambda>c. c \<notin> X) (candidates s)"
    using X(1) by (simp_all add: removed_def)
  have "usable (heap s) (chainActive s) g" using a(4,5) good_usable unfolding best_good_def by blast
  then have g: "g \<in> set (candidates s')" using X(2) v(2) a(6) by auto
  then obtain p where p: "r = Some p" using r by (cases r) auto
  have cmp: "WorkComparator (heap s) x y = WorkComparator (heap s0) x y" for x y using WorkComparator_same [OF a(2)] by simp
  have "activating R s0 g s'"
    using a(3,4,5,7) f(2) keeps_trans [OF a(8) removed_keeps [OF X(1)]] good_removed [OF X] v(1) g
    unfolding activating_def by simp
  moreover have "usable (heap s') (chainActive s') p" using r p usable_removed [OF X(1)] X(2) by simp
  moreover obtain b where "heap s' p = Some b" "nChainTx b \<noteq> 0" using state_wfD(4) [OF f(2)] r p by auto
  moreover have "\<not> WorkComparator (heap s0) p g" using r p g cmp by simp
  moreover have "unfailed (heap s') \<subseteq> unfailed (heap s)"
  proof
    fix q assume q: "q \<in> unfailed (heap s')"
    have "heap s' q = heap s q \<or> heap s' q = map_option (\<lambda>b. b\<lparr>nStatus := nStatus b OR BLOCK_FAILED_CHILD\<rparr>) (heap s q)"
      using X(1) unfolding removed_def by blast
    then show "q \<in> unfailed (heap s)" using q failed_or unfolding unfailed_def by auto
  qed
  ultimately show ?thesis using f(1) v(1) p by blast
qed

text \<open>The work of the tip, zero without one.\<close>

definition tip_work :: "block_heap \<Rightarrow> chain_state \<Rightarrow> nat" where
  "tip_work m s = (case deref m (Tip (chainActive s)) of None \<Rightarrow> 0 | Some b \<Rightarrow> Suc (nChainWork b))"

lemma tip_work_bound:
  assumes "activating R s0 g s" and "(heap s0) g = Some c"
  shows "tip_work (heap s0) s \<le> Suc (nChainWork c)"
proof (cases "Tip (chainActive s)")
  case (Some t)
  then have t: "good R (heap s0) t" using activatingD(7) [OF assms(1)] by blast
  then obtain b where b: "(heap s0) t = Some b" using goodD by blast
  have "\<not> WorkComparator (heap s0) g t" using activatingD(4) [OF assms(1)] t by (simp add: best_good_def)
  then have "nChainWork b \<le> nChainWork c" using b assms(2) by (auto simp: WorkComparator_def split: if_splits)
  then show ?thesis using Some b by (simp add: tip_work_def)
qed (simp add: tip_work_def)

lemma tip_work_better:
  assumes "activating R s0 g s" and "same_links (heap s0) (heap s')" and "activating R s0 g s'"
    and "Tip (chainActive s') \<noteq> None" and "better_than (heap s') (Tip (chainActive s')) (Tip (chainActive s))"
  shows "tip_work (heap s0) s < tip_work (heap s0) s'"
proof -
  obtain t where t: "Tip (chainActive s') = Some t" using assms(4) by blast
  obtain b where b: "(heap s0) t = Some b" using goodD activatingD(7) [OF assms(3) t] by blast
  obtain b' where b': "heap s' t = Some b'" "nChainWork b' = nChainWork b" using same_linksD [OF assms(2) b] by blast
  show ?thesis
  proof (cases "Tip (chainActive s)")
    case None
    then show ?thesis using t b by (simp add: tip_work_def)
  next
    case (Some q)
    obtain c where c: "(heap s0) q = Some c" using goodD activatingD(7) [OF assms(1) Some] by blast
    obtain c' where c': "heap s' q = Some c'" "nChainWork c' = nChainWork c" using same_linksD [OF assms(2) c] by blast
    show ?thesis using assms(5) t b b' Some c c' by (simp add: tip_work_def better_than_def)
  qed
qed

lemma ActivateBestChain_progress:
  assumes "reliable R" and "(heap s0) g = Some c"
  shows "activating R s0 g s \<Longrightarrow> \<exists>s'. ActivateBestChain R s = Some (True, s') \<and> activating R s0 g s' \<and> Tip (chainActive s') = Some g"
proof (induction "(card (unfailed (heap s)), Suc (nChainWork c) - tip_work (heap s0) s)" arbitrary: s
    rule: wf_induct_rule [OF wf_lex_prod [OF wf_less_than wf_less_than]])
  case less: 1
  have fin: "finite (unfailed (heap s))"
    by (rule finite_subset [OF _ state_wfD(2) [OF activatingD(1) [OF less.prems]]]) (auto simp: unfailed_def)
  obtain p b s1 where f: "FindMostWorkChain s = Some (Some p, s1)" and s1: "activating R s0 g s1" "chainActive s1 = chainActive s"
    "heap s1 p = Some b" "nChainTx b \<noteq> 0" "usable (heap s1) (chainActive s1) p" "\<not> WorkComparator (heap s0) p g"
    "unfailed (heap s1) \<subseteq> unfailed (heap s)"
    using FindMostWorkChain_activating [OF less.prems] by blast
  have best: "p = g" if "activating R s0 g x" "Tip (chainActive x) = Some p" for x
    by (rule best_unique [OF activatingD(4) [OF that(1)] activatingD(7) [OF that] s1(6)])
  show ?case
  proof (cases "Tip (chainActive s1) = Some p")
    case True
    then have "ActivateBestChain R s = Some (True, s1)" using f by (subst ActivateBestChain.simps) simp
    then show ?thesis using s1(1) True best by blast
  next
    case False
    obtain s2 where s2: "ActivateBestChainStep R p s1 = Some (True, s2)" "activating R s0 g s2"
      "unfailed (heap s2) \<subset> unfailed (heap s1) \<or> heap s2 = heap s1 \<and> (Tip (chainActive s2) = Some p \<or>
         (Tip (chainActive s2) \<noteq> None \<and> better_than (heap s2) (Tip (chainActive s2)) (Tip (chainActive s1))))"
      using step_progress [OF assms(1) s1(1,3-5)] by blast
    have r: "ActivateBestChain R s =
        (if Tip (chainActive s2) = Some p then Some (True, s2) else ActivateBestChain R s2)"
      using f False s2(1) assms(1) by (subst ActivateBestChain.simps) (simp add: reliable_def)
    show ?thesis
    proof (cases "Tip (chainActive s2) = Some p")
      case True
      then show ?thesis using r s2(2) best by auto
    next
      case np: False
      have "((card (unfailed (heap s2)), Suc (nChainWork c) - tip_work (heap s0) s2),
          (card (unfailed (heap s)), Suc (nChainWork c) - tip_work (heap s0) s)) \<in> less_than <*lex*> less_than"
      proof (cases "unfailed (heap s2) \<subset> unfailed (heap s)")
        case True
        then show ?thesis using psubset_card_mono [OF fin] by simp
      next
        case False
        then have u: "heap s2 = heap s1" "unfailed (heap s2) = unfailed (heap s)" "Tip (chainActive s2) \<noteq> None"
          "better_than (heap s2) (Tip (chainActive s2)) (Tip (chainActive s1))"
          using s2(3) s1(7) np by auto
        have "tip_work (heap s0) s1 < tip_work (heap s0) s2"
          by (rule tip_work_better [OF s1(1) activatingD(2) [OF s2(2)] s2(2) u(3,4)])
        moreover have "tip_work (heap s0) s1 = tip_work (heap s0) s" using s1(2) by (simp add: tip_work_def)
        ultimately show ?thesis using u(2) tip_work_bound [OF s2(2) assms(2)] by simp
      qed
      then show ?thesis using less.hyps s2(2) r np by simp
    qed
  qed
qed

text \<open>The states between calls: the active chain is good, and the candidates hold every good block that is
  not worse than the tip.\<close>

definition ready :: "block_results \<Rightarrow> chain_state \<Rightarrow> bool" where
  "ready R s \<longleftrightarrow> state_wf s \<and> one_root (heap s) \<and> (\<forall>t. Tip (chainActive s) = Some t \<longrightarrow> good R (heap s) t) \<and>
     (\<forall>p. good R (heap s) p \<and> (\<forall>t. Tip (chainActive s) = Some t \<longrightarrow> \<not> WorkComparator (heap s) p t) \<longrightarrow> p \<in> set (candidates s))"

lemma best_exists:
  assumes "finite (dom m)" and "good R m p"
  shows "\<exists>g. best_good R m g"
proof -
  have "{q. good R m q} \<subseteq> dom m" using goodD by blast
  then have "finite {q. good R m q}" using assms(1) finite_subset by blast
  then obtain ps where ps: "set ps = {q. good R m q}" using finite_list by blast
  then have d: "\<forall>q \<in> set ps. m q \<noteq> None" using goodD by fastforce
  have "ps \<noteq> []" using assms(2) ps by auto
  then obtain g where "best_candidate m ps = Some g" using best_candidate(1) [OF d] by blast
  then show ?thesis using best_candidate(2) [OF d] ps unfolding best_good_def by blast
qed

lemma ready_activating:
  assumes "ready R s" and "best_good R (heap s) g"
  shows "activating R s g s"
  using assms keeps_refl [of s] unfolding ready_def best_good_def activating_def by blast

lemma ActivateBestChain_result:
  assumes "reliable R" and "ready R s" and "good R (heap s) p"
  shows "\<exists>s' t. ActivateBestChain R s = Some (True, s') \<and> ready R s' \<and> keeps s s' \<and>
    Tip (chainActive s') = Some t \<and> good R (heap s) t \<and>
    (\<forall>q. good R (heap s) q \<and> q \<noteq> t \<longrightarrow> WorkComparator (heap s) q t) \<and>
    (\<forall>q. good R (heap s') q \<longleftrightarrow> good R (heap s) q)"
proof -
  have "finite (dom (heap s))" using assms(2) state_wfD(2) by (simp add: ready_def)
  then obtain g where g: "best_good R (heap s) g" using best_exists assms(3) by blast
  then obtain c where c: "heap s g = Some c" using goodD unfolding best_good_def by blast
  obtain s' where s': "ActivateBestChain R s = Some (True, s')" "activating R s g s'" "Tip (chainActive s') = Some g"
    using ActivateBestChain_progress [OF assms(1) c ready_activating [OF assms(2) g]] by blast
  note a = activatingD [OF s'(2)]
  have best: "WorkComparator (heap s) q g" if "good R (heap s) q" "q \<noteq> g" for q
    using best_unique [OF g that(1)] that(2) by blast
  have "WorkComparator (heap s') q g = WorkComparator (heap s) q g" for q using WorkComparator_same [OF a(2)] by simp
  then have "q \<in> set (candidates s')" if "good R (heap s') q" "\<not> WorkComparator (heap s') q g" for q
    using that best a(5,6) by metis
  then have "ready R s'" using a(1,5,7) s'(3) one_root_same [OF a(2,3)] unfolding ready_def by auto
  then show ?thesis using s' a(5,8) best g unfolding best_good_def by blast
qed

text \<open>C1: \<open>ActivateBestChain\<close> ends and activates the best valid chain.  Assumed are: \<open>reliable R\<close>, that is,
  undo data can be read and the final flush works, and connecting a block has one fixed result, success or a violated rule
  without possible corruption (after a system error the code returns false instead, and after a possible corruption it tries the same block again);
  a \<open>ready\<close> state, the invariant of the block index that this and the other operations keep; and one good block, whose chain back to the genesis
  block has data, no failure marks, and connects.  Then, whatever other blocks turn out to be
  invalid on the way, it returns success without a failed assertion or a null pointer, the new tip is the last of all good blocks in the order of the
  candidates, no good block is marked as failed, and the state is ready again.  What \<open>ConnectBlock\<close> and \<open>DisconnectBlock\<close> say of each
  block is the parameter \<open>R\<close> here; theory \<open>ConnectBlock\<close> models both.\<close>

theorem ActivateBestChain_reaches_best:
  assumes "reliable R" and "ready R s" and "good R (heap s) p"
  shows "\<exists>s' t. ActivateBestChain R s = Some (True, s') \<and> ready R s' \<and> keeps s s' \<and>
    Tip (chainActive s') = Some t \<and> good R (heap s) t \<and>
    (\<forall>q. good R (heap s) q \<and> q \<noteq> t \<longrightarrow> WorkComparator (heap s) q t) \<and>
    (\<forall>q. good R (heap s') q \<longleftrightarrow> good R (heap s) q)"
  by (rule ActivateBestChain_result [OF assms])

text \<open>Block 13 is the best candidate but turns out to be invalid.\<close>

definition sample_results :: block_results where
  "sample_results = \<lparr>connect_result_of = (\<lambda>p. if p = 13 then Invalid_block False else Connected),
     disconnect_works = (\<lambda>p. True), final_flush_works = True\<rparr>"

lemma sample_good: "good sample_results (heap sample_state) p \<longleftrightarrow> p \<in> {0, 1, 2, 12}"
proof -
  let ?m = "heap sample_state" and ?R = sample_results
  note defs = sample_block_def sample_results_def unusable_def failed_def have_data_def BLOCK_FAILED_MASK_def
    BLOCK_FAILED_VALID_def BLOCK_FAILED_CHILD_def BLOCK_HAVE_DATA_def
  have 0: "good ?R ?m 0" by (rule good_step [of ?m 0, OF sample_lookup(1)]) (simp_all add: defs)
  have 1: "good ?R ?m 1" by (rule good_step [of ?m 1, OF sample_lookup(2)]) (use 0 in \<open>simp_all add: defs\<close>)
  have 2: "good ?R ?m 2" by (rule good_step [of ?m 2, OF sample_lookup(4)]) (use 1 in \<open>simp_all add: defs\<close>)
  have 12: "good ?R ?m 12" by (rule good_step [of ?m 12, OF sample_lookup(7)]) (use 1 in \<open>simp_all add: defs\<close>)
  have 3: "\<not> good ?R ?m 3" using goodD [of ?R ?m 3] by (auto simp: defs)
  have 4: "\<not> good ?R ?m 4" using good_walk [of ?R ?m 4 1 3] 3 by (auto simp: sample_block_def)
  have 13: "\<not> good ?R ?m 13" using goodD [of ?R ?m 13] by (auto simp: defs)
  have "p \<in> {0, 1, 2, 3, 4, 12, 13}" if "good ?R ?m p"
    using goodD [OF that] by (auto simp: sample_state_def sample_heap_def split: if_splits)
  then show ?thesis using 0 1 2 12 3 4 13 by auto
qed

lemma sample_ready: "ready sample_results sample_state"
proof -
  have "one_root (heap sample_state)"
    by (auto simp: one_root_def sample_state_def sample_heap_def sample_block_def split: if_splits)
  moreover have "Tip (chainActive sample_state) = Some 1" by (simp add: Tip_def sample_state_def)
  moreover have "WorkComparator (heap sample_state) 0 1" by (simp add: WorkComparator_def sample_block_def)
  moreover have "set (candidates sample_state) = {1, 2, 4, 12, 13}" by (auto simp: sample_state_def)
  ultimately show ?thesis using sample_state_wf unfolding ready_def sample_good by auto
qed

lemma ActivateBestChain_reaches_best_witness:
  "\<exists>s'. ActivateBestChain sample_results sample_state = Some (True, s') \<and> Tip (chainActive s') = Some 2"
proof -
  have r: "reliable sample_results" by (simp add: reliable_def sample_results_def)
  have g: "good sample_results (heap sample_state) 1" by (simp add: sample_good)
  obtain s' t where s': "ActivateBestChain sample_results sample_state = Some (True, s')" "Tip (chainActive s') = Some t"
    "good sample_results (heap sample_state) t"
    and best: "\<forall>q. good sample_results (heap sample_state) q \<and> q \<noteq> t \<longrightarrow> WorkComparator (heap sample_state) q t"
    using ActivateBestChain_reaches_best [OF r sample_ready g] by (elim exE conjE) rule
  have "\<not> WorkComparator (heap sample_state) 2 q" if "q \<in> {0, 1, 12}" for q
    using that by (auto simp: WorkComparator_def sample_block_def)
  moreover have "t \<in> {0, 1, 2, 12}" using s'(3) by (simp add: sample_good)
  moreover have "t = 2 \<or> WorkComparator (heap sample_state) 2 t" using best [rule_format, of 2] by (auto simp: sample_good)
  ultimately show ?thesis using s'(1,2) by auto
qed

end
