(* ===== verification/Invalidate.thy ===== *)
theory Invalidate
  imports ActivateChain
begin

text \<open>
  \<open>InvalidateBlock\<close> (src/src/main.cpp): the block and its descendants leave the active chain and are no longer
  good, every other block keeps its standing, and the state is ready for \<open>ActivateBestChain\<close>.
\<close>

section \<open>Marking descendants\<close>

definition descendants :: "block_heap \<Rightarrow> ptr \<Rightarrow> ptr set" where
  "descendants m p = {q. \<exists>n. walk m n q = Some p}"

lemma descendants_refl [simp]: "p \<in> descendants m p"
  unfolding descendants_def by (simp add: exI [of _ 0])

lemma descendants_walk: "walk m n q = Some r \<Longrightarrow> r \<in> descendants m p \<Longrightarrow> q \<in> descendants m p"
proof -
  assume w: "walk m n q = Some r" and "r \<in> descendants m p"
  then obtain k where "walk m k r = Some p" by (auto simp: descendants_def)
  then have "walk m (n + k) q = Some p" using walk_after [OF w] by simp
  then show ?thesis unfolding descendants_def by blast
qed

lemma descendants_same: "same_links m m' \<Longrightarrow> descendants m p = descendants m' p"
  unfolding descendants_def using walk_same by metis

text \<open>Blocks of \<open>X\<close> get failure bits and may leave the candidates.\<close>

definition marked :: "ptr set \<Rightarrow> chain_state \<Rightarrow> chain_state \<Rightarrow> bool" where
  "marked X s s' \<longleftrightarrow> (\<forall>q. q \<notin> X \<longrightarrow> heap s' q = heap s q) \<and> failures_added (heap s) (heap s') \<and>
     set (candidates s') \<subseteq> set (candidates s) \<and> mapBlocksUnlinked s' = mapBlocksUnlinked s \<and> mapBlockIndex s' = mapBlockIndex s \<and>
     nBlockSequenceId s' = nBlockSequenceId s"

lemma marked_links: "marked X s s' \<Longrightarrow> same_links (heap s) (heap s')"
  using failures_added_links by (simp add: marked_def)

lemma marked_trans: "marked X s s' \<Longrightarrow> marked X s' s'' \<Longrightarrow> marked X s s''"
  using failures_added_trans [of "heap s" "heap s'" "heap s''"] by (auto simp: marked_def)

lemma marked_one:
  assumes "p \<in> X" and "failure_bits x"
  shows "marked X s (erase_candidate p (update_block p (\<lambda>b. b\<lparr>nStatus := nStatus b OR x\<rparr>) s))"
  using assms failures_added_one [of x "heap s" p] by (auto simp: marked_def erase_candidate_def update_block_def)

lemma marked_chain [simp]: "marked X s (s'\<lparr>chainActive := v\<rparr>) = marked X s s'"
  by (simp add: marked_def)

lemma marked_wf:
  assumes "marked X s s'" and "state_wf s" and "chain_ok (heap s) (chainActive s')"
  shows "state_wf s'"
  by (rule state_wf_same [OF assms(2) marked_links [OF assms(1)] assms(3)])
    (use assms(1) state_wfD(8) [OF assms(2)] in \<open>auto simp: marked_def\<close>)

lemma marked_good:
  assumes "marked (descendants (heap s) p) s s'" and "heap s' p = Some b" and "failed b"
  shows "good R (heap s') q \<longleftrightarrow> good R (heap s) q \<and> q \<notin> descendants (heap s) p"
proof -
  note links = marked_links [OF assms(1)]
  show ?thesis
  proof
    assume g: "good R (heap s') q"
    have nd: "q \<notin> descendants (heap s) p"
    proof
      assume "q \<in> descendants (heap s) p"
      then obtain n where n: "walk (heap s') n q = Some p" unfolding descendants_same [OF links] by (auto simp: descendants_def)
      then have "\<not> unusable b" using goodD [OF good_walk [OF g n]] assms(2) by auto
      then show False using assms(3) by (simp add: unusable_def)
    qed
    have "good R (heap s) q"
      unfolding good_def
    proof (intro allI impI)
      fix n r assume w: "walk (heap s) n q = Some r"
      then have "r \<notin> descendants (heap s) p" using nd descendants_walk by blast
      then have "heap s' r = heap s r" using assms(1) by (simp add: marked_def)
      moreover have "walk (heap s') n q = Some r" using w walk_same [OF links] by simp
      ultimately show "\<exists>c. heap s r = Some c \<and> \<not> unusable c \<and> nChainTx c \<noteq> 0 \<and> connect_result_of R r = Connected"
        using g unfolding good_def by metis
    qed
    then show "good R (heap s) q \<and> q \<notin> descendants (heap s) p" using nd by blast
  next
    assume g: "good R (heap s) q \<and> q \<notin> descendants (heap s) p"
    show "good R (heap s') q"
      unfolding good_def
    proof (intro allI impI)
      fix n r assume "walk (heap s') n q = Some r"
      then have w: "walk (heap s) n q = Some r" using walk_same [OF links] by simp
      then have "r \<notin> descendants (heap s) p" using g descendants_walk by blast
      then have "heap s' r = heap s r" using assms(1) by (simp add: marked_def)
      then show "\<exists>c. heap s' r = Some c \<and> \<not> unusable c \<and> nChainTx c \<noteq> 0 \<and> connect_result_of R r = Connected"
        using g w unfolding good_def by auto
    qed
  qed
qed

section \<open>The loops\<close>

lemma disconnect_while_contains_marked:
  assumes "\<forall>p. disconnect_works R p"
  shows "state_wf s \<Longrightarrow> Tip (chainActive s) = Some t \<Longrightarrow> walk (heap s) n t = Some p \<Longrightarrow> heap s p = Some b \<Longrightarrow>
    pprev b = Some r \<Longrightarrow> heap s r = Some c \<Longrightarrow>
    \<exists>s'. disconnect_while_contains R p s = Some (True, s') \<and> marked (descendants (heap s) p) s s' \<and>
      chainActive s' = path (heap s) r (nHeight c)"
proof (induction n arbitrary: s t b c)
  case 0
  note wf = state_wfD(1) [OF 0(1)]
  define s1 where "s1 = erase_candidate t (update_block t (\<lambda>b. b\<lparr>nStatus := nStatus b OR BLOCK_FAILED_CHILD\<rparr>) s)"
  have tp: "t = p" using 0(3) by simp
  have m1: "marked (descendants (heap s) p) s s1" unfolding s1_def by (rule marked_one) (simp_all add: tp)
  have c1: "chainActive s1 = chainActive s" by (simp add: s1_def erase_candidate_def update_block_def)
  have wf1: "state_wf s1" by (rule marked_wf [OF m1 0(1)]) (simp add: c1 state_wfD(3) [OF 0(1)])
  note links = marked_links [OF m1]
  obtain b1 where b1: "heap s1 p = Some b1" "pprev b1 = Some r" using same_linksD [OF links 0(4)] 0(5) by auto
  obtain c1' where c1': "heap s1 r = Some c1'" "nHeight c1' = nHeight c" using same_linksD [OF links 0(6)] by auto
  have pp: "path (heap s1) r (nHeight c) = path (heap s) r (nHeight c)" using walk_same [OF links] by (simp add: path_def)
  define s2 where "s2 = s1\<lparr>chainActive := path (heap s) r (nHeight c)\<rparr>"
  have "DisconnectTip R s1 = Some (True, s2)"
    using assms 0(2) b1 tp c1 UpdateTip_path [OF wf1 c1'(1)] c1'(2) pp by (simp add: DisconnectTip_def s2_def)
  moreover have "Contains (heap s) (chainActive s) p"
    using Tip_lookup [OF state_wfD(3) [OF 0(1)] 0(2)] Contains_iff [OF state_wfD(3) [OF 0(1)] 0(4)] tp 0(4) by auto
  moreover have "\<not> Contains (heap s2) (chainActive s2) p"
    using b1 index_wfD(2) [OF state_wfD(1) [OF wf1] b1] c1' by (auto simp: s2_def Contains_def chain_at_def)
  then have "disconnect_while_contains R p s2 = Some (True, s2)" by (subst disconnect_while_contains.simps) simp
  ultimately have "disconnect_while_contains R p s = Some (True, s2)"
    using 0(2) by (subst disconnect_while_contains.simps) (simp add: s1_def)
  then show ?case using m1 by (auto simp: s2_def)
next
  case (Suc n)
  note wf = state_wfD(1) [OF Suc.prems(1)] and ok = state_wfD(3) [OF Suc.prems(1)]
  obtain d where d: "heap s t = Some d" "chainActive s = path (heap s) t (nHeight d)" using Tip_lookup [OF ok Suc.prems(2)] by blast
  obtain q where q: "pprev d = Some q" "walk (heap s) n q = Some p" using Suc.prems(3) d(1) by (auto split: option.splits)
  obtain e where e: "heap s q = Some e" using index_wfD(2) [OF wf d(1) q(1)] by blast
  have cont: "Contains (heap s) (chainActive s) p"
  proof -
    have "Contains (heap s) (chainActive s) t" using Contains_iff [OF ok d(1)] d(2) by simp
    then show ?thesis
      using Contains_walk [OF wf ok d(1) _, of "Suc n"] walk_Some [OF wf d(1) Suc.prems(3)] Suc.prems(3) by auto
  qed
  have td: "t \<in> descendants (heap s) p" using Suc.prems(3) unfolding descendants_def by blast
  define s1 where "s1 = erase_candidate t (update_block t (\<lambda>b. b\<lparr>nStatus := nStatus b OR BLOCK_FAILED_CHILD\<rparr>) s)"
  have m1: "marked (descendants (heap s) p) s s1" unfolding s1_def by (rule marked_one [OF td]) simp
  have c1: "chainActive s1 = chainActive s" by (simp add: s1_def erase_candidate_def update_block_def)
  have wf1: "state_wf s1" by (rule marked_wf [OF m1 Suc.prems(1)]) (simp add: c1 ok)
  note links = marked_links [OF m1]
  obtain d1 where d1: "heap s1 t = Some d1" "pprev d1 = Some q" using same_linksD [OF links d(1)] q(1) by auto
  obtain e1 where e1: "heap s1 q = Some e1" using same_linksD [OF links e] by blast
  define s2 where "s2 = s1\<lparr>chainActive := path (heap s1) q (nHeight e1)\<rparr>"
  have wf2: "state_wf s2" unfolding s2_def by (rule state_wf_path [OF wf1 e1])
  have "DisconnectTip R s1 = Some (True, s2)"
    using assms Suc.prems(2) d1 c1 UpdateTip_path [OF wf1 e1] by (simp add: DisconnectTip_def s2_def)
  then have step: "disconnect_while_contains R p s = disconnect_while_contains R p s2"
    using cont Suc.prems(2) by (subst disconnect_while_contains.simps) (simp add: s1_def)
  obtain b1 where b1: "heap s2 p = Some b1" "pprev b1 = Some r" using same_linksD [OF links Suc.prems(4)] Suc.prems(5) by (auto simp: s2_def)
  obtain c2 where c2: "heap s2 r = Some c2" "nHeight c2 = nHeight c" using same_linksD [OF links Suc.prems(6)] by (auto simp: s2_def)
  have "walk (heap s2) n q = Some p" using q(2) walk_same [OF links] by (simp add: s2_def)
  then obtain s' where s': "disconnect_while_contains R p s2 = Some (True, s')" "marked (descendants (heap s2) p) s2 s'"
    "chainActive s' = path (heap s2) r (nHeight c2)"
    using Suc.IH [OF wf2 _ _ b1 c2(1), of q] by (auto simp: s2_def)
  have "descendants (heap s2) p = descendants (heap s) p" using descendants_same [OF links] by (simp add: s2_def)
  then have "marked (descendants (heap s) p) s s'" using marked_trans [of _ s s2 s'] m1 s'(2) by (simp add: s2_def)
  moreover have "path (heap s2) r (nHeight c2) = path (heap s) r (nHeight c)"
    using walk_same [OF links] c2(2) by (simp add: path_def s2_def)
  ultimately show ?case using step s' by simp
qed

lemma restore_candidates_fold:
  "fold (\<lambda>(h, p) s. case heap s p of
       None \<Rightarrow> s
     | Some b \<Rightarrow> if linked_and_valid b \<and> \<not> WorkComparator (heap s) p tip then insert_candidate p s else s) xs s = s' \<Longrightarrow>
   heap s' = heap s \<and> chainActive s' = chainActive s \<and> mapBlocksUnlinked s' = mapBlocksUnlinked s \<and>
   mapBlockIndex s' = mapBlockIndex s \<and> nBlockSequenceId s' = nBlockSequenceId s \<and>
   set (candidates s') = set (candidates s) \<union>
     {p \<in> snd ` set xs. \<exists>b. heap s p = Some b \<and> linked_and_valid b \<and> \<not> WorkComparator (heap s) p tip}"
proof (induction xs arbitrary: s)
  case (Cons x xs)
  obtain h p where x: "x = (h, p)" by (cases x)
  define s1 where "s1 = (case heap s p of
       None \<Rightarrow> s
     | Some b \<Rightarrow> if linked_and_valid b \<and> \<not> WorkComparator (heap s) p tip then insert_candidate p s else s)"
  have s1: "heap s1 = heap s" "chainActive s1 = chainActive s" "mapBlocksUnlinked s1 = mapBlocksUnlinked s"
    "mapBlockIndex s1 = mapBlockIndex s" "nBlockSequenceId s1 = nBlockSequenceId s"
    "set (candidates s1) = set (candidates s) \<union>
       {q. q = p \<and> (\<exists>b. heap s p = Some b \<and> linked_and_valid b \<and> \<not> WorkComparator (heap s) p tip)}"
    by (auto simp: s1_def insert_candidate_def split: option.split)
  note ih = Cons.IH [of s1]
  show ?case using ih Cons.prems s1 x by (auto simp: s1_def [symmetric])
qed auto

lemma restore_candidates_all:
  assumes "Tip (chainActive s) = Some tip"
  shows "\<exists>s'. restore_candidates s = Some s' \<and> heap s' = heap s \<and> chainActive s' = chainActive s \<and>
    mapBlocksUnlinked s' = mapBlocksUnlinked s \<and> mapBlockIndex s' = mapBlockIndex s \<and> nBlockSequenceId s' = nBlockSequenceId s \<and>
    set (candidates s') = set (candidates s) \<union>
     {p \<in> snd ` set (mapBlockIndex s). \<exists>b. heap s p = Some b \<and> linked_and_valid b \<and> \<not> WorkComparator (heap s) p tip}"
  using restore_candidates_fold [OF refl, where xs = "mapBlockIndex s" and tip = tip and s = s] assms
  by (simp add: restore_candidates_def)

lemma state_wf_candidates:
  assumes "state_wf s" and "heap s' = heap s" and "chainActive s' = chainActive s" and "mapBlocksUnlinked s' = mapBlocksUnlinked s"
    and "\<And>p. p \<in> set (candidates s') \<Longrightarrow> \<exists>b. heap s p = Some b \<and> nChainTx b \<noteq> 0"
  shows "state_wf s'"
  using assms(1,5) unfolding state_wf_def assms(2-4) by blast

section \<open>InvalidateBlock\<close>

text \<open>The index lists every block, and blocks with transactions are valid up to them.\<close>

definition indexed :: "chain_state \<Rightarrow> bool" where
  "indexed s \<longleftrightarrow> (\<forall>q b. heap s q = Some b \<longrightarrow> q \<in> snd ` set (mapBlockIndex s) \<and>
     (nTx b \<noteq> 0 \<and> \<not> failed b \<longrightarrow> IsValid BLOCK_VALID_TRANSACTIONS b))"

lemma failed_valid: "failed (b\<lparr>nStatus := nStatus b OR BLOCK_FAILED_VALID\<rparr>)"
  by (simp add: failed_def BLOCK_FAILED_MASK_def bit.conj_disj_distrib bit.conj_disj_distrib2 or_eq_0_iff BLOCK_FAILED_VALID_def)

lemma marked_refl: "marked X s s"
  by (simp add: marked_def)

lemma disconnect_invalid:
  assumes "\<forall>p. disconnect_works R p" and "state_wf s" and "Tip (chainActive s) = Some t" and "heap s p = Some b"
    and "pprev b = Some r"
  shows "\<exists>s' t' n. disconnect_while_contains R p s = Some (True, s') \<and> marked (descendants (heap s) p) s s' \<and> state_wf s' \<and>
    Tip (chainActive s') = Some t' \<and> walk (heap s) n t = Some t' \<and> t' \<notin> descendants (heap s) p \<and>
    \<not> Contains (heap s) (chainActive s') p"
proof -
  note wf = state_wfD(1) [OF assms(2)] and ok = state_wfD(3) [OF assms(2)]
  obtain d where d: "heap s t = Some d" "chainActive s = path (heap s) t (nHeight d)" using Tip_lookup [OF ok assms(3)] by blast
  have ct: "Contains (heap s) (chainActive s) t" using Contains_iff [OF ok d(1)] d(2) by simp
  show ?thesis
  proof (cases "Contains (heap s) (chainActive s) p")
    case False
    have "t \<notin> descendants (heap s) p"
    proof
      assume "t \<in> descendants (heap s) p"
      then obtain n where n: "walk (heap s) n t = Some p" by (auto simp: descendants_def)
      then show False using Contains_walk [OF wf ok d(1) ct, of n] walk_Some [OF wf d(1) n] False by auto
    qed
    moreover have "disconnect_while_contains R p s = Some (True, s)" using False by (subst disconnect_while_contains.simps) simp
    moreover have "walk (heap s) 0 t = Some t" by simp
    ultimately show ?thesis using marked_refl assms(2,3) False by blast
  next
    case True
    then have "nHeight b < length (chainActive s)" "chainActive s ! nHeight b = Some p" using Contains_iff [OF ok assms(4)] by auto
    then have w: "walk (heap s) (nHeight d - nHeight b) t = Some p" using d(2) by simp
    obtain c where c: "heap s r = Some c" "nHeight b = Suc (nHeight c)" using index_wfD(2) [OF wf assms(4,5)] by blast
    obtain s' where s': "disconnect_while_contains R p s = Some (True, s')" "marked (descendants (heap s) p) s s'"
      "chainActive s' = path (heap s) r (nHeight c)"
      using disconnect_while_contains_marked [OF assms(1,2,3) w assms(4,5) c(1)] by blast
    have "state_wf s'" by (rule marked_wf [OF s'(2) assms(2)]) (simp add: s'(3) path_ok [OF wf c(1)])
    moreover have "walk (heap s) (nHeight d - nHeight b + 1) t = Some r"
      using walk_after [OF w, of 1] assms(4,5) by simp
    moreover have "r \<notin> descendants (heap s) p"
    proof
      assume "r \<in> descendants (heap s) p"
      then obtain n where "walk (heap s) n r = Some p" by (auto simp: descendants_def)
      then show False using walk_Some [OF wf c(1)] assms(4) c(2) by fastforce
    qed
    moreover have "\<not> Contains (heap s) (chainActive s') p" using assms(4) c(2) s'(3) by (simp add: Contains_def chain_at_def)
    ultimately show ?thesis using s' Tip_path [of "heap s" r "nHeight c"] by metis
  qed
qed

lemma InvalidateBlock_result:
  assumes "reliable R" and "ready R s" and "indexed s" and "Tip (chainActive s) \<noteq> None"
    and "heap s p = Some b" and "pprev b \<noteq> None"
  shows "\<exists>s'. InvalidateBlock R p s = Some (True, s') \<and> ready R s' \<and> keeps s s' \<and>
    \<not> Contains (heap s') (chainActive s') p \<and> (\<exists>b'. heap s' p = Some b' \<and> failed b') \<and>
    (\<forall>q. good R (heap s') q \<longleftrightarrow> good R (heap s) q \<and> (\<nexists>n. walk (heap s) n q = Some p))"
proof -
  have wf: "state_wf s" and root: "one_root (heap s)" using assms(2) by (simp_all add: ready_def)
  obtain t r where t: "Tip (chainActive s) = Some t" and r: "pprev b = Some r" using assms(4,6) by blast
  have gt: "good R (heap s) t" using assms(2) t by (simp add: ready_def)
  define X where "X = descendants (heap s) p"
  define s1 where "s1 = erase_candidate p (update_block p (\<lambda>b. b\<lparr>nStatus := nStatus b OR BLOCK_FAILED_VALID\<rparr>) s)"
  have m1: "marked X s s1" unfolding s1_def X_def by (rule marked_one) simp_all
  have c1: "chainActive s1 = chainActive s" by (simp add: s1_def erase_candidate_def update_block_def)
  have wf1: "state_wf s1" by (rule marked_wf [OF m1 wf]) (simp add: c1 state_wfD(3) [OF wf])
  define b1 where "b1 = b\<lparr>nStatus := nStatus b OR BLOCK_FAILED_VALID\<rparr>"
  have b1: "heap s1 p = Some b1" "pprev b1 = Some r" "failed b1"
    using assms(5) r failed_valid by (simp_all add: s1_def erase_candidate_def update_block_def b1_def)
  note links1 = marked_links [OF m1]
  obtain s2 t2 n where s2: "disconnect_while_contains R p s1 = Some (True, s2)" "marked (descendants (heap s1) p) s1 s2" "state_wf s2"
    "Tip (chainActive s2) = Some t2" "walk (heap s1) n t = Some t2" "t2 \<notin> descendants (heap s1) p"
    "\<not> Contains (heap s1) (chainActive s2) p"
    using disconnect_invalid [OF _ wf1 _ b1(1,2), of R t] assms(1) c1 t by (auto simp: reliable_def)
  have X: "descendants (heap s1) p = X" using descendants_same [OF links1] by (simp add: X_def)
  have m2: "marked X s s2" by (rule marked_trans [OF m1]) (use s2(2) X in simp)
  note links = marked_links [OF m2]
  obtain s3 where s3: "restore_candidates s2 = Some s3" "heap s3 = heap s2" "chainActive s3 = chainActive s2"
    "mapBlocksUnlinked s3 = mapBlocksUnlinked s2" "mapBlockIndex s3 = mapBlockIndex s2" "nBlockSequenceId s3 = nBlockSequenceId s2"
    "set (candidates s3) = set (candidates s2) \<union>
       {p \<in> snd ` set (mapBlockIndex s2). \<exists>b. heap s2 p = Some b \<and> linked_and_valid b \<and> \<not> WorkComparator (heap s2) p t2}"
    using restore_candidates_all [OF s2(4)] by blast
  define s' where "s' = note_invalid p s3"
  have h: "heap s' = heap s2" "chainActive s' = chainActive s2" "candidates s' = candidates s3" by (simp_all add: s'_def s3)
  have inv: "InvalidateBlock R p s = Some (True, s')"
    using s2(1,4) s3(1,3) by (simp add: InvalidateBlock_def s1_def [symmetric] InvalidChainFound_def s'_def)
  obtain x where "heap s2 p = map_option (\<lambda>b. b\<lparr>nStatus := nStatus b OR x\<rparr>) (heap s1 p)"
    using s2(2) unfolding marked_def failures_added_def by blast
  then obtain b2 where b2: "heap s2 p = Some b2" "failed b2" using b1(1,3) failed_or by auto
  have good: "good R (heap s2) q \<longleftrightarrow> good R (heap s) q \<and> q \<notin> X" for q
    unfolding X_def by (rule marked_good [OF m2 [unfolded X_def] b2])
  have w: "walk (heap s) n t = Some t2" using s2(5) walk_same [OF links1] by simp
  have tip: "good R (heap s2) t2" using good good_walk [OF gt w] s2(6) X by simp
  have cand: "q \<in> set (candidates s3)" if g: "good R (heap s2) q" and c: "\<not> WorkComparator (heap s2) q t2" for q
  proof -
    obtain e where e: "heap s2 q = Some e" "\<not> unusable e" "nChainTx e \<noteq> 0" using goodD [OF g] by blast
    have "heap s2 q = heap s q" using m2 g good by (simp add: marked_def)
    then have hq: "heap s q = Some e" using e(1) by simp
    then have "nTx e \<noteq> 0" using state_wfD(5) [OF wf] e(3) by blast
    then have "q \<in> snd ` set (mapBlockIndex s)" "IsValid BLOCK_VALID_TRANSACTIONS e"
      using assms(3) e(2) hq unfolding indexed_def unusable_def by blast+
    moreover have "mapBlockIndex s2 = mapBlockIndex s" using m2 by (simp add: marked_def)
    ultimately show ?thesis using s3(7) e c by (auto simp: linked_and_valid_def)
  qed
  have "state_wf s'"
  proof -
    have "\<exists>b. heap s2 q = Some b \<and> nChainTx b \<noteq> 0" if "q \<in> set (candidates s3)" for q
      using that state_wfD(4) [OF s2(3), of q] unfolding s3(7) linked_and_valid_def by blast
    then show ?thesis by (intro state_wf_candidates [OF s2(3)]) (simp_all add: s'_def s3(2-4))
  qed
  then have "ready R s'"
    using one_root_same [OF links root] tip cand s2(4) unfolding ready_def h by auto
  moreover have "\<not> Contains (heap s') (chainActive s') p"
    using s2(7) Contains_same [OF marked_links [OF s2(2)]] unfolding h by simp
  moreover have "q \<notin> X \<longleftrightarrow> (\<nexists>n. walk (heap s) n q = Some p)" for q by (simp add: X_def descendants_def)
  moreover have "keeps s s'"
    using m2 s3 unfolding marked_def s'_def keeps_note by (simp add: keeps_def)
  ultimately show ?thesis using inv b2 good h by auto
qed

text \<open>C11: \<open>InvalidateBlock\<close> takes exactly the chosen block and its descendants out of the competition.  Assumed are \<open>reliable R\<close>
  (undo data can be read, no system error), a \<open>ready\<close> state whose blocks are all in \<open>mapBlockIndex\<close> (\<open>indexed\<close>), an active tip, and
  that the block is in the index and is not the genesis block: invalidating that one would disconnect the whole chain and dereference a null tip.
  Then it returns success, the block is marked and no longer on the active chain, a block is good afterwards if and only if it was
  good and does not descend from it, and the candidates are complete again, so that
  \<open>ActivateBestChain\<close> will find the best of the remaining chains.\<close>

theorem InvalidateBlock_ready:
  assumes "reliable R" and "ready R s" and "indexed s" and "Tip (chainActive s) \<noteq> None"
    and "heap s p = Some b" and "pprev b \<noteq> None"
  shows "\<exists>s'. InvalidateBlock R p s = Some (True, s') \<and> ready R s' \<and> keeps s s' \<and>
    \<not> Contains (heap s') (chainActive s') p \<and> (\<exists>b'. heap s' p = Some b' \<and> failed b') \<and>
    (\<forall>q. good R (heap s') q \<longleftrightarrow> good R (heap s) q \<and> (\<nexists>n. walk (heap s) n q = Some p))"
  by (rule InvalidateBlock_result [OF assms])

text \<open>Invalidating the tip.\<close>

lemma InvalidateBlock_ready_witness:
  "\<exists>s'. InvalidateBlock sample_results 1 sample_state = Some (True, s') \<and> ready sample_results s' \<and>
     \<not> good sample_results (heap s') 2 \<and> good sample_results (heap s') 0"
proof -
  have "indexed sample_state"
    by (auto simp: indexed_def sample_state_def sample_heap_def sample_block_def failed_def IsValid_def BLOCK_FAILED_MASK_def
      BLOCK_FAILED_VALID_def BLOCK_FAILED_CHILD_def BLOCK_VALID_MASK_def BLOCK_VALID_TRANSACTIONS_def split: if_splits)
  moreover have "reliable sample_results" by (simp add: reliable_def sample_results_def)
  moreover have "Tip (chainActive sample_state) \<noteq> None" by (simp add: Tip_def sample_state_def)
  moreover have "pprev (sample_block (Some 0) (Some 0) 1 101) \<noteq> None" by (simp add: sample_block_def)
  ultimately obtain s' where s': "InvalidateBlock sample_results 1 sample_state = Some (True, s')" "ready sample_results s'"
    "\<forall>q. good sample_results (heap s') q \<longleftrightarrow>
       good sample_results (heap sample_state) q \<and> (\<nexists>n. walk (heap sample_state) n q = Some 1)"
    using InvalidateBlock_ready [OF _ sample_ready _ _ sample_lookup(2)] by blast
  have "walk (heap sample_state) 1 2 = Some 1" by (simp add: sample_block_def)
  then have "\<not> good sample_results (heap s') 2" using s'(3) by blast
  moreover have "walk (heap sample_state) n 0 \<noteq> Some 1" for n by (cases n) (simp_all add: sample_block_def)
  then have "good sample_results (heap s') 0" using s'(3) sample_good by simp
  ultimately show ?thesis using s'(1,2) by blast
qed

end
