(* ===== verification/IndexStates.thy ===== *)
theory IndexStates
  imports Invalidate
begin

text \<open>
  The block index as a state machine (src/src/main.cpp): headers are added, the data of blocks arrives in any
  order, the best chain is activated, and blocks are invalidated.  The invariant of the reachable states says
  what \<open>mapBlockIndex\<close>, \<open>nChainTx\<close>, \<open>mapBlocksUnlinked\<close>, \<open>setBlockIndexCandidates\<close> and the active chain mean.
\<close>

section \<open>The invariant\<close>

text \<open>The number of transactions up to a block, zero while some of them are missing.\<close>

definition chain_tx :: "block_heap \<Rightarrow> CBlockIndex \<Rightarrow> nat" where
  "chain_tx m c =
     (if nTx c = 0 then 0
      else case pprev c of
             None \<Rightarrow> nTx c
           | Some q \<Rightarrow> (case m q of None \<Rightarrow> 0 | Some d \<Rightarrow> if nChainTx d = 0 then 0 else nChainTx d + nTx c))"

text \<open>A block whose transactions are known waits for its parent.\<close>

definition waits :: "block_heap \<Rightarrow> ptr option \<Rightarrow> ptr \<Rightarrow> bool" where
  "waits m a x \<longleftrightarrow> (\<exists>c q d. m x = Some c \<and> a = Some q \<and> pprev c = Some q \<and> m q = Some d \<and> nTx c \<noteq> 0 \<and> nChainTx d = 0)"

definition linked_ok :: "chain_state \<Rightarrow> bool" where
  "linked_ok s \<longleftrightarrow> (\<forall>x c. heap s x = Some c \<longrightarrow> nChainTx c = chain_tx (heap s) c) \<and>
     distinct (mapBlocksUnlinked s) \<and> (\<forall>a x. (a, x) \<in> set (mapBlocksUnlinked s) \<longleftrightarrow> waits (heap s) a x)"

text \<open>All transactions of the index.\<close>

definition tx_total :: "block_heap \<Rightarrow> nat" where
  "tx_total m = (\<Sum>x \<in> dom m. nTx (the (m x)))"

definition index_inv :: "block_results \<Rightarrow> chain_state \<Rightarrow> bool" where
  "index_inv R s \<longleftrightarrow> ready R s \<and> linked_ok s \<and> tx_total (heap s) < 2 ^ 32 \<and> hashes_ok (heap s) (map_of (mapBlockIndex s)) \<and>
     (\<forall>x c. heap s x = Some c \<longrightarrow> (nTx c \<noteq> 0 \<longrightarrow> have_data c) \<and> (\<not> failed c \<longrightarrow> IsValid BLOCK_VALID_TREE c) \<and>
        (nTx c \<noteq> 0 \<and> \<not> failed c \<longrightarrow> IsValid BLOCK_VALID_TRANSACTIONS c))"

lemma index_invD:
  assumes "index_inv R s"
  shows "ready R s" and "linked_ok s" and "hashes_ok (heap s) (map_of (mapBlockIndex s))"
    and "heap s x = Some c \<Longrightarrow> nTx c \<noteq> 0 \<Longrightarrow> have_data c"
    and "heap s x = Some c \<Longrightarrow> \<not> failed c \<Longrightarrow> IsValid BLOCK_VALID_TREE c"
    and "heap s x = Some c \<Longrightarrow> nTx c \<noteq> 0 \<Longrightarrow> \<not> failed c \<Longrightarrow> IsValid BLOCK_VALID_TRANSACTIONS c"
    and "state_wf s" and "tx_total (heap s) < 2 ^ 32"
  using assms unfolding index_inv_def ready_def by blast+

lemma index_inv_indexed:
  assumes "index_inv R s"
  shows "indexed s"
  unfolding indexed_def
proof (intro allI impI)
  fix q b assume b: "heap s q = Some b"
  then have "map_of (mapBlockIndex s) (phashBlock b) = Some q" using index_invD(3) [OF assms] unfolding hashes_ok_def by blast
  then have "(phashBlock b, q) \<in> set (mapBlockIndex s)" by (rule map_of_SomeD)
  then show "q \<in> snd ` set (mapBlockIndex s) \<and> (nTx b \<noteq> 0 \<and> \<not> failed b \<longrightarrow> IsValid BLOCK_VALID_TRANSACTIONS b)"
    using index_invD(6) [OF assms b] by force
qed

lemma no_data_missing:
  assumes "index_inv R s"
  shows "\<not> data_missing (heap s)"
  using index_invD(4,7) [OF assms] state_wfD(5) unfolding data_missing_def by blast

text \<open>The sum when one block changes or is new.\<close>

lemma tx_total_update: "finite (dom m) \<Longrightarrow> m p = Some c \<Longrightarrow> tx_total (m(p \<mapsto> c')) + nTx c = tx_total m + nTx c'"
proof -
  assume a: "finite (dom m)" "m p = Some c"
  have "tx_total (m(p \<mapsto> c')) = nTx c' + (\<Sum>x \<in> dom m - {p}. nTx (the (m x)))"
    using a by (auto simp: tx_total_def sum.insert_remove intro!: sum.cong)
  moreover have "tx_total m = nTx c + (\<Sum>x \<in> dom m - {p}. nTx (the (m x)))"
    using a sum.remove [of "dom m" p "\<lambda>x. nTx (the (m x))"] by (simp add: tx_total_def domI)
  ultimately show ?thesis by simp
qed

lemma tx_total_new: "finite (dom m) \<Longrightarrow> m p = None \<Longrightarrow> tx_total (m(p \<mapsto> c)) = tx_total m + nTx c"
  by (auto simp: tx_total_def domIff intro!: sum.cong)

lemma tx_total_member: "finite (dom m) \<Longrightarrow> m p = Some c \<Longrightarrow> nTx c \<le> tx_total m"
  using member_le_sum [of p "dom m" "\<lambda>x. nTx (the (m x))"] by (auto simp: tx_total_def)

text \<open>The transactions of a block and its ancestors; they are distinct blocks of the index.\<close>

definition path_set :: "block_heap \<Rightarrow> ptr \<Rightarrow> ptr set" where
  "path_set m p = {q. \<exists>n. walk m n p = Some q}"

definition path_tx :: "block_heap \<Rightarrow> ptr \<Rightarrow> nat" where
  "path_tx m p = (\<Sum>x \<in> path_set m p. nTx (the (m x)))"

lemma path_set_step: "m p = Some c \<Longrightarrow> path_set m p = insert p (case pprev c of None \<Rightarrow> {} | Some q \<Rightarrow> path_set m q)"
proof -
  assume c: "m p = Some c"
  have "(\<exists>n. walk m n p = Some y) \<longleftrightarrow> walk m 0 p = Some y \<or> (\<exists>n. walk m (Suc n) p = Some y)" for y by (metis not0_implies_Suc)
  then show ?thesis using c unfolding path_set_def by (auto split: option.splits)
qed

lemma path_tx_step:
  assumes "index_wf m" and "finite (dom m)" and "m p = Some c"
  shows "path_tx m p = nTx c + (case pprev c of None \<Rightarrow> 0 | Some q \<Rightarrow> path_tx m q)" and "path_tx m p \<le> tx_total m"
proof -
  have sub: "path_set m x \<subseteq> dom m" if "m x = Some d" for x d
    using walk_Some [OF assms(1) that] unfolding path_set_def by blast
  show "path_tx m p \<le> tx_total m"
    unfolding path_tx_def tx_total_def by (rule sum_mono2) (use assms(2) sub [OF assms(3)] in auto)
  show "path_tx m p = nTx c + (case pprev c of None \<Rightarrow> 0 | Some q \<Rightarrow> path_tx m q)"
  proof (cases "pprev c")
    case None
    then show ?thesis using path_set_step [of m p c] assms(3) by (simp add: path_tx_def)
  next
    case (Some q)
    obtain d where d: "m q = Some d" "nHeight c = Suc (nHeight d)" using index_wfD(2) [OF assms(1,3) Some] by blast
    have "p \<notin> path_set m q"
    proof
      assume "p \<in> path_set m q"
      then obtain n where "walk m n q = Some p" unfolding path_set_def by blast
      then show False using walk_Some [OF assms(1) d(1)] assms(3) d(2) by fastforce
    qed
    moreover have "finite (path_set m q)" using finite_subset [OF sub [OF d(1)] assms(2)] .
    ultimately show ?thesis using path_set_step [of m p c] Some assms(3) by (simp add: path_tx_def)
  qed
qed

text \<open>So \<open>nChainTx\<close> never reaches the width of its type.\<close>

lemma nChainTx_path:
  assumes wf: "index_wf m" "finite (dom m)"
    and tx: "\<And>x c. m x = Some c \<Longrightarrow> nChainTx c = 0 \<or> nChainTx c = chain_tx m c"
  shows "m p = Some c \<Longrightarrow> nChainTx c \<le> path_tx m p"
proof (induction "nHeight c" arbitrary: p c rule: less_induct)
  case less
  show ?case
  proof (cases "pprev c")
    case None
    then show ?thesis using tx [OF less.prems] path_tx_step(1) [OF wf less.prems] by (auto simp: chain_tx_def)
  next
    case (Some q)
    obtain d where d: "m q = Some d" "nHeight c = Suc (nHeight d)" using index_wfD(2) [OF wf(1) less.prems Some] by blast
    have "nChainTx d \<le> path_tx m q" using less.hyps [OF _ d(1)] d(2) by simp
    then show ?thesis using tx [OF less.prems] path_tx_step(1) [OF wf less.prems] Some d(1)
      by (auto simp: chain_tx_def split: if_splits)
  qed
qed

lemma linked_sum_bound:
  assumes wf: "index_wf m" "finite (dom m)"
    and tx: "\<And>x c. m x = Some c \<Longrightarrow> nChainTx c = 0 \<or> nChainTx c = chain_tx m c"
    and p: "m p = Some c" and n: "(case pprev c of None \<Rightarrow> Some 0 | Some r \<Rightarrow> map_option nChainTx (m r)) = Some n"
  shows "n + nTx c \<le> tx_total m"
proof -
  have "n \<le> (case pprev c of None \<Rightarrow> 0 | Some q \<Rightarrow> path_tx m q)"
    using n nChainTx_path [OF wf tx] by (auto split: option.splits)
  then show ?thesis using path_tx_step [OF wf p] by simp
qed

text \<open>Adding failure marks keeps it.\<close>

lemma failures_addedD:
  assumes "failures_added m m'" and "m' x = Some c"
  shows "\<exists>b y. m x = Some b \<and> failure_bits y \<and> c = b\<lparr>nStatus := nStatus b OR y\<rparr>"
proof -
  obtain y where "failure_bits y" "m' x = map_option (\<lambda>b. b\<lparr>nStatus := nStatus b OR y\<rparr>) (m x)"
    using assms(1) unfolding failures_added_def by blast
  then show ?thesis using assms(2) by (cases "m x") auto
qed

lemma failures_addedE:
  assumes "failures_added m m'" and "m x = Some b"
  shows "\<exists>y. failure_bits y \<and> m' x = Some (b\<lparr>nStatus := nStatus b OR y\<rparr>)"
proof -
  obtain y where "failure_bits y" "m' x = map_option (\<lambda>b. b\<lparr>nStatus := nStatus b OR y\<rparr>) (m x)"
    using assms(1) unfolding failures_added_def by blast
  then show ?thesis using assms(2) by auto
qed

lemma tx_total_failures:
  assumes "failures_added m m'"
  shows "tx_total m' = tx_total m"
proof -
  have e: "map_option nTx (m' x) = map_option nTx (m x)" for x
    using failures_addedD [OF assms, of x] failures_addedE [OF assms, of x] by (cases "m x"; cases "m' x") fastforce+
  then have "m' x = None \<longleftrightarrow> m x = None" for x by (metis map_option_is_None)
  then have "dom m' = dom m" by (auto simp: dom_def)
  moreover have "nTx (the (m' x)) = nTx (the (m x))" if "x \<in> dom m" for x
    using e [of x] that by (cases "m' x") auto
  ultimately show ?thesis unfolding tx_total_def by (intro sum.cong) simp_all
qed

lemma IsValid_or:
  assumes "failure_bits y" and "\<not> failed (b\<lparr>nStatus := nStatus b OR y\<rparr>)"
  shows "\<not> failed b \<and> IsValid v (b\<lparr>nStatus := nStatus b OR y\<rparr>) = IsValid v b"
  using assms(2) failed_or [of b y] failure_bits_keep(2) [OF assms(1), of b] unfolding IsValid_def by auto

lemma chain_tx_failures:
  assumes "failures_added m m'"
  shows "chain_tx m' (c\<lparr>nStatus := x\<rparr>) = chain_tx m c"
proof (cases "pprev c")
  case (Some q)
  show ?thesis
  proof (cases "m q")
    case None
    then have "m' q = None" using same_links_None [OF failures_added_links [OF assms], of q] by simp
    then show ?thesis using Some None by (simp add: chain_tx_def)
  next
    case (Some d)
    then show ?thesis using failures_addedE [OF assms Some] \<open>pprev c = Some q\<close> by (auto simp: chain_tx_def)
  qed
qed (simp add: chain_tx_def)

lemma waits_failures: "failures_added m m' \<Longrightarrow> waits m' a x = waits m a x"
proof -
  assume f: "failures_added m m'"
  show ?thesis
  proof
    assume "waits m' a x"
    then obtain c q d where c: "m' x = Some c" "a = Some q" "pprev c = Some q" "m' q = Some d" "nTx c \<noteq> 0" "nChainTx d = 0"
      unfolding waits_def by blast
    obtain c' where "m x = Some c'" "pprev c' = pprev c" "nTx c' = nTx c" using failures_addedD [OF f c(1)] by auto
    moreover obtain d' where "m q = Some d'" "nChainTx d' = nChainTx d" using failures_addedD [OF f c(4)] by auto
    ultimately show "waits m a x" using c unfolding waits_def by auto
  next
    assume "waits m a x"
    then obtain c q d where c: "m x = Some c" "a = Some q" "pprev c = Some q" "m q = Some d" "nTx c \<noteq> 0" "nChainTx d = 0"
      unfolding waits_def by blast
    then show "waits m' a x" using failures_addedE [OF f c(1)] failures_addedE [OF f c(4)] unfolding waits_def by auto
  qed
qed

lemma keeps_index_inv:
  assumes "index_inv R s" and "keeps s s'" and "ready R s'"
  shows "index_inv R s'"
proof -
  note i = index_invD [OF assms(1)]
  have f: "failures_added (heap s) (heap s')" and k: "mapBlockIndex s' = mapBlockIndex s" "mapBlocksUnlinked s' = mapBlocksUnlinked s"
    using assms(2) no_data_missing [OF assms(1)] by (auto simp: keeps_def)
  have "nChainTx c = chain_tx (heap s') c" if c: "heap s' x = Some c" for x c
  proof -
    obtain b y where b: "heap s x = Some b" "c = b\<lparr>nStatus := nStatus b OR y\<rparr>" using failures_addedD [OF f c] by blast
    then show ?thesis using i(2) chain_tx_failures [OF f, where c = b] unfolding linked_ok_def by simp
  qed
  then have l: "linked_ok s'" using i(2) k(2) waits_failures [OF f] unfolding linked_ok_def by simp
  have h: "(\<exists>b. heap s' p = Some b \<and> phashBlock b = h) \<longleftrightarrow> (\<exists>b. heap s p = Some b \<and> phashBlock b = h)" for p h
    using failures_addedD [OF f, of p] failures_addedE [OF f, of p] by fastforce
  have v: "(nTx c \<noteq> 0 \<longrightarrow> have_data c) \<and> (\<not> failed c \<longrightarrow> IsValid BLOCK_VALID_TREE c) \<and>
      (nTx c \<noteq> 0 \<and> \<not> failed c \<longrightarrow> IsValid BLOCK_VALID_TRANSACTIONS c)" if c: "heap s' x = Some c" for x c
  proof -
    obtain b y where b: "heap s x = Some b" "failure_bits y" "c = b\<lparr>nStatus := nStatus b OR y\<rparr>"
      using failures_addedD [OF f c] by blast
    have "nTx c = nTx b" "have_data c = have_data b" using b(3) failure_bits_keep(1) [OF b(2)] by simp_all
    moreover have "\<not> failed b \<and> IsValid v c = IsValid v b" if "\<not> failed c" for v
      using IsValid_or [OF b(2)] that unfolding b(3) by blast
    ultimately show ?thesis using i(4-6) [OF b(1)] by auto
  qed
  have "tx_total (heap s') < 2 ^ 32" using i(8) tx_total_failures [OF f] by simp
  then show ?thesis using assms(3) l i(3) v unfolding index_inv_def hashes_ok_def k h by blast
qed

section \<open>Changing one block\<close>

text \<open>The invariant while the blocks of a queue are about to be linked.\<close>

definition can_link :: "block_heap \<Rightarrow> ptr \<Rightarrow> bool" where
  "can_link m x \<longleftrightarrow> (\<exists>c. m x = Some c \<and> nTx c \<noteq> 0 \<and> nChainTx c = 0 \<and>
     (\<forall>q. pprev c = Some q \<longrightarrow> (\<exists>d. m q = Some d \<and> nChainTx d \<noteq> 0)))"

definition queue_inv :: "block_results \<Rightarrow> chain_state \<Rightarrow> ptr list \<Rightarrow> bool" where
  "queue_inv R s queue \<longleftrightarrow> ready R s \<and> tx_total (heap s) < 2 ^ 32 \<and> hashes_ok (heap s) (map_of (mapBlockIndex s)) \<and>
     (\<forall>x c. heap s x = Some c \<longrightarrow> (nTx c \<noteq> 0 \<longrightarrow> have_data c) \<and> (\<not> failed c \<longrightarrow> IsValid BLOCK_VALID_TREE c) \<and>
        (nTx c \<noteq> 0 \<and> \<not> failed c \<longrightarrow> IsValid BLOCK_VALID_TRANSACTIONS c)) \<and>
     (\<forall>x c. heap s x = Some c \<and> x \<notin> set queue \<longrightarrow> nChainTx c = chain_tx (heap s) c) \<and>
     distinct (mapBlocksUnlinked s) \<and> (\<forall>a x. (a, x) \<in> set (mapBlocksUnlinked s) \<longleftrightarrow> waits (heap s) a x) \<and>
     distinct queue \<and> (\<forall>x \<in> set queue. can_link (heap s) x)"

lemma queue_inv_Nil: "queue_inv R s [] \<longleftrightarrow> index_inv R s"
  by (auto simp: queue_inv_def index_inv_def linked_ok_def)

lemma good_other:
  assumes "same_shape m m'" and "\<And>x. x \<noteq> p \<Longrightarrow> m' x = m x" and "m p = Some c" and "nChainTx c = 0"
    and "\<And>x b q d. m x = Some b \<Longrightarrow> pprev b = Some q \<Longrightarrow> m q = Some d \<Longrightarrow> nChainTx b \<noteq> 0 \<Longrightarrow> nChainTx d \<noteq> 0"
    and "q \<noteq> p"
  shows "good R m' q \<longleftrightarrow> good R m q"
proof -
  have off: "walk m n x \<noteq> Some p" if "x \<noteq> p" "\<forall>k y. walk m k x = Some y \<longrightarrow> (\<exists>e. m' y = Some e \<and> nChainTx e \<noteq> 0) \<or> (\<exists>e. m y = Some e \<and> nChainTx e \<noteq> 0)" for n x
    using that
  proof (induction n arbitrary: x)
    case (Suc n)
    show ?case
    proof
      assume w: "walk m (Suc n) x = Some p"
      then obtain b r where b: "m x = Some b" "pprev b = Some r" "walk m n r = Some p" by (auto split: option.splits)
      have "m' x = m x" using assms(2) Suc.prems(1) by blast
      then have nb: "nChainTx b \<noteq> 0" using Suc.prems(2) [rule_format, of 0 x] b(1) by auto
      show False
      proof (cases "r = p")
        case True
        then show False using assms(5) [OF b(1,2)] assms(3,4) nb by blast
      next
        case False
        moreover have "walk m (Suc k) x = walk m k r" for k using b(1,2) by simp
        ultimately show False using Suc.IH [of r] Suc.prems(2) b(3) by metis
      qed
    qed
  qed simp
  have same: "m' y = m y" if g: "good R m' q \<or> good R m q" and w: "walk m n q = Some y" for n y
  proof -
    have "\<forall>k y. walk m k q = Some y \<longrightarrow> (\<exists>e. m' y = Some e \<and> nChainTx e \<noteq> 0) \<or> (\<exists>e. m y = Some e \<and> nChainTx e \<noteq> 0)"
      using g unfolding good_def walk_shape [OF assms(1), symmetric] by blast
    then have "y \<noteq> p" using off [OF assms(6)] w by blast
    then show ?thesis by (rule assms(2))
  qed
  have w: "walk m' n q = walk m n q" for n using walk_shape [OF assms(1)] by simp
  show ?thesis
  proof
    assume g: "good R m' q"
    have "\<exists>c. m y = Some c \<and> \<not> unusable c \<and> nChainTx c \<noteq> 0 \<and> connect_result_of R y = Connected" if y: "walk m n q = Some y" for n y
    proof -
      have "\<exists>c. m' y = Some c \<and> \<not> unusable c \<and> nChainTx c \<noteq> 0 \<and> connect_result_of R y = Connected"
        using g y unfolding good_def w by blast
      then show ?thesis using same [OF disjI1 [OF g] y] by simp
    qed
    then show "good R m q" unfolding good_def by blast
  next
    assume g: "good R m q"
    have "\<exists>c. m' y = Some c \<and> \<not> unusable c \<and> nChainTx c \<noteq> 0 \<and> connect_result_of R y = Connected" if y: "walk m n q = Some y" for n y
    proof -
      have "\<exists>c. m y = Some c \<and> \<not> unusable c \<and> nChainTx c \<noteq> 0 \<and> connect_result_of R y = Connected"
        using g y unfolding good_def by blast
      then show ?thesis using same [OF disjI2 [OF g] y] by simp
    qed
    then show "good R m' q" unfolding good_def w by blast
  qed
qed

text \<open>An unlinked block gets its data or its place in the chain of transactions.\<close>

lemma ready_update:
  assumes "ready R s" and p: "heap s p = Some c" "nChainTx c = 0" and h: "heap s' = (heap s)(p \<mapsto> c')"
    and c': "pprev c' = pprev c" "pskip c' = pskip c" "nHeight c' = nHeight c" "nChainWork c' = nChainWork c"
    and v: "chainActive s' = chainActive s"
    and tx: "nChainTx c' \<noteq> 0 \<Longrightarrow> nTx c' \<noteq> 0" "\<And>q d. nChainTx c' \<noteq> 0 \<Longrightarrow> pprev c = Some q \<Longrightarrow> heap s q = Some d \<Longrightarrow> nChainTx d \<noteq> 0"
    and cands: "set (candidates s) \<subseteq> set (candidates s')" "\<And>x. x \<in> set (candidates s') \<Longrightarrow> x \<in> set (candidates s) \<or> x = p \<and> nChainTx c' \<noteq> 0"
      "nChainTx c' \<noteq> 0 \<Longrightarrow> (\<And>t. Tip (chainActive s) = Some t \<Longrightarrow> \<not> WorkComparator (heap s') p t) \<Longrightarrow> p \<in> set (candidates s')"
    and u: "\<And>a x. (a, x) \<in> set (mapBlocksUnlinked s') \<Longrightarrow> \<exists>b. heap s' x = Some b \<and> pprev b = a \<and> nTx b \<noteq> 0"
  shows "ready R s'"
proof -
  have wf: "state_wf s" and root: "one_root (heap s)" and tip: "\<And>t. Tip (chainActive s) = Some t \<Longrightarrow> good R (heap s) t"
    and comp: "\<And>x. good R (heap s) x \<Longrightarrow> (\<And>t. Tip (chainActive s) = Some t \<Longrightarrow> \<not> WorkComparator (heap s) x t) \<Longrightarrow> x \<in> set (candidates s)"
    using assms(1) unfolding ready_def by blast+
  note w = state_wfD [OF wf]
  have shape: "same_shape (heap s) (heap s')" using p c' by (simp add: same_shape_def h)
  have np: "x \<noteq> p" if "good R (heap s) x" for x using goodD [OF that] p by auto
  have g: "good R (heap s') x \<longleftrightarrow> good R (heap s) x" if "x \<noteq> p" for x
    by (rule good_other [OF shape _ p _ that]) (use w(7) h in auto)
  have cmp: "WorkComparator (heap s') x y = WorkComparator (heap s) x y" if "x \<noteq> p" "y \<noteq> p" for x y
    using that by (simp add: WorkComparator_def h)
  have lk: "nChainTx b \<noteq> 0 \<Longrightarrow> nTx b \<noteq> 0" if "heap s' x = Some b" for x b
    using that w(5) [of x b] tx(1) by (auto simp: h split: if_splits)
  have par: "nChainWork d < nChainWork b \<and> (nChainTx b \<noteq> 0 \<longrightarrow> nChainTx d \<noteq> 0)"
    if b: "heap s' x = Some b" "pprev b = Some q" "heap s' q = Some d" for x b q d
  proof -
    define b0 where "b0 = (if x = p then c else b)"
    define d0 where "d0 = (if q = p then c else d)"
    have b0: "heap s x = Some b0" "pprev b0 = Some q" "nChainWork b0 = nChainWork b"
      using b(1,2) p(1) c' by (auto simp: b0_def h split: if_splits)
    have d0: "heap s q = Some d0" "nChainWork d0 = nChainWork d" using b(3) p(1) c' by (auto simp: d0_def h split: if_splits)
    have "x \<noteq> q" using w(6) [OF b0(1,2) d0(1)] b0 d0 by auto
    moreover have "nChainTx d \<noteq> 0" if "nChainTx b \<noteq> 0"
    proof (cases "x = p")
      case True
      then have "q \<noteq> p" using \<open>x \<noteq> q\<close> by simp
      then show ?thesis using tx(2) [of q d] True b b0 d0 that by (auto simp: h b0_def d0_def)
    next
      case False
      then have "nChainTx d0 \<noteq> 0" using w(7) [OF b0(1,2) d0(1)] that by (simp add: b0_def)
      then show ?thesis using p by (auto simp: d0_def split: if_splits)
    qed
    ultimately show ?thesis using w(6) [OF b0(1,2) d0(1)] b0(3) d0(2) by simp
  qed
  have cs: "\<exists>b. heap s' x = Some b \<and> nChainTx b \<noteq> 0" if "x \<in> set (candidates s')" for x
    using cands(2) [OF that] w(4) [of x] p by (auto simp: h)
  have "finite (dom (heap s'))" using w(2) by (simp add: h)
  then have "state_wf s'"
    unfolding state_wf_def v
    using index_wf_shape [OF shape w(1)] chain_ok_shape [OF shape w(3)] lk par cs u by blast
  moreover have "one_root (heap s')"
  proof -
    have "\<exists>b0. heap s x = Some b0 \<and> pprev b0 = pprev b" if "heap s' x = Some b" for x b
      using that p c' by (auto simp: h split: if_splits)
    then show ?thesis using root unfolding one_root_def by metis
  qed
  moreover have "good R (heap s') t" if "Tip (chainActive s') = Some t" for t
    using tip [of t] g np that v by simp
  moreover have "x \<in> set (candidates s')"
    if x: "good R (heap s') x" "\<forall>t. Tip (chainActive s') = Some t \<longrightarrow> \<not> WorkComparator (heap s') x t" for x
  proof (cases "x = p")
    case True
    then have "nChainTx c' \<noteq> 0" using goodD [OF x(1)] by (auto simp: h)
    then show ?thesis using cands(3) x(2) v True by simp
  next
    case False
    have "\<not> WorkComparator (heap s) x t" if "Tip (chainActive s) = Some t" for t
      using x(2) cmp [OF False np [OF tip [OF that]]] that v by simp
    then show ?thesis using comp [of x] g [OF False] x(1) cands(1) by blast
  qed
  ultimately show ?thesis unfolding ready_def by blast
qed

section \<open>The queue of ReceivedBlockTransactions\<close>

lemma queue_invD:
  assumes "queue_inv R s queue"
  shows "ready R s" and "hashes_ok (heap s) (map_of (mapBlockIndex s))"
    and "heap s x = Some c \<Longrightarrow> (nTx c \<noteq> 0 \<longrightarrow> have_data c) \<and> (\<not> failed c \<longrightarrow> IsValid BLOCK_VALID_TREE c) \<and>
        (nTx c \<noteq> 0 \<and> \<not> failed c \<longrightarrow> IsValid BLOCK_VALID_TRANSACTIONS c)"
    and "heap s x = Some c \<Longrightarrow> x \<notin> set queue \<Longrightarrow> nChainTx c = chain_tx (heap s) c"
    and "distinct (mapBlocksUnlinked s)" and "(a, x) \<in> set (mapBlocksUnlinked s) \<longleftrightarrow> waits (heap s) a x"
    and "distinct queue" and "x \<in> set queue \<Longrightarrow> can_link (heap s) x" and "state_wf s" and "tx_total (heap s) < 2 ^ 32"
  using assms unfolding queue_inv_def ready_def by blast+

lemma hashes_ok_update:
  assumes "hashes_ok m i" and "m p = Some c" and "phashBlock c' = phashBlock c"
  shows "hashes_ok (m(p \<mapsto> c')) i"
proof -
  have "(\<exists>b. (m(p \<mapsto> c')) x = Some b \<and> phashBlock b = h) \<longleftrightarrow> (\<exists>b. m x = Some b \<and> phashBlock b = h)" for x h
    using assms(2,3) by auto
  then show ?thesis using assms(1) unfolding hashes_ok_def by simp
qed

lemma distinct_waiting: "distinct xs \<Longrightarrow> distinct (map snd (filter (\<lambda>x. fst x = k) xs))"
  by (induction xs) auto

lemma link_block_queue:
  assumes "queue_inv R s (p # queue)"
  shows "\<exists>s1. link_block p s = Some s1 \<and>
    queue_inv R (s1\<lparr>mapBlocksUnlinked := filter (\<lambda>x. fst x \<noteq> Some p) (mapBlocksUnlinked s)\<rparr>)
      (queue @ map snd (filter (\<lambda>x. fst x = Some p) (mapBlocksUnlinked s)))"
proof -
  note q = queue_invD [OF assms]
  obtain c where c: "heap s p = Some c" "nTx c \<noteq> 0" "nChainTx c = 0"
    and par: "\<And>r. pprev c = Some r \<Longrightarrow> \<exists>d. heap s r = Some d \<and> nChainTx d \<noteq> 0"
    using q(8) [of p] unfolding can_link_def by auto
  obtain n where n: "(case pprev c of None \<Rightarrow> Some 0 | Some r \<Rightarrow> map_option nChainTx (heap s r)) = Some n"
    "n + nTx c = (case pprev c of None \<Rightarrow> nTx c | Some r \<Rightarrow> (case heap s r of None \<Rightarrow> 0 | Some d \<Rightarrow> if nChainTx d = 0 then 0 else nChainTx d + nTx c))"
    using par by (cases "pprev c") fastforce+
  have "nChainTx d = 0 \<or> nChainTx d = chain_tx (heap s) d" if "heap s x = Some d" for x d
    using q(4) [OF that] q(8) [of x] that unfolding can_link_def by fastforce
  then have "n + nTx c \<le> tx_total (heap s)"
    using linked_sum_bound [OF state_wfD(1,2) [OF q(9)] _ c(1) n(1)] by blast
  then have small: "nat_u32 (n + nTx c) = n + nTx c" using q(10) by (intro nat_u32_small) simp
  define c1 where "c1 = c\<lparr>nChainTx := nat_u32 (n + nTx c), nSequenceId := nBlockSequenceId s\<rparr>"
  define s1 where "s1 = (update_block p (\<lambda>b. b\<lparr>nChainTx := nat_u32 (n + nTx b), nSequenceId := nBlockSequenceId s\<rparr>) s)
    \<lparr>nBlockSequenceId := nat_u32 (nBlockSequenceId s + 1)\<rparr>"
  define s2 where "s2 = (case Tip (chainActive s1) of
      None \<Rightarrow> insert_candidate p s1 | Some tip \<Rightarrow> if \<not> WorkComparator (heap s1) p tip then insert_candidate p s1 else s1)"
  define u where "u = filter (\<lambda>x. fst x \<noteq> Some p) (mapBlocksUnlinked s)"
  define s' where "s' = s2\<lparr>mapBlocksUnlinked := u\<rparr>"
  define new where "new = map snd (filter (\<lambda>x. fst x = Some p) (mapBlocksUnlinked s))"
  have l: "link_block p s = Some s2" by (simp only: link_block_def c(1) n(1) option.case Let_def s2_def s1_def)
  have h1: "heap s1 = (heap s)(p \<mapsto> c1)" using c(1) by (simp add: s1_def update_block_def c1_def)
  have f: "heap s' = (heap s)(p \<mapsto> c1)" "chainActive s' = chainActive s" "mapBlockIndex s' = mapBlockIndex s" "mapBlocksUnlinked s' = u"
    by (auto simp: s'_def s2_def h1 [symmetric] insert_candidate_def split: option.split)
      (simp_all add: s1_def update_block_def)
  have cs: "set (candidates s) \<subseteq> set (candidates s')" "x \<in> set (candidates s') \<Longrightarrow> x \<in> set (candidates s) \<or> x = p"
    "(\<And>t. Tip (chainActive s) = Some t \<Longrightarrow> \<not> WorkComparator (heap s') p t) \<Longrightarrow> p \<in> set (candidates s')" for x
    unfolding f by (auto simp: s'_def s2_def h1 [symmetric] insert_candidate_def s1_def update_block_def split: option.splits if_splits)
  have cmp: "chain_tx (heap s') b = chain_tx (heap s) b" if "pprev b \<noteq> Some p" for b
    using that by (auto simp: chain_tx_def f split: option.split)
  have np: "pprev c \<noteq> Some p" using par c by force
  have c1: "pprev c1 = pprev c" "nTx c1 = nTx c" "nChainTx c1 = n + nTx c" by (simp_all add: c1_def small)
  have "chain_tx (heap s') c1 = chain_tx (heap s') c" by (simp only: chain_tx_def c1)
  moreover have "chain_tx (heap s) c = n + nTx c" unfolding chain_tx_def n(2) using c(2) by simp
  ultimately have lnk: "chain_tx (heap s') c1 = nChainTx c1" "nChainTx c1 \<noteq> 0" using cmp [OF np] c1 c(2) by simp_all
  have wt: "(a, x) \<in> set u \<longleftrightarrow> waits (heap s') a x" for a x
  proof -
    have "waits (heap s') a x \<longleftrightarrow> waits (heap s) a x \<and> a \<noteq> Some p"
      using c(1,2) np lnk(2) by (auto simp: waits_def f c1_def)
    then show ?thesis using q(6) by (auto simp: u_def)
  qed
  have new: "x \<in> set new \<longleftrightarrow> waits (heap s) (Some p) x" for x
    using q(6) [of "Some p" x] unfolding new_def by force
  have r: "ready R s'"
  proof (rule ready_update [OF q(1) c(1,3) f(1) _ _ _ _ f(2)])
    show "nTx c1 \<noteq> 0" using c(2) by (simp add: c1_def)
    show "nChainTx d \<noteq> 0" if "pprev c = Some x" "heap s x = Some d" for x d using par [OF that(1)] that(2) by simp
    show "\<exists>b. heap s' x = Some b \<and> pprev b = a \<and> nTx b \<noteq> 0" if "(a, x) \<in> set (mapBlocksUnlinked s')" for a x
    proof -
      have "waits (heap s') a x" using wt that by (simp add: f(4))
      then show ?thesis unfolding waits_def by auto
    qed
    show "p \<in> set (candidates s')" if "\<And>t. Tip (chainActive s) = Some t \<Longrightarrow> \<not> WorkComparator (heap s') p t"
      using cs(3) that by blast
    show "x \<in> set (candidates s) \<or> x = p \<and> nChainTx c1 \<noteq> 0" if "x \<in> set (candidates s')" for x
      using cs(2) [OF that] lnk(2) by blast
    show "set (candidates s) \<subseteq> set (candidates s')" by (rule cs(1))
  qed (simp_all add: c1_def)
  have child: "nChainTx b = 0" if "heap s x = Some b" "pprev b = Some p" for x b
    using state_wfD(7) [OF q(9) that c(1)] c(3) by auto
  have v: "(nTx b \<noteq> 0 \<longrightarrow> have_data b) \<and> (\<not> failed b \<longrightarrow> IsValid BLOCK_VALID_TREE b) \<and>
        (nTx b \<noteq> 0 \<and> \<not> failed b \<longrightarrow> IsValid BLOCK_VALID_TRANSACTIONS b)" if "heap s' x = Some b" for x b
  proof (cases "x = p")
    case True
    then have "b = c1" using that f by simp
    then show ?thesis using q(3) [OF c(1)] by (simp add: c1_def have_data_def failed_def IsValid_def)
  next
    case False
    then show ?thesis using q(3) [of x b] that f by simp
  qed
  have tx: "nChainTx b = chain_tx (heap s') b" if b: "heap s' x = Some b" "x \<notin> set (queue @ new)" for x b
  proof (cases "x = p")
    case True
    then show ?thesis using lnk b(1) f by simp
  next
    case False
    then have hx: "heap s x = Some b" using b(1) f by simp
    have old: "nChainTx b = chain_tx (heap s) b" using q(4) [OF hx] b(2) False by simp
    show ?thesis
    proof (cases "pprev b = Some p")
      case True
      have "\<not> waits (heap s) (Some p) x" using new b(2) by simp
      then have "nTx b = 0" using hx True c(1,3) by (auto simp: waits_def)
      then show ?thesis using old by (simp add: chain_tx_def)
    next
      case False
      then show ?thesis using old cmp by simp
    qed
  qed
  have can: "can_link (heap s') x" if "x \<in> set (queue @ new)" for x
  proof -
    consider "x \<in> set queue" | "waits (heap s) (Some p) x" using \<open>x \<in> set (queue @ new)\<close> new by auto
    then show ?thesis
    proof cases
      case 1
      then have "x \<noteq> p" using q(7) by auto
      obtain b where b: "heap s x = Some b" "nTx b \<noteq> 0" "nChainTx b = 0" "\<And>r. pprev b = Some r \<Longrightarrow> \<exists>d. heap s r = Some d \<and> nChainTx d \<noteq> 0"
        using q(8) [of x] 1 unfolding can_link_def by auto
      then have "\<exists>d. heap s' r = Some d \<and> nChainTx d \<noteq> 0" if "pprev b = Some r" for r
        using b(4) [OF that] lnk(2) f by (cases "r = p") auto
      then show ?thesis using b(1-3) \<open>x \<noteq> p\<close> f unfolding can_link_def by auto
    next
      case 2
      then obtain b where b: "heap s x = Some b" "pprev b = Some p" "nTx b \<noteq> 0" unfolding waits_def by auto
      then have "x \<noteq> p" using np c(1) by auto
      then show ?thesis using b child [OF b(1,2)] lnk(2) f unfolding can_link_def by auto
    qed
  qed
  have "x \<notin> set new" if "x \<in> set queue" for x
  proof
    assume "x \<in> set new"
    then obtain b where "heap s x = Some b" "pprev b = Some p" using new unfolding waits_def by blast
    then show False using q(8) [of x] that c(1,3) unfolding can_link_def by auto
  qed
  then have d: "distinct (queue @ new)" using q(7) distinct_waiting [OF q(5), of "Some p"] by (auto simp: new_def)
  have "hashes_ok (heap s') (map_of (mapBlockIndex s'))"
    unfolding f by (rule hashes_ok_update [OF q(2) c(1)]) (simp add: c1_def)
  moreover have "tx_total (heap s') < 2 ^ 32"
    using tx_total_update [OF state_wfD(2) [OF q(9)] c(1), of c1] q(10) c1(2) by (simp add: f)
  ultimately have "queue_inv R s' (queue @ new)"
    using r v tx can d wt q(5) unfolding queue_inv_def f(4) u_def by (auto simp del: set_append)
  then show ?thesis using l by (auto simp: s'_def u_def new_def)
qed

lemma process_queue_inv: "queue_inv R s queue \<Longrightarrow> \<exists>s'. process_queue queue s = Some s' \<and> index_inv R s'"
proof (induction queue s rule: process_queue.induct)
  case (1 s)
  then show ?case by (simp add: queue_inv_Nil)
next
  case (2 p queue s)
  obtain s1 where s1: "link_block p s = Some s1"
    "queue_inv R (s1\<lparr>mapBlocksUnlinked := filter (\<lambda>x. fst x \<noteq> Some p) (mapBlocksUnlinked s)\<rparr>)
      (queue @ map snd (filter (\<lambda>x. fst x = Some p) (mapBlocksUnlinked s)))"
    using link_block_queue [OF "2.prems"] by blast
  then show ?case using "2.IH" [OF s1] by simp
qed

text \<open>Raising the validity.\<close>

lemma mask_disjoint: "(x AND NOT m) AND k = x AND k" if "m AND k = 0" for x m k :: "32 word"
proof (rule bit_eqI)
  fix n assume "possible_bit TYPE(32 word) n"
  then have n: "n < 32" by simp
  have "\<not> bit (m AND k) n" using that by simp
  then show "bit ((x AND NOT m) AND k) n = bit (x AND k) n" using n by (auto simp: bit_and_iff bit_not_iff)
qed

lemma RaiseValidity_fields [simp]:
  "pprev (RaiseValidity v b) = pprev b" "pskip (RaiseValidity v b) = pskip b" "nHeight (RaiseValidity v b) = nHeight b"
  "nChainWork (RaiseValidity v b) = nChainWork b" "nTx (RaiseValidity v b) = nTx b" "nChainTx (RaiseValidity v b) = nChainTx b"
  "phashBlock (RaiseValidity v b) = phashBlock b"
  by (simp_all add: RaiseValidity_def)

lemma RaiseValidity_status:
  assumes "v = BLOCK_VALID_TREE \<or> v = BLOCK_VALID_TRANSACTIONS"
  shows "failed (RaiseValidity v b) = failed b" and "have_data (RaiseValidity v b) = have_data b"
    and "\<not> failed b \<Longrightarrow> IsValid v (RaiseValidity v b)" and "\<not> failed b \<Longrightarrow> IsValid BLOCK_VALID_TREE (RaiseValidity v b)"
proof -
  have m: "BLOCK_VALID_MASK AND BLOCK_FAILED_MASK = 0" "BLOCK_VALID_MASK AND BLOCK_HAVE_DATA = 0"
    "v AND BLOCK_FAILED_MASK = 0" "v AND BLOCK_HAVE_DATA = 0" "v AND BLOCK_VALID_MASK = v" "BLOCK_VALID_TREE \<le> v"
    using assms by (auto simp: BLOCK_VALID_MASK_def BLOCK_FAILED_MASK_def BLOCK_FAILED_VALID_def BLOCK_FAILED_CHILD_def
      BLOCK_HAVE_DATA_def BLOCK_VALID_TREE_def BLOCK_VALID_TRANSACTIONS_def)
  note d = mask_disjoint [OF m(1)] mask_disjoint [OF m(2)]
  show f: "failed (RaiseValidity v b) = failed b" "have_data (RaiseValidity v b) = have_data b"
    by (simp_all add: RaiseValidity_def failed_def have_data_def bit.conj_disj_distrib2 d m)
  have "((x AND NOT BLOCK_VALID_MASK) OR v) AND BLOCK_VALID_MASK = v" for x
    by (simp add: bit.conj_disj_distrib2 and.assoc m)
  then have "v \<le> nStatus (RaiseValidity v b) AND BLOCK_VALID_MASK" if "\<not> failed b"
    using that by (auto simp: RaiseValidity_def not_less)
  then show "IsValid v (RaiseValidity v b)" "IsValid BLOCK_VALID_TREE (RaiseValidity v b)" if "\<not> failed b"
    using that f(1) m(6) unfolding IsValid_def by auto
qed

section \<open>ReceivedBlockTransactions\<close>

lemma Received_inv:
  assumes "index_inv R s" and b: "heap s p = Some b" "nTx b = 0" and "n \<noteq> 0" and total: "tx_total (heap s) + n < 2 ^ 32"
    and par: "\<And>q d. pprev b = Some q \<Longrightarrow> heap s q = Some d \<Longrightarrow> \<not> failed d"
  shows "\<exists>s'. ReceivedBlockTransactions p n s = Some s' \<and> index_inv R s'"
proof -
  note i = index_invD [OF assms(1)]
  have tx0: "nChainTx c = chain_tx (heap s) c" if "heap s x = Some c" for x c using i(2) that unfolding linked_ok_def by blast
  have b0: "nChainTx b = 0" using tx0 [OF b(1)] b(2) by (simp add: chain_tx_def)
  define f where "f = (\<lambda>b :: CBlockIndex. RaiseValidity BLOCK_VALID_TRANSACTIONS
      (b\<lparr>nTx := nat_u32 n, nChainTx := 0, nStatus := nStatus b OR BLOCK_HAVE_DATA OR BLOCK_OPT_WITNESS\<rparr>))"
  define c where "c = f b"
  have small: "nat_u32 n = n" using total by (intro nat_u32_small) simp
  have c: "pprev c = pprev b" "pskip c = pskip b" "nHeight c = nHeight b" "nChainWork c = nChainWork b"
    "nTx c = n" "nChainTx c = 0" "phashBlock c = phashBlock b"
    by (simp_all add: c_def f_def small)
  have dat: "have_data c" unfolding c_def f_def
    by (simp add: RaiseValidity_status) (simp add: have_data_def bit.conj_disj_distrib2 BLOCK_HAVE_DATA_def BLOCK_OPT_WITNESS_def or_eq_0_iff)
  have val: "IsValid BLOCK_VALID_TRANSACTIONS c \<and> IsValid BLOCK_VALID_TREE c" if "\<not> failed c"
    using that unfolding c_def f_def by (simp add: RaiseValidity_status)
  define s1 where "s1 = update_block p f s"
  have h1: "heap s1 = (heap s)(p \<mapsto> c)" and f1: "chainActive s1 = chainActive s" "candidates s1 = candidates s"
    "mapBlockIndex s1 = mapBlockIndex s" "mapBlocksUnlinked s1 = mapBlocksUnlinked s"
    using b(1) by (simp_all add: s1_def update_block_def c_def)
  have bound: "tx_total (heap s1) < 2 ^ 32"
    using tx_total_update [OF state_wfD(2) [OF i(7)] b(1), of c] total b(2) c(5) by (simp add: h1)
  have pq: "pprev b \<noteq> Some p" using state_wfD(6) [OF i(7) b(1) _ b(1)] by auto
  have hashes: "hashes_ok (heap s1) (map_of (mapBlockIndex s1))"
    unfolding h1 f1 by (rule hashes_ok_update [OF i(3) b(1) c(7)])
  have v: "(nTx d \<noteq> 0 \<longrightarrow> have_data d) \<and> (\<not> failed d \<longrightarrow> IsValid BLOCK_VALID_TREE d) \<and>
        (nTx d \<noteq> 0 \<and> \<not> failed d \<longrightarrow> IsValid BLOCK_VALID_TRANSACTIONS d)" if "heap s1 x = Some d" for x d
    using that i(4-6) [of x d] dat val by (auto simp: h1 split: if_splits)
  have tx: "nChainTx d = chain_tx (heap s1) d" if d: "heap s1 x = Some d" "x \<noteq> p" for x d
  proof -
    have "chain_tx (heap s1) d = chain_tx (heap s) d" using b(1) b0 c(6) by (auto simp: chain_tx_def h1 split: option.split)
    then show ?thesis using tx0 [of x d] d by (simp add: h1)
  qed
  have wt: "waits (heap s1) a x \<longleftrightarrow> waits (heap s) a x \<or> (x = p \<and> (\<exists>q d. a = Some q \<and> pprev b = Some q \<and> heap s q = Some d \<and> nChainTx d = 0))" for a x
    using b b0 c assms(4) pq by (auto simp: waits_def h1 split: if_splits)
  have old: "waits (heap s) a x \<longleftrightarrow> (a, x) \<in> set (mapBlocksUnlinked s)" and du: "distinct (mapBlocksUnlinked s)" for a x
    using i(2) unfolding linked_ok_def by blast+
  have rdy: "ready R s'" if "heap s' = heap s1" "chainActive s' = chainActive s" "candidates s' = candidates s"
    and u: "\<And>a x. (a, x) \<in> set (mapBlocksUnlinked s') \<Longrightarrow> waits (heap s1) a x" for s'
  proof (rule ready_update [OF i(1) b(1) b0 _ c(1-4) that(2)])
    show "\<exists>b. heap s' x = Some b \<and> pprev b = a \<and> nTx b \<noteq> 0" if "(a, x) \<in> set (mapBlocksUnlinked s')" for a x
      using u [OF that] \<open>heap s' = heap s1\<close> by (auto simp: waits_def)
  qed (use that(1,3) c(6) h1 in auto)
  have s1e: "update_block p (\<lambda>b. RaiseValidity BLOCK_VALID_TRANSACTIONS
      (b\<lparr>nTx := nat_u32 n, nChainTx := 0, nStatus := nStatus b OR BLOCK_HAVE_DATA OR BLOCK_OPT_WITNESS\<rparr>)) s = s1"
    by (simp only: s1_def f_def)
  have hp: "heap s1 p = Some c" by (simp add: h1)
  have r: "ReceivedBlockTransactions p n s =
     (case pprev b of
        None \<Rightarrow> process_queue [p] s1
      | Some q \<Rightarrow>
          (case heap s1 q of
             None \<Rightarrow> None
           | Some c \<Rightarrow>
               if nChainTx c \<noteq> 0 then process_queue [p] s1
               else if IsValid BLOCK_VALID_TREE c then Some (s1\<lparr>mapBlocksUnlinked := mapBlocksUnlinked s1 @ [(Some q, p)]\<rparr>)
               else Some s1))"
    unfolding ReceivedBlockTransactions_def s1e by (simp only: Let_def hp option.case c(1))
  have queue: "\<exists>s'. process_queue [p] s1 = Some s' \<and> index_inv R s'"
    if p: "\<And>q. pprev b = Some q \<Longrightarrow> \<exists>d. heap s q = Some d \<and> nChainTx d \<noteq> 0"
  proof (rule process_queue_inv)
    have w: "waits (heap s1) a x \<longleftrightarrow> (a, x) \<in> set (mapBlocksUnlinked s1)" for a x
      using wt [of a x] old p f1 by fastforce
    have "can_link (heap s1) p" using p pq c assms(4) unfolding can_link_def h1 by fastforce
    moreover have "\<forall>x c. heap s1 x = Some c \<and> x \<noteq> p \<longrightarrow> nChainTx c = chain_tx (heap s1) c" using tx by blast
    ultimately show "queue_inv R s1 [p]"
      using rdy [of s1] w f1 hashes v du bound unfolding queue_inv_def by simp
  qed
  show ?thesis
  proof (cases "pprev b")
    case None
    then show ?thesis using r queue by simp
  next
    case (Some q)
    obtain d where d: "heap s q = Some d" using index_wfD(2) [OF state_wfD(1) [OF i(7)] b(1) Some] by blast
    have d1: "heap s1 q = Some d" using d Some pq by (auto simp: h1)
    show ?thesis
    proof (cases "nChainTx d = 0")
      case False
      then show ?thesis using r queue Some d d1 by simp
    next
      case True
      define s' where "s' = s1\<lparr>mapBlocksUnlinked := mapBlocksUnlinked s1 @ [(Some q, p)]\<rparr>"
      have res: "ReceivedBlockTransactions p n s = Some s'"
        using r Some d1 True i(5) [OF d] par [OF Some d] by (simp add: s'_def)
      have w: "waits (heap s') a x \<longleftrightarrow> (a, x) \<in> set (mapBlocksUnlinked s')" for a x
        using wt [of a x] old Some d True f1 by (auto simp: s'_def)
      have "(Some q, p) \<notin> set (mapBlocksUnlinked s)" using old [of "Some q" p] b by (auto simp: waits_def)
      then have "distinct (mapBlocksUnlinked s')" using du f1 by (simp add: s'_def)
      moreover have "\<forall>x e. heap s' x = Some e \<longrightarrow> nChainTx e = chain_tx (heap s') e"
      proof (intro allI impI)
        fix x e assume that: "heap s' x = Some e"
        show "nChainTx e = chain_tx (heap s') e"
      proof (cases "x = p")
        case True
        then have "e = c" using that by (simp add: s'_def h1)
        then show ?thesis using c(1,5,6) Some d1 \<open>nChainTx d = 0\<close> by (simp add: chain_tx_def s'_def)
      next
        case False
        then show ?thesis using tx [of x e] that by (simp add: s'_def)
      qed
      qed
      ultimately have "queue_inv R s' []"
        using rdy [of s'] w f1 hashes v bound unfolding queue_inv_def by (simp add: s'_def)
      then show ?thesis using res by (simp add: queue_inv_Nil)
    qed
  qed
qed

section \<open>AddToBlockIndex\<close>

text \<open>A new block in the heap.\<close>

lemma walk_new:
  assumes "index_wf m" and "index_wf m'" and "m \<subseteq>\<^sub>m m'" and "m x = Some b"
  shows "walk m' n x = walk m n x"
proof (cases "walk m n x")
  case (Some y)
  then show ?thesis using walk_mono [OF assms(3)] by simp
next
  case None
  show ?thesis
  proof (rule ccontr)
    assume "\<not> ?thesis"
    then obtain y where y: "walk m' n x = Some y" using None by fastforce
    have "m' x = Some b" using assms(3,4) by (metis domI map_le_def)
    then have "n \<le> nHeight b" using walk_Some [OF assms(2) _ y] by blast
    then show False using walk_height [OF assms(1,4)] None by fastforce
  qed
qed

lemma index_wf_new:
  assumes wf: "index_wf m" and "m new = None" and q: "m q = Some c"
    and b: "pprev b = Some q" "nHeight b = Suc (nHeight c)" "pskip b = walk m (nHeight c - nat (GetSkipHeight (int (Suc (nHeight c))))) q"
  shows "index_wf (m(new \<mapsto> b))"
proof -
  let ?m = "m(new \<mapsto> b)"
  have le: "m \<subseteq>\<^sub>m ?m" using assms(2) by (auto simp: map_le_def)
  have s: "0 \<le> GetSkipHeight (int (Suc (nHeight c)))" "GetSkipHeight (int (Suc (nHeight c))) < int (Suc (nHeight c))"
    using GetSkipHeight_bounds [of "int (Suc (nHeight c))"] by simp_all
  show ?thesis
    unfolding index_wf_def
  proof (intro allI impI)
    fix p d assume d: "?m p = Some d"
    show "block_ok ?m p d"
    proof (cases "p = new")
      case True
      define k where "k = nat (GetSkipHeight (int (Suc (nHeight c))))"
      have k: "k \<le> nHeight c" using s by (simp add: k_def)
      obtain y where y: "walk m (nHeight c - k) q = Some y" using walk_height [OF wf q, of "nHeight c - k"] by auto
      then have "walk ?m (nHeight b - k) new = Some y"
        using walk_mono [OF le y] b(1,2) k by (simp add: Suc_diff_le)
      moreover have "d = b" "q \<noteq> new" using d True assms(2) q by auto
      ultimately show ?thesis using b q y True unfolding block_ok_def k_def [symmetric] by (simp add: k_def)
    next
      case False
      then have d: "m p = Some d" using d by simp
      show ?thesis
      proof (cases "pprev d")
        case None
        then show ?thesis using index_wfD(1) [OF wf d] by (simp add: block_ok_def)
      next
        case (Some r)
        have "nHeight d - nat (GetSkipHeight (int (nHeight d))) \<le> nHeight d" by simp
        then obtain y where "walk m (nHeight d - nat (GetSkipHeight (int (nHeight d)))) p = Some y"
          using walk_height [OF wf d] by blast
        moreover obtain e where "m r = Some e" "nHeight d = Suc (nHeight e)" using index_wfD(2) [OF wf d Some] by blast
        ultimately show ?thesis
          using index_wfD(3) [OF wf d Some] walk_mono [OF le] Some assms(2) unfolding block_ok_def by auto
      qed
    qed
  qed
qed

lemma good_new:
  assumes "index_wf m" and "index_wf (m(new \<mapsto> b))" and "m new = None" and "nChainTx b = 0"
  shows "good R (m(new \<mapsto> b)) x \<longleftrightarrow> good R m x"
proof (cases "m x")
  case None
  have "\<not> good R m x" using goodD [of R m x] None by auto
  moreover have "\<not> good R (m(new \<mapsto> b)) x" using goodD [of R "m(new \<mapsto> b)" x] None assms(4) by (auto split: if_splits)
  ultimately show ?thesis by blast
next
  case (Some d)
  have "m \<subseteq>\<^sub>m m(new \<mapsto> b)" using assms(3) by (auto simp: map_le_def)
  note w = walk_new [OF assms(1,2) this Some]
  have "y \<noteq> new" if "walk m n x = Some y" for n y
    using walk_Some [OF assms(1) Some that] assms(3) by auto
  then have e: "(m(new \<mapsto> b)) y = m y" if "walk m n x = Some y" for n y using that by simp
  show ?thesis unfolding good_def w
    by (rule iff_allI, rule iff_allI, rule imp_cong [OF refl]) (simp only: e)
qed

definition added_block :: "chain_state \<Rightarrow> uint256 \<Rightarrow> CBlockIndex \<Rightarrow> bool" where
  "added_block s hash b \<longleftrightarrow> nTx b = 0 \<and> nChainTx b = 0 \<and> phashBlock b = hash \<and> (\<not> failed b \<longrightarrow> IsValid BLOCK_VALID_TREE b) \<and>
     (pprev b = None \<longrightarrow> heap s = Map.empty) \<and>
     (\<forall>q. pprev b = Some q \<longrightarrow> (\<exists>c. heap s q = Some c \<and> nChainWork c < nChainWork b))"

text \<open>The work of the chain stays a \<open>uint256\<close>.\<close>

definition work_fits :: "chain_state \<Rightarrow> uint256 \<Rightarrow> nat \<Rightarrow> bool" where
  "work_fits s hashPrev work \<longleftrightarrow>
     work + (case map_of (mapBlockIndex s) hashPrev of None \<Rightarrow> 0 | Some q \<Rightarrow> (case heap s q of None \<Rightarrow> 0 | Some c \<Rightarrow> nChainWork c)) < 2 ^ 256"

lemma AddToBlockIndex_result:
  assumes "index_wf (heap s)" and "hashes_ok (heap s) (map_of (mapBlockIndex s))" and new: "heap s new = None"
    and "hashPrev \<noteq> hash" and "0 < work" and none: "map_of (mapBlockIndex s) hash = None"
    and prev: "map_of (mapBlockIndex s) hashPrev \<noteq> None \<or> heap s = Map.empty" and fits: "work_fits s hashPrev work"
  shows "\<exists>b best. added_block s hash b \<and> index_wf ((heap s)(new \<mapsto> b)) \<and>
    AddToBlockIndex new hash hashPrev work t s = Some (new, s\<lparr>mapBlockIndex := (hash, new) # mapBlockIndex s,
      heap := (heap s)(new \<mapsto> b), pindexBestHeader := best\<rparr>)"
proof -
  define b0 where "b0 = \<lparr>phashBlock = hash, pprev = None, pskip = None, nHeight = 0, nChainWork = 0, nTx = 0, nChainTx = 0,
                   nStatus = 0, nSequenceId = 0, block_nTime = t\<rparr>"
  have nf: "\<not> failed (b :: CBlockIndex)" if "nStatus b = 0" for b using that by (simp add: failed_def)
  note raise = RaiseValidity_status(4) [of BLOCK_VALID_TREE, OF disjI1 [OF refl]]
  show ?thesis
  proof (cases "map_of (mapBlockIndex s) hashPrev")
    case n: None
    then have e: "heap s = Map.empty" using prev by simp
    define b where "b = RaiseValidity BLOCK_VALID_TREE (b0\<lparr>nChainWork := work\<rparr>)"
    have u: "nat_u256 work = work" using fits n by (intro nat_u256_small) (simp only: work_fits_def option.case add_0_right)
    have "index_wf ((heap s)(new \<mapsto> b))" by (simp add: index_wf_def block_ok_def e b_def b0_def)
    moreover have "added_block s hash b" using raise nf e unfolding added_block_def b_def by (simp add: b0_def)
    moreover have "\<exists>best. AddToBlockIndex new hash hashPrev work t s = Some (new, s\<lparr>mapBlockIndex := (hash, new) # mapBlockIndex s,
      heap := (heap s)(new \<mapsto> b), pindexBestHeader := best\<rparr>)"
      using none n assms(4) by (simp add: AddToBlockIndex_def Let_def b_def b0_def u) (rule exI, rule refl)
    ultimately show ?thesis by blast
  next
    case (Some q)
    obtain c where c: "heap s q = Some c" using assms(2) Some unfolding hashes_ok_def by blast
    have qn: "q \<noteq> new" using c new by auto
    have u: "nat_u256 (nChainWork c + work) = nChainWork c + work"
      using fits Some c by (intro nat_u256_small) (simp only: work_fits_def option.case add.commute)
    define b1 where "b1 = b0\<lparr>pprev := Some q, nHeight := nHeight c + 1\<rparr>"
    define m1 where "m1 = (heap s)(new \<mapsto> b1)"
    have le: "heap s \<subseteq>\<^sub>m m1" using new by (auto simp: m1_def map_le_def)
    define k where "k = GetSkipHeight (int (Suc (nHeight c)))"
    have k: "0 \<le> k" "k \<le> int (nHeight c)" using GetSkipHeight_bounds [of "int (Suc (nHeight c))"] by (simp_all add: k_def)
    have "GetAncestor (heap s) q k = Some (walk (heap s) (nHeight c - nat k) q)"
      using GetAncestor_loop_walk [OF assms(1) c refl, of "nat k"] k c by (simp add: GetAncestor_def nat_le_iff)
    then have anc: "GetAncestor m1 q k = Some (walk (heap s) (nHeight c - nat k) q)" by (rule GetAncestor_mono [OF le])
    define b2 where "b2 = b1\<lparr>pskip := walk (heap s) (nHeight c - nat k) q\<rparr>"
    have p1: "m1 new = Some b1" "pprev b1 = Some q" "nHeight b1 = Suc (nHeight c)" by (simp_all add: m1_def b1_def)
    have skip: "BuildSkip m1 new = Some (m1(new \<mapsto> b2))"
      unfolding BuildSkip_def p1(1) by (simp only: option.case p1(2,3) k_def [symmetric] anc b2_def)
    define b where "b = RaiseValidity BLOCK_VALID_TREE (b2\<lparr>nChainWork := nChainWork c + work\<rparr>)"
    have "index_wf ((heap s)(new \<mapsto> b))"
      by (rule index_wf_new [OF assms(1) new c]) (simp_all add: b_def b2_def b1_def k_def)
    moreover have "added_block s hash b"
      using raise nf c assms(5) unfolding added_block_def b_def by (simp add: b2_def b1_def b0_def)
    moreover have "\<exists>best. AddToBlockIndex new hash hashPrev work t s = Some (new, s\<lparr>mapBlockIndex := (hash, new) # mapBlockIndex s,
      heap := (heap s)(new \<mapsto> b), pindexBestHeader := best\<rparr>)"
    proof -
      have p2: "pprev b2 = Some q" "(m1(new \<mapsto> b2)) q = Some c" using c qn by (simp_all add: b2_def b1_def m1_def)
      have m: "m1(new \<mapsto> b2, new \<mapsto> b) = (heap s)(new \<mapsto> b)" by (simp add: m1_def)
      show ?thesis
        using none Some assms(4) c skip p2 m
        by (simp add: AddToBlockIndex_def Let_def u b0_def [symmetric] b1_def [symmetric, simplified] m1_def [symmetric] b_def [symmetric])
          (rule exI, rule refl)
    qed
    ultimately show ?thesis by blast
  qed
qed

lemma hashes_ok_add:
  assumes "hashes_ok m (map_of i)" and "m new = None" and "map_of i h = None" and "phashBlock b = h"
  shows "hashes_ok (m(new \<mapsto> b)) (map_of ((h, new) # i))"
  unfolding hashes_ok_def
proof (intro allI)
  fix k p
  have o: "map_of i k = Some p \<longleftrightarrow> (\<exists>b. m p = Some b \<and> phashBlock b = k)" for k p using assms(1) unfolding hashes_ok_def by blast
  have "map_of i k \<noteq> Some new" for k using o [of k new] assms(2) by simp
  moreover have "\<not> (\<exists>b. m p = Some b \<and> phashBlock b = h)" using o [of h p] assms(3) by simp
  ultimately show "map_of ((h, new) # i) k = Some p \<longleftrightarrow> (\<exists>c. (m(new \<mapsto> b)) p = Some c \<and> phashBlock c = k)"
    using o [of k p] assms(4) by auto
qed

lemma AddToBlockIndex_inv:
  assumes "index_inv R s" and new: "heap s new = None" and "hashPrev \<noteq> hash" and "0 < work"
    and prev: "map_of (mapBlockIndex s) hashPrev \<noteq> None \<or> heap s = Map.empty" and fits: "work_fits s hashPrev work"
  shows "\<exists>p s' b. AddToBlockIndex new hash hashPrev work t s = Some (p, s') \<and> index_inv R s' \<and>
    heap s' p = Some b \<and> phashBlock b = hash"
proof (cases "map_of (mapBlockIndex s) hash")
  case (Some p)
  then obtain b where "heap s p = Some b" "phashBlock b = hash" using index_invD(3) [OF assms(1)] unfolding hashes_ok_def by blast
  then show ?thesis using Some assms(1) by (simp add: AddToBlockIndex_def)
next
  case None
  note i = index_invD [OF assms(1)]
  note w = state_wfD [OF i(7)]
  have root: "one_root (heap s)" and tip: "\<And>t. Tip (chainActive s) = Some t \<Longrightarrow> good R (heap s) t"
    and comp: "\<And>x. good R (heap s) x \<Longrightarrow> (\<And>t. Tip (chainActive s) = Some t \<Longrightarrow> \<not> WorkComparator (heap s) x t) \<Longrightarrow> x \<in> set (candidates s)"
    using i(1) unfolding ready_def by blast+
  obtain b best where b: "added_block s hash b" and wf: "index_wf ((heap s)(new \<mapsto> b))"
    and res: "AddToBlockIndex new hash hashPrev work t s = Some (new, s\<lparr>mapBlockIndex := (hash, new) # mapBlockIndex s,
      heap := (heap s)(new \<mapsto> b), pindexBestHeader := best\<rparr>)"
    using AddToBlockIndex_result [OF w(1) i(3) new assms(3,4) None prev fits] by blast
  define s' where "s' = s\<lparr>mapBlockIndex := (hash, new) # mapBlockIndex s, heap := (heap s)(new \<mapsto> b), pindexBestHeader := best\<rparr>"
  have f: "heap s' = (heap s)(new \<mapsto> b)" "chainActive s' = chainActive s" "candidates s' = candidates s"
    "mapBlocksUnlinked s' = mapBlocksUnlinked s" "mapBlockIndex s' = (hash, new) # mapBlockIndex s"
    by (simp_all add: s'_def)
  have b0: "nTx b = 0" "nChainTx b = 0" "phashBlock b = hash" using b by (simp_all add: added_block_def)
  have old: "heap s' x = heap s x" if "heap s x = Some d" for x d using that new by (auto simp: f)
  have pold: "\<exists>c. heap s q = Some c" if "heap s' x = Some d" "pprev d = Some q" for x d q
    using that b index_wfD(2) [OF w(1)] by (fastforce simp: f added_block_def split: if_splits)
  have good: "good R (heap s') x \<longleftrightarrow> good R (heap s) x" for x
    unfolding f by (rule good_new [OF w(1) wf new b0(2)])
  have cmp: "WorkComparator (heap s') x y = WorkComparator (heap s) x y" if "good R (heap s) x" "good R (heap s) y" for x y
    using goodD [OF that(1)] goodD [OF that(2)] old by (auto simp: WorkComparator_def)
  have "chain_ok (heap s') (chainActive s)"
    using w(3) old unfolding chain_ok_def by metis
  moreover have "\<exists>c. heap s' p = Some c \<and> nChainTx c \<noteq> 0" if "p \<in> set (candidates s)" for p
    using w(4) [OF that] old by auto
  moreover have "nTx d \<noteq> 0" if "heap s' p = Some d" "nChainTx d \<noteq> 0" for p d
    using that w(5) b0 by (auto simp: f split: if_splits)
  moreover have "nChainWork c < nChainWork d \<and> (nChainTx d \<noteq> 0 \<longrightarrow> nChainTx c \<noteq> 0)"
    if d: "heap s' p = Some d" "pprev d = Some q" "heap s' q = Some c" for p d q c
  proof -
    have "heap s q = Some c" using pold [OF d(1,2)] old d(3) by force
    then show ?thesis using d b b0 w(6,7) [of p d q c] by (auto simp: f added_block_def split: if_splits)
  qed
  moreover have "\<exists>d. heap s' p = Some d \<and> pprev d = a \<and> nTx d \<noteq> 0" if "(a, p) \<in> set (mapBlocksUnlinked s)" for a p
    using w(8) [OF that] old by auto
  moreover have "finite (dom (heap s'))" using w(2) by (simp add: f)
  ultimately have swf: "state_wf s'" using wf unfolding state_wf_def f by blast
  have "one_root (heap s')"
    unfolding one_root_def
  proof (intro allI impI, elim conjE)
    fix p d q c assume pq: "heap s' p = Some d" "pprev d = None" "heap s' q = Some c" "pprev c = None"
    show "p = q"
    proof (cases "heap s = Map.empty")
      case True
      then show ?thesis using pq by (auto simp: f split: if_splits)
    next
      case False
      then have "p \<noteq> new" "q \<noteq> new" using pq b by (auto simp: f added_block_def)
      then show ?thesis using pq root unfolding one_root_def f by auto
    qed
  qed
  then have "ready R s'"
    using swf tip comp cmp unfolding ready_def good f(2,3) by blast
  moreover have "linked_ok s'"
  proof -
    have ct: "chain_tx (heap s') d = chain_tx (heap s) d" if d: "heap s x = Some d" for x d
    proof (cases "pprev d")
      case (Some q)
      then obtain c where "heap s q = Some c" using index_wfD(2) [OF w(1) d] by blast
      then show ?thesis using old Some by (simp add: chain_tx_def)
    qed (simp add: chain_tx_def)
    have "nChainTx d = chain_tx (heap s') d" if "heap s' x = Some d" for x d
    proof (cases "x = new")
      case True
      then show ?thesis using that b0 by (simp add: f chain_tx_def)
    next
      case False
      then have "heap s x = Some d" using that by (simp add: f)
      then show ?thesis using i(2) ct unfolding linked_ok_def by simp
    qed
    moreover have "waits (heap s') a x \<longleftrightarrow> waits (heap s) a x" for a x
    proof
      assume "waits (heap s') a x"
      then obtain c q d where c: "heap s' x = Some c" "a = Some q" "pprev c = Some q" "heap s' q = Some d" "nTx c \<noteq> 0" "nChainTx d = 0"
        unfolding waits_def by blast
      have "x \<noteq> new" using c b0 by (auto simp: f)
      moreover have "heap s q = Some d" using pold [OF c(1,3)] old c(4) by force
      ultimately show "waits (heap s) a x" using c unfolding waits_def f by auto
    next
      assume "waits (heap s) a x"
      then show "waits (heap s') a x" unfolding waits_def using old by metis
    qed
    ultimately show ?thesis using i(2) unfolding linked_ok_def f(4) by blast
  qed
  moreover have "hashes_ok (heap s') (map_of (mapBlockIndex s'))"
    unfolding f by (rule hashes_ok_add [OF i(3) new None b0(3)])
  moreover have "(nTx d \<noteq> 0 \<longrightarrow> have_data d) \<and> (\<not> failed d \<longrightarrow> IsValid BLOCK_VALID_TREE d) \<and>
        (nTx d \<noteq> 0 \<and> \<not> failed d \<longrightarrow> IsValid BLOCK_VALID_TRANSACTIONS d)" if "heap s' x = Some d" for x d
    using that i(4-6) [of x d] b b0 by (auto simp: f added_block_def split: if_splits)
  moreover have "tx_total (heap s') < 2 ^ 32" using tx_total_new [OF w(2) new, of b] b0(1) i(8) by (simp add: f)
  ultimately have "index_inv R s'" unfolding index_inv_def by blast
  then show ?thesis using res b0(3) f(1) unfolding s'_def [symmetric] by auto
qed

section \<open>The state machine\<close>

text \<open>The calls that the rest of the program makes: a header arrives whose parent is known (or it is the genesis
  block), the data of a block arrives whose parent has not failed, the best chain is activated, or a block is invalidated.
  The result of every call is stated in the rule; that there is one is part of the theorem.\<close>

inductive index_step :: "block_results \<Rightarrow> chain_state \<Rightarrow> chain_state \<Rightarrow> bool" for R where
  header: "heap s new = None \<Longrightarrow> hashPrev \<noteq> hash \<Longrightarrow> 0 < work \<Longrightarrow>
    map_of (mapBlockIndex s) hashPrev \<noteq> None \<or> heap s = Map.empty \<Longrightarrow> work_fits s hashPrev work \<Longrightarrow>
    AddToBlockIndex new hash hashPrev work t s = Some (p, s') \<Longrightarrow> index_step R s s'"
| data: "heap s p = Some b \<Longrightarrow> nTx b = 0 \<Longrightarrow> n \<noteq> 0 \<Longrightarrow> tx_total (heap s) + n < 2 ^ 32 \<Longrightarrow>
    (\<And>q d. pprev b = Some q \<Longrightarrow> heap s q = Some d \<Longrightarrow> \<not> failed d) \<Longrightarrow>
    ReceivedBlockTransactions p n s = Some s' \<Longrightarrow> index_step R s s'"
| activate: "good R (heap s) p \<Longrightarrow> ActivateBestChain R s = Some (r, s') \<Longrightarrow> index_step R s s'"
| invalidate: "Tip (chainActive s) \<noteq> None \<Longrightarrow> heap s p = Some b \<Longrightarrow> pprev b \<noteq> None \<Longrightarrow>
    InvalidateBlock R p s = Some (r, s') \<Longrightarrow> index_step R s s'"

definition initial_state :: chain_state where
  "initial_state = \<lparr>heap = Map.empty, mapBlockIndex = [], chainActive = [], candidates = [], mapBlocksUnlinked = [],
     pindexBestInvalid = None, pindexBestHeader = None, nBlockSequenceId = 1\<rparr>"

inductive index_reachable :: "block_results \<Rightarrow> chain_state \<Rightarrow> bool" for R where
  start: "index_reachable R initial_state"
| step: "index_reachable R s \<Longrightarrow> index_step R s s' \<Longrightarrow> index_reachable R s'"

lemma initial_inv: "index_inv R initial_state"
proof -
  have "\<not> good R Map.empty p" for p using goodD [of R Map.empty p] by auto
  then show ?thesis
    by (auto simp: index_inv_def ready_def state_wf_def linked_ok_def hashes_ok_def initial_state_def index_wf_def chain_ok_def
      one_root_def Tip_def waits_def tx_total_def)
qed

lemma activate_inv:
  assumes "reliable R" and "index_inv R s" and "good R (heap s) p"
  shows "\<exists>s'. ActivateBestChain R s = Some (True, s') \<and> index_inv R s'"
proof -
  obtain s' where "ActivateBestChain R s = Some (True, s')" "ready R s'" "keeps s s'"
    using ActivateBestChain_result [OF assms(1) index_invD(1) [OF assms(2)] assms(3)] by blast
  then show ?thesis using keeps_index_inv [OF assms(2)] by blast
qed

lemma invalidate_inv:
  assumes "reliable R" and "index_inv R s" and "Tip (chainActive s) \<noteq> None" and "heap s p = Some b" and "pprev b \<noteq> None"
  shows "\<exists>s'. InvalidateBlock R p s = Some (True, s') \<and> index_inv R s'"
proof -
  obtain s' where "InvalidateBlock R p s = Some (True, s')" "ready R s'" "keeps s s'"
    using InvalidateBlock_result [OF assms(1) index_invD(1) [OF assms(2)] index_inv_indexed [OF assms(2)] assms(3-5)] by blast
  then show ?thesis using keeps_index_inv [OF assms(2)] by blast
qed

lemma index_step_inv:
  assumes "reliable R" and "index_step R s s'" and "index_inv R s"
  shows "index_inv R s'"
  using assms(2)
proof (cases rule: index_step.cases)
  case (header new hashPrev hash work t p)
  then show ?thesis using AddToBlockIndex_inv [OF assms(3) header(1-5), of t] by auto
next
  case (data p b n)
  obtain s1 where "ReceivedBlockTransactions p n s = Some s1" "index_inv R s1"
    using Received_inv [OF assms(3) data(1-4)] data(5) by blast
  then show ?thesis using data(6) by simp
next
  case (activate p r)
  then show ?thesis using activate_inv [OF assms(1,3) activate(1)] by auto
next
  case (invalidate p b r)
  then show ?thesis using invalidate_inv [OF assms(1,3) invalidate(1-3)] by auto
qed

lemma reachable_inv: "index_reachable R s \<Longrightarrow> reliable R \<Longrightarrow> index_inv R s"
  by (induction rule: index_reachable.induct) (auto intro: initial_inv index_step_inv)

text \<open>C2: Whatever headers, block data, activations and invalidations arrive in any order, under the guards below, the block
  index stays consistent: \<open>mapBlockIndex\<close> finds exactly its blocks, \<open>nChainTx\<close> is the number of transactions up to a
  block once all are known and zero before, \<open>mapBlocksUnlinked\<close> holds exactly the blocks with data whose parent's chain lacks some,
  skip list and active chain are well formed, every good block not worse than the tip is a candidate, and every guarded call succeeds without a
  failed assertion or null pointer.  Guards: \<open>reliable R\<close> (no system error or possible corruption, one result per block); a header has
  positive work and a known parent, or is the first, and the chain's work stays below \<open>2 ^ 256\<close>; data comes once per block, with
  transactions, for a parent without failure mark, fewer than \<open>2 ^ 32\<close> transactions in all; a good block exists to activate; there is a tip to
  invalidate a block other than genesis.  Counters wrap at their widths.\<close>

theorem index_states_consistent:
  assumes "index_reachable R s" and "reliable R"
  shows "state_wf s \<and> hashes_ok (heap s) (map_of (mapBlockIndex s)) \<and>
    (\<forall>x c. heap s x = Some c \<longrightarrow> nChainTx c = chain_tx (heap s) c) \<and>
    (\<forall>a x. (a, x) \<in> set (mapBlocksUnlinked s) \<longleftrightarrow> waits (heap s) a x) \<and>
    (\<forall>p. good R (heap s) p \<and> (\<forall>t. Tip (chainActive s) = Some t \<longrightarrow> \<not> WorkComparator (heap s) p t) \<longrightarrow> p \<in> set (candidates s)) \<and>
    (\<forall>new hash hashPrev work t. heap s new = None \<and> hashPrev \<noteq> hash \<and> 0 < work \<and>
       (map_of (mapBlockIndex s) hashPrev \<noteq> None \<or> heap s = Map.empty) \<and> work_fits s hashPrev work \<longrightarrow>
       AddToBlockIndex new hash hashPrev work t s \<noteq> None) \<and>
    (\<forall>p b n. heap s p = Some b \<and> nTx b = 0 \<and> n \<noteq> 0 \<and> tx_total (heap s) + n < 2 ^ 32 \<and>
       (\<forall>q d. pprev b = Some q \<and> heap s q = Some d \<longrightarrow> \<not> failed d) \<longrightarrow> ReceivedBlockTransactions p n s \<noteq> None) \<and>
    (\<forall>p. good R (heap s) p \<longrightarrow> (\<exists>s'. ActivateBestChain R s = Some (True, s'))) \<and>
    (\<forall>p b. Tip (chainActive s) \<noteq> None \<and> heap s p = Some b \<and> pprev b \<noteq> None \<longrightarrow>
       (\<exists>s'. InvalidateBlock R p s = Some (True, s')))"
proof -
  have i: "index_inv R s" by (rule reachable_inv [OF assms])
  have add: "AddToBlockIndex new hash hashPrev work t s \<noteq> None"
    if "heap s new = None" "hashPrev \<noteq> hash" "0 < work" "map_of (mapBlockIndex s) hashPrev \<noteq> None \<or> heap s = Map.empty"
      "work_fits s hashPrev work"
    for new hash hashPrev work t
    using AddToBlockIndex_inv [OF i that, of t] by auto
  have data: "ReceivedBlockTransactions p n s \<noteq> None"
    if "heap s p = Some b" "nTx b = 0" "n \<noteq> 0" "tx_total (heap s) + n < 2 ^ 32" "\<forall>q d. pprev b = Some q \<and> heap s q = Some d \<longrightarrow> \<not> failed d" for p b n
    using Received_inv [OF i that(1-4)] that(5) by auto
  have act: "\<exists>s'. ActivateBestChain R s = Some (True, s')" if "good R (heap s) p" for p
    using activate_inv [OF assms(2) i that] by blast
  have inv: "\<exists>s'. InvalidateBlock R p s = Some (True, s')"
    if "Tip (chainActive s) \<noteq> None" "heap s p = Some b" "pprev b \<noteq> None" for p b
    using invalidate_inv [OF assms(2) i that] by blast
  have r: "\<forall>p. good R (heap s) p \<and> (\<forall>t. Tip (chainActive s) = Some t \<longrightarrow> \<not> WorkComparator (heap s) p t) \<longrightarrow> p \<in> set (candidates s)"
    using index_invD(1) [OF i] unfolding ready_def by (elim conjE)
  have l: "\<forall>x c. heap s x = Some c \<longrightarrow> nChainTx c = chain_tx (heap s) c"
    "\<forall>a x. (a, x) \<in> set (mapBlocksUnlinked s) \<longleftrightarrow> waits (heap s) a x"
    using index_invD(2) [OF i] unfolding linked_ok_def by simp_all
  show ?thesis
    by (intro conjI index_invD(3,7) [OF i] r l allI impI; (elim conjE)?) (blast intro: act inv | rule add data, assumption+ | blast intro: data)+
qed

text \<open>The genesis block arrives: its header, then its data.\<close>

lemma index_states_consistent_witness:
  "\<exists>s p b. index_reachable sample_results s \<and> heap s p = Some b \<and> phashBlock b = 100 \<and> state_wf s \<and>
     ReceivedBlockTransactions p 1 s \<noteq> None"
proof -
  have r: "reliable sample_results" by (simp add: reliable_def sample_results_def)
  have e: "heap initial_state = Map.empty" "mapBlockIndex initial_state = []" by (simp_all add: initial_state_def)
  obtain b s where s: "AddToBlockIndex 0 100 99 1 5 initial_state = Some (0, s)" "heap s = [0 \<mapsto> b]" "nTx b = 0" "pprev b = None" "phashBlock b = 100"
    by (simp add: AddToBlockIndex_def e Let_def nat_u256_def)
  have "index_step sample_results initial_state s"
    by (rule index_step.header [OF _ _ _ _ _ s(1)]) (simp_all add: e work_fits_def)
  then have reach: "index_reachable sample_results s" by (rule index_reachable.step [OF index_reachable.start])
  have "state_wf s \<and> (\<forall>p b n. heap s p = Some b \<and> nTx b = 0 \<and> n \<noteq> 0 \<and> tx_total (heap s) + n < 2 ^ 32 \<and>
      (\<forall>q d. pprev b = Some q \<and> heap s q = Some d \<longrightarrow> \<not> failed d) \<longrightarrow> ReceivedBlockTransactions p n s \<noteq> None)"
    using index_states_consistent [OF reach r] by (elim conjE) (rule conjI)
  moreover have "heap s 0 = Some b" using s(2) by simp
  moreover have "\<forall>q d. pprev b = Some q \<and> heap s q = Some d \<longrightarrow> \<not> failed d" using s(4) by simp
  moreover have "tx_total (heap s) + 1 < 2 ^ 32" using s(2,3) by (simp add: tx_total_def)
  ultimately have "state_wf s" "ReceivedBlockTransactions 0 1 s \<noteq> None" using s(3) by (blast, metis one_neq_zero)
  then show ?thesis using reach \<open>heap s 0 = Some b\<close> s(5) by blast
qed

end
