(* ===== verification/Reconsider.thy ===== *)
theory Reconsider
  imports IndexStates
begin

text \<open>
  \<open>ReconsiderBlock\<close> (src/src/main.cpp): which failure marks it removes, and the candidates it forgets.
\<close>

section \<open>Removing failure marks\<close>

lemma clear_failure_fields [simp]:
  "pprev (clear_failure b) = pprev b" "pskip (clear_failure b) = pskip b" "nHeight (clear_failure b) = nHeight b"
  "nChainTx (clear_failure b) = nChainTx b" "nChainWork (clear_failure b) = nChainWork b" "nSequenceId (clear_failure b) = nSequenceId b"
  by (simp_all add: clear_failure_def)

lemma not_failed_clear [simp]: "\<not> failed (clear_failure b)"
  by (simp add: failed_def clear_failure_def and.assoc)

lemma clear_failure_id [simp]: "\<not> failed b \<Longrightarrow> clear_failure b = b"
proof -
  assume "\<not> failed b"
  then have z: "nStatus b AND BLOCK_FAILED_MASK = 0" by (simp add: failed_def)
  have "nStatus b AND NOT BLOCK_FAILED_MASK = nStatus b"
  proof (rule bit_eqI)
    fix n
    assume "possible_bit TYPE(32 word) n"
    then have "n < 32" by simp
    moreover have "\<not> bit (nStatus b AND BLOCK_FAILED_MASK) n" by (simp add: z)
    ultimately show "bit (nStatus b AND NOT BLOCK_FAILED_MASK) n = bit (nStatus b) n" by (auto simp: bit_and_iff bit_not_iff)
  qed
  then show ?thesis by (simp add: clear_failure_def)
qed

lemma clear_failure_twice [simp]: "clear_failure (clear_failure b) = clear_failure b"
  by simp

lemma IsValid_not_failed: "IsValid v b \<Longrightarrow> \<not> failed b"
  by (simp add: IsValid_def)

lemma same_links_clear: "same_links m (m(p := map_option clear_failure (m p)))"
  unfolding clear_failure_def by (rule same_links_status)

text \<open>\<open>GetAncestor\<close> at the height of a block tells whether it is an ancestor.\<close>

lemma GetAncestor_descendant:
  assumes "index_wf m" and "m q = Some c" and "m p = Some b"
  shows "\<exists>a. GetAncestor m q (int (nHeight b)) = Some a \<and> (a = Some p \<longleftrightarrow> q \<in> descendants m p)"
proof (cases "nHeight b \<le> nHeight c")
  case True
  have g: "GetAncestor m q (int (nHeight b)) = Some (walk m (nHeight c - nHeight b) q)"
    using GetAncestor_loop_walk [OF assms(1,2) refl True] assms(2) True by (simp add: GetAncestor_def)
  have "walk m (nHeight c - nHeight b) q = Some p" if w: "walk m n q = Some p" for n
  proof -
    have "n = nHeight c - nHeight b" using walk_Some [OF assms(1,2) w] assms(3) by auto
    then show ?thesis using w by simp
  qed
  then show ?thesis using g unfolding descendants_def by blast
next
  case False
  have "q \<notin> descendants m p"
  proof
    assume "q \<in> descendants m p"
    then obtain n where "walk m n q = Some p" by (auto simp: descendants_def)
    then show False using walk_Some [OF assms(1,2)] assms(3) False by fastforce
  qed
  moreover have "GetAncestor m q (int (nHeight b)) = Some None" using False assms(2) by (simp add: GetAncestor_def)
  ultimately show ?thesis by simp
qed

lemma reconsider_descendants_clears:
  assumes "index_wf m" and "m p = Some b"
  shows "same_links m (heap s) \<Longrightarrow> \<forall>q \<in> set ps. m q \<noteq> None \<Longrightarrow> Tip (chainActive s) = Some tip \<Longrightarrow>
    \<exists>s'. reconsider_descendants p (int (nHeight b)) ps s = Some s' \<and> chainActive s' = chainActive s \<and>
      mapBlockIndex s' = mapBlockIndex s \<and> mapBlocksUnlinked s' = mapBlocksUnlinked s \<and>
      (\<forall>q. heap s' q = (if q \<in> set ps \<and> q \<in> descendants m p then map_option clear_failure (heap s q) else heap s q)) \<and>
      set (candidates s) \<subseteq> set (candidates s') \<and>
      (\<forall>q c. q \<in> set ps \<and> q \<in> descendants m p \<and> heap s q = Some c \<and> failed c \<and> linked_and_valid (clear_failure c) \<and>
         WorkComparator m tip q \<longrightarrow> q \<in> set (candidates s'))"
proof (induction ps arbitrary: s)
  case Nil
  then show ?case by simp
next
  case (Cons q ps)
  note links = Cons.prems(1)
  obtain d where d: "m q = Some d" using Cons.prems(2) by auto
  obtain c where c: "heap s q = Some c" "nHeight c = nHeight d" "nChainTx c = nChainTx d" using same_linksD [OF links d] by blast
  obtain b' where b': "heap s p = Some b'" "nHeight b' = nHeight b" using same_linksD [OF links assms(2)] by blast
  obtain a where a: "GetAncestor (heap s) q (int (nHeight b)) = Some a" "a = Some p \<longleftrightarrow> q \<in> descendants m p"
    using GetAncestor_descendant [OF index_wf_same [OF links assms(1)] c(1) b'(1)] b'(2) descendants_same [OF links] by auto
  show ?case
  proof (cases "IsValid BLOCK_VALID_TRANSACTIONS c \<or> q \<notin> descendants m p")
    case True
    then have r: "reconsider_descendants p (int (nHeight b)) (q # ps) s = reconsider_descendants p (int (nHeight b)) ps s"
      using c(1) a by auto
    have nf: "q \<in> descendants m p \<Longrightarrow> \<not> failed c" using True IsValid_not_failed by blast
    obtain s' where s': "reconsider_descendants p (int (nHeight b)) ps s = Some s'" "chainActive s' = chainActive s"
      "mapBlockIndex s' = mapBlockIndex s" "mapBlocksUnlinked s' = mapBlocksUnlinked s"
      "\<forall>x. heap s' x = (if x \<in> set ps \<and> x \<in> descendants m p then map_option clear_failure (heap s x) else heap s x)"
      "set (candidates s) \<subseteq> set (candidates s')"
      "\<forall>x c. x \<in> set ps \<and> x \<in> descendants m p \<and> heap s x = Some c \<and> failed c \<and> linked_and_valid (clear_failure c) \<and>
         WorkComparator m tip x \<longrightarrow> x \<in> set (candidates s')"
      using Cons.IH [OF links _ Cons.prems(3)] Cons.prems(2) by auto
    have "heap s' x = (if x \<in> set (q # ps) \<and> x \<in> descendants m p then map_option clear_failure (heap s x) else heap s x)" for x
      using s'(5) nf c(1) by auto
    moreover have "x \<in> set (candidates s')"
      if "x \<in> set (q # ps)" "x \<in> descendants m p" "heap s x = Some e" "failed e" "linked_and_valid (clear_failure e)" "WorkComparator m tip x" for x e
      using s'(7) nf that c(1) by auto
    ultimately show ?thesis using r s'(1-4,6) by auto
  next
    case False
    define s1 where "s1 = update_block q clear_failure s"
    define s2 where "s2 = (if linked_and_valid (clear_failure c)
      then (if WorkComparator (heap s1) tip q then insert_candidate q s1 else s1) else s1)"
    define s3 where "s3 = (if pindexBestInvalid s2 = Some q then s2\<lparr>pindexBestInvalid := None\<rparr> else s2)"
    have f1: "heap s1 = (heap s)(q := map_option clear_failure (heap s q))" "chainActive s1 = chainActive s"
      "mapBlockIndex s1 = mapBlockIndex s" "mapBlocksUnlinked s1 = mapBlocksUnlinked s" "candidates s1 = candidates s"
      by (simp_all add: s1_def update_block_def)
    have f: "heap s3 = heap s1" "chainActive s3 = chainActive s" "mapBlockIndex s3 = mapBlockIndex s"
      "mapBlocksUnlinked s3 = mapBlocksUnlinked s" "set (candidates s) \<subseteq> set (candidates s3)"
      using f1 by (auto simp: s3_def s2_def insert_candidate_def)
    have links1: "same_links (heap s) (heap s1)" unfolding f1 by (rule same_links_clear)
    have links3: "same_links m (heap s3)" unfolding f(1) by (rule same_links_trans [OF links links1])
    have cmp: "WorkComparator (heap s1) x y = WorkComparator m x y" for x y
      using WorkComparator_same [OF same_links_trans [OF links links1]] by simp
    have q3: "q \<in> set (candidates s3)" if "linked_and_valid (clear_failure c)" "WorkComparator m tip q"
      using that cmp by (simp add: s3_def s2_def insert_candidate_def)
    have "reconsider_descendants p (int (nHeight b)) (q # ps) s = reconsider_descendants p (int (nHeight b)) ps s3"
      using c(1) a False Cons.prems(3) f1(2)
      by (simp add: Let_def s1_def [symmetric] s2_def s3_def)
    moreover obtain s' where s': "reconsider_descendants p (int (nHeight b)) ps s3 = Some s'" "chainActive s' = chainActive s3"
      "mapBlockIndex s' = mapBlockIndex s3" "mapBlocksUnlinked s' = mapBlocksUnlinked s3"
      "\<forall>x. heap s' x = (if x \<in> set ps \<and> x \<in> descendants m p then map_option clear_failure (heap s3 x) else heap s3 x)"
      "set (candidates s3) \<subseteq> set (candidates s')"
      "\<forall>x c. x \<in> set ps \<and> x \<in> descendants m p \<and> heap s3 x = Some c \<and> failed c \<and> linked_and_valid (clear_failure c) \<and>
         WorkComparator m tip x \<longrightarrow> x \<in> set (candidates s')"
      using Cons.IH [OF links3] Cons.prems(2,3) f(2) by auto
    moreover have "heap s' x = (if x \<in> set (q # ps) \<and> x \<in> descendants m p then map_option clear_failure (heap s x) else heap s x)" for x
      using s'(5) False f(1) f1(1) by (auto simp: option.map_comp comp_def)
    moreover have "x \<in> set (candidates s')"
      if "x \<in> set (q # ps)" "x \<in> descendants m p" "heap s x = Some e" "failed e" "linked_and_valid (clear_failure e)" "WorkComparator m tip x" for x e
    proof (cases "x = q")
      case True
      then show ?thesis using q3 that c(1) s'(6) by auto
    next
      case False
      then show ?thesis using s'(7) that f(1) f1(1) by auto
    qed
    ultimately show ?thesis using f by auto
  qed
qed

text \<open>The second loop walks to the genesis block.\<close>

lemma descendants_parent:
  assumes "m p = Some b"
  shows "p \<in> descendants m q \<longleftrightarrow> q = p \<or> (\<exists>a. pprev b = Some a \<and> a \<in> descendants m q)"
proof
  assume "p \<in> descendants m q"
  then obtain n where n: "walk m n p = Some q" by (auto simp: descendants_def)
  show "q = p \<or> (\<exists>a. pprev b = Some a \<and> a \<in> descendants m q)"
  proof (cases n)
    case 0
    then show ?thesis using n by simp
  next
    case (Suc k)
    then obtain a where "pprev b = Some a" "walk m k a = Some q"
      using n assms by (auto split: option.splits)
    then show ?thesis unfolding descendants_def by blast
  qed
next
  assume a: "q = p \<or> (\<exists>a. pprev b = Some a \<and> a \<in> descendants m q)"
  show "p \<in> descendants m q"
  proof (cases "q = p")
    case False
    then obtain a k where "pprev b = Some a" "walk m k a = Some q" using a by (auto simp: descendants_def)
    then have "walk m (Suc k) p = Some q" using assms by simp
    then show ?thesis unfolding descendants_def by blast
  qed simp
qed

lemma reconsider_ancestors_clears:
  assumes "index_wf m"
  shows "m p = Some b \<Longrightarrow> same_links m (heap s) \<Longrightarrow>
    \<exists>s'. reconsider_ancestors (Some p) s = Some s' \<and> chainActive s' = chainActive s \<and> candidates s' = candidates s \<and>
      (\<forall>q. heap s' q = (if p \<in> descendants m q then map_option clear_failure (heap s q) else heap s q))"
proof (induction "nHeight b" arbitrary: p b s rule: less_induct)
  case less
  note links = less.prems(2)
  obtain c where c: "heap s p = Some c" "pprev c = pprev b" using same_linksD [OF links less.prems(1)] by blast
  define s1 where "s1 = (if failed c then update_block p clear_failure s else s)"
  have f: "heap s1 = (heap s)(p := map_option clear_failure (heap s p))" "chainActive s1 = chainActive s" "candidates s1 = candidates s"
    using c(1) by (auto simp: s1_def update_block_def fun_upd_idem)
  have r: "reconsider_ancestors (Some p) s = reconsider_ancestors (pprev b) s1"
    using c by (subst reconsider_ancestors.simps) (simp add: s1_def)
  have d: "p \<in> descendants m q \<longleftrightarrow> q = p \<or> (\<exists>a. pprev b = Some a \<and> a \<in> descendants m q)" for q
    by (rule descendants_parent [of m, OF less.prems(1)])
  show ?case
  proof (cases "pprev b")
    case None
    then have "reconsider_ancestors (Some p) s = Some s1" using r by (simp add: reconsider_ancestors.simps)
    then show ?thesis using f d None by auto
  next
    case (Some a)
    obtain e where e: "m a = Some e" "nHeight b = Suc (nHeight e)"
      using index_wfD(2) [OF assms less.prems(1) Some] by blast
    have links1: "same_links m (heap s1)" unfolding f(1) by (rule same_links_trans [OF links same_links_clear])
    obtain s' where s': "reconsider_ancestors (Some a) s1 = Some s'" "chainActive s' = chainActive s1" "candidates s' = candidates s1"
      "\<forall>q. heap s' q = (if a \<in> descendants m q then map_option clear_failure (heap s1 q) else heap s1 q)"
      using less.hyps [OF _ e(1) links1] e(2) by auto
    have "heap s' q = (if p \<in> descendants m q then map_option clear_failure (heap s q) else heap s q)" for q
      using s'(4) f(1) d [of q] Some by (auto simp: option.map_comp comp_def)
    then show ?thesis using r s'(1-3) f Some by auto
  qed
qed

text \<open>C13: \<open>ReconsiderBlock\<close> undoes \<open>InvalidateBlock\<close>: on a consistent index with an active tip it returns, it removes
  the failure marks of exactly the ancestors and descendants of the block and changes no other status, height or link, the active chain stays,
  no candidate is lost, and every fully linked descendant that had failed and has more work than the tip becomes a candidate.\<close>

theorem ReconsiderBlock_clears:
  assumes "index_inv R s" and "distinct (map fst (mapBlockIndex s))" and "heap s p = Some b" and "Tip (chainActive s) = Some tip"
  shows "\<exists>s'. ReconsiderBlock p s = Some s' \<and> chainActive s' = chainActive s \<and>
    (\<forall>q. heap s' q = (if q \<in> descendants (heap s) p \<or> p \<in> descendants (heap s) q
       then map_option clear_failure (heap s q) else heap s q)) \<and>
    set (candidates s) \<subseteq> set (candidates s') \<and>
    (\<forall>q c. q \<in> descendants (heap s) p \<and> heap s q = Some c \<and> failed c \<and> linked_and_valid (clear_failure c) \<and>
       WorkComparator (heap s) tip q \<longrightarrow> q \<in> set (candidates s'))"
proof -
  let ?ps = "map snd (mapBlockIndex s)"
  have wf: "index_wf (heap s)" using index_invD(7) [OF assms(1)] by (simp add: state_wf_def)
  have h: "hashes_ok (heap s) (map_of (mapBlockIndex s))" by (rule index_invD(3) [OF assms(1)])
  have all: "\<forall>q \<in> set ?ps. heap s q \<noteq> None"
  proof
    fix q assume "q \<in> set ?ps"
    then obtain k where "(k, q) \<in> set (mapBlockIndex s)" by auto
    then have "map_of (mapBlockIndex s) k = Some q" using assms(2) by simp
    then show "heap s q \<noteq> None" using h unfolding hashes_ok_def by blast
  qed
  have listed: "q \<in> set ?ps" if "heap s q = Some c" for q c
    using index_inv_indexed [OF assms(1)] that unfolding indexed_def by auto
  obtain s1 where s1: "reconsider_descendants p (int (nHeight b)) ?ps s = Some s1" "chainActive s1 = chainActive s"
    "\<forall>q. heap s1 q = (if q \<in> set ?ps \<and> q \<in> descendants (heap s) p then map_option clear_failure (heap s q) else heap s q)"
    "set (candidates s) \<subseteq> set (candidates s1)"
    "\<forall>q c. q \<in> set ?ps \<and> q \<in> descendants (heap s) p \<and> heap s q = Some c \<and> failed c \<and> linked_and_valid (clear_failure c) \<and>
         WorkComparator (heap s) tip q \<longrightarrow> q \<in> set (candidates s1)"
    using reconsider_descendants_clears [OF wf assms(3) same_links_refl all assms(4)] by (elim exE conjE) rule
  have "map_option (\<lambda>b. b\<lparr>nStatus := 0\<rparr>) (map_option clear_failure x) = map_option (\<lambda>b. b\<lparr>nStatus := 0\<rparr>) x" for x
    by (cases x) (simp_all add: clear_failure_def)
  then have links: "same_links (heap s) (heap s1)" using s1(3) by (simp add: same_links_def)
  obtain s' where s': "reconsider_ancestors (Some p) s1 = Some s'" "chainActive s' = chainActive s1" "candidates s' = candidates s1"
    "\<forall>q. heap s' q = (if p \<in> descendants (heap s) q then map_option clear_failure (heap s1 q) else heap s1 q)"
    using reconsider_ancestors_clears [OF wf assms(3) links] by (elim exE conjE) rule
  have "ReconsiderBlock p s = Some s'" using s1(1) s'(1) assms(3) by (simp add: ReconsiderBlock_def)
  moreover have "heap s' q = (if q \<in> descendants (heap s) p \<or> p \<in> descendants (heap s) q
       then map_option clear_failure (heap s q) else heap s q)" for q
  proof (cases "heap s q")
    case None
    then show ?thesis using s'(4) s1(3) by auto
  next
    case (Some c)
    then show ?thesis using s'(4) s1(3) listed [OF Some] by (auto simp: option.map_comp comp_def)
  qed
  ultimately show ?thesis using s1 s' listed by (intro exI [of _ s']) auto
qed

lemma sample_index_inv: "index_inv sample_results sample_state"
proof -
  have k: "nTx c = 1 \<and> have_data c \<and> nChainTx c = nHeight c + 1 \<and>
      (\<not> failed c \<longrightarrow> IsValid BLOCK_VALID_TREE c \<and> IsValid BLOCK_VALID_TRANSACTIONS c)" if "heap sample_state x = Some c" for x c
    using sample_heap_cases [OF that]
    by (auto simp: sample_block_def have_data_def failed_def IsValid_def BLOCK_HAVE_DATA_def BLOCK_FAILED_MASK_def
      BLOCK_VALID_MASK_def BLOCK_VALID_TREE_def BLOCK_VALID_TRANSACTIONS_def)
  have wf: "index_wf (heap sample_state)" using sample_ready by (simp add: ready_def state_wf_def)
  have tx: "nChainTx c = chain_tx (heap sample_state) c" if c: "heap sample_state x = Some c" for x c
  proof (cases "pprev c")
    case None
    then have "nHeight c = 0" using c by (auto simp: sample_state_def sample_heap_def sample_block_def split: if_splits)
    then show ?thesis using k [OF c] None by (simp add: chain_tx_def)
  next
    case (Some q)
    obtain d where d: "heap sample_state q = Some d" "nHeight c = Suc (nHeight d)" using index_wfD(2) [OF wf c Some] by blast
    then show ?thesis using k [OF c] k [OF d(1)] Some by (simp add: chain_tx_def)
  qed
  have un: "\<not> waits (heap sample_state) a x" for a x using k by (fastforce simp: waits_def)
  have hashes: "hashes_ok (heap sample_state) (map_of (mapBlockIndex sample_state))"
    unfolding hashes_ok_def sample_state_def sample_heap_def by (auto simp: sample_block_def split: if_splits)
  have "linked_ok sample_state" using tx un by (simp add: linked_ok_def) (simp add: sample_state_def)
  moreover have "tx_total (heap sample_state) < 2 ^ 32"
  proof -
    have "tx_total (heap sample_state) = card (dom (heap sample_state))"
      using k unfolding tx_total_def by (subst card_eq_sum) (rule sum.cong, auto)
    also have "\<dots> \<le> card {0, 1, 2, 3, 4, 12, 13 :: nat}"
      by (rule card_mono) (auto simp: sample_state_def sample_heap_def split: if_splits)
    also have "\<dots> < 2 ^ 32" by simp
    finally show ?thesis .
  qed
  ultimately show ?thesis using sample_ready hashes k unfolding index_inv_def by simp
qed

lemma ReconsiderBlock_clears_witness:
  "\<exists>s'. ReconsiderBlock 3 sample_state = Some s' \<and> map_option failed (heap s' 3) = Some False \<and> 3 \<in> set (candidates s')"
proof -
  have d: "distinct (map fst (mapBlockIndex sample_state))" by (simp add: sample_state_def)
  have t: "Tip (chainActive sample_state) = Some 1" by (simp add: Tip_def sample_state_def)
  obtain s' where s': "ReconsiderBlock 3 sample_state = Some s'"
    "\<forall>q. heap s' q = (if q \<in> descendants (heap sample_state) 3 \<or> 3 \<in> descendants (heap sample_state) q
       then map_option clear_failure (heap sample_state q) else heap sample_state q)"
    "\<forall>q c. q \<in> descendants (heap sample_state) 3 \<and> heap sample_state q = Some c \<and> failed c \<and> linked_and_valid (clear_failure c) \<and>
       WorkComparator (heap sample_state) 1 q \<longrightarrow> q \<in> set (candidates s')"
    using ReconsiderBlock_clears [OF sample_index_inv d sample_lookup(5) t] by (elim exE conjE) rule
  let ?c = "(sample_block (Some 2) (Some 1) 3 103)\<lparr>nStatus := 43\<rparr>"
  note flags = BLOCK_FAILED_MASK_def BLOCK_FAILED_VALID_def BLOCK_FAILED_CHILD_def BLOCK_VALID_MASK_def BLOCK_VALID_TRANSACTIONS_def
  have "failed ?c" "linked_and_valid (clear_failure ?c)" "WorkComparator (heap sample_state) 1 3"
    by (simp_all add: failed_def clear_failure_def linked_and_valid_def IsValid_def sample_block_def WorkComparator_def flags)
  then have "3 \<in> set (candidates s')" using s'(3) [rule_format, of 3 ?c] by simp
  moreover have "map_option failed (heap s' 3) = Some False" using s'(2) by simp
  ultimately show ?thesis using s'(1) by blast
qed

text \<open>The ancestors of the reconsidered block are cleared but never become candidates: below, block 3 is valid, fully linked and better than
  the tip, and only its child 4, which was not marked itself, is a candidate.\<close>

lemma ReconsiderBlock_incomplete:
  "\<exists>s'. ReconsiderBlock 4 sample_state = Some s' \<and> good sample_results (heap s') 3 \<and>
     WorkComparator (heap s') 1 3 \<and> 3 \<notin> set (candidates s')"
proof -
  define s3 where "s3 = update_block 3 clear_failure sample_state"
  note flags = BLOCK_FAILED_MASK_def BLOCK_FAILED_VALID_def BLOCK_FAILED_CHILD_def BLOCK_VALID_MASK_def BLOCK_VALID_TRANSACTIONS_def
  have h: "heap s3 q = (if q = 3 then Some (sample_block (Some 2) (Some 1) 3 103) else heap sample_state q)" for q
    by (simp add: s3_def update_block_def clear_failure_def flags sample_block_def)
  have loop: "reconsider_descendants 4 4 (map snd (mapBlockIndex sample_state)) sample_state = Some sample_state"
  proof -
    have ps: "map snd (mapBlockIndex sample_state) = [0, 1, 2, 3, 4, 12, 13]" by (simp add: sample_state_def)
    have v: "IsValid BLOCK_VALID_TRANSACTIONS (sample_block q r n k)" for q r n k by (simp add: IsValid_def failed_def sample_block_def flags)
    have "GetAncestor (heap sample_state) 3 4 = Some None" by (simp add: GetAncestor_def sample_block_def)
    then show ?thesis unfolding ps by (simp add: v)
  qed
  have v: "\<not> failed (sample_block q r n k)" for q r n k by (simp add: failed_def sample_block_def flags)
  have f: "failed ((sample_block q r n k)\<lparr>nStatus := 43\<rparr>)" for q r n k by (simp add: failed_def flags)
  have p: "pprev (sample_block q r n k) = q" for q r n k by (simp add: sample_block_def)
  have 4: "reconsider_ancestors (Some 4) sample_state = reconsider_ancestors (Some 3) sample_state"
    by (subst reconsider_ancestors.simps) (simp add: v p)
  have 3: "reconsider_ancestors (Some 3) sample_state = reconsider_ancestors (Some 2) s3"
    by (subst reconsider_ancestors.simps) (simp add: f p s3_def)
  have 2: "reconsider_ancestors (Some 2) s3 = reconsider_ancestors (Some 1) s3"
    by (subst reconsider_ancestors.simps) (simp add: v p h)
  have 1: "reconsider_ancestors (Some 1) s3 = reconsider_ancestors (Some 0) s3"
    by (subst reconsider_ancestors.simps) (simp add: v p h)
  have 0: "reconsider_ancestors (Some 0) s3 = Some s3"
    by (subst reconsider_ancestors.simps) (simp add: v p h reconsider_ancestors.simps)
  have "ReconsiderBlock 4 sample_state = Some s3"
    using loop by (simp add: ReconsiderBlock_def sample_block_def 4 3 2 1 [simplified One_nat_def] 0)
  moreover have "good sample_results (heap s3) 3"
  proof -
    have l: "heap s3 0 = Some (sample_block None None 0 100)" "heap s3 1 = Some (sample_block (Some 0) (Some 0) 1 101)"
      "heap s3 2 = Some (sample_block (Some 1) (Some 0) 2 102)" "heap s3 3 = Some (sample_block (Some 2) (Some 1) 3 103)"
      by (simp_all add: h)
    note defs = sample_block_def sample_results_def unusable_def failed_def have_data_def BLOCK_HAVE_DATA_def flags
    have 0: "good sample_results (heap s3) 0" by (rule good_step [of "heap s3" 0, OF l(1)]) (simp_all add: defs)
    have 1: "good sample_results (heap s3) 1" by (rule good_step [of "heap s3" 1, OF l(2)]) (use 0 in \<open>simp_all add: defs\<close>)
    have 2: "good sample_results (heap s3) 2" by (rule good_step [of "heap s3" 2, OF l(3)]) (use 1 in \<open>simp_all add: defs\<close>)
    show ?thesis by (rule good_step [of "heap s3" 3, OF l(4)]) (use 2 in \<open>simp_all add: defs\<close>)
  qed
  moreover have "WorkComparator (heap s3) 1 3" by (simp add: h WorkComparator_def sample_block_def)
  moreover have "3 \<notin> set (candidates s3)" by (simp add: s3_def update_block_def sample_state_def)
  ultimately show ?thesis by blast
qed

end
