(* ===== verification/Merkle.thy ===== *)
theory Merkle
  imports SigHash
begin

text \<open>
  Merkle trees (src/src/primitives/block.cpp, src/src/consensus/merkle.cpp).  The parameter \<open>H\<close> of the definitions is
  the hash of the concatenation of two hashes, for the code \<open>Hash_pair\<close>; the theorems are about an arbitrary
  function \<open>H\<close> and name the absence of collisions among the pairs that a tree hashes as a hypothesis where they need it.  The
  reference is the tree level by level: \<open>level\<close> hashes the pairs of a level, the last element of an odd level with itself.
\<close>

type_synonym pair_hash = "uint256 \<Rightarrow> uint256 \<Rightarrow> uint256"

text \<open>\<open>Hash(BEGIN(a), END(a), BEGIN(b), END(b))\<close>; a \<open>uint256\<close> is kept in memory in little-endian order.\<close>

definition Hash_pair :: "hashes \<Rightarrow> pair_hash" where
  "Hash_pair hs a b = GetHash hs (ser_word 32 a @ ser_word 32 b)"

section \<open>The tree of a block\<close>

text \<open>\<open>CBlock::BuildMerkleTree\<close>: one level of \<open>nSize\<close> nodes starts at position \<open>j\<close> of \<open>vMerkleTree\<close>.\<close>

function hash_level :: "pair_hash \<Rightarrow> nat \<Rightarrow> nat \<Rightarrow> nat \<Rightarrow> uint256 list \<times> bool \<Rightarrow> uint256 list \<times> bool" where
  "hash_level H j nSize i (vMerkleTree, mutated) =
     (if i < nSize then
        let i2 = min (i + 1) (nSize - 1);
            mutated' = (mutated \<or> i2 = i + 1 \<and> i2 + 1 = nSize \<and> vMerkleTree ! (j + i) = vMerkleTree ! (j + i2))
        in hash_level H j nSize (i + 2) (vMerkleTree @ [H (vMerkleTree ! (j + i)) (vMerkleTree ! (j + i2))], mutated')
      else (vMerkleTree, mutated))"
  by pat_completeness auto
termination by (relation "measure (\<lambda>(H, j, nSize, i, t). nSize - i)") auto

function hash_levels :: "pair_hash \<Rightarrow> nat \<Rightarrow> nat \<Rightarrow> uint256 list \<times> bool \<Rightarrow> uint256 list \<times> bool" where
  "hash_levels H j nSize t =
     (if 1 < nSize then hash_levels H (j + nSize) ((nSize + 1) div 2) (hash_level H j nSize 0 t) else t)"
  by pat_completeness auto
termination by (relation "measure (\<lambda>(H, j, nSize, t). nSize)") auto

text \<open>The tree, whether a mutation was detected, and the root.\<close>

definition vMerkleTree_of :: "pair_hash \<Rightarrow> uint256 list \<Rightarrow> uint256 list \<times> bool" where
  "vMerkleTree_of H leaves = hash_levels H 0 (length leaves) (leaves, False)"

definition BuildMerkleTree :: "pair_hash \<Rightarrow> uint256 list \<Rightarrow> uint256 \<times> bool" where
  "BuildMerkleTree H leaves =
     (let (vMerkleTree, mutated) = vMerkleTree_of H leaves
      in (if vMerkleTree = [] then 0 else last vMerkleTree, mutated))"

text \<open>\<open>CBlock::GetMerkleBranch\<close> and \<open>CBlock::CheckMerkleBranch\<close>.  The index is a position in the block.\<close>

function GetMerkleBranch_loop :: "uint256 list \<Rightarrow> nat \<Rightarrow> nat \<Rightarrow> nat \<Rightarrow> uint256 list" where
  "GetMerkleBranch_loop vMerkleTree j nSize nIndex =
     (if 1 < nSize then
        vMerkleTree ! (j + min (nIndex XOR 1) (nSize - 1)) #
        GetMerkleBranch_loop vMerkleTree (j + nSize) ((nSize + 1) div 2) (nIndex div 2)
      else [])"
  by pat_completeness auto
termination by (relation "measure (\<lambda>(t, j, nSize, i). nSize)") auto

definition GetMerkleBranch :: "pair_hash \<Rightarrow> uint256 list \<Rightarrow> nat \<Rightarrow> uint256 list" where
  "GetMerkleBranch H leaves nIndex = GetMerkleBranch_loop (fst (vMerkleTree_of H leaves)) 0 (length leaves) nIndex"

fun branch_root :: "pair_hash \<Rightarrow> uint256 \<Rightarrow> uint256 list \<Rightarrow> int \<Rightarrow> uint256" where
  "branch_root H hash [] nIndex = hash"
| "branch_root H hash (x # xs) nIndex = branch_root H (if odd nIndex then H x hash else H hash x) xs (nIndex div 2)"

definition CheckMerkleBranch :: "pair_hash \<Rightarrow> uint256 \<Rightarrow> uint256 list \<Rightarrow> int \<Rightarrow> uint256" where
  "CheckMerkleBranch H hash vMerkleBranch nIndex = (if nIndex = - 1 then 0 else branch_root H hash vMerkleBranch nIndex)"

declare hash_level.simps [simp del] hash_levels.simps [simp del] GetMerkleBranch_loop.simps [simp del]

section \<open>The reference: level by level\<close>

fun level :: "pair_hash \<Rightarrow> uint256 list \<Rightarrow> uint256 list" where
  "level H [] = []"
| "level H [a] = [H a a]"
| "level H (a # b # xs) = H a b # level H xs"

text \<open>The number of nodes of level \<open>l\<close> over \<open>n\<close> leaves, and a node.\<close>

definition width :: "nat \<Rightarrow> nat \<Rightarrow> nat" where
  "width n l = (n + 2 ^ l - 1) div 2 ^ l"

definition node :: "pair_hash \<Rightarrow> uint256 list \<Rightarrow> nat \<Rightarrow> nat \<Rightarrow> uint256" where
  "node H xs l k = (level H ^^ l) xs ! k"

function merkle_root :: "pair_hash \<Rightarrow> uint256 list \<Rightarrow> uint256" where
  "merkle_root H xs = (if length xs \<le> 1 then (if xs = [] then 0 else hd xs) else merkle_root H (level H xs))"
  by pat_completeness auto

lemma length_level [simp]: "length (level H xs) = (length xs + 1) div 2"
  by (induction H xs rule: level.induct) auto

termination merkle_root by (relation "measure (\<lambda>(H, xs). length xs)") auto

declare merkle_root.simps [simp del]

lemma level_Nil [simp]: "level H xs = [] \<longleftrightarrow> xs = []"
  by (simp flip: length_0_conv) presburger

lemma nth_level: "k < (length xs + 1) div 2 \<Longrightarrow> level H xs ! k = H (xs ! (2 * k)) (xs ! min (2 * k + 1) (length xs - 1))"
proof (induction H xs arbitrary: k rule: level.induct)
  case (3 H a b xs)
  show ?case
  proof (cases k)
    case (Suc k')
    have "xs \<noteq> []" using 3(2) Suc by auto
    then have "min (2 * k + 1) (length (a # b # xs) - 1) = Suc (Suc (min (2 * k' + 1) (length xs - 1)))"
      using Suc by (auto simp: min_def)
    then show ?thesis using 3 Suc by simp
  qed (use 3 in simp)
qed auto

lemma width_0 [simp]: "width n 0 = n"
  by (simp add: width_def)

lemma width_Suc: "width n (Suc l) = (width n l + 1) div 2"
proof (cases "n = 0")
  case False
  have "(width n l + 1) div 2 = (n + 2 ^ l - 1 + 2 ^ l) div 2 ^ l div 2" by (simp add: width_def div_add_self2 del: One_nat_def)
  also have "\<dots> = (n + 2 ^ l - 1 + 2 ^ l) div 2 ^ Suc l" by (simp only: div_mult2_eq power_Suc2)
  also have "n + 2 ^ l - 1 + 2 ^ l = n + 2 ^ Suc l - 1" using False by simp
  finally show ?thesis by (simp add: width_def)
qed (simp add: width_def)

lemma width_div: "0 < n \<Longrightarrow> width n l = (n - 1) div 2 ^ l + 1"
proof -
  assume "0 < n"
  then have "n + 2 ^ l - 1 = (n - 1) + 2 ^ l" by simp
  then show ?thesis by (simp add: width_def div_add_self2 del: One_nat_def)
qed

lemma length_levels [simp]: "length ((level H ^^ l) xs) = width (length xs) l"
  by (induction l) (simp_all add: width_Suc)

lemma node_0 [simp]: "node H xs 0 k = xs ! k"
  by (simp add: node_def)

lemma node_Suc:
  "k < width (length xs) (Suc l) \<Longrightarrow>
   node H xs (Suc l) k = H (node H xs l (2 * k)) (node H xs l (min (2 * k + 1) (width (length xs) l - 1)))"
  by (simp add: node_def nth_level width_Suc)

section \<open>BuildMerkleTree against the reference\<close>

text \<open>The last two nodes of a level are a pair of equal hashes.\<close>

definition equal_pair_at_end :: "uint256 list \<Rightarrow> bool" where
  "equal_pair_at_end xs \<longleftrightarrow> xs \<noteq> [] \<and> even (length xs) \<and> xs ! (length xs - 2) = xs ! (length xs - 1)"

function upper_levels :: "pair_hash \<Rightarrow> uint256 list \<Rightarrow> uint256 list list" where
  "upper_levels H xs = (if length xs \<le> 1 then [] else level H xs # upper_levels H (level H xs))"
  by pat_completeness auto
termination by (relation "measure (\<lambda>(H, xs). length xs)") auto

declare upper_levels.simps [simp del]

text \<open>The levels on which pairs are hashed: all but the root.\<close>

definition mutated_tree :: "pair_hash \<Rightarrow> uint256 list \<Rightarrow> bool" where
  "mutated_tree H xs \<longleftrightarrow> (\<exists>ys \<in> set (xs # upper_levels H xs). equal_pair_at_end ys)"

lemma upper_levels_short [simp]: "length xs \<le> 1 \<Longrightarrow> upper_levels H xs = []"
  by (simp add: upper_levels.simps)

lemma upper_levels_long: "1 < length xs \<Longrightarrow> upper_levels H xs = level H xs # upper_levels H (level H xs)"
  by (simp add: upper_levels.simps)

lemma merkle_root_short [simp]: "merkle_root H [] = 0" "merkle_root H [x] = x"
  by (simp_all add: merkle_root.simps)

lemma merkle_root_long: "1 < length xs \<Longrightarrow> merkle_root H xs = merkle_root H (level H xs)"
  by (subst merkle_root.simps) simp

lemma mutated_tree_long:
  "1 < length xs \<Longrightarrow> mutated_tree H xs \<longleftrightarrow> equal_pair_at_end xs \<or> mutated_tree H (level H xs)"
  by (simp add: mutated_tree_def upper_levels_long)

lemma mutated_tree_short [simp]: "length xs \<le> 1 \<Longrightarrow> \<not> mutated_tree H xs"
  by (cases xs) (auto simp: mutated_tree_def equal_pair_at_end_def)

lemma hash_level_correct:
  assumes "even i" and "i \<le> length xs + 1" and "\<And>k. k < length xs \<Longrightarrow> t ! (j + k) = xs ! k" and "j + length xs \<le> length t"
  shows "hash_level H j (length xs) i (t, m) =
    (t @ drop (i div 2) (level H xs), m \<or> i < length xs \<and> equal_pair_at_end xs)"
  using assms
proof (induction "length xs + 1 - i" arbitrary: i t m rule: less_induct)
  case less
  let ?n = "length xs"
  show ?case
  proof (cases "i < ?n")
    case False
    have "(?n + 1) div 2 \<le> i div 2" using False less.prems(1) by (auto elim!: evenE)
    then have "drop (i div 2) (level H xs) = []" by simp
    then show ?thesis using False by (simp add: hash_level.simps)
  next
    case True
    let ?i2 = "min (i + 1) (?n - 1)"
    let ?x = "H (xs ! i) (xs ! ?i2)"
    let ?m = "m \<or> ?i2 = i + 1 \<and> ?i2 + 1 = ?n \<and> xs ! i = xs ! ?i2"
    have "t ! (j + i) = xs ! i" "t ! (j + ?i2) = xs ! ?i2" using less.prems(3) True by auto
    then have "hash_level H j ?n i (t, m) = hash_level H j ?n (i + 2) (t @ [?x], ?m)"
      by (subst hash_level.simps) (simp only: True if_True Let_def)
    also have "\<dots> = ((t @ [?x]) @ drop ((i + 2) div 2) (level H xs), ?m \<or> i + 2 < ?n \<and> equal_pair_at_end xs)"
    proof (rule less.hyps)
      show "i + 2 \<le> ?n + 1" "even (i + 2)" using less.prems(1) True by auto
      show "?n + 1 - (i + 2) < ?n + 1 - i" "j + ?n \<le> length (t @ [?x])" using True less.prems(4) by auto
      show "(t @ [?x]) ! (j + k) = xs ! k" if "k < ?n" for k
        using less.prems(3) [OF that] less.prems(4) that by (simp add: nth_append)
    qed
    also have "(t @ [?x]) @ drop ((i + 2) div 2) (level H xs) = t @ drop (i div 2) (level H xs)"
    proof -
      have k: "i div 2 < length (level H xs)" using True less.prems(1) by auto
      have "level H xs ! (i div 2) = ?x" using nth_level [of "i div 2" xs H] k less.prems(1) by simp
      then show ?thesis using Cons_nth_drop_Suc [OF k] by simp
    qed
    also have "(?m \<or> i + 2 < ?n \<and> equal_pair_at_end xs) = (m \<or> i < ?n \<and> equal_pair_at_end xs)"
    proof (cases "i + 2 < ?n")
      case False
      then consider "i + 1 = ?n" | "i + 2 = ?n" using True by linarith
      then show ?thesis
      proof cases
        case 1
        then have "odd ?n" "?i2 \<noteq> i + 1" using less.prems(1) by (auto simp flip: 1)
        then show ?thesis using 1 by (simp add: equal_pair_at_end_def)
      next
        case 2
        have "even (i + 2)" using less.prems(1) by simp
        then have "?n - 2 = i" "?n - 1 = i + 1" "even ?n" "xs \<noteq> []" unfolding 2 using 2 by auto
        then show ?thesis using 2 by (simp add: equal_pair_at_end_def)
      qed
    qed auto
    finally show ?thesis .
  qed
qed

lemma hash_levels_correct:
  "hash_levels H (length p) (length xs) (p @ xs, m) = (p @ xs @ concat (upper_levels H xs), m \<or> mutated_tree H xs)"
proof (induction H xs arbitrary: p m rule: merkle_root.induct)
  case (1 H xs)
  show ?case
  proof (cases "length xs \<le> 1")
    case True
    then show ?thesis by (simp add: hash_levels.simps)
  next
    case False
    then have l: "1 < length xs" by simp
    have "hash_level H (length p) (length xs) 0 (p @ xs, m) =
        ((p @ xs) @ drop (0 div 2) (level H xs), m \<or> 0 < length xs \<and> equal_pair_at_end xs)"
      by (rule hash_level_correct) (auto simp: nth_append)
    then have "hash_levels H (length p) (length xs) (p @ xs, m) =
        hash_levels H (length (p @ xs)) (length (level H xs)) ((p @ xs) @ level H xs, m \<or> equal_pair_at_end xs)"
      using l by (subst hash_levels.simps) (auto simp: equal_pair_at_end_def)
    also have "\<dots> = ((p @ xs) @ level H xs @ concat (upper_levels H (level H xs)),
        (m \<or> equal_pair_at_end xs) \<or> mutated_tree H (level H xs))"
      by (rule 1 [OF False])
    finally show ?thesis using l by (simp add: upper_levels_long mutated_tree_long)
  qed
qed

lemma vMerkleTree_levels: "vMerkleTree_of H xs = (xs @ concat (upper_levels H xs), mutated_tree H xs)"
  using hash_levels_correct [of H "[]" xs False] by (simp add: vMerkleTree_of_def)

lemma last_levels: "xs \<noteq> [] \<Longrightarrow> last (xs @ concat (upper_levels H xs)) = merkle_root H xs"
proof (induction H xs rule: merkle_root.induct)
  case (1 H xs)
  show ?case
  proof (cases "length xs \<le> 1")
    case True
    then obtain x where "xs = [x]" using 1(2) by (cases xs) auto
    then show ?thesis by simp
  next
    case False
    then show ?thesis using 1 by (simp add: upper_levels_long merkle_root_long)
  qed
qed

lemma BuildMerkleTree_reference: "BuildMerkleTree H xs = (merkle_root H xs, mutated_tree H xs)"
proof (cases "xs = []")
  case False
  then show ?thesis using last_levels [OF False, of H] by (simp add: BuildMerkleTree_def vMerkleTree_levels)
qed (simp add: BuildMerkleTree_def vMerkleTree_levels)

section \<open>Branches\<close>

lemma xor_one_nat: "(i :: nat) XOR 1 = (if even i then i + 1 else i - 1)"
  using xor_Suc_0_eq [of i] by auto

function branch_of :: "pair_hash \<Rightarrow> uint256 list \<Rightarrow> nat \<Rightarrow> uint256 list" where
  "branch_of H xs i =
     (if length xs \<le> 1 then [] else xs ! min (i XOR 1) (length xs - 1) # branch_of H (level H xs) (i div 2))"
  by pat_completeness auto
termination by (relation "measure (\<lambda>(H, xs, i). length xs)") auto

declare branch_of.simps [simp del]

lemma GetMerkleBranch_loop_correct:
  "GetMerkleBranch_loop (p @ xs @ concat (upper_levels H xs)) (length p) (length xs) i = branch_of H xs i"
proof (induction H xs i arbitrary: p rule: branch_of.induct)
  case (1 H xs i)
  show ?case
  proof (cases "length xs \<le> 1")
    case True
    then show ?thesis by (simp add: GetMerkleBranch_loop.simps branch_of.simps)
  next
    case False
    then have l: "1 < length xs" by simp
    have "min (i XOR 1) (length xs - 1) < length xs" using l by simp
    then have n: "(p @ xs @ concat (upper_levels H xs)) ! (length p + min (i XOR 1) (length xs - 1)) = xs ! min (i XOR 1) (length xs - 1)"
      by (simp only: nth_append_length_plus) (simp only: nth_append if_True)
    have "GetMerkleBranch_loop ((p @ xs) @ level H xs @ concat (upper_levels H (level H xs))) (length (p @ xs)) (length (level H xs)) (i div 2) =
        branch_of H (level H xs) (i div 2)"
      by (rule 1 [OF False])
    then show ?thesis
      using l n by (subst GetMerkleBranch_loop.simps, subst branch_of.simps) (simp add: upper_levels_long del: nth_append_length_plus)
  qed
qed

lemma GetMerkleBranch_reference: "GetMerkleBranch H xs i = branch_of H xs i"
  using GetMerkleBranch_loop_correct [of "[]"] by (simp add: GetMerkleBranch_def vMerkleTree_levels)

lemma branch_of_root:
  "i < length xs \<Longrightarrow> branch_root H (xs ! i) (branch_of H xs i) (int i) = merkle_root H xs"
proof (induction H xs i rule: branch_of.induct)
  case (1 H xs i)
  show ?case
  proof (cases "length xs \<le> 1")
    case True
    then obtain x where "xs = [x]" using 1(2) by (cases xs) auto
    then show ?thesis using 1(2) by (simp add: branch_of.simps)
  next
    case False
    let ?i = "i div 2" and ?s = "xs ! min (i XOR 1) (length xs - 1)"
    have k: "?i < length (level H xs)" using 1(2) by auto
    have "level H xs ! ?i = H (xs ! (2 * ?i)) (xs ! min (2 * ?i + 1) (length xs - 1))" using nth_level [of ?i xs H] k by simp
    also have "\<dots> = (if odd i then H ?s (xs ! i) else H (xs ! i) ?s)"
    proof (cases "even i")
      case True
      then have "2 * ?i = i" "i XOR 1 = i + 1" by (simp_all only: xor_one_nat if_True dvd_mult_div_cancel)
      then show ?thesis using True by simp
    next
      case False
      then have "2 * ?i = i - 1" "2 * ?i + 1 = i" "i XOR 1 = i - 1" by (simp_all only: xor_one_nat if_False) presburger+
      moreover have "min i (length xs - 1) = i" "min (i - 1) (length xs - 1) = i - 1" using 1(2) by auto
      ultimately show ?thesis using False by simp
    qed
    finally have "level H xs ! ?i = (if odd i then H ?s (xs ! i) else H (xs ! i) ?s)" .
    then show ?thesis
      using 1(1) [OF False k] False by (subst branch_of.simps) (simp add: zdiv_int merkle_root_long del: One_nat_def)
  qed
qed

section \<open>What a root commits to\<close>

fun pairs_of :: "uint256 list \<Rightarrow> (uint256 \<times> uint256) list" where
  "pairs_of [] = []"
| "pairs_of [a] = [(a, a)]"
| "pairs_of (a # b # xs) = (a, b) # pairs_of xs"

text \<open>The pairs that are hashed while the tree of \<open>xs\<close> is built.\<close>

function hashed :: "pair_hash \<Rightarrow> uint256 list \<Rightarrow> (uint256 \<times> uint256) set" where
  "hashed H xs = (if length xs \<le> 1 then {} else set (pairs_of xs) \<union> hashed H (level H xs))"
  by pat_completeness auto
termination by (relation "measure (\<lambda>(H, xs). length xs)") auto

declare hashed.simps [simp del]

definition no_collision :: "pair_hash \<Rightarrow> (uint256 \<times> uint256) set \<Rightarrow> bool" where
  "no_collision H A \<longleftrightarrow> inj_on (\<lambda>(a, b). H a b) A"

lemma no_collisionD: "no_collision H A \<Longrightarrow> (a, b) \<in> A \<Longrightarrow> (c, d) \<in> A \<Longrightarrow> H a b = H c d \<Longrightarrow> a = c \<and> b = d"
  using inj_onD [of "\<lambda>(a, b). H a b" A "(a, b)" "(c, d)"] by (simp add: no_collision_def)

lemma no_collision_mono: "no_collision H A \<Longrightarrow> B \<subseteq> A \<Longrightarrow> no_collision H B"
  unfolding no_collision_def by (rule inj_on_subset)

lemma hashed_long: "1 < length xs \<Longrightarrow> hashed H xs = set (pairs_of xs) \<union> hashed H (level H xs)"
  by (subst hashed.simps) simp

lemma level_pairs: "level H xs = map (\<lambda>(a, b). H a b) (pairs_of xs)"
  by (induction xs rule: pairs_of.induct) auto

lemma set_pairs_of: "(a, b) \<in> set (pairs_of xs) \<Longrightarrow> a \<in> set xs \<and> b \<in> set xs"
  by (induction xs rule: pairs_of.induct) auto

text \<open>Lists with the same pairs differ at most in the repetition of the last element of the shorter one.\<close>

lemma pairs_of_eq:
  "pairs_of xs = pairs_of ys \<Longrightarrow> \<not> equal_pair_at_end xs \<Longrightarrow> \<not> equal_pair_at_end ys \<Longrightarrow> xs = ys"
proof (induction xs arbitrary: ys rule: pairs_of.induct)
  case 1
  then show ?case by (cases ys rule: pairs_of.cases) auto
next
  case (2 a)
  then show ?case
    by (cases ys rule: pairs_of.cases; cases "tl (tl ys)" rule: pairs_of.cases) (auto simp: equal_pair_at_end_def)
next
  case (3 a b xs)
  obtain zs where ys: "ys = a # b # zs \<or> ys = [a]" "pairs_of xs = pairs_of zs \<or> ys = [a]" and s: "ys = [a] \<Longrightarrow> a = b \<and> xs = []"
  proof (cases ys rule: pairs_of.cases)
    case 2
    then show ?thesis using 3(2) that [of "[]"] by (cases xs rule: pairs_of.cases) auto
  qed (use 3(2) in auto)
  have e: "equal_pair_at_end (a # b # us) \<longleftrightarrow> equal_pair_at_end us \<or> us = [] \<and> a = b" for us
    by (cases us rule: rev_cases; cases "butlast us" rule: rev_cases) (auto simp: equal_pair_at_end_def nth_append)
  show ?case
  proof (cases "ys = [a]")
    case True
    then show ?thesis using s 3(3) e by simp
  next
    case False
    then show ?thesis using ys 3(1) [of zs] 3(3,4) e by auto
  qed
qed

lemma merkle_root_inject:
  assumes "merkle_root H xs = merkle_root H ys" and "length (upper_levels H xs) = length (upper_levels H ys)"
    and "xs \<noteq> []" and "ys \<noteq> []" and "no_collision H (hashed H xs \<union> hashed H ys)"
    and "\<not> mutated_tree H xs" and "\<not> mutated_tree H ys"
  shows "xs = ys"
  using assms
proof (induction H xs arbitrary: ys rule: merkle_root.induct)
  case (1 H xs)
  show ?case
  proof (cases "length xs \<le> 1")
    case True
    then have "\<not> 1 < length ys" using 1(3) upper_levels_long [of ys H] by auto
    then obtain x y where "xs = [x]" "ys = [y]" using True 1(4,5) by (cases xs; cases ys) auto
    then show ?thesis using 1(2) by simp
  next
    case False
    then have l: "1 < length xs" by simp
    have m: "1 < length ys" using 1(3) l by (cases "1 < length ys") (auto simp: upper_levels_long)
    have "level H xs = level H ys"
    proof (rule 1(1) [OF False])
      show "no_collision H (hashed H (level H xs) \<union> hashed H (level H ys))"
        by (rule no_collision_mono [OF 1(6)]) (auto simp: hashed_long [OF l] hashed_long [OF m])
    qed (use 1 l m in \<open>auto simp: merkle_root_long upper_levels_long mutated_tree_long\<close>)
    moreover have "inj_on (\<lambda>(a, b). H a b) (set (pairs_of xs) \<union> set (pairs_of ys))"
      using no_collision_mono [OF 1(6), of "set (pairs_of xs) \<union> set (pairs_of ys)"]
      by (auto simp: hashed_long [OF l] hashed_long [OF m] no_collision_def)
    ultimately have "pairs_of xs = pairs_of ys" unfolding level_pairs by (rule map_inj_on)
    then show ?thesis using pairs_of_eq 1(7,8) l m by (simp add: mutated_tree_long)
  qed
qed

fun branch_pairs :: "pair_hash \<Rightarrow> uint256 \<Rightarrow> uint256 list \<Rightarrow> int \<Rightarrow> (uint256 \<times> uint256) set" where
  "branch_pairs H hash [] i = {}"
| "branch_pairs H hash (x # xs) i =
     insert (if odd i then (x, hash) else (hash, x)) (branch_pairs H (if odd i then H x hash else H hash x) xs (i div 2))"

lemma branch_root_sound:
  "branch_root H hash br i = merkle_root H xs \<Longrightarrow> length br = length (upper_levels H xs) \<Longrightarrow> xs \<noteq> [] \<Longrightarrow>
   no_collision H (hashed H xs \<union> branch_pairs H hash br i) \<Longrightarrow> hash \<in> set xs"
proof (induction H xs arbitrary: hash br i rule: merkle_root.induct)
  case (1 H xs)
  show ?case
  proof (cases "length xs \<le> 1")
    case True
    then obtain x where "xs = [x]" using 1(4) by (cases xs) auto
    then show ?thesis using 1(2,3) by simp
  next
    case False
    then have l: "1 < length xs" by simp
    obtain b br' where br: "br = b # br'" using 1(3) l by (cases br) (auto simp: upper_levels_long)
    define p where "p = (if odd i then (b, hash) else (hash, b))"
    let ?h = "case p of (x, y) \<Rightarrow> H x y"
    have h: "?h = (if odd i then H b hash else H hash b)" by (simp add: p_def)
    have "?h \<in> set (level H xs)"
    proof (rule 1(1) [OF False])
      show "branch_root H ?h br' (i div 2) = merkle_root H (level H xs)" using 1(2) l br h by (simp add: merkle_root_long)
      show "no_collision H (hashed H (level H xs) \<union> branch_pairs H ?h br' (i div 2))"
        by (rule no_collision_mono [OF 1(5)]) (auto simp: hashed_long [OF l] br h)
    qed (use 1(3) l br in \<open>simp_all add: upper_levels_long\<close>, use l in auto)
    then obtain q where q: "q \<in> set (pairs_of xs)" "?h = (case q of (x, y) \<Rightarrow> H x y)" by (auto simp: level_pairs)
    have "p \<in> branch_pairs H hash br i" by (simp add: br p_def)
    then have "p = q" using q 1(5) inj_onD [of "\<lambda>(a, b). H a b" _ p q] by (simp add: no_collision_def hashed_long [OF l])
    then show ?thesis using set_pairs_of [of "fst q" "snd q" xs] q(1) by (auto simp: p_def split: if_splits)
  qed
qed

end
