(* ===== verification/MerkleCompute.thy ===== *)
theory MerkleCompute
  imports Merkle "HOL-Library.Monad_Syntax"
begin

text \<open>
  The Merkle computation in constant space (src/src/consensus/merkle.cpp) and its equivalence with the tree of
  \<open>Merkle\<close>.  \<open>count\<close> is a natural number below \<open>2 ^ 32\<close> whose additions wrap around (\<open>nat_u32\<close>).  \<open>None\<close> stands for
  undefined behaviour: a shift of 1 by 32 places or more, and with it an access to \<open>inner\<close>, an array of 32 entries, out of
  bounds.  The comment of the source limits the function to \<open>2 ^ 32\<close> leaves; it is defined for at most \<open>2 ^ 31\<close>
  leaves, and the theorems show this for both directions.  The optional outputs are always computed.
\<close>

record merkle_state =
  mc_inner :: "nat \<Rightarrow> uint256"
  mc_matchlevel :: int
  mc_mutated :: bool
  mc_branch :: "uint256 list"

text \<open>The sibling that a combination at \<open>level\<close> contributes to the branch.\<close>

definition grow_branch :: "nat \<Rightarrow> uint256 \<Rightarrow> merkle_state \<times> bool \<Rightarrow> merkle_state \<times> bool" where
  "grow_branch lv h = (\<lambda>(st, matchh).
     if matchh then (st\<lparr>mc_branch := mc_branch st @ [mc_inner st lv]\<rparr>, True)
     else if mc_matchlevel st = int lv then (st\<lparr>mc_branch := mc_branch st @ [h]\<rparr>, True)
     else (st, False))"

function merge_levels ::
  "pair_hash \<Rightarrow> nat \<Rightarrow> nat \<Rightarrow> uint256 \<Rightarrow> merkle_state \<times> bool \<Rightarrow> (nat \<times> uint256 \<times> merkle_state \<times> bool) option" where
  "merge_levels H count lv h s =
     (if 32 \<le> lv then None
      else if \<not> bit count lv then
        (let (st, matchh) = grow_branch lv h s
         in merge_levels H count (lv + 1) (H (mc_inner st lv) h)
              (st\<lparr>mc_mutated := mc_mutated st \<or> mc_inner st lv = h\<rparr>, matchh))
      else Some (lv, h, s))"
  by pat_completeness auto
termination by (relation "measure (\<lambda>(H, count, lv, h, s). 32 - lv)") auto

declare merge_levels.simps [simp del]

text \<open>The loop over the leaves; \<open>count\<close> leaves have been processed.\<close>

fun process_leaves :: "pair_hash \<Rightarrow> nat \<Rightarrow> nat \<Rightarrow> uint256 list \<Rightarrow> merkle_state \<Rightarrow> merkle_state option" where
  "process_leaves H branchpos count [] st = Some st"
| "process_leaves H branchpos count (h # hs) st =
     (case merge_levels H (nat_u32 (count + 1)) 0 h (st, count = branchpos) of
        None \<Rightarrow> None
      | Some (lv, h', st', matchh) \<Rightarrow>
          process_leaves H branchpos (nat_u32 (count + 1)) hs
            (st'\<lparr>mc_inner := (mc_inner st')(lv := h'), mc_matchlevel := if matchh then int lv else mc_matchlevel st'\<rparr>))"

function lowest_level :: "nat \<Rightarrow> nat \<Rightarrow> nat option" where
  "lowest_level count lv =
     (if 32 \<le> lv then None else if \<not> bit count lv then lowest_level count (lv + 1) else Some lv)"
  by pat_completeness auto
termination by (relation "measure (\<lambda>(count, lv). 32 - lv)") auto

declare lowest_level.simps [simp del]

text \<open>The final sweep: \<open>sweep_up\<close> is its inner loop.\<close>

function sweep_up ::
  "pair_hash \<Rightarrow> nat \<Rightarrow> nat \<Rightarrow> uint256 \<Rightarrow> merkle_state \<times> bool \<Rightarrow> (nat \<times> uint256 \<times> merkle_state \<times> bool) option" where
  "sweep_up H count lv h s =
     (if 32 \<le> lv then None
      else if \<not> bit count lv then
        (let (st, matchh) = grow_branch lv h s in sweep_up H count (lv + 1) (H (mc_inner st lv) h) (st, matchh))
      else Some (lv, h, s))"
  by pat_completeness auto
termination by (relation "measure (\<lambda>(H, count, lv, h, s). 32 - lv)") auto

declare sweep_up.simps [simp del]

partial_function (option) final_sweep ::
  "pair_hash \<Rightarrow> nat \<Rightarrow> nat \<Rightarrow> uint256 \<Rightarrow> merkle_state \<times> bool \<Rightarrow> (uint256 \<times> merkle_state) option" where
  "final_sweep H count lv h s =
     (let (st, matchh) = s in
      if 32 \<le> lv then None
      else if count \<noteq> 2 ^ lv then
        (let st1 = (if matchh then st\<lparr>mc_branch := mc_branch st @ [h]\<rparr> else st);
             count1 = nat_u32 (count + 2 ^ lv)
         in case sweep_up H count1 (lv + 1) (H h h) (st1, matchh) of
              None \<Rightarrow> None
            | Some (lv', h', s') \<Rightarrow> final_sweep H count1 lv' h' s')
      else Some (h, st))"

text \<open>The root, whether a mutation was detected, and the branch.\<close>

definition MerkleComputation :: "pair_hash \<Rightarrow> uint256 list \<Rightarrow> nat \<Rightarrow> (uint256 \<times> bool \<times> uint256 list) option" where
  "MerkleComputation H leaves branchpos =
     (if leaves = [] then Some (0, False, [])
      else
        case process_leaves H branchpos 0 leaves
               \<lparr>mc_inner = (\<lambda>_. 0), mc_matchlevel = - 1, mc_mutated = False, mc_branch = []\<rparr> of
          None \<Rightarrow> None
        | Some st \<Rightarrow>
            (let count = nat_u32 (length leaves)
             in case lowest_level count 0 of
                  None \<Rightarrow> None
                | Some lv \<Rightarrow>
                    map_option (\<lambda>(h, st'). (h, mc_mutated st', mc_branch st'))
                      (final_sweep H count lv (mc_inner st lv) (st, mc_matchlevel st = int lv))))"

definition ComputeMerkleRoot :: "pair_hash \<Rightarrow> uint256 list \<Rightarrow> (uint256 \<times> bool) option" where
  "ComputeMerkleRoot H leaves = map_option (\<lambda>(h, m, br). (h, m)) (MerkleComputation H leaves (2 ^ 32 - 1))"

definition ComputeMerkleBranch :: "pair_hash \<Rightarrow> uint256 list \<Rightarrow> nat \<Rightarrow> uint256 list option" where
  "ComputeMerkleBranch H leaves position = map_option (\<lambda>(h, m, br). br) (MerkleComputation H leaves position)"

fun ComputeMerkleRootFromBranch :: "pair_hash \<Rightarrow> uint256 \<Rightarrow> uint256 list \<Rightarrow> nat \<Rightarrow> uint256" where
  "ComputeMerkleRootFromBranch H hash [] nIndex = hash"
| "ComputeMerkleRootFromBranch H hash (x # xs) nIndex =
     ComputeMerkleRootFromBranch H (if odd nIndex then H x hash else H hash x) xs (nIndex div 2)"

section \<open>Nodes and siblings\<close>

definition sibling :: "pair_hash \<Rightarrow> uint256 list \<Rightarrow> nat \<Rightarrow> nat \<Rightarrow> uint256" where
  "sibling H xs p l = node H xs l (min ((p div 2 ^ l) XOR 1) (width (length xs) l - 1))"

lemma level_funpow: "(level H ^^ l) (level H xs) = (level H ^^ Suc l) xs"
  by (simp only: funpow_Suc_right o_apply)

lemma branch_of_siblings: "branch_of H xs p = map (sibling H xs p) [0..<length (upper_levels H xs)]"
proof (induction H xs p rule: branch_of.induct)
  case (1 H xs i)
  show ?case
  proof (cases "length xs \<le> 1")
    case True
    then show ?thesis by (subst branch_of.simps) simp
  next
    case False
    then have l: "1 < length xs" by simp
    have s: "sibling H (level H xs) (i div 2) l = sibling H xs i (Suc l)" for l
    proof -
      have "width (length (level H xs)) l = width (length xs) (Suc l)"
        using length_levels [of l H "level H xs"] length_levels [of "Suc l" H xs] by (simp only: level_funpow)
      moreover have "i div 2 div 2 ^ l = i div 2 ^ Suc l" by (simp only: power_Suc div_mult2_eq)
      ultimately show ?thesis by (simp only: sibling_def node_def level_funpow)
    qed
    have "sibling H xs i 0 = xs ! min (i XOR 1) (length xs - 1)" by (simp add: sibling_def del: One_nat_def)
    moreover have "branch_of H (level H xs) (i div 2) = map (\<lambda>l. sibling H xs i (Suc l)) [0..<length (upper_levels H (level H xs))]"
      using 1 [OF False] by (simp only: s)
    ultimately show ?thesis using l
      by (subst branch_of.simps) (simp add: upper_levels_long upt_conv_Cons map_Suc_upt [symmetric] comp_def del: upt_Suc One_nat_def)
  qed
qed

lemma width_level: "width (length (level H xs)) l = width (length xs) (Suc l)"
  using length_levels [of l H "level H xs"] length_levels [of "Suc l" H xs] by (simp only: level_funpow)

text \<open>The height of the tree: the lowest level with one node.\<close>

definition top_level :: "nat \<Rightarrow> nat \<Rightarrow> bool" where
  "top_level n l \<longleftrightarrow> width n l = 1 \<and> (\<forall>k < l. 1 < width n k)"

lemma top_level_root:
  "top_level (length xs) l \<Longrightarrow> merkle_root H xs = node H xs l 0 \<and> length (upper_levels H xs) = l"
proof (induction l arbitrary: xs)
  case 0
  then obtain x where "xs = [x]" by (cases xs) (auto simp: top_level_def)
  then show ?case by simp
next
  case (Suc l)
  then have l: "1 < length xs" by (auto simp: top_level_def dest: spec [of _ 0])
  have "top_level (length (level H xs)) l" using Suc.prems unfolding top_level_def width_level by simp
  then show ?case using Suc.IH [of "level H xs"] l
    by (simp add: merkle_root_long upper_levels_long) (simp only: node_def level_funpow)
qed

section \<open>The loop over the leaves\<close>

text \<open>The subtree of \<open>inner[l]\<close> when \<open>c\<close> leaves have been processed, and where position \<open>p\<close> is.\<close>

definition inner_ok :: "pair_hash \<Rightarrow> uint256 list \<Rightarrow> nat \<Rightarrow> merkle_state \<Rightarrow> bool" where
  "inner_ok H xs c st \<longleftrightarrow> (\<forall>l. odd (c div 2 ^ l) \<longrightarrow> mc_inner st l = node H xs l (c div 2 ^ l - 1))"

definition matched_at :: "pair_hash \<Rightarrow> uint256 list \<Rightarrow> nat \<Rightarrow> nat \<Rightarrow> nat \<Rightarrow> merkle_state \<Rightarrow> bool" where
  "matched_at H xs p c lv st \<longleftrightarrow> (\<exists>m \<ge> lv. mc_matchlevel st = int m \<and> odd (c div 2 ^ m) \<and> p div 2 ^ m = c div 2 ^ m - 1 \<and>
     mc_branch st = map (sibling H xs p) [0..<m])"

definition track :: "pair_hash \<Rightarrow> uint256 list \<Rightarrow> nat \<Rightarrow> nat \<Rightarrow> nat \<Rightarrow> merkle_state \<times> bool \<Rightarrow> bool" where
  "track H xs p c lv s \<longleftrightarrow>
     (if c < p then \<not> snd s \<and> mc_matchlevel (fst s) = - 1 \<and> mc_branch (fst s) = []
      else if p div 2 ^ lv = c div 2 ^ lv then snd s \<and> mc_branch (fst s) = map (sibling H xs p) [0..<lv]
      else \<not> snd s \<and> matched_at H xs p c lv (fst s))"

text \<open>Two equal nodes whose subtrees are complete, among the pairs hashed so far.\<close>

definition equal_pair :: "pair_hash \<Rightarrow> uint256 list \<Rightarrow> nat \<Rightarrow> nat \<Rightarrow> bool" where
  "equal_pair H xs c lv \<longleftrightarrow> (\<exists>l k. ((2 * k + 2) * 2 ^ l \<le> c \<or> (2 * k + 2) * 2 ^ l = c + 1 \<and> l < lv) \<and>
     node H xs l (2 * k) = node H xs l (2 * k + 1))"

lemma grow_branch_fields:
  "grow_branch lv h (st, b) = (st', b') \<Longrightarrow>
   mc_inner st' = mc_inner st \<and> mc_matchlevel st' = mc_matchlevel st \<and> mc_mutated st' = mc_mutated st"
  by (auto simp: grow_branch_def split: if_splits)

lemma div_pow_Suc: "x div 2 ^ Suc l = x div 2 ^ l div (2 :: nat)"
  by (simp only: power_Suc2 div_mult2_eq)

lemma div_pow_mono: "a div 2 ^ l = b div 2 ^ l \<Longrightarrow> l \<le> m \<Longrightarrow> a div 2 ^ m = b div (2 ^ m :: nat)"
  by (metis div_mult2_eq le_add_diff_inverse power_add)

text \<open>A pair of complete subtrees.\<close>

lemma node_pair:
  assumes "2 ^ lv * (2 * k + 2) \<le> length xs"
  shows "node H xs (Suc lv) k = H (node H xs lv (2 * k)) (node H xs lv (2 * k + 1))"
    and "2 * k + 2 \<le> width (length xs) lv"
proof -
  have n: "0 < length xs" using assms by (cases xs) auto
  have "2 ^ lv * (2 * k + 1) \<le> length xs - 1"
  proof -
    have "(2 :: nat) ^ lv * (2 * k + 2) = 2 ^ lv * (2 * k + 1) + 2 ^ lv" "(1 :: nat) \<le> 2 ^ lv" by simp_all
    then show ?thesis using assms by linarith
  qed
  then have "2 * k + 1 \<le> (length xs - 1) div 2 ^ lv" by (simp add: less_eq_div_iff_mult_less_eq mult.commute)
  then show w: "2 * k + 2 \<le> width (length xs) lv" using n by (simp add: width_div)
  then have "k < width (length xs) (Suc lv)" by (simp add: width_Suc)
  then show "node H xs (Suc lv) k = H (node H xs lv (2 * k)) (node H xs lv (2 * k + 1))"
    using w by (simp add: node_Suc min_absorb1)
qed

lemma xor_odd: "odd (i :: nat) \<Longrightarrow> i XOR 1 = i - 1" and xor_even: "even (i :: nat) \<Longrightarrow> i XOR 1 = i + 1"
  using xor_one_nat by simp_all

text \<open>One step of \<open>merge_levels\<close>: the parent of the last node.\<close>

lemma track_step:
  assumes t: "track H xs p c lv (st, b)" and inner: "inner_ok H xs c st"
    and e: "c + 1 = 2 ^ lv * (2 * k + 2)" and le: "c + 1 \<le> length xs"
  shows "track H xs p c (Suc lv) (grow_branch lv (node H xs lv (2 * k + 1)) (st, b))"
proof -
  have cd: "c div 2 ^ lv = 2 * k + 1"
  proof -
    have "c = 2 ^ lv * (2 * k + 1) + (2 ^ lv - 1)" using e by (simp add: algebra_simps)
    moreover have "(2 ^ lv - 1) div 2 ^ lv = (0 :: nat)" by simp
    ultimately show ?thesis by (metis add.right_neutral div_mult_self4 power_not_zero zero_neq_numeral add.commute)
  qed
  have cS: "c div 2 ^ Suc lv = k" by (simp add: div_pow_Suc cd del: power_Suc)
  have in_lv: "mc_inner st lv = node H xs lv (2 * k)" using inner cd by (simp add: inner_ok_def)
  have w: "2 * k + 2 \<le> width (length xs) lv" using node_pair(2) e le by simp
  show ?thesis
  proof (cases "c < p")
    case True
    then show ?thesis using t by (auto simp: track_def grow_branch_def)
  next
    case le': False
    show ?thesis
    proof (cases "p div 2 ^ lv = 2 * k + 1")
      case True
      then have "p div 2 ^ Suc lv = k" by (simp add: div_pow_Suc del: power_Suc)
      moreover have "sibling H xs p lv = node H xs lv (2 * k)" using True w by (simp add: sibling_def xor_odd del: One_nat_def)
      ultimately show ?thesis using t True le' by (simp add: track_def cd cS grow_branch_def in_lv del: power_Suc)
    next
      case False
      then obtain m where m: "lv \<le> m" "mc_matchlevel st = int m" "odd (c div 2 ^ m)" "p div 2 ^ m = c div 2 ^ m - 1"
        "mc_branch st = map (sibling H xs p) [0..<m]" and b: "\<not> b"
        using t le' by (auto simp: track_def cd matched_at_def)
      show ?thesis
      proof (cases "m = lv")
        case True
        then have p: "p div 2 ^ lv = 2 * k" using m(4) cd by simp
        then have "p div 2 ^ Suc lv = k" by (simp add: div_pow_Suc del: power_Suc)
        moreover have "sibling H xs p lv = node H xs lv (2 * k + 1)" using p w by (simp add: sibling_def xor_even min_absorb1 del: One_nat_def)
        ultimately show ?thesis using m b True le' by (simp add: track_def cS grow_branch_def del: power_Suc)
      next
        case False
        then have l: "Suc lv \<le> m" using m(1) by simp
        have "p div 2 ^ Suc lv \<noteq> k"
        proof
          assume "p div 2 ^ Suc lv = k"
          then have "p div 2 ^ m = c div 2 ^ m" using div_pow_mono [OF _ l] cS by metis
          then show False using m(3,4) by (metis One_nat_def diff_Suc_less less_irrefl odd_pos)
        qed
        then show ?thesis using m b l False le' by (auto simp: track_def cS grow_branch_def matched_at_def simp del: power_Suc)
      qed
    qed
  qed
qed

lemma bit_count: "bit (2 ^ lv * e :: nat) lv \<longleftrightarrow> odd e"
  by (simp add: bit_iff_odd)

lemma level_less_32: "2 ^ lv * e \<le> (2 ^ 31 :: nat) \<Longrightarrow> 0 < e \<Longrightarrow> lv < (32 :: nat)"
proof (rule ccontr)
  assume a: "2 ^ lv * e \<le> (2 ^ 31 :: nat)" "0 < e" and "\<not> lv < 32"
  then have "(2 :: nat) ^ 32 \<le> 2 ^ lv" by (intro power_increasing) simp_all
  also have "\<dots> \<le> 2 ^ lv * e" using a(2) by simp
  finally show False using a(1) by simp
qed

lemma merge_levels_step:
  assumes "\<not> bit count lv" and "grow_branch lv h s = (st, b)" and "lv < 32"
  shows "merge_levels H count lv h s =
    merge_levels H count (Suc lv) (H (mc_inner st lv) h) (st\<lparr>mc_mutated := mc_mutated st \<or> mc_inner st lv = h\<rparr>, b)"
  using assms by (subst merge_levels.simps) simp

lemma track_mutated [simp]: "track H xs p c lv (st\<lparr>mc_mutated := m\<rparr>, b) = track H xs p c lv (st, b)"
  by (simp add: track_def matched_at_def)

lemma inner_ok_same: "mc_inner st' = mc_inner st \<Longrightarrow> inner_ok H xs c st' = inner_ok H xs c st"
  by (simp add: inner_ok_def)

lemma equal_pair_Suc:
  assumes "c + 1 = 2 ^ lv * (2 * k + 2)"
  shows "equal_pair H xs c (Suc lv) \<longleftrightarrow> equal_pair H xs c lv \<or> node H xs lv (2 * k) = node H xs lv (2 * k + 1)"
proof -
  have "(2 * j + 2) * 2 ^ lv = c + 1 \<longleftrightarrow> j = k" for j using assms by (simp add: mult.commute)
  then show ?thesis unfolding equal_pair_def less_Suc_eq by metis
qed

lemma merge_levels_correct:
  "0 < e \<Longrightarrow> c + 1 = 2 ^ lv * e \<Longrightarrow> c + 1 \<le> length xs \<Longrightarrow> length xs \<le> 2 ^ 31 \<Longrightarrow> inner_ok H xs c st \<Longrightarrow> track H xs p c lv (st, b) \<Longrightarrow>
    mc_mutated st = equal_pair H xs c lv \<Longrightarrow>
    \<exists>L e' st' b'. merge_levels H (c + 1) lv (node H xs lv (e - 1)) (st, b) = Some (L, node H xs L (e' - 1), st', b') \<and>
      odd e' \<and> c + 1 = 2 ^ L * e' \<and> mc_inner st' = mc_inner st \<and> mc_matchlevel st' = mc_matchlevel st \<and>
      track H xs p c L (st', b') \<and> mc_mutated st' = equal_pair H xs c L"
proof (induction e arbitrary: lv st b rule: less_induct)
  case (less e)
  have lv: "lv < 32" using less.prems(1-4) by (intro level_less_32 [of lv e]) simp_all
  show ?case
  proof (cases "odd e")
    case True
    then have "merge_levels H (c + 1) lv (node H xs lv (e - 1)) (st, b) = Some (lv, node H xs lv (e - 1), st, b)"
      using lv by (subst merge_levels.simps) (simp add: less.prems(2) bit_count del: One_nat_def)
    then show ?thesis using less.prems True by blast
  next
    case False
    then obtain k where k: "e = 2 * k + 2" using less.prems(1) by (metis evenE mult_Suc_right add.commute not0_implies_Suc mult_is_0 less_irrefl)
    let ?h = "node H xs lv (2 * k + 1)"
    obtain st1 b1 where g: "grow_branch lv ?h (st, b) = (st1, b1)" by (cases "grow_branch lv ?h (st, b)")
    have e: "c + 1 = 2 ^ lv * (2 * k + 2)" using less.prems(2) k by simp
    have f: "mc_inner st1 = mc_inner st" "mc_matchlevel st1 = mc_matchlevel st" "mc_mutated st1 = mc_mutated st"
      using grow_branch_fields [OF g] by simp_all
    have "c div 2 ^ lv = 2 * k + 1"
    proof -
      have "c = 2 ^ lv * (2 * k + 1) + (2 ^ lv - 1)" using e by (simp add: algebra_simps)
      moreover have "(2 ^ lv - 1) div 2 ^ lv = (0 :: nat)" by simp
      ultimately show ?thesis by (metis add.right_neutral div_mult_self4 power_not_zero zero_neq_numeral add.commute)
    qed
    then have i: "mc_inner st1 lv = node H xs lv (2 * k)" using less.prems(5) f(1) by (simp add: inner_ok_def)
    define st2 where "st2 = st1\<lparr>mc_mutated := mc_mutated st1 \<or> mc_inner st1 lv = ?h\<rparr>"
    have up: "H (node H xs lv (2 * k)) ?h = node H xs (Suc lv) k" using node_pair(1) e less.prems(3) by simp
    have "merge_levels H (c + 1) lv ?h (st, b) = merge_levels H (c + 1) (Suc lv) (node H xs (Suc lv) ((k + 1) - 1)) (st2, b1)"
      using merge_levels_step [OF _ g lv] e bit_count [of lv "2 * k + 2"] i up by (simp add: st2_def)
    moreover have "\<exists>L e' st' b'. merge_levels H (c + 1) (Suc lv) (node H xs (Suc lv) ((k + 1) - 1)) (st2, b1) = Some (L, node H xs L (e' - 1), st', b') \<and>
      odd e' \<and> c + 1 = 2 ^ L * e' \<and> mc_inner st' = mc_inner st2 \<and> mc_matchlevel st' = mc_matchlevel st2 \<and>
      track H xs p c L (st', b') \<and> mc_mutated st' = equal_pair H xs c L"
    proof (rule less.IH)
      show "k + 1 < e" "0 < k + 1" "c + 1 = 2 ^ Suc lv * (k + 1)" using k e by simp_all
      show "inner_ok H xs c st2" using less.prems(5) f(1) inner_ok_same [of st2 st] by (simp add: st2_def)
      show "track H xs p c (Suc lv) (st2, b1)"
        using track_step [OF less.prems(6,5) e less.prems(3)] g by (simp add: st2_def)
      show "mc_mutated st2 = equal_pair H xs c (Suc lv)"
        using equal_pair_Suc [OF e] less.prems(7) f(3) i by (simp add: st2_def)
    qed (rule less.prems)+
    ultimately show ?thesis using k f by (simp add: st2_def)
  qed
qed

text \<open>Between two leaves.\<close>

definition leaves_done :: "pair_hash \<Rightarrow> uint256 list \<Rightarrow> nat \<Rightarrow> nat \<Rightarrow> merkle_state \<Rightarrow> bool" where
  "leaves_done H xs p c st \<longleftrightarrow> inner_ok H xs c st \<and> mc_mutated st = equal_pair H xs c 0 \<and>
     (if c \<le> p then mc_matchlevel st = - 1 \<and> mc_branch st = [] else matched_at H xs p c 0 st)"

lemma leaves_done_start: "leaves_done H xs p 0 \<lparr>mc_inner = (\<lambda>_. 0), mc_matchlevel = - 1, mc_mutated = False, mc_branch = []\<rparr>"
  by (simp add: leaves_done_def inner_ok_def equal_pair_def)

lemma leaves_done_step:
  assumes "leaves_done H xs p c st" and c: "c < length xs" and n: "length xs \<le> 2 ^ 31"
  shows "\<exists>L h st' b. merge_levels H (c + 1) 0 (xs ! c) (st, c = p) = Some (L, h, st', b) \<and>
    leaves_done H xs p (c + 1) (st'\<lparr>mc_inner := (mc_inner st')(L := h), mc_matchlevel := if b then int L else mc_matchlevel st'\<rparr>)"
proof -
  have d: "inner_ok H xs c st" "mc_mutated st = equal_pair H xs c 0" using assms(1) by (simp_all add: leaves_done_def)
  have t: "track H xs p c 0 (st, c = p)"
    using assms(1) by (auto simp: track_def leaves_done_def split: if_splits)
  have n0: "node H xs 0 (c + 1 - 1) = xs ! c" by simp
  obtain L e st' b where m: "merge_levels H (c + 1) 0 (node H xs 0 (c + 1 - 1)) (st, c = p) = Some (L, node H xs L (e - 1), st', b)"
    "odd e" "c + 1 = 2 ^ L * e" "mc_inner st' = mc_inner st" "mc_matchlevel st' = mc_matchlevel st" "track H xs p c L (st', b)"
    "mc_mutated st' = equal_pair H xs c L"
    using merge_levels_correct [of "c + 1" c 0 xs H st p "c = p", OF _ _ _ n d(1) t d(2)] c by (elim exE conjE meta_impE) auto
  define s where "s = st'\<lparr>mc_inner := (mc_inner st')(L := node H xs L (e - 1)), mc_matchlevel := if b then int L else mc_matchlevel st'\<rparr>"
  have low: "even ((c + 1) div 2 ^ l)" if "l < L" for l
  proof -
    have "2 ^ L = 2 ^ l * (2 * 2 ^ (L - Suc l) :: nat)" using that by (simp flip: power_Suc power_add)
    then have "(c + 1) div 2 ^ l = 2 * 2 ^ (L - Suc l) * e" unfolding m(3) by simp
    then show ?thesis by simp
  qed
  have at: "(c + 1) div 2 ^ L = e" unfolding m(3) by simp
  have cL: "c div 2 ^ L = e - 1"
  proof -
    obtain e1 where e1: "e = Suc e1" using m(2) by (cases e) auto
    have "c = 2 ^ L * e1 + (2 ^ L - 1)" using m(3) e1 by (simp add: algebra_simps)
    moreover have "(2 ^ L - 1) div 2 ^ L = (0 :: nat)" by simp
    ultimately have "c div 2 ^ L = e1" by (metis add.right_neutral div_mult_self4 power_not_zero zero_neq_numeral add.commute)
    then show ?thesis using e1 by simp
  qed
  have high: "(c + 1) div 2 ^ l = c div 2 ^ l" if "L < l" for l
  proof -
    have "(c + 1) div 2 ^ Suc L = c div 2 ^ Suc L" using m(2) unfolding div_pow_Suc at cL by (auto elim: oddE)
    then show ?thesis using div_pow_mono that Suc_leI by blast
  qed
  have "inner_ok H xs (c + 1) s"
    unfolding inner_ok_def
  proof (intro allI impI)
    fix l assume "odd ((c + 1) div 2 ^ l)"
    then consider "l = L" | "L < l" using low by (metis linorder_neqE_nat)
    then show "mc_inner s l = node H xs l ((c + 1) div 2 ^ l - 1)"
    proof cases
      case 1
      then show ?thesis by (simp add: s_def at del: One_nat_def)
    next
      case 2
      then show ?thesis using d(1) high [OF 2] \<open>odd ((c + 1) div 2 ^ l)\<close> m(4) by (simp add: s_def inner_ok_def)
    qed
  qed
  moreover have "mc_mutated s = equal_pair H xs (c + 1) 0"
  proof -
    have "l < L" if "(2 * k + 2) * 2 ^ l = c + 1" for k l
    proof (rule ccontr)
      assume "\<not> l < L"
      then obtain d where l: "l = L + d" using le_Suc_ex not_less by blast
      have "(2 * k + 2) * 2 ^ l = 2 ^ L * (2 ^ d * (2 * k + 2))" by (simp add: l power_add algebra_simps)
      then have "2 ^ L * e = 2 ^ L * (2 ^ d * (2 * k + 2))" using that m(3) by (simp only:)
      then have "e = 2 ^ d * (2 * k + 2)" by (rule mult_left_cancel [THEN iffD1, rotated]) simp
      then show False using m(2) by simp
    qed
    then show ?thesis using m(7) unfolding s_def equal_pair_def by (auto simp: le_Suc_eq)
  qed
  moreover have "if c + 1 \<le> p then mc_matchlevel s = - 1 \<and> mc_branch s = [] else matched_at H xs p (c + 1) 0 s"
  proof (cases "c + 1 \<le> p")
    case True
    then show ?thesis using m(6) by (simp add: track_def s_def)
  next
    case False
    show ?thesis
    proof (cases "p div 2 ^ L = c div 2 ^ L")
      case True
      then have "matched_at H xs p (c + 1) 0 s"
        unfolding matched_at_def using False m(2,6) at cL by (intro exI [of _ L]) (simp add: track_def s_def)
      then show ?thesis using False by simp
    next
      case ne: False
      then obtain m' where q: "L \<le> m'" "mc_matchlevel st' = int m'" "odd (c div 2 ^ m')" "p div 2 ^ m' = c div 2 ^ m' - 1"
        "mc_branch st' = map (sibling H xs p) [0..<m']" and b: "\<not> b"
        using m(6) False by (auto simp: track_def matched_at_def)
      have "m' \<noteq> L" using q(3) cL m(2) by auto
      then have "matched_at H xs p (c + 1) 0 s"
        unfolding matched_at_def using q b high [of m'] by (intro exI [of _ m']) (simp add: s_def)
      then show ?thesis using False by simp
    qed
  qed
  ultimately show ?thesis using m(1) unfolding n0 by (auto simp: leaves_done_def s_def)
qed

lemma process_leaves_correct:
  "leaves_done H xs p c st \<Longrightarrow> c \<le> length xs \<Longrightarrow> length xs \<le> 2 ^ 31 \<Longrightarrow>
   \<exists>st'. process_leaves H p c (drop c xs) st = Some st' \<and> leaves_done H xs p (length xs) st'"
proof (induction "length xs - c" arbitrary: c st)
  case (Suc n)
  then have c: "c < length xs" by simp
  obtain L h st' b where m: "merge_levels H (c + 1) 0 (xs ! c) (st, c = p) = Some (L, h, st', b)"
    "leaves_done H xs p (c + 1) (st'\<lparr>mc_inner := (mc_inner st')(L := h), mc_matchlevel := if b then int L else mc_matchlevel st'\<rparr>)"
    using leaves_done_step [OF Suc.prems(1) c Suc.prems(3)] by blast
  have "drop c xs = xs ! c # drop (c + 1) xs" using Cons_nth_drop_Suc [OF c] by simp
  moreover have "nat_u32 (c + 1) = c + 1" using c Suc.prems(3) by (intro nat_u32_small) simp
  ultimately show ?case using Suc.hyps(1) [OF _ m(2)] Suc.hyps(2) Suc.prems(3) c m(1) by simp
qed simp

section \<open>The final sweep\<close>

lemma lowest_level_correct:
  "0 < e \<Longrightarrow> n = 2 ^ lv * e \<Longrightarrow> n \<le> 2 ^ 31 \<Longrightarrow> \<exists>L e'. lowest_level n lv = Some L \<and> odd e' \<and> n = 2 ^ L * e'"
proof (induction e arbitrary: lv rule: less_induct)
  case (less e)
  have lv: "lv < 32" using less.prems by (intro level_less_32 [of lv e]) simp_all
  show ?case
  proof (cases "odd e")
    case True
    then have "lowest_level n lv = Some lv" using lv by (subst lowest_level.simps) (simp add: less.prems(2) bit_count)
    then show ?thesis using True less.prems(2) by blast
  next
    case False
    then obtain k where k: "e = 2 * k" "0 < k" using less.prems(1) by (auto elim!: evenE)
    then have "lowest_level n lv = lowest_level n (Suc lv)" using less.prems(2) using lv by (subst lowest_level.simps) (simp add: bit_count)
    then show ?thesis using less.IH [of k "Suc lv"] k less.prems(2,3) by simp
  qed
qed

text \<open>At level \<open>lv\<close> the sweep holds the last node of the level; \<open>p\<close> is the position of a leaf.\<close>

definition swept :: "pair_hash \<Rightarrow> uint256 list \<Rightarrow> nat \<Rightarrow> nat \<Rightarrow> merkle_state \<times> bool \<Rightarrow> bool" where
  "swept H xs p lv s \<longleftrightarrow> inner_ok H xs (length xs) (fst s) \<and> (\<forall>k < lv. 1 < width (length xs) k) \<and>
     (p < length xs \<longrightarrow>
       (if p div 2 ^ lv = width (length xs) lv - 1 then snd s \<and> mc_branch (fst s) = map (sibling H xs p) [0..<lv]
        else \<not> snd s \<and> matched_at H xs p (length xs) lv (fst s)))"

text \<open>An even level: its last two nodes are combined, and the left one is in \<open>inner\<close>.\<close>

lemma swept_even:
  assumes s: "swept H xs p lv (st, b)" and w: "width (length xs) lv = 2 * k + 2" and d: "length xs div 2 ^ lv = 2 * k + 1"
    and g: "grow_branch lv (node H xs lv (2 * k + 1)) (st, b) = (st', b')"
  shows "swept H xs p (Suc lv) (st', b')" and "mc_inner st lv = node H xs lv (2 * k)"
    and "node H xs (Suc lv) k = H (node H xs lv (2 * k)) (node H xs lv (2 * k + 1))"
    and "width (length xs) (Suc lv) = k + 1" and "length xs div 2 ^ Suc lv = k"
proof -
  show in_lv: "mc_inner st lv = node H xs lv (2 * k)" using s d by (simp add: swept_def inner_ok_def)
  show wS: "width (length xs) (Suc lv) = k + 1" using w by (simp add: width_Suc)
  show dS: "length xs div 2 ^ Suc lv = k" by (simp add: div_pow_Suc d del: power_Suc)
  show "node H xs (Suc lv) k = H (node H xs lv (2 * k)) (node H xs lv (2 * k + 1))"
    using w wS by (simp add: node_Suc min_absorb1)
  have i: "inner_ok H xs (length xs) st'" using s grow_branch_fields [OF g] inner_ok_same [of st' st] by (simp add: swept_def)
  have h: "1 < width (length xs) j" if "j < Suc lv" for j
  proof (cases "j = lv")
    case False
    then show ?thesis using s that by (simp add: swept_def)
  qed (simp add: w)
  have "if p div 2 ^ Suc lv = width (length xs) (Suc lv) - 1 then b' \<and> mc_branch st' = map (sibling H xs p) [0..<Suc lv]
      else \<not> b' \<and> matched_at H xs p (length xs) (Suc lv) st'" if p: "p < length xs"
  proof (cases "p div 2 ^ lv = 2 * k + 1")
    case True
    then have "p div 2 ^ Suc lv = k" by (simp add: div_pow_Suc del: power_Suc)
    moreover have "sibling H xs p lv = node H xs lv (2 * k)" using True w by (simp add: sibling_def xor_odd del: One_nat_def)
    ultimately show ?thesis using s True p g w by (auto simp: swept_def wS grow_branch_def in_lv simp del: power_Suc)
  next
    case False
    then obtain m where m: "lv \<le> m" "mc_matchlevel st = int m" "odd (length xs div 2 ^ m)" "p div 2 ^ m = length xs div 2 ^ m - 1"
      "mc_branch st = map (sibling H xs p) [0..<m]" and b: "\<not> b"
      using s p w by (auto simp: swept_def matched_at_def)
    show ?thesis
    proof (cases "m = lv")
      case True
      then have q: "p div 2 ^ lv = 2 * k" using m(4) d by simp
      then have "p div 2 ^ Suc lv = k" by (simp add: div_pow_Suc del: power_Suc)
      moreover have "sibling H xs p lv = node H xs lv (2 * k + 1)" using q w by (simp add: sibling_def xor_even min_absorb1 del: One_nat_def)
      ultimately show ?thesis using m b True g by (auto simp: wS grow_branch_def simp del: power_Suc)
    next
      case False
      then have l: "Suc lv \<le> m" using m(1) by simp
      have "p div 2 ^ Suc lv \<noteq> k"
      proof
        assume "p div 2 ^ Suc lv = k"
        then have "p div 2 ^ m = length xs div 2 ^ m" using div_pow_mono [OF _ l] dS by metis
        then show False using m(3,4) by (metis One_nat_def diff_Suc_less less_irrefl odd_pos)
      qed
      then show ?thesis using m b l False g by (auto simp: wS grow_branch_def matched_at_def simp del: power_Suc)
    qed
  qed
  then show "swept H xs p (Suc lv) (st', b')" using i h by (simp add: swept_def del: power_Suc)
qed

text \<open>The wrapping counter never exceeds \<open>2 ^ 31\<close>.\<close>

lemma width_bound:
  assumes "n \<le> 2 ^ 31" "l \<le> 31"
  shows "2 ^ l * width n l \<le> (2 ^ 31 :: nat)"
proof -
  have "n + 2 ^ l - 1 \<le> 2 ^ 31 + 2 ^ l - 1" using assms(1) by simp
  then have "width n l \<le> (2 ^ 31 + 2 ^ l - 1) div 2 ^ l" unfolding width_def by (rule div_le_mono)
  also have "(2 ^ 31 :: nat) + 2 ^ l - 1 = (2 ^ l - 1) + 2 ^ l * 2 ^ (31 - l)"
    using assms(2) by (simp flip: power_add)
  also have "\<dots> div 2 ^ l = (2 ^ l - 1) div 2 ^ l + (2 ^ (31 - l) :: nat)" by (metis add.commute div_mult_self2 power_not_zero zero_neq_numeral)
  also have "\<dots> = 2 ^ (31 - l)" by simp
  finally have "2 ^ l * width n l \<le> 2 ^ l * 2 ^ (31 - l)" by simp
  also have "\<dots> = (2 ^ 31 :: nat)" using assms(2) by (simp flip: power_add)
  finally show ?thesis .
qed

lemma wide_level:
  assumes "n \<le> 2 ^ 31" "1 < width n l"
  shows "l < (31 :: nat)"
proof (rule ccontr)
  assume "\<not> l < 31"
  then have "(2 :: nat) ^ 31 \<le> 2 ^ l" by (intro power_increasing) simp_all
  then have "n \<le> 2 ^ l" using assms(1) by simp
  then have "(n + 2 ^ l - 1) div 2 ^ l \<le> (2 ^ l - 1 + 2 ^ l * 1) div 2 ^ l" by (intro div_le_mono) simp
  also have "\<dots> = (2 ^ l - 1) div 2 ^ l + (1 :: nat)" by (metis add.commute div_mult_self2 power_not_zero zero_neq_numeral)
  finally show False using assms(2) by (simp add: width_def)
qed

lemma sweep_up_correct:
  "swept H xs p lv (st, b) \<Longrightarrow> width (length xs) lv = w \<Longrightarrow> 0 < w \<Longrightarrow> length xs div 2 ^ lv = w - 1 \<Longrightarrow>
   length xs \<le> 2 ^ 31 \<Longrightarrow> lv \<le> 31 \<Longrightarrow>
   \<exists>L w' st' b'. sweep_up H (2 ^ lv * w) lv (node H xs lv (w - 1)) (st, b) = Some (L, node H xs L (w' - 1), st', b') \<and>
     L \<le> 31 \<and> odd w' \<and> w' \<le> w \<and> 2 ^ lv * w = 2 ^ L * w' \<and> width (length xs) L = w' \<and> length xs div 2 ^ L = w' - 1 \<and>
     swept H xs p L (st', b') \<and> mc_mutated st' = mc_mutated st"
proof (induction w arbitrary: lv st b rule: less_induct)
  case (less w)
  show ?case
  proof (cases "odd w")
    case True
    then have "sweep_up H (2 ^ lv * w) lv (node H xs lv (w - 1)) (st, b) = Some (lv, node H xs lv (w - 1), st, b)"
      using less.prems(6) by (subst sweep_up.simps) (simp add: bit_count del: One_nat_def)
    then show ?thesis using less.prems True by blast
  next
    case False
    then obtain k where k: "w = 2 * k + 2" using less.prems(3) by (metis evenE mult_Suc_right add.commute not0_implies_Suc mult_is_0 less_irrefl)
    let ?h = "node H xs lv (2 * k + 1)"
    obtain st1 b1 where g: "grow_branch lv ?h (st, b) = (st1, b1)" by (cases "grow_branch lv ?h (st, b)")
    have w: "width (length xs) lv = 2 * k + 2" "length xs div 2 ^ lv = 2 * k + 1" using less.prems(2,4) k by simp_all
    note e = swept_even [OF less.prems(1) w g]
    have lv: "lv < 31" using wide_level [OF less.prems(5)] w(1) by simp
    have f: "mc_inner st1 = mc_inner st" "mc_mutated st1 = mc_mutated st" using grow_branch_fields [OF g] by simp_all
    have "sweep_up H (2 ^ lv * w) lv ?h (st, b) = sweep_up H (2 ^ Suc lv * (k + 1)) (Suc lv) (node H xs (Suc lv) ((k + 1) - 1)) (st1, b1)"
      using g k e(2,3) f lv bit_count [of lv "2 * k + 2"] by (subst sweep_up.simps) (simp add: algebra_simps)
    moreover obtain L w' st' b' where "sweep_up H (2 ^ Suc lv * (k + 1)) (Suc lv) (node H xs (Suc lv) ((k + 1) - 1)) (st1, b1) =
        Some (L, node H xs L (w' - 1), st', b')" "L \<le> 31" "odd w'" "w' \<le> k + 1" "2 ^ Suc lv * (k + 1) = 2 ^ L * w'"
      "width (length xs) L = w'" "length xs div 2 ^ L = w' - 1" "swept H xs p L (st', b')" "mc_mutated st' = mc_mutated st1"
      using less.IH [of "k + 1" "Suc lv" st1 b1] k e lv less.prems(5) by (elim meta_impE exE conjE) (simp_all del: power_Suc)
    moreover have "2 ^ lv * w = 2 ^ Suc lv * (k + 1)" "w - 1 = 2 * k + 1" "k + 1 \<le> w" using k by simp_all
    ultimately show ?thesis
      by (intro exI [of _ L] exI [of _ w'] exI [of _ st'] exI [of _ b']) (simp add: f del: power_Suc)
  qed
qed

text \<open>An odd level with more than one node: the last node is combined with itself.\<close>

lemma swept_odd:
  assumes s: "swept H xs p lv (st, b)" and w: "width (length xs) lv = 2 * k + 1" and "0 < k"
    and d: "length xs div 2 ^ lv = 2 * k \<or> length xs = 2 ^ lv * (2 * k + 1)"
  shows "swept H xs p (Suc lv) (if b then st\<lparr>mc_branch := mc_branch st @ [node H xs lv (2 * k)]\<rparr> else st, b)"
    and "node H xs (Suc lv) k = H (node H xs lv (2 * k)) (node H xs lv (2 * k))"
    and "width (length xs) (Suc lv) = k + 1" and "length xs div 2 ^ Suc lv = k"
proof -
  let ?st = "if b then st\<lparr>mc_branch := mc_branch st @ [node H xs lv (2 * k)]\<rparr> else st"
  show wS: "width (length xs) (Suc lv) = k + 1" using w by (simp add: width_Suc)
  have n: "length xs div 2 ^ lv = 2 * k \<or> length xs div 2 ^ lv = 2 * k + 1" using d by auto
  then show dS: "length xs div 2 ^ Suc lv = k" by (auto simp: div_pow_Suc simp del: power_Suc)
  show "node H xs (Suc lv) k = H (node H xs lv (2 * k)) (node H xs lv (2 * k))"
    using w wS by (simp add: node_Suc)
  have i: "inner_ok H xs (length xs) ?st" using s by (auto simp: swept_def inner_ok_def)
  have h: "1 < width (length xs) j" if "j < Suc lv" for j
  proof (cases "j = lv")
    case False
    then show ?thesis using s that by (simp add: swept_def)
  qed (use w \<open>0 < k\<close> in simp)
  have "if p div 2 ^ Suc lv = width (length xs) (Suc lv) - 1 then b \<and> mc_branch ?st = map (sibling H xs p) [0..<Suc lv]
      else \<not> b \<and> matched_at H xs p (length xs) (Suc lv) ?st" if p: "p < length xs"
  proof (cases "p div 2 ^ lv = 2 * k")
    case True
    then have "p div 2 ^ Suc lv = k" by (simp add: div_pow_Suc del: power_Suc)
    moreover have "sibling H xs p lv = node H xs lv (2 * k)" using True w by (simp add: sibling_def xor_even del: One_nat_def)
    ultimately show ?thesis using s True p w by (auto simp: swept_def wS simp del: power_Suc)
  next
    case False
    then obtain m where m: "lv \<le> m" "mc_matchlevel st = int m" "odd (length xs div 2 ^ m)" "p div 2 ^ m = length xs div 2 ^ m - 1"
      "mc_branch st = map (sibling H xs p) [0..<m]" and b: "\<not> b"
      using s p w by (auto simp: swept_def matched_at_def)
    have "m \<noteq> lv" using m(3,4) False n by auto
    then have l: "Suc lv \<le> m" using m(1) by simp
    have "p div 2 ^ Suc lv \<noteq> k"
    proof
      assume "p div 2 ^ Suc lv = k"
      then have "p div 2 ^ m = length xs div 2 ^ m" using div_pow_mono [OF _ l] dS by metis
      then show False using m(3,4) by (metis One_nat_def diff_Suc_less less_irrefl odd_pos)
    qed
    then show ?thesis using m b l by (auto simp: wS matched_at_def simp del: power_Suc)
  qed
  then show "swept H xs p (Suc lv) (?st, b)" using i h by (simp only: swept_def fst_conv snd_conv) blast
qed

lemma final_sweep_correct:
  "odd w \<Longrightarrow> swept H xs p lv (st, b) \<Longrightarrow> width (length xs) lv = w \<Longrightarrow>
   length xs div 2 ^ lv = w - 1 \<or> length xs = 2 ^ lv * w \<Longrightarrow> length xs \<le> 2 ^ 31 \<Longrightarrow> lv \<le> 31 \<Longrightarrow>
   \<exists>L st'. final_sweep H (2 ^ lv * w) lv (node H xs lv (w - 1)) (st, b) = Some (node H xs L 0, st') \<and> top_level (length xs) L \<and>
     (p < length xs \<longrightarrow> mc_branch st' = map (sibling H xs p) [0..<L]) \<and> mc_mutated st' = mc_mutated st"
proof (induction w arbitrary: lv st b rule: less_induct)
  case (less w)
  show ?case
  proof (cases "w = 1")
    case True
    have f: "final_sweep H (2 ^ lv * w) lv (node H xs lv (w - 1)) (st, b) = Some (node H xs lv 0, st)"
      using True less.prems(6) by (subst final_sweep.simps) simp
    have top: "top_level (length xs) lv" using less.prems(2,3) True by (simp add: swept_def top_level_def)
    have "mc_branch st = map (sibling H xs p) [0..<lv]" if p: "p < length xs"
    proof -
      have "(length xs - 1) div 2 ^ lv = 0" using width_div [of "length xs" lv] p less.prems(3) True by (cases "length xs") auto
      then have "p div 2 ^ lv = 0" using p div_le_mono [of p "length xs - 1" "2 ^ lv"] by simp
      then show ?thesis using less.prems(2,3) True p by (auto simp: swept_def)
    qed
    then show ?thesis using f top by blast
  next
    case False
    then obtain k where k: "w = 2 * k + 1" "0 < k" using less.prems(1) by (auto elim!: oddE)
    let ?h = "node H xs lv (2 * k)"
    define st1 where "st1 = (if b then st\<lparr>mc_branch := mc_branch st @ [?h]\<rparr> else st)"
    have w: "width (length xs) lv = 2 * k + 1" "length xs div 2 ^ lv = 2 * k \<or> length xs = 2 ^ lv * (2 * k + 1)"
      using less.prems(3,4) k by simp_all
    note o = swept_odd [OF less.prems(2) w(1) k(2) w(2), folded st1_def]
    have mut: "mc_mutated st1 = mc_mutated st" by (simp add: st1_def)
    have lv: "lv < 31" using wide_level [OF less.prems(5)] w(1) k(2) by simp
    obtain L w' st' b' where up: "sweep_up H (2 ^ Suc lv * (k + 1)) (Suc lv) (node H xs (Suc lv) ((k + 1) - 1)) (st1, b) =
        Some (L, node H xs L (w' - 1), st', b')" "odd w'" "w' \<le> k + 1" "2 ^ Suc lv * (k + 1) = 2 ^ L * w'"
      "width (length xs) L = w'" "length xs div 2 ^ L = w' - 1" "swept H xs p L (st', b')" "mc_mutated st' = mc_mutated st1" "L \<le> 31"
      using sweep_up_correct [OF o(1), of "k + 1"] o(3,4) lv less.prems(5) by (elim meta_impE exE conjE) (simp_all del: power_Suc)
    have c: "2 ^ lv * w + 2 ^ lv = 2 ^ L * w'" "w - 1 = 2 * k" "(2 :: nat) ^ lv * w \<noteq> 2 ^ lv"
      using up(4) k by (simp_all add: algebra_simps)
    have "2 ^ L * w' \<le> 2 ^ 31" using width_bound [OF less.prems(5) up(9)] up(5) by simp
    then have u: "nat_u32 (2 ^ lv * w + 2 ^ lv) = 2 ^ L * w'" unfolding c(1) by (intro nat_u32_small) simp
    have "final_sweep H (2 ^ lv * w) lv ?h (st, b) = final_sweep H (2 ^ L * w') L (node H xs L (w' - 1)) (st', b')"
      using up(1) c u o(2) lv unfolding up(4) by (subst final_sweep.simps) (simp add: Let_def st1_def [symmetric] del: power_Suc One_nat_def flip: Suc_eq_plus1)
    moreover have "\<exists>L' st''. final_sweep H (2 ^ L * w') L (node H xs L (w' - 1)) (st', b') = Some (node H xs L' 0, st'') \<and> top_level (length xs) L' \<and>
       (p < length xs \<longrightarrow> mc_branch st'' = map (sibling H xs p) [0..<L']) \<and> mc_mutated st'' = mc_mutated st'"
      by (rule less.IH) (use up k less.prems(5) in simp_all)
    ultimately show ?thesis using up(8) mut c(2) by simp
  qed
qed

text \<open>The whole computation.\<close>

lemma MerkleComputation_correct:
  assumes "xs \<noteq> []" and n31: "length xs \<le> 2 ^ 31"
  shows "\<exists>br. MerkleComputation H xs p = Some (merkle_root H xs, equal_pair H xs (length xs) 0, br) \<and>
    (p < length xs \<longrightarrow> br = branch_of H xs p)"
proof -
  let ?n = "length xs"
  obtain st where st: "process_leaves H p 0 xs \<lparr>mc_inner = (\<lambda>_. 0), mc_matchlevel = - 1, mc_mutated = False, mc_branch = []\<rparr> = Some st"
    "leaves_done H xs p ?n st"
    using process_leaves_correct [OF leaves_done_start _ n31] by (metis drop_0 le0)
  obtain L e where L: "lowest_level ?n 0 = Some L" "odd e" "?n = 2 ^ L * e"
    using lowest_level_correct [of ?n ?n 0] assms by auto
  have u: "nat_u32 ?n = ?n" using n31 by (intro nat_u32_small) simp
  have e: "0 < e" using L(2) odd_pos by blast
  have d: "?n div 2 ^ L = e" unfolding L(3) by simp
  have w: "width ?n l = 2 ^ (L - l) * e" if "l \<le> L" for l
  proof -
    have n: "?n = 2 ^ l * (2 ^ (L - l) * e)" unfolding L(3) using that by (simp flip: mult.assoc power_add)
    have "?n + 2 ^ l - 1 = (2 ^ l - 1) + 2 ^ l * (2 ^ (L - l) * e)" using n by simp
    then have "width ?n l = (2 ^ l - 1) div 2 ^ l + 2 ^ (L - l) * e" unfolding width_def by (metis add.commute div_mult_self2 power_not_zero zero_neq_numeral)
    then show ?thesis by simp
  qed
  have h: "1 < width ?n l" if "l < L" for l
  proof -
    have "2 ^ (L - l) = 2 * (2 :: nat) ^ (L - Suc l)" using that by (metis Suc_diff_Suc power_Suc)
    moreover have "0 < 2 ^ (L - Suc l) * e" using e by simp
    ultimately show ?thesis using w [of l] that by (simp del: power_Suc nat_0_less_mult_iff)
  qed
  have inner: "inner_ok H xs ?n st" "mc_mutated st = equal_pair H xs ?n 0" using st(2) by (simp_all add: leaves_done_def)
  have hL: "mc_inner st L = node H xs L (e - 1)" using inner(1) L(2) d by (simp add: inner_ok_def)
  have s: "swept H xs p L (st, mc_matchlevel st = int L)"
  proof -
    have "if p div 2 ^ L = e - 1 then mc_matchlevel st = int L \<and> mc_branch st = map (sibling H xs p) [0..<L]
        else \<not> mc_matchlevel st = int L \<and> matched_at H xs p ?n L st" if p: "p < ?n"
    proof -
      obtain m where m: "mc_matchlevel st = int m" "odd (?n div 2 ^ m)" "p div 2 ^ m = ?n div 2 ^ m - 1"
        "mc_branch st = map (sibling H xs p) [0..<m]"
        using st(2) p by (auto simp: leaves_done_def matched_at_def)
      have "L \<le> m"
      proof (rule ccontr)
        assume "\<not> L \<le> m"
        then have "?n = 2 ^ m * (2 * (2 ^ (L - Suc m) * e))" unfolding L(3) by (simp flip: mult.assoc power_Suc2 power_Suc power_add)
        then have "?n div 2 ^ m = 2 * (2 ^ (L - Suc m) * e)" by simp
        then show False using m(2) by simp
      qed
      moreover have "p div 2 ^ L \<noteq> e - 1" if "m \<noteq> L"
      proof
        assume p1: "p div 2 ^ L = e - 1"
        have l: "Suc L \<le> m" using that \<open>L \<le> m\<close> by simp
        have "p div 2 ^ Suc L = ?n div 2 ^ Suc L" unfolding div_pow_Suc p1 d using L(2) by (auto elim: oddE)
        then have "p div 2 ^ m = ?n div 2 ^ m" using div_pow_mono [OF _ l] by blast
        then show False using m(2,3) by (metis One_nat_def diff_Suc_less less_irrefl odd_pos)
      qed
      ultimately show ?thesis using m d by (auto simp: matched_at_def)
    qed
    then show ?thesis using inner(1) h w [of L] by (simp add: swept_def)
  qed
  obtain T st' where f: "final_sweep H (2 ^ L * e) L (node H xs L (e - 1)) (st, mc_matchlevel st = int L) = Some (node H xs T 0, st')"
    "top_level ?n T" "p < ?n \<longrightarrow> mc_branch st' = map (sibling H xs p) [0..<T]" "mc_mutated st' = mc_mutated st"
    using final_sweep_correct [OF L(2) s _ _ n31] w [of L] L(3) level_less_32 [of L e] n31 e by auto
  have "MerkleComputation H xs p = Some (node H xs T 0, mc_mutated st', mc_branch st')"
    using assms st(1) L(1) f(1) hL u unfolding MerkleComputation_def L(3) [symmetric] by (simp add: Let_def)
  then show ?thesis using f(2-4) inner(2) top_level_root [OF f(2), of H] branch_of_siblings [of H xs p] by auto
qed

section \<open>More than \<open>2 ^ 31\<close> leaves\<close>

text \<open>From a counter of 0 the loops shift out of the word.\<close>

lemma merge_levels_zero: "merge_levels H 0 lv h s = None"
proof (induction "32 - lv" arbitrary: lv h s)
  case 0
  then show ?case by (subst merge_levels.simps) simp
next
  case (Suc n)
  then show ?case by (subst merge_levels.simps) (simp split: prod.splits)
qed

lemma sweep_up_zero: "sweep_up H 0 lv h s = None"
proof (induction "32 - lv" arbitrary: lv h s)
  case 0
  then show ?case by (subst sweep_up.simps) simp
next
  case (Suc n)
  then show ?case by (subst sweep_up.simps) (simp split: prod.splits)
qed

lemma process_leaves_overflow: "c < 2 ^ 32 \<Longrightarrow> 2 ^ 32 \<le> c + length hs \<Longrightarrow> process_leaves H p c hs st = None"
proof (induction hs arbitrary: c st)
  case (Cons h hs)
  show ?case
  proof (cases "c + 1 = 2 ^ 32")
    case True
    then have "nat_u32 (c + 1) = 0" by (simp add: nat_u32_def)
    then show ?thesis by (simp add: merge_levels_zero)
  next
    case False
    then have c: "c + 1 < 2 ^ 32" using Cons.prems(1) by simp
    then have "nat_u32 (c + 1) = c + 1" by (rule nat_u32_small)
    moreover have "process_leaves H p (c + 1) hs st' = None" for st' using Cons.IH [OF c] Cons.prems(2) by simp
    ultimately show ?thesis by (simp split: option.splits prod.splits)
  qed
qed simp

text \<open>The lowest bit of the counter.\<close>

definition lowest_bit :: "nat \<Rightarrow> nat \<Rightarrow> bool" where
  "lowest_bit count lv \<longleftrightarrow> lv < 32 \<and> (\<exists>e. odd e \<and> count = 2 ^ lv * e)"

lemma dvd_not_bit:
  assumes "2 ^ lv dvd count" "\<not> bit count lv"
  shows "2 ^ Suc lv dvd (count :: nat)"
proof -
  obtain e where e: "count = 2 ^ lv * e" using assms(1) by blast
  then have "even e" using assms(2) bit_count by blast
  then show ?thesis unfolding e by (auto elim!: evenE)
qed

lemma dvd_bit: "2 ^ lv dvd count \<Longrightarrow> bit count lv \<Longrightarrow> lv < 32 \<Longrightarrow> lowest_bit count lv"
  using bit_count by (auto simp: lowest_bit_def elim!: dvdE)

lemma lowest_level_bit: "lowest_level count lv = Some L \<Longrightarrow> 2 ^ lv dvd count \<Longrightarrow> lowest_bit count L"
proof (induction "32 - lv" arbitrary: lv)
  case (Suc n)
  then have lv: "lv < 32" by simp
  show ?case
  proof (cases "bit count lv")
    case True
    then have "L = lv" using Suc.prems(1) lv by (subst (asm) lowest_level.simps) simp
    then show ?thesis using dvd_bit Suc.prems(2) True lv by simp
  next
    case False
    then have "lowest_level count (Suc lv) = Some L" using Suc.prems(1) lv by (subst (asm) lowest_level.simps) simp
    then show ?thesis using Suc.hyps(1) [of "Suc lv"] Suc.hyps(2) dvd_not_bit [OF Suc.prems(2) False] by simp
  qed
qed (subst (asm) lowest_level.simps, simp)

lemma sweep_up_bit: "sweep_up H count lv h s = Some (L, h', s') \<Longrightarrow> 2 ^ lv dvd count \<Longrightarrow> lowest_bit count L"
proof (induction "32 - lv" arbitrary: lv h s)
  case (Suc n)
  then have lv: "lv < 32" by simp
  show ?case
  proof (cases "bit count lv")
    case True
    then have "L = lv" using Suc.prems(1) lv by (subst (asm) sweep_up.simps) simp
    then show ?thesis using dvd_bit Suc.prems(2) True lv by simp
  next
    case False
    obtain st b where g: "grow_branch lv h s = (st, b)" by (cases "grow_branch lv h s")
    have "sweep_up H count (Suc lv) (H (mc_inner st lv) h) (st, b) = Some (L, h', s')"
      using Suc.prems(1) lv False g by (subst (asm) sweep_up.simps) simp
    then show ?thesis using Suc.hyps(1) [of "Suc lv"] Suc.hyps(2) dvd_not_bit [OF Suc.prems(2) False] by simp
  qed
qed (subst (asm) sweep_up.simps, simp)

lemma final_sweep_overflow: "2 ^ 31 < count \<Longrightarrow> count < 2 ^ 32 \<Longrightarrow> lowest_bit count lv \<Longrightarrow> final_sweep H count lv h s = None"
proof (induction "2 ^ 32 - count" arbitrary: count lv h s rule: less_induct)
  case less
  obtain e where e: "odd e" "count = 2 ^ lv * e" and lv: "lv < 32" using less.prems(3) by (auto simp: lowest_bit_def)
  obtain st b where s: "s = (st, b)" by (cases s)
  have p: "(2 :: nat) ^ lv \<le> 2 ^ 31" using lv by (intro power_increasing) simp_all
  have split: "(2 :: nat) ^ 32 = 2 ^ lv * 2 ^ (32 - lv)" using lv by (simp flip: power_add)
  have "e < 2 ^ (32 - lv)" using less.prems(2) unfolding e(2) split by (rule mult_less_cancel1 [THEN iffD1, THEN conjunct2])
  then have "2 ^ lv * (e + 1) \<le> 2 ^ lv * (2 ^ (32 - lv) :: nat)" by (intro mult_le_mono2) simp
  then have le: "count + 2 ^ lv \<le> 2 ^ 32" unfolding split e(2) by simp
  let ?c = "nat_u32 (count + 2 ^ lv)"
  have step: "(case sweep_up H ?c (lv + 1) (H h h) (st1, b) of None \<Rightarrow> None | Some (lv', h', s') \<Rightarrow> final_sweep H ?c lv' h' s') = None" for st1
  proof (cases "count + 2 ^ lv = 2 ^ 32")
    case True
    then have "?c = 0" by (simp add: nat_u32_def)
    then show ?thesis by (simp add: sweep_up_zero)
  next
    case False
    then have c: "?c = count + 2 ^ lv" using le by (intro nat_u32_small) simp
    have "2 ^ Suc lv dvd ?c"
    proof -
      have "even (e + 1)" using e(1) by simp
      then have "2 ^ lv * 2 dvd 2 ^ lv * (e + 1)" by (intro mult_dvd_mono) simp_all
      moreover have "2 ^ lv * (e + 1) = ?c" unfolding c by (simp add: e(2))
      ultimately show ?thesis by (simp only: power_Suc2)
    qed
    then have up: "lowest_bit ?c L" if "sweep_up H ?c (lv + 1) (H h h) (st1, b) = Some (L, h', s')" for L h' s'
      using sweep_up_bit [OF that] by simp
    have "final_sweep H ?c L h' s' = None" if "lowest_bit ?c L" for L h' s'
    proof (rule less.hyps [OF _ _ _ that])
      have "(0 :: nat) < 2 ^ lv" by simp
      then show "2 ^ 32 - ?c < 2 ^ 32 - count" unfolding c using less.prems(2) by linarith
      show "2 ^ 31 < ?c" unfolding c using less.prems(1) by (rule trans_less_add1)
      show "?c < 2 ^ 32" unfolding c using le False by linarith
    qed
    then show ?thesis using up by (auto split: option.split)
  qed
  have "count \<noteq> 2 ^ lv" using p less.prems(1) by linarith
  then show ?case using lv step [of "if b then st\<lparr>mc_branch := mc_branch st @ [h]\<rparr> else st"] unfolding s
    by (subst final_sweep.simps) (simp only: Let_def prod.case not_le [symmetric] if_False if_True simp_thms)
qed

lemma MerkleComputation_overflow:
  assumes "2 ^ 31 < length xs"
  shows "MerkleComputation H xs p = None"
proof (cases "length xs < 2 ^ 32")
  case True
  then have "nat_u32 (length xs) = length xs" by (rule nat_u32_small)
  moreover have "final_sweep H (length xs) lv h s = None" if "lowest_level (length xs) 0 = Some lv" for lv h s
    using final_sweep_overflow [OF assms True lowest_level_bit [OF that]] by simp
  moreover have "xs \<noteq> []" using assms by auto
  ultimately show ?thesis by (auto simp: MerkleComputation_def Let_def split: option.splits)
next
  case False
  then have "process_leaves H p 0 xs st = None" for st by (intro process_leaves_overflow) simp_all
  then show ?thesis using False by (auto simp: MerkleComputation_def)
qed

section \<open>Properties\<close>



text \<open>C32: Merkle branches.  The branch of a position leads from its leaf to the root, for both
  verifiers, and, unless two pairs that are hashed in the tree or along the branch collide, a branch of the right length leads to the root only
  from a leaf of the tree.\<close>

theorem MerkleBranch_sound_complete:
  "(\<forall>i < length xs. CheckMerkleBranch H (xs ! i) (GetMerkleBranch H xs i) (int i) = fst (BuildMerkleTree H xs) \<and>
      ComputeMerkleRootFromBranch H (xs ! i) (GetMerkleBranch H xs i) i = fst (BuildMerkleTree H xs)) \<and>
   (\<forall>hash br i. i \<noteq> - 1 \<and> xs \<noteq> [] \<and> length br = length (GetMerkleBranch H xs 0) \<and>
      CheckMerkleBranch H hash br i = fst (BuildMerkleTree H xs) \<and>
      no_collision H (hashed H xs \<union> branch_pairs H hash br i) \<longrightarrow> hash \<in> set xs)"
proof (rule conjI)
  have r: "ComputeMerkleRootFromBranch H h br i = branch_root H h br (int i)" for h br i
    by (induction br arbitrary: h i) (simp_all add: zdiv_int)
  show "\<forall>i < length xs. CheckMerkleBranch H (xs ! i) (GetMerkleBranch H xs i) (int i) = fst (BuildMerkleTree H xs) \<and>
      ComputeMerkleRootFromBranch H (xs ! i) (GetMerkleBranch H xs i) i = fst (BuildMerkleTree H xs)"
    by (simp add: r CheckMerkleBranch_def GetMerkleBranch_reference BuildMerkleTree_reference branch_of_root)
  show "\<forall>hash br i. i \<noteq> - 1 \<and> xs \<noteq> [] \<and> length br = length (GetMerkleBranch H xs 0) \<and>
      CheckMerkleBranch H hash br i = fst (BuildMerkleTree H xs) \<and>
      no_collision H (hashed H xs \<union> branch_pairs H hash br i) \<longrightarrow> hash \<in> set xs"
    by (auto simp: CheckMerkleBranch_def GetMerkleBranch_reference BuildMerkleTree_reference branch_of_siblings
      intro!: branch_root_sound [of H])
qed

lemma sample_hashed: "hashed (\<lambda>a b. 1000 * a + b) [1, 2, 3] = {(1, 2), (3, 3), (1002, 3003)}"
  by (auto simp: hashed.simps)

lemma MerkleBranch_sound_complete_witness:
  "CheckMerkleBranch (\<lambda>a b. 1000 * a + b) 3 [3, 1002] 2 = fst (BuildMerkleTree (\<lambda>a b. 1000 * a + b) [1, 2, 3]) \<and>
   3 \<in> set [1, 2, 3 :: uint256]"
proof -
  let ?H = "\<lambda>a b. 1000 * a + b :: uint256"
  have g: "GetMerkleBranch ?H [1, 2, 3] 2 = [3, 1002]" "length (GetMerkleBranch ?H [1, 2, 3] 0) = 2"
    by (simp_all add: GetMerkleBranch_reference branch_of.simps)
  have c: "CheckMerkleBranch ?H 3 [3, 1002] 2 = fst (BuildMerkleTree ?H [1, 2, 3])"
    using MerkleBranch_sound_complete [of "[1, 2, 3]" ?H] g(1) by (auto dest!: spec [of _ 2])
  have "branch_pairs ?H 3 [3, 1002] 2 = {(3, 3), (1002, 3003)}" by simp
  then have n: "no_collision ?H (hashed ?H [1, 2, 3] \<union> branch_pairs ?H 3 [3, 1002] 2)"
    by (auto simp: sample_hashed no_collision_def)
  have "3 \<in> set [1, 2, 3 :: uint256]"
    using MerkleBranch_sound_complete [of "[1, 2, 3]" ?H, THEN conjunct2, rule_format, of 2 "[3, 1002]" 3] g c n by simp
  then show ?thesis using c by blast
qed

lemma BuildMerkleTree_inject:
  assumes "BuildMerkleTree H xs = (r, False)" "xs \<noteq> []" "BuildMerkleTree H ys = (r, False)" "ys \<noteq> []"
    and "length (GetMerkleBranch H ys 0) = length (GetMerkleBranch H xs 0)" and "no_collision H (hashed H xs \<union> hashed H ys)"
  shows "ys = xs"
proof (rule sym, rule merkle_root_inject [OF _ _ assms(2,4,6)])
  show "merkle_root H xs = merkle_root H ys" "\<not> mutated_tree H xs" "\<not> mutated_tree H ys"
    using assms(1,3) by (simp_all add: BuildMerkleTree_reference)
  show "length (upper_levels H xs) = length (upper_levels H ys)"
    using assms(5) by (simp add: GetMerkleBranch_reference branch_of_siblings)
qed

text \<open>The root commits to the transactions.  Two non-empty lists with trees of the same height and the same root, neither of them reported as
  mutated, are equal, unless two of the pairs hashed in the two trees collide; and the attack of CVE-2012-2459, which repeats the last
  transaction of an odd list, is reported.\<close>

theorem BuildMerkleTree_binding:
  assumes "BuildMerkleTree H xs = (r, False)" and "xs \<noteq> []"
  shows "(BuildMerkleTree H ys = (r, False) \<and> ys \<noteq> [] \<and> length (GetMerkleBranch H ys 0) = length (GetMerkleBranch H xs 0) \<and>
      no_collision H (hashed H xs \<union> hashed H ys) \<longrightarrow> ys = xs) \<and>
    (odd (length xs) \<and> 1 < length xs \<longrightarrow> BuildMerkleTree H (xs @ [last xs]) = (r, True))"
proof (intro conjI impI; elim conjE)
  have m: "merkle_root H xs = r" "\<not> mutated_tree H xs" using assms(1) by (simp_all add: BuildMerkleTree_reference)
  show "ys = xs" if h: "BuildMerkleTree H ys = (r, False)" "ys \<noteq> []" "length (GetMerkleBranch H ys 0) = length (GetMerkleBranch H xs 0)"
      "no_collision H (hashed H xs \<union> hashed H ys)"
    by (rule BuildMerkleTree_inject [OF assms h])
  show "BuildMerkleTree H (xs @ [last xs]) = (r, True)" if l: "odd (length xs)" "1 < length xs"
  proof -
    have "level H (us @ [x, x]) = level H (us @ [x])" if "even (length us)" for us x
      using that by (induction us rule: induct_list012) auto
    from this [of "butlast xs" "last xs"] have "level H (butlast xs @ [last xs, last xs]) = level H xs" using l assms(2) by simp
    moreover have "xs @ [last xs] = butlast xs @ [last xs, last xs]"
      by (metis append_assoc append_Cons append_Nil append_butlast_last_id assms(2))
    ultimately have e: "level H (xs @ [last xs]) = level H xs" by (simp only:)
    have "equal_pair_at_end (xs @ [last xs])" using l by (simp add: equal_pair_at_end_def nth_append last_conv_nth assms(2))
    then show "BuildMerkleTree H (xs @ [last xs]) = (r, True)"
      using m(1) l merkle_root_long [of xs H] merkle_root_long [of "xs @ [last xs]" H] mutated_tree_long [of "xs @ [last xs]" H]
      by (simp add: BuildMerkleTree_reference e assms(2))
  qed
qed

lemma BuildMerkleTree_binding_witness:
  "\<exists>r. BuildMerkleTree (\<lambda>a b. 1000 * a + b) [1, 2, 3] = (r, False) \<and> BuildMerkleTree (\<lambda>a b. 1000 * a + b) [1, 2, 3, 3] = (r, True)"
proof -
  let ?H = "\<lambda>a b. 1000 * a + b :: uint256"
  have "\<not> mutated_tree ?H [1, 2, 3]" by (simp add: mutated_tree_def upper_levels.simps equal_pair_at_end_def)
  then obtain r where r: "BuildMerkleTree ?H [1, 2, 3] = (r, False)" by (simp add: BuildMerkleTree_reference)
  have "BuildMerkleTree ?H ([1, 2, 3] @ [last [1, 2, 3]]) = (r, True)"
    using BuildMerkleTree_binding [OF r, THEN conjunct2] by simp
  then show ?thesis using r by auto
qed

end
