(* ===== verification/PartialMerkle.thy ===== *)
theory PartialMerkle
  imports MerkleCompute Tx "HOL-Library.Sublist"
begin

text \<open>
  Partial Merkle trees (src/src/merkleblock.h, src/src/merkleblock.cpp): the proofs sent to light clients that certain
  transactions are in a block.  The traversals are functions on the record of the class; the vectors that \<open>TraverseAndExtract\<close> consumes are
  kept whole and the two counters are threaded.  \<open>H\<close> is the hash of two hashes as in \<open>Merkle\<close>.
\<close>

record CPartialMerkleTree =
  pmt_nTransactions :: nat
  pmt_vBits :: "bool list"
  pmt_vHash :: "uint256 list"
  pmt_fBad :: bool

text \<open>Unsigned arithmetic on 32 bits.\<close>

definition CalcTreeWidth :: "nat \<Rightarrow> nat \<Rightarrow> nat" where
  "CalcTreeWidth nTransactions height = (nTransactions + 2 ^ height - 1) mod 2 ^ 32 div 2 ^ height"

fun CalcHash :: "pair_hash \<Rightarrow> nat \<Rightarrow> nat \<Rightarrow> nat \<Rightarrow> uint256 list \<Rightarrow> uint256" where
  "CalcHash H n 0 pos vTxid = vTxid ! pos"
| "CalcHash H n (Suc height) pos vTxid =
     (let left = CalcHash H n height (pos * 2) vTxid;
          right = (if pos * 2 + 1 < CalcTreeWidth n height then CalcHash H n height (pos * 2 + 1) vTxid else left)
      in H left right)"

text \<open>The matched transactions below a node.\<close>

definition parent_of_match :: "nat \<Rightarrow> nat \<Rightarrow> nat \<Rightarrow> bool list \<Rightarrow> bool" where
  "parent_of_match n height pos vMatch \<longleftrightarrow>
     list_ex (\<lambda>p. vMatch ! p) (filter (\<lambda>p. p < n) [pos * 2 ^ height..<(pos + 1) * 2 ^ height])"

text \<open>The bits and hashes that the traversal appends.\<close>

fun TraverseAndBuild :: "pair_hash \<Rightarrow> nat \<Rightarrow> nat \<Rightarrow> nat \<Rightarrow> uint256 list \<Rightarrow> bool list \<Rightarrow> bool list \<times> uint256 list \<Rightarrow> bool list \<times> uint256 list" where
  "TraverseAndBuild H n 0 pos vTxid vMatch (vBits, vHash) =
     (vBits @ [parent_of_match n 0 pos vMatch], vHash @ [CalcHash H n 0 pos vTxid])"
| "TraverseAndBuild H n (Suc height) pos vTxid vMatch (vBits, vHash) =
     (let fParentOfMatch = parent_of_match n (Suc height) pos vMatch;
          vBits1 = vBits @ [fParentOfMatch]
      in if \<not> fParentOfMatch then (vBits1, vHash @ [CalcHash H n (Suc height) pos vTxid])
         else
           let s = TraverseAndBuild H n height (pos * 2) vTxid vMatch (vBits1, vHash)
           in if pos * 2 + 1 < CalcTreeWidth n height then TraverseAndBuild H n height (pos * 2 + 1) vTxid vMatch s else s)"

function tree_height :: "nat \<Rightarrow> nat \<Rightarrow> nat" where
  "tree_height n nHeight = (if 1 < CalcTreeWidth n nHeight then tree_height n (nHeight + 1) else nHeight)"
  by pat_completeness auto
termination
proof (relation "measure (\<lambda>(n, h). 33 - h)", goal_cases)
  case (2 n h)
  have "h < 32"
  proof (rule ccontr)
    assume "\<not> h < 32"
    then have "(2 :: nat) ^ 32 \<le> 2 ^ h" by (intro power_increasing) simp_all
    moreover have "(n + 2 ^ h - 1) mod 2 ^ 32 < 2 ^ 32" by (rule mod_less_divisor) simp
    ultimately have "(n + 2 ^ h - 1) mod 2 ^ 32 < 2 ^ h" by (rule less_le_trans [rotated])
    then show False using 2 by (simp add: CalcTreeWidth_def)
  qed
  then show ?case by simp
qed simp

declare tree_height.simps [simp del]

text \<open>The constructor from the transactions of a block and the selection.\<close>

definition CPartialMerkleTree_of :: "pair_hash \<Rightarrow> uint256 list \<Rightarrow> bool list \<Rightarrow> CPartialMerkleTree" where
  "CPartialMerkleTree_of H vTxid vMatch =
     (let n = length vTxid;
          (vBits, vHash) = TraverseAndBuild H n (tree_height n 0) 0 vTxid vMatch ([], [])
      in \<lparr>pmt_nTransactions = n, pmt_vBits = vBits, pmt_vHash = vHash, pmt_fBad = False\<rparr>)"

text \<open>What \<open>TraverseAndExtract\<close> changes: the flag, the two counters and the matches.\<close>

record extract_state =
  ex_fBad :: bool
  ex_nBitsUsed :: nat
  ex_nHashUsed :: nat
  ex_vMatch :: "uint256 list"

definition take_hash :: "uint256 list \<Rightarrow> bool \<Rightarrow> extract_state \<Rightarrow> uint256 \<times> extract_state" where
  "take_hash vHash matched s =
     (if ex_nHashUsed s \<ge> length vHash then (0, s\<lparr>ex_fBad := True\<rparr>)
      else
        let hash = vHash ! ex_nHashUsed s
        in (hash, s\<lparr>ex_nHashUsed := ex_nHashUsed s + 1, ex_vMatch := (if matched then ex_vMatch s @ [hash] else ex_vMatch s)\<rparr>))"

fun TraverseAndExtract :: "pair_hash \<Rightarrow> nat \<Rightarrow> bool list \<Rightarrow> uint256 list \<Rightarrow> nat \<Rightarrow> nat \<Rightarrow> extract_state \<Rightarrow> uint256 \<times> extract_state" where
  "TraverseAndExtract H n vBits vHash 0 pos s =
     (if ex_nBitsUsed s \<ge> length vBits then (0, s\<lparr>ex_fBad := True\<rparr>)
      else take_hash vHash (vBits ! ex_nBitsUsed s) (s\<lparr>ex_nBitsUsed := ex_nBitsUsed s + 1\<rparr>))"
| "TraverseAndExtract H n vBits vHash (Suc height) pos s =
     (if ex_nBitsUsed s \<ge> length vBits then (0, s\<lparr>ex_fBad := True\<rparr>)
      else
        let fParentOfMatch = vBits ! ex_nBitsUsed s;
            s1 = s\<lparr>ex_nBitsUsed := ex_nBitsUsed s + 1\<rparr>
        in if \<not> fParentOfMatch then take_hash vHash False s1
           else
             let (left, s2) = TraverseAndExtract H n vBits vHash height (pos * 2) s1;
                 (right, s3) = (if pos * 2 + 1 < CalcTreeWidth n height
                                then TraverseAndExtract H n vBits vHash height (pos * 2 + 1) s2 else (left, s2))
             in (H left right, s3))"

definition MAX_BLOCK_SIZE :: nat where "MAX_BLOCK_SIZE = 1000000"

text \<open>The root, zero on failure, and the matches.\<close>

definition ExtractMatches :: "pair_hash \<Rightarrow> CPartialMerkleTree \<Rightarrow> uint256 \<times> uint256 list" where
  "ExtractMatches H t =
     (let n = pmt_nTransactions t; vBits = pmt_vBits t; vHash = pmt_vHash t in
      if n = 0 then (0, [])
      else if n > MAX_BLOCK_SIZE div 60 then (0, [])
      else if length vHash > n then (0, [])
      else if length vBits < length vHash then (0, [])
      else
        let (hashMerkleRoot, s) = TraverseAndExtract H n vBits vHash (tree_height n 0) 0
              \<lparr>ex_fBad = pmt_fBad t, ex_nBitsUsed = 0, ex_nHashUsed = 0, ex_vMatch = []\<rparr>
        in if ex_fBad s then (0, ex_vMatch s)
           else if (ex_nBitsUsed s + 7) div 8 \<noteq> (length vBits + 7) div 8 then (0, ex_vMatch s)
           else if ex_nHashUsed s \<noteq> length vHash then (0, ex_vMatch s)
           else (hashMerkleRoot, ex_vMatch s))"

section \<open>Serialization\<close>

text \<open>The flag bits are packed eight to a byte, the first in the lowest bit.\<close>

definition pack_bits :: "bool list \<Rightarrow> bytes" where
  "pack_bits vBits =
     foldl (\<lambda>vBytes p. vBytes[p div 8 := (vBytes ! (p div 8)) OR push_bit (p mod 8) (of_bool (vBits ! p))])
       (replicate ((length vBits + 7) div 8) 0) [0..<length vBits]"

definition unpack_bits :: "bytes \<Rightarrow> bool list" where
  "unpack_bits vBytes = map (\<lambda>p. vBytes ! (p div 8) AND push_bit (p mod 8) 1 \<noteq> 0) [0..<length vBytes * 8]"

definition ser_CPartialMerkleTree :: "CPartialMerkleTree \<Rightarrow> bytes" where
  "ser_CPartialMerkleTree t =
     WRITEDATA 4 (pmt_nTransactions t) @ Serialize_vector (ser_word 32) (pmt_vHash t) @ Serialize_bytes (pack_bits (pmt_vBits t))"

definition unser_CPartialMerkleTree :: "CPartialMerkleTree reader" where
  "unser_CPartialMerkleTree =
     rbind (READDATA 4) (\<lambda>n. rbind (Unserialize_vector (unser_word 32)) (\<lambda>hs. rbind Unserialize_bytes (\<lambda>bs.
       rreturn \<lparr>pmt_nTransactions = n, pmt_vBits = unpack_bits bs, pmt_vHash = hs, pmt_fBad = False\<rparr>)))"

section \<open>The shape of the tree\<close>

lemma CalcTreeWidth_width:
  assumes "0 < n" and "n \<le> 2 ^ 31" and "h \<le> 31"
  shows "CalcTreeWidth n h = width n h"
proof -
  have "(2 :: nat) ^ h \<le> 2 ^ 31" using assms(3) by (rule power_increasing) simp
  then have "n + 2 ^ h - 1 < 2 ^ 32" using assms(1,2) by simp
  then show ?thesis by (simp add: CalcTreeWidth_def width_def)
qed

lemma width_pos: "0 < n \<Longrightarrow> 0 < width n l"
  by (simp add: width_div)

lemma width_top: "0 < n \<Longrightarrow> n \<le> 2 ^ l \<Longrightarrow> width n l = 1"
  by (simp add: width_div)

lemma tree_height_correct:
  "0 < n \<Longrightarrow> n \<le> 2 ^ 31 \<Longrightarrow> h \<le> 31 \<Longrightarrow> \<forall>k < h. 1 < width n k \<Longrightarrow> top_level n (tree_height n h) \<and> tree_height n h \<le> 31"
proof (induction n h rule: tree_height.induct)
  case (1 n h)
  note w = CalcTreeWidth_width [OF 1(2-4)]
  show ?case
  proof (cases "1 < width n h")
    case True
    then have "h \<noteq> 31" using width_top [of n 31] 1(2,3) by auto
    then have "h + 1 \<le> 31" using 1(4) by simp
    moreover have "\<forall>k < h + 1. 1 < width n k" using 1(5) True by (simp add: less_Suc_eq)
    ultimately have "top_level n (tree_height n (h + 1)) \<and> tree_height n (h + 1) \<le> 31"
      using 1(1) [unfolded w, OF True 1(2,3)] by blast
    moreover have "tree_height n h = tree_height n (h + 1)" using True w by (subst tree_height.simps) simp
    ultimately show ?thesis by simp
  next
    case False
    then have "tree_height n h = h" using w by (subst tree_height.simps) simp
    moreover have "width n h = 1" using False width_pos [OF 1(2), of h] by simp
    ultimately show ?thesis using 1(4,5) by (simp add: top_level_def)
  qed
qed

text \<open>A child on the right exists when its position is below the width.\<close>

lemma node_children:
  assumes "pos < width (length xs) (Suc h)"
  shows "pos * 2 < width (length xs) h"
    and "node H xs (Suc h) pos = H (node H xs h (pos * 2))
      (if pos * 2 + 1 < width (length xs) h then node H xs h (pos * 2 + 1) else node H xs h (pos * 2))"
proof -
  show "pos * 2 < width (length xs) h" using assms by (simp add: width_Suc)
  then have "min (2 * pos + 1) (width (length xs) h - 1) = (if pos * 2 + 1 < width (length xs) h then pos * 2 + 1 else pos * 2)" by auto
  then show "node H xs (Suc h) pos = H (node H xs h (pos * 2))
      (if pos * 2 + 1 < width (length xs) h then node H xs h (pos * 2 + 1) else node H xs h (pos * 2))"
    unfolding node_Suc [OF assms, of H] by (simp add: mult.commute)
qed

lemma CalcHash_node:
  "length xs \<le> 2 ^ 31 \<Longrightarrow> h \<le> 31 \<Longrightarrow> pos < width (length xs) h \<Longrightarrow> CalcHash H (length xs) h pos xs = node H xs h pos"
proof (induction h arbitrary: pos)
  case (Suc h)
  have n: "0 < length xs" using Suc.prems(3) by (cases xs) (auto simp: width_def)
  have w: "CalcTreeWidth (length xs) h = width (length xs) h" using CalcTreeWidth_width [OF n] Suc.prems by simp
  show ?case using Suc.IH Suc.prems node_children [OF Suc.prems(3)] by (simp add: w Let_def)
qed simp

text \<open>The positions of the leaves below a node.\<close>

definition leaves_below :: "nat \<Rightarrow> nat \<Rightarrow> nat \<Rightarrow> nat list" where
  "leaves_below n h pos = [pos * 2 ^ h..<min n ((pos + 1) * 2 ^ h)]"

lemma leaves_below_0: "pos < n \<Longrightarrow> leaves_below n 0 pos = [pos]"
  by (simp add: leaves_below_def min_absorb2)

lemma upt_split: "a \<le> b \<Longrightarrow> b \<le> c \<Longrightarrow> [a..<c] = [a..<b] @ [b..<c]"
  using upt_add_eq_append [of a b "c - b"] by simp

lemma width_less: "0 < n \<Longrightarrow> pos < width n h \<longleftrightarrow> pos * 2 ^ h < n"
  by (simp add: width_div less_Suc_eq_le less_eq_div_iff_mult_less_eq) (cases n, auto simp: less_Suc_eq_le)

lemma leaves_below_Suc:
  assumes "0 < n"
  shows "leaves_below n (Suc h) pos = leaves_below n h (pos * 2) @
    (if pos * 2 + 1 < width n h then leaves_below n h (pos * 2 + 1) else [])"
proof -
  have e: "pos * 2 ^ Suc h = pos * 2 * 2 ^ h" "(pos + 1) * 2 ^ Suc h = (pos * 2 + 1 + 1) * 2 ^ h" by (simp_all add: algebra_simps)
  have l: "pos * 2 * 2 ^ h \<le> (pos * 2 + 1) * 2 ^ h" "(pos * 2 + 1) * 2 ^ h \<le> (pos * 2 + 1 + 1) * 2 ^ h" by simp_all
  show ?thesis
  proof (cases "(pos * 2 + 1) * 2 ^ h < n")
    case True
    then have "[pos * 2 * 2 ^ h..<min n ((pos * 2 + 1 + 1) * 2 ^ h)] =
        [pos * 2 * 2 ^ h..<(pos * 2 + 1) * 2 ^ h] @ [(pos * 2 + 1) * 2 ^ h..<min n ((pos * 2 + 1 + 1) * 2 ^ h)]"
      using l by (intro upt_split) auto
    then show ?thesis using True width_less [OF assms, of "pos * 2 + 1" h] unfolding leaves_below_def e by (simp add: min_absorb2)
  next
    case False
    then have "min n ((pos * 2 + 1 + 1) * 2 ^ h) = min n ((pos * 2 + 1) * 2 ^ h)" using l by (simp add: min_def)
    then show ?thesis using False width_less [OF assms, of "pos * 2 + 1" h] unfolding leaves_below_def e by simp
  qed
qed

lemma parent_of_match_below: "parent_of_match n h pos vMatch \<longleftrightarrow> (\<exists>p \<in> set (leaves_below n h pos). vMatch ! p)"
  by (auto simp: parent_of_match_def list_ex_iff leaves_below_def)

lemma leaves_below_top: "width n h = 1 \<Longrightarrow> 0 < n \<Longrightarrow> leaves_below n h 0 = [0..<n]"
  using width_less [of n 1 h] by (simp add: leaves_below_def min_def)

section \<open>Extracting what was built\<close>

text \<open>The bits and the hashes of a subtree.\<close>

definition sub_bits :: "pair_hash \<Rightarrow> nat \<Rightarrow> nat \<Rightarrow> uint256 list \<Rightarrow> bool list \<Rightarrow> bool list" where
  "sub_bits H h pos xs m = fst (TraverseAndBuild H (length xs) h pos xs m ([], []))"

definition sub_hashes :: "pair_hash \<Rightarrow> nat \<Rightarrow> nat \<Rightarrow> uint256 list \<Rightarrow> bool list \<Rightarrow> uint256 list" where
  "sub_hashes H h pos xs m = snd (TraverseAndBuild H (length xs) h pos xs m ([], []))"

lemma TraverseAndBuild_append:
  "TraverseAndBuild H n h pos xs m (B, Hs) =
   (B @ fst (TraverseAndBuild H n h pos xs m ([], [])), Hs @ snd (TraverseAndBuild H n h pos xs m ([], [])))"
proof (induction h arbitrary: pos B Hs)
  case (Suc h)
  let ?T = "\<lambda>p. TraverseAndBuild H n h p xs m"
  show ?case
  proof (cases "parent_of_match n (Suc h) pos m")
    case True
    have r: "?T (pos * 2 + 1) (?T (pos * 2) (C, D)) =
        (C @ fst (?T (pos * 2) ([], [])) @ fst (?T (pos * 2 + 1) ([], [])), D @ snd (?T (pos * 2) ([], [])) @ snd (?T (pos * 2 + 1) ([], [])))"
      for C D
      by (subst Suc [of "pos * 2" C D], subst Suc [of "pos * 2 + 1"]) simp
    show ?thesis
    proof (cases "pos * 2 + 1 < CalcTreeWidth n h")
      case True
      show ?thesis using True \<open>parent_of_match n (Suc h) pos m\<close> r [of "B @ [True]" Hs] r [of "[True]" "[]"]
        by (simp only: TraverseAndBuild.simps Let_def if_True not_True_eq_False if_False append_Nil fst_conv snd_conv append_assoc)
    next
      case False
      show ?thesis using False \<open>parent_of_match n (Suc h) pos m\<close> Suc [of "pos * 2" "B @ [True]" Hs] Suc [of "pos * 2" "[True]" "[]"]
        by (simp only: TraverseAndBuild.simps Let_def if_True not_True_eq_False if_False append_Nil fst_conv snd_conv append_assoc)
    qed
  qed (simp add: Let_def)
qed simp

lemma sub_leaf:
  "sub_bits H 0 pos xs m = [parent_of_match (length xs) 0 pos m]"
  "sub_hashes H 0 pos xs m = [xs ! pos]"
  by (simp_all add: sub_bits_def sub_hashes_def)

lemma sub_stop:
  "\<not> parent_of_match (length xs) (Suc h) pos m \<Longrightarrow> sub_bits H (Suc h) pos xs m = [False]"
  "\<not> parent_of_match (length xs) (Suc h) pos m \<Longrightarrow> sub_hashes H (Suc h) pos xs m = [CalcHash H (length xs) (Suc h) pos xs]"
  by (simp_all add: sub_bits_def sub_hashes_def)

lemma sub_descend:
  assumes "parent_of_match (length xs) (Suc h) pos m"
  shows "sub_bits H (Suc h) pos xs m = True # sub_bits H h (pos * 2) xs m @
      (if pos * 2 + 1 < CalcTreeWidth (length xs) h then sub_bits H h (pos * 2 + 1) xs m else [])"
    and "sub_hashes H (Suc h) pos xs m = sub_hashes H h (pos * 2) xs m @
      (if pos * 2 + 1 < CalcTreeWidth (length xs) h then sub_hashes H h (pos * 2 + 1) xs m else [])"
proof -
  have 1: "TraverseAndBuild H (length xs) h p xs m (B, D) = (B @ sub_bits H h p xs m, D @ sub_hashes H h p xs m)" for p B D
    unfolding sub_bits_def sub_hashes_def by (rule TraverseAndBuild_append)
  show "sub_bits H (Suc h) pos xs m = True # sub_bits H h (pos * 2) xs m @
      (if pos * 2 + 1 < CalcTreeWidth (length xs) h then sub_bits H h (pos * 2 + 1) xs m else [])"
    unfolding sub_bits_def [of H "Suc h"] using assms by (simp add: 1 Let_def)
  show "sub_hashes H (Suc h) pos xs m = sub_hashes H h (pos * 2) xs m @
      (if pos * 2 + 1 < CalcTreeWidth (length xs) h then sub_hashes H h (pos * 2 + 1) xs m else [])"
    unfolding sub_hashes_def [of H "Suc h"] using assms by (simp add: 1 Let_def)
qed

lemma sub_lengths:
  assumes "0 < length xs" and "length xs \<le> 2 ^ 31"
  shows "h \<le> 31 \<Longrightarrow> pos < width (length xs) h \<Longrightarrow>
    0 < length (sub_hashes H h pos xs m) \<and> length (sub_hashes H h pos xs m) \<le> length (sub_bits H h pos xs m) \<and>
    length (sub_hashes H h pos xs m) \<le> length (leaves_below (length xs) h pos)"
proof (induction h arbitrary: pos)
  case 0
  then show ?case by (simp add: sub_leaf leaves_below_0)
next
  case (Suc h)
  have w: "CalcTreeWidth (length xs) h = width (length xs) h" using CalcTreeWidth_width assms Suc.prems by simp
  note c = node_children(1) [OF Suc.prems(2)]
  show ?case
  proof (cases "parent_of_match (length xs) (Suc h) pos m")
    case True
    have "h \<le> 31" using Suc.prems by simp
    note i = Suc.IH [OF this c] Suc.IH [OF this, of "pos * 2 + 1"]
    show ?thesis unfolding sub_descend [OF True] leaves_below_Suc [OF assms(1)] w using i by auto
  next
    case False
    have "0 < length (leaves_below (length xs) (Suc h) pos)"
      using Suc.prems(2) width_less [OF assms(1), of pos "Suc h"] by (simp add: leaves_below_def)
    then show ?thesis using False by (simp add: sub_stop Suc_le_eq del: length_greater_0_conv)
  qed
qed

definition advance :: "nat \<Rightarrow> nat \<Rightarrow> uint256 list \<Rightarrow> extract_state \<Rightarrow> extract_state" where
  "advance b h ms s = s\<lparr>ex_nBitsUsed := ex_nBitsUsed s + b, ex_nHashUsed := ex_nHashUsed s + h, ex_vMatch := ex_vMatch s @ ms\<rparr>"

lemma advance_fields [simp]:
  "ex_nBitsUsed (advance b h ms s) = ex_nBitsUsed s + b" "ex_nHashUsed (advance b h ms s) = ex_nHashUsed s + h"
  "ex_vMatch (advance b h ms s) = ex_vMatch s @ ms" "ex_fBad (advance b h ms s) = ex_fBad s"
  by (simp_all add: advance_def)

lemma advance_advance: "advance b h ms (advance b' h' ms' s) = advance (b' + b) (h' + h) (ms' @ ms) s"
  by (simp add: advance_def)

lemma advance_bit: "s\<lparr>ex_nBitsUsed := ex_nBitsUsed s + 1\<rparr> = advance 1 0 [] s"
  by (simp add: advance_def)

lemma TraverseAndExtract_built:
  assumes "0 < length xs" and "length xs \<le> 2 ^ 31"
  shows "h \<le> 31 \<Longrightarrow> pos < width (length xs) h \<Longrightarrow>
    vBits = pb @ sub_bits H h pos xs m @ qb \<Longrightarrow> vHash = ph @ sub_hashes H h pos xs m @ qh \<Longrightarrow>
    ex_nBitsUsed s = length pb \<Longrightarrow> ex_nHashUsed s = length ph \<Longrightarrow>
    TraverseAndExtract H (length xs) vBits vHash h pos s =
      (node H xs h pos, advance (length (sub_bits H h pos xs m)) (length (sub_hashes H h pos xs m))
         (map ((!) xs) (filter ((!) m) (leaves_below (length xs) h pos))) s)"
proof (induction h arbitrary: pos pb qb ph qh s)
  case 0
  then have "parent_of_match (length xs) 0 pos m = m ! pos" by (simp add: parent_of_match_below leaves_below_0)
  then show ?case using 0 by (simp add: sub_leaf leaves_below_0 take_hash_def advance_def Let_def)
next
  case (Suc h)
  have w: "CalcTreeWidth (length xs) h = width (length xs) h" using CalcTreeWidth_width assms Suc.prems by simp
  note c = node_children [OF Suc.prems(2)]
  have h: "h \<le> 31" using Suc.prems by simp
  show ?case
  proof (cases "parent_of_match (length xs) (Suc h) pos m")
    case False
    have "filter ((!) m) (leaves_below (length xs) (Suc h) pos) = []"
      using False unfolding parent_of_match_below by (simp add: filter_empty_conv)
    then show ?thesis using False Suc.prems(3-6) CalcHash_node [OF assms(2) Suc.prems(1,2), of H]
      by (simp add: sub_stop take_hash_def advance_def Let_def)
  next
    case True
    let ?L = "sub_bits H h (pos * 2) xs m" and ?LH = "sub_hashes H h (pos * 2) xs m"
    let ?R = "if pos * 2 + 1 < width (length xs) h then sub_bits H h (pos * 2 + 1) xs m else []"
    let ?RH = "if pos * 2 + 1 < width (length xs) h then sub_hashes H h (pos * 2 + 1) xs m else []"
    let ?M = "\<lambda>p. map ((!) xs) (filter ((!) m) (leaves_below (length xs) h p))"
    note d = sub_descend [OF True, of H, unfolded w]
    have b: "vBits = (pb @ [True]) @ ?L @ (?R @ qb)" "vHash = ph @ ?LH @ (?RH @ qh)" using Suc.prems(3,4) d by simp_all
    have b': "vBits = (pb @ True # ?L) @ ?R @ qb" "vHash = (ph @ ?LH) @ ?RH @ qh" using Suc.prems(3,4) d by simp_all
    have nb: "\<not> length vBits \<le> ex_nBitsUsed s" "vBits ! ex_nBitsUsed s" using b(1) Suc.prems(5) by (simp_all add: nth_append)
    let ?s2 = "advance (1 + length ?L) (length ?LH) (?M (pos * 2)) s"
    have l: "TraverseAndExtract H (length xs) vBits vHash h (pos * 2) (advance 1 0 [] s) = (node H xs h (pos * 2), ?s2)"
      using Suc.IH [OF h c(1) b, of "advance 1 0 [] s"] Suc.prems(5,6) by (simp add: advance_advance)
    have "TraverseAndExtract H (length xs) vBits vHash (Suc h) pos s =
        (let (right, s3) = (if pos * 2 + 1 < width (length xs) h
            then TraverseAndExtract H (length xs) vBits vHash h (pos * 2 + 1) ?s2 else (node H xs h (pos * 2), ?s2))
         in (H (node H xs h (pos * 2)) right, s3))"
      using nb l by (simp only: TraverseAndExtract.simps if_False Let_def not_True_eq_False advance_bit w split_conv)
    also have "\<dots> = (node H xs (Suc h) pos, advance (length (sub_bits H (Suc h) pos xs m)) (length (sub_hashes H (Suc h) pos xs m))
         (map ((!) xs) (filter ((!) m) (leaves_below (length xs) (Suc h) pos))) s)"
    proof (cases "pos * 2 + 1 < width (length xs) h")
      case r: True
      have "TraverseAndExtract H (length xs) vBits vHash h (pos * 2 + 1) ?s2 =
          (node H xs h (pos * 2 + 1), advance (length (sub_bits H h (pos * 2 + 1) xs m)) (length (sub_hashes H h (pos * 2 + 1) xs m))
             (?M (pos * 2 + 1)) ?s2)"
        by (rule Suc.IH [OF h r, of "pb @ True # ?L" qb "ph @ ?LH" qh]) (use b' r Suc.prems(5,6) in simp_all)
      then show ?thesis unfolding d leaves_below_Suc [OF assms(1)] c(2) using r by (simp add: advance_advance add.assoc)
    next
      case False
      then show ?thesis unfolding d leaves_below_Suc [OF assms(1)] c(2) by simp
    qed
    finally show ?thesis .
  qed
qed

text \<open>The flags after the bits that are used do not matter, up to the padding of the last byte.\<close>

lemma ExtractMatches_built:
  assumes "0 < length xs" and "length xs \<le> MAX_BLOCK_SIZE div 60"
    and t: "CPartialMerkleTree_of H xs m = t"
    and pad: "(length (pmt_vBits t) + 7) div 8 = (length (pmt_vBits t @ qb) + 7) div 8"
  shows "ExtractMatches H (t\<lparr>pmt_vBits := pmt_vBits t @ qb\<rparr>) = (merkle_root H xs, map ((!) xs) (filter ((!) m) [0..<length xs]))"
proof -
  let ?n = "length xs" and ?h = "tree_height (length xs) 0"
  have n: "?n \<le> 2 ^ 31" using assms(2) by (simp add: MAX_BLOCK_SIZE_def)
  have h: "top_level ?n ?h" "?h \<le> 31" using tree_height_correct [OF assms(1) n, of 0] by simp_all
  have w: "width ?n ?h = 1" using h(1) by (simp add: top_level_def)
  have below: "leaves_below ?n ?h 0 = [0..<?n]" by (rule leaves_below_top [OF w assms(1)])
  have f: "pmt_nTransactions t = ?n" "pmt_vBits t = sub_bits H ?h 0 xs m" "pmt_vHash t = sub_hashes H ?h 0 xs m" "\<not> pmt_fBad t"
    unfolding t [symmetric] CPartialMerkleTree_of_def sub_bits_def sub_hashes_def by (simp_all add: Let_def split: prod.split)
  note l = sub_lengths [OF assms(1) n h(2), of 0 H m]
  let ?s = "\<lparr>ex_fBad = False, ex_nBitsUsed = 0, ex_nHashUsed = 0, ex_vMatch = []\<rparr>"
  have e: "TraverseAndExtract H ?n (sub_bits H ?h 0 xs m @ qb) (sub_hashes H ?h 0 xs m) ?h 0 ?s =
      (node H xs ?h 0, advance (length (sub_bits H ?h 0 xs m)) (length (sub_hashes H ?h 0 xs m)) (map ((!) xs) (filter ((!) m) [0..<?n])) ?s)"
    using TraverseAndExtract_built [OF assms(1) n h(2), of 0 _ "[]" H m qb _ "[]" "[]" ?s] w below by simp
  have r: "node H xs ?h 0 = merkle_root H xs" using top_level_root [OF h(1), of H] by simp
  have "\<not> MAX_BLOCK_SIZE div 60 < ?n" "\<not> ?n < length (sub_hashes H ?h 0 xs m)"
    "\<not> length (sub_bits H ?h 0 xs m @ qb) < length (sub_hashes H ?h 0 xs m)"
    using assms(2) l w below by auto
  then show ?thesis
    using assms(1) pad by (simp add: ExtractMatches_def f e r Let_def)
qed

section \<open>The packed bits\<close>

interpretation hashvec: serializer "Serialize_vector (ser_word 32 :: uint256 \<Rightarrow> bytes)" "Unserialize_vector (unser_word 32)" "vector_ok (\<lambda>_. True)"
  by (rule w256.vector_serializer)

lemma pack_bits_fold:
  "k \<le> length bs \<Longrightarrow>
   foldl (\<lambda>v p. v[p div 8 := (v ! (p div 8)) OR push_bit (p mod 8) (of_bool (bs ! p))]) (replicate ((length bs + 7) div 8) 0) [0..<k] = v \<Longrightarrow>
   length v = (length bs + 7) div 8 \<and> (\<forall>q < 8 * length v. bit (v ! (q div 8)) (q mod 8) \<longleftrightarrow> q < k \<and> bs ! q)" for v :: bytes
proof (induction k arbitrary: v)
  case 0
  then show ?case by auto
next
  case (Suc k)
  let ?f = "\<lambda>v p. v[p div 8 := (v ! (p div 8)) OR push_bit (p mod 8) (of_bool (bs ! p))]"
  define u where "u = foldl ?f (replicate ((length bs + 7) div 8) (0 :: byte)) [0..<k]"
  have v: "v = ?f u k" using Suc.prems(2) by (simp add: u_def)
  have u: "length u = (length bs + 7) div 8" "\<forall>q < 8 * length u. bit (u ! (q div 8)) (q mod 8) \<longleftrightarrow> q < k \<and> bs ! q"
    using Suc.IH [OF _ u_def [symmetric]] Suc.prems(1) by simp_all
  have kb: "k div 8 < length u" using Suc.prems(1) u(1) by linarith
  have "bit (v ! (q div 8)) (q mod 8) \<longleftrightarrow> q < Suc k \<and> bs ! q" if q: "q < 8 * length v" for q
  proof (cases "q div 8 = k div 8")
    case False
    then have "q < Suc k \<longleftrightarrow> q < k" by (metis less_Suc_eq)
    then show ?thesis using False u(2) q v by simp
  next
    case True
    have "q mod 8 = k mod 8 \<longleftrightarrow> q = k" using True by (metis div_mult_mod_eq)
    moreover have "bit (push_bit (k mod 8) (of_bool (bs ! k)) :: byte) (q mod 8) \<longleftrightarrow> q mod 8 = k mod 8 \<and> bs ! k"
      by (auto simp: bit_push_bit_iff bit_of_bool_iff less_imp_le)
    ultimately show ?thesis using True u(2) q v kb by (auto simp: bit_or_iff less_Suc_eq)
  qed
  then show ?case using u(1) v by simp
qed

lemma length_unpack_bits [simp]: "length (unpack_bits bs) = 8 * length bs"
  by (simp add: unpack_bits_def)

lemma unpack_pack: "\<exists>k. unpack_bits (pack_bits bs) = bs @ replicate k False \<and> length bs + k = 8 * ((length bs + 7) div 8)"
proof -
  have p: "length (pack_bits bs) = (length bs + 7) div 8"
    "\<forall>q < 8 * length (pack_bits bs). bit (pack_bits bs ! (q div 8)) (q mod 8) \<longleftrightarrow> q < length bs \<and> bs ! q"
    using pack_bits_fold [of "length bs" bs "pack_bits bs"] by (simp_all add: pack_bits_def)
  let ?k = "8 * ((length bs + 7) div 8) - length bs"
  have l: "length bs + ?k = 8 * ((length bs + 7) div 8)" by simp
  have b: "x AND 2 ^ n \<noteq> 0 \<longleftrightarrow> bit x n" for x :: byte and n
    by (simp add: and_exp_eq_0_iff_not_bit)
  have "unpack_bits (pack_bits bs) = bs @ replicate ?k False"
  proof (rule nth_equalityI)
    show "length (unpack_bits (pack_bits bs)) = length (bs @ replicate ?k False)" using p(1) l by simp
    fix q assume "q < length (unpack_bits (pack_bits bs))"
    then have q: "q < 8 * length (pack_bits bs)" by simp
    then have "unpack_bits (pack_bits bs) ! q \<longleftrightarrow> bit (pack_bits bs ! (q div 8)) (q mod 8)"
      by (simp add: unpack_bits_def b mult.commute)
    then show "unpack_bits (pack_bits bs) ! q = (bs @ replicate ?k False) ! q"
      using p q l by (auto simp: nth_append)
  qed
  then show ?thesis using l by blast
qed

section \<open>What a partial tree proves\<close>

text \<open>The pairs that \<open>TraverseAndExtract\<close> hashes.\<close>

fun extract_pairs :: "pair_hash \<Rightarrow> nat \<Rightarrow> bool list \<Rightarrow> uint256 list \<Rightarrow> nat \<Rightarrow> nat \<Rightarrow> extract_state \<Rightarrow> (uint256 \<times> uint256) set" where
  "extract_pairs H n vBits vHash 0 pos s = {}"
| "extract_pairs H n vBits vHash (Suc height) pos s =
     (if ex_nBitsUsed s \<ge> length vBits \<or> \<not> vBits ! ex_nBitsUsed s then {}
      else
        let s1 = s\<lparr>ex_nBitsUsed := ex_nBitsUsed s + 1\<rparr>;
            (left, s2) = TraverseAndExtract H n vBits vHash height (pos * 2) s1;
            P = extract_pairs H n vBits vHash height (pos * 2) s1
        in if pos * 2 + 1 < CalcTreeWidth n height
           then insert (left, fst (TraverseAndExtract H n vBits vHash height (pos * 2 + 1) s2))
                  (P \<union> extract_pairs H n vBits vHash height (pos * 2 + 1) s2)
           else insert (left, left) P)"

lemma take_hash_bad: "take_hash vHash b s = (h, s') \<Longrightarrow> ex_fBad s \<Longrightarrow> ex_fBad s'"
  by (auto simp: take_hash_def Let_def split: if_splits)

lemma TraverseAndExtract_bad: "TraverseAndExtract H n vBits vHash h pos s = (x, s') \<Longrightarrow> ex_fBad s \<Longrightarrow> ex_fBad s'"
proof (induction h arbitrary: pos s x s')
  case (Suc h)
  then show ?case by (fastforce simp: Let_def split: if_splits prod.splits dest: take_hash_bad)
qed (auto split: if_splits dest: take_hash_bad)

lemma hashed_levels:
  "1 < width (length xs) l \<Longrightarrow> \<forall>k < l. 1 < width (length xs) k \<Longrightarrow> set (pairs_of ((level H ^^ l) xs)) \<subseteq> hashed H xs"
proof (induction l arbitrary: xs)
  case (Suc l)
  have l: "1 < length xs" using Suc.prems(2) by (auto dest: spec [of _ 0])
  have "set (pairs_of ((level H ^^ l) (level H xs))) \<subseteq> hashed H (level H xs)"
    using Suc.IH [of "level H xs"] Suc.prems unfolding width_level by simp
  then show ?case by (simp only: level_funpow hashed_long [OF l]) blast
qed (simp add: hashed_long)

lemma nth_pairs_of: "k < (length xs + 1) div 2 \<Longrightarrow> (xs ! (2 * k), xs ! min (2 * k + 1) (length xs - 1)) \<in> set (pairs_of xs)"
proof (induction xs arbitrary: k rule: pairs_of.induct)
  case (3 a b xs)
  show ?case
  proof (cases k)
    case (Suc k')
    have "xs \<noteq> []" using 3(2) Suc by auto
    then have "min (2 * k + 1) (length (a # b # xs) - 1) = Suc (Suc (min (2 * k' + 1) (length xs - 1)))"
      using Suc by (auto simp: min_def)
    then show ?thesis using 3 Suc by simp
  qed simp
qed auto

lemma node_pair_hashed:
  assumes "pos < width (length xs) (Suc h)" and "\<forall>k \<le> h. 1 < width (length xs) k"
  shows "(node H xs h (pos * 2), if pos * 2 + 1 < width (length xs) h then node H xs h (pos * 2 + 1) else node H xs h (pos * 2)) \<in> hashed H xs"
proof -
  let ?w = "width (length xs) h"
  have "pos < (length ((level H ^^ h) xs) + 1) div 2" using assms(1) by (simp add: width_Suc)
  then have "(node H xs h (2 * pos), node H xs h (min (2 * pos + 1) (?w - 1))) \<in> set (pairs_of ((level H ^^ h) xs))"
    using nth_pairs_of [of pos "(level H ^^ h) xs"] by (simp add: node_def)
  moreover have "set (pairs_of ((level H ^^ h) xs)) \<subseteq> hashed H xs" using hashed_levels assms(2) by simp
  moreover have "min (2 * pos + 1) (?w - 1) = (if pos * 2 + 1 < ?w then pos * 2 + 1 else pos * 2)"
    using node_children(1) [OF assms(1)] by auto
  ultimately show ?thesis by (auto simp: mult.commute split: if_splits)
qed

lemma TraverseAndExtract_sound:
  assumes "0 < length xs" and "length xs \<le> 2 ^ 31"
  shows "h \<le> 31 \<Longrightarrow> pos < width (length xs) h \<Longrightarrow> \<forall>k < h. 1 < width (length xs) k \<Longrightarrow>
    TraverseAndExtract H (length xs) vBits vHash h pos s = (node H xs h pos, s') \<Longrightarrow> \<not> ex_fBad s' \<Longrightarrow>
    no_collision H (hashed H xs \<union> extract_pairs H (length xs) vBits vHash h pos s) \<Longrightarrow>
    \<exists>ms. ex_vMatch s' = ex_vMatch s @ ms \<and> subseq ms (map ((!) xs) (leaves_below (length xs) h pos))"
proof (induction h arbitrary: pos s s')
  case 0
  then show ?case by (auto simp: leaves_below_0 take_hash_def Let_def split: if_splits)
next
  case (Suc h)
  let ?n = "length xs"
  let ?T = "\<lambda>p s. TraverseAndExtract H ?n vBits vHash h p s" and ?E = "\<lambda>p s. extract_pairs H ?n vBits vHash h p s"
  have w: "CalcTreeWidth ?n h = width ?n h" using CalcTreeWidth_width assms Suc.prems(1) by simp
  have h: "h \<le> 31" "\<forall>k < h. 1 < width ?n k" using Suc.prems(1,3) by simp_all
  note c = node_children [OF Suc.prems(2)]
  have used: "\<not> length vBits \<le> ex_nBitsUsed s" using Suc.prems(4,5) by (auto split: if_splits)
  show ?case
  proof (cases "vBits ! ex_nBitsUsed s")
    case False
    then show ?thesis using Suc.prems(4) used by (auto simp: take_hash_def Let_def split: if_splits)
  next
    case True
    define s1 where "s1 = s\<lparr>ex_nBitsUsed := ex_nBitsUsed s + 1\<rparr>"
    obtain l s2 where l: "?T (pos * 2) s1 = (l, s2)" by (cases "?T (pos * 2) s1")
    define rs where "rs = (if pos * 2 + 1 < width ?n h then ?T (pos * 2 + 1) s2 else (l, s2))"
    obtain r where r: "rs = (r, s')" "H l r = node H xs (Suc h) pos"
      using Suc.prems(4) True used l unfolding rs_def by (cases rs) (auto simp: Let_def s1_def w rs_def split: prod.splits)
    have E: "extract_pairs H ?n vBits vHash (Suc h) pos s =
        insert (l, r) (?E (pos * 2) s1 \<union> (if pos * 2 + 1 < width ?n h then ?E (pos * 2 + 1) s2 else {}))"
    proof -
      have n: "(length vBits \<le> ex_nBitsUsed s \<or> \<not> vBits ! ex_nBitsUsed s) = False" using True used by simp
      show ?thesis
        unfolding extract_pairs.simps n if_False Let_def s1_def [symmetric] l split_conv w
        using r(1) unfolding rs_def by (cases "pos * 2 + 1 < width ?n h") (auto simp only: if_True if_False fst_conv Pair_inject Un_empty_right)
    qed
    let ?r = "if pos * 2 + 1 < width ?n h then node H xs h (pos * 2 + 1) else node H xs h (pos * 2)"
    have "(node H xs h (pos * 2), ?r) \<in> hashed H xs" by (rule node_pair_hashed [OF Suc.prems(2)]) (use Suc.prems(3) in auto)
    then have lr: "l = node H xs h (pos * 2)" "r = ?r"
      using no_collisionD [OF Suc.prems(6), of l r "node H xs h (pos * 2)" ?r] E r(2) c(2) by auto
    have nc: "no_collision H (hashed H xs \<union> ?E (pos * 2) s1)"
      "pos * 2 + 1 < width ?n h \<Longrightarrow> no_collision H (hashed H xs \<union> ?E (pos * 2 + 1) s2)"
      by (rule no_collision_mono [OF Suc.prems(6)], unfold E, auto)+
    show ?thesis
    proof (cases "pos * 2 + 1 < width ?n h")
      case right: True
      have r2: "?T (pos * 2 + 1) s2 = (node H xs h (pos * 2 + 1), s')" using r(1) lr(2) right by (simp add: rs_def)
      have b2: "\<not> ex_fBad s2" using TraverseAndExtract_bad [OF r2] Suc.prems(5) by blast
      obtain ms1 where 1: "ex_vMatch s2 = ex_vMatch s1 @ ms1" "subseq ms1 (map ((!) xs) (leaves_below ?n h (pos * 2)))"
        using Suc.IH [OF h(1) c(1) h(2) l [unfolded lr(1)] b2 nc(1)] by blast
      obtain ms2 where 2: "ex_vMatch s' = ex_vMatch s2 @ ms2" "subseq ms2 (map ((!) xs) (leaves_below ?n h (pos * 2 + 1)))"
        using Suc.IH [OF h(1) right h(2) r2 Suc.prems(5) nc(2) [OF right]] by blast
      have "ex_vMatch s' = ex_vMatch s @ (ms1 @ ms2)" using 1(1) 2(1) by (simp add: s1_def)
      moreover have "subseq (ms1 @ ms2) (map ((!) xs) (leaves_below ?n (Suc h) pos))"
        using list_emb_append_mono [OF 1(2) 2(2)] right by (simp add: leaves_below_Suc [OF assms(1)])
      ultimately show ?thesis by blast
    next
      case False
      then have s2: "s2 = s'" using r(1) by (simp add: rs_def)
      obtain ms where 1: "ex_vMatch s2 = ex_vMatch s1 @ ms" "subseq ms (map ((!) xs) (leaves_below ?n h (pos * 2)))"
        using Suc.IH [OF h(1) c(1) h(2) l [unfolded lr(1) s2] Suc.prems(5) nc(1)] s2 by blast
      then show ?thesis using False s2 by (auto simp: leaves_below_Suc [OF assms(1)] s1_def)
    qed
  qed
qed

section \<open>Properties\<close>

text \<open>C16: The partial tree that is built for a block and a selection of its transactions, sent and read back from the wire, yields the
  Merkle root of the block and exactly the selected transactions in their order.\<close>

theorem PartialMerkleTree_roundtrip:
  assumes "0 < length xs" and "length xs \<le> MAX_BLOCK_SIZE div 60"
  shows "ExtractMatches H (CPartialMerkleTree_of H xs m) = (fst (BuildMerkleTree H xs), map ((!) xs) (filter ((!) m) [0..<length xs])) \<and>
    (length (pmt_vBits (CPartialMerkleTree_of H xs m)) \<le> 8 * MAX_SIZE \<longrightarrow>
     (\<exists>t. unser_CPartialMerkleTree (ser_CPartialMerkleTree (CPartialMerkleTree_of H xs m) @ rest) = Inr (t, rest) \<and>
        ExtractMatches H t = (fst (BuildMerkleTree H xs), map ((!) xs) (filter ((!) m) [0..<length xs]))))"
proof (intro conjI impI)
  let ?t = "CPartialMerkleTree_of H xs m"
  note b = ExtractMatches_built [OF assms refl, of H m]
  show "ExtractMatches H ?t = (fst (BuildMerkleTree H xs), map ((!) xs) (filter ((!) m) [0..<length xs]))"
    using b [of "[]"] by (simp add: BuildMerkleTree_reference)
  assume len: "length (pmt_vBits ?t) \<le> 8 * MAX_SIZE"
  obtain k where k: "unpack_bits (pack_bits (pmt_vBits ?t)) = pmt_vBits ?t @ replicate k False"
    "length (pmt_vBits ?t) + k = 8 * ((length (pmt_vBits ?t) + 7) div 8)"
    using unpack_pack by blast
  have f: "pmt_nTransactions ?t = length xs" "\<not> pmt_fBad ?t" "pmt_vHash ?t = sub_hashes H (tree_height (length xs) 0) 0 xs m"
    unfolding CPartialMerkleTree_of_def sub_hashes_def by (simp_all add: Let_def split: prod.split)
  have n: "length xs \<le> 2 ^ 31" using assms(2) by (simp add: MAX_BLOCK_SIZE_def)
  have h: "top_level (length xs) (tree_height (length xs) 0)" "tree_height (length xs) 0 \<le> 31"
    using tree_height_correct [OF assms(1) n, of 0] by simp_all
  have w: "width (length xs) (tree_height (length xs) 0) = 1" using h(1) by (simp add: top_level_def)
  have hs: "length (pmt_vHash ?t) \<le> MAX_SIZE"
    using sub_lengths [OF assms(1) n h(2), of 0 H m] assms(2) w
    by (simp add: f leaves_below_top [OF w assms(1)] MAX_SIZE_def MAX_BLOCK_SIZE_def)
  have pb: "length (pack_bits (pmt_vBits ?t)) \<le> MAX_SIZE"
  proof -
    have "8 * length (pack_bits (pmt_vBits ?t)) = length (pmt_vBits ?t) + k" using k by (metis length_append length_replicate length_unpack_bits)
    then show ?thesis using k(2) len by linarith
  qed
  have "unser_CPartialMerkleTree (ser_CPartialMerkleTree ?t @ rest) = Inr (?t\<lparr>pmt_vBits := pmt_vBits ?t @ replicate k False\<rparr>, rest)"
    using n hs pb f(1,2) by (simp add: unser_CPartialMerkleTree_def ser_CPartialMerkleTree_def u32.bind_unser hashvec.bind_unser vch.bind_unser
      vector_ok_def k(1))
  moreover have "(length (pmt_vBits ?t) + 7) div 8 = (length (pmt_vBits ?t @ replicate k False) + 7) div 8"
    using k(2) by simp
  ultimately show "\<exists>t. unser_CPartialMerkleTree (ser_CPartialMerkleTree ?t @ rest) = Inr (t, rest) \<and>
        ExtractMatches H t = (fst (BuildMerkleTree H xs), map ((!) xs) (filter ((!) m) [0..<length xs]))"
    using b [of "replicate k False"] by (auto simp: BuildMerkleTree_reference)
qed

lemma PartialMerkleTree_roundtrip_witness:
  "ExtractMatches (\<lambda>a b. 1000 * a + b) (CPartialMerkleTree_of (\<lambda>a b. 1000 * a + b) [1, 2, 3] [False, False, True]) =
     (fst (BuildMerkleTree (\<lambda>a b. 1000 * a + b) [1, 2, 3]), [3])"
proof -
  have "[0..<length [1, 2, 3 :: uint256]] = [0, 1, 2]" by (simp add: upt_rec)
  then show ?thesis
    using PartialMerkleTree_roundtrip [of "[1, 2, 3]" "\<lambda>a b. 1000 * a + b" "[False, False, True]" "[]"]
    by (simp add: MAX_BLOCK_SIZE_def)
qed

text \<open>C31: A partial tree proves inclusion.  Whatever bits and hashes a peer sends for the number of transactions of a block: if \<open>ExtractMatches\<close>
  yields the Merkle root of the block, and it is not the null hash that stands for failure, then the matches are transactions of the block, in their
  order and each at most once, unless two pairs hashed in the tree or during the extraction collide.\<close>

theorem PartialMerkleTree_sound:
  assumes "ExtractMatches H t = (fst (BuildMerkleTree H xs), ms)" and "fst (BuildMerkleTree H xs) \<noteq> 0"
    and "pmt_nTransactions t = length xs"
    and "no_collision H (hashed H xs \<union> extract_pairs H (length xs) (pmt_vBits t) (pmt_vHash t) (tree_height (length xs) 0) 0
       \<lparr>ex_fBad = pmt_fBad t, ex_nBitsUsed = 0, ex_nHashUsed = 0, ex_vMatch = []\<rparr>)"
  shows "subseq ms xs"
proof -
  let ?h = "tree_height (length xs) 0" and ?s = "\<lparr>ex_fBad = pmt_fBad t, ex_nBitsUsed = 0, ex_nHashUsed = 0, ex_vMatch = []\<rparr>"
  obtain r s' where e: "TraverseAndExtract H (length xs) (pmt_vBits t) (pmt_vHash t) ?h 0 ?s = (r, s')" by (rule prod.exhaust)
  have x: "0 < length xs" "length xs \<le> MAX_BLOCK_SIZE div 60" "\<not> ex_fBad s'" "r = merkle_root H xs" "ms = ex_vMatch s'"
    using assms(1-3) e by (auto simp: ExtractMatches_def Let_def BuildMerkleTree_reference split: if_splits)
  have n: "length xs \<le> 2 ^ 31" using x(2) by (simp add: MAX_BLOCK_SIZE_def)
  have h: "top_level (length xs) ?h" "?h \<le> 31" using tree_height_correct [OF x(1) n, of 0] by simp_all
  have w: "width (length xs) ?h = 1" "\<forall>k < ?h. 1 < width (length xs) k" using h(1) by (simp_all add: top_level_def)
  have r: "r = node H xs ?h 0" using top_level_root [OF h(1), of H] x(4) by simp
  obtain ms' where "ex_vMatch s' = ex_vMatch ?s @ ms'" "subseq ms' (map ((!) xs) (leaves_below (length xs) ?h 0))"
    using TraverseAndExtract_sound [OF x(1) n h(2) _ w(2) e [unfolded r] x(3) assms(4)] w(1) by auto
  then show ?thesis using x(5) leaves_below_top [OF w(1) x(1)] by (simp add: map_nth)
qed

lemma PartialMerkleTree_sound_witness: "subseq [3] [1, 2, 3 :: uint256]"
proof -
  let ?H = "\<lambda>a b. 1000 * a + b :: uint256"
  let ?t = "\<lparr>pmt_nTransactions = 3, pmt_vBits = [True, False, True, True], pmt_vHash = [1002, 3], pmt_fBad = False\<rparr>"
  have h: "tree_height 3 0 = Suc (Suc 0)" by (simp add: tree_height.simps CalcTreeWidth_def)
  have w: "CalcTreeWidth 3 0 = 3" "CalcTreeWidth 3 (Suc 0) = 2" by (simp_all add: CalcTreeWidth_def)
  have b: "fst (BuildMerkleTree ?H [1, 2, 3]) = 1005003" by (simp add: BuildMerkleTree_reference merkle_root.simps)
  have e: "ExtractMatches ?H ?t = (1005003, [3])"
    by (simp add: ExtractMatches_def h MAX_BLOCK_SIZE_def w take_hash_def)
  have p: "extract_pairs ?H 3 [True, False, True, True] [1002, 3] (Suc (Suc 0)) 0 \<lparr>ex_fBad = False, ex_nBitsUsed = 0, ex_nHashUsed = 0, ex_vMatch = []\<rparr> =
      {(1002, 3003), (3, 3)}"
    by (simp add: w take_hash_def)
  have "no_collision ?H (hashed ?H [1, 2, 3] \<union> {(1002, 3003), (3, 3)})" by (auto simp: sample_hashed no_collision_def)
  then show ?thesis using PartialMerkleTree_sound [of ?H ?t "[1, 2, 3]" "[3]"] b e p by (simp add: h)
qed

end
