(* ===== verification/Solver.thy ===== *)
theory Solver
  imports InterpreterFacts SigHash
begin

text \<open>
  Script templates (src/src/script/standard.h, src/src/script/standard.cpp): \<open>Solver\<close> classifies an output script, \<open>ExtractDestination\<close> and
  \<open>GetScriptForDestination\<close> translate between scripts and addresses.  Hashes and keys are byte strings.  The table of templates is scanned in the order
  of its keys.
\<close>

datatype txnouttype = TX_NONSTANDARD | TX_PUBKEY | TX_PUBKEYHASH | TX_SCRIPTHASH | TX_MULTISIG | TX_NULL_DATA | TX_ZEROCOINMINT
  | TX_WITNESS_V0_SCRIPTHASH | TX_WITNESS_V0_KEYHASH | TX_WITNESS_UNKNOWN

datatype CTxDestination = CNoDestination | CKeyID bytes | CScriptID bytes | WitnessV0ScriptHash bytes | WitnessV0KeyHash bytes
  | WitnessUnknown nat bytes

definition GetTxnOutputType :: "txnouttype \<Rightarrow> string" where
  "GetTxnOutputType t =
     (case t of
        TX_NONSTANDARD \<Rightarrow> ''nonstandard''
      | TX_PUBKEY \<Rightarrow> ''pubkey''
      | TX_PUBKEYHASH \<Rightarrow> ''pubkeyhash''
      | TX_SCRIPTHASH \<Rightarrow> ''scripthash''
      | TX_MULTISIG \<Rightarrow> ''multisig''
      | TX_NULL_DATA \<Rightarrow> ''nulldata''
      | TX_ZEROCOINMINT \<Rightarrow> ''zerocoinmint''
      | TX_WITNESS_V0_KEYHASH \<Rightarrow> ''witness_v0_keyhash''
      | TX_WITNESS_V0_SCRIPTHASH \<Rightarrow> ''witness_v0_scripthash''
      | TX_WITNESS_UNKNOWN \<Rightarrow> ''witness_unknown'')"

section \<open>Matching a template\<close>

definition mTemplates :: "(txnouttype \<times> bytes) list" where
  "mTemplates =
     [(TX_PUBKEY, push_opcode (push_opcode [] OP_PUBKEY) OP_CHECKSIG),
      (TX_PUBKEYHASH, foldl push_opcode [] [OP_DUP, OP_HASH160, OP_PUBKEYHASH, OP_EQUALVERIFY, OP_CHECKSIG]),
      (TX_MULTISIG, foldl push_opcode [] [OP_SMALLINTEGER, OP_PUBKEYS, OP_SMALLINTEGER, OP_CHECKMULTISIG])]"

text \<open>The loop over the keys of \<open>OP_PUBKEYS\<close>, from the instruction that has been read.\<close>

function take_pubkeys :: "nat \<Rightarrow> bytes \<Rightarrow> bytes \<Rightarrow> bytes list \<Rightarrow> nat \<times> bytes \<times> bytes \<times> bytes list" where
  "take_pubkeys opcode1 vch1 pc1 vSolutions =
     (if 33 \<le> length vch1 \<and> length vch1 \<le> 65 then
        (case GetOp2 pc1 of (ok, opcode, vch, pc') \<Rightarrow>
           if \<not> ok then (opcode, vch, pc', vSolutions @ [vch1])
           else take_pubkeys opcode vch pc' (vSolutions @ [vch1]))
      else (opcode1, vch1, pc1, vSolutions))"
  by pat_completeness auto
termination
  by (relation "measure (\<lambda>(op, v, pc, s). length pc)") (auto dest: GetOp2_measure)

text \<open>One instruction of the template against one of the script.\<close>

definition match_op :: "nat \<Rightarrow> nat \<Rightarrow> bytes \<Rightarrow> bytes \<Rightarrow> bytes list \<Rightarrow> bytes list option" where
  "match_op opcode2 opcode1 vch1 vch2 vSolutions =
     (if opcode2 = OP_PUBKEY then
        (if length vch1 < 33 \<or> length vch1 > 65 then None else Some (vSolutions @ [vch1]))
      else if opcode2 = OP_PUBKEYHASH then
        (if length vch1 \<noteq> 20 then None else Some (vSolutions @ [vch1]))
      else if opcode2 = OP_SMALLINTEGER then
        (if opcode1 = OP_0 \<or> (OP_1 \<le> opcode1 \<and> opcode1 \<le> OP_16)
         then Some (vSolutions @ [[of_nat (the (DecodeOP_N opcode1))]]) else None)
      else if opcode1 \<noteq> opcode2 \<or> vch1 \<noteq> vch2 then None
      else Some vSolutions)"

function match_template :: "bytes \<Rightarrow> bytes \<Rightarrow> bytes list \<Rightarrow> bytes list option" where
  "match_template pc1 pc2 vSolutions =
     (if pc1 = [] \<and> pc2 = [] then Some vSolutions
      else
        case GetOp2 pc1 of (ok1, opcode1, vch1, pc1') \<Rightarrow>
        if \<not> ok1 then None
        else
          case GetOp2 pc2 of (ok2, opcode2, vch2, pc2') \<Rightarrow>
          if \<not> ok2 then None
          else if opcode2 = OP_PUBKEYS then
            (case take_pubkeys opcode1 vch1 pc1' vSolutions of (opcode1', vch1', pc1'', vS) \<Rightarrow>
               case GetOp2 pc2' of (ok, opcode2', vch2', pc2'') \<Rightarrow>
               if \<not> ok then None
               else (case match_op opcode2' opcode1' vch1' vch2' vS of
                       None \<Rightarrow> None
                     | Some vS' \<Rightarrow> match_template pc1'' pc2'' vS'))
          else (case match_op opcode2 opcode1 vch1 vch2 vSolutions of
                  None \<Rightarrow> None
                | Some vS \<Rightarrow> match_template pc1' pc2' vS))"
  by pat_completeness auto
termination
  by (relation "measure (\<lambda>(pc1, pc2, s). length pc2)") (auto dest!: GetOp2_ok_consumes [OF sym] intro: less_trans)

declare take_pubkeys.simps [simp del] match_template.simps [simp del]

fun scan_templates :: "bytes \<Rightarrow> (txnouttype \<times> bytes) list \<Rightarrow> bool \<times> txnouttype \<times> bytes list" where
  "scan_templates s [] = (False, TX_NONSTANDARD, [])"
| "scan_templates s ((typ, script2) # ts) =
     (case match_template s script2 [] of
        None \<Rightarrow> scan_templates s ts
      | Some vSolutions \<Rightarrow>
          if typ = TX_MULTISIG then
            (let m = unat (hd (hd vSolutions)); n = unat (hd (last vSolutions))
             in (\<not> (m < 1 \<or> n < 1 \<or> m > n \<or> length vSolutions - 2 \<noteq> n), typ, vSolutions))
          else (True, typ, vSolutions))"

text \<open>Whether the script is recognised, its type, and the solutions.  The type of a failing call is what the reference
  parameter holds; \<open>typ0\<close> is its value before the call.\<close>

definition Solver :: "txnouttype \<Rightarrow> bytes \<Rightarrow> bool \<times> txnouttype \<times> bytes list" where
  "Solver typ0 spk =
     (if IsPayToScriptHash spk then (True, TX_SCRIPTHASH, [take 20 (drop 2 spk)])
      else if IsZerocoinMint spk then
        (if length spk > 150 then (False, TX_ZEROCOINMINT, []) else (True, TX_ZEROCOINMINT, [drop 2 spk]))
      else
        case IsWitnessProgram spk of
          Some (witnessversion, witnessprogram) \<Rightarrow>
            if witnessversion = 0 \<and> length witnessprogram = 20 then (True, TX_WITNESS_V0_KEYHASH, [witnessprogram])
            else if witnessversion = 0 \<and> length witnessprogram = 32 then (True, TX_WITNESS_V0_SCRIPTHASH, [witnessprogram])
            else if witnessversion \<noteq> 0 then (True, TX_WITNESS_UNKNOWN, [[of_nat witnessversion], witnessprogram])
            else (False, typ0, [])
        | None \<Rightarrow>
            if length spk \<ge> 1 \<and> unat (spk ! 0) = OP_RETURN \<and> IsPushOnly (drop 1 spk)
            then (True, TX_NULL_DATA, [])
            else scan_templates spk mTemplates)"

section \<open>Destinations\<close>

definition CPubKey_GetID :: "hashes \<Rightarrow> bytes \<Rightarrow> bytes" where
  "CPubKey_GetID hs pubkey = CHash160 hs (take (CPubKey_size pubkey) pubkey)"

definition ExtractDestination :: "hashes \<Rightarrow> bytes \<Rightarrow> CTxDestination option" where
  "ExtractDestination hs spk =
     (case Solver TX_NONSTANDARD spk of (ok, whichType, vSolutions) \<Rightarrow>
        if \<not> ok then None
        else if whichType = TX_PUBKEY then
          (let pubKey = CPubKey_Set (vSolutions ! 0)
           in if \<not> CPubKey_IsValid pubKey then None else Some (CKeyID (CPubKey_GetID hs pubKey)))
        else if whichType = TX_PUBKEYHASH then Some (CKeyID (vSolutions ! 0))
        else if whichType = TX_SCRIPTHASH then Some (CScriptID (vSolutions ! 0))
        else if whichType = TX_WITNESS_V0_KEYHASH then Some (WitnessV0KeyHash (vSolutions ! 0))
        else if whichType = TX_WITNESS_V0_SCRIPTHASH then Some (WitnessV0ScriptHash (vSolutions ! 0))
        else if whichType = TX_WITNESS_UNKNOWN then Some (WitnessUnknown (unat (vSolutions ! 0 ! 0)) (vSolutions ! 1))
        else None)"

text \<open>The type, the addresses and the number of signatures required.\<close>

definition ExtractDestinations :: "hashes \<Rightarrow> bytes \<Rightarrow> (txnouttype \<times> CTxDestination list \<times> nat) option" where
  "ExtractDestinations hs spk =
     (case Solver TX_NONSTANDARD spk of (ok, typ, vSolutions) \<Rightarrow>
        if \<not> ok then None
        else if typ = TX_NULL_DATA then None
        else if typ = TX_MULTISIG then
          (let nRequired = unat (hd (hd vSolutions));
               keys = filter CPubKey_IsValid (map CPubKey_Set (butlast (tl vSolutions)))
           in if keys = [] then None else Some (typ, map (\<lambda>k. CKeyID (CPubKey_GetID hs k)) keys, nRequired))
        else map_option (\<lambda>address. (typ, [address], 1)) (ExtractDestination hs spk))"

text \<open>\<open>CScriptVisitor\<close>; \<open>None\<close> is the failing assertion of \<open>EncodeOP_N\<close>.\<close>

definition GetScriptForDestination :: "CTxDestination \<Rightarrow> bytes option" where
  "GetScriptForDestination dest =
     (case dest of
        CNoDestination \<Rightarrow> Some []
      | CKeyID keyID \<Rightarrow> Some (CScriptVisitor_keyID keyID)
      | CScriptID scriptID \<Rightarrow> Some (push_opcode (push_data (push_opcode [] OP_HASH160) scriptID) OP_EQUAL)
      | WitnessV0KeyHash h \<Rightarrow> Some (push_data (push_opcode [] OP_0) h)
      | WitnessV0ScriptHash h \<Rightarrow> Some (push_data (push_opcode [] OP_0) h)
      | WitnessUnknown version prog \<Rightarrow>
          map_option (\<lambda>opcode. push_data (push_opcode [] opcode) prog) (EncodeOP_N (int version)))"

definition GetScriptForMultisig :: "nat \<Rightarrow> bytes list \<Rightarrow> bytes option" where
  "GetScriptForMultisig nRequired keys =
     (case EncodeOP_N (int nRequired) of
        None \<Rightarrow> None
      | Some op_m \<Rightarrow>
          map_option (\<lambda>op_n. push_opcode (push_opcode (foldl push_data (push_opcode [] op_m) keys) op_n) OP_CHECKMULTISIG)
            (EncodeOP_N (int (length keys))))"

definition GetScriptForWitness :: "hashes \<Rightarrow> bytes \<Rightarrow> bytes option" where
  "GetScriptForWitness hs redeemscript =
     (case Solver TX_NONSTANDARD redeemscript of (ok, typ, vSolutions) \<Rightarrow>
        if ok \<and> typ = TX_PUBKEY then GetScriptForDestination (WitnessV0KeyHash (CHash160 hs (vSolutions ! 0)))
        else if ok \<and> typ = TX_PUBKEYHASH then GetScriptForDestination (WitnessV0KeyHash (vSolutions ! 0))
        else GetScriptForDestination (WitnessV0ScriptHash (h_SHA256 hs redeemscript)))"

definition GetScriptForRawPubKey :: "bytes \<Rightarrow> bytes" where
  "GetScriptForRawPubKey pubKey = push_opcode (push_data [] (take (CPubKey_size pubKey) pubKey)) OP_CHECKSIG"

definition IsValidDestination :: "CTxDestination \<Rightarrow> bool" where
  "IsValidDestination dest \<longleftrightarrow> dest \<noteq> CNoDestination"

section \<open>Policy\<close>

definition ScriptSigArgsExpected :: "txnouttype \<Rightarrow> bytes list \<Rightarrow> int" where
  "ScriptSigArgsExpected t vSolutions =
     (if t \<in> {TX_NONSTANDARD, TX_NULL_DATA, TX_ZEROCOINMINT, TX_WITNESS_UNKNOWN} then - 1
      else if t = TX_PUBKEY then 1
      else if t = TX_PUBKEYHASH then 2
      else if t = TX_MULTISIG then
        (if length vSolutions < 1 \<or> length (vSolutions ! 0) < 1 then - 1 else int (unat (vSolutions ! 0 ! 0)) + 1)
      else 1)"

text \<open>The arguments are the option \<open>-datacarrier\<close> and the limit \<open>nMaxDatacarrierBytes\<close>.\<close>

definition IsStandard :: "bool \<Rightarrow> nat \<Rightarrow> bytes \<Rightarrow> bool" where
  "IsStandard datacarrier nMaxDatacarrierBytes spk =
     (case Solver TX_NONSTANDARD spk of (ok, whichType, vSolutions) \<Rightarrow>
        if \<not> ok then False
        else if whichType = TX_MULTISIG \<and>
          (let m = unat (hd (hd vSolutions)); n = unat (hd (last vSolutions)) in n < 1 \<or> n > 3 \<or> m < 1 \<or> m > n) then False
        else if whichType = TX_NULL_DATA \<and> (\<not> datacarrier \<or> length spk > nMaxDatacarrierBytes) then False
        else whichType \<noteq> TX_NONSTANDARD \<and> whichType \<noteq> TX_WITNESS_UNKNOWN)"

section \<open>Matching a template, step by step\<close>

lemma GetOp2_op: "OP_PUSHDATA4 < op \<Longrightarrow> op < 256 \<Longrightarrow> GetOp2 (of_nat op # r) = (True, op, [], r)"
  by (simp add: GetOp2_def unat_of_nat_byte)

definition plain_op :: "nat \<Rightarrow> bool" where
  "plain_op op \<longleftrightarrow> OP_PUSHDATA4 < op \<and> op < 256 \<and> op \<notin> {OP_PUBKEY, OP_PUBKEYHASH, OP_SMALLINTEGER, OP_PUBKEYS}"

lemma match_plain:
  assumes "plain_op op"
  shows "match_template pc1 (of_nat op # r) vS = Some v \<longleftrightarrow> (\<exists>pc1'. GetOp2 pc1 = (True, op, [], pc1') \<and> match_template pc1' r vS = Some v)"
proof -
  have g: "GetOp2 (of_nat op # r) = (True, op, [], r)" using assms GetOp2_op by (simp add: plain_op_def)
  obtain ok o1 v1 pc1' where r: "GetOp2 pc1 = (ok, o1, v1, pc1')" by (rule prod_cases4)
  show ?thesis using assms by (subst match_template.simps) (auto simp: g r match_op_def plain_op_def)
qed

lemma match_key:
  "match_template pc1 (of_nat OP_PUBKEY # r) vS = Some v \<longleftrightarrow>
   (\<exists>op k pc1'. GetOp2 pc1 = (True, op, k, pc1') \<and> 33 \<le> length k \<and> length k \<le> 65 \<and> match_template pc1' r (vS @ [k]) = Some v)"
proof -
  have g: "GetOp2 (of_nat OP_PUBKEY # r) = (True, OP_PUBKEY, [], r)" by (rule GetOp2_op) (simp_all add: opcode_defs)
  have n: "OP_PUBKEY \<noteq> OP_PUBKEYS" by (simp add: opcode_defs)
  obtain ok o1 v1 pc1' where r: "GetOp2 pc1 = (ok, o1, v1, pc1')" by (rule prod_cases4)
  show ?thesis by (subst match_template.simps) (auto simp: g r n match_op_def not_less)
qed

lemma match_hash:
  "match_template pc1 (of_nat OP_PUBKEYHASH # r) vS = Some v \<longleftrightarrow>
   (\<exists>op h pc1'. GetOp2 pc1 = (True, op, h, pc1') \<and> length h = 20 \<and> match_template pc1' r (vS @ [h]) = Some v)"
proof -
  have g: "GetOp2 (of_nat OP_PUBKEYHASH # r) = (True, OP_PUBKEYHASH, [], r)" by (rule GetOp2_op) (simp_all add: opcode_defs)
  have n: "OP_PUBKEYHASH \<noteq> OP_PUBKEYS" "OP_PUBKEYHASH \<noteq> OP_PUBKEY" by (simp_all add: opcode_defs)
  obtain ok o1 v1 pc1' where r: "GetOp2 pc1 = (ok, o1, v1, pc1')" by (rule prod_cases4)
  show ?thesis by (subst match_template.simps) (auto simp: g r n match_op_def)
qed

lemma match_small:
  "match_template pc1 (of_nat OP_SMALLINTEGER # r) vS = Some v \<longleftrightarrow>
   (\<exists>op d pc1'. GetOp2 pc1 = (True, op, d, pc1') \<and> (op = OP_0 \<or> OP_1 \<le> op \<and> op \<le> OP_16) \<and>
      match_template pc1' r (vS @ [[of_nat (the (DecodeOP_N op))]]) = Some v)"
proof -
  have g: "GetOp2 (of_nat OP_SMALLINTEGER # r) = (True, OP_SMALLINTEGER, [], r)" by (rule GetOp2_op) (simp_all add: opcode_defs)
  have n: "OP_SMALLINTEGER \<noteq> OP_PUBKEYS" "OP_SMALLINTEGER \<noteq> OP_PUBKEY" "OP_SMALLINTEGER \<noteq> OP_PUBKEYHASH" by (simp_all add: opcode_defs)
  obtain ok o1 v1 pc1' where r: "GetOp2 pc1 = (ok, o1, v1, pc1')" by (rule prod_cases4)
  show ?thesis by (subst match_template.simps) (auto simp: g r n match_op_def)
qed

lemma match_Nil: "match_template pc1 [] vS = Some v \<longleftrightarrow> pc1 = [] \<and> v = vS"
proof -
  obtain ok o1 v1 pc1' where r: "GetOp2 pc1 = (ok, o1, v1, pc1')" by (rule prod_cases4)
  show ?thesis by (subst match_template.simps) (auto simp: r)
qed

lemma plain_ops [simp]: "plain_op OP_DUP" "plain_op OP_HASH160" "plain_op OP_EQUALVERIFY" "plain_op OP_CHECKSIG" "plain_op OP_CHECKMULTISIG"
  by (simp_all add: plain_op_def opcode_defs)

lemma mTemplates_eq:
  "mTemplates = [(TX_PUBKEY, [of_nat OP_PUBKEY, of_nat OP_CHECKSIG]),
    (TX_PUBKEYHASH, [of_nat OP_DUP, of_nat OP_HASH160, of_nat OP_PUBKEYHASH, of_nat OP_EQUALVERIFY, of_nat OP_CHECKSIG]),
    (TX_MULTISIG, [of_nat OP_SMALLINTEGER, of_nat OP_PUBKEYS, of_nat OP_SMALLINTEGER, of_nat OP_CHECKMULTISIG])]"
  by (simp add: mTemplates_def push_opcode_def)

text \<open>What the first two templates match.\<close>

lemma GetOp2_op_iff:
  assumes "OP_PUSHDATA4 < op"
  shows "GetOp2 s = (True, op, [], r) \<longleftrightarrow> s = of_nat op # r \<and> op < 256"
proof
  assume g: "GetOp2 s = (True, op, [], r)"
  then obtain b s' where s: "s = b # s'" by (cases s) auto
  then have "unat b = op \<and> s' = r" using g assms by (auto simp: GetOp2_def Let_def split: option.splits if_splits)
  then show "s = of_nat op # r \<and> op < 256" using s by auto
qed (use GetOp2_op [OF assms] in auto)

definition key_script :: "bytes \<Rightarrow> bytes \<Rightarrow> bool" where
  "key_script s k \<longleftrightarrow> 33 \<le> length k \<and> length k \<le> 65 \<and> (\<exists>op. GetOp2 s = (True, op, k, [of_nat OP_CHECKSIG]))"

definition keyhash_script :: "bytes \<Rightarrow> bytes \<Rightarrow> bool" where
  "keyhash_script s h \<longleftrightarrow> length h = 20 \<and>
     (\<exists>p op. s = of_nat OP_DUP # of_nat OP_HASH160 # p \<and> GetOp2 p = (True, op, h, [of_nat OP_EQUALVERIFY, of_nat OP_CHECKSIG]))"

lemma match_key_script:
  "match_template s [of_nat OP_PUBKEY, of_nat OP_CHECKSIG] [] = Some v \<longleftrightarrow> (\<exists>k. key_script s k \<and> v = [k])"
proof -
  have o: "OP_PUSHDATA4 < OP_CHECKSIG" "OP_CHECKSIG < 256" by (simp_all add: opcode_defs)
  show ?thesis by (auto simp: match_key match_plain match_Nil GetOp2_op_iff [OF o(1)] o key_script_def)
qed

lemma match_keyhash_script:
  "match_template s [of_nat OP_DUP, of_nat OP_HASH160, of_nat OP_PUBKEYHASH, of_nat OP_EQUALVERIFY, of_nat OP_CHECKSIG] [] = Some v \<longleftrightarrow>
   (\<exists>h. keyhash_script s h \<and> v = [h])"
proof -
  have o: "OP_PUSHDATA4 < OP_CHECKSIG" "OP_PUSHDATA4 < OP_DUP" "OP_PUSHDATA4 < OP_HASH160" "OP_PUSHDATA4 < OP_EQUALVERIFY"
    "OP_CHECKSIG < 256" "OP_DUP < 256" "OP_HASH160 < 256" "OP_EQUALVERIFY < 256" by (simp_all add: opcode_defs)
  show ?thesis
    by (auto simp: match_hash match_plain match_Nil GetOp2_op_iff [OF o(1)] GetOp2_op_iff [OF o(2)] GetOp2_op_iff [OF o(3)]
      GetOp2_op_iff [OF o(4)] o keyhash_script_def)
qed

section \<open>Addresses and scripts\<close>

definition valid_destination :: "CTxDestination \<Rightarrow> bool" where
  "valid_destination d \<longleftrightarrow>
     (case d of
        CNoDestination \<Rightarrow> False
      | CKeyID h \<Rightarrow> length h = 20
      | CScriptID h \<Rightarrow> length h = 20
      | WitnessV0ScriptHash h \<Rightarrow> length h = 32
      | WitnessV0KeyHash h \<Rightarrow> length h = 20
      | WitnessUnknown v p \<Rightarrow> 1 \<le> v \<and> v \<le> 16 \<and> 2 \<le> length p \<and> length p \<le> 40)"

lemma scan_mTemplates:
  assumes "scan_templates s mTemplates = (True, t, vS)"
  shows "t = TX_PUBKEY \<and> (\<exists>k. key_script s k \<and> vS = [k]) \<or> t = TX_PUBKEYHASH \<and> (\<exists>h. keyhash_script s h \<and> vS = [h]) \<or>
    t = TX_MULTISIG"
  using assms unfolding mTemplates_eq
  by (auto simp: match_key_script match_keyhash_script Let_def split: option.splits)

lemma Solver_cases:
  assumes "Solver t0 s = (True, t, vS)"
  shows "t = TX_SCRIPTHASH \<and> IsPayToScriptHash s \<and> vS = [take 20 (drop 2 s)] \<or>
    t = TX_ZEROCOINMINT \<or> t = TX_NULL_DATA \<or> t = TX_MULTISIG \<or>
    (\<exists>v p. IsWitnessProgram s = Some (v, p) \<and> (t = TX_WITNESS_V0_KEYHASH \<and> v = 0 \<and> length p = 20 \<and> vS = [p] \<or>
       t = TX_WITNESS_V0_SCRIPTHASH \<and> v = 0 \<and> length p = 32 \<and> vS = [p] \<or>
       t = TX_WITNESS_UNKNOWN \<and> v \<noteq> 0 \<and> vS = [[of_nat v], p])) \<or>
    t = TX_PUBKEY \<and> (\<exists>k. key_script s k \<and> vS = [k]) \<or> t = TX_PUBKEYHASH \<and> (\<exists>h. keyhash_script s h \<and> vS = [h])"
  using assms scan_mTemplates [of s t vS]
  by (auto simp: Solver_def split: if_splits option.splits)

lemma byte_word_of_unat: "unat (b :: byte) = n \<Longrightarrow> b = of_nat n"
  by auto

lemma IsWitnessProgram_eq:
  assumes "IsWitnessProgram s = Some (v, p)"
  shows "\<exists>op. EncodeOP_N (int v) = Some op \<and> s = push_data (push_opcode [] op) p \<and> v \<le> 16 \<and> 2 \<le> length p \<and> length p \<le> 40"
proof -
  have l: "4 \<le> length s" "length s \<le> 42" "unat (s ! 1) + 2 = length s" "p = drop 2 s" "v = the (DecodeOP_N (unat (s ! 0)))"
    and o: "unat (s ! 0) = OP_0 \<or> OP_1 \<le> unat (s ! 0) \<and> unat (s ! 0) \<le> OP_16"
    using assms by (auto simp: IsWitnessProgram_def split: if_splits)
  obtain a b q where s: "s = a # b # q" using l(1) by (cases s; cases "tl s") auto
  have b: "b = of_nat (length q)" by (rule byte_word_of_unat) (use l(3) s in simp)
  have "unat a = 0 \<and> v = 0 \<or> unat a = 80 + v \<and> 1 \<le> v \<and> v \<le> 16"
    using o l(5) s by (auto simp: DecodeOP_N_def opcode_defs)
  then have "EncodeOP_N (int v) = Some (unat a) \<and> v \<le> 16" by (auto simp: EncodeOP_N_def opcode_defs)
  then show ?thesis using s b l by (auto simp: push_data_def push_opcode_def opcode_defs)
qed

lemma key_script_valid: "key_script s k \<Longrightarrow> CPubKey_IsValid (CPubKey_Set k) \<Longrightarrow> CPubKey_Set k = k \<and> take (CPubKey_size k) k = k"
  by (auto simp: CPubKey_Set_def CPubKey_IsValid_def CPubKey_size_def GetLen_def Let_def split: if_splits)

lemma IsPayToScriptHash_eq:
  assumes "IsPayToScriptHash s"
  shows "s = push_opcode (push_data (push_opcode [] OP_HASH160) (take 20 (drop 2 s))) OP_EQUAL"
proof -
  have l: "length s = 23" "unat (s ! 0) = OP_HASH160" "s ! 1 = 0x14" "unat (s ! 22) = OP_EQUAL"
    using assms by (simp_all add: IsPayToScriptHash_def)
  obtain a b q where s: "s = a # b # q" using l(1) by (cases s; cases "tl s") auto
  have q: "length q = 21" using l(1) s by simp
  have "q = take 20 q @ [q ! 20]" using q take_Suc_conv_app_nth [of 20 q] by simp
  moreover have "a = of_nat OP_HASH160" by (rule byte_word_of_unat) (use l s in simp)
  moreover have "q ! 20 = of_nat OP_EQUAL" by (rule byte_word_of_unat) (use l s in simp)
  moreover have "b = 0x14" using l s by simp
  ultimately show ?thesis using q s by (simp add: push_data_def push_opcode_def opcode_defs)
qed

lemma ExtractDestination_script:
  assumes "ExtractDestination hs s = Some d"
  shows "case d of
       CKeyID h \<Rightarrow> keyhash_script s h \<or> (\<exists>k. key_script s k \<and> CPubKey_IsValid k \<and> h = CHash160 hs k)
     | _ \<Rightarrow> valid_destination d \<and> GetScriptForDestination d = Some s"
proof -
  obtain t vS where S: "Solver TX_NONSTANDARD s = (True, t, vS)"
    using assms by (cases "Solver TX_NONSTANDARD s") (auto simp: ExtractDestination_def split: if_splits)
  from Solver_cases [OF S] show ?thesis
  proof (elim disjE exE conjE)
    assume t: "t = TX_SCRIPTHASH" "IsPayToScriptHash s" "vS = [take 20 (drop 2 s)]"
    moreover have "length s = 23" using t(2) by (simp add: IsPayToScriptHash_def)
    ultimately show ?thesis
      using assms S IsPayToScriptHash_eq [OF t(2)] by (auto simp: ExtractDestination_def valid_destination_def GetScriptForDestination_def)
  next
    fix v p assume w: "IsWitnessProgram s = Some (v, p)" "t = TX_WITNESS_V0_KEYHASH" "v = 0" "length p = 20" "vS = [p]"
    obtain op where "EncodeOP_N (int v) = Some op" "s = push_data (push_opcode [] op) p" using IsWitnessProgram_eq [OF w(1)] by blast
    then show ?thesis using assms S w by (auto simp: ExtractDestination_def valid_destination_def GetScriptForDestination_def EncodeOP_N_def)
  next
    fix v p assume w: "IsWitnessProgram s = Some (v, p)" "t = TX_WITNESS_V0_SCRIPTHASH" "v = 0" "length p = 32" "vS = [p]"
    obtain op where "EncodeOP_N (int v) = Some op" "s = push_data (push_opcode [] op) p" using IsWitnessProgram_eq [OF w(1)] by blast
    then show ?thesis using assms S w by (auto simp: ExtractDestination_def valid_destination_def GetScriptForDestination_def EncodeOP_N_def)
  next
    fix v p assume w: "IsWitnessProgram s = Some (v, p)" "t = TX_WITNESS_UNKNOWN" "v \<noteq> 0" "vS = [[of_nat v], p]"
    obtain op where "EncodeOP_N (int v) = Some op" "s = push_data (push_opcode [] op) p" "v \<le> 16" "2 \<le> length p" "length p \<le> 40"
      using IsWitnessProgram_eq [OF w(1)] by blast
    then show ?thesis using assms S w
      by (auto simp: ExtractDestination_def valid_destination_def GetScriptForDestination_def unat_of_nat_byte)
  next
    fix k assume k: "t = TX_PUBKEY" "key_script s k" "vS = [k]"
    then have v: "CPubKey_IsValid (CPubKey_Set k)" "d = CKeyID (CPubKey_GetID hs (CPubKey_Set k))"
      using assms S by (auto simp: ExtractDestination_def Let_def split: if_splits)
    then show ?thesis using k(2) key_script_valid [OF k(2) v(1)] by (auto simp: CPubKey_GetID_def)
  next
    fix h assume "t = TX_PUBKEYHASH" "keyhash_script s h" "vS = [h]"
    then show ?thesis using assms S by (auto simp: ExtractDestination_def)
  qed (use assms S in \<open>auto simp: ExtractDestination_def\<close>)
qed

lemma GetOp2_data: "0 < length d \<Longrightarrow> length d < 76 \<Longrightarrow> GetOp2 (of_nat (length d) # d @ r) = (True, length d, d, r)"
  by (simp add: GetOp2_def GetOp2_size_def unat_of_nat_byte opcode_defs)

lemma Solver_keyhash:
  assumes "length h = 20"
  shows "Solver t0 (CScriptVisitor_keyID h) = (True, TX_PUBKEYHASH, [h])"
proof -
  let ?s = "0x76 # 0xa9 # 20 # h @ [0x88, 0xac]"
  have g: "GetOp2 (20 # h @ [0x88, 0xac]) = (True, 20, h, [0x88, 0xac])" using GetOp2_data [of h] assms by simp
  have k: "\<not> key_script ?s k" for k
  proof -
    have "GetOp2 (0x76 # r) = (True, 0x76, [], r)" for r by (simp add: GetOp2_def opcode_defs)
    then show ?thesis by (auto simp: key_script_def)
  qed
  have kh: "keyhash_script ?s x \<longleftrightarrow> x = h" for x using g assms by (auto simp: keyhash_script_def opcode_defs)
  have "scan_templates ?s mTemplates = (True, TX_PUBKEYHASH, [h])"
  proof -
    have "match_template ?s [of_nat OP_PUBKEY, of_nat OP_CHECKSIG] [] = None" using match_key_script [of ?s] k by (metis option.exhaust)
    moreover have "match_template ?s [of_nat OP_DUP, of_nat OP_HASH160, of_nat OP_PUBKEYHASH, of_nat OP_EQUALVERIFY, of_nat OP_CHECKSIG] [] = Some [h]"
      using match_keyhash_script [of ?s] kh by blast
    ultimately show ?thesis unfolding mTemplates_eq by simp
  qed
  then show ?thesis
    using assms by (simp add: CScriptVisitor_keyID_eq Solver_def IsPayToScriptHash_def IsZerocoinMint_def IsWitnessProgram_def opcode_defs)
qed

lemma Solver_witness:
  assumes "v \<le> 16" "2 \<le> length p" "length p \<le> 40" "EncodeOP_N (int v) = Some op"
  shows "IsWitnessProgram (push_data (push_opcode [] op) p) = Some (v, p) \<and>
    \<not> IsPayToScriptHash (push_data (push_opcode [] op) p) \<and> \<not> IsZerocoinMint (push_data (push_opcode [] op) p)"
proof -
  have op: "op = OP_0 \<and> v = 0 \<or> op = OP_1 + v - 1 \<and> 1 \<le> v" using assms(4) by (auto simp: EncodeOP_N_def split: if_splits)
  then have o: "op < 256" "op \<noteq> OP_HASH160" "op \<noteq> OP_ZEROCOINMINT" "DecodeOP_N op = Some v" "op = OP_0 \<or> OP_1 \<le> op \<and> op \<le> OP_16"
    using assms(1) by (auto simp: DecodeOP_N_def opcode_defs)
  have s: "push_data (push_opcode [] op) p = of_nat op # of_nat (length p) # p" using assms by (simp add: push_data_def push_opcode_def opcode_defs)
  show ?thesis unfolding s using assms o
    by (auto simp: IsWitnessProgram_def IsPayToScriptHash_def IsZerocoinMint_def unat_of_nat_byte)
qed

lemma GetScript_Extract:
  assumes "valid_destination d"
  shows "\<exists>s. GetScriptForDestination d = Some s \<and> ExtractDestination hs s = Some d"
proof (cases d)
  case (CKeyID h)
  then show ?thesis using assms Solver_keyhash [of h TX_NONSTANDARD] by (simp add: valid_destination_def GetScriptForDestination_def ExtractDestination_def)
next
  case (CScriptID h)
  let ?s = "push_opcode (push_data (push_opcode [] OP_HASH160) h) OP_EQUAL"
  have l: "length h = 20" using assms CScriptID by (simp add: valid_destination_def)
  then have s: "?s = of_nat OP_HASH160 # 20 # h @ [of_nat OP_EQUAL]" by (simp add: push_data_def push_opcode_def opcode_defs)
  have "IsPayToScriptHash ?s" unfolding s using l by (simp add: IsPayToScriptHash_def nth_append opcode_defs)
  moreover have "take 20 (drop 2 ?s) = h" unfolding s using l by simp
  ultimately show ?thesis using CScriptID by (simp add: GetScriptForDestination_def ExtractDestination_def Solver_def)
next
  case (WitnessV0ScriptHash h)
  then have l: "length h = 32" using assms by (simp add: valid_destination_def)
  then show ?thesis using WitnessV0ScriptHash Solver_witness [of 0 h OP_0]
    by (simp add: GetScriptForDestination_def ExtractDestination_def Solver_def EncodeOP_N_def)
next
  case (WitnessV0KeyHash h)
  then have l: "length h = 20" using assms by (simp add: valid_destination_def)
  then show ?thesis using WitnessV0KeyHash Solver_witness [of 0 h OP_0]
    by (simp add: GetScriptForDestination_def ExtractDestination_def Solver_def EncodeOP_N_def)
next
  case (WitnessUnknown v p)
  then have v: "1 \<le> v" "v \<le> 16" "2 \<le> length p" "length p \<le> 40" using assms by (simp_all add: valid_destination_def)
  obtain op where op: "EncodeOP_N (int v) = Some op" using v by (simp add: EncodeOP_N_def)
  then show ?thesis using WitnessUnknown v Solver_witness [OF v(2-4) op]
    by (simp add: GetScriptForDestination_def ExtractDestination_def Solver_def unat_of_nat_byte)
qed (use assms in \<open>simp add: valid_destination_def\<close>)

text \<open>C36: Addresses and output scripts.  For every valid destination the script that pays to it exists and the destination is
  extracted from it again; and a destination is only extracted from a script that pays to it: the script of the destination itself, for a key hash
  up to the encoding of the push, or the script that demands a signature of a key with that hash.\<close>

theorem Destination_roundtrip:
  shows "(valid_destination d \<longrightarrow> (\<exists>s. GetScriptForDestination d = Some s \<and> ExtractDestination hs s = Some d)) \<and>
    (ExtractDestination hs s = Some d \<longrightarrow>
       (case d of
          CKeyID h \<Rightarrow> keyhash_script s h \<or> (\<exists>k. key_script s k \<and> CPubKey_IsValid k \<and> h = CHash160 hs k)
        | _ \<Rightarrow> valid_destination d \<and> GetScriptForDestination d = Some s))"
  using GetScript_Extract ExtractDestination_script by blast

lemma Destination_roundtrip_witness:
  "\<forall>hs. \<exists>s. GetScriptForDestination (WitnessUnknown 2 [7, 8]) = Some s \<and> ExtractDestination hs s = Some (WitnessUnknown 2 [7, 8])"
proof
  fix hs
  show "\<exists>s. GetScriptForDestination (WitnessUnknown 2 [7, 8]) = Some s \<and> ExtractDestination hs s = Some (WitnessUnknown 2 [7, 8])"
    using Destination_roundtrip [of "WitnessUnknown 2 [7, 8]" hs] by (simp add: valid_destination_def)
qed

end
