(* ===== verification/BigInt.thy ===== *)
theory BigInt
  imports Prelude
begin

text \<open>
  The big integers \<open>base_uint\<close> (src/src/uint256.h, src/src/uint256.cpp): arrays of 32-bit limbs, the lowest first, here lists of
  any length.  The loops over the limbs are recursions that thread the 64-bit carry; the shifts update the array by index.  \<open>val\<close> is the number
  that an array stands for; every operation is proved to be the operation on numbers modulo the size of the array.
\<close>

type_synonym limb = "32 word"

fun val :: "limb list \<Rightarrow> nat" where
  "val [] = 0"
| "val (p # ps) = unat p + 2 ^ 32 * val ps"

section \<open>The operations\<close>

text \<open>The constructor and the assignment from a 64-bit integer.\<close>

definition base_uint_of :: "nat \<Rightarrow> 64 word \<Rightarrow> limb list" where
  "base_uint_of WIDTH b = [ucast b, ucast (drop_bit 32 b)] @ replicate (WIDTH - 2) 0"

definition IsNull_uint :: "limb list \<Rightarrow> bool" where
  "IsNull_uint pn \<longleftrightarrow> list_all (\<lambda>p. p = 0) pn"

fun complement_uint :: "limb list \<Rightarrow> limb list" where
  "complement_uint [] = []"
| "complement_uint (p # ps) = NOT p # complement_uint ps"

text \<open>\<open>operator++\<close> and \<open>operator--\<close>.\<close>

fun increment :: "limb list \<Rightarrow> limb list" where
  "increment [] = []"
| "increment (p # ps) = (if p + 1 = 0 \<and> ps \<noteq> [] then (p + 1) # increment ps else (p + 1) # ps)"

fun decrement :: "limb list \<Rightarrow> limb list" where
  "decrement [] = []"
| "decrement (p # ps) = (if p - 1 = - 1 \<and> ps \<noteq> [] then (p - 1) # decrement ps else (p - 1) # ps)"

definition negate :: "limb list \<Rightarrow> limb list" where
  "negate pn = increment (complement_uint pn)"

fun add_loop :: "64 word \<Rightarrow> limb list \<Rightarrow> limb list \<Rightarrow> limb list" where
  "add_loop carry (p # ps) (b # bs) =
     (let n = carry + ucast p + ucast b in ucast n # add_loop (drop_bit 32 n) ps bs)"
| "add_loop carry ps bs = []"

definition add_uint :: "limb list \<Rightarrow> limb list \<Rightarrow> limb list" where
  "add_uint pn b = add_loop 0 pn b"

definition sub_uint :: "limb list \<Rightarrow> limb list \<Rightarrow> limb list" where
  "sub_uint pn b = add_uint pn (negate b)"

text \<open>\<open>operator*=\<close> by a 32-bit integer, and by a big integer: one row for each limb, shifted by the index of the limb.\<close>

fun mul32_loop :: "64 word \<Rightarrow> limb \<Rightarrow> limb list \<Rightarrow> limb list" where
  "mul32_loop carry b32 [] = []"
| "mul32_loop carry b32 (p # ps) =
     (let n = carry + ucast b32 * ucast p in ucast n # mul32_loop (drop_bit 32 n) b32 ps)"

definition mul32_uint :: "limb list \<Rightarrow> limb \<Rightarrow> limb list" where
  "mul32_uint pn b32 = mul32_loop 0 b32 pn"

fun mul_row :: "64 word \<Rightarrow> limb \<Rightarrow> limb list \<Rightarrow> limb list \<Rightarrow> limb list" where
  "mul_row carry a (p # ps) (b # bs) =
     (let n = carry + ucast p + ucast a * ucast b in ucast n # mul_row (drop_bit 32 n) a ps bs)"
| "mul_row carry a ps bs = ps"

fun mul_loop :: "limb list \<Rightarrow> limb list \<Rightarrow> limb list \<Rightarrow> limb list" where
  "mul_loop (a # as) b (p # ps) =
     (case mul_row 0 a (p # ps) b of [] \<Rightarrow> [] | q # qs \<Rightarrow> q # mul_loop as b qs)"
| "mul_loop as b ps = ps"

definition mul_uint :: "limb list \<Rightarrow> limb list \<Rightarrow> limb list" where
  "mul_uint pn b = mul_loop pn b (replicate (length pn) 0)"

text \<open>\<open>CompareTo\<close> starts at the highest limb.\<close>

fun CompareTo_loop :: "limb list \<Rightarrow> limb list \<Rightarrow> int" where
  "CompareTo_loop (p # ps) (b # bs) = (if p < b then - 1 else if p > b then 1 else CompareTo_loop ps bs)"
| "CompareTo_loop ps bs = 0"

definition CompareTo :: "limb list \<Rightarrow> limb list \<Rightarrow> int" where
  "CompareTo pn b = CompareTo_loop (rev pn) (rev b)"

definition EqualTo :: "limb list \<Rightarrow> 64 word \<Rightarrow> bool" where
  "EqualTo pn b \<longleftrightarrow> list_all (\<lambda>p. p = 0) (drop 2 pn) \<and> ucast (pn ! 1) = drop_bit 32 b \<and> ucast (pn ! 0) = b AND 0xffffffff"

definition GetLow64 :: "limb list \<Rightarrow> 64 word" where
  "GetLow64 pn = ucast (pn ! 0) OR push_bit 32 (ucast (pn ! 1))"

text \<open>The position of the highest bit plus one.\<close>

fun highest_bit :: "limb \<Rightarrow> nat \<Rightarrow> nat" where
  "highest_bit p 0 = 1"
| "highest_bit p (Suc b) = (if bit p (Suc b) then Suc (Suc b) else highest_bit p b)"

fun bits_loop :: "limb list \<Rightarrow> nat" where
  "bits_loop [] = 0"
| "bits_loop (p # ps) = (if p \<noteq> 0 then 32 * length ps + highest_bit p 31 else bits_loop ps)"

definition bits :: "limb list \<Rightarrow> nat" where
  "bits pn = bits_loop (rev pn)"

text \<open>The shifts, limb by limb into a cleared array.\<close>

definition shl_step :: "nat \<Rightarrow> nat \<Rightarrow> limb list \<Rightarrow> limb list \<Rightarrow> nat \<Rightarrow> limb list" where
  "shl_step k shift a pn i =
     (let pn1 = (if i + k + 1 < length a \<and> shift \<noteq> 0
                 then pn[i + k + 1 := pn ! (i + k + 1) OR drop_bit (32 - shift) (a ! i)] else pn)
      in if i + k < length a then pn1[i + k := pn1 ! (i + k) OR push_bit shift (a ! i)] else pn1)"

definition shl_uint :: "limb list \<Rightarrow> nat \<Rightarrow> limb list" where
  "shl_uint a shift =
     foldl (shl_step (shift div 32) (shift mod 32) a) (replicate (length a) 0) [0..<length a]"

definition shr_step :: "nat \<Rightarrow> nat \<Rightarrow> limb list \<Rightarrow> limb list \<Rightarrow> nat \<Rightarrow> limb list" where
  "shr_step k shift a pn i =
     (let pn1 = (if int i - int k - 1 \<ge> 0 \<and> shift \<noteq> 0
                 then pn[i - k - 1 := pn ! (i - k - 1) OR push_bit (32 - shift) (a ! i)] else pn)
      in if int i - int k \<ge> 0 then pn1[i - k := pn1 ! (i - k) OR drop_bit shift (a ! i)] else pn1)"

definition shr_uint :: "limb list \<Rightarrow> nat \<Rightarrow> limb list" where
  "shr_uint a shift =
     foldl (shr_step (shift div 32) (shift mod 32) a) (replicate (length a) 0) [0..<length a]"

text \<open>\<open>operator/=\<close>; the argument of the loop is \<open>shift + 1\<close>.  \<open>None\<close> is the exception on a zero divisor.\<close>

fun div_loop :: "nat \<Rightarrow> limb list \<Rightarrow> limb list \<Rightarrow> limb list \<Rightarrow> limb list" where
  "div_loop 0 num d pn = pn"
| "div_loop (Suc shift) num d pn =
     (if CompareTo num d \<ge> 0
      then div_loop shift (sub_uint num d) (shr_uint d 1)
             (pn[shift div 32 := pn ! (shift div 32) OR push_bit (shift mod 32) 1])
      else div_loop shift num (shr_uint d 1) pn)"

definition div_uint :: "limb list \<Rightarrow> limb list \<Rightarrow> limb list option" where
  "div_uint pn b =
     (let num_bits = bits pn; div_bits = bits b; zero = replicate (length pn) 0 in
      if div_bits = 0 then None
      else if div_bits > num_bits then Some zero
      else let shift = num_bits - div_bits in Some (div_loop (shift + 1) pn (shl_uint b shift) zero))"

section \<open>Limbs and numbers\<close>

lemma unat_limb [simp]: "unat (p :: limb) < 2 ^ 32"
  using unsigned_less [of p] by simp

lemma val_bound: "val ps < 2 ^ (32 * length ps)"
proof (induction ps)
  case (Cons p ps)
  have "unat p + 2 ^ 32 * val ps < 2 ^ 32 * (1 + val ps)" using unat_limb [of p] by simp
  also have "\<dots> \<le> 2 ^ 32 * 2 ^ (32 * length ps)" using Cons by (intro mult_le_mono2) simp
  finally show ?case by (simp add: power_add)
qed simp

lemma val_append: "val (ps @ qs) = val ps + 2 ^ (32 * length ps) * val qs"
  by (induction ps) (simp_all add: algebra_simps power_add)

lemma val_zero [simp]: "val (replicate n 0) = 0"
  by (induction n) simp_all

lemma val_inject: "length ps = length qs \<Longrightarrow> val ps = val qs \<longleftrightarrow> ps = qs"
proof (induction ps qs rule: list_induct2)
  case (Cons p ps q qs)
  have "unat p = (unat p + 2 ^ 32 * val ps) mod 2 ^ 32" "unat q = (unat q + 2 ^ 32 * val qs) mod 2 ^ 32"
    using unat_limb [of p] unat_limb [of q] by simp_all
  moreover have "val ps = (unat p + 2 ^ 32 * val ps) div 2 ^ 32" "val qs = (unat q + 2 ^ 32 * val qs) div 2 ^ 32"
    using unat_limb [of p] unat_limb [of q] by simp_all
  ultimately show ?case using Cons.IH by (metis list.inject val.simps(2) word_unat_eq_iff)
qed simp

lemma IsNull_val: "IsNull_uint ps \<longleftrightarrow> val ps = 0"
  by (induction ps) (auto simp: IsNull_uint_def unat_eq_0)

text \<open>Splitting a 64-bit sum.\<close>

lemma unat_word_sum64:
  "unat (x :: 64 word) + unat y < 2 ^ 64 \<Longrightarrow> unat (x + y) = unat x + unat y"
  by (subst unat_add_lem [symmetric]) simp

lemma unat_word_prod64:
  "unat (x :: 64 word) * unat y < 2 ^ 64 \<Longrightarrow> unat (x * y) = unat x * unat y"
  by (subst unat_mult_lem [symmetric]) simp

lemma unat_ucast_limb [simp]: "unat (ucast (p :: limb) :: 64 word) = unat p"
  using unat_limb [of p] by (simp add: unsigned_ucast_eq take_bit_nat_eq_self)

lemma unat_low_limb: "unat (ucast (n :: 64 word) :: limb) = unat n mod 2 ^ 32"
  by (simp add: unsigned_ucast_eq take_bit_eq_mod)

lemma unat_carry: "unat (drop_bit 32 (n :: 64 word)) = unat n div 2 ^ 32"
  unfolding unat_drop_bit_eq by (simp add: drop_bit_eq_div)

lemma mod_split: "x < K \<Longrightarrow> (x + K * y) mod (K * W) = x + K * (y mod W)" for x :: nat
  by (simp add: mod_mult2_eq)

lemma limb_step:
  assumes "unat (n :: 64 word) = x"
  shows "unat (ucast n :: limb) + 2 ^ 32 * ((unat (drop_bit 32 n) + y) mod W) = (x + 2 ^ 32 * y) mod (2 ^ 32 * W)"
proof -
  have "(x + 2 ^ 32 * y) mod (2 ^ 32 * W) = (x mod 2 ^ 32 + 2 ^ 32 * (x div 2 ^ 32 + y)) mod (2 ^ 32 * W)"
    by (simp add: distrib_left flip: add.assoc)
  also have "\<dots> = x mod 2 ^ 32 + 2 ^ 32 * ((x div 2 ^ 32 + y) mod W)" by (rule mod_split) simp
  finally show ?thesis using assms by (simp add: unat_low_limb unat_carry)
qed

section \<open>Addition and multiplication\<close>

lemma add_loop_val:
  "length ps = length bs \<Longrightarrow> unat c \<le> 1 \<Longrightarrow>
   val (add_loop c ps bs) = (unat c + val ps + val bs) mod 2 ^ (32 * length ps) \<and> length (add_loop c ps bs) = length ps"
proof (induction ps bs arbitrary: c rule: list_induct2)
  case (Cons p ps b bs)
  let ?n = "c + ucast p + ucast b :: 64 word"
  note small = unat_limb [of p] unat_limb [of b] Cons.prems
  have 1: "unat (c + ucast p) = unat c + unat p" using small by (subst unat_word_sum64) simp_all
  then have n: "unat ?n = unat c + unat p + unat b" using small by (subst unat_word_sum64) simp_all
  have "unat (drop_bit 32 ?n) \<le> 1" unfolding unat_carry n using small by simp
  note IH = Cons.IH [OF this]
  have "val (add_loop c (p # ps) (b # bs)) = (unat c + unat p + unat b + 2 ^ 32 * (val ps + val bs)) mod (2 ^ 32 * 2 ^ (32 * length ps))"
    using IH limb_step [OF n, of "val ps + val bs"] by (simp add: Let_def add.assoc)
  also have "unat c + unat p + unat b + 2 ^ 32 * (val ps + val bs) = unat c + val (p # ps) + val (b # bs)"
    by (simp add: distrib_left)
  finally show ?case using IH by (simp add: power_add Let_def)
qed simp

lemma mul_term:
  assumes "unat (c :: 64 word) < 2 ^ 32"
  shows "unat (c + ucast (p :: limb) + ucast (a :: limb) * ucast (b :: limb)) = unat c + unat p + unat a * unat b"
    and "(unat c + unat p + unat a * unat b) div 2 ^ 32 < 2 ^ 32"
proof -
  have ab: "unat a * unat b \<le> (2 ^ 32 - 1) * (2 ^ 32 - 1)"
    using unat_limb [of a] unat_limb [of b] by (intro mult_le_mono) simp_all
  note small = unat_limb [of p] assms ab
  have 1: "unat (c + ucast p) = unat c + unat p" using small by (subst unat_word_sum64) simp_all
  have 2: "unat (ucast a * ucast b :: 64 word) = unat a * unat b" using small by (subst unat_word_prod64) simp_all
  show "unat (c + ucast p + ucast a * ucast b) = unat c + unat p + unat a * unat b"
    using 1 2 small by (subst unat_word_sum64) simp_all
  show "(unat c + unat p + unat a * unat b) div 2 ^ 32 < 2 ^ 32" using small by (intro less_mult_imp_div_less) simp
qed

lemma mul32_loop_val:
  "unat c < 2 ^ 32 \<Longrightarrow>
   val (mul32_loop c b ps) = (unat c + unat b * val ps) mod 2 ^ (32 * length ps) \<and> length (mul32_loop c b ps) = length ps"
proof (induction ps arbitrary: c)
  case (Cons p ps)
  let ?n = "c + ucast b * ucast p :: 64 word"
  note n = mul_term [OF Cons.prems, of 0 b p, simplified]
  note IH = Cons.IH [of "drop_bit 32 ?n"]
  have IH: "val (mul32_loop (drop_bit 32 ?n) b ps) = (unat (drop_bit 32 ?n) + unat b * val ps) mod 2 ^ (32 * length ps)"
    "length (mul32_loop (drop_bit 32 ?n) b ps) = length ps"
    using Cons.IH [of "drop_bit 32 ?n"] n by (simp_all add: unat_carry)
  have "val (mul32_loop c b (p # ps)) = (unat c + unat b * unat p + 2 ^ 32 * (unat b * val ps)) mod (2 ^ 32 * 2 ^ (32 * length ps))"
    using IH limb_step [OF n(1), of "unat b * val ps"] by (simp add: Let_def)
  then show ?case using IH by (simp add: power_add Let_def algebra_simps)
qed simp

lemma mul_row_val:
  "length ps \<le> length bs \<Longrightarrow> unat c < 2 ^ 32 \<Longrightarrow>
   val (mul_row c a ps bs) = (unat c + val ps + unat a * val bs) mod 2 ^ (32 * length ps) \<and> length (mul_row c a ps bs) = length ps"
proof (induction ps arbitrary: bs c)
  case (Cons p ps)
  obtain b bs' where bs: "bs = b # bs'" using Cons.prems by (cases bs) auto
  let ?n = "c + ucast p + ucast a * ucast b :: 64 word"
  note n = mul_term [OF Cons.prems(2), of p a b]
  have IH: "val (mul_row (drop_bit 32 ?n) a ps bs') = (unat (drop_bit 32 ?n) + val ps + unat a * val bs') mod 2 ^ (32 * length ps)"
    "length (mul_row (drop_bit 32 ?n) a ps bs') = length ps"
    using Cons.IH [of bs' "drop_bit 32 ?n"] Cons.prems bs n by (simp_all add: unat_carry)
  have "val (mul_row c a (p # ps) bs) =
      (unat c + unat p + unat a * unat b + 2 ^ 32 * (val ps + unat a * val bs')) mod (2 ^ 32 * 2 ^ (32 * length ps))"
    using IH limb_step [OF n(1), of "val ps + unat a * val bs'"] by (simp add: Let_def bs add.assoc)
  then show ?case using IH by (simp add: power_add Let_def algebra_simps bs)
qed simp

lemma mul_loop_val:
  "length as = length ps \<Longrightarrow> length ps \<le> length bs \<Longrightarrow>
   val (mul_loop as bs ps) = (val ps + val as * val bs) mod 2 ^ (32 * length ps) \<and> length (mul_loop as bs ps) = length ps"
proof (induction as arbitrary: ps)
  case (Cons a as rs)
  obtain p ps where rs: "rs = p # ps" "length as = length ps" using Cons.prems(1) by (cases rs) auto
  let ?W = "2 ^ (32 * length ps) :: nat" and ?row = "mul_row 0 a (p # ps) bs"
  have row: "val ?row = (val (p # ps) + unat a * val bs) mod (2 ^ 32 * ?W)" "length ?row = Suc (length ps)"
    using mul_row_val [OF Cons.prems(2), of 0 a] rs by (simp_all add: power_add)
  obtain q qs where q: "?row = q # qs" "length qs = length ps" using row(2) by (cases ?row) auto
  have IH: "val (mul_loop as bs qs) = (val qs + val as * val bs) mod ?W" "length (mul_loop as bs qs) = length ps"
    using Cons.IH [of qs] Cons.prems rs q(2) by simp_all
  have "val (mul_loop (a # as) bs (p # ps)) = (val ?row + 2 ^ 32 * (val as * val bs)) mod (2 ^ 32 * ?W)"
    using IH q mod_split [OF unat_limb [of q], of "val qs + val as * val bs" ?W] by (simp add: distrib_left add.assoc)
  also have "\<dots> = (val (p # ps) + unat a * val bs + 2 ^ 32 * (val as * val bs)) mod (2 ^ 32 * ?W)"
    unfolding row(1) by (rule mod_add_left_eq)
  finally show ?case using IH q rs by (simp add: power_add algebra_simps)
qed simp

lemma increment_val: "ps \<noteq> [] \<Longrightarrow> val (increment ps) = (val ps + 1) mod 2 ^ (32 * length ps) \<and> length (increment ps) = length ps"
proof (induction ps)
  case (Cons p ps)
  show ?case
  proof (cases "p + 1 = 0")
    case True
    then have p: "p = - 1" by (simp add: eq_neg_iff_add_eq_0)
    then have u: "unat p = 2 ^ 32 - 1" by (simp add: unsigned_minus_1_eq_mask mask_eq_exp_minus_1)
    show ?thesis
    proof (cases "ps = []")
      case False
      have "(val (p # ps) + 1) mod (2 ^ 32 * 2 ^ (32 * length ps)) = 2 ^ 32 * ((val ps + 1) mod 2 ^ (32 * length ps))"
        using mod_split [of 0 "2 ^ 32" "val ps + 1" "2 ^ (32 * length ps)"] u by simp
      then show ?thesis using Cons.IH False True by (simp add: power_add)
    qed (use True u in simp)
  next
    case False
    then have u: "unat (p + 1) = unat p + 1" using unatSuc [of p] by (simp add: add.commute)
    have "val (p # ps) + 1 < 2 ^ 32 * 2 ^ (32 * length ps)"
      using val_bound [of "(p + 1) # ps"] u by (simp add: power_add)
    then show ?thesis using False u by (simp add: power_add)
  qed
qed simp

lemma unat_not: "unat (NOT p :: limb) + unat p + 1 = 2 ^ 32"
proof -
  have "NOT p = - 1 - p" by (simp add: not_eq_complement)
  then have "unat (NOT p) = unat (- 1 :: limb) - unat p" by (simp add: unat_sub)
  then show ?thesis using unat_limb [of p] by (simp add: unsigned_minus_1_eq_mask mask_eq_exp_minus_1)
qed

lemma complement_val: "val (complement_uint ps) + val ps + 1 = 2 ^ (32 * length ps) \<and> length (complement_uint ps) = length ps"
proof (induction ps)
  case (Cons p ps)
  have "val (complement_uint (p # ps)) + val (p # ps) + 1 = 2 ^ 32 * (val (complement_uint ps) + val ps + 1)"
    using unat_not [of p] by (simp add: algebra_simps)
  then show ?case using Cons by (simp add: power_add del: add_Suc_right One_nat_def)
qed simp

lemma negate_val:
  assumes "ps \<noteq> []"
  shows "val (negate ps) = (2 ^ (32 * length ps) - val ps) mod 2 ^ (32 * length ps)" and "length (negate ps) = length ps"
proof -
  have c: "complement_uint ps \<noteq> []" using complement_val [of ps] assms by auto
  have "val (complement_uint ps) + 1 = 2 ^ (32 * length ps) - val ps" using complement_val [of ps] by linarith
  then show "val (negate ps) = (2 ^ (32 * length ps) - val ps) mod 2 ^ (32 * length ps)" "length (negate ps) = length ps"
    using increment_val [OF c] complement_val [of ps] by (simp_all add: negate_def)
qed

lemma add_uint_val:
  assumes "length a = length b"
  shows "val (add_uint a b) = (val a + val b) mod 2 ^ (32 * length a)" and "length (add_uint a b) = length a"
  using add_loop_val [OF assms, of 0] by (simp_all add: add_uint_def)

lemma sub_uint_val:
  assumes "length a = length b" "a \<noteq> []"
  shows "val (sub_uint a b) = (val a + (2 ^ (32 * length a) - val b)) mod 2 ^ (32 * length a)" and "length (sub_uint a b) = length a"
    and "val b \<le> val a \<Longrightarrow> val (sub_uint a b) = val a - val b"
proof -
  have b: "b \<noteq> []" using assms by auto
  show s: "val (sub_uint a b) = (val a + (2 ^ (32 * length a) - val b)) mod 2 ^ (32 * length a)" "length (sub_uint a b) = length a"
    using add_uint_val [of a "negate b"] negate_val [OF b] assms(1) by (simp_all add: sub_uint_def mod_simps)
  show "val (sub_uint a b) = val a - val b" if "val b \<le> val a"
  proof -
    have "val a + (2 ^ (32 * length a) - val b) = (val a - val b) + 2 ^ (32 * length a)"
      using that val_bound [of b] assms(1) by simp
    then show ?thesis unfolding s(1) using val_bound [of a] by (metis less_imp_diff_less mod_add_self2 mod_less)
  qed
qed

text \<open>\<open>operator--\<close> wraps below zero.\<close>

lemma decrement_val:
  "ps \<noteq> [] \<Longrightarrow> val (decrement ps) = (if val ps = 0 then 2 ^ (32 * length ps) - 1 else val ps - 1) \<and> length (decrement ps) = length ps"
proof (induction ps)
  case (Cons p ps)
  show ?case
  proof (cases "p = 0")
    case True
    have u: "unat (- 1 :: limb) = 2 ^ 32 - 1" by (simp add: unsigned_minus_1_eq_mask mask_eq_exp_minus_1)
    have "(1 :: nat) \<le> 2 ^ (32 * length ps)" by simp
    then show ?thesis using True u Cons.IH by (cases "ps = []") (simp_all add: power_add algebra_simps)
  next
    case False
    then have "p - 1 \<noteq> - 1" "unat (p - 1) = unat p - 1" "unat p \<noteq> 0" by (simp_all add: unat_minus_one unat_eq_0)
    then show ?thesis by simp
  qed
qed simp

lemma mul32_uint_val: "val (mul32_uint ps b) = (unat b * val ps) mod 2 ^ (32 * length ps) \<and> length (mul32_uint ps b) = length ps"
  using mul32_loop_val [of 0 b ps] by (simp add: mul32_uint_def)

lemma mul_uint_val:
  "length a = length b \<Longrightarrow> val (mul_uint a b) = (val a * val b) mod 2 ^ (32 * length a) \<and> length (mul_uint a b) = length a"
  using mul_loop_val [of a "replicate (length a) 0" b] by (simp add: mul_uint_def)

section \<open>Order and length in bits\<close>

lemma val_rev: "val (rev (p # ps)) = val (rev ps) + 2 ^ (32 * length ps) * unat p"
  by (simp add: val_append)

lemma CompareTo_loop_val:
  "length ps = length bs \<Longrightarrow> CompareTo_loop ps bs = sgn (int (val (rev ps)) - int (val (rev bs)))"
proof (induction ps bs rule: list_induct2)
  case (Cons p ps b bs)
  let ?W = "2 ^ (32 * length ps) :: nat"
  have gap: "x + ?W * m < y + ?W * n" if "m < n" "x < ?W" for x y m n
  proof -
    have "x + ?W * m < ?W * Suc m" using that(2) by simp
    also have "\<dots> \<le> ?W * n" using that(1) by (intro mult_le_mono2) simp
    finally show ?thesis by simp
  qed
  have w: "val (rev ps) < ?W" "val (rev bs) < ?W" using val_bound [of "rev ps"] val_bound [of "rev bs"] Cons by simp_all
  show ?case
  proof (cases "unat p" "unat b" rule: linorder_cases)
    case less
    then have "val (rev (p # ps)) < val (rev (b # bs))" unfolding val_rev using gap w Cons(1) by simp
    then show ?thesis using less by (simp add: word_less_nat_alt del: rev.simps)
  next
    case equal
    then show ?thesis using Cons by (simp add: val_rev word_less_nat_alt del: rev.simps)
  next
    case greater
    then have "val (rev (b # bs)) < val (rev (p # ps))" unfolding val_rev using gap w Cons(1) by simp
    then show ?thesis using greater by (simp add: word_less_nat_alt del: rev.simps)
  qed
qed simp

lemma CompareTo_val: "length a = length b \<Longrightarrow> CompareTo a b = sgn (int (val a) - int (val b))"
  by (simp add: CompareTo_def CompareTo_loop_val)

lemma highest_bit_val:
  "p \<noteq> 0 \<Longrightarrow> unat p < 2 ^ Suc n \<Longrightarrow>
   unat p < 2 ^ highest_bit p n \<and> 2 ^ (highest_bit p n - 1) \<le> unat p \<and> 0 < highest_bit p n \<and> highest_bit p n \<le> Suc n"
proof (induction n)
  case 0
  then show ?case by (simp add: unat_gt_0 Suc_le_eq)
next
  case (Suc n)
  show ?case
  proof (cases "bit p (Suc n)")
    case True
    then have "bit (unat p) (Suc n)" using bit_imp_le_length by (auto simp: bit_unsigned_iff)
    then have "odd (unat p div 2 ^ Suc n)" unfolding bit_iff_odd .
    then have "2 ^ Suc n \<le> unat p" by (metis div_less even_zero not_less)
    then show ?thesis using True Suc.prems by simp
  next
    case False
    then have "\<not> bit (unat p) (Suc n)" by (simp add: bit_unsigned_iff)
    then have "take_bit (Suc (Suc n)) (unat p) = take_bit (Suc n) (unat p)" by (simp add: take_bit_Suc_from_most)
    then have "unat p < 2 ^ Suc n" using Suc.prems(2) by (metis take_bit_nat_eq_self take_bit_nat_less_exp)
    then show ?thesis using Suc False by simp
  qed
qed

lemma bits_loop_val:
  "val (rev ps) < 2 ^ bits_loop ps \<and> (if val (rev ps) = 0 then bits_loop ps = 0 else 0 < bits_loop ps \<and> 2 ^ (bits_loop ps - 1) \<le> val (rev ps)) \<and>
   bits_loop ps \<le> 32 * length ps"
proof (induction ps)
  case (Cons p ps)
  show ?case
  proof (cases "p = 0")
    case False
    let ?W = "2 ^ (32 * length ps) :: nat" and ?h = "highest_bit p 31"
    have h: "unat p < 2 ^ ?h" "2 ^ (?h - 1) \<le> unat p" "0 < ?h" "?h \<le> 32"
      using highest_bit_val [OF False, of 31] unat_limb [of p] by simp_all
    have v: "val (rev (p # ps)) = val (rev ps) + ?W * unat p" by (rule val_rev)
    have "val (rev ps) + ?W * unat p < ?W * Suc (unat p)" using val_bound [of "rev ps"] by simp
    also have "\<dots> \<le> ?W * 2 ^ ?h" using h(1) by (intro mult_le_mono2) simp
    finally have up: "val (rev (p # ps)) < 2 ^ (32 * length ps + ?h)" unfolding v power_add .
    have "?W * 2 ^ (?h - 1) \<le> val (rev (p # ps))" unfolding v using h(2) by (simp add: trans_le_add2)
    moreover have "32 * length ps + ?h - 1 = 32 * length ps + (?h - 1)" using h(3) by simp
    ultimately have low: "2 ^ (32 * length ps + ?h - 1) \<le> val (rev (p # ps))" by (simp only: power_add)
    moreover have "0 < val (rev (p # ps))" using low by (rule less_le_trans [rotated]) simp
    ultimately show ?thesis using False up h(3,4) by simp
  qed (use Cons in \<open>auto simp: val_append split: if_splits\<close>)
qed simp

lemma bits_val:
  "val a < 2 ^ bits a" "val a \<noteq> 0 \<Longrightarrow> 0 < bits a \<and> 2 ^ (bits a - 1) \<le> val a" "bits a = 0 \<longleftrightarrow> val a = 0" "bits a \<le> 32 * length a"
  using bits_loop_val [of "rev a"] by (auto simp: bits_def split: if_splits)

section \<open>Shifts\<close>

lemma bit_val: "bit (val a) n \<longleftrightarrow> n < 32 * length a \<and> bit (a ! (n div 32)) (n mod 32)"
proof (induction a arbitrary: n)
  case (Cons p ps)
  have v: "val (p # ps) = (unat p) OR (push_bit 32 (val ps))"
  proof -
    have "unat p AND push_bit 32 (val ps) = 0"
      by (rule bit_eqI) (auto simp: bit_simps dest: bit_imp_le_length)
    then show ?thesis by (simp add: push_bit_eq_mult mult.commute flip: disjunctive_add_eq_or)
  qed
  show ?case
  proof (cases "n < 32")
    case True
    then show ?thesis by (simp add: v bit_simps del: val.simps)
  next
    case False
    then have "\<not> bit (unat p) n" by (auto simp: bit_simps dest: bit_imp_le_length)
    moreover have "n div 32 = Suc ((n - 32) div 32)" "n mod 32 = (n - 32) mod 32" using False by (simp_all add: le_div_geq le_mod_geq)
    moreover have "n < 32 * length (p # ps) \<longleftrightarrow> n - 32 < 32 * length ps" using False by auto
    ultimately show ?thesis using False Cons.IH [of "n - 32"] by (simp add: v bit_simps del: val.simps)
  qed
qed simp

definition shl_limb :: "limb list \<Rightarrow> nat \<Rightarrow> nat \<Rightarrow> nat \<Rightarrow> nat \<Rightarrow> limb" where
  "shl_limb a k s m j =
     (if k \<le> j \<and> j - k < m then push_bit s (a ! (j - k)) else 0) OR
     (if k + 1 \<le> j \<and> j - k - 1 < m \<and> s \<noteq> 0 then drop_bit (32 - s) (a ! (j - k - 1)) else 0)"

lemma length_shl_step [simp]: "length (shl_step k s a pn i) = length pn"
  by (simp add: shl_step_def Let_def)

lemma shl_step_nth:
  assumes "length pn = length a" and "j < length a" and "i < length a"
  shows "shl_step k s a pn i ! j = pn ! j OR
     ((if j = i + k then push_bit s (a ! i) else 0) OR (if j = i + k + 1 \<and> s \<noteq> 0 then drop_bit (32 - s) (a ! i) else 0))"
proof -
  consider "j = i + k" | "j = i + k + 1" | "j \<noteq> i + k" "j \<noteq> i + k + 1" by blast
  then show ?thesis by cases (use assms in \<open>simp_all add: shl_step_def Let_def\<close>)
qed

lemma shl_limb_Suc:
  "shl_limb a k s (Suc m) j = shl_limb a k s m j OR
     ((if j = m + k then push_bit s (a ! m) else 0) OR (if j = m + k + 1 \<and> s \<noteq> 0 then drop_bit (32 - s) (a ! m) else 0))"
proof -
  consider "j = m + k" | "j = m + k + 1" | "j \<noteq> m + k" "j \<noteq> m + k + 1" by blast
  then show ?thesis
  proof cases
    case 3
    then have "(k \<le> j \<and> j - k < Suc m) = (k \<le> j \<and> j - k < m)" "(k + 1 \<le> j \<and> j - k - 1 < Suc m \<and> s \<noteq> 0) = (k + 1 \<le> j \<and> j - k - 1 < m \<and> s \<noteq> 0)" by auto
    then show ?thesis using 3 by (simp only: shl_limb_def if_False simp_thms or.right_neutral)
  qed (auto simp: shl_limb_def or.commute)
qed

lemma shl_fold:
  "m \<le> length a \<Longrightarrow> length (foldl (shl_step k s a) (replicate (length a) 0) [0..<m]) = length a \<and>
   (\<forall>j < length a. foldl (shl_step k s a) (replicate (length a) 0) [0..<m] ! j = shl_limb a k s m j)"
proof (induction m)
  case 0
  show ?case by (simp add: shl_limb_def)
next
  case (Suc m)
  let ?pn = "foldl (shl_step k s a) (replicate (length a) 0) [0..<m]"
  show ?case using Suc shl_step_nth [of ?pn a _ m k s] by (simp add: shl_limb_Suc)
qed

text \<open>Shifting left multiplies by a power of two, modulo the size of the array.\<close>

lemma shl_uint_val: "val (shl_uint a n) = take_bit (32 * length a) (push_bit n (val a))" and length_shl_uint [simp]: "length (shl_uint a n) = length a"
proof -
  let ?k = "n div 32" and ?s = "n mod 32"
  have len: "length (shl_uint a n) = length a" and nth: "j < length a \<Longrightarrow> shl_uint a n ! j = shl_limb a ?k ?s (length a) j" for j
    using shl_fold [of "length a" a ?k ?s] by (simp_all add: shl_uint_def)
  have "bit (val (shl_uint a n)) i = bit (take_bit (32 * length a) (push_bit n (val a))) i" for i
  proof (cases "i < 32 * length a")
    case True
    define j r where "j = i div 32" and "r = i mod 32"
    have i: "i = 32 * j + r" "r < 32" "j < length a" using True by (auto simp: j_def r_def less_mult_imp_div_less mult.commute)
    define k s where "k = ?k" and "s = ?s"
    have n: "n = 32 * k + s" "s < 32" by (simp_all add: k_def s_def)
    have "bit (shl_limb a k s (length a) j) r \<longleftrightarrow> n \<le> i \<and> bit (val a) (i - n)"
    proof (cases "s \<le> r")
      case True
      have "n \<le> i \<longleftrightarrow> k \<le> j" using i n True by auto
      moreover have "(i - n) div 32 = j - k" "(i - n) mod 32 = r - s" if "k \<le> j"
      proof -
        have "i - n = 32 * (j - k) + (r - s)" using i n True that by (simp add: diff_mult_distrib2)
        then show "(i - n) div 32 = j - k" "(i - n) mod 32 = r - s" using i(2) by simp_all
      qed
      moreover have "i - n < 32 * length a" using \<open>i < 32 * length a\<close> by simp
      moreover have "\<not> bit (drop_bit (32 - s) p) r" if "s \<noteq> 0" for p :: limb
        using True that n(2) i(2) by (auto simp: bit_simps dest: bit_imp_le_length)
      ultimately show ?thesis using i True by (auto simp: shl_limb_def bit_val bit_simps)
    next
      case False
      have "n \<le> i \<longleftrightarrow> k + 1 \<le> j" using i n False by auto
      moreover have "(i - n) div 32 = j - k - 1" "(i - n) mod 32 = 32 + r - s" if "k + 1 \<le> j"
      proof -
        have "i - n = 32 * (j - k - 1) + (32 + r - s)" using i n False that by (simp add: diff_mult_distrib2)
        then show "(i - n) div 32 = j - k - 1" "(i - n) mod 32 = 32 + r - s" using False by simp_all
      qed
      moreover have "i - n < 32 * length a" using \<open>i < 32 * length a\<close> by simp
      moreover have "32 - s + r = 32 + r - s" using n(2) by simp
      ultimately show ?thesis using i False n(2) by (auto simp: shl_limb_def bit_val bit_simps)
    qed
    then show ?thesis using True nth [OF i(3)] len by (simp add: bit_val bit_simps j_def r_def k_def s_def)
  next
    case False
    then show ?thesis using len by (simp add: bit_val bit_simps)
  qed
  then show "val (shl_uint a n) = take_bit (32 * length a) (push_bit n (val a))" by (intro bit_eqI) blast
  show "length (shl_uint a n) = length a" by (rule len)
qed

lemma div_mod_limb: "x = 32 * q + r \<Longrightarrow> r < 32 \<Longrightarrow> x div 32 = q \<and> x mod 32 = r" for x :: nat
  by simp

definition shr_limb :: "limb list \<Rightarrow> nat \<Rightarrow> nat \<Rightarrow> nat \<Rightarrow> nat \<Rightarrow> limb" where
  "shr_limb a k s m j =
     (if j + k < m then drop_bit s (a ! (j + k)) else 0) OR
     (if j + k + 1 < m \<and> s \<noteq> 0 then push_bit (32 - s) (a ! (j + k + 1)) else 0)"

lemma length_shr_step [simp]: "length (shr_step k s a pn i) = length pn"
  by (simp add: shr_step_def Let_def)

lemma shr_step_nth:
  assumes "length pn = length a" and "j < length a" and "i < length a"
  shows "shr_step k s a pn i ! j = pn ! j OR
     ((if i = j + k then drop_bit s (a ! i) else 0) OR (if i = j + k + 1 \<and> s \<noteq> 0 then push_bit (32 - s) (a ! i) else 0))"
proof -
  consider "i = j + k" | "i = j + k + 1" | "i \<noteq> j + k" "i \<noteq> j + k + 1" by blast
  then show ?thesis
  proof cases
    case 3
    then have "\<not> (int i - int k - 1 \<ge> 0 \<and> i - k - 1 = j)" "\<not> (int i - int k \<ge> 0 \<and> i - k = j)" by auto
    then show ?thesis using 3 assms by (auto simp: shr_step_def Let_def nth_list_update)
  next
    case 1
    then show ?thesis using assms by (cases j) (simp_all add: shr_step_def Let_def)
  qed (use assms in \<open>simp_all add: shr_step_def Let_def\<close>)
qed

lemma shr_limb_Suc:
  "shr_limb a k s (Suc m) j = shr_limb a k s m j OR
     ((if m = j + k then drop_bit s (a ! m) else 0) OR (if m = j + k + 1 \<and> s \<noteq> 0 then push_bit (32 - s) (a ! m) else 0))"
proof -
  consider "m = j + k" | "m = j + k + 1" | "m \<noteq> j + k" "m \<noteq> j + k + 1" by blast
  then show ?thesis
  proof cases
    case 3
    then have "(j + k < Suc m) = (j + k < m)" "(j + k + 1 < Suc m \<and> s \<noteq> 0) = (j + k + 1 < m \<and> s \<noteq> 0)" by auto
    then show ?thesis using 3 by (simp only: shr_limb_def if_False simp_thms or.right_neutral)
  qed (auto simp: shr_limb_def or.commute)
qed

lemma shr_fold:
  "m \<le> length a \<Longrightarrow> length (foldl (shr_step k s a) (replicate (length a) 0) [0..<m]) = length a \<and>
   (\<forall>j < length a. foldl (shr_step k s a) (replicate (length a) 0) [0..<m] ! j = shr_limb a k s m j)"
proof (induction m)
  case 0
  show ?case by (simp add: shr_limb_def)
next
  case (Suc m)
  let ?pn = "foldl (shr_step k s a) (replicate (length a) 0) [0..<m]"
  show ?case using Suc shr_step_nth [of ?pn a _ m k s] by (simp add: shr_limb_Suc)
qed

text \<open>Shifting right divides by a power of two.\<close>

lemma shr_uint_val: "val (shr_uint a n) = drop_bit n (val a)" and length_shr_uint [simp]: "length (shr_uint a n) = length a"
proof -
  define k s where "k = n div 32" and "s = n mod 32"
  have n: "n = 32 * k + s" "s < 32" by (simp_all add: k_def s_def)
  have len: "length (shr_uint a n) = length a" and nth: "j < length a \<Longrightarrow> shr_uint a n ! j = shr_limb a k s (length a) j" for j
    using shr_fold [of "length a" a k s] by (simp_all add: shr_uint_def k_def s_def)
  have "bit (val (shr_uint a n)) i = bit (drop_bit n (val a)) i" for i
  proof (cases "i < 32 * length a")
    case True
    define j r where "j = i div 32" and "r = i mod 32"
    have i: "i = 32 * j + r" "r < 32" "j < length a" using True by (auto simp: j_def r_def less_mult_imp_div_less mult.commute)
    have "bit (shr_limb a k s (length a) j) r \<longleftrightarrow> bit (val a) (n + i)"
    proof (cases "r + s < 32")
      case True
      have "(n + i) div 32 = j + k" "(n + i) mod 32 = s + r"
        using div_mod_limb [of "n + i" "j + k" "s + r"] i(1) n(1) True by simp_all
      moreover have "n + i < 32 * length a \<longleftrightarrow> j + k < length a" using i n True by auto
      moreover have "\<not> bit (push_bit (32 - s) p) r" for p :: limb using True by (auto simp: bit_simps)
      ultimately show ?thesis using i by (auto simp: shr_limb_def bit_val bit_simps)
    next
      case False
      have "(n + i) div 32 = j + k + 1" "(n + i) mod 32 = s + r - 32"
        using div_mod_limb [of "n + i" "j + k + 1" "s + r - 32"] i n False by simp_all
      moreover have "n + i < 32 * length a \<longleftrightarrow> j + k + 1 < length a" using i n False by auto
      moreover have "\<not> bit (drop_bit s p) r" for p :: limb using False by (auto simp: bit_simps dest: bit_imp_le_length)
      moreover have "r - (32 - s) = s + r - 32" "32 - s \<le> r" using False n(2) by simp_all
      ultimately show ?thesis using i False n(2) by (auto simp: shr_limb_def bit_val bit_simps)
    qed
    then show ?thesis using True nth [OF i(3)] len by (simp add: bit_val bit_simps j_def r_def)
  next
    case False
    then show ?thesis using len by (simp add: bit_val bit_simps)
  qed
  then show "val (shr_uint a n) = drop_bit n (val a)" by (intro bit_eqI) blast
  show "length (shr_uint a n) = length a" by (rule len)
qed

section \<open>Division\<close>

text \<open>Setting a bit that is clear adds its power of two.\<close>

lemma set_bit_val:
  assumes "n < 32 * length ps" and "\<not> bit (val ps) n"
  shows "val (ps[n div 32 := ps ! (n div 32) OR push_bit (n mod 32) 1]) = val ps + 2 ^ n"
proof -
  let ?qs = "ps[n div 32 := ps ! (n div 32) OR push_bit (n mod 32) 1]"
  have d: "n div 32 < length ps" using assms(1) by (simp add: less_mult_imp_div_less mult.commute)
  have "bit (val ?qs) i = bit (set_bit n (val ps)) i" for i
  proof (cases "i = n")
    case False
    then have "i div 32 = n div 32 \<Longrightarrow> i mod 32 \<noteq> n mod 32" by (metis div_mult_mod_eq)
    then show ?thesis using False d by (auto simp: bit_val bit_simps nth_list_update)
  qed (use assms(1) d in \<open>auto simp: bit_val bit_simps\<close>)
  then have "val ?qs = set_bit n (val ps)" by (intro bit_eqI) blast
  then show ?thesis using assms(2) by (simp add: set_bit_eq)
qed

lemma div_loop_val:
  assumes "length num = L" "length d = L" "length pn = L" and "sh \<le> 32 * L"
    and "0 < B" and "sh \<noteq> 0 \<Longrightarrow> val d = B * 2 ^ (sh - 1)" and "val num < B * 2 ^ sh" and "2 ^ sh dvd val pn"
  shows "val (div_loop sh num d pn) = val pn + val num div B \<and> length (div_loop sh num d pn) = L"
  using assms
proof (induction sh arbitrary: num d pn)
  case (Suc sh)
  have L: "num \<noteq> []" "sh < 32 * length pn" using Suc.prems(1,3,4) by auto
  have d: "val d = B * 2 ^ sh" using Suc.prems(6) by simp
  have half: "val (shr_uint d 1) = B * 2 ^ (sh - 1)" if "sh \<noteq> 0" unfolding shr_uint_val d
    using that by (cases sh) (simp_all add: drop_bit_eq_div)
  have ld: "length (shr_uint d 1) = L" using Suc.prems(2) by simp
  have c: "CompareTo num d \<ge> 0 \<longleftrightarrow> val d \<le> val num" using Suc.prems(1,2) by (simp add: CompareTo_val sgn_if)
  have sh: "sh \<le> 32 * L" using Suc.prems(4) by simp
  have dv: "2 ^ sh dvd val pn" using Suc.prems(8) by (rule dvd_trans [rotated]) simp
  show ?case
  proof (cases "val d \<le> val num")
    case True
    let ?pn = "pn[sh div 32 := pn ! (sh div 32) OR push_bit (sh mod 32) 1]"
    obtain x where "val pn = 2 ^ Suc sh * x" using Suc.prems(8) by (rule dvdE)
    then have "val pn div 2 ^ sh = 2 * x" by simp
    then have "\<not> bit (val pn) sh" unfolding bit_iff_odd by simp
    note pn = set_bit_val [OF L(2) this]
    have n: "val (sub_uint num d) = val num - B * 2 ^ sh" "length (sub_uint num d) = L"
      using sub_uint_val [OF _ L(1), of d] Suc.prems(1,2) True d by simp_all
    have small: "val num - B * 2 ^ sh < B * 2 ^ sh" using Suc.prems(7) True d by simp
    have IH: "val (div_loop sh (sub_uint num d) (shr_uint d 1) ?pn) = val ?pn + (val num - B * 2 ^ sh) div B \<and>
        length (div_loop sh (sub_uint num d) (shr_uint d 1) ?pn) = L"
      unfolding n(1) [symmetric]
      by (rule Suc.IH [OF n(2) ld _ sh Suc.prems(5) half]) (use small n(1) dv pn Suc.prems(3) in simp_all)
    have "val num = val num - B * 2 ^ sh + 2 ^ sh * B" using True d by (simp add: mult.commute)
    then have "val num div B = (val num - B * 2 ^ sh) div B + 2 ^ sh"
      using Suc.prems(5) div_mult_self1 [of B "val num - B * 2 ^ sh" "2 ^ sh"] by simp
    then show ?thesis using c True pn IH by simp
  next
    case False
    have small: "val num < B * 2 ^ sh" using False d by simp
    have "val (div_loop sh num (shr_uint d 1) pn) = val pn + val num div B \<and> length (div_loop sh num (shr_uint d 1) pn) = L"
      by (rule Suc.IH [OF Suc.prems(1) ld Suc.prems(3) sh Suc.prems(5) half small dv])
    then show ?thesis using c False by simp
  qed
qed simp

text \<open>Division is division, with the exception exactly on a zero divisor.\<close>

lemma div_uint_val:
  assumes "length a = length b"
  shows "div_uint a b = None \<longleftrightarrow> val b = 0"
    and "div_uint a b = Some q \<Longrightarrow> val q = val a div val b \<and> length q = length a"
proof -
  show "div_uint a b = None \<longleftrightarrow> val b = 0" using bits_val(3) [of b] by (simp add: div_uint_def Let_def)
  assume q: "div_uint a b = Some q"
  then have b: "val b \<noteq> 0" "bits b \<noteq> 0" using bits_val(3) [of b] by (auto simp: div_uint_def Let_def)
  show "val q = val a div val b \<and> length q = length a"
  proof (cases "bits b > bits a")
    case True
    have "val a < 2 ^ bits a" by (rule bits_val)
    also have "\<dots> \<le> 2 ^ (bits b - 1)" using True by (intro power_increasing) simp_all
    also have "\<dots> \<le> val b" using bits_val(2) b by simp
    finally show ?thesis using q True b(2) by (auto simp: div_uint_def Let_def)
  next
    case False
    let ?s = "bits a - bits b"
    have s: "bits b + ?s = bits a" using False by simp
    have "val b * 2 ^ ?s < 2 ^ bits b * 2 ^ ?s" using bits_val(1) [of b] by simp
    also have "\<dots> = 2 ^ bits a" by (simp add: s flip: power_add)
    also have "\<dots> \<le> 2 ^ (32 * length a)" using bits_val(4) [of a] by (intro power_increasing) simp_all
    finally have "val b * 2 ^ ?s < 2 ^ (32 * length a)" .
    then have d: "val (shl_uint b ?s) = val b * 2 ^ ?s"
      using assms by (simp add: shl_uint_val push_bit_eq_mult take_bit_nat_eq_self)
    have "val a < 2 ^ bits a" by (rule bits_val)
    also have "bits a = (bits b - 1) + (?s + 1)" using b(2) s by simp
    also have "(2 :: nat) ^ \<dots> = 2 ^ (bits b - 1) * 2 ^ (?s + 1)" by (rule power_add)
    also have "\<dots> \<le> val b * 2 ^ (?s + 1)" using bits_val(2) [of b] b by simp
    finally have n: "val a < val b * 2 ^ (?s + 1)" .
    have "?s + 1 \<le> 32 * length a" using bits_val(4) [of a] b(2) s by simp
    then show ?thesis
      using div_loop_val [of a "length a" "shl_uint b ?s" "replicate (length a) 0" "?s + 1" "val b"] d n q b False assms
      by (auto simp: div_uint_def Let_def)
  qed
qed

text \<open>C23: The loops over the limbs, with their carries and their shifted writes, compute the operations on numbers modulo the size of the array:
  sums, differences, products, shifts; comparison is the order of the numbers, \<open>bits\<close> their length in bits, and division is the exact quotient,
  with the exception exactly on a zero divisor.
\<close>
theorem base_uint_arithmetic:
  assumes "length a = length b" and "a \<noteq> []"
  defines "M \<equiv> 2 ^ (32 * length a) :: nat"
  shows "val (add_uint a b) = (val a + val b) mod M \<and>
    val (sub_uint a b) = (val a + (M - val b)) mod M \<and>
    val (mul_uint a b) = (val a * val b) mod M \<and>
    val (mul32_uint a w) = (unat w * val a) mod M \<and>
    val (shl_uint a n) = (val a * 2 ^ n) mod M \<and>
    val (shr_uint a n) = val a div 2 ^ n \<and>
    CompareTo a b = sgn (int (val a) - int (val b)) \<and>
    val a < 2 ^ bits a \<and> (val a \<noteq> 0 \<longrightarrow> 2 ^ (bits a - 1) \<le> val a) \<and>
    (case div_uint a b of None \<Rightarrow> val b = 0 | Some q \<Rightarrow> val b \<noteq> 0 \<and> val q = val a div val b)"
proof -
  have "case div_uint a b of None \<Rightarrow> val b = 0 | Some q \<Rightarrow> val b \<noteq> 0 \<and> val q = val a div val b"
    using div_uint_val [OF assms(1)] by (auto split: option.split)
  then show ?thesis unfolding M_def
    using add_uint_val(1) [OF assms(1)] sub_uint_val(1) [OF assms(1,2)] mul_uint_val [OF assms(1)] mul32_uint_val [of a w]
      bits_val(1,2) [of a] CompareTo_val [OF assms(1)]
    by (simp add: shl_uint_val shr_uint_val push_bit_eq_mult take_bit_eq_mod drop_bit_eq_div)
qed

theorem base_uint_arithmetic_witness:
  "let a = [0, 1] :: limb list; b = [3, 0]; M = 2 ^ (32 * length a) :: nat
   in val (add_uint a b) = (val a + val b) mod M \<and>
    val (sub_uint a b) = (val a + (M - val b)) mod M \<and>
    val (mul_uint a b) = (val a * val b) mod M \<and>
    val (mul32_uint a 7) = (unat (7 :: limb) * val a) mod M \<and>
    val (shl_uint a 33) = (val a * 2 ^ 33) mod M \<and>
    val (shr_uint a 33) = val a div 2 ^ 33 \<and>
    CompareTo a b = sgn (int (val a) - int (val b)) \<and>
    val a < 2 ^ bits a \<and> (val a \<noteq> 0 \<longrightarrow> 2 ^ (bits a - 1) \<le> val a) \<and>
    (case div_uint a b of None \<Rightarrow> val b = 0 | Some q \<Rightarrow> val b \<noteq> 0 \<and> val q = val a div val b)"
  unfolding Let_def by (rule base_uint_arithmetic) simp_all

end
