(* ===== verification/Params.thy ===== *)
theory Params
  imports BigInt
begin

text \<open>
  The chain parameters that the consensus rules read (\<open>CChainParams\<close>, src/src/chainparams.h, with the values of the main network from
  src/src/chainparams.cpp), the network upgrades by height (src/src/consensus/upgrades.cpp, src/src/consensus/params.cpp), and the part
  of the block index that the rules read along \<open>pprev\<close>: the list of a block and its ancestors, the block first, with the majority vote
  of the block versions (\<open>IsSuperMajority\<close>, src/src/main.cpp).
\<close>

section \<open>Network upgrades\<close>

datatype UpgradeIndex =
  BASE_NETWORK | UPGRADE_V3_0_BLOCKTIME | UPGRADE_V3_0_BLOCKREWARD | UPGRADE_V3_1_DUMMY | UPGRADE_V3_2_DUMMY | UPGRADE_TESTDUMMY

definition upgrades :: "UpgradeIndex list" where
  "upgrades = [BASE_NETWORK, UPGRADE_V3_0_BLOCKTIME, UPGRADE_V3_0_BLOCKREWARD, UPGRADE_V3_1_DUMMY, UPGRADE_V3_2_DUMMY, UPGRADE_TESTDUMMY]"

datatype UpgradeState = UPGRADE_DISABLED | UPGRADE_PENDING | UPGRADE_ACTIVE

abbreviation (input) NO_ACTIVATION_HEIGHT :: int where "NO_ACTIVATION_HEIGHT \<equiv> - 1"

abbreviation (input) ALWAYS_ACTIVE :: int where "ALWAYS_ACTIVE \<equiv> 0"

type_synonym upgrade_heights = "UpgradeIndex \<Rightarrow> int"

definition NetworkUpgradeState :: "int \<Rightarrow> upgrade_heights \<Rightarrow> UpgradeIndex \<Rightarrow> UpgradeState" where
  "NetworkUpgradeState h vUpgrades idx =
     (if vUpgrades idx = NO_ACTIVATION_HEIGHT then UPGRADE_DISABLED
      else if h \<ge> vUpgrades idx then UPGRADE_ACTIVE
      else UPGRADE_PENDING)"

text \<open>The method of \<open>Consensus::Params\<close>, which refuses a negative height; the functions below assert that the height is not negative, and are only modelled there.\<close>

definition NetworkUpgradeActive :: "int \<Rightarrow> upgrade_heights \<Rightarrow> UpgradeIndex \<Rightarrow> bool" where
  "NetworkUpgradeActive h vUpgrades idx \<longleftrightarrow> (if h < 0 then False else NetworkUpgradeState h vUpgrades idx = UPGRADE_ACTIVE)"

fun last_active :: "int \<Rightarrow> upgrade_heights \<Rightarrow> UpgradeIndex list \<Rightarrow> UpgradeIndex" where
  "last_active h vUpgrades [] = BASE_NETWORK"
| "last_active h vUpgrades (idx # is) =
     (if NetworkUpgradeState h vUpgrades idx = UPGRADE_ACTIVE then idx else last_active h vUpgrades is)"

definition CurrentEpoch :: "int \<Rightarrow> upgrade_heights \<Rightarrow> UpgradeIndex" where
  "CurrentEpoch h vUpgrades = last_active h vUpgrades (rev (tl upgrades))"

definition IsActivationHeight :: "int \<Rightarrow> upgrade_heights \<Rightarrow> UpgradeIndex \<Rightarrow> bool" where
  "IsActivationHeight h vUpgrades idx \<longleftrightarrow> (if idx = BASE_NETWORK then False else h \<ge> 0 \<and> h = vUpgrades idx)"

definition IsActivationHeightForAnyUpgrade :: "int \<Rightarrow> upgrade_heights \<Rightarrow> bool" where
  "IsActivationHeightForAnyUpgrade h vUpgrades \<longleftrightarrow>
     (if h < 0 then False else list_ex (\<lambda>idx. h = vUpgrades idx) (tl upgrades))"

definition NextEpoch :: "int \<Rightarrow> upgrade_heights \<Rightarrow> UpgradeIndex option" where
  "NextEpoch h vUpgrades =
     (if h < 0 then None else find (\<lambda>idx. NetworkUpgradeState h vUpgrades idx = UPGRADE_PENDING) (tl upgrades))"

definition NextActivationHeight :: "int \<Rightarrow> upgrade_heights \<Rightarrow> int option" where
  "NextActivationHeight h vUpgrades = map_option vUpgrades (NextEpoch h vUpgrades)"

text \<open>An upgrade stays active, and a height activates it exactly when it was not active one block before.\<close>

lemma NetworkUpgradeActive_mono:
  "NetworkUpgradeActive h v idx \<Longrightarrow> h \<le> h' \<Longrightarrow> NetworkUpgradeActive h' v idx"
  by (auto simp: NetworkUpgradeActive_def NetworkUpgradeState_def split: if_splits)

lemma IsActivationHeight_iff:
  assumes "idx \<noteq> BASE_NETWORK" and "0 < h" and "- 1 \<le> v idx"
  shows "IsActivationHeight h v idx \<longleftrightarrow> NetworkUpgradeActive h v idx \<and> \<not> NetworkUpgradeActive (h - 1) v idx"
  using assms by (auto simp: IsActivationHeight_def NetworkUpgradeActive_def NetworkUpgradeState_def split: if_splits)

lemma last_active_cases:
  "(last_active h v is = BASE_NETWORK \<and> (\<forall>i \<in> set is. NetworkUpgradeState h v i \<noteq> UPGRADE_ACTIVE)) \<or>
   (last_active h v is \<in> set is \<and> NetworkUpgradeState h v (last_active h v is) = UPGRADE_ACTIVE)"
  by (induction "is") auto

lemma IsActivationHeightForAnyUpgrade_iff:
  "IsActivationHeightForAnyUpgrade h v \<longleftrightarrow> (\<exists>idx. IsActivationHeight h v idx)"
proof -
  have "idx \<in> set (tl upgrades) \<longleftrightarrow> idx \<noteq> BASE_NETWORK" for idx by (cases idx) (simp_all add: upgrades_def)
  then show ?thesis by (auto simp: IsActivationHeightForAnyUpgrade_def IsActivationHeight_def list_ex_iff)
qed

section \<open>Chain parameters\<close>

record CChainParams =
  ProofOfWorkLimit :: "limb list"
  EnforceBlockUpgradeMajority :: nat
  RejectBlockOutdatedMajority :: nat
  ToCheckBlockUpgradeMajority :: nat
  SkipProofOfWorkCheck :: bool
  TargetTimespanLegacy :: int
  TargetSpacingLegacy :: int
  TargetTimespan :: int
  TargetSpacing :: int
  LAST_POW_BLOCK :: int
  Zerocoin_StartHeight :: int
  Zerocoin_HeaderVersion :: int
  COINBASE_MATURITY :: int
  MaxReorganizationDepth :: int
  vUpgrades :: upgrade_heights

definition IntervalLegacy :: "CChainParams \<Rightarrow> int" where
  "IntervalLegacy P = TargetTimespanLegacy P div TargetSpacingLegacy P"

definition Interval :: "CChainParams \<Rightarrow> int" where
  "Interval P = TargetTimespan P div TargetSpacing P"

definition main_upgrades :: upgrade_heights where
  "main_upgrades idx = (case idx of BASE_NETWORK \<Rightarrow> ALWAYS_ACTIVE
     | UPGRADE_V3_0_BLOCKTIME \<Rightarrow> 2977924 | UPGRADE_V3_0_BLOCKREWARD \<Rightarrow> 2977924
     | UPGRADE_V3_1_DUMMY \<Rightarrow> NO_ACTIVATION_HEIGHT | UPGRADE_V3_2_DUMMY \<Rightarrow> NO_ACTIVATION_HEIGHT
     | UPGRADE_TESTDUMMY \<Rightarrow> NO_ACTIVATION_HEIGHT)"

definition mainParams :: CChainParams where
  "mainParams = \<lparr>
     ProofOfWorkLimit = shr_uint (complement_uint (base_uint_of 8 0)) 20,
     EnforceBlockUpgradeMajority = 2250, RejectBlockOutdatedMajority = 2850, ToCheckBlockUpgradeMajority = 3000,
     SkipProofOfWorkCheck = False,
     TargetTimespanLegacy = 1 * 60 * 40, TargetSpacingLegacy = 1 * 30, TargetTimespan = 1 * 60 * 60 * 2, TargetSpacing = 1 * 60 * 4,
     LAST_POW_BLOCK = 1001, Zerocoin_StartHeight = 999999999, Zerocoin_HeaderVersion = 99, COINBASE_MATURITY = 4,
     MaxReorganizationDepth = 100, vUpgrades = main_upgrades\<rparr>"

section \<open>A block and its ancestors\<close>

record block_entry =
  ix_nVersion :: int
  ix_nHeight :: int
  ix_nTime :: "32 word"
  ix_nBits :: "32 word"

text \<open>The list is the walk along \<open>pprev\<close>; the empty list is \<open>NULL\<close>.\<close>

type_synonym index_chain = "block_entry list"

definition GetBlockTime :: "block_entry \<Rightarrow> int" where
  "GetBlockTime b = uint (ix_nTime b)"

fun majority_loop :: "int \<Rightarrow> nat \<Rightarrow> nat \<Rightarrow> nat \<Rightarrow> index_chain \<Rightarrow> nat" where
  "majority_loop minVersion nRequired (Suc n) nFound (pstart # pprev) =
     (if nFound < nRequired
      then majority_loop minVersion nRequired n (if ix_nVersion pstart \<ge> minVersion then nFound + 1 else nFound) pprev
      else nFound)"
| "majority_loop minVersion nRequired n nFound pstart = nFound"

definition IsSuperMajority :: "CChainParams \<Rightarrow> int \<Rightarrow> index_chain \<Rightarrow> nat \<Rightarrow> bool" where
  "IsSuperMajority P minVersion pstart nRequired \<longleftrightarrow>
     majority_loop minVersion nRequired (ToCheckBlockUpgradeMajority P) 0 pstart \<ge> nRequired"

text \<open>The vote counts the blocks of the window, although the loop stops early.\<close>

lemma majority_loop_count:
  "majority_loop v r n f c \<ge> r \<longleftrightarrow> f + length (filter (\<lambda>b. ix_nVersion b \<ge> v) (take n c)) \<ge> r"
  by (induction v r n f c rule: majority_loop.induct) auto

lemma IsSuperMajority_count:
  "IsSuperMajority P v c r \<longleftrightarrow> length (filter (\<lambda>b. ix_nVersion b \<ge> v) (take (ToCheckBlockUpgradeMajority P) c)) \<ge> r"
  by (simp add: IsSuperMajority_def majority_loop_count)

lemma IsSuperMajority_anti: "IsSuperMajority P v c r \<Longrightarrow> v' \<le> v \<Longrightarrow> IsSuperMajority P v' c r"
  unfolding IsSuperMajority_count
proof (erule order_trans)
  assume "v' \<le> v"
  then have "filter (\<lambda>b. ix_nVersion b \<ge> v) xs = filter (\<lambda>b. ix_nVersion b \<ge> v) (filter (\<lambda>b. ix_nVersion b \<ge> v') xs)" for xs :: index_chain
    by (induction xs) auto
  then show "length (filter (\<lambda>b. v \<le> ix_nVersion b) (take (ToCheckBlockUpgradeMajority P) c))
      \<le> length (filter (\<lambda>b. v' \<le> ix_nVersion b) (take (ToCheckBlockUpgradeMajority P) c))"
    by (metis length_filter_le)
qed

end
