(* ===== verification/Pow.thy ===== *)
theory Pow
  imports Params
begin

text \<open>
  The compact form of targets (\<open>SetCompact\<close>, \<open>GetCompact\<close>, src/src/uint256.cpp) and the difficulty rules (src/src/pow.cpp):
  \<open>GetNextWorkRequired\<close> (DarkGravity v3 before \<open>LAST_POW_BLOCK\<close>, the exponential moving average of the proof of stake phase after it),
  \<open>CheckProofOfWork\<close> and \<open>GetBlockProof\<close>.  Targets are arrays of eight limbs.  \<open>None\<close> is an exception (division by zero), a failed
  assertion or a null pointer that is followed.  Times are 32-bit, so the 64-bit differences of the code are integers here; the
  conversions to \<open>uint32_t\<close> and \<open>uint64_t\<close> at the arithmetic of \<open>uint256\<close> are written out.
\<close>

section \<open>Compact targets\<close>

abbreviation uint256_of :: "64 word \<Rightarrow> limb list" where "uint256_of \<equiv> base_uint_of 8"

text \<open>The result is the number, \<open>*pfNegative\<close> and \<open>*pfOverflow\<close>.\<close>

definition SetCompact :: "32 word \<Rightarrow> limb list \<times> bool \<times> bool" where
  "SetCompact nCompact =
     (let nSize = unat (drop_bit 24 nCompact);
          nWord = nCompact AND 0x007fffff;
          nWord' = (if nSize \<le> 3 then drop_bit (8 * (3 - nSize)) nWord else nWord);
          n = (if nSize \<le> 3 then uint256_of (ucast nWord') else shl_uint (uint256_of (ucast nWord')) (8 * (nSize - 3)))
      in (n, nWord' \<noteq> 0 \<and> nCompact AND 0x00800000 \<noteq> 0,
          nWord' \<noteq> 0 \<and> (nSize > 34 \<or> nWord' > 0xff \<and> nSize > 33 \<or> nWord' > 0xffff \<and> nSize > 32)))"

definition GetCompact :: "limb list \<Rightarrow> bool \<Rightarrow> 32 word option" where
  "GetCompact n fNegative =
     (let nSize = (bits n + 7) div 8;
          nCompact = (if nSize \<le> 3 then ucast (push_bit (8 * (3 - nSize)) (GetLow64 n))
                      else ucast (GetLow64 (shr_uint n (8 * (nSize - 3))))) :: 32 word;
          (nCompact, nSize) = (if nCompact AND 0x00800000 \<noteq> 0 then (drop_bit 8 nCompact, nSize + 1) else (nCompact, nSize))
      in if nCompact AND NOT 0x007fffff \<noteq> 0 \<or> \<not> nSize < 256 then None
         else let nCompact = nCompact OR push_bit 24 (of_nat nSize)
              in Some (nCompact OR (if fNegative \<and> nCompact AND 0x007fffff \<noteq> 0 then 0x00800000 else 0)))"

section \<open>Difficulty\<close>

fun pow_loop :: "int \<Rightarrow> int \<Rightarrow> limb list \<Rightarrow> limb list \<Rightarrow> int \<Rightarrow> int \<Rightarrow> index_chain \<Rightarrow> (int \<times> limb list \<times> int) option" where
  "pow_loop i CountBlocks Average AveragePrev nActualTimespan LastBlockTime [] = Some (CountBlocks, Average, nActualTimespan)"
| "pow_loop i CountBlocks Average AveragePrev nActualTimespan LastBlockTime (BlockReading # pprev) =
     (if \<not> ix_nHeight BlockReading > 0 \<or> i > 24 then Some (CountBlocks, Average, nActualTimespan)
      else
        let CountBlocks = CountBlocks + 1;
            target = fst (SetCompact (ix_nBits BlockReading));
            next = (if CountBlocks \<le> 24
                    then (if CountBlocks = 1 then Some (target, target)
                          else map_option (\<lambda>q. (q, q))
                                 (div_uint (add_uint (mul32_uint AveragePrev (word_of_int CountBlocks)) target)
                                    (uint256_of (word_of_int (CountBlocks + 1)))))
                    else Some (Average, AveragePrev))
        in case next of
             None \<Rightarrow> None
           | Some (Average, AveragePrev) \<Rightarrow>
               let nActualTimespan = (if LastBlockTime > 0 then nActualTimespan + (LastBlockTime - GetBlockTime BlockReading)
                                      else nActualTimespan);
                   LastBlockTime = GetBlockTime BlockReading
               in if pprev = [] then Some (CountBlocks, Average, nActualTimespan)
                  else pow_loop (i + 1) CountBlocks Average AveragePrev nActualTimespan LastBlockTime pprev)"

text \<open>The branch of the proof of stake phase.\<close>

definition stake_spacing :: "CChainParams \<Rightarrow> index_chain \<Rightarrow> int \<times> int" where
  "stake_spacing P pindexLast =
     (let fVerAct = IsSuperMajority P 6 pindexLast (RejectBlockOutdatedMajority P);
          fUpgradeActiveV3 = NetworkUpgradeActive (ix_nHeight (hd pindexLast)) (vUpgrades P) UPGRADE_V3_0_BLOCKTIME
      in if fVerAct \<or> fUpgradeActiveV3 then (TargetSpacing P, Interval P) else (TargetSpacingLegacy P, IntervalLegacy P))"

definition GetNextStakeRequired :: "CChainParams \<Rightarrow> index_chain \<Rightarrow> 32 word option" where
  "GetNextStakeRequired P pindexLast =
     (let bnTargetLimit = shr_uint (complement_uint (uint256_of 0)) 24;
          (nTargetSpacing, nInterval) = stake_spacing P pindexLast
      in if ix_nHeight (hd pindexLast) \<noteq> 0 \<and> tl pindexLast = [] then None
         else
           let nActualSpacing = (if ix_nHeight (hd pindexLast) \<noteq> 0
                                 then GetBlockTime (hd pindexLast) - GetBlockTime (hd (tl pindexLast)) else 0);
               nActualSpacing = (if nActualSpacing < 0 then 1 else nActualSpacing);
               bnNew = fst (SetCompact (ix_nBits (hd pindexLast)));
               bnNew = mul32_uint bnNew (word_of_int ((nInterval - 1) * nTargetSpacing + nActualSpacing + nActualSpacing))
           in case div_uint bnNew (uint256_of (word_of_int ((nInterval + 1) * nTargetSpacing))) of
                None \<Rightarrow> None
              | Some bnNew \<Rightarrow>
                  let bnNew = (if CompareTo bnNew (uint256_of 0) \<le> 0 \<or> CompareTo bnNew bnTargetLimit > 0 then bnTargetLimit else bnNew)
                  in GetCompact bnNew False)"

text \<open>The DarkGravity branch.\<close>

definition GetNextGravityRequired :: "CChainParams \<Rightarrow> index_chain \<Rightarrow> 32 word option" where
  "GetNextGravityRequired P pindexLast =
     (case pow_loop 1 0 (uint256_of 0) (uint256_of 0) 0 0 pindexLast of
        None \<Rightarrow> None
      | Some (CountBlocks, PastDifficultyAverage, nActualTimespan) \<Rightarrow>
          let nTargetTimespan = CountBlocks * TargetSpacingLegacy P;
              nActualTimespan = (if nActualTimespan < nTargetTimespan div 3 then nTargetTimespan div 3 else nActualTimespan);
              nActualTimespan = (if nActualTimespan > nTargetTimespan * 3 then nTargetTimespan * 3 else nActualTimespan)
          in case div_uint (mul32_uint PastDifficultyAverage (word_of_int nActualTimespan)) (uint256_of (word_of_int nTargetTimespan)) of
               None \<Rightarrow> None
             | Some bnNew \<Rightarrow>
                 GetCompact (if CompareTo bnNew (ProofOfWorkLimit P) > 0 then ProofOfWorkLimit P else bnNew) False)"

definition GetNextWorkRequired :: "CChainParams \<Rightarrow> index_chain \<Rightarrow> 32 word option" where
  "GetNextWorkRequired P pindexLast =
     (if pindexLast = [] \<or> ix_nHeight (hd pindexLast) = 0 \<or> ix_nHeight (hd pindexLast) < 24
      then GetCompact (ProofOfWorkLimit P) False
      else if ix_nHeight (hd pindexLast) > LAST_POW_BLOCK P then GetNextStakeRequired P pindexLast
      else GetNextGravityRequired P pindexLast)"

text \<open>The comparison of the hash with the target is commented out in the source.\<close>

definition CheckProofOfWork :: "CChainParams \<Rightarrow> limb list \<Rightarrow> 32 word \<Rightarrow> bool" where
  "CheckProofOfWork P hash nBits =
     (if SkipProofOfWorkCheck P then True
      else case SetCompact nBits of (bnTarget, fNegative, fOverflow) \<Rightarrow>
        if fNegative \<or> EqualTo bnTarget 0 \<or> fOverflow \<or> CompareTo bnTarget (ProofOfWorkLimit P) > 0 then False
        else True)"

definition GetBlockProof :: "32 word \<Rightarrow> limb list option" where
  "GetBlockProof nBits =
     (case SetCompact nBits of (bnTarget, fNegative, fOverflow) \<Rightarrow>
        if fNegative \<or> fOverflow \<or> EqualTo bnTarget 0 then Some (uint256_of 0)
        else map_option (\<lambda>q. add_uint q (uint256_of 1))
               (div_uint (complement_uint bnTarget) (add_uint bnTarget (uint256_of 1))))"

section \<open>The value of a compact target\<close>

lemma val_uint256_of: "val (uint256_of b) = unat b"
proof -
  have "val (uint256_of b) = unat b mod 2 ^ 32 + 2 ^ 32 * (unat b div 2 ^ 32 mod 2 ^ 32)"
    by (simp add: base_uint_of_def unat_low_limb unat_carry val_append)
  also have "unat b div 2 ^ 32 < 2 ^ 32" using unsigned_less [of b] by (intro less_mult_imp_div_less) simp
  then have "unat b div 2 ^ 32 mod 2 ^ 32 = unat b div 2 ^ 32" by simp
  finally show ?thesis by (simp add: mult.commute)
qed

lemma length_uint256_of [simp]: "length (uint256_of b) = 8"
  by (simp add: base_uint_of_def)

abbreviation mantissa :: "32 word \<Rightarrow> nat" where "mantissa c \<equiv> unat c mod 2 ^ 23"

abbreviation exponent :: "32 word \<Rightarrow> nat" where "exponent c \<equiv> unat c div 2 ^ 24"

text \<open>The number that a compact target denotes, without its sign and without a bound.\<close>

definition compact_value :: "32 word \<Rightarrow> nat" where
  "compact_value c = (if exponent c \<le> 3 then mantissa c div 256 ^ (3 - exponent c) else mantissa c * 256 ^ (exponent c - 3))"

lemma pow256: "(256 :: nat) ^ n = 2 ^ (8 * n)"
  by (simp add: power_mult)

lemma unat_mantissa: "unat (c AND 0x007fffff) = mantissa c" for c :: "32 word"
proof -
  have "c AND 0x007fffff = take_bit 23 c" by (simp add: take_bit_eq_mask mask_numeral)
  then have "unat (c AND 0x007fffff) = take_bit 23 (unat c)" by (simp only: unsigned_take_bit_eq)
  then show ?thesis by (simp add: take_bit_eq_mod)
qed

lemma unat_exponent: "unat (drop_bit 24 c) = exponent c" for c :: "32 word"
  unfolding unat_drop_bit_eq by (simp add: drop_bit_eq_div)

lemma unat_drop: "unat (drop_bit n w) = unat w div 2 ^ n" for w :: "'a::len word"
  unfolding unat_drop_bit_eq by (simp add: drop_bit_eq_div)

lemma unat_widen [simp]: "unat (ucast (w :: 32 word) :: 64 word) = unat w"
  by (rule unat_ucast_limb)

lemma overflow_iff:
  assumes "(m :: nat) < 2 ^ 23" and "3 < e"
  shows "m * 256 ^ (e - 3) \<ge> 2 ^ 256 \<longleftrightarrow> m \<noteq> 0 \<and> (e > 34 \<or> m > 0xff \<and> e > 33 \<or> m > 0xffff \<and> e > 32)"
proof -
  have big: "2 ^ 256 \<le> m * 256 ^ (e - 3)" if "x \<le> m" "n \<le> e - 3" "2 ^ 256 \<le> x * 256 ^ n" for x n
  proof -
    have "x * 256 ^ n \<le> m * 256 ^ (e - 3)" using that by (intro mult_le_mono power_increasing) simp_all
    then show ?thesis using that(3) by linarith
  qed
  have small: "m * 256 ^ (e - 3) < 2 ^ 256" if "m < x" "e - 3 \<le> n" "x * 256 ^ n \<le> 2 ^ 256" for x n
  proof -
    have "m * 256 ^ (e - 3) < x * 256 ^ (e - 3)" using that by (intro mult_strict_right_mono) simp_all
    also have "\<dots> \<le> x * 256 ^ n" using that by (intro mult_le_mono power_increasing) simp_all
    finally show ?thesis using that(3) by linarith
  qed
  consider "e \<le> 32" | "e = 33" | "e = 34" | "e \<ge> 35" by linarith
  then show ?thesis
  proof cases
    case 1
    then have "e - 3 \<le> 29" by simp
    then show ?thesis using small [of "2 ^ 23" 29] assms(1) 1 by simp
  next
    case 2
    then show ?thesis using small [of "0x10000" 30] big [of "0x10000" 30] by (cases "m > 0xffff") simp_all
  next
    case 3
    then show ?thesis using small [of "0x100" 31] big [of "0x100" 31] by (cases "m > 0xff") simp_all
  next
    case 4
    then show ?thesis using big [of 1 32] by (cases "m = 0") simp_all
  qed
qed

text \<open>\<open>SetCompact\<close> is exact, and reports exactly the targets that do not fit.\<close>

lemma SetCompact_val:
  obtains n where "SetCompact c = (n, compact_value c \<noteq> 0 \<and> bit c 23, compact_value c \<ge> 2 ^ 256)"
    and "length n = 8" and "val n = compact_value c mod 2 ^ 256"
proof -
  let ?s = "exponent c" and ?m = "mantissa c"
  have neg: "c AND 0x00800000 \<noteq> 0 \<longleftrightarrow> bit c 23"
    using and_exp_eq_0_iff_not_bit [of c 23] by simp
  have m: "?m < 2 ^ 23" by simp
  show ?thesis
  proof (cases "?s \<le> 3")
    case True
    let ?w = "drop_bit (8 * (3 - ?s)) (c AND 0x007fffff)"
    have w: "unat ?w = compact_value c" unfolding unat_drop unat_mantissa using True by (simp add: compact_value_def pow256)
    have "compact_value c \<le> ?m" using True by (simp add: compact_value_def)
    then have "compact_value c < 2 ^ 23" using m by (rule le_less_trans)
    then have small: "compact_value c < 2 ^ 256" by (rule less_le_trans) simp
    have "?w \<noteq> 0 \<longleftrightarrow> compact_value c \<noteq> 0" using w by (metis unat_eq_0)
    then show ?thesis using True w small neg
      by (intro that [of "uint256_of (ucast ?w)"]) (simp_all add: SetCompact_def Let_def unat_exponent val_uint256_of)
  next
    case False
    let ?w = "c AND 0x007fffff" and ?n = "8 * (?s - 3)"
    have v: "compact_value c = ?m * 256 ^ (?s - 3)" using False by (simp add: compact_value_def)
    have val: "val (shl_uint (uint256_of (ucast ?w)) ?n) = compact_value c mod 2 ^ 256"
      by (simp add: shl_uint_val val_uint256_of unat_mantissa v push_bit_eq_mult take_bit_eq_mod pow256)
    have "?w \<noteq> 0 \<longleftrightarrow> ?m \<noteq> 0" by (metis unat_eq_0 unat_mantissa)
    moreover have "?w > 0xff \<longleftrightarrow> ?m > 0xff" "?w > 0xffff \<longleftrightarrow> ?m > 0xffff"
      using unat_mantissa [of c] by (simp_all add: word_less_nat_alt)
    moreover have "compact_value c \<noteq> 0 \<longleftrightarrow> ?m \<noteq> 0" by (simp add: v)
    moreover have "compact_value c \<ge> 2 ^ 256 \<longleftrightarrow> ?m \<noteq> 0 \<and> (?s > 34 \<or> ?m > 0xff \<and> ?s > 33 \<or> ?m > 0xffff \<and> ?s > 32)"
      unfolding v using False by (intro overflow_iff) simp_all
    ultimately show ?thesis using False val neg
      by (intro that [of "shl_uint (uint256_of (ucast ?w)) ?n"]) (simp_all add: SetCompact_def Let_def unat_exponent)
  qed
qed

section \<open>The compact form of a number\<close>

text \<open>A number \<open>v\<close> has the normalised mantissa \<open>m\<close> and the exponent \<open>s\<close>.\<close>

definition compact_form :: "nat \<Rightarrow> nat \<Rightarrow> nat \<Rightarrow> bool" where
  "compact_form v m s \<longleftrightarrow> 2 ^ 15 \<le> m \<and> m < 2 ^ 23 \<and> m * 256 ^ s \<le> v * 256 ^ 3 \<and> v * 256 ^ 3 < (m + 1) * 256 ^ s"

lemma compact_form_less:
  assumes "compact_form v m s" and "compact_form v m' s'"
  shows "\<not> s < s'"
proof
  assume "s < s'"
  have "v * 256 ^ 3 < (m + 1) * 256 ^ s" using assms(1) by (simp add: compact_form_def)
  also have "\<dots> \<le> 2 ^ 23 * 256 ^ s" using assms(1) by (intro mult_right_mono) (simp_all add: compact_form_def)
  also have "\<dots> = 2 ^ 15 * 256 ^ Suc s" by simp
  also have "\<dots> \<le> m' * 256 ^ s'" using assms(2) \<open>s < s'\<close> by (intro mult_le_mono power_increasing) (simp_all add: compact_form_def)
  also have "\<dots> \<le> v * 256 ^ 3" using assms(2) by (simp add: compact_form_def)
  finally show False by simp
qed

lemma compact_form_unique:
  assumes "compact_form v m s" and "compact_form v m' s'"
  shows "m = m' \<and> s = s'"
proof -
  have s: "s = s'" using compact_form_less [OF assms] compact_form_less [OF assms(2,1)] by simp
  have "m = v * 256 ^ 3 div 256 ^ s" "m' = v * 256 ^ 3 div 256 ^ s'"
    using assms by (auto simp: compact_form_def div_nat_eqI mult.commute)
  then show ?thesis using s by simp
qed

lemma compact_form_value:
  assumes "compact_form v (mantissa c) (exponent c)"
  shows "compact_value c \<le> v" and "(v - compact_value c) * 2 ^ 15 \<le> v" and "compact_form (compact_value c) (mantissa c) (exponent c)"
    and "compact_value c \<noteq> 0"
proof -
  let ?m = "mantissa c" and ?s = "exponent c"
  note f = assms [unfolded compact_form_def]
  have "compact_value c \<le> v \<and> (v - compact_value c) * 2 ^ 15 \<le> v \<and> compact_form (compact_value c) ?m ?s \<and> compact_value c \<noteq> 0"
  proof (cases "?s \<le> 3")
    case True
    have e: "(256 :: nat) ^ 3 = 256 ^ (3 - ?s) * 256 ^ ?s" using True by (simp flip: power_add)
    have 1: "?m * 256 ^ ?s \<le> (v * 256 ^ (3 - ?s)) * 256 ^ ?s" and 2: "(v * 256 ^ (3 - ?s)) * 256 ^ ?s < (?m + 1) * 256 ^ ?s"
      using f unfolding e by (simp_all only: mult.assoc)
    have "?m \<le> v * 256 ^ (3 - ?s)" "v * 256 ^ (3 - ?s) < ?m + 1"
      using mult_right_le_imp_le [OF 1] mult_right_less_imp_less [OF 2] by simp_all
    then have m: "?m = v * 256 ^ (3 - ?s)" by simp
    then have "compact_value c = v" using True by (simp add: compact_value_def)
    moreover have "v \<noteq> 0" using m f by (cases "v = 0") simp_all
    ultimately show ?thesis using assms by simp
  next
    case False
    then have s: "?s = 3 + (?s - 3)" by simp
    have v: "compact_value c = ?m * 256 ^ (?s - 3)" using False by (simp add: compact_value_def)
    have e: "x * 256 ^ ?s = x * 256 ^ (?s - 3) * 256 ^ 3" for x :: nat
      by (subst s, subst power_add) simp
    have 1: "?m * 256 ^ (?s - 3) * 256 ^ 3 \<le> v * 256 ^ 3" and 2: "v * 256 ^ 3 < (?m + 1) * 256 ^ (?s - 3) * 256 ^ 3"
      using f unfolding e by simp_all
    have lo: "compact_value c \<le> v" and hi: "v < (?m + 1) * 256 ^ (?s - 3)" unfolding v
      using mult_right_le_imp_le [OF 1] mult_right_less_imp_less [OF 2] by simp_all
    have "v - compact_value c \<le> 256 ^ (?s - 3)" using hi lo unfolding v add_mult_distrib by linarith
    then have "(v - compact_value c) * 2 ^ 15 \<le> 256 ^ (?s - 3) * ?m" using f by (intro mult_le_mono) simp_all
    also have "\<dots> = compact_value c" unfolding v by (rule mult.commute)
    finally have "(v - compact_value c) * 2 ^ 15 \<le> v" using lo by (rule order_trans)
    moreover have "compact_form (compact_value c) ?m ?s" using f unfolding compact_form_def e v by simp
    moreover have "compact_value c \<noteq> 0" using f unfolding v by auto
    ultimately show ?thesis using lo by simp
  qed
  then show "compact_value c \<le> v" "(v - compact_value c) * 2 ^ 15 \<le> v" "compact_form (compact_value c) ?m ?s" "compact_value c \<noteq> 0"
    by simp_all
qed

lemma unat_GetLow64: "2 \<le> length a \<Longrightarrow> unat (GetLow64 a) = val a mod 2 ^ 64"
proof -
  assume "2 \<le> length a"
  then obtain p q r where a: "a = p # q # r" by (metis Suc_le_length_iff numeral_2_eq_2)
  have "ucast p AND push_bit 32 (ucast q) = (0 :: 64 word)"
    by (rule bit_eqI) (auto simp: bit_simps dest: bit_imp_le_length)
  then have "GetLow64 a = ucast p + push_bit 32 (ucast q)" by (simp add: GetLow64_def a disjunctive_add_eq_or)
  moreover have q: "unat (push_bit 32 (ucast q) :: 64 word) = 2 ^ 32 * unat q"
    using unat_limb [of q] by (simp add: push_bit_eq_mult) (subst unat_word_prod64; simp)
  ultimately have "unat (GetLow64 a) = unat p + 2 ^ 32 * unat q"
    using unat_limb [of p] unat_limb [of q] by (simp only:) (subst unat_word_sum64; simp)
  moreover have "val a mod 2 ^ 64 = unat p + 2 ^ 32 * unat q"
  proof -
    have "unat p + 2 ^ 32 * unat q < 2 ^ 64" using unat_limb [of p] unat_limb [of q] by simp
    moreover have "val a = unat p + 2 ^ 32 * unat q + 2 ^ 64 * val r" by (simp add: a algebra_simps)
    ultimately show ?thesis by simp
  qed
  ultimately show ?thesis by simp
qed

lemma unat_narrow: "unat (ucast (w :: 64 word) :: 32 word) = unat w mod 2 ^ 32"
  by (rule unat_low_limb)

text \<open>The mantissa before it is normalised: 24 bits of the number.\<close>

lemma GetCompact_word:
  assumes "length a = 8" and "val a \<noteq> 0" and "N = (bits a + 7) div 8"
    and "w = (if N \<le> 3 then ucast (push_bit (8 * (3 - N)) (GetLow64 a)) else ucast (GetLow64 (shr_uint a (8 * (N - 3)))) :: 32 word)"
  shows "2 ^ 16 \<le> unat w" and "unat w < 2 ^ 24" and "unat w * 256 ^ N \<le> val a * 256 ^ 3" and "val a * 256 ^ 3 < (unat w + 1) * 256 ^ N"
    and "1 \<le> N" and "N \<le> 32"
proof -
  note b = bits_val [of a]
  have N: "1 \<le> N" "N \<le> 32" "bits a \<le> 8 * N" "8 * (N - 1) \<le> bits a - 1" using b(2,4) assms by auto
  then show "1 \<le> N" "N \<le> 32" by simp_all
  have hi: "val a < 256 ^ N"
    using less_le_trans [OF b(1) power_increasing [OF N(3)]] unfolding pow256 by simp
  have lo: "256 ^ (N - 1) \<le> val a"
    using order_trans [OF power_increasing [OF N(4), of "2 :: nat"]] b(2) assms(2) unfolding pow256 by simp
  show "2 ^ 16 \<le> unat w" "unat w < 2 ^ 24" "unat w * 256 ^ N \<le> val a * 256 ^ 3" "val a * 256 ^ 3 < (unat w + 1) * 256 ^ N"
  proof -
    consider "N \<le> 3" | "N > 3" by linarith
    then have "2 ^ 16 \<le> unat w \<and> unat w < 2 ^ 24 \<and> unat w * 256 ^ N \<le> val a * 256 ^ 3 \<and> val a * 256 ^ 3 < (unat w + 1) * 256 ^ N"
    proof cases
      case 1
      have e: "(256 :: nat) ^ 3 = 256 ^ (3 - N) * 256 ^ N" "(256 :: nat) ^ 3 = 256 ^ N * 256 ^ (3 - N)" "(256 :: nat) ^ 2 = 256 ^ (N - 1) * 256 ^ (3 - N)"
        using 1 N(1) by (simp_all flip: power_add)
      have v: "val a * 256 ^ (3 - N) < 256 ^ 3" unfolding e(2) using hi by (intro mult_strict_right_mono) simp_all
      have "val a < 2 ^ 64" by (rule le_less_trans [of _ "val a * 256 ^ (3 - N)"]) (use v in simp_all)
      then have "unat (GetLow64 a) = val a" using assms(1) by (simp add: unat_GetLow64)
      then have "unat (push_bit (8 * (3 - N)) (GetLow64 a)) = val a * 256 ^ (3 - N)"
        unfolding unsigned_push_bit_eq using v by (simp add: push_bit_eq_mult take_bit_nat_eq_self pow256)
      then have w: "unat w = val a * 256 ^ (3 - N)" using 1 v assms(4) by (simp add: unat_narrow)
      have "256 ^ 2 \<le> unat w" unfolding w e(3) using lo by (intro mult_right_mono) simp_all
      moreover have x: "unat w * 256 ^ N = val a * 256 ^ 3" unfolding w e(1) by (simp only: mult.assoc)
      moreover have "unat w * 256 ^ N < (unat w + 1) * 256 ^ N" by (intro mult_strict_right_mono) simp_all
      moreover have "unat w < 2 ^ 24" using v w by simp
      ultimately show ?thesis unfolding x [symmetric] by simp
    next
      case 2
      define K where "K = (256 :: nat) ^ (N - 3)"
      have e: "(256 :: nat) ^ N = K * 256 ^ 3" "(256 :: nat) ^ (N - 1) = K * 256 ^ 2"
        using 2 power_add [of "256 :: nat" "N - 3" 3] power_add [of "256 :: nat" "N - 3" 2]
        by (simp_all add: K_def Suc_diff_Suc numeral_3_eq_3 numeral_2_eq_2)
      have K: "0 < K" by (simp add: K_def)
      have shr: "val (shr_uint a (8 * (N - 3))) = val a div K" by (simp add: shr_uint_val drop_bit_eq_div K_def pow256)
      have up: "val a div K < 256 ^ 3" using hi K by (simp add: e less_mult_imp_div_less mult.commute)
      then have w: "unat w = val a div K" using 2 assms(1,4) shr by (simp add: unat_narrow unat_GetLow64)
      have "256 ^ 2 \<le> unat w" unfolding w using lo [unfolded e(2)] K by (simp add: less_eq_div_iff_mult_less_eq mult.commute)
      moreover have "unat w * K \<le> val a" "val a < (unat w + 1) * K"
        unfolding w using K by (simp_all add: dividend_less_div_times)
      ultimately show ?thesis using up w by (simp add: e)
    qed
    then show "2 ^ 16 \<le> unat w" "unat w < 2 ^ 24" "unat w * 256 ^ N \<le> val a * 256 ^ 3" "val a * 256 ^ 3 < (unat w + 1) * 256 ^ N"
      by simp_all
  qed
qed

text \<open>\<open>GetCompact\<close> never fails its assertions on eight limbs, and gives the normalised form of the number.\<close>

lemma join_compact:
  assumes "m < 2 ^ 23" and "s < 256" and "unat w = m"
  shows "unat (w OR push_bit 24 (of_nat s) :: 32 word) = m + 2 ^ 24 * s"
proof -
  have w: "\<not> bit w n" if "24 \<le> n" for n
  proof -
    have "unat w < 2 ^ n" using assms(1,3) that by (intro less_le_trans [OF _ power_increasing [OF that]]) simp_all
    then have "\<not> bit (unat w) n" unfolding bit_iff_odd by simp
    then show ?thesis by (auto simp: bit_unsigned_iff dest: bit_imp_possible_bit)
  qed
  define h :: "32 word" where "h = push_bit 24 (of_nat s)"
  have "w AND h = 0" unfolding h_def by (rule bit_eqI) (use w in \<open>auto simp: bit_and_iff bit_push_bit_iff\<close>)
  then have e: "w OR h = w + h" by (simp add: disjunctive_add_eq_or)
  have "2 ^ 24 * s < 2 ^ 32" using assms(2) by simp
  then have "unat (of_nat (2 ^ 24 * s) :: 32 word) = 2 ^ 24 * s" unfolding unsigned_of_nat by (subst take_bit_nat_eq_self; simp)
  moreover have "h = of_nat (2 ^ 24 * s)" unfolding h_def by (simp add: push_bit_eq_mult)
  ultimately have h: "unat h = 2 ^ 24 * s" by simp
  have "unat w + unat h < 2 ^ 32" unfolding h assms(3) using assms(1,2) by simp
  then have "unat (w + h) = unat w + unat h" by (subst unat_add_lem [symmetric]) simp
  then show ?thesis unfolding h_def [symmetric] e using h assms(3) by simp
qed

lemma bit23: "unat (w :: 32 word) < 2 ^ 24 \<Longrightarrow> w AND 0x00800000 \<noteq> 0 \<longleftrightarrow> unat w \<ge> 2 ^ 23"
proof -
  assume w: "unat w < 2 ^ 24"
  have "w AND 0x00800000 \<noteq> 0 \<longleftrightarrow> bit w 23" using and_exp_eq_0_iff_not_bit [of w 23] by simp
  also have "\<dots> \<longleftrightarrow> bit (unat w) 23" by (simp add: bit_unsigned_iff)
  also have "\<dots> \<longleftrightarrow> odd (unat w div 2 ^ 23)" by (simp add: bit_iff_odd)
  also have "\<dots> \<longleftrightarrow> unat w \<ge> 2 ^ 23"
  proof (cases "unat w \<ge> 2 ^ 23")
    case True
    then have "unat w div 2 ^ 23 = 1" using w by (intro div_nat_eqI) simp_all
    then show ?thesis using True by simp
  qed simp
  finally show ?thesis .
qed

lemma no_high_bits: "unat (w :: 32 word) < 2 ^ 23 \<Longrightarrow> w AND NOT 0x007fffff = 0"
proof -
  assume w: "unat w < 2 ^ 23"
  then have "unat w = mantissa w" by simp
  then have "w = w AND 0x007fffff" unfolding unat_mantissa [symmetric] by (simp only: word_unat_eq_iff)
  then show ?thesis by (metis and.assoc and.right_neutral and_zero_eq bit.conj_cancel_right)
qed

lemma GetCompact_form:
  assumes "length a = 8" and "val a \<noteq> 0"
  obtains c where "GetCompact a False = Some c" and "compact_form (val a) (mantissa c) (exponent c)" and "\<not> bit c 23" and "exponent c \<le> 33"
proof -
  define N where "N = (bits a + 7) div 8"
  define w where "w = (if N \<le> 3 then ucast (push_bit (8 * (3 - N)) (GetLow64 a)) else ucast (GetLow64 (shr_uint a (8 * (N - 3)))) :: 32 word)"
  note g = GetCompact_word [OF assms N_def w_def]
  define w' s where "w' = (if unat w \<ge> 2 ^ 23 then drop_bit 8 w else w)" and "s = (if unat w \<ge> 2 ^ 23 then N + 1 else N)"
  have s: "s \<le> 33" using g(6) by (simp add: s_def)
  have form: "compact_form (val a) (unat w') s"
  proof (cases "unat w \<ge> 2 ^ 23")
    case True
    have d: "unat w' = unat w div 256" using True by (simp add: w'_def unat_drop)
    have e: "x * 256 ^ s = x * 256 * 256 ^ N" for x :: nat using True by (simp add: s_def)
    have "unat w div 256 * 256 \<le> unat w" "unat w + 1 \<le> (unat w div 256 + 1) * 256" by simp_all
    then have "unat w div 256 * 256 ^ s \<le> unat w * 256 ^ N" "(unat w + 1) * 256 ^ N \<le> (unat w div 256 + 1) * 256 ^ s"
      unfolding e by (intro mult_right_mono; simp)+
    then have "unat w div 256 * 256 ^ s \<le> val a * 256 ^ 3" "val a * 256 ^ 3 < (unat w div 256 + 1) * 256 ^ s"
      using g(3,4) by linarith+
    moreover have "2 ^ 15 \<le> unat w div 256" using div_le_mono [OF True, of 256] by simp
    moreover have "unat w div 256 < 2 ^ 23" using g(2) by (simp add: less_mult_imp_div_less)
    ultimately show ?thesis unfolding compact_form_def d by simp
  qed (use g in \<open>simp add: compact_form_def w'_def s_def\<close>)
  have m: "unat w' < 2 ^ 23" using form by (simp add: compact_form_def)
  define c where "c = w' OR push_bit 24 (of_nat s :: 32 word)"
  have c: "unat c = unat w' + 2 ^ 24 * s" unfolding c_def by (rule join_compact) (use m s in simp_all)
  have "GetCompact a False = Some c"
    using bit23 [OF g(2)] no_high_bits [OF m] s
    by (simp add: GetCompact_def Let_def c_def w'_def s_def flip: N_def w_def split: if_splits)
  moreover have "mantissa c = unat w'"
  proof -
    have "unat c = unat w' + 2 ^ 23 * (2 * s)" unfolding c by simp
    then show ?thesis using m by (simp only: mod_mult_self2 mod_less)
  qed
  moreover have "exponent c = s" unfolding c using m by simp
  moreover have "\<not> bit c 23"
  proof -
    have "unat c = unat w' + 2 ^ 23 * (2 * s)" unfolding c by simp
    then have "unat c div 2 ^ 23 = 2 * s" using m by simp
    then have "\<not> bit (unat c) 23" unfolding bit_iff_odd by simp
    then show ?thesis by (simp add: bit_unsigned_iff)
  qed
  ultimately show ?thesis using that form s by simp
qed

section \<open>Round trip of compact targets\<close>

lemma val_0_replicate: "val a = 0 \<Longrightarrow> a = replicate (length a) 0"
  using val_inject [of a "replicate (length a) 0"] by simp

lemma compact_value_0 [simp]: "compact_value 0 = 0"
  by (simp add: compact_value_def)

lemma GetCompact_0: "GetCompact (replicate 8 0) False = Some 0"
  by code_simp

lemma GetCompact_zero: "length a = 8 \<Longrightarrow> val a = 0 \<Longrightarrow> GetCompact a False = Some 0"
  using val_0_replicate GetCompact_0 by metis

lemma word_by_parts: "mantissa c = mantissa d \<Longrightarrow> exponent c = exponent d \<Longrightarrow> \<not> bit c 23 \<Longrightarrow> \<not> bit d 23 \<Longrightarrow> c = d"
proof -
  assume a: "mantissa c = mantissa d" "exponent c = exponent d" "\<not> bit c 23" "\<not> bit d 23"
  have e: "unat x = 2 ^ 24 * exponent x + mantissa x" if "\<not> bit x 23" for x :: "32 word"
  proof -
    have "\<not> bit (unat x) 23" using that by (simp add: bit_unsigned_iff)
    then have "even (unat x div 2 ^ 23)" by (simp only: bit_iff_odd not_not)
    moreover have "unat x div 2 ^ 23 div 2 = exponent x" by (simp flip: div_mult2_eq)
    ultimately have "unat x div 2 ^ 23 = 2 * exponent x" by (metis dvd_mult_div_cancel)
    then show ?thesis using mult_div_mod_eq [of "2 ^ 23" "unat x"] by simp
  qed
  show "c = d" using e [OF a(3)] e [OF a(4)] a(1,2) by (simp add: word_unat_eq_iff)
qed

text \<open>C34: The compact form of any 256-bit number exists (no assertion fails); decoding it gives a target that is not negative, does not
  overflow, never exceeds the number, and differs from it by at most a part in 2^15; encoding the decoded target again gives the same
  compact form.
\<close>
theorem Compact_roundtrip:
  assumes "length a = 8"
  shows "\<exists>c n. GetCompact a False = Some c \<and> SetCompact c = (n, False, False) \<and> length n = 8 \<and>
      val n \<le> val a \<and> (val a - val n) * 2 ^ 15 \<le> val a \<and> GetCompact n False = Some c"
proof (cases "val a = 0")
  case True
  obtain n where "SetCompact 0 = (n, False, False)" "length n = 8" "val n = 0"
    by (rule SetCompact_val [of 0]) simp
  then show ?thesis using True GetCompact_zero assms by auto
next
  case False
  obtain c where c: "GetCompact a False = Some c" "compact_form (val a) (mantissa c) (exponent c)" "\<not> bit c 23"
    by (rule GetCompact_form [OF assms False])
  note v = compact_form_value [OF c(2)]
  have "compact_value c < 2 ^ 256" using v(1) val_bound [of a] assms by (simp add: le_less_trans)
  then obtain n where n: "SetCompact c = (n, False, False)" "length n = 8" "val n = compact_value c"
    using SetCompact_val [of c] c(3) by auto
  obtain d where d: "GetCompact n False = Some d" "compact_form (val n) (mantissa d) (exponent d)" "\<not> bit d 23"
    by (rule GetCompact_form [OF n(2)]) (use n(3) v(4) in auto)
  have "mantissa c = mantissa d \<and> exponent c = exponent d" using compact_form_unique [OF v(3)] d(2) n(3) by simp
  then have "d = c" using word_by_parts c(3) d(3) by metis
  then show ?thesis using c n d(1) v(1,2) by auto
qed

theorem Compact_roundtrip_witness:
  "\<exists>c n. GetCompact (uint256_of 0x123456789) False = Some c \<and> SetCompact c = (n, False, False) \<and> length n = 8 \<and>
      val n \<le> val (uint256_of 0x123456789) \<and> (val (uint256_of 0x123456789) - val n) * 2 ^ 15 \<le> val (uint256_of 0x123456789) \<and>
      GetCompact n False = Some c"
  by (rule Compact_roundtrip) simp

section \<open>Proof of work\<close>

lemma all_ones_shr: "val (shr_uint (complement_uint (uint256_of 0)) n) = (2 ^ 256 - 1) div 2 ^ n"
proof -
  have "val (complement_uint (uint256_of 0)) = 2 ^ 256 - 1"
    using complement_val [of "uint256_of 0"] by (simp add: val_uint256_of)
  then show ?thesis by (simp add: shr_uint_val drop_bit_eq_div)
qed

lemma length_complement [simp]: "length (complement_uint a) = length a"
  by (simp add: complement_val)

lemma ucast_limb_0: "(ucast (p :: limb) :: 64 word) = 0 \<longleftrightarrow> p = 0"
  by (metis unat_eq_0 unat_ucast_limb)

lemma EqualTo_0: "2 \<le> length a \<Longrightarrow> EqualTo a 0 \<longleftrightarrow> val a = 0"
proof -
  assume "2 \<le> length a"
  then obtain p q r where "a = p # q # r" by (metis Suc_le_length_iff numeral_2_eq_2)
  then show ?thesis using IsNull_val [of r] by (auto simp: EqualTo_def IsNull_uint_def unat_eq_0 ucast_limb_0)
qed

lemma CheckProofOfWork_iff:
  assumes "length (ProofOfWorkLimit P) = 8"
  shows "CheckProofOfWork P hash nBits \<longleftrightarrow> SkipProofOfWorkCheck P \<or>
    \<not> bit nBits 23 \<and> compact_value nBits \<noteq> 0 \<and> compact_value nBits \<le> val (ProofOfWorkLimit P)"
proof -
  obtain n where n: "SetCompact nBits = (n, compact_value nBits \<noteq> 0 \<and> bit nBits 23, compact_value nBits \<ge> 2 ^ 256)"
    "length n = 8" "val n = compact_value nBits mod 2 ^ 256" by (rule SetCompact_val)
  show ?thesis
  proof (cases "compact_value nBits \<ge> 2 ^ 256")
    case True
    then have "val (ProofOfWorkLimit P) < compact_value nBits" using val_bound [of "ProofOfWorkLimit P"] assms(1) by simp
    then show ?thesis using True n(1) by (simp add: CheckProofOfWork_def)
  next
    case False
    then show ?thesis using n assms by (auto simp: CheckProofOfWork_def EqualTo_0 CompareTo_val sgn_if)
  qed
qed

text \<open>C35: The proof of work check accepts a block header exactly when its compact target is not negative, not zero and not above the limit of
  the network: the hash of the block plays no part in it, so no work has to be shown.
\<close>
theorem CheckProofOfWork_ignores_hash:
  assumes "length (ProofOfWorkLimit P) = 8" and "\<not> SkipProofOfWorkCheck P"
  shows "CheckProofOfWork P hash nBits \<longleftrightarrow>
    \<not> bit nBits 23 \<and> compact_value nBits \<noteq> 0 \<and> compact_value nBits \<le> val (ProofOfWorkLimit P)"
  using CheckProofOfWork_iff assms by blast

text \<open>The proof of a block is the whole part of 2^256 / (target + 1), computed without an overflow and without a division by zero; a header
  with a negative, overflowing or zero target proves nothing.
\<close>
theorem GetBlockProof_exact:
  "\<exists>p. GetBlockProof nBits = Some p \<and> length p = 8 \<and>
     val p = (if bit nBits 23 \<or> compact_value nBits \<ge> 2 ^ 256 \<or> compact_value nBits = 0 then 0
              else 2 ^ 256 div (compact_value nBits + 1))"
proof -
  let ?T = "compact_value nBits"
  obtain n where n: "SetCompact nBits = (n, ?T \<noteq> 0 \<and> bit nBits 23, ?T \<ge> 2 ^ 256)" "length n = 8" "val n = ?T mod 2 ^ 256"
    by (rule SetCompact_val)
  show ?thesis
  proof (cases "bit nBits 23 \<or> ?T \<ge> 2 ^ 256 \<or> ?T = 0")
    case True
    then show ?thesis using n by (auto simp: GetBlockProof_def EqualTo_0 val_uint256_of)
  next
    case False
    then have v: "val n = ?T" "?T < 2 ^ 256" "?T \<noteq> 0" "\<not> bit nBits 23" using n(3) by simp_all
    have "?T + 1 < 2 ^ 256"
    proof (cases "exponent nBits \<le> 3")
      case True
      then have "?T \<le> mantissa nBits" by (simp add: compact_value_def)
      then have "?T < 2 ^ 23" by (rule le_less_trans) simp
      then show ?thesis by (simp add: less_imp_le_nat)
    next
      case False
      then have "even ?T" by (simp add: compact_value_def)
      then have "?T + 1 \<noteq> 2 ^ 256" by (metis even_plus_one_iff even_numeral even_power zero_less_numeral)
      then show ?thesis using v(2) by linarith
    qed
    then have d: "val (add_uint n (uint256_of 1)) = ?T + 1" "length (add_uint n (uint256_of 1)) = 8"
      using add_uint_val [of n "uint256_of 1"] n(2) v(1) by (simp_all add: val_uint256_of)
    have "val (complement_uint n) + (?T + 1) = 2 ^ 256" using complement_val [of n] n(2) v(1) by simp
    then have c: "val (complement_uint n) = 2 ^ 256 - (?T + 1)" by linarith
    have lc: "length (complement_uint n) = 8" using n(2) by simp
    have "div_uint (complement_uint n) (add_uint n (uint256_of 1)) \<noteq> None" using div_uint_val(1) lc d by simp
    then obtain q where q: "div_uint (complement_uint n) (add_uint n (uint256_of 1)) = Some q" by blast
    then have ql: "length q = 8" and qv: "val q = (2 ^ 256 - (?T + 1)) div (?T + 1)"
      using div_uint_val(2) [OF _ q] lc d c by simp_all
    have s: "val q + 1 = 2 ^ 256 div (?T + 1)" unfolding qv using le_div_geq [of "?T + 1" "2 ^ 256"] \<open>?T + 1 < 2 ^ 256\<close> by simp
    have "2 ^ 256 div (?T + 1) < 2 ^ 256" using v(3) by (intro div_less_dividend) simp_all
    then have "val (add_uint q (uint256_of 1)) = 2 ^ 256 div (?T + 1)" "length (add_uint q (uint256_of 1)) = 8"
      using add_uint_val [of q "uint256_of 1"] ql s by (simp_all add: val_uint256_of)
    then show ?thesis using q n v False by (simp add: GetBlockProof_def EqualTo_0)
  qed
qed

theorem CheckProofOfWork_ignores_hash_witness:
  "CheckProofOfWork mainParams (uint256_of 5) 0x1e0ffff0 \<longleftrightarrow>
    \<not> bit (0x1e0ffff0 :: 32 word) 23 \<and> compact_value 0x1e0ffff0 \<noteq> 0 \<and> compact_value 0x1e0ffff0 \<le> val (ProofOfWorkLimit mainParams)"
  by (rule CheckProofOfWork_ignores_hash) (simp_all add: mainParams_def)

section \<open>The required work\<close>

definition params_ok :: "CChainParams \<Rightarrow> bool" where
  "params_ok P \<longleftrightarrow> length (ProofOfWorkLimit P) = 8 \<and> 2 ^ 232 \<le> val (ProofOfWorkLimit P) \<and>
     0 < TargetSpacingLegacy P \<and> TargetSpacingLegacy P \<le> TargetTimespanLegacy P \<and> TargetTimespanLegacy P < 2 ^ 31 \<and>
     0 < TargetSpacing P \<and> TargetSpacing P \<le> TargetTimespan P \<and> TargetTimespan P < 2 ^ 31"

lemma mainParams_ok: "params_ok mainParams" "val (ProofOfWorkLimit mainParams) = 2 ^ 236 - 1"
  by (simp_all add: params_ok_def mainParams_def all_ones_shr)

definition stake_limit :: "limb list" where
  "stake_limit = shr_uint (complement_uint (uint256_of 0)) 24"

lemma stake_limit: "val stake_limit = 2 ^ 232 - 1" "length stake_limit = 8"
  by (simp_all add: stake_limit_def all_ones_shr)

lemma val_word64: "0 \<le> x \<Longrightarrow> x < 2 ^ 64 \<Longrightarrow> val (uint256_of (word_of_int x)) = nat x"
  by (simp add: val_uint256_of unsigned_of_int take_bit_int_eq_self)

lemma stake_spacing_bounds:
  assumes "params_ok P" and "stake_spacing P c = (S, I)"
  shows "0 < S" and "1 \<le> I" and "(I + 1) * S < 2 ^ 32" and "0 < (I + 1) * S"
proof -
  have *: "0 < S \<and> 1 \<le> T div S \<and> (T div S + 1) * S < 2 ^ 32" if "0 < S" "S \<le> T" "T < 2 ^ 31" for S T :: int
  proof -
    have "1 * S \<le> T" using that by simp
    then have "1 \<le> T div S" using that(1) by (simp add: pos_imp_zdiv_pos_iff zdiv_mono1 int_one_le_iff_zero_less)
    moreover have "T div S * S \<le> T" using that(1) by (simp add: minus_mod_eq_div_mult [symmetric])
    ultimately show ?thesis using that by (simp add: distrib_right)
  qed
  have "0 < S \<and> 1 \<le> I \<and> (I + 1) * S < 2 ^ 32"
    using assms * [of "TargetSpacing P" "TargetTimespan P"] * [of "TargetSpacingLegacy P" "TargetTimespanLegacy P"]
    by (auto simp: params_ok_def stake_spacing_def Let_def Interval_def IntervalLegacy_def split: if_splits)
  then show "0 < S" "1 \<le> I" "(I + 1) * S < 2 ^ 32" "0 < (I + 1) * S" by simp_all
qed

lemma SetCompact_fst: "length (fst (SetCompact c)) = 8" "val (fst (SetCompact c)) = compact_value c mod 2 ^ 256"
  by (rule SetCompact_val [of c], simp)+

text \<open>The seconds that the last block took, as the retarget counts them.\<close>

definition spacing_of :: "block_entry \<Rightarrow> block_entry \<Rightarrow> int" where
  "spacing_of b prev = (if GetBlockTime b - GetBlockTime prev < 0 then 1 else GetBlockTime b - GetBlockTime prev)"

lemma spacing_of_bounds: "0 \<le> spacing_of b prev" "spacing_of b prev < 2 ^ 32"
proof -
  have "0 \<le> (if x - y < 0 then 1 else x - y) \<and> (if x - y < 0 then 1 else x - y) < 2 ^ 32" if "x < 2 ^ 32" "0 \<le> y" for x y :: int
    using that by simp
  from this [of "uint (ix_nTime b)" "uint (ix_nTime prev)"]
  show "0 \<le> spacing_of b prev" "spacing_of b prev < 2 ^ 32"
    unfolding spacing_of_def GetBlockTime_def using uint_bounded [of "ix_nTime b"] by simp_all
qed

lemma unat_word32: "0 \<le> x \<Longrightarrow> x < 2 ^ 32 \<Longrightarrow> unat (word_of_int x :: 32 word) = nat x"
  by (simp add: unsigned_of_int take_bit_int_eq_self)

text \<open>The quotient before it is clamped, whatever the arithmetic did, and the clamped target.\<close>

lemma GetNextStakeRequired_quotient:
  assumes "params_ok P" and "stake_spacing P (b # prev # cs) = (S, I)" and "ix_nHeight b \<noteq> 0"
  defines "k \<equiv> word_of_int ((I - 1) * S + spacing_of b prev + spacing_of b prev) :: 32 word"
  obtains q where "length q = 8"
    and "val q = (unat k * (compact_value (ix_nBits b) mod 2 ^ 256)) mod 2 ^ 256 div nat ((I + 1) * S)"
    and "GetNextStakeRequired P (b # prev # cs) = GetCompact (if val q = 0 \<or> val q > 2 ^ 232 - 1 then stake_limit else q) False"
proof -
  note sb = stake_spacing_bounds [OF assms(1,2)]
  let ?m = "mul32_uint (fst (SetCompact (ix_nBits b))) k" and ?d = "uint256_of (word_of_int ((I + 1) * S))"
  have m: "length ?m = 8" "val ?m = (unat k * (compact_value (ix_nBits b) mod 2 ^ 256)) mod 2 ^ 256"
    using mul32_uint_val [of "fst (SetCompact (ix_nBits b))" k] by (simp_all add: SetCompact_fst)
  have d: "val ?d = nat ((I + 1) * S)" using sb by (intro val_word64) simp_all
  then have "div_uint ?m ?d \<noteq> None" using div_uint_val(1) [of ?m ?d] m sb(4) by simp
  then obtain q where q: "div_uint ?m ?d = Some q" by blast
  have lq: "length q = 8" and vq: "val q = val ?m div nat ((I + 1) * S)"
    using div_uint_val(2) [OF _ q] m(1) unfolding d by simp_all
  have e: "GetNextStakeRequired P (b # prev # cs) =
      (case div_uint ?m ?d of None \<Rightarrow> None
       | Some n \<Rightarrow> GetCompact (if CompareTo n (uint256_of 0) \<le> 0 \<or> CompareTo n stake_limit > 0 then stake_limit else n) False)"
    using assms(3) by (simp only: GetNextStakeRequired_def Let_def assms(2) prod.case list.sel list.distinct if_True if_False simp_thms
        k_def spacing_of_def stake_limit_def)
  have 0: "CompareTo q (uint256_of 0) \<le> 0 \<longleftrightarrow> val q = 0"
    using lq by (auto simp: CompareTo_val val_uint256_of sgn_if)
  have 1: "CompareTo q stake_limit > 0 \<longleftrightarrow> val q > 2 ^ 232 - 1"
    using lq by (auto simp: CompareTo_val stake_limit sgn_if)
  show ?thesis by (rule that [OF lq]) (simp_all only: vq m(2) e q option.case 0 1)
qed

text \<open>C33: In the proof of stake phase the next target is the exponential moving average of the source as a formula on numbers: the target of
  the last block times ((interval - 1) spacing + 2 elapsed) divided by (interval + 1) spacing, clamped to the limit 2^232 - 1, as long as
  the product fits 256 bits (an elapsed time below three months is enough).
\<close>
theorem GetNextStakeRequired_exact:
  assumes "params_ok P" and "stake_spacing P (b # prev # cs) = (S, I)" and "ix_nHeight b \<noteq> 0"
    and "compact_value (ix_nBits b) < 2 ^ 232" and "(I - 1) * S + 2 * spacing_of b prev < 2 ^ 24"
  shows "\<exists>n. length n = 8 \<and> GetNextStakeRequired P (b # prev # cs) = GetCompact n False \<and>
     val n = (let q = compact_value (ix_nBits b) * nat ((I - 1) * S + 2 * spacing_of b prev) div nat ((I + 1) * S)
              in if q = 0 \<or> q > 2 ^ 232 - 1 then 2 ^ 232 - 1 else q)"
proof -
  note sb = stake_spacing_bounds [OF assms(1,2)]
  define k where "k = (I - 1) * S + 2 * spacing_of b prev"
  have k: "0 \<le> k" "k < 2 ^ 24" using sb spacing_of_bounds [of b prev] assms(5) by (simp_all add: k_def)
  have k2: "(I - 1) * S + spacing_of b prev + spacing_of b prev = k" by (simp add: k_def)
  let ?T = "compact_value (ix_nBits b)"
  have uk: "unat (word_of_int k :: 32 word) = nat k" using k by (intro unat_word32) simp_all
  have "nat k * ?T \<le> 2 ^ 24 * 2 ^ 232" using k assms(4) by (intro mult_le_mono) simp_all
  moreover have "nat k * ?T < 2 ^ 24 * 2 ^ 232"
  proof (cases "?T = 0")
    case False
    then show ?thesis using k assms(4) by (intro mult_strict_mono) simp_all
  qed simp
  ultimately have small: "nat k * ?T < 2 ^ 256" by (simp flip: power_add)
  have T: "?T mod 2 ^ 256 = ?T" using assms(4) by simp
  obtain q where q: "length q = 8" "val q = nat k * ?T div nat ((I + 1) * S)"
    "GetNextStakeRequired P (b # prev # cs) = GetCompact (if val q = 0 \<or> val q > 2 ^ 232 - 1 then stake_limit else q) False"
    using GetNextStakeRequired_quotient [OF assms(1-3)] uk small unfolding k2 T by (metis mod_less)
  show ?thesis
    by (rule exI [of _ "if val q = 0 \<or> val q > 2 ^ 232 - 1 then stake_limit else q"])
      (use q in \<open>simp add: stake_limit Let_def k_def mult.commute\<close>)
qed

text \<open>The bound of three months is needed: after a longer gap the product wraps around, and the next target can be far below the formula.\<close>

theorem GetNextStakeRequired_exact_witness:
  "\<exists>n. length n = 8 \<and>
     GetNextStakeRequired mainParams [\<lparr>ix_nVersion = 4, ix_nHeight = 2000, ix_nTime = 1000060, ix_nBits = 0x1c00ffff\<rparr>,
       \<lparr>ix_nVersion = 4, ix_nHeight = 1999, ix_nTime = 1000000, ix_nBits = 0x1c00ffff\<rparr>] = GetCompact n False \<and>
     val n = (let q = compact_value 0x1c00ffff * nat ((80 - 1) * 30 + 2 * 60) div nat ((80 + 1) * 30)
              in if q = 0 \<or> q > 2 ^ 232 - 1 then 2 ^ 232 - 1 else q)"
proof -
  let ?b = "\<lparr>ix_nVersion = 4, ix_nHeight = 2000, ix_nTime = 1000060, ix_nBits = 0x1c00ffff\<rparr>"
  let ?p = "\<lparr>ix_nVersion = 4, ix_nHeight = 1999, ix_nTime = 1000000, ix_nBits = 0x1c00ffff\<rparr>"
  have s: "stake_spacing mainParams [?b, ?p] = (30, 80)"
    by (simp add: stake_spacing_def IsSuperMajority_count mainParams_def NetworkUpgradeActive_def NetworkUpgradeState_def main_upgrades_def
        IntervalLegacy_def)
  have g: "spacing_of ?b ?p = 60" by (simp add: spacing_of_def GetBlockTime_def)
  have v: "compact_value 0x1c00ffff < 2 ^ 232" by (simp add: compact_value_def)
  show ?thesis using GetNextStakeRequired_exact [OF mainParams_ok(1) s] v by (simp add: g)
qed

lemma GetCompact_some:
  assumes "length a = 8"
  obtains c where "GetCompact a False = Some c" and "\<not> bit c 23" and "compact_value c \<le> val a" and "val a \<noteq> 0 \<Longrightarrow> compact_value c \<noteq> 0"
proof (cases "val a = 0")
  case True
  then show ?thesis using that [of 0] GetCompact_zero [OF assms] by simp
next
  case False
  obtain c where c: "GetCompact a False = Some c" "compact_form (val a) (mantissa c) (exponent c)" "\<not> bit c 23"
    by (rule GetCompact_form [OF assms False])
  then show ?thesis using that compact_form_value [OF c(2)] by blast
qed

lemma pow_loop_ok:
  "1 \<le> i \<Longrightarrow> i \<le> 25 \<Longrightarrow> length A = 8 \<Longrightarrow> length AP = 8 \<Longrightarrow>
   \<exists>C A' T'. pow_loop i (i - 1) A AP T L c = Some (C, A', T') \<and> C \<le> 24 \<and> length A' = 8 \<and>
     (if c \<noteq> [] \<and> ix_nHeight (hd c) > 0 \<and> i \<le> 24 then i \<le> C else C = i - 1)"
proof (induction c arbitrary: i A AP T L)
  case (Cons b c)
  show ?case
  proof (cases "ix_nHeight b > 0 \<and> i \<le> 24")
    case True
    let ?t = "fst (SetCompact (ix_nBits b))" and ?d = "uint256_of (word_of_int (i + 1))"
    have d: "val ?d = nat (i + 1)" using Cons.prems True by (intro val_word64) simp_all
    let ?a = "add_uint (mul32_uint AP (word_of_int i)) ?t"
    have la: "length ?a = 8" using mul32_uint_val [of AP "word_of_int i"] add_uint_val(2) [of "mul32_uint AP (word_of_int i)" ?t] Cons.prems
      by (simp add: SetCompact_fst)
    have "div_uint ?a ?d \<noteq> None" using div_uint_val(1) [of ?a ?d] la d Cons.prems by simp
    then obtain q where q: "div_uint ?a ?d = Some q" by blast
    then have lq: "length q = 8" using div_uint_val(2) [OF _ q] la by simp
    define A1 where "A1 = (if i = 1 then ?t else q)"
    have l1: "length A1 = 8" using lq by (simp add: A1_def SetCompact_fst)
    define T1 where "T1 = (if L > 0 then T + (L - GetBlockTime b) else T)"
    have e: "pow_loop i (i - 1) A AP T L (b # c) =
        (if c = [] then Some (i, A1, T1) else pow_loop (i + 1) (i + 1 - 1) A1 A1 T1 (GetBlockTime b) c)"
      using True q by (simp add: Let_def A1_def T1_def)
    show ?thesis
    proof (cases "c = []")
      case True
      then show ?thesis using e \<open>ix_nHeight b > 0 \<and> i \<le> 24\<close> l1 by simp
    next
      case False
      obtain C A' T' where "pow_loop (i + 1) (i + 1 - 1) A1 A1 T1 (GetBlockTime b) c = Some (C, A', T')" "C \<le> 24" "length A' = 8"
        "if c \<noteq> [] \<and> ix_nHeight (hd c) > 0 \<and> i + 1 \<le> 24 then i + 1 \<le> C else C = i + 1 - 1"
        using Cons.IH [of "i + 1" A1 A1 T1 "GetBlockTime b"] Cons.prems True l1 by auto
      then show ?thesis using e True False by (auto split: if_splits)
    qed
  next
    case False
    then show ?thesis using Cons.prems by (auto simp: not_less)
  qed
qed simp

lemma params_limits:
  assumes "params_ok P"
  shows "length (ProofOfWorkLimit P) = 8" and "val stake_limit \<le> val (ProofOfWorkLimit P)" and "val stake_limit \<noteq> 0"
    and "0 < TargetSpacingLegacy P" "TargetSpacingLegacy P < 2 ^ 31" and "val (ProofOfWorkLimit P) \<noteq> 0"
proof -
  show l: "length (ProofOfWorkLimit P) = 8" "val stake_limit \<le> val (ProofOfWorkLimit P)" "val stake_limit \<noteq> 0"
    "0 < TargetSpacingLegacy P" "TargetSpacingLegacy P < 2 ^ 31"
    using assms by (simp_all add: params_ok_def stake_limit)
  show "val (ProofOfWorkLimit P) \<noteq> 0" using l(2,3) by linarith
qed

lemma GetNextStakeRequired_valid:
  assumes "params_ok P" and "ix_nHeight b \<noteq> 0"
  obtains n where "GetNextStakeRequired P (b # p # r) = Some n" and "\<not> bit n 23" and "compact_value n \<noteq> 0"
    and "compact_value n \<le> val (ProofOfWorkLimit P)"
proof -
  note P = params_limits [OF assms(1)]
  obtain S I where SI: "stake_spacing P (b # p # r) = (S, I)" by fastforce
  obtain q where q: "length q = 8"
    "GetNextStakeRequired P (b # p # r) = GetCompact (if val q = 0 \<or> val q > 2 ^ 232 - 1 then stake_limit else q) False"
    by (rule GetNextStakeRequired_quotient [OF assms(1) SI assms(2)]) blast
  define t where "t = (if val q = 0 \<or> val q > 2 ^ 232 - 1 then stake_limit else q)"
  have t: "length t = 8" "val t \<noteq> 0" "val t \<le> val stake_limit"
  proof -
    have "t = stake_limit \<or> t = q \<and> val q \<noteq> 0 \<and> val q \<le> val stake_limit" unfolding t_def stake_limit(1) by (simp add: not_less)
    then show "length t = 8" "val t \<noteq> 0" "val t \<le> val stake_limit"
      using q(1) P(3) stake_limit(2) by auto
  qed
  obtain n where n: "GetCompact t False = Some n" "\<not> bit n 23" "compact_value n \<le> val t" "compact_value n \<noteq> 0"
    using GetCompact_some [OF t(1)] t(2) by blast
  have "compact_value n \<le> val (ProofOfWorkLimit P)" using n(3) t(3) P(2) by linarith
  moreover have "GetNextStakeRequired P (b # p # r) = Some n" unfolding q(2) using n(1) by (simp only: t_def)
  ultimately show ?thesis using that n(2,4) by blast
qed

lemma GetNextGravityRequired_valid:
  assumes "params_ok P" and "c \<noteq> []" and "ix_nHeight (hd c) > 0"
  obtains n where "GetNextGravityRequired P c = Some n" and "\<not> bit n 23" and "compact_value n \<le> val (ProofOfWorkLimit P)"
proof -
  note P = params_limits [OF assms(1)]
  obtain C A T where l: "pow_loop 1 0 (uint256_of 0) (uint256_of 0) 0 0 c = Some (C, A, T)" "C \<le> 24" "length A = 8" "1 \<le> C"
    using pow_loop_ok [of 1 "uint256_of 0" "uint256_of 0" 0 0 c] assms(2,3) by auto
  define k where "k = C * TargetSpacingLegacy P"
  have k: "0 < k" using l(4) P(4) by (simp add: k_def)
  have "k \<le> 24 * 2 ^ 31" unfolding k_def using l(2,4) P(4,5) by (intro mult_mono) simp_all
  then have k2: "k < 2 ^ 64" by simp
  define w where "w = (let u = (if T < k div 3 then k div 3 else T) in if u > k * 3 then k * 3 else u)"
  let ?m = "mul32_uint A (word_of_int w)" and ?d = "uint256_of (word_of_int k)"
  have lm: "length ?m = 8" using mul32_uint_val [of A "word_of_int w"] l(3) by simp
  have d: "val ?d \<noteq> 0" using val_word64 [of k] k k2 by simp
  then have "div_uint ?m ?d \<noteq> None" using div_uint_val(1) [of ?m ?d] lm by simp
  then obtain q where q: "div_uint ?m ?d = Some q" by blast
  then have lq: "length q = 8" using div_uint_val(2) [OF _ q] lm by simp
  define t where "t = (if CompareTo q (ProofOfWorkLimit P) > 0 then ProofOfWorkLimit P else q)"
  have t: "length t = 8" "val t \<le> val (ProofOfWorkLimit P)" using lq P(1) by (auto simp: t_def CompareTo_val sgn_if)
  obtain n where n: "GetCompact t False = Some n" "\<not> bit n 23" "compact_value n \<le> val t" by (rule GetCompact_some [OF t(1)])
  have "GetNextGravityRequired P c = GetCompact t False"
    unfolding GetNextGravityRequired_def l(1) option.case prod.case Let_def t_def
    using q unfolding w_def k_def Let_def by simp
  then show ?thesis using that n t(2) by (metis order_trans)
qed

text \<open>C22: The required work is always computed: no division by zero, no failed assertion, no null pointer; the target is not negative and not
  above the limit of the network, and in the proof of stake phase, and for the first blocks, it passes the check of the header.
\<close>
theorem GetNextWorkRequired_valid:
  assumes "params_ok P" and "c \<noteq> [] \<Longrightarrow> ix_nHeight (hd c) > 0 \<Longrightarrow> tl c \<noteq> []"
  shows "\<exists>n. GetNextWorkRequired P c = Some n \<and> \<not> bit n 23 \<and> compact_value n \<le> val (ProofOfWorkLimit P) \<and>
     (c = [] \<or> ix_nHeight (hd c) < 24 \<or> ix_nHeight (hd c) > LAST_POW_BLOCK P \<longrightarrow> CheckProofOfWork P hash n)"
proof -
  note P = params_limits [OF assms(1)]
  have check: "CheckProofOfWork P hash n" if "\<not> bit n 23" "compact_value n \<noteq> 0" "compact_value n \<le> val (ProofOfWorkLimit P)" for n
    using that CheckProofOfWork_iff [OF P(1)] by blast
  consider (first) "c = [] \<or> ix_nHeight (hd c) < 24" | (stake) "c \<noteq> []" "ix_nHeight (hd c) \<ge> 24" "ix_nHeight (hd c) > LAST_POW_BLOCK P"
    | (gravity) "c \<noteq> []" "ix_nHeight (hd c) \<ge> 24" "\<not> ix_nHeight (hd c) > LAST_POW_BLOCK P" by linarith
  then show ?thesis
  proof cases
    case first
    obtain n where n: "GetCompact (ProofOfWorkLimit P) False = Some n" "\<not> bit n 23" "compact_value n \<le> val (ProofOfWorkLimit P)" "compact_value n \<noteq> 0"
      using GetCompact_some [OF P(1)] P(6) by blast
    have "GetNextWorkRequired P c = Some n" using first n(1) by (auto simp: GetNextWorkRequired_def)
    then show ?thesis using n check by blast
  next
    case stake
    then obtain b p r where c: "c = b # p # r" using assms(2) by (cases c; cases "tl c") auto
    then have b: "ix_nHeight b \<noteq> 0" using stake by simp
    obtain n where n: "GetNextStakeRequired P c = Some n" "\<not> bit n 23" "compact_value n \<noteq> 0" "compact_value n \<le> val (ProofOfWorkLimit P)"
      unfolding c by (rule GetNextStakeRequired_valid [OF assms(1) b])
    have "GetNextWorkRequired P c = Some n" using stake n(1) by (simp add: GetNextWorkRequired_def)
    then show ?thesis using n check by blast
  next
    case gravity
    then have "ix_nHeight (hd c) > 0" by simp
    then obtain n where n: "GetNextGravityRequired P c = Some n" "\<not> bit n 23" "compact_value n \<le> val (ProofOfWorkLimit P)"
      using GetNextGravityRequired_valid [OF assms(1) gravity(1)] by blast
    have "GetNextWorkRequired P c = Some n" using gravity n(1) by (simp add: GetNextWorkRequired_def)
    then show ?thesis using n gravity by auto
  qed
qed

definition two_blocks :: index_chain where
  "two_blocks = [\<lparr>ix_nVersion = 4, ix_nHeight = 2000, ix_nTime = 1000060, ix_nBits = 0x1c00ffff\<rparr>,
     \<lparr>ix_nVersion = 4, ix_nHeight = 1999, ix_nTime = 1000000, ix_nBits = 0x1c00ffff\<rparr>]"

theorem GetNextWorkRequired_valid_witness:
  "\<exists>n. GetNextWorkRequired mainParams two_blocks = Some n \<and> \<not> bit n 23 \<and> compact_value n \<le> val (ProofOfWorkLimit mainParams) \<and>
     (two_blocks = [] \<or> ix_nHeight (hd two_blocks) < 24 \<or> ix_nHeight (hd two_blocks) > LAST_POW_BLOCK mainParams \<longrightarrow>
      CheckProofOfWork mainParams (uint256_of 7) n)"
  by (rule GetNextWorkRequired_valid [OF mainParams_ok(1)]) (simp add: two_blocks_def)

end
