(* ===== verification/VersionBits.thy ===== *)
theory VersionBits
  imports Chain
begin

text \<open>
  The deployment states of BIP 9 (src/src/versionbits.h, src/src/versionbits.cpp) over the block index: the median time of a block
  (\<open>CBlockIndex::GetMedianTimePast\<close>, src/src/chain.h), the walk of \<open>GetStateFor\<close> back along period boundaries until the cache knows a
  state, and the walk forward that computes and caches the states of the periods.  The main result: whatever the cache holds, as long as
  earlier calls filled it, the answer is the state of the BIP 9 automaton.
\<close>

datatype ThresholdState = THRESHOLD_DEFINED | THRESHOLD_STARTED | THRESHOLD_LOCKED_IN | THRESHOLD_ACTIVE | THRESHOLD_FAILED

text \<open>The virtual methods of \<open>AbstractThresholdConditionChecker\<close>.\<close>

record ThresholdConditionChecker =
  Condition :: "ptr \<Rightarrow> bool"
  BeginTime :: nat
  EndTime :: nat
  Period :: nat
  Threshold :: nat

type_synonym ThresholdConditionCache = "ptr option \<Rightarrow> ThresholdState option"

section \<open>Median time\<close>

text \<open>The times of the block and its ancestors, at most \<open>n\<close>, the oldest first.\<close>

fun median_times :: "block_heap \<Rightarrow> nat \<Rightarrow> ptr option \<Rightarrow> nat list option" where
  "median_times m (Suc n) (Some p) =
     (case m p of None \<Rightarrow> None
      | Some b \<Rightarrow> map_option (\<lambda>ts. ts @ [block_nTime b]) (median_times m n (pprev b)))"
| "median_times m n r = Some []"

definition nMedianTimeSpan :: nat where "nMedianTimeSpan = 11"

definition GetMedianTimePast :: "block_heap \<Rightarrow> ptr \<Rightarrow> nat option" where
  "GetMedianTimePast m p = map_option (\<lambda>ts. sort ts ! (length ts div 2)) (median_times m nMedianTimeSpan (Some p))"

section \<open>\<open>GetStateFor\<close>\<close>

fun count_condition :: "block_heap \<Rightarrow> (ptr \<Rightarrow> bool) \<Rightarrow> nat \<Rightarrow> ptr option \<Rightarrow> nat \<Rightarrow> nat option" where
  "count_condition m C 0 pindexCount count = Some count"
| "count_condition m C (Suc i) None count = None"
| "count_condition m C (Suc i) (Some p) count =
     (case m p of None \<Rightarrow> None
      | Some b \<Rightarrow> count_condition m C i (pprev b) (if C p then count + 1 else count))"

definition next_state :: "block_heap \<Rightarrow> ThresholdConditionChecker \<Rightarrow> ThresholdState \<Rightarrow> ptr \<Rightarrow> ThresholdState option" where
  "next_state m T state p =
     (case state of
        THRESHOLD_DEFINED \<Rightarrow>
          map_option (\<lambda>t. if t \<ge> EndTime T then THRESHOLD_FAILED else if t \<ge> BeginTime T then THRESHOLD_STARTED else THRESHOLD_DEFINED)
            (GetMedianTimePast m p)
      | THRESHOLD_STARTED \<Rightarrow>
          (case GetMedianTimePast m p of None \<Rightarrow> None
           | Some t \<Rightarrow>
               if t \<ge> EndTime T then Some THRESHOLD_FAILED
               else map_option (\<lambda>count. if count \<ge> Threshold T then THRESHOLD_LOCKED_IN else THRESHOLD_STARTED)
                      (count_condition m (Condition T) (Period T) (Some p) 0))
      | THRESHOLD_LOCKED_IN \<Rightarrow> Some THRESHOLD_ACTIVE
      | THRESHOLD_FAILED \<Rightarrow> Some THRESHOLD_FAILED
      | THRESHOLD_ACTIVE \<Rightarrow> Some THRESHOLD_ACTIVE)"

partial_function (option) walk_back ::
  "block_heap \<Rightarrow> ThresholdConditionChecker \<Rightarrow> ptr option \<Rightarrow> ptr list \<Rightarrow> ThresholdConditionCache \<Rightarrow>
   (ptr option \<times> ptr list \<times> ThresholdConditionCache) option" where
  "walk_back m T pindexPrev vToCompute cache =
     (if cache pindexPrev \<noteq> None then Some (pindexPrev, vToCompute, cache)
      else case pindexPrev of
        None \<Rightarrow> Some (None, vToCompute, cache(None \<mapsto> THRESHOLD_DEFINED))
      | Some p \<Rightarrow>
          (case GetMedianTimePast m p of None \<Rightarrow> None
           | Some t \<Rightarrow>
               if t < BeginTime T then Some (Some p, vToCompute, cache(Some p \<mapsto> THRESHOLD_DEFINED))
               else case m p of None \<Rightarrow> None
                 | Some b \<Rightarrow>
                     (case GetAncestor m p (int (nHeight b) - int (Period T)) of None \<Rightarrow> None
                      | Some r \<Rightarrow> walk_back m T r (p # vToCompute) cache)))"

fun walk_forward ::
  "block_heap \<Rightarrow> ThresholdConditionChecker \<Rightarrow> ThresholdState \<Rightarrow> ptr list \<Rightarrow> ThresholdConditionCache \<Rightarrow>
   (ThresholdState \<times> ThresholdConditionCache) option" where
  "walk_forward m T state [] cache = Some (state, cache)"
| "walk_forward m T state (p # vToCompute) cache =
     (case next_state m T state p of None \<Rightarrow> None
      | Some stateNext \<Rightarrow> walk_forward m T stateNext vToCompute (cache(Some p \<mapsto> stateNext)))"

definition GetStateFor ::
  "block_heap \<Rightarrow> ThresholdConditionChecker \<Rightarrow> ptr option \<Rightarrow> ThresholdConditionCache \<Rightarrow>
   (ThresholdState \<times> ThresholdConditionCache) option" where
  "GetStateFor m T pindexPrev cache =
     (case (case pindexPrev of None \<Rightarrow> Some None
            | Some p \<Rightarrow>
                (case m p of None \<Rightarrow> None
                 | Some b \<Rightarrow> GetAncestor m p (int (nHeight b) - int ((nHeight b + 1) mod Period T)))) of
        None \<Rightarrow> None
      | Some pindexPrev \<Rightarrow>
          (case walk_back m T pindexPrev [] cache of None \<Rightarrow> None
           | Some (pindexPrev, vToCompute, cache) \<Rightarrow>
               (case cache pindexPrev of None \<Rightarrow> None
                | Some state \<Rightarrow> walk_forward m T state vToCompute cache)))"

text \<open>The concrete checker of a deployment: the parameters with their defaults, and the version bit.\<close>

record BIP9Deployment =
  deployment_bit :: nat
  nStartTime :: nat
  nTimeout :: nat
  nWindowSize :: nat
  nThreshold :: nat

definition VERSIONBITS_TOP_MASK :: "32 word" where "VERSIONBITS_TOP_MASK = 0xE0000000"
definition VERSIONBITS_TOP_BITS :: "32 word" where "VERSIONBITS_TOP_BITS = 0x20000000"

definition VersionBitsMask :: "BIP9Deployment \<Rightarrow> 32 word" where
  "VersionBitsMask d = push_bit (deployment_bit d) 1"

definition VersionBitsCondition :: "BIP9Deployment \<Rightarrow> 32 word \<Rightarrow> bool" where
  "VersionBitsCondition d nVersion \<longleftrightarrow>
     nVersion AND VERSIONBITS_TOP_MASK = VERSIONBITS_TOP_BITS \<and> nVersion AND VersionBitsMask d \<noteq> 0"

definition VersionBitsConditionChecker :: "(ptr \<Rightarrow> 32 word) \<Rightarrow> nat \<Rightarrow> nat \<Rightarrow> BIP9Deployment \<Rightarrow> ThresholdConditionChecker" where
  "VersionBitsConditionChecker nVersion nMinerConfirmationWindow nRuleChangeActivationThreshold d =
     \<lparr>Condition = \<lambda>p. VersionBitsCondition d (nVersion p),
      BeginTime = nStartTime d, EndTime = nTimeout d,
      Period = (if nWindowSize d \<noteq> 0 then nWindowSize d else nMinerConfirmationWindow),
      Threshold = (if nThreshold d \<noteq> 0 then nThreshold d else nRuleChangeActivationThreshold)\<rparr>"

definition VersionBitsState ::
  "block_heap \<Rightarrow> (ptr \<Rightarrow> 32 word) \<Rightarrow> nat \<Rightarrow> nat \<Rightarrow> BIP9Deployment \<Rightarrow> ptr option \<Rightarrow> ThresholdConditionCache \<Rightarrow>
   (ThresholdState \<times> ThresholdConditionCache) option" where
  "VersionBitsState m nVersion nMinerConfirmationWindow nRuleChangeActivationThreshold d pindexPrev cache =
     GetStateFor m (VersionBitsConditionChecker nVersion nMinerConfirmationWindow nRuleChangeActivationThreshold d) pindexPrev cache"

section \<open>The automaton of BIP 9\<close>

text \<open>The median time, and the number of signalling blocks among the last \<open>n\<close>.\<close>

definition mtp :: "block_heap \<Rightarrow> ptr \<Rightarrow> nat" where
  "mtp m p = the (GetMedianTimePast m p)"

definition signals :: "block_heap \<Rightarrow> (ptr \<Rightarrow> bool) \<Rightarrow> nat \<Rightarrow> ptr \<Rightarrow> nat" where
  "signals m C n p = card {i. i < n \<and> C (the (walk m i p))}"

definition bip9_step :: "block_heap \<Rightarrow> ThresholdConditionChecker \<Rightarrow> ThresholdState \<Rightarrow> ptr \<Rightarrow> ThresholdState" where
  "bip9_step m T s p =
     (case s of
        THRESHOLD_DEFINED \<Rightarrow>
          if EndTime T \<le> mtp m p then THRESHOLD_FAILED else if BeginTime T \<le> mtp m p then THRESHOLD_STARTED else THRESHOLD_DEFINED
      | THRESHOLD_STARTED \<Rightarrow>
          if EndTime T \<le> mtp m p then THRESHOLD_FAILED
          else if Threshold T \<le> signals m (Condition T) (Period T) p then THRESHOLD_LOCKED_IN else THRESHOLD_STARTED
      | THRESHOLD_LOCKED_IN \<Rightarrow> THRESHOLD_ACTIVE
      | s \<Rightarrow> s)"

text \<open>The state after \<open>k\<close> periods, the last of which ends with \<open>r\<close>.\<close>

fun bip9 :: "block_heap \<Rightarrow> ThresholdConditionChecker \<Rightarrow> nat \<Rightarrow> ptr option \<Rightarrow> ThresholdState" where
  "bip9 m T (Suc k) (Some p) = bip9_step m T (bip9 m T k (walk m (Period T) p)) p"
| "bip9 m T k r = THRESHOLD_DEFINED"

definition state_at :: "block_heap \<Rightarrow> ThresholdConditionChecker \<Rightarrow> ptr option \<Rightarrow> ThresholdState" where
  "state_at m T r = (case r of None \<Rightarrow> THRESHOLD_DEFINED
     | Some p \<Rightarrow> bip9 m T ((nHeight (the (m p)) + 1) div Period T) (Some p))"

text \<open>The last block of the period before the one that the child of \<open>p\<close> is in.\<close>

definition period_end :: "block_heap \<Rightarrow> ThresholdConditionChecker \<Rightarrow> ptr option \<Rightarrow> ptr option" where
  "period_end m T r = (case r of None \<Rightarrow> None | Some p \<Rightarrow> walk m ((nHeight (the (m p)) + 1) mod Period T) p)"

section \<open>The walks\<close>

lemma walk_beyond:
  assumes "index_wf m"
  shows "m p = Some b \<Longrightarrow> nHeight b < n \<Longrightarrow> walk m n p = None"
proof (induction n arbitrary: p b)
  case (Suc n)
  show ?case
  proof (cases "pprev b")
    case (Some q)
    then obtain c where "m q = Some c" "nHeight b = Suc (nHeight c)" using index_wfD(2) [OF assms Suc.prems(1)] by blast
    then show ?thesis using Suc Some by simp
  qed (use Suc.prems in simp)
qed simp

lemma GetAncestor_back:
  assumes "index_wf m" and "m p = Some b"
  shows "GetAncestor m p (int (nHeight b) - int n) = Some (walk m n p)"
proof (cases "n \<le> nHeight b")
  case True
  then have "nat (int (nHeight b) - int n) = nHeight b - n" by simp
  then show ?thesis using True assms(2) GetAncestor_loop_walk [OF assms refl, of "nHeight b - n"] by (simp add: GetAncestor_def)
next
  case False
  then show ?thesis using walk_beyond [OF assms] assms(2) by (simp add: GetAncestor_def)
qed

lemma median_times_total:
  assumes "index_wf m"
  shows "(case r of None \<Rightarrow> True | Some p \<Rightarrow> m p \<noteq> None) \<Longrightarrow> median_times m n r \<noteq> None"
proof (induction n arbitrary: r)
  case (Suc n)
  show ?case
  proof (cases r)
    case (Some p)
    then obtain b where b: "m p = Some b" using Suc.prems by auto
    have "case pprev b of None \<Rightarrow> True | Some q \<Rightarrow> m q \<noteq> None"
      using index_wfD(2) [OF assms b] by (auto split: option.split)
    then show ?thesis using Suc.IH [of "pprev b"] b Some by auto
  qed simp
qed simp

lemma GetMedianTimePast_mtp: "index_wf m \<Longrightarrow> m p \<noteq> None \<Longrightarrow> GetMedianTimePast m p = Some (mtp m p)"
  using median_times_total [of m "Some p" nMedianTimeSpan] by (auto simp: GetMedianTimePast_def mtp_def)

lemma signals_Suc:
  assumes "m p = Some b" and "n = 0 \<or> pprev b = Some q"
  shows "signals m C (Suc n) p = (if C p then 1 else 0) + (if n = 0 then 0 else signals m C n q)"
proof -
  have w: "walk m (Suc i) p = walk m i q" if "i < n" for i using assms that by auto
  have "{i. i < Suc n \<and> C (the (walk m i p))} = (if C p then {0} else {}) \<union> Suc ` {i. i < n \<and> C (the (walk m i q))}"
  proof (rule set_eqI)
    fix i show "i \<in> {i. i < Suc n \<and> C (the (walk m i p))} \<longleftrightarrow> i \<in> (if C p then {0} else {}) \<union> Suc ` {i. i < n \<and> C (the (walk m i q))}"
      using w by (cases i) auto
  qed
  moreover have "card (Suc ` {i. i < n \<and> C (the (walk m i q))}) = signals m C n q" by (simp add: signals_def card_image)
  ultimately show ?thesis unfolding signals_def [of m C "Suc n" p] by (auto simp: signals_def)
qed

lemma count_condition_signals:
  assumes "index_wf m"
  shows "m p = Some b \<Longrightarrow> n \<le> nHeight b + 1 \<Longrightarrow> count_condition m C n (Some p) c = Some (c + signals m C n p)"
proof (induction n arbitrary: p b c)
  case 0
  then show ?case by (simp add: signals_def)
next
  case (Suc n)
  show ?case
  proof (cases n)
    case 0
    then show ?thesis using Suc.prems(1) signals_Suc [of m p b 0] by simp
  next
    case (Suc k)
    then obtain q d where q: "pprev b = Some q" "m q = Some d" "nHeight b = Suc (nHeight d)"
      using index_wfD(4) [OF assms Suc.prems(1)] Suc.prems(2) by auto
    then show ?thesis using Suc.IH [OF q(2)] Suc.prems signals_Suc [of m p b n q C] Suc by simp
  qed
qed

text \<open>The boundaries of the periods, and consistent caches.\<close>

definition boundary :: "block_heap \<Rightarrow> ThresholdConditionChecker \<Rightarrow> ptr \<Rightarrow> bool" where
  "boundary m T p \<longleftrightarrow> (\<exists>b. m p = Some b \<and> Period T dvd nHeight b + 1)"

definition at_boundary :: "block_heap \<Rightarrow> ThresholdConditionChecker \<Rightarrow> ptr option \<Rightarrow> bool" where
  "at_boundary m T r \<longleftrightarrow> (case r of None \<Rightarrow> True | Some p \<Rightarrow> boundary m T p)"

definition cache_ok :: "block_heap \<Rightarrow> ThresholdConditionChecker \<Rightarrow> ThresholdConditionCache \<Rightarrow> bool" where
  "cache_ok m T cache \<longleftrightarrow> (\<forall>r s. cache r = Some s \<longrightarrow> at_boundary m T r \<and> s = state_at m T r)"

text \<open>What the network guarantees: the median time never falls along the chain, and a deployment does not end before it begins.\<close>

definition medians_rise :: "block_heap \<Rightarrow> bool" where
  "medians_rise m \<longleftrightarrow> (\<forall>p b q. m p = Some b \<and> pprev b = Some q \<longrightarrow> mtp m q \<le> mtp m p)"

definition checker_ok :: "ThresholdConditionChecker \<Rightarrow> bool" where
  "checker_ok T \<longleftrightarrow> 0 < Period T \<and> BeginTime T \<le> EndTime T"

lemma boundary_step:
  assumes "index_wf m" and "checker_ok T" and "boundary m T p"
  shows "at_boundary m T (walk m (Period T) p)" and "state_at m T (Some p) = bip9_step m T (state_at m T (walk m (Period T) p)) p"
    and "next_state m T s p = Some (bip9_step m T s p)"
    and "walk m (Period T) p = Some q \<Longrightarrow> nHeight (the (m q)) < nHeight (the (m p))"
proof -
  obtain b where b: "m p = Some b" "Period T dvd nHeight b + 1" using assms(3) by (auto simp: boundary_def)
  obtain k where k: "nHeight b + 1 = Period T * Suc k" using b(2) by (metis add_is_0 dvdE mult_0_right not0_implies_Suc one_neq_zero)
  have P: "0 < Period T" using assms(2) by (simp add: checker_ok_def)
  have le: "Period T \<le> nHeight b + 1" using k by simp
  have "at_boundary m T (walk m (Period T) p) \<and>
      state_at m T (Some p) = bip9_step m T (state_at m T (walk m (Period T) p)) p \<and>
      (\<forall>q. walk m (Period T) p = Some q \<longrightarrow> nHeight (the (m q)) < nHeight (the (m p)))"
  proof (cases "Period T \<le> nHeight b")
    case True
    obtain q c where q: "walk m (Period T) p = Some q" "m q = Some c" "nHeight c = nHeight b - Period T"
      using walk_height [OF assms(1) b(1) True] by blast
    have c: "nHeight c + 1 = Period T * k" using q(3) k True by simp
    have "(nHeight b + 1) div Period T = Suc k" "(nHeight c + 1) div Period T = k" unfolding k c using P by simp_all
    then show ?thesis using q b(1) c P True by (simp add: state_at_def at_boundary_def boundary_def)
  next
    case False
    then have "walk m (Period T) p = None" by (intro walk_beyond [OF assms(1) b(1)]) simp
    moreover have "(nHeight b + 1) div Period T = Suc 0" using False le P by (simp add: le_antisym not_less_eq_eq)
    ultimately show ?thesis using b(1) by (simp add: state_at_def at_boundary_def)
  qed
  then show "at_boundary m T (walk m (Period T) p)" "state_at m T (Some p) = bip9_step m T (state_at m T (walk m (Period T) p)) p"
    "walk m (Period T) p = Some q \<Longrightarrow> nHeight (the (m q)) < nHeight (the (m p))" by blast+
  show "next_state m T s p = Some (bip9_step m T s p)"
    using GetMedianTimePast_mtp [OF assms(1)] b(1) count_condition_signals [OF assms(1) b(1) le]
    by (cases s) (auto simp: next_state_def bip9_step_def)
qed

lemma walk_median:
  assumes "medians_rise m"
  shows "walk m n p = Some q \<Longrightarrow> mtp m q \<le> mtp m p"
proof (induction n arbitrary: p)
  case (Suc n)
  then obtain b r where b: "m p = Some b" "pprev b = Some r" "walk m n r = Some q" by (auto split: option.splits)
  have "mtp m r \<le> mtp m p" using assms b(1,2) unfolding medians_rise_def by blast
  then show ?case using Suc.IH [OF b(3)] by simp
qed simp

text \<open>Before the start time every state is \<open>DEFINED\<close>: the early stop of the walk.\<close>

lemma early_state:
  assumes "index_wf m" and "checker_ok T" and "medians_rise m"
  shows "boundary m T p \<Longrightarrow> mtp m p < BeginTime T \<Longrightarrow> state_at m T (Some p) = THRESHOLD_DEFINED"
proof (induction "nHeight (the (m p))" arbitrary: p rule: less_induct)
  case less
  note b = boundary_step [OF assms(1,2) less.prems(1)]
  have "state_at m T (walk m (Period T) p) = THRESHOLD_DEFINED"
  proof (cases "walk m (Period T) p")
    case None
    then show ?thesis by (simp add: state_at_def)
  next
    case (Some q)
    then have "boundary m T q" using b(1) by (simp add: at_boundary_def)
    then show ?thesis using less.hyps [OF b(4) [OF Some]] walk_median [OF assms(3) Some] less.prems(2) Some by simp
  qed
  then show ?case using b(2) less.prems(2) assms(2) by (simp add: bip9_step_def checker_ok_def)
qed

text \<open>The blocks that the walk back leaves to compute: each follows the one before by a period.\<close>

fun linked :: "block_heap \<Rightarrow> ThresholdConditionChecker \<Rightarrow> ptr option \<Rightarrow> ptr list \<Rightarrow> ptr option \<Rightarrow> bool" where
  "linked m T r [] r' \<longleftrightarrow> r = r'"
| "linked m T r (p # ps) r' \<longleftrightarrow> boundary m T p \<and> walk m (Period T) p = r \<and> linked m T (Some p) ps r'"

lemma linked_snoc:
  "linked m T r (ps @ [p]) r' \<longleftrightarrow> (\<exists>q. linked m T r ps q \<and> boundary m T p \<and> walk m (Period T) p = q) \<and> r' = Some p"
  by (induction ps arbitrary: r) auto

lemma cache_ok_update: "cache_ok m T cache \<Longrightarrow> at_boundary m T r \<Longrightarrow> cache_ok m T (cache(r \<mapsto> state_at m T r))"
  by (simp add: cache_ok_def)

lemma map_le_update: "cache_ok m T cache \<Longrightarrow> cache \<subseteq>\<^sub>m cache(r \<mapsto> state_at m T r)"
  by (auto simp: cache_ok_def map_le_def)

lemma walk_back_ok:
  assumes "index_wf m" and "checker_ok T" and "medians_rise m" and "cache_ok m T cache"
  shows "at_boundary m T r \<Longrightarrow> \<exists>r' ps cache'. walk_back m T r todo cache = Some (r', ps @ todo, cache') \<and> linked m T r' ps r \<and>
     cache_ok m T cache' \<and> cache \<subseteq>\<^sub>m cache' \<and> cache' r' = Some (state_at m T r')"
proof (induction "case r of None \<Rightarrow> 0 | Some p \<Rightarrow> Suc (nHeight (the (m p)))" arbitrary: r todo rule: less_induct)
  case less
  show ?case
  proof (cases "cache r = None")
    case False
    then have "walk_back m T r todo cache = Some (r, [] @ todo, cache)" by (subst walk_back.simps) simp
    moreover have "cache r = Some (state_at m T r)" using False assms(4) by (auto simp: cache_ok_def)
    ultimately show ?thesis using assms(4) by (metis linked.simps(1) map_le_refl)
  next
    case True
    show ?thesis
    proof (cases r)
      case None
      have "walk_back m T r todo cache = Some (None, [] @ todo, cache(None \<mapsto> state_at m T None))"
        using True None by (subst walk_back.simps) (simp add: state_at_def)
      then show ?thesis using cache_ok_update [OF assms(4), of None] map_le_update [OF assms(4), of None] None
        by (intro exI [of _ None] exI [of _ "[]"] exI [of _ "cache(None \<mapsto> state_at m T None)"]) (simp add: at_boundary_def)
    next
      case (Some p)
      then have bp: "boundary m T p" using less.prems by (simp add: at_boundary_def)
      then obtain b where b: "m p = Some b" by (auto simp: boundary_def)
      have t: "GetMedianTimePast m p = Some (mtp m p)" using GetMedianTimePast_mtp [OF assms(1)] b by simp
      show ?thesis
      proof (cases "mtp m p < BeginTime T")
        case early: True
        have s: "state_at m T (Some p) = THRESHOLD_DEFINED" by (rule early_state [OF assms(1-3) bp early])
        have "walk_back m T r todo cache = Some (Some p, [] @ todo, cache(Some p \<mapsto> state_at m T (Some p)))"
          using True Some t early s by (subst walk_back.simps) simp
        then show ?thesis using cache_ok_update [OF assms(4), of "Some p"] map_le_update [OF assms(4), of "Some p"] Some bp
          by (intro exI [of _ "Some p"] exI [of _ "[]"] exI [of _ "cache(Some p \<mapsto> state_at m T (Some p))"]) (simp add: at_boundary_def)
      next
        case late: False
        note st = boundary_step [OF assms(1,2) bp]
        let ?q = "walk m (Period T) p"
        have e: "walk_back m T r todo cache = walk_back m T ?q (p # todo) cache"
          using True Some t late b GetAncestor_back [OF assms(1) b, of "Period T"] by (subst walk_back.simps) simp
        have "(case ?q of None \<Rightarrow> 0 | Some q \<Rightarrow> Suc (nHeight (the (m q)))) < (case r of None \<Rightarrow> 0 | Some p \<Rightarrow> Suc (nHeight (the (m p))))"
          using st(4) Some by (simp split: option.split)
        from less.hyps [OF this st(1), of "p # todo"] obtain r' ps cache' where
          "walk_back m T ?q (p # todo) cache = Some (r', ps @ p # todo, cache')" "linked m T r' ps ?q"
          "cache_ok m T cache'" "cache \<subseteq>\<^sub>m cache'" "cache' r' = Some (state_at m T r')" by blast
        then show ?thesis using e bp Some
          by (intro exI [of _ r'] exI [of _ "ps @ [p]"] exI [of _ cache']) (simp add: linked_snoc)
      qed
    qed
  qed
qed

lemma walk_forward_ok:
  assumes "index_wf m" and "checker_ok T"
  shows "linked m T r ps r' \<Longrightarrow> cache_ok m T cache \<Longrightarrow>
     \<exists>cache'. walk_forward m T (state_at m T r) ps cache = Some (state_at m T r', cache') \<and> cache_ok m T cache' \<and> cache \<subseteq>\<^sub>m cache'"
proof (induction ps arbitrary: r cache)
  case (Cons p ps)
  then have p: "boundary m T p" "walk m (Period T) p = r" "linked m T (Some p) ps r'" by simp_all
  have s: "next_state m T (state_at m T r) p = Some (state_at m T (Some p))"
    using boundary_step(2,3) [OF assms p(1)] p(2) by simp
  let ?c = "cache(Some p \<mapsto> state_at m T (Some p))"
  have c: "cache_ok m T ?c" "cache \<subseteq>\<^sub>m ?c"
    using cache_ok_update [OF Cons.prems(2), of "Some p"] map_le_update [OF Cons.prems(2), of "Some p"] p(1) by (simp_all add: at_boundary_def)
  obtain c' where "walk_forward m T (state_at m T (Some p)) ps ?c = Some (state_at m T r', c')" "cache_ok m T c'" "?c \<subseteq>\<^sub>m c'"
    using Cons.IH [OF p(3) c(1)] by blast
  moreover from this(3) have "cache \<subseteq>\<^sub>m c'" by (rule map_le_trans [OF c(2)])
  ultimately show ?case using s by (intro exI [of _ c']) simp
qed auto

text \<open>C17: \<open>GetStateFor\<close> always ends and answers the state of the BIP 9 automaton at the end of the last full period, whatever part of the
  earlier states the cache holds (as long as its entries are correct) and although the walk stops early before the start time; it only adds correct entries to
  the cache.  Assumed are a well formed index, median times that rise along it (as the timestamp rule for headers ensures), and a deployment with a positive
  period and \<open>BeginTime\<close> not above \<open>EndTime\<close>.\<close>

theorem GetStateFor_bip9:
  assumes "index_wf m" and "medians_rise m" and "checker_ok T" and "cache_ok m T cache"
    and "case r of None \<Rightarrow> True | Some p \<Rightarrow> m p \<noteq> None"
  shows "\<exists>cache'. GetStateFor m T r cache = Some (state_at m T (period_end m T r), cache') \<and> cache_ok m T cache' \<and> cache \<subseteq>\<^sub>m cache'"
proof -
  have P: "0 < Period T" using assms(3) by (simp add: checker_ok_def)
  have "at_boundary m T (period_end m T r) \<and>
    (case r of None \<Rightarrow> Some None
     | Some p \<Rightarrow> (case m p of None \<Rightarrow> None | Some b \<Rightarrow> GetAncestor m p (int (nHeight b) - int ((nHeight b + 1) mod Period T)))) =
     Some (period_end m T r)"
  proof (cases r)
    case (Some p)
    then obtain b where b: "m p = Some b" using assms(5) by auto
    let ?n = "(nHeight b + 1) mod Period T"
    have "at_boundary m T (walk m ?n p)"
    proof (cases "?n \<le> nHeight b")
      case True
      obtain q c where q: "walk m ?n p = Some q" "m q = Some c" "nHeight c = nHeight b - ?n" using walk_height [OF assms(1) b True] by blast
      have "nHeight c + 1 = nHeight b + 1 - ?n" using q(3) True by simp
      then have "Period T dvd nHeight c + 1" using dvd_minus_mod [of "Period T" "nHeight b + 1"] by simp
      then show ?thesis using q(1,2) by (simp add: at_boundary_def boundary_def)
    next
      case False
      then show ?thesis using walk_beyond [OF assms(1) b] by (simp add: at_boundary_def)
    qed
    then show ?thesis using GetAncestor_back [OF assms(1) b, of ?n] b Some by (simp add: period_end_def)
  qed (simp add: period_end_def at_boundary_def)
  then have b: "at_boundary m T (period_end m T r)" and e: "GetStateFor m T r cache =
    (case walk_back m T (period_end m T r) [] cache of None \<Rightarrow> None
     | Some (pindexPrev, vToCompute, cache) \<Rightarrow>
         (case cache pindexPrev of None \<Rightarrow> None | Some state \<Rightarrow> walk_forward m T state vToCompute cache))"
    unfolding GetStateFor_def by simp_all
  obtain r' ps c where w: "walk_back m T (period_end m T r) [] cache = Some (r', ps, c)" "linked m T r' ps (period_end m T r)"
    "cache_ok m T c" "cache \<subseteq>\<^sub>m c" "c r' = Some (state_at m T r')"
    using walk_back_ok [OF assms(1,3,2,4) b, of "[]"] by auto
  show ?thesis using walk_forward_ok [OF assms(1,3) w(2,3)] w(1,4,5) e by (auto intro: map_le_trans)
qed

text \<open>Once active or failed, always: the terminal states of the automaton.\<close>

lemma terminal_state:
  assumes "index_wf m" and "checker_ok T" and "boundary m T p"
    and "state_at m T (walk m (Period T) p) \<in> {THRESHOLD_ACTIVE, THRESHOLD_FAILED}"
  shows "state_at m T (Some p) = state_at m T (walk m (Period T) p)"
  using boundary_step(2) [OF assms(1-3)] assms(4) by (auto simp: bip9_step_def)

definition sample_checker :: ThresholdConditionChecker where
  "sample_checker = \<lparr>Condition = \<lambda>p. True, BeginTime = 0, EndTime = 100, Period = 2, Threshold = 2\<rparr>"

lemma sample_medians_rise: "medians_rise sample_heap"
proof -
  have "\<forall>(p, b) \<in> set [(0, sample_block None None 0 100), (1, sample_block (Some 0) (Some 0) 1 101), (2, sample_block (Some 1) (Some 0) 2 102),
      (3, sample_block (Some 2) (Some 1) 3 103), (4, sample_block (Some 3) (Some 0) 4 104),
      (12, sample_block (Some 1) (Some 0) 2 112), (13, sample_block (Some 12) (Some 1) 3 113)].
      case pprev b of None \<Rightarrow> True | Some q \<Rightarrow> mtp sample_heap q \<le> mtp sample_heap p"
    by (simp add: mtp_def GetMedianTimePast_def nMedianTimeSpan_def sample_heap_def sample_block_def numeral_eq_Suc div_Suc mod_Suc)
  then show ?thesis by (fastforce simp: medians_rise_def sample_heap_def dest: map_of_SomeD)
qed

theorem GetStateFor_bip9_witness:
  "\<exists>cache'. GetStateFor sample_heap sample_checker (Some 4) Map.empty =
      Some (state_at sample_heap sample_checker (period_end sample_heap sample_checker (Some 4)), cache') \<and>
    cache_ok sample_heap sample_checker cache' \<and> Map.empty \<subseteq>\<^sub>m cache'"
  by (rule GetStateFor_bip9 [OF sample_wf sample_medians_rise])
    (simp_all add: checker_ok_def sample_checker_def cache_ok_def sample_heap_def)

end
