(* ===== verification/Block.thy ===== *)
theory Block
  imports UpdateCoins Solver MerkleCompute
begin

text \<open>
  Blocks (src/src/primitives/block.h, src/src/primitives/block.cpp): header and block with their wire format, the block hash (Quark,
  src/src/hash.h), the merkle roots of a block (src/src/consensus/merkle.cpp), the block signature of the proof of stake, and the
  commitment of a block to its witness data (\<open>GetWitnessCommitmentIndex\<close>, \<open>UpdateUncommittedBlockStructures\<close>,
  \<open>GenerateCoinbaseCommitment\<close>, src/src/main.cpp).  The six functions of the Quark hash, the curve operations and the key store
  are parameters.  The members \<open>payee\<close> and \<open>vMerkleTree\<close>, which are memory only, are left out; \<open>vMerkleTree\<close> is a value of
  theory \<open>Merkle\<close>.
\<close>

section \<open>Data\<close>

record CBlockHeader =
  bh_nVersion :: "32 word"
  hashPrevBlock :: uint256
  hashMerkleRoot :: uint256
  bh_nTime :: "32 word"
  bh_nBits :: "32 word"
  bh_nNonce :: "32 word"
  nAccumulatorCheckpoint :: uint256

record CBlock = CBlockHeader +
  vtx :: "CTransaction list"
  vchBlockSig :: bytes

definition CBlockHeader_null :: CBlockHeader where
  "CBlockHeader_null = \<lparr>bh_nVersion = 7, hashPrevBlock = 0, hashMerkleRoot = 0, bh_nTime = 0, bh_nBits = 0, bh_nNonce = 0,
     nAccumulatorCheckpoint = 0\<rparr>"

definition CBlockHeader_IsNull :: "'a CBlockHeader_scheme \<Rightarrow> bool" where
  "CBlockHeader_IsNull b \<longleftrightarrow> bh_nBits b = 0"

definition GetBlockHeader :: "CBlock \<Rightarrow> CBlockHeader" where
  "GetBlockHeader b = CBlockHeader.truncate b"

text \<open>The constructor \<open>CBlock(const CBlockHeader&)\<close>.\<close>

definition CBlock_of :: "CBlockHeader \<Rightarrow> CBlock" where
  "CBlock_of h = CBlockHeader.extend h \<lparr>vtx = [], vchBlockSig = []\<rparr>"

definition CBlock_GetBlockTime :: "'a CBlockHeader_scheme \<Rightarrow> int" where
  "CBlock_GetBlockTime b = uint (bh_nTime b)"

definition IsProofOfStake :: "CBlock \<Rightarrow> bool" where
  "IsProofOfStake b \<longleftrightarrow> length (vtx b) > 1 \<and> IsCoinStake (vtx b ! 1)"

definition IsProofOfWork :: "CBlock \<Rightarrow> bool" where
  "IsProofOfWork b \<longleftrightarrow> \<not> IsProofOfStake b"

definition GetProofOfStake :: "CBlock \<Rightarrow> COutPoint \<times> 32 word" where
  "GetProofOfStake b = (if IsProofOfStake b then (prevout (vin (vtx b ! 1) ! 0), bh_nTime b) else (COutPoint_null, 0))"

section \<open>Wire format\<close>

text \<open>The checkpoint of the accumulators is not part of it; a block read from a stream keeps the initial zero.\<close>

definition ser_CBlockHeader :: "'a CBlockHeader_scheme \<Rightarrow> bytes" where
  "ser_CBlockHeader b = ser_word 4 (bh_nVersion b) @ ser_word 32 (hashPrevBlock b) @ ser_word 32 (hashMerkleRoot b) @
     ser_word 4 (bh_nTime b) @ ser_word 4 (bh_nBits b) @ ser_word 4 (bh_nNonce b)"

definition unser_CBlockHeader :: "CBlockHeader reader" where
  "unser_CBlockHeader =
     rbind (unser_word 4) (\<lambda>ver. rbind (unser_word 32) (\<lambda>prev. rbind (unser_word 32) (\<lambda>root.
     rbind (unser_word 4) (\<lambda>time. rbind (unser_word 4) (\<lambda>nb. rbind (unser_word 4) (\<lambda>nonce.
       rreturn \<lparr>bh_nVersion = ver, hashPrevBlock = prev, hashMerkleRoot = root, bh_nTime = time, bh_nBits = nb, bh_nNonce = nonce,
         nAccumulatorCheckpoint = 0\<rparr>))))))"

definition write_block :: "bool \<Rightarrow> CBlock \<Rightarrow> bytes" where
  "write_block fAllowWitness b =
     ser_CBlockHeader b @ Serialize_vector (write_tx fAllowWitness) (vtx b) @
     (if length (vtx b) > 1 \<and> IsCoinStake (vtx b ! 1) then Serialize_bytes (vchBlockSig b) else [])"

text \<open>\<open>None\<close> is the failing assertion in a transaction.\<close>

definition SerializeBlock :: "bool \<Rightarrow> CBlock \<Rightarrow> bytes option" where
  "SerializeBlock fAllowWitness b =
     (if list_all (\<lambda>tx. SerializeTransaction fAllowWitness tx \<noteq> None) (vtx b) then Some (write_block fAllowWitness b) else None)"

definition UnserializeBlock :: "bool \<Rightarrow> CBlock reader" where
  "UnserializeBlock fAllowWitness =
     rbind unser_CBlockHeader (\<lambda>h.
     rbind (Unserialize_vector (UnserializeTransaction fAllowWitness)) (\<lambda>txs.
     rbind (if length txs > 1 \<and> IsCoinStake (txs ! 1) then Unserialize_bytes else rreturn []) (\<lambda>sig.
       rreturn ((CBlock_of h)\<lparr>vtx := txs, vchBlockSig := sig\<rparr>))))"

definition GetBlockCost :: "CBlock \<Rightarrow> nat" where
  "GetBlockCost b = length (write_block False b) * (WITNESS_SCALE_FACTOR - 1) + length (write_block True b)"

interpretation header: serializer ser_CBlockHeader unser_CBlockHeader "\<lambda>h :: CBlockHeader. nAccumulatorCheckpoint h = 0"
  by unfold_locales (auto simp: ser_CBlockHeader_def unser_CBlockHeader_def w32.bind_unser w256.bind_unser
      w32.bind_Inr w256.bind_Inr)

interpretation txs: serializer "Serialize_vector (write_tx fa)" "Unserialize_vector (UnserializeTransaction fa)" "vector_ok (tx_ok fa)" for fa
  by (rule tx.vector_serializer)

definition block_ok :: "bool \<Rightarrow> CBlock \<Rightarrow> bool" where
  "block_ok fa b \<longleftrightarrow> nAccumulatorCheckpoint b = 0 \<and> vector_ok (tx_ok fa) (vtx b) \<and>
     (if IsProofOfStake b then length (vchBlockSig b) \<le> MAX_SIZE else vchBlockSig b = [])"

lemma GetBlockHeader_simps [simp]:
  "bh_nVersion (GetBlockHeader b) = bh_nVersion b" "hashPrevBlock (GetBlockHeader b) = hashPrevBlock b"
  "hashMerkleRoot (GetBlockHeader b) = hashMerkleRoot b" "bh_nTime (GetBlockHeader b) = bh_nTime b"
  "bh_nBits (GetBlockHeader b) = bh_nBits b" "bh_nNonce (GetBlockHeader b) = bh_nNonce b"
  "nAccumulatorCheckpoint (GetBlockHeader b) = nAccumulatorCheckpoint b"
  by (simp_all add: GetBlockHeader_def CBlockHeader.defs)

lemma ser_GetBlockHeader [simp]: "ser_CBlockHeader (GetBlockHeader b) = ser_CBlockHeader b"
  by (simp add: ser_CBlockHeader_def)

lemma CBlock_of_GetBlockHeader: "(CBlock_of (GetBlockHeader b))\<lparr>vtx := vtx b, vchBlockSig := vchBlockSig b\<rparr> = b"
  by (simp add: CBlock_of_def GetBlockHeader_def CBlockHeader.defs)

lemma CBlock_of_simps [simp]:
  "ser_CBlockHeader ((CBlock_of h)\<lparr>vtx := txs, vchBlockSig := s\<rparr>) = ser_CBlockHeader h"
  "nAccumulatorCheckpoint (CBlock_of h) = nAccumulatorCheckpoint h"
  by (simp_all add: CBlock_of_def CBlockHeader.defs ser_CBlockHeader_def)

lemma bind_header: "nAccumulatorCheckpoint b = 0 \<Longrightarrow> rbind unser_CBlockHeader f (ser_CBlockHeader b @ rest) = f (GetBlockHeader b) rest"
  using header.bind_unser [of "GetBlockHeader b"] by simp

interpretation block: serializer "write_block fa" "UnserializeBlock fa" "block_ok fa" for fa
proof
  show "UnserializeBlock fa (write_block fa b @ rest) = Inr (b, rest)" if "block_ok fa b" for b rest
  proof -
    have h: "UnserializeBlock fa (write_block fa b @ rest) =
        rbind (if IsProofOfStake b then Unserialize_bytes else rreturn []) (\<lambda>sig.
          rreturn ((CBlock_of (GetBlockHeader b))\<lparr>vtx := vtx b, vchBlockSig := sig\<rparr>))
          ((if IsProofOfStake b then Serialize_bytes (vchBlockSig b) else []) @ rest)"
      using that by (simp add: UnserializeBlock_def write_block_def block_ok_def IsProofOfStake_def bind_header txs.bind_unser)
    show ?thesis using that CBlock_of_GetBlockHeader [of b]
      unfolding h by (auto simp: block_ok_def vch.bind_unser)
  qed
  show "s = write_block fa b @ r \<and> block_ok fa b" if read: "UnserializeBlock fa s = Inr (b, r)" for s b r
  proof -
    obtain h txs s1 where h: "nAccumulatorCheckpoint h = 0" "vector_ok (tx_ok fa) txs"
        "s = ser_CBlockHeader h @ Serialize_vector (write_tx fa) txs @ s1"
      and rest: "rbind (if length txs > 1 \<and> IsCoinStake (txs ! 1) then Unserialize_bytes else rreturn []) (\<lambda>sig.
        rreturn ((CBlock_of h)\<lparr>vtx := txs, vchBlockSig := sig\<rparr>)) s1 = Inr (b, r)"
      using read unfolding UnserializeBlock_def header.bind_Inr txs.bind_Inr by blast
    show ?thesis
    proof (cases "length txs > 1 \<and> IsCoinStake (txs ! 1)")
      case True
      then show ?thesis using rest h by (auto simp: vch.bind_Inr write_block_def block_ok_def IsProofOfStake_def)
    next
      case False
      then show ?thesis using rest h by (auto simp: write_block_def block_ok_def IsProofOfStake_def)
    qed
  qed
qed

section \<open>The block hash\<close>

record quark_hashes =
  blake512 :: "bytes \<Rightarrow> bytes"
  bmw512 :: "bytes \<Rightarrow> bytes"
  groestl512 :: "bytes \<Rightarrow> bytes"
  jh512 :: "bytes \<Rightarrow> bytes"
  keccak512 :: "bytes \<Rightarrow> bytes"
  skein512 :: "bytes \<Rightarrow> bytes"

text \<open>The values of the array \<open>hash\<close> are kept as the 64 bytes that the functions write.\<close>

definition uint512_of :: "bytes \<Rightarrow> 512 word" where
  "uint512_of h = of_nat (le_val h)"

definition trim256 :: "512 word \<Rightarrow> uint256" where
  "trim256 w = ucast w"

definition HashQuark :: "quark_hashes \<Rightarrow> bytes \<Rightarrow> uint256" where
  "HashQuark Q input =
     (let masked = (\<lambda>h. uint512_of h AND 8 \<noteq> 0);
          hash0 = blake512 Q input;
          hash1 = bmw512 Q hash0;
          hash2 = (if masked hash1 then groestl512 Q hash1 else skein512 Q hash1);
          hash3 = groestl512 Q hash2;
          hash4 = jh512 Q hash3;
          hash5 = (if masked hash4 then blake512 Q hash4 else bmw512 Q hash4);
          hash6 = keccak512 Q hash5;
          hash7 = skein512 Q hash6;
          hash8 = (if masked hash7 then keccak512 Q hash7 else jh512 Q hash7)
      in trim256 (uint512_of hash8))"

text \<open>The bytes from \<open>nVersion\<close> to \<open>nNonce\<close> in memory are the wire format of the header.\<close>

definition CBlock_GetHash :: "quark_hashes \<Rightarrow> 'a CBlockHeader_scheme \<Rightarrow> uint256" where
  "CBlock_GetHash Q b = HashQuark Q (ser_CBlockHeader b)"

section \<open>Merkle roots of a block\<close>

definition tx_GetWitnessHash :: "hashes \<Rightarrow> CTransaction \<Rightarrow> uint256" where
  "tx_GetWitnessHash hs tx = GetHash hs (write_tx True tx)"

definition CBlock_BuildMerkleTree :: "hashes \<Rightarrow> CBlock \<Rightarrow> uint256 \<times> bool" where
  "CBlock_BuildMerkleTree hs b = BuildMerkleTree (Hash_pair hs) (map (tx_GetHash hs) (vtx b))"

definition BlockMerkleRoot :: "hashes \<Rightarrow> CBlock \<Rightarrow> (uint256 \<times> bool) option" where
  "BlockMerkleRoot hs b = ComputeMerkleRoot (Hash_pair hs) (map (tx_GetHash hs) (vtx b))"

text \<open>\<open>None\<close> also stands for the write to the first leaf of a block without transactions.\<close>

definition BlockWitnessMerkleRoot :: "hashes \<Rightarrow> CBlock \<Rightarrow> (uint256 \<times> bool) option" where
  "BlockWitnessMerkleRoot hs b =
     (if vtx b = [] then None
      else ComputeMerkleRoot (Hash_pair hs) (0 # map (tx_GetWitnessHash hs) (tl (vtx b))))"

definition BlockMerkleBranch :: "hashes \<Rightarrow> CBlock \<Rightarrow> nat \<Rightarrow> uint256 list option" where
  "BlockMerkleBranch hs b position = ComputeMerkleBranch (Hash_pair hs) (map (tx_GetHash hs) (vtx b)) position"

section \<open>The block signature\<close>

datatype sign_fail = Sign_failed | uint_error | Out_of_range

text \<open>\<open>CKeyStore::GetKey\<close>, \<open>CKey::Sign\<close> and \<open>CKey::SignCompact\<close>.\<close>

record 'k key_store =
  ks_GetKey :: "bytes \<Rightarrow> 'k option"
  ks_Sign :: "'k \<Rightarrow> uint256 \<Rightarrow> bytes option"
  ks_SignCompact :: "'k \<Rightarrow> uint256 \<Rightarrow> bytes option"

text \<open>The constructor of \<open>uint160\<close> from a vector throws when the vector has another size.\<close>

definition uint160_of :: "bytes \<Rightarrow> sign_fail + bytes" where
  "uint160_of v = (if length v \<noteq> 20 then Inl uint_error else Inr v)"

definition sign_with :: "(bytes \<Rightarrow> 'k option) \<Rightarrow> ('k \<Rightarrow> uint256 \<Rightarrow> bytes option) \<Rightarrow> bytes \<Rightarrow> uint256 \<Rightarrow> CBlock \<Rightarrow> sign_fail + CBlock" where
  "sign_with GetKey Sign keyID hash b =
     (case GetKey keyID of
        None \<Rightarrow> Inl Sign_failed
      | Some key \<Rightarrow> (case Sign key hash of None \<Rightarrow> Inl Sign_failed | Some sig \<Rightarrow> Inr (b\<lparr>vchBlockSig := sig\<rparr>)))"

fun sign_pow_outputs :: "'k key_store \<Rightarrow> uint256 \<Rightarrow> CBlock \<Rightarrow> CTxOut list \<Rightarrow> sign_fail + CBlock" where
  "sign_pow_outputs K hash b [] = Inl Sign_failed"
| "sign_pow_outputs K hash b (txout # outs) =
     (case Solver TX_NONSTANDARD (scriptPubKey txout) of (ok, whichType, vSolutions) \<Rightarrow>
        if \<not> ok then sign_pow_outputs K hash b outs
        else if whichType = TX_PUBKEY then
          vbind (uint160_of (vSolutions ! 0)) (\<lambda>keyID. sign_with (ks_GetKey K) (ks_Sign K) keyID hash b)
        else sign_pow_outputs K hash b outs)"

text \<open>The script whose type decides about the signature of a proof of stake.\<close>

definition stake_script :: "CBlock \<Rightarrow> bytes" where
  "stake_script b = scriptPubKey (vout (vtx b ! 1) ! 1)"

definition SignBlock :: "quark_hashes \<Rightarrow> hashes \<Rightarrow> 'k key_store \<Rightarrow> CBlock \<Rightarrow> sign_fail + CBlock" where
  "SignBlock Q hs K b =
     (let hash = CBlock_GetHash Q b in
      if \<not> IsProofOfStake b then
        (if vtx b = [] then Inl Out_of_range else sign_pow_outputs K hash b (vout (vtx b ! 0)))
      else
        case Solver TX_NONSTANDARD (stake_script b) of (ok, whichType, vSolutions) \<Rightarrow>
          if \<not> ok then Inl Sign_failed
          else if whichType = TX_PUBKEYHASH then
            vbind (uint160_of (vSolutions ! 0)) (\<lambda>keyID. sign_with (ks_GetKey K) (ks_Sign K) keyID hash b)
          else if whichType = TX_PUBKEY then
            sign_with (ks_GetKey K) (ks_Sign K) (CPubKey_GetID hs (CPubKey_Set (vSolutions ! 0))) hash b
          else if whichType = TX_WITNESS_V0_KEYHASH then
            vbind (uint160_of (vSolutions ! 0)) (\<lambda>keyID. sign_with (ks_GetKey K) (ks_SignCompact K) keyID hash b)
          else Inl Sign_failed)"

text \<open>The recovery of the curve library gets the hash, the 64 bytes, the recovery number and whether the key is compressed.\<close>

type_synonym ec_recover = "uint256 \<Rightarrow> bytes \<Rightarrow> nat \<Rightarrow> bool \<Rightarrow> bytes option"

definition CPubKey_RecoverCompact :: "ec_recover \<Rightarrow> uint256 \<Rightarrow> bytes \<Rightarrow> bytes option" where
  "CPubKey_RecoverCompact ec_rec hash vchSig =
     (if length vchSig \<noteq> 65 then None
      else
        let recid = unat ((vchSig ! 0 - 27) AND 3); fComp = ((vchSig ! 0 - 27) AND 4 \<noteq> 0)
        in map_option CPubKey_Set (ec_rec hash (drop 1 vchSig) recid fComp))"

definition CPubKey_eq :: "bytes \<Rightarrow> bytes \<Rightarrow> bool" where
  "CPubKey_eq a b \<longleftrightarrow> a ! 0 = b ! 0 \<and> take (CPubKey_size a) a = take (CPubKey_size a) b"

text \<open>The key that the witness of the first input of the coinstake shows.\<close>

definition stake_witness_key :: "CBlock \<Rightarrow> bytes option" where
  "stake_witness_key b =
     (if length (vtx b) > 1 \<and> length (wit (vtx b ! 1)) > 0 \<and> length (wit (vtx b ! 1) ! 0) > 1
      then Some (CPubKey_Set (wit (vtx b ! 1) ! 0 ! 1)) else None)"

definition CheckBlockSignature :: "quark_hashes \<Rightarrow> ec_verify \<Rightarrow> ec_recover \<Rightarrow> CBlock \<Rightarrow> bool" where
  "CheckBlockSignature Q ec ec_rec b =
     (if IsProofOfWork b then vchBlockSig b = []
      else
        case Solver TX_NONSTANDARD (stake_script b) of (ok, whichType, vSolutions) \<Rightarrow>
          if \<not> ok then False
          else if whichType = TX_PUBKEY then
            (let pubkey = CPubKey_Set (vSolutions ! 0) in
             if \<not> CPubKey_IsValid pubkey then False
             else if vchBlockSig b = [] then False
             else CPubKey_Verify ec pubkey (CBlock_GetHash Q b) (vchBlockSig b))
          else if whichType = TX_PUBKEYHASH then
            (let pubkey = CPubKey_Set (vSolutions ! 0) in
             if \<not> CPubKey_IsValid pubkey then False
             else if vchBlockSig b = [] then False
             else CPubKey_Verify ec pubkey (CBlock_GetHash Q b) (vchBlockSig b))
          else if whichType = TX_WITNESS_V0_KEYHASH then
            (if vchBlockSig b = [] then False
             else case CPubKey_RecoverCompact ec_rec (CBlock_GetHash Q b) (vchBlockSig b) of
                 None \<Rightarrow> False
               | Some pubkey \<Rightarrow>
                   if \<not> CPubKey_IsValid pubkey then False
                   else case stake_witness_key b of None \<Rightarrow> True | Some pkey \<Rightarrow> CPubKey_eq pubkey pkey)
          else False)"

section \<open>The commitment to the witnesses\<close>

definition commitment_header :: bytes where
  "commitment_header = [of_nat OP_RETURN, 0x24, 0xaa, 0x21, 0xa9, 0xed]"

definition is_commitment :: "bytes \<Rightarrow> bool" where
  "is_commitment spk \<longleftrightarrow> length spk \<ge> 38 \<and> take 6 spk = commitment_header"

definition GetWitnessCommitmentIndex :: "CBlock \<Rightarrow> int" where
  "GetWitnessCommitmentIndex b =
     (if length (vtx b) > 1
      then fold (\<lambda>(o', out) commitpos. if is_commitment (scriptPubKey out) then int o' else commitpos)
             (enumerate 0 (vout (vtx b ! 0))) (- 1)
      else - 1)"

text \<open>The arguments are the value of the spork and the time of the previous block.\<close>

definition UpdateUncommittedBlockStructures :: "int \<Rightarrow> int \<Rightarrow> CBlock \<Rightarrow> CBlock" where
  "UpdateUncommittedBlockStructures spork20 prevTime b =
     (if GetWitnessCommitmentIndex b \<noteq> - 1 \<and> spork20 < prevTime \<and> wit (vtx b ! 0) = []
      then b\<lparr>vtx := (vtx b)[0 := (vtx b ! 0)\<lparr>wit := [[replicate 32 0]]\<rparr>]\<rparr> else b)"

text \<open>The commitment and the block; \<open>Hash256\<close> of the root and the nonce replaces the root.\<close>

definition witness_commitment :: "hashes \<Rightarrow> uint256 \<Rightarrow> bytes \<Rightarrow> uint256" where
  "witness_commitment hs root nonce = uint256_of (CHash256 hs (ser_word 32 root @ nonce))"

definition GenerateCoinbaseCommitment :: "hashes \<Rightarrow> int \<Rightarrow> int \<Rightarrow> CBlock \<Rightarrow> (bytes \<times> CBlock) option" where
  "GenerateCoinbaseCommitment hs spork20 prevTime b =
     (let commitpos = GetWitnessCommitmentIndex b;
          fHaveWitness = list_ex (\<lambda>tx. \<not> CTxWitness_IsNull (wit tx)) (drop 1 (vtx b))
      in map_option (\<lambda>(commitment, b'). (commitment, UpdateUncommittedBlockStructures spork20 prevTime b'))
           (if fHaveWitness \<and> spork20 < prevTime \<and> commitpos = - 1 then
              map_option (\<lambda>(witnessroot, mutated).
                let script = commitment_header @ ser_word 32 (witness_commitment hs witnessroot (replicate 32 0));
                    out = \<lparr>nValue = 0, scriptPubKey = script, nRounds = - 10\<rparr>
                in (script, b\<lparr>vtx := (vtx b)[0 := (vtx b ! 0)\<lparr>vout := vout (vtx b ! 0) @ [out]\<rparr>]\<rparr>))
              (BlockWitnessMerkleRoot hs b)
            else Some ([], b)))"

section \<open>What the block hash commits to\<close>

definition wire_header :: "CBlock \<Rightarrow> CBlockHeader" where
  "wire_header b = (GetBlockHeader b)\<lparr>nAccumulatorCheckpoint := 0\<rparr>"

definition strip_witness :: "CTransaction \<Rightarrow> CTransaction" where
  "strip_witness tx = tx\<lparr>wit := []\<rparr>"

lemma write_strip [simp]: "write_tx False (strip_witness tx) = write_tx False tx"
  by (simp add: write_tx_def strip_witness_def)

lemma tx_GetHash_strip [simp]: "tx_GetHash hs (strip_witness tx) = tx_GetHash hs tx"
  by (simp add: tx_GetHash_def)

lemma wire_header_inject: "ser_CBlockHeader a = ser_CBlockHeader b \<Longrightarrow> wire_header a = wire_header b"
  using header.ser_inject [of "wire_header a" "wire_header b" "[]" "[]"] by (simp add: wire_header_def ser_CBlockHeader_def)

lemma wire_header_root: "wire_header a = wire_header b \<Longrightarrow> hashMerkleRoot a = hashMerkleRoot b"
  by (drule arg_cong [of _ _ hashMerkleRoot]) (simp add: wire_header_def)

text \<open>The assumptions on the hash functions: no collision among what the two blocks hash.\<close>

definition blocks_hash_apart :: "quark_hashes \<Rightarrow> hashes \<Rightarrow> CBlock \<Rightarrow> CBlock \<Rightarrow> bool" where
  "blocks_hash_apart Q hs a b \<longleftrightarrow>
     inj_on (HashQuark Q) {ser_CBlockHeader a, ser_CBlockHeader b} \<and>
     no_collision (Hash_pair hs) (hashed (Hash_pair hs) (map (tx_GetHash hs) (vtx a)) \<union> hashed (Hash_pair hs) (map (tx_GetHash hs) (vtx b))) \<and>
     inj_on (GetHash hs) (write_tx False ` (set (vtx a) \<union> set (vtx b)))"

text \<open>The checks that \<open>CheckBlock\<close> makes on the merkle root, with at least one transaction.\<close>

definition root_checked :: "hashes \<Rightarrow> CBlock \<Rightarrow> bool" where
  "root_checked hs b \<longleftrightarrow> vtx b \<noteq> [] \<and> CBlock_BuildMerkleTree hs b = (hashMerkleRoot b, False)"

text \<open>C18: The block hash commits to the block.  Two blocks with the same hash whose merkle roots were checked, with trees of the same height, have
  the same header and the same transactions, apart from what the hash leaves out: the witnesses, the block signature and the accumulator
  checkpoint; unless the hash functions collide on what the two blocks hash.\<close>

theorem block_hash_commits:
  assumes "CBlock_GetHash Q a = CBlock_GetHash Q b" and "root_checked hs a" and "root_checked hs b"
    and "length (GetMerkleBranch (Hash_pair hs) (map (tx_GetHash hs) (vtx a)) 0) =
         length (GetMerkleBranch (Hash_pair hs) (map (tx_GetHash hs) (vtx b)) 0)"
    and "blocks_hash_apart Q hs a b"
    and "\<forall>tx \<in> set (vtx a) \<union> set (vtx b). tx_ok False (strip_witness tx)"
  shows "wire_header a = wire_header b \<and> map strip_witness (vtx a) = map strip_witness (vtx b)"
proof
  have quark: "inj_on (HashQuark Q) {ser_CBlockHeader a, ser_CBlockHeader b}"
    and pairs: "no_collision (Hash_pair hs) (hashed (Hash_pair hs) (map (tx_GetHash hs) (vtx b)) \<union> hashed (Hash_pair hs) (map (tx_GetHash hs) (vtx a)))"
    and ids: "inj_on (GetHash hs) (write_tx False ` (set (vtx a) \<union> set (vtx b)))"
    using assms(5) unfolding blocks_hash_apart_def by (blast, simp only: Un_commute, blast)
  show h: "wire_header a = wire_header b"
    using assms(1) inj_onD [OF quark, of "ser_CBlockHeader a" "ser_CBlockHeader b"] by (intro wire_header_inject) (simp add: CBlock_GetHash_def)
  have e: "map (tx_GetHash hs) (vtx a) = map (tx_GetHash hs) (vtx b)"
  proof (rule BuildMerkleTree_inject [OF _ _ _ _ assms(4) pairs])
    show "BuildMerkleTree (Hash_pair hs) (map (tx_GetHash hs) (vtx b)) = (hashMerkleRoot b, False)"
      "BuildMerkleTree (Hash_pair hs) (map (tx_GetHash hs) (vtx a)) = (hashMerkleRoot b, False)"
      "map (tx_GetHash hs) (vtx a) \<noteq> []" "map (tx_GetHash hs) (vtx b) \<noteq> []"
      using assms(2,3) wire_header_root [OF h] by (simp_all add: root_checked_def CBlock_BuildMerkleTree_def)
  qed
  note l = map_eq_imp_length_eq [OF e]
  show "map strip_witness (vtx a) = map strip_witness (vtx b)"
  proof (rule nth_equalityI)
    fix i assume "i < length (map strip_witness (vtx a))"
    then have i: "i < length (vtx a)" "i < length (vtx b)" using l by simp_all
    then have m: "vtx a ! i \<in> set (vtx a) \<union> set (vtx b)" "vtx b ! i \<in> set (vtx a) \<union> set (vtx b)" by simp_all
    have "tx_GetHash hs (vtx a ! i) = tx_GetHash hs (vtx b ! i)" using arg_cong [OF e, of "\<lambda>xs. xs ! i"] i by simp
    then have "write_tx False (vtx a ! i) = write_tx False (vtx b ! i)"
      by (intro inj_onD [OF ids] imageI m) (simp only: tx_GetHash_def)
    then have "strip_witness (vtx a ! i) = strip_witness (vtx b ! i)"
      using tx.ser_inject [of False "strip_witness (vtx a ! i)" "strip_witness (vtx b ! i)" "[]" "[]"] assms(6) m by simp
    then show "map strip_witness (vtx a) ! i = map strip_witness (vtx b) ! i" using i by simp
  qed (simp add: l)
qed

definition hash_id :: hashes where
  "hash_id = \<lparr>h_RIPEMD160 = \<lambda>x. x, h_SHA1 = \<lambda>x. x, h_SHA256 = \<lambda>x. x\<rparr>"

definition quark_id :: quark_hashes where
  "quark_id = \<lparr>blake512 = \<lambda>x. x, bmw512 = \<lambda>x. x, groestl512 = \<lambda>x. x, jh512 = \<lambda>x. x, keccak512 = \<lambda>x. x, skein512 = \<lambda>x. x\<rparr>"

text \<open>A block with one transaction, with and without a witness, signature and checkpoint.\<close>

definition one_tx_block :: "CScriptWitness list \<Rightarrow> bytes \<Rightarrow> uint256 \<Rightarrow> CBlock" where
  "one_tx_block w sig cp = \<lparr>bh_nVersion = 7, hashPrevBlock = 3, hashMerkleRoot = tx_GetHash hash_id sample_tx, bh_nTime = 9, bh_nBits = 1,
     bh_nNonce = 2, nAccumulatorCheckpoint = cp, vtx = [sample_tx\<lparr>wit := w\<rparr>], vchBlockSig = sig\<rparr>"

lemma block_hash_commits_witness:
  "wire_header (one_tx_block [] [] 0) = wire_header (one_tx_block [[[1]]] [5, 6] 8) \<and>
   map strip_witness (vtx (one_tx_block [] [] 0)) = map strip_witness (vtx (one_tx_block [[[1]]] [5, 6] 8)) \<and>
   one_tx_block [] [] 0 \<noteq> one_tx_block [[[1]]] [5, 6] 8"
proof -
  have ser: "ser_CBlockHeader (one_tx_block w s c) = ser_CBlockHeader (one_tx_block [] [] 0)" for w s c
    by (simp add: ser_CBlockHeader_def one_tx_block_def)
  have tx: "write_tx False (sample_tx\<lparr>wit := w\<rparr>) = write_tx False sample_tx" for w
    by (simp add: write_tx_def)
  then have gh: "tx_GetHash hash_id (sample_tx\<lparr>wit := w\<rparr>) = tx_GetHash hash_id sample_tx" for w by (simp add: tx_GetHash_def)
  have v: "vtx (one_tx_block w s c) = [sample_tx\<lparr>wit := w\<rparr>]" "hashMerkleRoot (one_tx_block w s c) = tx_GetHash hash_id sample_tx" for w s c
    by (simp_all add: one_tx_block_def)
  have root: "root_checked hash_id (one_tx_block w s c)" for w s c
    by (simp add: root_checked_def CBlock_BuildMerkleTree_def v gh BuildMerkleTree_reference)
  have apart: "blocks_hash_apart quark_id hash_id (one_tx_block [] [] 0) (one_tx_block [[[1]]] [5, 6] 8)"
    unfolding blocks_hash_apart_def ser [of "[[[1]]]" "[5, 6]" 8] v
    by (simp add: no_collision_def hashed.simps [of "Hash_pair hash_id"] tx)
  have ok: "\<forall>tx \<in> set (vtx (one_tx_block [] [] 0)) \<union> set (vtx (one_tx_block [[[1]]] [5, 6] 8)). tx_ok False (strip_witness tx)"
    unfolding v by (simp add: tx_ok_def strip_witness_def sample_tx_def vector_ok_def MAX_SIZE_def CTxIn_ok_def CTxOut_ok_def signed_ok_def)
  have "CBlock_GetHash quark_id (one_tx_block [] [] 0) = CBlock_GetHash quark_id (one_tx_block [[[1]]] [5, 6] 8)"
    unfolding CBlock_GetHash_def by (simp only: ser [of "[[[1]]]"])
  from block_hash_commits [OF this root root _ apart ok] show ?thesis
    by (simp add: v gh) (simp add: one_tx_block_def)
qed

section \<open>Signing against checking\<close>

text \<open>What the code expects of the key store and the curve library, with the public key of each key: keys are found under the hash of their
  public key, signatures verify, and the key recovered from a compact signature is the key that signed.\<close>

definition keys_sound :: "hashes \<Rightarrow> ec_verify \<Rightarrow> ec_recover \<Rightarrow> 'k key_store \<Rightarrow> ('k \<Rightarrow> bytes) \<Rightarrow> bool" where
  "keys_sound hs ec ec_rec K pubkey \<longleftrightarrow>
     (\<forall>keyID key. ks_GetKey K keyID = Some key \<longrightarrow>
        CPubKey_IsValid (pubkey key) \<and>
        (\<forall>h s. ks_Sign K key h = Some s \<longrightarrow> s \<noteq> [] \<and> CPubKey_Verify ec (pubkey key) h s) \<and>
        (\<forall>h s. ks_SignCompact K key h = Some s \<longrightarrow> CPubKey_RecoverCompact ec_rec h s = Some (pubkey key)))"

text \<open>The key found for the public key of a script is the key of that public key.\<close>

definition key_found :: "hashes \<Rightarrow> 'k key_store \<Rightarrow> ('k \<Rightarrow> bytes) \<Rightarrow> bytes \<Rightarrow> bool" where
  "key_found hs K pubkey v \<longleftrightarrow>
     (\<forall>key. ks_GetKey K (CPubKey_GetID hs (CPubKey_Set v)) = Some key \<longrightarrow> pubkey key = CPubKey_Set v)"

lemma CBlock_GetHash_sig [simp]: "CBlock_GetHash Q (b\<lparr>vchBlockSig := s\<rparr>) = CBlock_GetHash Q b"
  by (simp add: CBlock_GetHash_def ser_CBlockHeader_def)

lemma stake_sig [simp]:
  "IsProofOfStake (b\<lparr>vchBlockSig := s\<rparr>) = IsProofOfStake b" "IsProofOfWork (b\<lparr>vchBlockSig := s\<rparr>) = IsProofOfWork b"
  "stake_script (b\<lparr>vchBlockSig := s\<rparr>) = stake_script b" "stake_witness_key (b\<lparr>vchBlockSig := s\<rparr>) = stake_witness_key b"
  by (simp_all add: IsProofOfStake_def IsProofOfWork_def stake_script_def stake_witness_key_def)

lemma sign_with_Inr:
  "sign_with G S keyID h b = Inr b' \<longleftrightarrow> (\<exists>key s. G keyID = Some key \<and> S key h = Some s \<and> b' = b\<lparr>vchBlockSig := s\<rparr>)"
  by (auto simp: sign_with_def split: option.splits)

lemma uint160_of_Inr [simp]: "uint160_of v = Inr k \<longleftrightarrow> length v = 20 \<and> k = v"
  by (auto simp: uint160_of_def)

lemma vbind_Inr_ex: "vbind r f = Inr y \<longleftrightarrow> (\<exists>x. r = Inr x \<and> f x = Inr y)"
  by (cases r) (auto simp: vbind_def)

lemma CPubKey_Set_short: "length v = 20 \<Longrightarrow> CPubKey_Set v = [0xff]"
  by (auto simp: CPubKey_Set_def GetLen_def Let_def)

lemma CPubKey_null_invalid [simp]: "\<not> CPubKey_IsValid [0xff]"
  by (simp add: CPubKey_IsValid_def CPubKey_size_def GetLen_def)

lemma Solver_keyhash_length: "Solver t0 s = (True, TX_PUBKEYHASH, vS) \<Longrightarrow> length (vS ! 0) = 20"
  using Solver_cases [of t0 s TX_PUBKEYHASH vS] by (auto simp: keyhash_script_def)

lemma Solver_key_length: "Solver t0 s = (True, TX_PUBKEY, vS) \<Longrightarrow> 33 \<le> length (vS ! 0)"
  using Solver_cases [of t0 s TX_PUBKEY vS] by (auto simp: key_script_def)

lemma sign_pow_outputs_fails: "\<exists>e. sign_pow_outputs K h b outs = Inl e"
proof (induction outs)
  case (Cons out outs)
  show ?case
  proof (cases "Solver TX_NONSTANDARD (scriptPubKey out)")
    case (fields ok t vS)
    show ?thesis
    proof (cases "ok \<and> t = TX_PUBKEY")
      case True
      then have "length (vS ! 0) \<noteq> 20" using Solver_key_length [of TX_NONSTANDARD "scriptPubKey out" vS] fields by auto
      then show ?thesis using True fields by (simp add: uint160_of_def vbind_def)
    qed (use fields Cons in auto)
  qed
qed simp

lemma CheckBlockSignature_keyhash:
  assumes "IsProofOfStake b" and "Solver TX_NONSTANDARD (stake_script b) = (True, TX_PUBKEYHASH, vS)"
  shows "\<not> CheckBlockSignature Q ec ec_rec b"
  using assms Solver_keyhash_length [OF assms(2)] by (simp add: CheckBlockSignature_def IsProofOfWork_def CPubKey_Set_short)

text \<open>A successful signature, and what the check says of it.\<close>

lemma SignBlock_result:
  assumes "keys_sound hs ec ec_rec K pubkey" and "SignBlock Q hs K b = Inr b'"
    and "\<forall>v. Solver TX_NONSTANDARD (stake_script b) = (True, TX_PUBKEY, [v]) \<longrightarrow> key_found hs K pubkey v"
  shows "IsProofOfStake b \<and> b' = b\<lparr>vchBlockSig := vchBlockSig b'\<rparr> \<and>
    (\<exists>t v. Solver TX_NONSTANDARD (stake_script b) = (True, t, [v]) \<and>
       t \<in> {TX_PUBKEY, TX_PUBKEYHASH, TX_WITNESS_V0_KEYHASH} \<and>
       (CheckBlockSignature Q ec ec_rec b' \<longleftrightarrow>
          t = TX_PUBKEY \<or>
          t = TX_WITNESS_V0_KEYHASH \<and>
            (\<forall>pkey. stake_witness_key b = Some pkey \<longrightarrow> CPubKey_eq (pubkey (the (ks_GetKey K v))) pkey)))"
proof -
  have pos: "IsProofOfStake b"
    using assms(2) sign_pow_outputs_fails [of K "CBlock_GetHash Q b" b "vout (vtx b ! 0)"] by (auto simp: SignBlock_def Let_def split: if_splits)
  obtain ok t vS where S: "Solver TX_NONSTANDARD (stake_script b) = (ok, t, vS)" using prod_cases3 by blast
  have ok: ok and t: "t \<in> {TX_PUBKEY, TX_PUBKEYHASH, TX_WITNESS_V0_KEYHASH}"
    using assms(2) pos S by (auto simp: SignBlock_def Let_def split: if_splits)
  obtain v where v: "vS = [v]" using Solver_cases [of TX_NONSTANDARD "stake_script b" t vS] S ok t by auto
  note S' = S [unfolded v] and D = CheckBlockSignature_def IsProofOfWork_def
  have sign: "\<exists>s. b' = b\<lparr>vchBlockSig := s\<rparr> \<and>
      (t = TX_PUBKEY \<longrightarrow> (\<exists>key. ks_GetKey K (CPubKey_GetID hs (CPubKey_Set v)) = Some key \<and> ks_Sign K key (CBlock_GetHash Q b) = Some s)) \<and>
      (t = TX_WITNESS_V0_KEYHASH \<longrightarrow> (\<exists>key. ks_GetKey K v = Some key \<and> ks_SignCompact K key (CBlock_GetHash Q b) = Some s))"
    using assms(2) pos S' ok t by (auto simp: SignBlock_def Let_def vbind_Inr_ex sign_with_Inr)
  then obtain s where b': "b' = b\<lparr>vchBlockSig := s\<rparr>"
    and key: "t = TX_PUBKEY \<Longrightarrow> \<exists>key. ks_GetKey K (CPubKey_GetID hs (CPubKey_Set v)) = Some key \<and> ks_Sign K key (CBlock_GetHash Q b) = Some s"
    and wkey: "t = TX_WITNESS_V0_KEYHASH \<Longrightarrow> \<exists>key. ks_GetKey K v = Some key \<and> ks_SignCompact K key (CBlock_GetHash Q b) = Some s"
    by blast
  have "CheckBlockSignature Q ec ec_rec b' \<longleftrightarrow> t = TX_PUBKEY \<or> t = TX_WITNESS_V0_KEYHASH \<and>
      (\<forall>pkey. stake_witness_key b = Some pkey \<longrightarrow> CPubKey_eq (pubkey (the (ks_GetKey K v))) pkey)"
    using t
  proof (elim insertE emptyE)
    assume p: "t = TX_PUBKEY"
    then obtain k where k: "ks_GetKey K (CPubKey_GetID hs (CPubKey_Set v)) = Some k" "ks_Sign K k (CBlock_GetHash Q b) = Some s" using key by blast
    then have "pubkey k = CPubKey_Set v" using assms(3) S' ok p by (auto simp: key_found_def)
    moreover have "CPubKey_IsValid (pubkey k)" "s \<noteq> []" "CPubKey_Verify ec (pubkey k) (CBlock_GetHash Q b) s"
      using assms(1) k unfolding keys_sound_def by blast+
    ultimately show ?thesis using p S' ok pos b' by (simp add: D Let_def)
  next
    assume p: "t = TX_PUBKEYHASH"
    then show ?thesis using CheckBlockSignature_keyhash [of b' "[v]"] S' ok pos b' by simp
  next
    assume p: "t = TX_WITNESS_V0_KEYHASH"
    then obtain k where k: "ks_GetKey K v = Some k" "ks_SignCompact K k (CBlock_GetHash Q b) = Some s" using wkey by blast
    then have r: "CPubKey_RecoverCompact ec_rec (CBlock_GetHash Q b) s = Some (pubkey k)" "CPubKey_IsValid (pubkey k)"
      using assms(1) by (auto simp: keys_sound_def)
    then have "s \<noteq> []" by (auto simp: CPubKey_RecoverCompact_def)
    then show ?thesis using r k p S' ok pos b' by (simp add: D split: option.splits)
  qed
  then show ?thesis using pos b' S' ok t by auto
qed

lemma SignBlock_keyhash:
  assumes "IsProofOfStake b" and "Solver TX_NONSTANDARD (stake_script b) = (True, TX_PUBKEYHASH, [v])"
    and "ks_GetKey K v = Some key" and "ks_Sign K key (CBlock_GetHash Q b) = Some sig"
  shows "SignBlock Q hs K b = Inr (b\<lparr>vchBlockSig := sig\<rparr>)"
  using assms Solver_keyhash_length [OF assms(2)] by (simp add: SignBlock_def Let_def sign_with_def vbind_def uint160_of_def)

text \<open>C19: Signing against checking, under the law \<open>keys_sound\<close> of the key store and the curve (its public keys are valid, its
  signatures verify, and the key recovered from a compact signature is the key that signed), and \<open>key_found\<close>: the key found for the public key of
  the stake is its key.  (1) When \<open>SignBlock\<close> succeeds, the block is a proof of stake and only its signature changes; the signed block passes
  \<open>CheckBlockSignature\<close> if and only if the stake pays to a public key, or to a witness key hash where the witness of the stake, if it shows a key,
  shows the key that signed.  (2) A stake that pays to a public key hash passes with no signature at all, although \<open>SignBlock\<close> signs it whenever the
  key store has the key and signs.  (3) A proof of work is never signed.\<close>

theorem SignBlock_checked:
  assumes "keys_sound hs ec ec_rec K pubkey"
    and "\<forall>v. Solver TX_NONSTANDARD (stake_script b) = (True, TX_PUBKEY, [v]) \<longrightarrow> key_found hs K pubkey v"
  shows "(\<forall>b'. SignBlock Q hs K b = Inr b' \<longrightarrow>
      IsProofOfStake b \<and> b' = b\<lparr>vchBlockSig := vchBlockSig b'\<rparr> \<and>
      (\<exists>t v. Solver TX_NONSTANDARD (stake_script b) = (True, t, [v]) \<and>
         t \<in> {TX_PUBKEY, TX_PUBKEYHASH, TX_WITNESS_V0_KEYHASH} \<and>
         (CheckBlockSignature Q ec ec_rec b' \<longleftrightarrow>
            t = TX_PUBKEY \<or>
            t = TX_WITNESS_V0_KEYHASH \<and>
              (\<forall>pkey. stake_witness_key b = Some pkey \<longrightarrow> CPubKey_eq (pubkey (the (ks_GetKey K v))) pkey)))) \<and>
    (\<forall>v. IsProofOfStake b \<and> Solver TX_NONSTANDARD (stake_script b) = (True, TX_PUBKEYHASH, [v]) \<longrightarrow>
      (\<forall>sig. \<not> CheckBlockSignature Q ec ec_rec (b\<lparr>vchBlockSig := sig\<rparr>)) \<and>
      (\<forall>key sig. ks_GetKey K v = Some key \<and> ks_Sign K key (CBlock_GetHash Q b) = Some sig \<longrightarrow>
         SignBlock Q hs K b = Inr (b\<lparr>vchBlockSig := sig\<rparr>))) \<and>
    (IsProofOfWork b \<longrightarrow> (\<forall>b'. SignBlock Q hs K b \<noteq> Inr b'))"
proof (intro conjI allI impI)
  show "IsProofOfStake b" "b' = b\<lparr>vchBlockSig := vchBlockSig b'\<rparr>"
    "\<exists>t v. Solver TX_NONSTANDARD (stake_script b) = (True, t, [v]) \<and>
       t \<in> {TX_PUBKEY, TX_PUBKEYHASH, TX_WITNESS_V0_KEYHASH} \<and>
       (CheckBlockSignature Q ec ec_rec b' \<longleftrightarrow> t = TX_PUBKEY \<or> t = TX_WITNESS_V0_KEYHASH \<and>
          (\<forall>pkey. stake_witness_key b = Some pkey \<longrightarrow> CPubKey_eq (pubkey (the (ks_GetKey K v))) pkey))"
    if "SignBlock Q hs K b = Inr b'" for b'
    using SignBlock_result [OF assms(1) that assms(2)] by blast+
  show "\<not> CheckBlockSignature Q ec ec_rec (b\<lparr>vchBlockSig := sig\<rparr>)"
    if "IsProofOfStake b \<and> Solver TX_NONSTANDARD (stake_script b) = (True, TX_PUBKEYHASH, [v])" for v sig
    using that CheckBlockSignature_keyhash [of "b\<lparr>vchBlockSig := sig\<rparr>" "[v]"] by simp
  show "SignBlock Q hs K b = Inr (b\<lparr>vchBlockSig := sig\<rparr>)"
    if "IsProofOfStake b \<and> Solver TX_NONSTANDARD (stake_script b) = (True, TX_PUBKEYHASH, [v])"
      "ks_GetKey K v = Some key \<and> ks_Sign K key (CBlock_GetHash Q b) = Some sig" for v key sig
    using that by (elim conjE) (rule SignBlock_keyhash)
  show "SignBlock Q hs K b \<noteq> Inr b'" if "IsProofOfWork b" for b'
    using that SignBlock_result [OF assms(1) _ assms(2)] by (auto simp: IsProofOfWork_def)
qed

text \<open>A stake that pays to a witness key hash and shows no key in the witness is accepted with a signature of any key at all.\<close>

lemma CheckBlockSignature_any_key:
  assumes "IsProofOfStake b" and "Solver TX_NONSTANDARD (stake_script b) = (True, TX_WITNESS_V0_KEYHASH, vS)" and "stake_witness_key b = None"
    and "CPubKey_RecoverCompact ec_rec (CBlock_GetHash Q b) s = Some k" and "CPubKey_IsValid k"
  shows "CheckBlockSignature Q ec ec_rec (b\<lparr>vchBlockSig := s\<rparr>)"
proof -
  have "s \<noteq> []" using assms(4) by (auto simp: CPubKey_RecoverCompact_def)
  then show ?thesis using assms by (simp add: CheckBlockSignature_def IsProofOfWork_def)
qed

text \<open>A coinstake that pays to a witness key hash, and a wallet with one key.\<close>

definition stake_tx :: CTransaction where
  "stake_tx = \<lparr>nVersion = 1, vin = [\<lparr>prevout = \<lparr>out_hash = 5, out_n = 0\<rparr>, scriptSig = [], nSequence = - 1, prevPubKey = []\<rparr>],
     vout = [\<lparr>nValue = 0, scriptPubKey = [], nRounds = - 10\<rparr>,
       \<lparr>nValue = 5, scriptPubKey = 0 # 20 # replicate 20 1, nRounds = - 10\<rparr>],
     wit = [], nLockTime = 0\<rparr>"

definition stake_block :: "bytes \<Rightarrow> CBlock" where
  "stake_block sig = \<lparr>bh_nVersion = 7, hashPrevBlock = 3, hashMerkleRoot = 4, bh_nTime = 9, bh_nBits = 1,
     bh_nNonce = 2, nAccumulatorCheckpoint = 0, vtx = [sample_tx, stake_tx], vchBlockSig = sig\<rparr>"

definition one_key :: "unit key_store" where
  "one_key = \<lparr>ks_GetKey = \<lambda>i. if i = replicate 20 1 then Some () else None, ks_Sign = \<lambda>k h. Some [1],
     ks_SignCompact = \<lambda>k h. Some (31 # replicate 64 0)\<rparr>"

definition the_key :: "unit \<Rightarrow> bytes" where
  "the_key k = 2 # replicate 32 7"

definition keyhash_block :: CBlock where
  "keyhash_block = (stake_block [])\<lparr>vtx := [sample_tx,
     stake_tx\<lparr>vout := [vout stake_tx ! 0, \<lparr>nValue = 5, scriptPubKey = [0x76, 0xa9, 20] @ replicate 20 1 @ [0x88, 0xac], nRounds = - 10\<rparr>]\<rparr>]\<rparr>"

lemma SignBlock_checked_witness:
  "CheckBlockSignature quark_id (\<lambda>k h s. True) (\<lambda>h s r c. Some (the_key ())) (stake_block (31 # replicate 64 0)) \<and>
   SignBlock quark_id hash_id one_key keyhash_block = Inr (keyhash_block\<lparr>vchBlockSig := [1]\<rparr>) \<and>
   \<not> CheckBlockSignature quark_id (\<lambda>k h s. True) (\<lambda>h s r c. Some (the_key ())) (keyhash_block\<lparr>vchBlockSig := [1]\<rparr>)"
proof -
  have key: "CPubKey_Set (the_key ()) = the_key ()" "CPubKey_IsValid (the_key ())"
    by (simp_all add: the_key_def CPubKey_Set_def CPubKey_IsValid_def CPubKey_size_def GetLen_def Let_def)
  have sound: "keys_sound hash_id (\<lambda>k h s. True) (\<lambda>h s r c. Some (the_key ())) one_key the_key"
    by (auto simp: keys_sound_def one_key_def CPubKey_Verify_def CPubKey_RecoverCompact_def key split: if_splits)
  have script: "stake_script (stake_block s) = 0 # 20 # replicate 20 1" "IsProofOfStake (stake_block s)" for s
    by (simp_all add: stake_script_def stake_block_def stake_tx_def IsProofOfStake_def IsCoinStake_def COutPoint_IsNull_def CTxOut_IsEmpty_def)
  have hscript: "stake_script keyhash_block = [0x76, 0xa9, 20] @ replicate 20 1 @ [0x88, 0xac]" "IsProofOfStake keyhash_block"
    by (simp_all add: keyhash_block_def stake_script_def stake_block_def stake_tx_def IsProofOfStake_def IsCoinStake_def
      COutPoint_IsNull_def CTxOut_IsEmpty_def)
  have S: "Solver TX_NONSTANDARD (0 # 20 # replicate 20 1) = (True, TX_WITNESS_V0_KEYHASH, [replicate 20 1])"
    by (simp add: Solver_def IsPayToScriptHash_def IsZerocoinMint_def IsWitnessProgram_def DecodeOP_N_def opcode_defs)
  have H: "Solver TX_NONSTANDARD ([0x76, 0xa9, 20] @ replicate 20 1 @ [0x88, 0xac]) = (True, TX_PUBKEYHASH, [replicate 20 1])"
    by code_simp
  have w: "stake_witness_key (stake_block s) = None" for s by (simp add: stake_witness_key_def stake_block_def stake_tx_def)
  have "SignBlock quark_id hash_id one_key (stake_block []) = Inr (stake_block (31 # replicate 64 0))"
    using script(2) by (simp add: SignBlock_def Let_def script S uint160_of_def vbind_def sign_with_def one_key_def)
      (simp add: stake_block_def)
  with SignBlock_checked [OF sound, of "stake_block []" quark_id] have
    "CheckBlockSignature quark_id (\<lambda>k h s. True) (\<lambda>h s r c. Some (the_key ())) (stake_block (31 # replicate 64 0))"
    by (simp add: script S w)
  moreover have "(\<forall>sig. \<not> CheckBlockSignature quark_id (\<lambda>k h s. True) (\<lambda>h s r c. Some (the_key ())) (keyhash_block\<lparr>vchBlockSig := sig\<rparr>)) \<and>
      (\<forall>key sig. ks_GetKey one_key (replicate 20 1) = Some key \<and> ks_Sign one_key key (CBlock_GetHash quark_id keyhash_block) = Some sig \<longrightarrow>
         SignBlock quark_id hash_id one_key keyhash_block = Inr (keyhash_block\<lparr>vchBlockSig := sig\<rparr>))"
  proof (rule SignBlock_checked [OF sound, THEN conjunct2, THEN conjunct1, rule_format])
    show "IsProofOfStake keyhash_block \<and> Solver TX_NONSTANDARD (stake_script keyhash_block) = (True, TX_PUBKEYHASH, [replicate 20 1])"
      using hscript(2) H by (simp only: hscript(1))
    show "key_found hash_id one_key the_key v" if "Solver TX_NONSTANDARD (stake_script keyhash_block) = (True, TX_PUBKEY, [v])" for v
      using that H by (simp only: hscript(1)) simp
  qed
  ultimately show ?thesis by (simp add: one_key_def)
qed

end
