(* ===== verification/Supply.thy ===== *)
theory Supply
  imports UpdateCoins
begin

text \<open>
  The unspent set as a map from outpoints to outputs, what connecting transactions does to it, and the sum of its values.  This is the
  abstract view of the coins of theory \<open>UpdateCoins\<close> that the results on whole blocks are stated in.
\<close>

section \<open>Outputs\<close>

text \<open>An output that \<open>CCoins::Spend\<close> can spend.\<close>

definition outputs :: "utxos \<Rightarrow> COutPoint \<Rightarrow> CTxOut option" where
  "outputs A p =
     (case A (out_hash p) of
        None \<Rightarrow> None
      | Some cs \<Rightarrow>
          if unat (out_n p) < length (coins_vout cs) \<and> \<not> CTxOut_IsNull (coins_vout cs ! unat (out_n p))
          then Some (coins_vout cs ! unat (out_n p)) else None)"

lemma Spend_outputs:
  "A (out_hash p) = Some cs \<Longrightarrow> Spend cs (unat (out_n p)) = None \<longleftrightarrow> outputs A p = None"
  by (auto simp: Spend_def outputs_def Let_def)

lemma utxo_output_outputs:
  "utxo_output A p = (case outputs A p of None \<Rightarrow> None | Some out \<Rightarrow> if IsZerocoinMint (scriptPubKey out) then None else Some out)"
  by (auto simp: utxo_output_def outputs_def IsAvailable_def split: option.splits)

lemma strip_null_nth:
  "n < length (strip_null v) \<and> \<not> CTxOut_IsNull (strip_null v ! n) \<longleftrightarrow> n < length v \<and> \<not> CTxOut_IsNull (v ! n)"
  "n < length (strip_null v) \<Longrightarrow> strip_null v ! n = v ! n"
proof -
  obtain k where k: "v = strip_null v @ k" "list_all CTxOut_IsNull k" using strip_null_split by blast
  have nth: "n < length (strip_null v) \<Longrightarrow> v ! n = strip_null v ! n" by (subst k(1)) (simp add: nth_append)
  have tail: "CTxOut_IsNull (v ! n)" if "n < length v" "\<not> n < length (strip_null v)"
  proof -
    have l: "length v = length (strip_null v) + length k" using arg_cong [OF k(1), of length] by simp
    have "v ! n = k ! (n - length (strip_null v))" using that by (subst k(1)) (simp add: nth_append)
    then show ?thesis using k(2) that l by (simp add: list_all_length)
  qed
  have "length (strip_null v) \<le> length v" using arg_cong [OF k(1), of length] by simp
  then show "n < length (strip_null v) \<and> \<not> CTxOut_IsNull (strip_null v ! n) \<longleftrightarrow> n < length v \<and> \<not> CTxOut_IsNull (v ! n)"
    using nth tail by (cases "n < length (strip_null v)") auto
  show "n < length (strip_null v) \<Longrightarrow> strip_null v ! n = v ! n" using nth by simp
qed

text \<open>Coins with the same outputs up to null outputs at the end, or none left at all.\<close>

lemma outputs_strip:
  assumes "v = strip_null w" and "coins_vout cs = v"
  shows "outputs (A(t := unspent (Some cs))) p =
    (if out_hash p = t then if unat (out_n p) < length w \<and> \<not> CTxOut_IsNull (w ! unat (out_n p)) then Some (w ! unat (out_n p)) else None
     else outputs A p)"
proof (cases "out_hash p = t")
  case True
  let ?n = "unat (out_n p)"
  have p: "?n < length (coins_vout cs) \<Longrightarrow> IsPruned cs \<Longrightarrow> CTxOut_IsNull (coins_vout cs ! ?n)" by (simp add: IsPruned_def list_all_length)
  have "outputs (A(t := unspent (Some cs))) p =
      (if ?n < length (coins_vout cs) \<and> \<not> CTxOut_IsNull (coins_vout cs ! ?n) then Some (coins_vout cs ! ?n) else None)"
    using True p by (simp add: outputs_def unspent_def)
  then show ?thesis using True strip_null_nth [of ?n w] assms by auto
qed (simp add: outputs_def)

lemma outpoint_eq: "p = q \<longleftrightarrow> out_hash p = out_hash q \<and> unat (out_n p) = unat (out_n (q :: COutPoint))"
  by (cases p; cases q) (simp add: word_unat_eq_iff)

lemma outputs_spend_one:
  assumes "A (out_hash p) = Some cs" and "Spend cs (unat (out_n p)) = Some (cs', u)"
  shows "outputs (A(out_hash p := unspent (Some cs'))) = (outputs A)(p := None)"
proof
  fix q
  let ?w = "(coins_vout cs)[unat (out_n p) := CTxOut_null]"
  have c: "coins_vout cs' = strip_null ?w" and l: "unat (out_n p) < length (coins_vout cs)"
    using assms(2) by (auto simp: Spend_def Let_def Cleanup_def split: if_splits)
  have null: "CTxOut_IsNull CTxOut_null" by (simp add: CTxOut_IsNull_def CTxOut_null_def)
  show "outputs (A(out_hash p := unspent (Some cs'))) q = ((outputs A)(p := None)) q"
    unfolding outputs_strip [OF c refl]
    using assms(1) l null by (auto simp: outpoint_eq [of q p] outputs_def nth_list_update)
qed

lemma undo_txout_Spend:
  "A (out_hash p) = Some cs \<Longrightarrow> Spend cs (unat (out_n p)) = Some (cs', u) \<Longrightarrow> outputs A p = Some (undo_txout u)"
  by (auto simp: Spend_def outputs_def Let_def split: if_splits)

text \<open>Spending the inputs of a transaction succeeds exactly when they are different unspent outputs, and removes just these.\<close>

lemma spend_abs_outputs:
  "spend_abs A ins = None \<longleftrightarrow> \<not> (distinct (map prevout ins) \<and> (\<forall>i \<in> set ins. outputs A (prevout i) \<noteq> None))"
  "spend_abs A ins = Some (us, A') \<Longrightarrow> outputs A' = (\<lambda>p. if p \<in> prevout ` set ins then None else outputs A p)"
proof (induction ins arbitrary: A us)
  case (Cons i ins)
  let ?p = "prevout i"
  { case 1
    show ?case
    proof (cases "A (out_hash ?p)")
      case None
      then have "outputs A ?p = None" by (simp add: outputs_def)
      then show ?thesis using None by simp
    next
      case (Some cs)
      show ?thesis
      proof (cases "Spend cs (unat (out_n ?p))")
        case None
        then have "outputs A ?p = None" using Spend_outputs [of A ?p cs] Some by simp
        then show ?thesis using None Some by simp
      next
        case s: (Some r)
        obtain cs' u where r: "r = (cs', u)" by (cases r) auto
        note o = outputs_spend_one [of A ?p cs, OF Some s [unfolded r]]
        have av: "outputs A ?p \<noteq> None" using Spend_outputs [of A ?p cs] Some s by simp
        have "spend_abs A (i # ins) = None \<longleftrightarrow> spend_abs (A(out_hash ?p := unspent (Some cs'))) ins = None"
          using Some s r by (auto split: option.splits)
        also have "\<dots> \<longleftrightarrow> \<not> (distinct (map prevout ins) \<and> (\<forall>j \<in> set ins. ((outputs A)(?p := None)) (prevout j) \<noteq> None))"
          unfolding Cons.IH(1) o ..
        also have "\<dots> \<longleftrightarrow> \<not> (distinct (map prevout (i # ins)) \<and> (\<forall>j \<in> set (i # ins). outputs A (prevout j) \<noteq> None))"
          using av by (auto simp: image_iff split: if_splits) metis+
        finally show ?thesis .
      qed
    qed
  next
    case 2
    obtain cs cs' u us' where c: "A (out_hash ?p) = Some cs" "Spend cs (unat (out_n ?p)) = Some (cs', u)"
        "spend_abs (A(out_hash ?p := unspent (Some cs'))) ins = Some (us', A')"
      using 2 by (rule spend_abs_ConsE)
    show ?case unfolding Cons.IH(2) [OF c(3)] outputs_spend_one [of A ?p cs, OF c(1,2)] by (auto simp: fun_eq_iff)
  }
qed simp_all

text \<open>The outputs that a transaction adds.\<close>

definition new_output :: "CTransaction \<Rightarrow> nat \<Rightarrow> CTxOut option" where
  "new_output tx n =
     (if n < length (vout tx) \<and> \<not> IsUnspendable (scriptPubKey (vout tx ! n)) \<and> \<not> CTxOut_IsNull (vout tx ! n)
      then Some (vout tx ! n) else None)"

lemma outputs_FromTx:
  "outputs (A(t := unspent (Some (FromTx tx h)))) p = (if out_hash p = t then new_output tx (unat (out_n p)) else outputs A p)"
proof -
  have "n < length (vout tx) \<Longrightarrow> CTxOut_IsNull (map clear_output (vout tx) ! n) \<longleftrightarrow>
      IsUnspendable (scriptPubKey (vout tx ! n)) \<or> CTxOut_IsNull (vout tx ! n)" for n
    by (auto simp: clear_output_def CTxOut_IsNull_def CTxOut_null_def)
  then show ?thesis unfolding outputs_strip [OF FromTx_vout refl] by (auto simp: new_output_def clear_output_def)
qed

definition spent_points :: "CTransaction \<Rightarrow> COutPoint set" where
  "spent_points tx = (if has_inputs tx then prevout ` set (vin tx) else {})"

lemma update_abs_outputs:
  "update_abs hs h tx A = None \<longleftrightarrow>
     has_inputs tx \<and> \<not> (distinct (map prevout (vin tx)) \<and> (\<forall>i \<in> set (vin tx). outputs A (prevout i) \<noteq> None))"
  "update_abs hs h tx A = Some (us, A') \<Longrightarrow>
     outputs A' = (\<lambda>p. if out_hash p = tx_GetHash hs tx then new_output tx (unat (out_n p))
                       else if p \<in> spent_points tx then None else outputs A p)"
proof -
  show "update_abs hs h tx A = None \<longleftrightarrow>
     has_inputs tx \<and> \<not> (distinct (map prevout (vin tx)) \<and> (\<forall>i \<in> set (vin tx). outputs A (prevout i) \<noteq> None))"
    unfolding spend_abs_outputs(1) [symmetric] by (auto simp: update_abs_def split: option.splits)
  assume u: "update_abs hs h tx A = Some (us, A')"
  show "outputs A' = (\<lambda>p. if out_hash p = tx_GetHash hs tx then new_output tx (unat (out_n p))
      else if p \<in> spent_points tx then None else outputs A p)"
  proof (cases "has_inputs tx")
    case True
    then obtain A1 where A1: "spend_abs A (vin tx) = Some (us, A1)" "A' = A1(tx_GetHash hs tx := unspent (Some (FromTx tx h)))"
      using u by (auto simp: update_abs_def split: option.splits)
    show ?thesis unfolding A1(2) using spend_abs_outputs(2) [OF A1(1)] True by (auto simp: outputs_FromTx spent_points_def fun_eq_iff)
  next
    case False
    then have "A' = A(tx_GetHash hs tx := unspent (Some (FromTx tx h)))" using u by (simp add: update_abs_def)
    then show ?thesis using False by (auto simp: outputs_FromTx spent_points_def)
  qed
qed

section \<open>The sum of the unspent values\<close>

definition total :: "(COutPoint \<Rightarrow> CTxOut option) \<Rightarrow> int" where
  "total f = (\<Sum>p \<in> dom f. nValue (the (f p)))"

definition spendable :: "CTxOut \<Rightarrow> bool" where
  "spendable out \<longleftrightarrow> \<not> IsUnspendable (scriptPubKey out) \<and> \<not> CTxOut_IsNull out"

definition spendable_value :: "CTransaction \<Rightarrow> int" where
  "spendable_value tx = sum_list (map (\<lambda>out. if spendable out then nValue out else 0) (vout tx))"

definition spent_value :: "(COutPoint \<Rightarrow> CTxOut option) \<Rightarrow> CTransaction \<Rightarrow> int" where
  "spent_value f tx = (if has_inputs tx then sum_list (map (\<lambda>i. nValue (the (f (prevout i)))) (vin tx)) else 0)"

lemma finite_outputs: "finite (dom A) \<Longrightarrow> finite (dom (outputs A))"
proof -
  assume "finite (dom A)"
  moreover have "dom (outputs A) \<subseteq> (\<Union>t \<in> dom A. range (\<lambda>n. \<lparr>out_hash = t, out_n = n\<rparr>))"
  proof
    fix p assume "p \<in> dom (outputs A)"
    then have "out_hash p \<in> dom A" by (auto simp: outputs_def split: option.splits)
    moreover have "p = \<lparr>out_hash = out_hash p, out_n = out_n p\<rparr>" by simp
    ultimately show "p \<in> (\<Union>t \<in> dom A. range (\<lambda>n. \<lparr>out_hash = t, out_n = n\<rparr>))" by blast
  qed
  moreover have "finite (range (\<lambda>n :: 32 word. \<lparr>out_hash = t, out_n = n\<rparr>))" for t :: uint256 by (rule finite_imageI) simp
  ultimately show ?thesis using finite_subset finite_UN_I by metis
qed

lemma total_new:
  assumes "length (vout tx) \<le> 2 ^ 32"
  shows "(\<Sum>p \<in> {p :: COutPoint. out_hash p = t \<and> new_output tx (unat (out_n p)) \<noteq> None}. nValue (the (new_output tx (unat (out_n p))))) = spendable_value tx"
proof -
  let ?N = "{n. n < length (vout tx) \<and> spendable (vout tx ! n)}"
  have "bij_betw (\<lambda>n. \<lparr>out_hash = t, out_n = of_nat n\<rparr>) ?N {p :: COutPoint. out_hash p = t \<and> new_output tx (unat (out_n p)) \<noteq> None}"
  proof (rule bij_betw_byWitness [where f' = "\<lambda>p. unat (out_n p)"])
    have u: "n < length (vout tx) \<Longrightarrow> unat (of_nat n :: 32 word) = n" for n using assms by (simp add: unsigned_of_nat take_bit_nat_eq_self)
    show "(\<lambda>n. \<lparr>out_hash = t, out_n = of_nat n\<rparr>) ` ?N \<subseteq> {p :: COutPoint. out_hash p = t \<and> new_output tx (unat (out_n p)) \<noteq> None}"
      by (auto simp: u new_output_def spendable_def)
    show "(\<lambda>p. unat (out_n p)) ` {p :: COutPoint. out_hash p = t \<and> new_output tx (unat (out_n p)) \<noteq> None} \<subseteq> ?N"
      by (auto simp: new_output_def spendable_def split: if_splits)
    show "\<forall>n \<in> ?N. unat (out_n \<lparr>out_hash = t, out_n = of_nat n\<rparr>) = n" using u by simp
    show "\<forall>p \<in> {p :: COutPoint. out_hash p = t \<and> new_output tx (unat (out_n p)) \<noteq> None}. \<lparr>out_hash = t, out_n = of_nat (unat (out_n p))\<rparr> = p"
      by simp
  qed
  note bij = this
  have "(\<Sum>p \<in> {p :: COutPoint. out_hash p = t \<and> new_output tx (unat (out_n p)) \<noteq> None}. nValue (the (new_output tx (unat (out_n p))))) =
      (\<Sum>n \<in> ?N. nValue (the (new_output tx (unat (of_nat n :: 32 word)))))"
    by (subst sum.reindex_bij_betw [OF bij, symmetric]) simp
  also have "\<dots> = (\<Sum>n \<in> ?N. nValue (vout tx ! n))"
    using assms by (intro sum.cong) (auto simp: unsigned_of_nat take_bit_nat_eq_self new_output_def spendable_def)
  also have "\<dots> = (\<Sum>n < length (vout tx). if spendable (vout tx ! n) then nValue (vout tx ! n) else 0)"
    by (subst sum.inter_filter [symmetric]) (auto intro!: sum.cong)
  also have "\<dots> = spendable_value tx"
    by (simp add: spendable_value_def sum_list_sum_nth atLeast0LessThan)
  finally show ?thesis .
qed

text \<open>What one transaction does to the sum.\<close>

lemma total_update:
  assumes "update_abs hs h tx A = Some (us, A')" and "finite (dom A)" and "A (tx_GetHash hs tx) = None" and "length (vout tx) \<le> 2 ^ 32"
  shows "total (outputs A') = total (outputs A) - spent_value (outputs A) tx + spendable_value tx \<and> finite (dom A')"
proof
  let ?t = "tx_GetHash hs tx" and ?f = "outputs A" and ?S = "spent_points tx"
  let ?N = "{p :: COutPoint. out_hash p = ?t \<and> new_output tx (unat (out_n p)) \<noteq> None}"
  note f' = update_abs_outputs(2) [OF assms(1)]
  have "update_abs hs h tx A \<noteq> None" using assms(1) by simp
  then have ins: "has_inputs tx \<Longrightarrow> distinct (map prevout (vin tx)) \<and> (\<forall>i \<in> set (vin tx). ?f (prevout i) \<noteq> None)"
    unfolding update_abs_outputs(1) by blast
  have t: "out_hash p = ?t \<Longrightarrow> ?f p = None" for p using assms(3) by (simp add: outputs_def)
  have S: "?S \<subseteq> dom ?f" using ins by (auto simp: spent_points_def)
  note fin = finite_outputs [OF assms(2)]
  have d: "dom (outputs A') = (dom ?f - ?S) \<union> ?N" unfolding f' using t by (auto split: if_splits)
  have "finite (dom A')"
  proof -
    have "dom A' \<subseteq> insert ?t (dom A)" using update_abs_other [OF assms(1)] by (auto simp: dom_def) (metis option.exhaust)
    then show ?thesis using assms(2) by (meson finite.insertI finite_subset)
  qed
  then show "finite (dom A')" .
  from finite_outputs [OF this] have finN: "finite ?N" unfolding d by simp
  have dis: "(dom ?f - ?S) \<inter> ?N = {}" using t by auto
  have spent: "(\<Sum>p \<in> ?S. nValue (the (?f p))) = spent_value ?f tx"
  proof (cases "has_inputs tx")
    case True
    have "sum_list (map (\<lambda>p. nValue (the (?f p))) (map prevout (vin tx))) = (\<Sum>p \<in> set (map prevout (vin tx)). nValue (the (?f p)))"
      using ins [OF True] by (intro sum_list_distinct_conv_sum_set) blast
    then show ?thesis using True by (simp add: spent_points_def spent_value_def comp_def)
  qed (simp add: spent_points_def spent_value_def)
  have "total (outputs A') = (\<Sum>p \<in> dom ?f - ?S. nValue (the (outputs A' p))) + (\<Sum>p \<in> ?N. nValue (the (outputs A' p)))"
    unfolding total_def d by (rule sum.union_disjoint) (use fin finN dis in auto)
  also have "(\<Sum>p \<in> dom ?f - ?S. nValue (the (outputs A' p))) = (\<Sum>p \<in> dom ?f - ?S. nValue (the (?f p)))"
    unfolding f' by (rule sum.cong) (use t in auto)
  also have "(\<Sum>p \<in> dom ?f - ?S. nValue (the (?f p))) = total ?f - spent_value ?f tx"
    unfolding total_def spent [symmetric] by (rule sum_diff [OF fin S])
  also have "(\<Sum>p \<in> ?N. nValue (the (outputs A' p))) = (\<Sum>p \<in> ?N. nValue (the (new_output tx (unat (out_n p)))))"
    unfolding f' by (rule sum.cong) auto
  finally show "total (outputs A') = total ?f - spent_value ?f tx + spendable_value tx" unfolding total_new [OF assms(4)] .
qed

text \<open>A transaction that spends the same output twice can never be connected.\<close>

definition spends_twice :: "CTransaction \<Rightarrow> bool" where
  "spends_twice tx \<longleftrightarrow> has_inputs tx \<and> \<not> distinct (map prevout (vin tx))"

lemma connect_abs_twice: "tx \<in> set txs \<Longrightarrow> spends_twice tx \<Longrightarrow> connect_abs hs h txs A = None"
proof (induction txs arbitrary: A)
  case (Cons tx' txs)
  show ?case
  proof (cases "tx = tx'")
    case True
    then have "update_abs hs h tx' A = None" using Cons.prems(2) by (simp add: update_abs_outputs(1) spends_twice_def)
    then show ?thesis by simp
  qed (use Cons in \<open>auto split: option.splits\<close>)
qed simp

lemma connect_txs_twice:
  assumes "block_inv s" and "tx \<in> set txs" and "spends_twice tx"
  shows "connect_txs tip_view hs h txs s = None"
  using tipv.connect_txs_abs [OF assms(1), of hs h txs] connect_abs_twice [OF assms(2,3)] by simp

end
