(* ===== verification/BlockChecks.thy ===== *)
theory BlockChecks
  imports Block TxChecks PartialMerkle Pow Supply
begin

text \<open>
  The checks on blocks of src/src/main.cpp (\<open>CheckBlockHeader\<close>, \<open>CheckBlock\<close>, \<open>CheckWork\<close>, \<open>ContextualCheckBlockHeader\<close>,
  \<open>ContextualCheckBlock\<close>), with the sporks they read (src/src/spork.cpp), the checkpoints (src/src/checkpoints.cpp) and the payee and
  value checks of src/src/karmanode-payments.cpp.  \<open>CValidationState\<close> is the value \<open>Invalid_block\<close> with the accumulated misbehaviour score,
  code, reason and the mark that the block may have been corrupted; \<open>State_error\<close> is a run-time error of the node; \<open>Returned_false\<close> is a failure that leaves the state as it was; \<open>Abort\<close> is a
  failed assertion, a null pointer that is followed or an element past the end of a vector.  The global state that the checks read is the
  record \<open>node_view\<close>; the budget and karmanode payments, the zerocoin checks and the proof of stake kernel are parameters.
\<close>

datatype block_fail = Invalid_block int nat string bool | State_error string | Returned_false | Abort

definition REJECT_OBSOLETE :: nat where "REJECT_OBSOLETE = 0x11"
definition REJECT_CHECKPOINT :: nat where "REJECT_CHECKPOINT = 0x43"
definition MAX_BLOCK_SIGOPS_COST :: nat where "MAX_BLOCK_SIGOPS_COST = MAX_BLOCK_SIZE div 50"
definition MAX_BLOCK_COST :: nat where "MAX_BLOCK_COST = 4000000"

definition reject :: "int \<Rightarrow> nat \<Rightarrow> string \<Rightarrow> block_fail + 'a" where
  "reject dos code reason = Inl (Invalid_block dos code reason False)"

definition corrupt :: "int \<Rightarrow> nat \<Rightarrow> string \<Rightarrow> block_fail + 'a" where
  "corrupt dos code reason = Inl (Invalid_block dos code reason True)"

text \<open>Continue when the condition holds.\<close>

definition require :: "bool \<Rightarrow> block_fail + unit \<Rightarrow> block_fail + unit \<Rightarrow> block_fail + unit" where
  "require c failure next = (if c then next else failure)"

lemma require_Inr [simp]: "require c (Inl e) next = Inr () \<longleftrightarrow> c \<and> next = Inr ()"
  by (simp add: require_def)

lemma reject_not_Inr [simp]: "reject l c r \<noteq> Inr x" "corrupt l c r \<noteq> Inr x"
  by (simp_all add: reject_def corrupt_def)

lemma require_reject [simp]:
  "require c (reject l k r) next = Inr () \<longleftrightarrow> c \<and> next = Inr ()" "require c (corrupt l k r) next = Inr () \<longleftrightarrow> c \<and> next = Inr ()"
  by (simp_all add: require_def)

section \<open>Sporks\<close>

definition SPORK_3_SWIFTTX_BLOCK_FILTERING :: int where "SPORK_3_SWIFTTX_BLOCK_FILTERING = 10002"
definition SPORK_8_KARMANODE_PAYMENT_ENFORCEMENT :: int where "SPORK_8_KARMANODE_PAYMENT_ENFORCEMENT = 10007"
definition SPORK_9_KARMANODE_BUDGET_ENFORCEMENT :: int where "SPORK_9_KARMANODE_BUDGET_ENFORCEMENT = 10008"
definition SPORK_13_ENABLE_SUPERBLOCKS :: int where "SPORK_13_ENABLE_SUPERBLOCKS = 10012"
definition SPORK_20_SEGWIT_ACTIVATION :: int where "SPORK_20_SEGWIT_ACTIVATION = 10019"
definition SPORK_21_SEGWIT_ON_COINBASE :: int where "SPORK_21_SEGWIT_ON_COINBASE = 10020"

text \<open>The identifiers and default values; 10003, 10010 and 10011 are not assigned.\<close>

definition spork_defaults :: "(int \<times> int) list" where
  "spork_defaults = [(10001, 978307200), (10002, 1424217600), (10004, 1000), (10006, 978307200), (10007, 4070908800), (10008, 4070908800),
     (10009, 4070908800), (10012, 4070908800), (10013, 4070908800), (10014, 4070908800), (10015, 4070908800), (10016, 4070908800),
     (10017, 4070908800), (10018, 8000), (10019, 4070908800), (10020, 4070908800), (10021, 4070908800), (10022, 4070908800)]"

datatype TrxValidationStatus = Trx_Invalid | Trx_Valid | Trx_DoublePayment | Trx_VoteThreshold

record node_view =
  nv_params :: CChainParams
  nv_quark :: quark_hashes
  nv_hashes :: hashes
  nv_regtest :: bool
  nv_time :: int
  nv_timeOffset :: int
  nv_sporks :: "int \<Rightarrow> int option"
  nv_tip :: "(uint256 \<times> int) option"
  nv_index :: "uint256 \<Rightarrow> int option"
  nv_initialDownload :: bool
  nv_lockedInputs :: "COutPoint \<Rightarrow> uint256 option"
  nv_synced :: bool
  nv_budgetBlock :: "int \<Rightarrow> bool"
  nv_budgetValid :: "CTransaction \<Rightarrow> int \<Rightarrow> TrxValidationStatus"
  nv_paymentValid :: "CTransaction \<Rightarrow> int \<Rightarrow> bool"
  nv_budgetCycle :: int

definition GetSporkValue :: "node_view \<Rightarrow> int \<Rightarrow> int" where
  "GetSporkValue nv nSporkID =
     (case nv_sporks nv nSporkID of
        Some v \<Rightarrow> v
      | None \<Rightarrow> (case map_of spork_defaults nSporkID of Some v \<Rightarrow> v | None \<Rightarrow> - 1))"

definition IsSporkActive :: "node_view \<Rightarrow> int \<Rightarrow> bool" where
  "IsSporkActive nv nSporkID =
     (if nv_regtest nv \<and> nSporkID = SPORK_13_ENABLE_SUPERBLOCKS then True
      else if GetSporkValue nv nSporkID = - 1 then False
      else GetSporkValue nv nSporkID < nv_time nv)"

definition GetAdjustedTime :: "node_view \<Rightarrow> int" where
  "GetAdjustedTime nv = nv_time nv + nv_timeOffset nv"

section \<open>Payees and values\<close>

text \<open>\<open>None\<close> is the second transaction of a block that has one only.\<close>

definition IsBlockPayeeValid :: "node_view \<Rightarrow> CBlock \<Rightarrow> int \<Rightarrow> bool option" where
  "IsBlockPayeeValid nv b nBlockHeight =
     (if \<not> nv_synced nv then Some True
      else
        let n = (if nBlockHeight > LAST_POW_BLOCK (nv_params nv) then 1 else 0); txNew = vtx b ! n;
            payment = (if nv_paymentValid nv txNew nBlockHeight then True
                       else if IsSporkActive nv SPORK_8_KARMANODE_PAYMENT_ENFORCEMENT then False else True)
        in if n \<ge> length (vtx b) then None
           else if IsSporkActive nv SPORK_13_ENABLE_SUPERBLOCKS \<and> nv_budgetBlock nv nBlockHeight then
             (let transactionStatus = nv_budgetValid nv txNew nBlockHeight in
              if transactionStatus = Trx_Valid then Some True
              else if transactionStatus = Trx_Invalid \<and> IsSporkActive nv SPORK_9_KARMANODE_BUDGET_ENFORCEMENT then Some False
              else Some payment)
           else Some payment)"

text \<open>The height of the block by its predecessor, 0 when it is not known.\<close>

definition height_of :: "node_view \<Rightarrow> CBlock \<Rightarrow> int" where
  "height_of nv b =
     (case nv_tip nv of
        None \<Rightarrow> 0
      | Some (hash, height) \<Rightarrow>
          if hash = hashPrevBlock b then height + 1
          else (case nv_index nv (hashPrevBlock b) of Some h \<Rightarrow> h + 1 | None \<Rightarrow> 0))"

text \<open>The remainder of a negative height does not occur: heights are at least 0.\<close>

definition IsBlockValueValid :: "node_view \<Rightarrow> CBlock \<Rightarrow> int \<Rightarrow> int \<Rightarrow> bool" where
  "IsBlockValueValid nv b nExpectedValue nMinted =
     (if nv_tip nv = None then True
      else
        let nHeight = height_of nv b in
        if \<not> nv_synced nv then
          (if nHeight mod nv_budgetCycle nv < 100 then True else if nMinted > nExpectedValue then False else True)
        else if \<not> IsSporkActive nv SPORK_13_ENABLE_SUPERBLOCKS then nMinted \<le> nExpectedValue
        else if nv_budgetBlock nv nHeight then True
        else if nMinted > nExpectedValue then False
        else True)"

section \<open>CheckBlock\<close>

text \<open>The limbs of a hash, for \<open>CheckProofOfWork\<close>.\<close>

definition limbs_of :: "uint256 \<Rightarrow> limb list" where
  "limbs_of w = map (\<lambda>i. ucast (drop_bit (32 * i) w)) [0..<8]"

definition CheckBlockHeader :: "node_view \<Rightarrow> 'a CBlockHeader_scheme \<Rightarrow> bool \<Rightarrow> block_fail + unit" where
  "CheckBlockHeader nv b fCheckPOW =
     (if fCheckPOW \<and> \<not> CheckProofOfWork (nv_params nv) (limbs_of (CBlock_GetHash (nv_quark nv) b)) (bh_nBits b)
      then reject 50 REJECT_INVALID ''high-hash'' else Inr ())"

definition check_merkle_root :: "node_view \<Rightarrow> CBlock \<Rightarrow> block_fail + unit \<Rightarrow> block_fail + unit" where
  "check_merkle_root nv b next =
     (case CBlock_BuildMerkleTree (nv_hashes nv) b of (hashMerkleRoot2, mutated) \<Rightarrow>
        require (hashMerkleRoot b = hashMerkleRoot2) (corrupt 100 REJECT_INVALID ''bad-txnmrklroot'')
        (require (\<not> mutated) (corrupt 100 REJECT_INVALID ''bad-txns-duplicate'') next))"

text \<open>The coinbase and the coinstake of a proof of stake; the code of these failures is 0.\<close>

definition check_stake_form :: "node_view \<Rightarrow> CBlock \<Rightarrow> block_fail + unit \<Rightarrow> block_fail + unit" where
  "check_stake_form nv b next =
     (let commitpos = GetWitnessCommitmentIndex b; coinbase = vtx b ! 0;
          rest = require (CTxOut_IsEmpty (vout coinbase ! 0)) (reject 100 0 [])
            (require (vtx b \<noteq> [] \<and> IsCoinStake (vtx b ! 1)) (reject 100 0 [])
            (require (list_all (\<lambda>tx. \<not> IsCoinStake tx) (drop 2 (vtx b))) (reject 100 0 []) next))
      in if commitpos \<ge> 0 then
           (if IsSporkActive nv SPORK_21_SEGWIT_ON_COINBASE then
              require (length (vout coinbase) = 2) (reject 100 0 [])
              (require (IsUnspendable (scriptPubKey (vout coinbase ! 1))) (reject 100 0 []) rest)
            else reject 100 0 [])
         else require (length (vout coinbase) = 1) (reject 100 0 []) rest)"

definition CheckBlock_form :: "node_view \<Rightarrow> bool \<Rightarrow> CBlock \<Rightarrow> block_fail + unit" where
  "CheckBlock_form nv fCheckMerkleRoot b =
     require (CheckBlockHeader nv b (IsProofOfWork b) = Inr ()) (corrupt 150 REJECT_INVALID ''bad-header'')
     (require (CBlock_GetBlockTime b \<le> GetAdjustedTime nv + (if IsProofOfStake b then 180 else 7200)) (reject 0 REJECT_INVALID ''time-too-new'')
     ((if fCheckMerkleRoot then check_merkle_root nv b else (\<lambda>next. next))
     (require (\<not> (vtx b = [] \<or> length (vtx b) > MAX_BLOCK_BASE_SIZE \<or> length (write_block False b) > MAX_BLOCK_BASE_SIZE))
        (reject 100 REJECT_INVALID ''bad-blk-length'')
     (require (vtx b \<noteq> [] \<and> IsCoinBase (vtx b ! 0)) (reject 100 REJECT_INVALID ''bad-cb-missing'')
     (require (list_all (\<lambda>tx. \<not> IsCoinBase tx) (drop 1 (vtx b))) (reject 100 REJECT_INVALID ''bad-cb-multiple'')
     ((if IsProofOfStake b then check_stake_form nv b else (\<lambda>next. next))
     (Inr ())))))))"

text \<open>A transaction of the block spends an output that SwiftTX has locked for another one.\<close>

definition conflicts_lock :: "node_view \<Rightarrow> CBlock \<Rightarrow> bool" where
  "conflicts_lock nv b \<longleftrightarrow>
     IsSporkActive nv SPORK_3_SWIFTTX_BLOCK_FILTERING \<and>
     list_ex (\<lambda>tx. \<not> IsCoinBase tx \<and>
       list_ex (\<lambda>i. case nv_lockedInputs nv (prevout i) of None \<Rightarrow> False | Some h \<Rightarrow> h \<noteq> tx_GetHash (nv_hashes nv) tx) (vin tx)) (vtx b)"

definition check_sigops :: "CBlock \<Rightarrow> block_fail + unit" where
  "check_sigops b =
     (let nSigOps = sum_list (map GetLegacySigOpCount (vtx b)) mod 2 ^ 32
      in require (nSigOps * WITNESS_SCALE_FACTOR mod 2 ^ 32 \<le> MAX_BLOCK_SIGOPS_COST) (corrupt 100 REJECT_INVALID ''bad-blk-sigops'') (Inr ()))"

text \<open>The second component is \<open>mapRejectedBlocks\<close>, the blocks to look at again with their time.\<close>

type_synonym rejected_blocks = "uint256 \<Rightarrow> int option"

definition insert_rejected :: "node_view \<Rightarrow> CBlock \<Rightarrow> rejected_blocks \<Rightarrow> rejected_blocks" where
  "insert_rejected nv b rej =
     (let h = CBlock_GetHash (nv_quark nv) b in if rej h = None then rej(h \<mapsto> nv_time nv) else rej)"

definition CheckBlock :: "node_view \<Rightarrow> bool \<Rightarrow> CBlock \<Rightarrow> rejected_blocks \<Rightarrow> (block_fail + unit) \<times> rejected_blocks" where
  "CheckBlock nv fCheckMerkleRoot b rej =
     (case CheckBlock_form nv fCheckMerkleRoot b of
        Inl e \<Rightarrow> (Inl e, rej)
      | Inr _ \<Rightarrow>
          if conflicts_lock nv b then (reject 0 REJECT_INVALID ''conflicting-tx-ix'', insert_rejected nv b rej)
          else if nv_tip nv \<noteq> None \<and> height_of nv b \<noteq> 0 \<and> \<not> nv_initialDownload nv then
            (case IsBlockPayeeValid nv b (height_of nv b) of
               None \<Rightarrow> (Inl Abort, rej)
             | Some False \<Rightarrow> (reject 0 REJECT_INVALID ''bad-cb-payee'', insert_rejected nv b rej)
             | Some True \<Rightarrow> (check_sigops b, rej))
          else (check_sigops b, rej))"

section \<open>The header in its context\<close>

definition CheckWork :: "node_view \<Rightarrow> (CBlock \<Rightarrow> uint256 option) \<Rightarrow> CBlock \<Rightarrow> index_chain \<Rightarrow> (uint256 \<Rightarrow> uint256 option) \<Rightarrow>
    (bool \<times> (uint256 \<Rightarrow> uint256 option)) option" where
  "CheckWork nv CheckProofOfStake b pindexPrev mapProofOfStake =
     (if pindexPrev = [] then Some (False, mapProofOfStake)
      else case GetNextWorkRequired (nv_params nv) pindexPrev of
        None \<Rightarrow> None
      | Some nBitsRequired \<Rightarrow>
          if IsProofOfWork b \<and> ix_nHeight (hd pindexPrev) + 1 > LAST_POW_BLOCK (nv_params nv) then Some (False, mapProofOfStake)
          else if bh_nBits b \<noteq> nBitsRequired then Some (False, mapProofOfStake)
          else if IsProofOfStake b then
            (case CheckProofOfStake b of
               None \<Rightarrow> Some (False, mapProofOfStake)
             | Some hashProofOfStake \<Rightarrow>
                 let hash = CBlock_GetHash (nv_quark nv) b in
                 Some (True, if mapProofOfStake hash = None then mapProofOfStake(hash \<mapsto> hashProofOfStake) else mapProofOfStake))
          else Some (True, mapProofOfStake))"

text \<open>Checkpoints in the order of their heights, and the heights of the blocks in the index.\<close>

type_synonym checkpoints = "(int \<times> uint256) list"

definition Checkpoints_CheckBlock :: "bool \<Rightarrow> checkpoints \<Rightarrow> int \<Rightarrow> uint256 \<Rightarrow> bool \<Rightarrow> bool" where
  "Checkpoints_CheckBlock fEnabled cps nHeight hash fMatchesCheckpoint =
     (if \<not> fEnabled then True
      else case map_of cps nHeight of None \<Rightarrow> \<not> fMatchesCheckpoint | Some h \<Rightarrow> hash = h)"

definition GetLastCheckpoint :: "bool \<Rightarrow> checkpoints \<Rightarrow> (uint256 \<Rightarrow> int option) \<Rightarrow> int option" where
  "GetLastCheckpoint fEnabled cps idx =
     (if \<not> fEnabled then None
      else case find (\<lambda>(h, hash). idx hash \<noteq> None) (rev cps) of None \<Rightarrow> None | Some (h, hash) \<Rightarrow> idx hash)"

text \<open>\<open>CBlockIndex::GetMedianTimePast\<close> along the list.\<close>

definition MedianTimePast :: "index_chain \<Rightarrow> int" where
  "MedianTimePast c = (let ts = sort (map GetBlockTime (take 11 c)) in ts ! (length ts div 2))"

text \<open>The arguments are the option \<open>-maxreorg\<close>, the genesis hash, the checkpoints and whether they are enabled.\<close>

definition ContextualCheckBlockHeader ::
  "node_view \<Rightarrow> int \<Rightarrow> uint256 \<Rightarrow> bool \<Rightarrow> checkpoints \<Rightarrow> 'a CBlockHeader_scheme \<Rightarrow> index_chain \<Rightarrow> block_fail + unit" where
  "ContextualCheckBlockHeader nv nMaxReorgDepth genesis fEnabled cps b pindexPrev =
     (let hash = CBlock_GetHash (nv_quark nv) b; P = nv_params nv; ver = sint (bh_nVersion b) in
      if hash = genesis then Inr ()
      else if pindexPrev = [] then Inl Abort
      else
        let nHeight = ix_nHeight (hd pindexPrev) + 1; chainHeight = (case nv_tip nv of None \<Rightarrow> - 1 | Some (_, h) \<Rightarrow> h);
            outdated = (\<lambda>v. ver < v \<and> IsSuperMajority P v pindexPrev (RejectBlockOutdatedMajority P))
        in
          require (\<not> chainHeight - nHeight \<ge> nMaxReorgDepth) (reject 1 0 [])
          (require (\<not> CBlock_GetBlockTime b \<le> MedianTimePast pindexPrev) (reject 0 REJECT_INVALID ''time-too-old'')
          (require (Checkpoints_CheckBlock fEnabled cps nHeight hash False) (reject 100 REJECT_CHECKPOINT ''checkpoint mismatch'')
          (require (\<forall>h \<in> set_option (GetLastCheckpoint fEnabled cps (nv_index nv)). \<not> nHeight < h) (reject 0 0 [])
          (require (\<not> outdated 2) (reject 0 REJECT_OBSOLETE ''bad-version'')
          (require (\<not> outdated 3) (reject 0 REJECT_OBSOLETE ''bad-version'')
          (require (\<not> outdated 4) (reject 0 REJECT_OBSOLETE ''bad-version'')
          (require (\<not> (ver < 6 \<and> nHeight \<ge> 1 \<and>
              (NetworkUpgradeActive nHeight (vUpgrades P) UPGRADE_V3_0_BLOCKTIME \<or>
               NetworkUpgradeActive nHeight (vUpgrades P) UPGRADE_V3_0_BLOCKREWARD))) (reject 0 REJECT_OBSOLETE ''bad-version'')
          (Inr ())))))))))"

section \<open>The block in its context\<close>

definition of_check_fail :: "check_fail \<Rightarrow> block_fail" where
  "of_check_fail e = (case e of Rejected l c r \<Rightarrow> Invalid_block l c r False | Aborted \<Rightarrow> Abort)"

text \<open>Serial numbers of zerocoin spends are a parameter.\<close>

fun serials_loop :: "(CTxIn \<Rightarrow> 's) \<Rightarrow> CTxIn list \<Rightarrow> 's list \<Rightarrow> block_fail + 's list" where
  "serials_loop serial [] vBlockSerials = Inr vBlockSerials"
| "serials_loop serial (txIn # ins) vBlockSerials =
     (if IsZerocoinSpend (scriptSig txIn) then
        (if serial txIn \<in> set vBlockSerials then reject 100 0 []
         else serials_loop serial ins (vBlockSerials @ [serial txIn]))
      else serials_loop serial ins vBlockSerials)"

fun zerocoin_loop :: "chain_params \<Rightarrow> zerocoin_checks \<Rightarrow> (CTxIn \<Rightarrow> 's) \<Rightarrow> CTransaction list \<Rightarrow> 's list \<Rightarrow> block_fail + unit" where
  "zerocoin_loop CP zc serial [] vBlockSerials = Inr ()"
| "zerocoin_loop CP zc serial (tx # txs) vBlockSerials =
     (case CheckTransaction CP zc True tx of
        Inl e \<Rightarrow> Inl (of_check_fail e)
      | Inr _ \<Rightarrow>
          if IsZerocoinSpend_tx tx then
            (case serials_loop serial (vin tx) vBlockSerials of
               Inl e \<Rightarrow> Inl e
             | Inr vBlockSerials' \<Rightarrow> zerocoin_loop CP zc serial txs vBlockSerials')
          else zerocoin_loop CP zc serial txs vBlockSerials)"

text \<open>Whether the block commits to its witnesses; without a commitment there may be none.\<close>

definition check_commitment :: "node_view \<Rightarrow> CBlock \<Rightarrow> index_chain \<Rightarrow> block_fail + bool" where
  "check_commitment nv b pindexPrev =
     (if pindexPrev = [] then Inl Abort
      else if GetSporkValue nv SPORK_20_SEGWIT_ACTIVATION < GetBlockTime (hd pindexPrev) \<and> GetWitnessCommitmentIndex b \<noteq> - 1 then
        (if \<not> IsSporkActive nv SPORK_21_SEGWIT_ON_COINBASE then Inl Returned_false
         else case BlockWitnessMerkleRoot (nv_hashes nv) b of
           None \<Rightarrow> Inl Abort
         | Some (hashWitness, malleated) \<Rightarrow>
             let w = wit (vtx b ! 0) in
             if length w \<noteq> 1 \<or> length (w ! 0) \<noteq> 1 \<or> length (w ! 0 ! 0) \<noteq> 32
             then corrupt 100 REJECT_INVALID ''bad-witness-nonce-size''
             else if ser_word 32 (witness_commitment (nv_hashes nv) hashWitness (w ! 0 ! 0)) \<noteq>
                 take 32 (drop 6 (scriptPubKey (vout (vtx b ! 0) ! nat (GetWitnessCommitmentIndex b))))
             then corrupt 100 REJECT_INVALID ''bad-witness-merkle-match''
             else Inr True)
      else Inr False)"

definition check_witness :: "node_view \<Rightarrow> CBlock \<Rightarrow> index_chain \<Rightarrow> block_fail + unit" where
  "check_witness nv b pindexPrev =
     (case check_commitment nv b pindexPrev of
        Inl e \<Rightarrow> Inl e
      | Inr fHaveWitness \<Rightarrow>
          if \<not> fHaveWitness \<and> list_ex (\<lambda>tx. \<not> CTxWitness_IsNull (wit tx)) (vtx b)
          then corrupt 100 REJECT_INVALID ''unexpected-witness'' else Inr ())"

definition ContextualCheckBlock ::
  "node_view \<Rightarrow> chain_params \<Rightarrow> zerocoin_checks \<Rightarrow> (CTxIn \<Rightarrow> 's) \<Rightarrow> CBlock \<Rightarrow> index_chain \<Rightarrow> block_fail + unit" where
  "ContextualCheckBlock nv CP zc serial b pindexPrev =
     (let P = nv_params nv; nHeight = (if pindexPrev = [] then 0 else ix_nHeight (hd pindexPrev) + 1); ver = sint (bh_nVersion b);
          chainHeight = (case nv_tip nv of None \<Rightarrow> - 1 | Some (_, h) \<Rightarrow> h);
          coinbase_height = (ver \<ge> 2 \<and> IsSuperMajority P 2 pindexPrev (EnforceBlockUpgradeMajority P));
          expect = push_int64 [] nHeight; script = scriptSig (vin (vtx b ! 0) ! 0)
      in vbind (if nHeight > Zerocoin_StartHeight P
                then require (\<not> ver < Zerocoin_HeaderVersion P) (reject 50 REJECT_INVALID ''block-version'') (zerocoin_loop CP zc serial (vtx b) [])
                else require (\<not> ver \<ge> Zerocoin_HeaderVersion P) (reject 50 REJECT_INVALID ''block-version'') (Inr ())) (\<lambda>_.
         require (list_all (\<lambda>tx. IsFinalTx chainHeight (GetAdjustedTime nv) tx nHeight (CBlock_GetBlockTime b)) (vtx b))
           (reject 10 REJECT_INVALID ''bad-txns-nonfinal'')
         (if coinbase_height \<and> (vtx b = [] \<or> vin (vtx b ! 0) = []) then Inl Abort
          else
            require (coinbase_height \<longrightarrow> length script \<ge> length expect \<and> take (length expect) script = expect)
              (reject 100 REJECT_INVALID ''bad-cb-height'')
            (vbind (check_witness nv b pindexPrev) (\<lambda>_.
             require (GetBlockCost b \<le> MAX_BLOCK_COST) (reject 100 REJECT_INVALID ''bad-blk-cost'') (Inr ()))))))"

section \<open>Bounds\<close>

lemma length_ser_word [simp]: "length (ser_word n w) = n"
  by (simp add: ser_word_def)

lemma length_WRITESIGNED [simp]: "length (WRITESIGNED n v) = n"
  by (simp add: WRITESIGNED_def)

lemmas length_wire = write_block_def ser_CBlockHeader_def Serialize_vector_def write_tx_def ser_CTxIn_def ser_COutPoint_def ser_CTxOut_def
  Serialize_bytes_def length_WriteCompactSize GetSizeOfCompactSize_def

text \<open>A byte of a script counts for at most 20 signature operations, so the counter of a block within the size limit cannot wrap around.\<close>

lemma GetSigOpCount_loop_bound: "GetSigOpCount_loop False lastOp n pc \<le> n + 20 * length pc"
proof (induction "length pc" arbitrary: lastOp n pc rule: less_induct)
  case less
  obtain ok opcode data pc' where g: "GetOp2 pc = (ok, opcode, data, pc')" by (cases "GetOp2 pc") auto
  show ?case
  proof (cases "pc = [] \<or> \<not> ok")
    case False
    then have l: "length pc' < length pc" using g GetOp2_measure by fastforce
    have w: "sigop_weight False lastOp opcode \<le> 20" by (simp add: sigop_weight_def)
    have "GetSigOpCount_loop False opcode (n + sigop_weight False lastOp opcode) pc' \<le> n + 20 + 20 * length pc'"
      using less.hyps [OF l, of opcode "n + sigop_weight False lastOp opcode"] w by linarith
    then show ?thesis using False g l by (subst GetSigOpCount_loop.simps) simp
  qed (use g in \<open>subst GetSigOpCount_loop.simps; auto\<close>)
qed

lemma GetSigOpCount_bound: "GetSigOpCount False s \<le> 20 * length s"
  using GetSigOpCount_loop_bound [of OP_INVALIDOPCODE 0 s] by (simp add: GetSigOpCount_def)

lemma sum_list_le: "(\<And>x. x \<in> set xs \<Longrightarrow> f x \<le> g x) \<Longrightarrow> sum_list (map f xs) \<le> sum_list (map g xs)" for f g :: "'a \<Rightarrow> nat"
  by (induction xs) (simp_all add: add_mono)

lemma length_Serialize_vector: "sum_list (map (\<lambda>x. length (ser x)) xs) \<le> length (Serialize_vector ser xs)"
  by (simp add: Serialize_vector_def length_concat comp_def)

lemma GetLegacySigOpCount_bound: "GetLegacySigOpCount tx \<le> 20 * length (write_tx False tx)"
proof -
  have "sum_list (map (\<lambda>i. GetSigOpCount False (scriptSig i)) (vin tx)) \<le> sum_list (map (\<lambda>i. 20 * length (ser_CTxIn i)) (vin tx))"
  proof (rule sum_list_le)
    show "GetSigOpCount False (scriptSig i) \<le> 20 * length (ser_CTxIn i)" for i
      using GetSigOpCount_bound [of "scriptSig i"] by (simp add: ser_CTxIn_def Serialize_bytes_def)
  qed
  moreover have "sum_list (map (\<lambda>out. GetSigOpCount False (scriptPubKey out)) (vout tx)) \<le> sum_list (map (\<lambda>out. 20 * length (ser_CTxOut out)) (vout tx))"
  proof (rule sum_list_le)
    show "GetSigOpCount False (scriptPubKey out) \<le> 20 * length (ser_CTxOut out)" for out
      using GetSigOpCount_bound [of "scriptPubKey out"] by (simp add: ser_CTxOut_def Serialize_bytes_def)
  qed
  moreover have "length (Serialize_vector ser_CTxIn (vin tx)) + length (Serialize_vector ser_CTxOut (vout tx)) \<le> length (write_tx False tx)"
    by (simp add: write_tx_def)
  ultimately show ?thesis
    using length_Serialize_vector [of ser_CTxIn "vin tx"] length_Serialize_vector [of ser_CTxOut "vout tx"]
    by (simp add: GetLegacySigOpCount_def sum_list_const_mult)
qed

lemma block_sigops_bound: "sum_list (map GetLegacySigOpCount (vtx b)) \<le> 20 * length (write_block False b)"
proof -
  have "sum_list (map GetLegacySigOpCount (vtx b)) \<le> sum_list (map (\<lambda>tx. 20 * length (write_tx False tx)) (vtx b))"
    by (rule sum_list_le) (rule GetLegacySigOpCount_bound)
  also have "\<dots> = 20 * sum_list (map (\<lambda>tx. length (write_tx False tx)) (vtx b))" by (simp add: sum_list_const_mult)
  also have "\<dots> \<le> 20 * length (Serialize_vector (write_tx False) (vtx b))" using length_Serialize_vector [of "write_tx False" "vtx b"] by simp
  also have "\<dots> \<le> 20 * length (write_block False b)" by (simp add: write_block_def)
  finally show ?thesis .
qed

section \<open>What CheckBlock accepts\<close>

text \<open>The coinbase of a proof of stake pays nothing; a second output is only allowed for the commitment to the witnesses.\<close>

definition stake_form :: "node_view \<Rightarrow> CBlock \<Rightarrow> bool" where
  "stake_form nv b \<longleftrightarrow>
     (\<exists>cb stake txs out. vtx b = cb # stake # txs \<and> IsCoinStake stake \<and> (\<forall>tx \<in> set txs. \<not> IsCoinStake tx) \<and> CTxOut_IsEmpty out \<and>
        (vout cb = [out] \<and> GetWitnessCommitmentIndex b < 0 \<or>
         (\<exists>commitment. vout cb = [out, commitment] \<and> GetWitnessCommitmentIndex b \<ge> 0 \<and> IsUnspendable (scriptPubKey commitment) \<and>
            IsSporkActive nv SPORK_21_SEGWIT_ON_COINBASE)))"

lemma check_stake_form_Inr:
  assumes "IsProofOfStake b"
  shows "check_stake_form nv b next = Inr () \<longleftrightarrow> stake_form nv b \<and> next = Inr ()"
proof -
  obtain cb stake txs where v: "vtx b = cb # stake # txs" and s: "IsCoinStake stake"
    using assms by (cases "vtx b"; cases "tl (vtx b)") (auto simp: IsProofOfStake_def)
  have l1: "length xs = Suc 0 \<longleftrightarrow> (\<exists>x. xs = [x])" and l2: "length xs = 2 \<longleftrightarrow> (\<exists>x y. xs = [x, y])" for xs :: "CTxOut list"
    by (auto simp: length_Suc_conv numeral_2_eq_2)
  show ?thesis
    by (auto simp: check_stake_form_def stake_form_def Let_def v s list_all_iff l1 l2)
qed

lemma check_sigops_Inr:
  assumes "length (write_block False b) \<le> 1000000"
  shows "check_sigops b = Inr () \<longleftrightarrow> 4 * sum_list (map GetLegacySigOpCount (vtx b)) \<le> 20000"
proof -
  let ?n = "sum_list (map GetLegacySigOpCount (vtx b))"
  have "?n \<le> 20000000" using block_sigops_bound [of b] assms by linarith
  then have "?n mod 2 ^ 32 * 4 mod 2 ^ 32 = 4 * ?n" by simp
  then show ?thesis by (simp add: check_sigops_def Let_def WITNESS_SCALE_FACTOR_def MAX_BLOCK_SIGOPS_COST_def MAX_BLOCK_SIZE_def)
qed

definition payee_checked :: "node_view \<Rightarrow> CBlock \<Rightarrow> bool" where
  "payee_checked nv b \<longleftrightarrow> nv_tip nv \<noteq> None \<and> height_of nv b \<noteq> 0 \<and> \<not> nv_initialDownload nv"

lemma CheckBlock_form_Inr:
  "CheckBlock_form nv True b = Inr () \<longleftrightarrow>
     (IsProofOfWork b \<longrightarrow> CheckProofOfWork (nv_params nv) (limbs_of (CBlock_GetHash (nv_quark nv) b)) (bh_nBits b)) \<and>
     CBlock_GetBlockTime b \<le> GetAdjustedTime nv + (if IsProofOfStake b then 180 else 7200) \<and>
     hashMerkleRoot b = merkle_root (Hash_pair (nv_hashes nv)) (map (tx_GetHash (nv_hashes nv)) (vtx b)) \<and>
     \<not> mutated_tree (Hash_pair (nv_hashes nv)) (map (tx_GetHash (nv_hashes nv)) (vtx b)) \<and>
     length (vtx b) \<le> 1000000 \<and> length (write_block False b) \<le> 1000000 \<and>
     (\<exists>cb txs. vtx b = cb # txs \<and> IsCoinBase cb \<and> (\<forall>tx \<in> set txs. \<not> IsCoinBase tx)) \<and>
     (IsProofOfStake b \<longrightarrow> stake_form nv b)"
proof -
  have h: "CheckBlockHeader nv b p = Inr () \<longleftrightarrow> (p \<longrightarrow> CheckProofOfWork (nv_params nv) (limbs_of (CBlock_GetHash (nv_quark nv) b)) (bh_nBits b))" for p
    by (simp add: CheckBlockHeader_def)
  have m: "check_merkle_root nv b next = Inr () \<longleftrightarrow>
      hashMerkleRoot b = merkle_root (Hash_pair (nv_hashes nv)) (map (tx_GetHash (nv_hashes nv)) (vtx b)) \<and>
      \<not> mutated_tree (Hash_pair (nv_hashes nv)) (map (tx_GetHash (nv_hashes nv)) (vtx b)) \<and> next = Inr ()" for "next"
    by (simp add: check_merkle_root_def CBlock_BuildMerkleTree_def BuildMerkleTree_reference)
  have s: "(if IsProofOfStake b then check_stake_form nv b else (\<lambda>next. next)) (Inr ()) = Inr () \<longleftrightarrow> (IsProofOfStake b \<longrightarrow> stake_form nv b)"
    by (simp add: check_stake_form_Inr)
  have c: "vtx b \<noteq> [] \<and> IsCoinBase (vtx b ! 0) \<and> list_all (\<lambda>tx. \<not> IsCoinBase tx) (drop 1 (vtx b)) \<longleftrightarrow>
      (\<exists>cb txs. vtx b = cb # txs \<and> IsCoinBase cb \<and> (\<forall>tx \<in> set txs. \<not> IsCoinBase tx))"
    by (cases "vtx b") (auto simp: list_all_iff)
  show ?thesis
    unfolding CheckBlock_form_def require_reject if_True m s h c [symmetric] MAX_BLOCK_BASE_SIZE_def by (auto simp: not_less)
qed

text \<open>C7: \<open>CheckBlock\<close> accepts exactly the well formed blocks: the right merkle root over a list of transactions that is not a mutation, a coinbase
  first and nowhere else, for a proof of stake a coinstake second and nowhere else and an empty coinbase, the sizes and signature operations in
  their limits, the time not too far ahead, no conflict with a locked transaction, and the payee the votes demand; of the proof of work it only
  demands that \<open>nBits\<close> is in range.\<close>

theorem CheckBlock_iff:
  "fst (CheckBlock nv True b rej) = Inr () \<longleftrightarrow>
     (IsProofOfWork b \<longrightarrow> CheckProofOfWork (nv_params nv) (limbs_of (CBlock_GetHash (nv_quark nv) b)) (bh_nBits b)) \<and>
     CBlock_GetBlockTime b \<le> GetAdjustedTime nv + (if IsProofOfStake b then 180 else 7200) \<and>
     hashMerkleRoot b = merkle_root (Hash_pair (nv_hashes nv)) (map (tx_GetHash (nv_hashes nv)) (vtx b)) \<and>
     \<not> mutated_tree (Hash_pair (nv_hashes nv)) (map (tx_GetHash (nv_hashes nv)) (vtx b)) \<and>
     length (vtx b) \<le> 1000000 \<and> length (write_block False b) \<le> 1000000 \<and>
     (\<exists>cb txs. vtx b = cb # txs \<and> IsCoinBase cb \<and> (\<forall>tx \<in> set txs. \<not> IsCoinBase tx)) \<and>
     (IsProofOfStake b \<longrightarrow> stake_form nv b) \<and>
     \<not> conflicts_lock nv b \<and>
     (payee_checked nv b \<longrightarrow> IsBlockPayeeValid nv b (height_of nv b) = Some True) \<and>
     4 * sum_list (map GetLegacySigOpCount (vtx b)) \<le> 20000"
proof -
  have "fst (CheckBlock nv True b rej) = Inr () \<longleftrightarrow> CheckBlock_form nv True b = Inr () \<and> \<not> conflicts_lock nv b \<and>
      (payee_checked nv b \<longrightarrow> IsBlockPayeeValid nv b (height_of nv b) = Some True) \<and> check_sigops b = Inr ()"
    by (cases "IsBlockPayeeValid nv b (height_of nv b)") (auto simp: CheckBlock_def payee_checked_def split: sum.splits bool.splits)
  then show ?thesis unfolding CheckBlock_form_Inr using check_sigops_Inr [of b] by (simp cong: conj_cong)
qed

lemma CheckBlock_form_not_Abort: "CheckBlock_form nv m b \<noteq> Inl Abort"
  by (simp add: CheckBlock_form_def check_merkle_root_def check_stake_form_def require_def Let_def reject_def corrupt_def split: prod.split)

text \<open>C21: \<open>CheckBlock\<close> reads past the end of the transactions exactly for a block that passes the checks of its form, has no transaction but the
  coinbase, and builds on a known block beyond the last proof of work block, once the node is synchronised; and \<open>ContextualCheckBlock\<close> accepts no
  block without predecessor, since it follows the null pointer \<open>pindexPrev\<close>.\<close>

theorem CheckBlock_aborts:
  "(fst (CheckBlock nv True b rej) = Inl Abort \<longleftrightarrow>
      CheckBlock_form nv True b = Inr () \<and> \<not> conflicts_lock nv b \<and> payee_checked nv b \<and> nv_synced nv \<and>
      height_of nv b > LAST_POW_BLOCK (nv_params nv) \<and> length (vtx b) \<le> 1) \<and>
   ContextualCheckBlock nv CP zc serial b [] \<noteq> Inr ()"
proof
  have sig: "check_sigops b \<noteq> Inl Abort" by (simp add: check_sigops_def require_def Let_def corrupt_def)
  have payee: "IsBlockPayeeValid nv b h = None \<longleftrightarrow> nv_synced nv \<and> (if h > LAST_POW_BLOCK (nv_params nv) then 1 else 0) \<ge> length (vtx b)" for h
  proof -
    have some: "(if P then (if Q then Some x else if R then Some y else Some z) else Some z) \<noteq> None" for P Q R x y z :: bool by simp
    have three: "(if \<not> S then Some True else if L then None else r) = None \<longleftrightarrow> S \<and> L" if "r \<noteq> None" for S L :: bool and r :: "bool option"
      using that by simp
    show ?thesis unfolding IsBlockPayeeValid_def Let_def by (rule three [OF some])
  qed
  have ne: "CheckBlock_form nv True b = Inr () \<Longrightarrow> vtx b \<noteq> []" unfolding CheckBlock_form_Inr by auto
  have "fst (CheckBlock nv True b rej) = Inl Abort \<longleftrightarrow> CheckBlock_form nv True b = Inr () \<and> \<not> conflicts_lock nv b \<and> payee_checked nv b \<and>
      IsBlockPayeeValid nv b (height_of nv b) = None"
    using sig CheckBlock_form_not_Abort [of nv True b]
    by (auto simp: CheckBlock_def payee_checked_def reject_def split: sum.splits bool.splits option.splits)
  then show "fst (CheckBlock nv True b rej) = Inl Abort \<longleftrightarrow>
      CheckBlock_form nv True b = Inr () \<and> \<not> conflicts_lock nv b \<and> payee_checked nv b \<and> nv_synced nv \<and>
      height_of nv b > LAST_POW_BLOCK (nv_params nv) \<and> length (vtx b) \<le> 1"
    unfolding payee using ne by auto
  show "ContextualCheckBlock nv CP zc serial b [] \<noteq> Inr ()"
    by (simp add: ContextualCheckBlock_def Let_def check_witness_def check_commitment_def require_def)
qed

text \<open>So the genesis block, when it is read again from the block files, ends the process.\<close>

lemma ContextualCheckBlock_genesis:
  assumes "0 \<le> Zerocoin_StartHeight (nv_params nv)" and "sint (bh_nVersion b) < Zerocoin_HeaderVersion (nv_params nv)"
    and "\<forall>tx \<in> set (vtx b). nLockTime tx = 0" and "0 < EnforceBlockUpgradeMajority (nv_params nv)"
  shows "ContextualCheckBlock nv CP zc serial b [] = Inl Abort"
  using assms by (simp add: ContextualCheckBlock_def Let_def vbind_def require_def IsFinalTx_def list_all_iff IsSuperMajority_count
      check_witness_def check_commitment_def)

section \<open>Commitments to the witnesses\<close>

lemma ComputeMerkleRoot_total:
  assumes "length xs \<le> 2 ^ 31"
  shows "ComputeMerkleRoot H xs \<noteq> None"
proof (cases "xs = []")
  case False
  then show ?thesis using MerkleComputation_correct [OF False assms, of H "2 ^ 32 - 1"] by (auto simp: ComputeMerkleRoot_def)
qed (simp add: ComputeMerkleRoot_def MerkleComputation_def)

lemma is_commitment_new: "is_commitment (commitment_header @ ser_word 32 w)"
  by (simp add: is_commitment_def commitment_header_def ser_word_def)

lemma commitment_index_new:
  assumes "vtx b = cb # tx # txs" and "vout cb = outs @ [out]" and "is_commitment (scriptPubKey out)"
  shows "GetWitnessCommitmentIndex b = int (length outs)"
  using assms by (simp add: GetWitnessCommitmentIndex_def enumerate_append_eq)

text \<open>C20: A block template that carries witnesses gets a commitment that is accepted.  Assumed are: segregated witness is active for the
  next block (the value of \<open>SPORK_20\<close> is below the time of the previous block) and \<open>SPORK_21\<close>, commitments in the coinbase, is on
  (with the default sporks neither is, and no commitment is generated or the block is refused); the coinbase has an empty witness and no commitment yet, some
  other transaction has a witness, and there are fewer than \<open>2 ^ 31\<close> of them.  Then \<open>GenerateCoinbaseCommitment\<close> ends, adds one
  output to the coinbase and the nonce to its witness and leaves the other transactions alone, and the check of \<open>ContextualCheckBlock\<close> finds the
  commitment and agrees with it.\<close>

theorem GenerateCoinbaseCommitment_accepted:
  assumes "vtx b = cb # txs" and "wit cb = []" and "GetWitnessCommitmentIndex b = - 1"
    and "\<exists>tx \<in> set txs. \<not> CTxWitness_IsNull (wit tx)"
    and "GetSporkValue nv SPORK_20_SEGWIT_ACTIVATION < GetBlockTime prev" and "IsSporkActive nv SPORK_21_SEGWIT_ON_COINBASE"
    and "length txs < 2 ^ 31"
  shows "\<exists>script b' out. GenerateCoinbaseCommitment (nv_hashes nv) (GetSporkValue nv SPORK_20_SEGWIT_ACTIVATION) (GetBlockTime prev) b = Some (script, b') \<and>
    out = \<lparr>nValue = 0, scriptPubKey = script, nRounds = - 10\<rparr> \<and>
    b' = b\<lparr>vtx := cb\<lparr>vout := vout cb @ [out], wit := [[replicate 32 0]]\<rparr> # txs\<rparr> \<and>
    GetWitnessCommitmentIndex b' = int (length (vout cb)) \<and> check_witness nv b' (prev # pprev) = Inr ()"
proof -
  let ?hs = "nv_hashes nv" and ?root = "ComputeMerkleRoot (Hash_pair (nv_hashes nv)) (0 # map (tx_GetWitnessHash (nv_hashes nv)) txs)"
  obtain root m where r: "?root = Some (root, m)"
    using ComputeMerkleRoot_total [of "0 # map (tx_GetWitnessHash ?hs) txs" "Hash_pair ?hs"] assms(7) by auto
  let ?w = "ser_word 32 (witness_commitment ?hs root (replicate 32 0))"
  let ?script = "commitment_header @ ?w" and ?cb = "cb\<lparr>vout := vout cb @ [\<lparr>nValue = 0, scriptPubKey = commitment_header @ ?w, nRounds = - 10\<rparr>]\<rparr>"
  let ?b1 = "b\<lparr>vtx := ?cb # txs\<rparr>" and ?b2 = "b\<lparr>vtx := ?cb\<lparr>wit := [[replicate 32 0]]\<rparr> # txs\<rparr>"
  obtain tx rest where txs: "txs = tx # rest" using assms(4) by (cases txs) auto
  let ?out = "\<lparr>nValue = 0, scriptPubKey = ?script, nRounds = - 10\<rparr>"
  have i1: "GetWitnessCommitmentIndex ?b1 = int (length (vout cb))" and i2: "GetWitnessCommitmentIndex ?b2 = int (length (vout cb))"
    using commitment_index_new [of ?b1 ?cb tx rest "vout cb" ?out]
      commitment_index_new [of ?b2 "?cb\<lparr>wit := [[replicate 32 0]]\<rparr>" tx rest "vout cb" ?out]
      is_commitment_new [of "witness_commitment ?hs root (replicate 32 0)"] txs by simp_all
  have upd: "UpdateUncommittedBlockStructures (GetSporkValue nv SPORK_20_SEGWIT_ACTIVATION) (GetBlockTime prev) ?b1 = ?b2"
    using i1 assms(2,5) by (simp add: UpdateUncommittedBlockStructures_def)
  have "list_ex (\<lambda>tx. \<not> CTxWitness_IsNull (wit tx)) (drop 1 (vtx b))" using assms(1,4) by (simp add: list_ex_iff)
  then have gen: "GenerateCoinbaseCommitment ?hs (GetSporkValue nv SPORK_20_SEGWIT_ACTIVATION) (GetBlockTime prev) b = Some (?script, ?b2)"
    using assms(1,3,5) r upd by (simp add: GenerateCoinbaseCommitment_def BlockWitnessMerkleRoot_def Let_def)
  have "length ?w = 32" "length commitment_header = 6" by (simp_all add: ser_word_def commitment_header_def)
  then have "take 32 (drop 6 ?script) = ?w" by simp
  then have "check_commitment nv ?b2 (prev # pprev) = Inr True"
    using assms(5,6) r i2 by (simp add: check_commitment_def BlockWitnessMerkleRoot_def Let_def nth_append)
  then have "check_witness nv ?b2 (prev # pprev) = Inr ()" by (simp add: check_witness_def)
  then show ?thesis using gen i2 by (intro exI [of _ ?script] exI [of _ ?b2]) simp
qed

section \<open>Below the zerocoin start height\<close>

text \<open>Up to the zerocoin start height \<open>ContextualCheckBlock\<close> does not look at the transactions with \<open>CheckTransaction\<close>.\<close>

lemma ContextualCheckBlock_low:
  assumes "prev = e # pprev" and "ix_nHeight e + 1 \<le> Zerocoin_StartHeight (nv_params nv)"
    and "sint (bh_nVersion b) < Zerocoin_HeaderVersion (nv_params nv)"
    and "\<forall>tx \<in> set (vtx b). nLockTime tx = 0"
    and "\<not> IsSuperMajority (nv_params nv) 2 prev (EnforceBlockUpgradeMajority (nv_params nv))"
    and "check_witness nv b prev = Inr ()" and "GetBlockCost b \<le> MAX_BLOCK_COST"
  shows "ContextualCheckBlock nv CP zc serial b prev = Inr ()"
  using assms by (simp add: ContextualCheckBlock_def Let_def vbind_def require_def IsFinalTx_def list_all_iff)

text \<open>A coinstake that names its output twice, and a block with it.\<close>

definition twice_tx :: CTransaction where
  "twice_tx = stake_tx\<lparr>vin := [vin stake_tx ! 0, vin stake_tx ! 0]\<rparr>"

definition twice_block :: CBlock where
  "twice_block =
     (let b = (stake_block [])\<lparr>vtx := [sample_coinbase\<lparr>vout := [\<lparr>nValue = 0, scriptPubKey = [], nRounds = - 10\<rparr>]\<rparr>, twice_tx]\<rparr>
      in b\<lparr>hashMerkleRoot := fst (CBlock_BuildMerkleTree sum_hashes b)\<rparr>)"

definition sample_node :: node_view where
  "sample_node = \<lparr>nv_params = mainParams, nv_quark = quark_id, nv_hashes = sum_hashes, nv_regtest = False, nv_time = 100, nv_timeOffset = 0,
     nv_sporks = (\<lambda>_. None), nv_tip = Some (3, 2000), nv_index = (\<lambda>_. None), nv_initialDownload = False, nv_lockedInputs = (\<lambda>_. None),
     nv_synced = True, nv_budgetBlock = (\<lambda>_. False), nv_budgetValid = (\<lambda>_ _. Trx_Valid), nv_paymentValid = (\<lambda>_ _. True), nv_budgetCycle = 144\<rparr>"

definition sample_tip :: block_entry where
  "sample_tip = \<lparr>ix_nVersion = 7, ix_nHeight = 2000, ix_nTime = 5, ix_nBits = 1\<rparr>"

lemma twice_vtx: "vtx twice_block = [sample_coinbase\<lparr>vout := [\<lparr>nValue = 0, scriptPubKey = [], nRounds = - 10\<rparr>]\<rparr>, twice_tx]"
  by (simp add: twice_block_def Let_def)

lemma twice_length: "length (write_block False twice_block) \<le> 1000" "length (write_block True twice_block) \<le> 1000"
  by (simp_all add: length_wire twice_vtx sample_coinbase_def stake_tx_def twice_tx_def CTxWitness_IsNull_def)
    (simp_all add: twice_block_def Let_def stake_block_def)

text \<open>The hash functions of the headers, the sporks and the index of the node do not matter.\<close>

abbreviation node_with :: "quark_hashes \<Rightarrow> (int \<Rightarrow> int option) \<Rightarrow> (uint256 \<Rightarrow> int option) \<Rightarrow> node_view" where
  "node_with Q sporks index \<equiv> sample_node\<lparr>nv_quark := Q, nv_sporks := sporks, nv_index := index\<rparr>"

lemma twice_form: "CheckBlock_form (node_with Q sporks index) True twice_block = Inr ()"
  unfolding CheckBlock_form_Inr
proof (intro conjI)
  let ?nv = "node_with Q sporks index"
  have pos: "IsProofOfStake twice_block" unfolding IsProofOfStake_def twice_vtx by code_simp
  show "IsProofOfWork twice_block \<longrightarrow>
      CheckProofOfWork (nv_params ?nv) (limbs_of (CBlock_GetHash (nv_quark ?nv) twice_block)) (bh_nBits twice_block)"
    using pos by (simp add: IsProofOfWork_def)
  show "CBlock_GetBlockTime twice_block \<le> GetAdjustedTime ?nv + (if IsProofOfStake twice_block then 180 else 7200)"
    by (simp add: CBlock_GetBlockTime_def GetAdjustedTime_def sample_node_def twice_block_def Let_def stake_block_def)
  have m: "snd (CBlock_BuildMerkleTree sum_hashes twice_block) = False" by code_simp
  have r: "hashMerkleRoot twice_block = fst (CBlock_BuildMerkleTree sum_hashes twice_block)"
    by (simp add: CBlock_BuildMerkleTree_def twice_block_def Let_def)
  show "hashMerkleRoot twice_block = merkle_root (Hash_pair (nv_hashes ?nv)) (map (tx_GetHash (nv_hashes ?nv)) (vtx twice_block))"
    unfolding r by (simp add: CBlock_BuildMerkleTree_def BuildMerkleTree_reference sample_node_def)
  show "\<not> mutated_tree (Hash_pair (nv_hashes ?nv)) (map (tx_GetHash (nv_hashes ?nv)) (vtx twice_block))"
    using m by (simp add: CBlock_BuildMerkleTree_def BuildMerkleTree_reference sample_node_def)
  have cb: "IsCoinBase (sample_coinbase\<lparr>vout := [\<lparr>nValue = 0, scriptPubKey = [], nRounds = - 10\<rparr>]\<rparr>)" by code_simp
  have n: "\<forall>tx \<in> set [twice_tx]. \<not> IsCoinBase tx" by code_simp
  show "\<exists>cb txs. vtx twice_block = cb # txs \<and> IsCoinBase cb \<and> (\<forall>tx \<in> set txs. \<not> IsCoinBase tx)"
    unfolding twice_vtx using cb n by blast
  have idx: "GetWitnessCommitmentIndex twice_block = - 1"
    unfolding GetWitnessCommitmentIndex_def twice_vtx by code_simp
  have st: "IsCoinStake twice_tx" by code_simp
  have "stake_form ?nv twice_block"
    unfolding stake_form_def
  proof (intro exI conjI)
    show "vtx twice_block = sample_coinbase\<lparr>vout := [\<lparr>nValue = 0, scriptPubKey = [], nRounds = - 10\<rparr>]\<rparr> # twice_tx # []"
      by (rule twice_vtx)
    show "IsCoinStake twice_tx" "\<forall>tx \<in> set []. \<not> IsCoinStake tx" using st by simp_all
    show "CTxOut_IsEmpty \<lparr>nValue = 0, scriptPubKey = [], nRounds = - 10\<rparr>" by (simp add: CTxOut_IsEmpty_def)
  qed (simp add: idx)
  then show "IsProofOfStake twice_block \<longrightarrow> stake_form ?nv twice_block" by simp
qed (use twice_length in \<open>simp_all add: twice_vtx\<close>)

lemma twice_rest:
  assumes "\<not> IsSporkActive (node_with Q sporks index) SPORK_13_ENABLE_SUPERBLOCKS"
  shows "\<not> conflicts_lock (node_with Q sporks index) twice_block"
    "IsBlockPayeeValid (node_with Q sporks index) twice_block (height_of (node_with Q sporks index) twice_block) = Some True"
    "4 * sum_list (map GetLegacySigOpCount (vtx twice_block)) \<le> 20000"
proof -
  let ?nv = "node_with Q sporks index"
  show "\<not> conflicts_lock ?nv twice_block" by (simp add: conflicts_lock_def sample_node_def list_ex_iff)
  have "height_of ?nv twice_block = 2001"
    by (simp add: height_of_def sample_node_def twice_block_def Let_def stake_block_def)
  then show "IsBlockPayeeValid ?nv twice_block (height_of ?nv twice_block) = Some True"
    using assms by (simp add: IsBlockPayeeValid_def Let_def twice_vtx) (simp add: sample_node_def mainParams_def)
  show "4 * sum_list (map GetLegacySigOpCount (vtx twice_block)) \<le> 20000" unfolding twice_vtx by code_simp
qed

lemma node_with_sample: "node_with quark_id (\<lambda>_. None) (\<lambda>_. None) = sample_node"
  by (simp add: sample_node_def)

lemma CheckBlock_iff_witness: "fst (CheckBlock sample_node True twice_block Map.empty) = Inr ()"
proof -
  have "\<not> IsSporkActive sample_node SPORK_13_ENABLE_SUPERBLOCKS" by code_simp
  then have "\<not> conflicts_lock sample_node twice_block"
    "IsBlockPayeeValid sample_node twice_block (height_of sample_node twice_block) = Some True"
    "4 * sum_list (map GetLegacySigOpCount (vtx twice_block)) \<le> 20000"
    using twice_rest [where Q = quark_id and sporks = "\<lambda>_. None" and index = "\<lambda>_. None"] by (simp_all only: node_with_sample simp_thms)
  moreover have "CheckBlock_form sample_node True twice_block = Inr ()"
    using twice_form [where Q = quark_id and sporks = "\<lambda>_. None" and index = "\<lambda>_. None"] by (simp only: node_with_sample)
  ultimately show ?thesis unfolding CheckBlock_iff CheckBlock_form_Inr by simp
qed

lemma CheckBlock_twice:
  assumes "\<not> IsSporkActive (node_with Q sporks index) SPORK_13_ENABLE_SUPERBLOCKS"
  shows "fst (CheckBlock (node_with Q sporks index) True twice_block rej) = Inr ()"
proof -
  note t = twice_rest [OF assms]
  have "check_sigops twice_block = Inr ()" using check_sigops_Inr [of twice_block] twice_length(1) t(3) by linarith
  then show ?thesis using twice_form t by (simp add: CheckBlock_def)
qed

lemma ContextualCheckBlock_twice:
  assumes "GetSporkValue (node_with Q sporks index) SPORK_20_SEGWIT_ACTIVATION \<ge> 5"
  shows "ContextualCheckBlock (node_with Q sporks index) CP zc serial twice_block [sample_tip] = Inr ()"
proof (rule ContextualCheckBlock_low [OF refl])
  let ?nv = "node_with Q sporks index"
  have "list_all (\<lambda>tx. CTxWitness_IsNull (wit tx)) (vtx twice_block)" unfolding twice_vtx by code_simp
  then show "check_witness ?nv twice_block [sample_tip] = Inr ()"
    using assms by (auto simp: check_witness_def check_commitment_def list_all_iff list_ex_iff GetBlockTime_def sample_tip_def)
  show "GetBlockCost twice_block \<le> MAX_BLOCK_COST"
    using twice_length by (simp add: GetBlockCost_def WITNESS_SCALE_FACTOR_def MAX_BLOCK_COST_def)
  show "\<forall>tx \<in> set (vtx twice_block). nLockTime tx = 0" unfolding twice_vtx by code_simp
  show "\<not> IsSuperMajority (nv_params ?nv) 2 [sample_tip] (EnforceBlockUpgradeMajority (nv_params ?nv))"
    by (simp add: IsSuperMajority_count sample_node_def mainParams_def)
  show "sint (bh_nVersion twice_block) < Zerocoin_HeaderVersion (nv_params ?nv)"
    by (simp add: sample_node_def mainParams_def twice_block_def Let_def stake_block_def)
qed (simp_all add: sample_node_def mainParams_def sample_tip_def)

lemma GenerateCoinbaseCommitment_accepted_witness:
  "\<exists>b' out. b' = (one_tx_block [] [] 0)\<lparr>vtx := [sample_coinbase\<lparr>vout := vout sample_coinbase @ [out], wit := [[replicate 32 0]]\<rparr>,
       sample_tx\<lparr>wit := [[[1]]]\<rparr>]\<rparr> \<and>
     check_witness (sample_node\<lparr>nv_sporks := (\<lambda>_. Some 1)\<rparr>) b' [sample_tip] = Inr ()"
proof -
  let ?b = "(one_tx_block [] [] 0)\<lparr>vtx := [sample_coinbase, sample_tx\<lparr>wit := [[[1]]]\<rparr>]\<rparr>" and ?nv = "sample_node\<lparr>nv_sporks := (\<lambda>_. Some 1)\<rparr>"
  have i: "GetWitnessCommitmentIndex ?b = - 1" unfolding GetWitnessCommitmentIndex_def by (simp add: sample_coinbase_def is_commitment_def)
  have s: "GetSporkValue ?nv SPORK_20_SEGWIT_ACTIVATION < GetBlockTime sample_tip" "IsSporkActive ?nv SPORK_21_SEGWIT_ON_COINBASE"
    by (simp_all add: GetSporkValue_def GetBlockTime_def sample_tip_def IsSporkActive_def sample_node_def SPORK_21_SEGWIT_ON_COINBASE_def SPORK_13_ENABLE_SUPERBLOCKS_def)
  have v: "vtx ?b = sample_coinbase # [sample_tx\<lparr>wit := [[[1]]]\<rparr>]" "wit sample_coinbase = []"
    "\<exists>tx \<in> set [sample_tx\<lparr>wit := [[[1]]]\<rparr>]. \<not> CTxWitness_IsNull (wit tx)"
    by (simp_all add: sample_coinbase_def CTxWitness_IsNull_def CScriptWitness_IsNull_def)
  have l: "length [sample_tx\<lparr>wit := [[[1]]]\<rparr>] < 2 ^ 31" by simp
  show ?thesis using GenerateCoinbaseCommitment_accepted [OF v(1,2) i v(3) s l, of "[]"] by auto
qed

text \<open>A block with nothing but a coinbase, at a height where proof of work has ended.\<close>

definition lone_block :: CBlock where
  "lone_block =
     (let b = (stake_block [])\<lparr>bh_nBits := 0x1d00ffff, vtx := [sample_coinbase]\<rparr>
      in b\<lparr>hashMerkleRoot := fst (CBlock_BuildMerkleTree sum_hashes b)\<rparr>)"

lemma CheckBlock_aborts_witness: "fst (CheckBlock sample_node True lone_block Map.empty) = Inl Abort"
proof -
  have v: "vtx lone_block = [sample_coinbase]" and r: "hashMerkleRoot lone_block = tx_GetHash sum_hashes sample_coinbase"
    by (simp_all add: lone_block_def Let_def CBlock_BuildMerkleTree_def BuildMerkleTree_reference)
  have pow: "CheckProofOfWork mainParams h 0x1d00ffff" for h
  proof -
    have "SetCompact 0x1d00ffff = ([0, 0, 0, 0, 0, 0, 0xffff0000, 0], False, False)" by code_simp
    moreover have "ProofOfWorkLimit mainParams = [0xffffffff, 0xffffffff, 0xffffffff, 0xffffffff, 0xffffffff, 0xffffffff, 0xffffffff, 0xfff]" by code_simp
    moreover have "EqualTo [0, 0, 0, 0, 0, 0, 0xffff0000, 0] 0 = False" by code_simp
    moreover have "CompareTo [0, 0, 0, 0, 0, 0, 0xffff0000, 0 :: limb] [0xffffffff, 0xffffffff, 0xffffffff, 0xffffffff, 0xffffffff, 0xffffffff, 0xffffffff, 0xfff] = - 1"
      by code_simp
    ultimately show ?thesis by (simp add: CheckProofOfWork_def)
  qed
  have cb: "IsCoinBase sample_coinbase" by code_simp
  have pos: "\<not> IsProofOfStake lone_block" by (simp add: IsProofOfStake_def v)
  have len: "length (write_block False lone_block) \<le> 1000" by (simp add: length_wire v sample_coinbase_def)
  have form: "CheckBlock_form sample_node True lone_block = Inr ()"
    unfolding CheckBlock_form_Inr using cb pos len pow
    by (simp add: v r IsProofOfWork_def) (simp add: sample_node_def CBlock_GetBlockTime_def GetAdjustedTime_def lone_block_def Let_def stake_block_def)
  have "height_of sample_node lone_block = 2001" by (simp add: height_of_def sample_node_def lone_block_def Let_def stake_block_def)
  moreover have "nv_tip sample_node \<noteq> None" "\<not> nv_initialDownload sample_node" "nv_synced sample_node" "LAST_POW_BLOCK (nv_params sample_node) < 2001"
    "\<not> conflicts_lock sample_node lone_block"
    by (simp_all add: sample_node_def mainParams_def conflicts_lock_def list_ex_iff)
  ultimately show ?thesis unfolding CheckBlock_aborts [THEN conjunct1] using form by (simp add: payee_checked_def v)
qed

end
