(* ===== verification/ConnectBlock.thy ===== *)
theory ConnectBlock
  imports BlockChecks BestChain
begin

text \<open>
  \<open>ConnectBlock\<close> of src/src/main.cpp with the reward of a block (\<open>GetBlockValue\<close>), over the coins views, the checks on blocks and the
  checks on transactions.  The zerocoin checks and the results of writing to disk are parameters (\<open>connect_env\<close>).  Left out are the
  indexes of transactions and addresses apart from the result of writing them, the zerocoin supply of the block index entry, accumulator
  checksums, and the notifications of the wallet.  Failures are those of theory \<open>BlockChecks\<close>.
\<close>

section \<open>The reward\<close>

text \<open>Fractions of a coin are floating point constants in the source; their products with \<open>COIN\<close> are exact, or round to the integer written here.\<close>

definition GetBlockValue :: "bool \<Rightarrow> upgrade_heights \<Rightarrow> int \<Rightarrow> int" where
  "GetBlockValue testnet up h =
     (if h < 1001 \<and> h > 0 then 30000 * COIN
      else
        let fUpgradeActiveV3 = NetworkUpgradeActive h up UPGRADE_V3_0_BLOCKREWARD in
        if testnet then
          (if h \<le> 3000 \<and> h \<ge> 1001 then 1 * COIN
           else if h \<le> 33001 \<and> h \<ge> 3001 then 314159000
           else if h \<ge> 33002 then (if fUpgradeActiveV3 then 6 * COIN else 3 * COIN)
           else 1 * COIN)
        else if h = 0 then 1 * COIN
        else if h \<le> 904320 \<and> h \<ge> 1000 then 1 * COIN
        else if h \<le> 1336320 \<and> h \<ge> 904321 then COIN div 2
        else if h \<le> 1941121 \<and> h \<ge> 1336321 then COIN div 4
        else if h \<le> 2373122 \<and> h \<ge> 1941122 then COIN div 8
        else if h \<le> 2977923 \<and> h \<ge> 2373123 then COIN div 16
        else if h \<ge> 2977924 then (if fUpgradeActiveV3 then 6 * COIN else 3 * COIN)
        else 1 * COIN)"

section \<open>State and environment\<close>

definition SCRIPT_VERIFY_NONE :: flags where "SCRIPT_VERIFY_NONE = 0"
definition SPORK_22_ZEROCOIN_MAINTENANCE_MODE :: int where "SPORK_22_ZEROCOIN_MAINTENANCE_MODE = 10021"
definition BLOCK_VALID_SCRIPTS :: "32 word" where "BLOCK_VALID_SCRIPTS = 5"
definition BLOCK_HAVE_UNDO :: "32 word" where "BLOCK_HAVE_UNDO = 16"

text \<open>The entry of the block in the index.  \<open>ci_hasHash\<close> says that \<open>phashBlock\<close> is not null; \<open>ci_ancestors\<close> is the walk along \<open>pprev\<close>, and the
  hash and the money supply are those of its first entry, when there is one.\<close>

record connect_index =
  ci_block :: CBlockIndex
  ci_hasHash :: bool
  ci_ancestors :: index_chain
  ci_prevHash :: uint256
  ci_prevMoneySupply :: int
  ci_nMoneySupply :: int
  ci_nMint :: int
  ci_hasUndoPos :: bool

text \<open>The global state: the entry, the rejected blocks, the outputs spent by recent blocks with their heights, and whether the entry is to be
  written to disk.\<close>

record connect_state =
  cs_index :: connect_index
  cs_rejected :: rejected_blocks
  cs_stakeSpent :: "COutPoint \<Rightarrow> int option"
  cs_dirty :: bool

record connect_env =
  ce_ec :: ec_verify
  ce_params :: chain_params
  ce_genesis :: uint256
  ce_testnet :: bool
  ce_checkpointsEnabled :: bool
  ce_checkpoints :: checkpoints
  ce_scriptThreads :: bool
  ce_inChain :: "uint256 \<Rightarrow> int option"
  ce_verifying :: bool
  ce_denomination :: "CTxIn \<Rightarrow> int"
  ce_spendOk :: "CTransaction \<Rightarrow> CTxIn \<Rightarrow> bool"
  ce_toPublicCoin :: "CTxOut \<Rightarrow> bool"
  ce_mintOk :: "CTransaction \<Rightarrow> CTxOut \<Rightarrow> bool"
  ce_accumulatorOk :: bool
  ce_findUndoPos :: bool
  ce_writeUndo :: bool
  ce_writeSpend :: "CTxIn \<times> uint256 \<Rightarrow> bool"
  ce_writeMint :: "CTxOut \<times> uint256 \<Rightarrow> bool"
  ce_writeTxIndex :: bool
  ce_writeAddrIndex :: bool

definition GetTotalBlocksEstimate :: "bool \<Rightarrow> checkpoints \<Rightarrow> int" where
  "GetTotalBlocksEstimate fEnabled cps = (if \<not> fEnabled then 0 else fst (last cps))"

section \<open>The transactions\<close>

text \<open>The variables of the loop; \<open>ca_checks\<close> are the script checks handed to the worker threads, with their transaction.\<close>

record 'b connect_acc =
  ca_view :: "'b CCoinsViewCache"
  ca_nFees :: int
  ca_nValueIn :: int
  ca_nValueOut :: int
  ca_nSigOpsCost :: int
  ca_undo :: "CTxInUndo list list"
  ca_spends :: "(CTxIn \<times> uint256) list"
  ca_mints :: "(CTxOut \<times> uint256) list"
  ca_checks :: "(CTransaction \<times> CScriptCheck) list"

definition connect_acc_new :: "'b CCoinsViewCache \<Rightarrow> 'b connect_acc" where
  "connect_acc_new c = \<lparr>ca_view = c, ca_nFees = 0, ca_nValueIn = 0, ca_nValueOut = 0, ca_nSigOpsCost = 0, ca_undo = [],
     ca_spends = [], ca_mints = [], ca_checks = []\<rparr>"

fun bip30_loop :: "'b CCoinsView \<Rightarrow> hashes \<Rightarrow> CTransaction list \<Rightarrow> 'b CCoinsViewCache \<Rightarrow> block_fail + 'b CCoinsViewCache" where
  "bip30_loop V hs [] c = Inr c"
| "bip30_loop V hs (tx # txs) c =
     (case AccessCoins V (tx_GetHash hs tx) c of
        (None, c') \<Rightarrow> bip30_loop V hs txs c'
      | (Some cs, c') \<Rightarrow> if \<not> IsPruned cs then reject 100 REJECT_INVALID ''bad-txns-BIP30'' else bip30_loop V hs txs c')"

fun connect_spends :: "connect_env \<Rightarrow> CTransaction \<Rightarrow> uint256 \<Rightarrow> CTxIn list \<Rightarrow> 'b connect_acc \<Rightarrow> block_fail + 'b connect_acc" where
  "connect_spends env tx txid [] acc = Inr acc"
| "connect_spends env tx txid (txIn # ins) acc =
     (if \<not> IsZerocoinSpend (scriptSig txIn) then connect_spends env tx txid ins acc
      else
        let acc' = acc\<lparr>ca_nValueIn := wrap64 (ca_nValueIn acc + wrap64 (ce_denomination env txIn * COIN)), ca_spends := ca_spends acc @ [(txIn, txid)]\<rparr>
        in if \<not> ce_spendOk env tx txIn then reject 100 REJECT_INVALID [] else connect_spends env tx txid ins acc')"

text \<open>A mint that does not parse is reported twice, by \<open>TxOutToPublicCoin\<close> and by its caller.\<close>

fun connect_mints :: "connect_env \<Rightarrow> CTransaction \<Rightarrow> uint256 \<Rightarrow> CTxOut list \<Rightarrow> 'b connect_acc \<Rightarrow> block_fail + 'b connect_acc" where
  "connect_mints env tx txid [] acc = Inr acc"
| "connect_mints env tx txid (out # outs) acc =
     (if \<not> CTxOut_IsZerocoinMint out then connect_mints env tx txid outs acc
      else if \<not> ce_toPublicCoin env out then reject 200 0 []
      else if \<not> ce_mintOk env tx out then reject 100 0 []
      else connect_mints env tx txid outs (acc\<lparr>ca_mints := ca_mints acc @ [(out, txid)]\<rparr>))"

definition connect_zerocoin :: "connect_env \<Rightarrow> int \<Rightarrow> CTransaction \<Rightarrow> uint256 \<Rightarrow> 'b connect_acc \<Rightarrow> block_fail + 'b connect_acc" where
  "connect_zerocoin env h tx txid acc =
     (if (case ce_inChain env txid of None \<Rightarrow> False | Some hTx \<Rightarrow> \<not> ce_verifying env \<or> (ce_verifying env \<and> h > hTx))
      then reject 100 REJECT_INVALID ''bad-txns-inputs-missingorspent''
      else vbind (connect_spends env tx txid (vin tx) acc)
        (\<lambda>acc. if IsZerocoinMint_tx tx then connect_mints env tx txid (vout tx) acc else Inr acc))"

text \<open>A transaction with ordinary inputs: fees, values, signature operations and the checks of its inputs.\<close>

definition connect_value :: "'b CCoinsView \<Rightarrow> CTransaction \<Rightarrow> 'b connect_acc \<Rightarrow> block_fail + 'b connect_acc" where
  "connect_value V tx acc =
     vbind
       (if IsCoinStake tx then Inr acc
        else case GetValueIn V tx (ca_view acc) of
          None \<Rightarrow> Inl Abort
        | Some (v, c) \<Rightarrow>
            (case GetValueOut tx of
               None \<Rightarrow> Inl Abort
             | Some out \<Rightarrow> Inr (acc\<lparr>ca_nFees := wrap64 (ca_nFees acc + wrap64 (v - out)), ca_view := c\<rparr>)))
     (\<lambda>acc.
        case GetValueIn V tx (ca_view acc) of
          None \<Rightarrow> Inl Abort
        | Some (v, c) \<Rightarrow> Inr (acc\<lparr>ca_nValueIn := wrap64 (ca_nValueIn acc + v), ca_view := c\<rparr>))"

definition connect_inputs :: "node_view \<Rightarrow> connect_env \<Rightarrow> 'b CCoinsView \<Rightarrow> flags \<Rightarrow> bool \<Rightarrow> CTransaction \<Rightarrow> uint256 \<Rightarrow> 'b connect_acc \<Rightarrow>
    block_fail + 'b connect_acc" where
  "connect_inputs nv env V fl fScriptChecks tx txid acc =
     (case HaveInputs V tx (ca_view acc) of
        (False, _) \<Rightarrow> reject 100 REJECT_INVALID ''bad-txns-inputs-missingorspent''
      | (True, c) \<Rightarrow>
          vbind (if IsZerocoinMint_tx tx then connect_mints env tx txid (vout tx) (acc\<lparr>ca_view := c\<rparr>) else Inr (acc\<lparr>ca_view := c\<rparr>)) (\<lambda>acc.
          vbind (connect_value V tx acc) (\<lambda>acc.
          case GetTransactionSigOpCost V tx fl (ca_view acc) of
            None \<Rightarrow> Inl Abort
          | Some (n, c) \<Rightarrow>
              if ca_nSigOpsCost acc + int n > int MAX_BLOCK_SIGOPS_COST then reject 100 REJECT_INVALID ''bad-blk-sigops''
              else (case CheckInputs V (nv_hashes nv) (ce_ec env) (ce_params env) (nv_index nv) tx fScriptChecks fl (ce_scriptThreads env) c of
                      Inl e \<Rightarrow> Inl (of_check_fail e)
                    | Inr (checks, c) \<Rightarrow>
                        Inr (acc\<lparr>ca_nSigOpsCost := ca_nSigOpsCost acc + int n, ca_view := c, ca_checks := ca_checks acc @ map (Pair tx) checks\<rparr>)))))"

text \<open>One transaction, the \<open>i\<close>-th of a block at height \<open>h\<close>.\<close>

definition connect_tx :: "node_view \<Rightarrow> connect_env \<Rightarrow> 'b CCoinsView \<Rightarrow> flags \<Rightarrow> bool \<Rightarrow> int \<Rightarrow> int \<Rightarrow> nat \<Rightarrow> CTransaction \<Rightarrow> 'b connect_acc \<Rightarrow>
    block_fail + 'b connect_acc" where
  "connect_tx nv env V fl fScriptChecks time h i tx acc =
     (let txid = tx_GetHash (nv_hashes nv) tx in
      if time > GetSporkValue nv SPORK_22_ZEROCOIN_MAINTENANCE_MODE \<and> \<not> nv_initialDownload nv \<and> ContainsZerocoins tx then reject 100 0 []
      else
        vbind (if IsZerocoinSpend_tx tx then connect_zerocoin env h tx txid acc
               else if \<not> IsCoinBase tx then connect_inputs nv env V fl fScriptChecks tx txid acc
               else Inr acc)
          (\<lambda>acc. case GetValueOut tx of
             None \<Rightarrow> Inl Abort
           | Some v \<Rightarrow>
               (case UpdateCoins V (nv_hashes nv) tx h (ca_view acc) of
                  None \<Rightarrow> Inl Abort
                | Some (undo, c) \<Rightarrow>
                    Inr (acc\<lparr>ca_nValueOut := wrap64 (ca_nValueOut acc + v), ca_view := c,
                      ca_undo := ca_undo acc @ (if i > 0 then [undo] else [])\<rparr>))))"

fun connect_loop :: "node_view \<Rightarrow> connect_env \<Rightarrow> 'b CCoinsView \<Rightarrow> flags \<Rightarrow> bool \<Rightarrow> int \<Rightarrow> int \<Rightarrow> nat \<Rightarrow> CTransaction list \<Rightarrow> 'b connect_acc \<Rightarrow>
    block_fail + 'b connect_acc" where
  "connect_loop nv env V fl fScriptChecks time h i [] acc = Inr acc"
| "connect_loop nv env V fl fScriptChecks time h i (tx # txs) acc =
     vbind (connect_tx nv env V fl fScriptChecks time h i tx acc) (connect_loop nv env V fl fScriptChecks time h (i + 1) txs)"

section \<open>The block\<close>

text \<open>The rules for scripts that hold for the block.\<close>

definition block_flags :: "node_view \<Rightarrow> CBlock \<Rightarrow> connect_index \<Rightarrow> flags" where
  "block_flags nv b ci =
     (let P = nv_params nv; prev = ci_ancestors ci;
          fl0 = (if int (block_nTime (ci_block ci)) \<ge> 1333238400 then SCRIPT_VERIFY_P2SH else SCRIPT_VERIFY_NONE);
          fl1 = (if sint (bh_nVersion b) \<ge> 3 \<and> IsSuperMajority P 3 prev (EnforceBlockUpgradeMajority P) then fl0 OR SCRIPT_VERIFY_DERSIG else fl0);
          fl2 = (if sint (bh_nVersion b) \<ge> 4 \<and> IsSuperMajority P 4 prev (EnforceBlockUpgradeMajority P)
                 then fl1 OR SCRIPT_VERIFY_CHECKLOCKTIMEVERIFY else fl1)
      in if GetSporkValue nv SPORK_20_SEGWIT_ACTIVATION < CBlock_GetBlockTime b
         then fl2 OR (SCRIPT_VERIFY_WITNESS OR SCRIPT_VERIFY_CHECKLOCKTIMEVERIFY OR SCRIPT_VERIFY_CHECKSEQUENCEVERIFY) else fl2)"

definition fEnforceBIP30 :: "connect_index \<Rightarrow> bool" where
  "fEnforceBIP30 ci \<longleftrightarrow>
     (let b = ci_block ci in
      \<not> ci_hasHash ci \<or>
      \<not> ((CBlockIndex.nHeight b = 91842 \<and> phashBlock b = 0x00000000000a4d0a398161ffc163c503763b1f4360639393e0e4c8e300e0caec) \<or>
         (CBlockIndex.nHeight b = 91880 \<and> phashBlock b = 0x00000000000743f190a18c5577a3c2d2a1f610ae9601ac046a38084ccb7cd721)))"

text \<open>The queue of script checks: a failed assertion ends the process, any other failure is a result.\<close>

definition control_Wait :: "node_view \<Rightarrow> connect_env \<Rightarrow> (CTransaction \<times> CScriptCheck) list \<Rightarrow> block_fail + unit" where
  "control_Wait nv env checks =
     (let run = (\<lambda>(tx, ck). run_check (nv_hashes nv) (ce_ec env) tx ck) in
      if \<exists>x \<in> set checks. run x = Inl Assert_failed then Inl Abort
      else if \<forall>x \<in> set checks. run x = Inr () then Inr () else reject 100 0 [])"

definition supply_of :: "connect_index \<Rightarrow> 'b connect_acc \<Rightarrow> connect_index" where
  "supply_of ci acc =
     (let prev = (if ci_ancestors ci = [] then 0 else ci_prevMoneySupply ci);
          supply = wrap64 (prev + ca_nValueOut acc - ca_nValueIn acc)
      in ci\<lparr>ci_nMoneySupply := supply, ci_nMint := wrap64 (supply - prev + ca_nFees acc)\<rparr>)"

text \<open>What follows the loop: the mint is compared with the reward, except above the block where the rule was once broken.\<close>

definition check_mint :: "node_view \<Rightarrow> connect_env \<Rightarrow> CBlock \<Rightarrow> connect_index \<Rightarrow> 'b connect_acc \<Rightarrow> block_fail + unit" where
  "check_mint nv env b ci acc =
     (case ci_ancestors ci of
        [] \<Rightarrow> Inl Abort
      | p # _ \<Rightarrow>
          let reward = GetBlockValue (ce_testnet env) (vUpgrades (nv_params nv)) (ix_nHeight p);
              nExpectedMint = (if IsProofOfWork b then wrap64 (reward + ca_nFees acc) else reward)
          in if \<not> IsBlockValueValid nv b nExpectedMint (ci_nMint ci) \<and> ix_nHeight p \<noteq> 84702 then reject 100 REJECT_INVALID ''bad-cb-amount''
             else if \<not> ce_accumulatorOk env then reject 100 REJECT_INVALID ''bad-acc-checkpoint''
             else control_Wait nv env (ca_checks acc))"

definition write_undo :: "connect_env \<Rightarrow> connect_state \<Rightarrow> (block_fail + unit) \<times> connect_state" where
  "write_undo env st =
     (let ci = cs_index st; raised = (\<lambda>ci st. st\<lparr>cs_index := ci\<lparr>ci_block := RaiseValidity BLOCK_VALID_SCRIPTS (ci_block ci)\<rparr>, cs_dirty := True\<rparr>) in
      if \<not> ci_hasUndoPos ci then
        (if \<not> ce_findUndoPos env then (Inl (State_error ''out of disk space''), st)
         else if \<not> ce_writeUndo env then (Inl (State_error ''Failed to write undo data''), st)
         else (Inr (), raised (ci\<lparr>ci_hasUndoPos := True,
                 ci_block := (ci_block ci)\<lparr>nStatus := nStatus (ci_block ci) OR BLOCK_HAVE_UNDO\<rparr>\<rparr>) st))
      else if \<not> IsValid BLOCK_VALID_SCRIPTS (ci_block ci) then (Inr (), raised ci st)
      else (Inr (), st))"

definition write_indexes :: "connect_env \<Rightarrow> 'b connect_acc \<Rightarrow> block_fail + unit" where
  "write_indexes env acc =
     (if \<not> list_all (ce_writeSpend env) (ca_spends acc) then Inl (State_error ''Failed to record coin serial to database'')
      else if \<not> list_all (ce_writeMint env) (ca_mints acc) then Inl (State_error ''Failed to record new mint to database'')
      else if \<not> ce_writeTxIndex env then Inl (State_error ''Failed to write transaction index'')
      else if \<not> ce_writeAddrIndex env then Inl (State_error ''Failed to write address index'')
      else Inr ())"

text \<open>\<open>mapStakeSpent\<close>: the inputs of the block are entered and old entries erased.\<close>

definition stake_spent :: "CChainParams \<Rightarrow> int \<Rightarrow> CTransaction list \<Rightarrow> (COutPoint \<Rightarrow> int option) \<Rightarrow> COutPoint \<Rightarrow> int option" where
  "stake_spent P h txs m =
     (let ins = concat (map (\<lambda>tx. if IsCoinBase tx \<or> IsZerocoinSpend_tx tx then [] else map prevout (vin tx)) txs);
          m' = fold (\<lambda>p m. if m p = None then m(p \<mapsto> h) else m) ins m
      in (\<lambda>p. case m' p of None \<Rightarrow> None | Some k \<Rightarrow> if k < h - MaxReorganizationDepth P then None else Some k))"

text \<open>The result is the view with the undo records of all transactions but the first.\<close>

definition connect_write :: "node_view \<Rightarrow> connect_env \<Rightarrow> CBlock \<Rightarrow> 'b connect_acc \<Rightarrow> connect_state \<Rightarrow>
    (block_fail + 'b CCoinsViewCache \<times> CTxInUndo list list) \<times> connect_state" where
  "connect_write nv env b acc st =
     (case write_undo env st of
        (Inl e, st1) \<Rightarrow> (Inl e, st1)
      | (Inr _, st1) \<Rightarrow>
          (case write_indexes env acc of
             Inl e \<Rightarrow> (Inl e, st1)
           | Inr _ \<Rightarrow>
               let ci = cs_index st1 in
               (Inr (SetBestBlock (phashBlock (ci_block ci)) (ca_view acc), ca_undo acc),
                st1\<lparr>cs_stakeSpent := stake_spent (nv_params nv) (int (CBlockIndex.nHeight (ci_block ci))) (vtx b) (cs_stakeSpent st1)\<rparr>)))"

definition connect_body :: "node_view \<Rightarrow> connect_env \<Rightarrow> 'b CCoinsView \<Rightarrow> bool \<Rightarrow> CBlock \<Rightarrow> 'b CCoinsViewCache \<Rightarrow> connect_state \<Rightarrow>
    (block_fail + 'b CCoinsViewCache \<times> CTxInUndo list list) \<times> connect_state" where
  "connect_body nv env V fJustCheck b view st =
     (let ci = cs_index st; h = int (CBlockIndex.nHeight (ci_block ci));
          fScriptChecks = (h \<ge> GetTotalBlocksEstimate (ce_checkpointsEnabled env) (ce_checkpoints env))
      in case (if fEnforceBIP30 ci then bip30_loop V (nv_hashes nv) (vtx b) view else Inr view) of
           Inl e \<Rightarrow> (Inl e, st)
         | Inr c \<Rightarrow>
             (case connect_loop nv env V (block_flags nv b ci) fScriptChecks (CBlock_GetBlockTime b) h 0 (vtx b) (connect_acc_new c) of
                Inl e \<Rightarrow> (Inl e, st)
              | Inr acc \<Rightarrow>
                  let ci1 = supply_of ci acc; st1 = st\<lparr>cs_index := ci1\<rparr>
                  in case check_mint nv env b ci1 acc of
                       Inl e \<Rightarrow> (Inl e, st1)
                     | Inr _ \<Rightarrow>
                         if fJustCheck then (Inr (ca_view acc, ca_undo acc), st1) else connect_write nv env b acc st1))"

definition ConnectBlock :: "node_view \<Rightarrow> connect_env \<Rightarrow> 'b CCoinsView \<Rightarrow> bool \<Rightarrow> bool \<Rightarrow> CBlock \<Rightarrow> 'b CCoinsViewCache \<Rightarrow> connect_state \<Rightarrow>
    (block_fail + 'b CCoinsViewCache \<times> CTxInUndo list list) \<times> connect_state" where
  "ConnectBlock nv env V fJustCheck fAlreadyChecked b view st =
     (case (if fAlreadyChecked then (Inr (), cs_rejected st) else CheckBlock nv (\<not> fJustCheck) b (cs_rejected st)) of
        (Inl e, rej) \<Rightarrow> (Inl e, st\<lparr>cs_rejected := rej\<rparr>)
      | (Inr _, rej) \<Rightarrow>
          let st = st\<lparr>cs_rejected := rej\<rparr>; ci = cs_index st; h = int (CBlockIndex.nHeight (ci_block ci)); P = nv_params nv
          in case GetBestBlock V view of (best, view1) \<Rightarrow>
             if (if ci_ancestors ci = [] then 0 else ci_prevHash ci) \<noteq> best then (Inl Abort, st)
             else if CBlock_GetHash (nv_quark nv) b = ce_genesis env then
               (if ci_hasHash ci then (Inr (SetBestBlock (phashBlock (ci_block ci)) view1, []), st) else (Inl Abort, st))
             else if h \<le> LAST_POW_BLOCK P \<and> IsProofOfStake b then (reject 100 REJECT_INVALID ''PoS-early'', st)
             else if h > LAST_POW_BLOCK P \<and> IsProofOfWork b then (reject 100 REJECT_INVALID ''PoW-ended'', st)
             else connect_body nv env V fJustCheck b view1 st)"

section \<open>What the loop does\<close>

lemma wrap64_cong: "wrap64 x = wrap64 y \<longleftrightarrow> x mod 2 ^ 64 = y mod 2 ^ 64"
proof -
  have "wrap64 x = wrap64 y \<longleftrightarrow> (x + 2 ^ 63) mod 2 ^ 64 = (y + 2 ^ 63) mod 2 ^ 64" by (simp add: wrap64_def)
  also have "\<dots> \<longleftrightarrow> x mod 2 ^ 64 = y mod 2 ^ 64" by (simp add: mod_add_cong mod_eq_dvd_iff)
  finally show ?thesis .
qed

lemma wrap64_mod: "wrap64 x mod 2 ^ 64 = x mod 2 ^ 64"
  unfolding wrap64_def by (simp add: mod_diff_left_eq)

lemma wrap64_wrap [simp]:
  "wrap64 (wrap64 x + y) = wrap64 (x + y)" "wrap64 (x + wrap64 y) = wrap64 (x + y)" "wrap64 (wrap64 x) = wrap64 x"
  "wrap64 (wrap64 x - y) = wrap64 (x - y)" "wrap64 (x - wrap64 y) = wrap64 (x - y)"
  unfolding wrap64_cong using wrap64_mod by (metis mod_add_cong mod_diff_cong)+

lemma wrap64_wrap_diff [simp]: "wrap64 (x + (wrap64 y - z)) = wrap64 (x + (y - z))"
  by (metis wrap64_wrap(2,4))

lemma wrap64_le: "- (2 ^ 63) \<le> x \<Longrightarrow> wrap64 x \<le> x"
proof -
  assume "- (2 ^ 63) \<le> x"
  then have "(x + 2 ^ 63) mod 2 ^ 64 \<le> x + 2 ^ 63" by (intro zmod_le_nonneg_dividend) simp
  then show ?thesis by (simp add: wrap64_def)
qed

lemma fold_wrap64: "fold (\<lambda>i v. wrap64 (v + f i)) ins (wrap64 a) = wrap64 (a + sum_list (map f ins))"
  by (induction ins arbitrary: a) (simp_all add: add.assoc)

text \<open>The outputs and the inputs of a transaction in an unspent set, and the part of the minted value.\<close>

definition out_sum :: "CTransaction \<Rightarrow> int" where
  "out_sum tx = sum_list (map nValue (vout tx))"

definition in_sum :: "utxos \<Rightarrow> CTransaction \<Rightarrow> int" where
  "in_sum A tx = (if has_inputs tx then sum_list (map (input_value A) (vin tx)) else 0)"

definition mints :: "CTransaction \<Rightarrow> bool" where
  "mints tx \<longleftrightarrow> IsCoinBase tx \<or> IsCoinStake tx"

lemma connect_mints_Inr:
  "connect_mints env tx txid outs acc = Inr acc' \<Longrightarrow> \<exists>m. acc' = acc\<lparr>ca_mints := m\<rparr>"
proof (induction outs arbitrary: acc)
  case Nil
  then show ?case by (intro exI [of _ "ca_mints acc"]) simp
next
  case (Cons out outs)
  show ?case
  proof (cases "CTxOut_IsZerocoinMint out")
    case False
    then show ?thesis using Cons by simp
  next
    case True
    then show ?thesis using Cons.prems Cons.IH [of "acc\<lparr>ca_mints := ca_mints acc @ [(out, txid)]\<rparr>"] by (auto split: if_splits)
  qed
qed

lemma connect_spends_Inr:
  "connect_spends env tx txid ins acc = Inr acc' \<Longrightarrow> \<exists>v sp. acc' = acc\<lparr>ca_nValueIn := v, ca_spends := sp\<rparr>"
proof (induction ins arbitrary: acc)
  case Nil
  then show ?case by (intro exI [of _ "ca_nValueIn acc"] exI [of _ "ca_spends acc"]) simp
next
  case (Cons i ins)
  show ?case
  proof (cases "IsZerocoinSpend (scriptSig i)")
    case False
    then show ?thesis using Cons by simp
  next
    case True
    let ?acc = "acc\<lparr>ca_nValueIn := wrap64 (ca_nValueIn acc + wrap64 (ce_denomination env i * COIN)), ca_spends := ca_spends acc @ [(i, txid)]\<rparr>"
    have "connect_spends env tx txid ins ?acc = Inr acc'" using Cons.prems True by (simp add: Let_def split: if_splits)
    from Cons.IH [OF this] show ?thesis by auto
  qed
qed

lemma connect_zerocoin_Inr:
  assumes "connect_zerocoin env h tx txid acc = Inr acc'"
  shows "ca_view acc' = ca_view acc \<and> ca_undo acc' = ca_undo acc"
proof -
  obtain acc1 where a: "connect_spends env tx txid (vin tx) acc = Inr acc1"
      "(if IsZerocoinMint_tx tx then connect_mints env tx txid (vout tx) acc1 else Inr acc1) = Inr acc'"
    using assms by (auto simp: connect_zerocoin_def split: if_splits)
  have "ca_view acc1 = ca_view acc \<and> ca_undo acc1 = ca_undo acc" using connect_spends_Inr [OF a(1)] by auto
  moreover have "ca_view acc' = ca_view acc1 \<and> ca_undo acc' = ca_undo acc1"
    using a(2) connect_mints_Inr [of env tx txid "vout tx" acc1 acc'] by (auto split: if_splits)
  ultimately show ?thesis by simp
qed

context coins_view
begin

lemma bip30_loop_Inr:
  assumes "cache_inv abs has inv c" and "bip30_loop V hs txs c = Inr c'"
  shows "cache_inv abs has inv c' \<and> cache_abs abs c' = cache_abs abs c \<and> (\<forall>tx \<in> set txs. cache_abs abs c (tx_GetHash hs tx) = None)"
  using assms
proof (induction txs arbitrary: c)
  case (Cons tx txs)
  obtain r c1 where r: "AccessCoins V (tx_GetHash hs tx) c = (r, c1)" by force
  note c1 = access [OF Cons.prems(1) r]
  have l: "bip30_loop V hs txs c1 = Inr c'" "unspent r = None"
    using Cons.prems(2) by (auto simp: r unspent_def split: option.splits if_splits)
  show ?case using Cons.IH [OF conjunct1 [OF c1] l(1)] c1 l(2) by simp
qed simp

lemma value_in_sum:
  assumes "cache_inv abs has inv c" and "has_inputs tx" and "\<forall>i \<in> set (vin tx). utxo_output (cache_abs abs c) (prevout i) \<noteq> None"
  shows "\<exists>c'. GetValueIn V tx c = Some (wrap64 (in_sum (cache_abs abs c) tx), c') \<and> cache_inv abs has inv c' \<and> cache_abs abs c' = cache_abs abs c"
proof -
  have n: "\<not> IsCoinBase tx" "\<not> IsZerocoinSpend_tx tx" using assms(2) by (simp_all add: has_inputs_def)
  have "fold (\<lambda>i v. wrap64 (v + input_value (cache_abs abs c) i)) (vin tx) 0 = wrap64 (in_sum (cache_abs abs c) tx)"
    using fold_wrap64 [of "input_value (cache_abs abs c)" "vin tx" 0] assms(2) by (simp add: in_sum_def wrap64_def)
  then show ?thesis
    using value_in_loop [OF assms(1,3), of 0] n by (simp add: GetValueIn_def input_value_def)
qed

lemma connect_value_ok:
  assumes "cache_inv abs has inv (ca_view acc)" and "has_inputs tx"
    and "\<forall>i \<in> set (vin tx). utxo_output (cache_abs abs (ca_view acc)) (prevout i) \<noteq> None" and "connect_value V tx acc = Inr acc'"
  shows "\<exists>c. cache_inv abs has inv c \<and> cache_abs abs c = cache_abs abs (ca_view acc) \<and>
    (\<exists>f. acc' = acc\<lparr>ca_nFees := f, ca_nValueIn := wrap64 (ca_nValueIn acc + in_sum (cache_abs abs (ca_view acc)) tx), ca_view := c\<rparr> \<and>
      (if IsCoinStake tx then f = ca_nFees acc
       else \<exists>out. GetValueOut tx = Some out \<and> f = wrap64 (ca_nFees acc + (in_sum (cache_abs abs (ca_view acc)) tx - out))))"
proof (cases "IsCoinStake tx")
  case True
  then have "case GetValueIn V tx (ca_view acc) of None \<Rightarrow> False
      | Some (v, c) \<Rightarrow> acc' = acc\<lparr>ca_nValueIn := wrap64 (ca_nValueIn acc + v), ca_view := c\<rparr>"
    using assms(4) by (auto simp: connect_value_def split: option.splits)
  then show ?thesis using value_in_sum [OF assms(1-3)] True by auto
next
  case False
  obtain c where c: "GetValueIn V tx (ca_view acc) = Some (wrap64 (in_sum (cache_abs abs (ca_view acc)) tx), c)" "cache_inv abs has inv c"
      "cache_abs abs c = cache_abs abs (ca_view acc)"
    using value_in_sum [OF assms(1-3)] by blast
  have i: "\<forall>i \<in> set (vin tx). utxo_output (cache_abs abs c) (prevout i) \<noteq> None" using assms(3) c(3) by simp
  obtain c' where c': "GetValueIn V tx c = Some (wrap64 (in_sum (cache_abs abs c) tx), c')" "cache_inv abs has inv c'"
      "cache_abs abs c' = cache_abs abs c"
    using value_in_sum [OF c(2) assms(2) i] by blast
  obtain out where "GetValueOut tx = Some out" using assms(4) False c(1) by (auto simp: connect_value_def split: option.splits)
  then show ?thesis using assms(4) False c c' by (auto simp: connect_value_def)
qed

lemma connect_inputs_ok:
  assumes "cache_inv abs has inv (ca_view acc)" and "has_inputs tx" and P: "0 \<le> MaxMoneyOut (ce_params env)" "MaxMoneyOut (ce_params env) < 2 ^ 62"
    and o: "\<forall>out \<in> set (vout tx). nValue out < 2 ^ 63" and r: "connect_inputs nv env V fl fs tx txid acc = Inr acc'"
  shows "cache_inv abs has inv (ca_view acc') \<and> cache_abs abs (ca_view acc') = cache_abs abs (ca_view acc) \<and>
    ca_undo acc' = ca_undo acc \<and> ca_nValueOut acc' = ca_nValueOut acc \<and>
    wrap64 (ca_nValueIn acc') = wrap64 (ca_nValueIn acc + in_sum (cache_abs abs (ca_view acc)) tx) \<and>
    wrap64 (ca_nFees acc') = wrap64 (ca_nFees acc + (if IsCoinStake tx then 0 else in_sum (cache_abs abs (ca_view acc)) tx - out_sum tx)) \<and>
    0 \<le> in_sum (cache_abs abs (ca_view acc)) tx \<and> in_sum (cache_abs abs (ca_view acc)) tx \<le> MaxMoneyOut (ce_params env) \<and>
    (\<not> IsCoinStake tx \<longrightarrow> out_sum tx \<le> in_sum (cache_abs abs (ca_view acc)) tx) \<and>
    spent_value (outputs (cache_abs abs (ca_view acc))) tx = in_sum (cache_abs abs (ca_view acc)) tx"
proof -
  let ?A = "cache_abs abs (ca_view acc)"
  obtain q c1 where q: "HaveInputs V tx (ca_view acc) = (q, c1)" by force
  have qt: "q" using r q by (auto simp: connect_inputs_def split: bool.splits)
  have h: "HaveInputs_loop V (vin tx) (ca_view acc) = (True, c1)" using assms(2) q qt by (simp add: HaveInputs_def has_inputs_def)
  have c1: "cache_inv abs has inv c1" "cache_abs abs c1 = ?A" "\<forall>i \<in> set (vin tx). utxo_output ?A (prevout i) \<noteq> None"
    using have_inputs_loop [OF assms(1) h] by auto
  obtain acc1 acc2 n c2 checks c3 where x:
      "(if IsZerocoinMint_tx tx then connect_mints env tx txid (vout tx) (acc\<lparr>ca_view := c1\<rparr>) else Inr (acc\<lparr>ca_view := c1\<rparr>)) = Inr acc1"
      "connect_value V tx acc1 = Inr acc2" "GetTransactionSigOpCost V tx fl (ca_view acc2) = Some (n, c2)"
      "CheckInputs V (nv_hashes nv) (ce_ec env) (ce_params env) (nv_index nv) tx fs fl (ce_scriptThreads env) c2 = Inr (checks, c3)"
      "acc' = acc2\<lparr>ca_nSigOpsCost := ca_nSigOpsCost acc2 + int n, ca_view := c3, ca_checks := ca_checks acc2 @ map (Pair tx) checks\<rparr>"
  proof -
    let ?mints = "if IsZerocoinMint_tx tx then connect_mints env tx txid (vout tx) (acc\<lparr>ca_view := c1\<rparr>) else Inr (acc\<lparr>ca_view := c1\<rparr>)"
    obtain acc1 where a1: "?mints = Inr acc1" using r q qt by (cases ?mints) (simp_all add: connect_inputs_def)
    obtain acc2 where a2: "connect_value V tx acc1 = Inr acc2"
      using r q qt a1 by (cases "connect_value V tx acc1") (simp_all add: connect_inputs_def)
    obtain n c2 where n: "GetTransactionSigOpCost V tx fl (ca_view acc2) = Some (n, c2)"
      using r q qt a1 a2 by (cases "GetTransactionSigOpCost V tx fl (ca_view acc2)") (simp_all add: connect_inputs_def, force)
    have le: "\<not> ca_nSigOpsCost acc2 + int n > int MAX_BLOCK_SIGOPS_COST" using r q qt a1 a2 n by (auto simp: connect_inputs_def)
    let ?ci = "CheckInputs V (nv_hashes nv) (ce_ec env) (ce_params env) (nv_index nv) tx fs fl (ce_scriptThreads env) c2"
    obtain checks c3 where ci: "?ci = Inr (checks, c3)"
      using r q qt a1 a2 n le by (cases ?ci) (simp_all add: connect_inputs_def, force)
    show ?thesis using r q qt a1 a2 n le ci by (intro that [OF a1 a2 n ci]) (simp add: connect_inputs_def)
  qed
  obtain m where m: "acc1 = acc\<lparr>ca_view := c1, ca_mints := m\<rparr>"
  proof (cases "IsZerocoinMint_tx tx")
    case True
    then show ?thesis using x(1) connect_mints_Inr [of env tx txid "vout tx" "acc\<lparr>ca_view := c1\<rparr>" acc1] that by auto
  next
    case False
    then have "acc1 = acc\<lparr>ca_view := c1\<rparr>" using x(1) by simp
    then show ?thesis by (intro that [of "ca_mints acc"]) simp
  qed
  have i1: "cache_inv abs has inv (ca_view acc1)" "cache_abs abs (ca_view acc1) = ?A"
      "\<forall>i \<in> set (vin tx). utxo_output (cache_abs abs (ca_view acc1)) (prevout i) \<noteq> None" using m c1 by simp_all
  obtain c f where v: "cache_inv abs has inv c" "cache_abs abs c = ?A"
      "acc2 = acc1\<lparr>ca_nFees := f, ca_nValueIn := wrap64 (ca_nValueIn acc1 + in_sum ?A tx), ca_view := c\<rparr>"
      "if IsCoinStake tx then f = ca_nFees acc1 else \<exists>out. GetValueOut tx = Some out \<and> f = wrap64 (ca_nFees acc1 + (in_sum ?A tx - out))"
    using connect_value_ok [OF i1(1) assms(2) i1(3) x(2), unfolded i1(2)] by blast
  have c2: "cache_inv abs has inv c2" "cache_abs abs c2 = ?A" using sigop_cost [of c] x(3) v by auto
  have ci: "cache_inv abs has inv c3" "cache_abs abs c3 = ?A"
      "\<exists>k. \<forall>i \<in> set (vin tx). input_ok (ce_params env) (k + 1) ?A i"
      "sum_list (map (input_value ?A) (vin tx)) \<le> MaxMoneyOut (ce_params env)"
      "\<not> IsCoinStake tx \<longrightarrow> sum_list (map nValue (vout tx)) \<le> sum_list (map (input_value ?A) (vin tx))"
    using check_inputs_ok [OF c2(1) assms(2) P o x(4)] c2(2) by auto
  have "0 \<le> input_value ?A i" if "i \<in> set (vin tx)" for i
    using ci(3) that by (auto simp: input_ok_def input_value_def)
  then have nn: "0 \<le> in_sum ?A tx" by (auto simp: in_sum_def intro!: sum_list_nonneg)
  have "GetValueOut tx = Some out \<Longrightarrow> out = out_sum tx" for out
    using GetValueOut_correct [OF o] by (simp add: out_sum_def split: if_splits)
  then have f: "wrap64 f = wrap64 (ca_nFees acc + (if IsCoinStake tx then 0 else in_sum ?A tx - out_sum tx))"
    using v(4) m by (auto split: if_splits)
  have "input_value ?A i = nValue (the (outputs ?A (prevout i)))" if "i \<in> set (vin tx)" for i
    using c1(3) that by (auto simp: input_value_def utxo_output_outputs split: option.splits if_splits)
  then have sv: "spent_value (outputs ?A) tx = in_sum ?A tx" by (simp add: in_sum_def spent_value_def cong: map_cong)
  show ?thesis using ci nn f v(3) m x(5) assms(2) sv by (simp add: in_sum_def out_sum_def)
qed

lemma connect_tx_ok:
  assumes i: "cache_inv abs has inv (ca_view acc)" and P: "0 \<le> MaxMoneyOut (ce_params env)" "MaxMoneyOut (ce_params env) < 2 ^ 62"
    and o: "\<forall>out \<in> set (vout tx). nValue out < 2 ^ 63" and r: "connect_tx nv env V fl fs time h k tx acc = Inr acc'"
  shows "\<exists>us. update_abs (nv_hashes nv) h tx (cache_abs abs (ca_view acc)) = Some (us, cache_abs abs (ca_view acc')) \<and>
    cache_inv abs has inv (ca_view acc') \<and> ca_undo acc' = ca_undo acc @ (if k > 0 then [us] else []) \<and>
    (\<forall>out \<in> set (vout tx). 0 \<le> nValue out) \<and>
    (\<not> IsZerocoinSpend_tx tx \<longrightarrow>
      wrap64 (ca_nValueOut acc') = wrap64 (ca_nValueOut acc + out_sum tx) \<and>
      wrap64 (ca_nValueIn acc') = wrap64 (ca_nValueIn acc + in_sum (cache_abs abs (ca_view acc)) tx) \<and>
      wrap64 (ca_nFees acc') = wrap64 (ca_nFees acc + (if mints tx then 0 else in_sum (cache_abs abs (ca_view acc)) tx - out_sum tx)) \<and>
      0 \<le> in_sum (cache_abs abs (ca_view acc)) tx \<and> in_sum (cache_abs abs (ca_view acc)) tx \<le> MaxMoneyOut (ce_params env) \<and>
      (\<not> mints tx \<longrightarrow> out_sum tx \<le> in_sum (cache_abs abs (ca_view acc)) tx) \<and>
      spent_value (outputs (cache_abs abs (ca_view acc))) tx = in_sum (cache_abs abs (ca_view acc)) tx)"
proof -
  let ?A = "cache_abs abs (ca_view acc)" and ?txid = "tx_GetHash (nv_hashes nv) tx"
  let ?first = "if IsZerocoinSpend_tx tx then connect_zerocoin env h tx ?txid acc
      else if \<not> IsCoinBase tx then connect_inputs nv env V fl fs tx ?txid acc else Inr acc"
  obtain acc1 where a1: "?first = Inr acc1" using r by (cases ?first) (simp_all add: connect_tx_def Let_def split: if_splits)
  obtain v us c where x: "GetValueOut tx = Some v" "UpdateCoins V (nv_hashes nv) tx h (ca_view acc1) = Some (us, c)"
      "acc' = acc1\<lparr>ca_nValueOut := wrap64 (ca_nValueOut acc1 + v), ca_view := c, ca_undo := ca_undo acc1 @ (if k > 0 then [us] else [])\<rparr>"
    using r a1 unfolding connect_tx_def Let_def vbind_def by (auto split: option.splits if_splits)
  have v: "v = out_sum tx" "\<forall>out \<in> set (vout tx). 0 \<le> nValue out"
    using x(1) GetValueOut_correct [OF o] by (simp_all add: out_sum_def split: if_splits)
  have acc1: "cache_inv abs has inv (ca_view acc1) \<and> cache_abs abs (ca_view acc1) = ?A \<and> ca_undo acc1 = ca_undo acc \<and>
     (\<not> IsZerocoinSpend_tx tx \<longrightarrow> ca_nValueOut acc1 = ca_nValueOut acc \<and>
      wrap64 (ca_nValueIn acc1) = wrap64 (ca_nValueIn acc + in_sum ?A tx) \<and>
      wrap64 (ca_nFees acc1) = wrap64 (ca_nFees acc + (if mints tx then 0 else in_sum ?A tx - out_sum tx)) \<and>
      0 \<le> in_sum ?A tx \<and> in_sum ?A tx \<le> MaxMoneyOut (ce_params env) \<and> (\<not> mints tx \<longrightarrow> out_sum tx \<le> in_sum ?A tx) \<and>
      spent_value (outputs ?A) tx = in_sum ?A tx)"
  proof (cases "has_inputs tx")
    case True
    then have z: "\<not> IsCoinBase tx" "\<not> IsZerocoinSpend_tx tx" by (simp_all add: has_inputs_def)
    then have "connect_inputs nv env V fl fs tx ?txid acc = Inr acc1" using a1 by simp
    from connect_inputs_ok [OF i True P o this] show ?thesis unfolding mints_def using z by auto
  next
    case False
    then show ?thesis using a1 connect_zerocoin_Inr [of env h tx ?txid acc acc1] i P
      by (auto simp: in_sum_def spent_value_def mints_def has_inputs_def split: if_splits)
  qed
  have u: "update_abs (nv_hashes nv) h tx ?A = Some (us, cache_abs abs c) \<and> cache_inv abs has inv c"
    using UpdateCoins_abs [OF conjunct1 [OF acc1], of "nv_hashes nv" tx h] acc1 x(2) by (auto split: option.splits)
  then show ?thesis using acc1 v x(3) by simp
qed

text \<open>The transactions of a block one after the other: the undo records, and what becomes of the values.\<close>

lemma connect_loop_view:
  assumes "cache_inv abs has inv (ca_view acc)" and P: "0 \<le> MaxMoneyOut (ce_params env)" "MaxMoneyOut (ce_params env) < 2 ^ 62"
    and "\<forall>tx \<in> set txs. \<forall>out \<in> set (vout tx). nValue out < 2 ^ 63" and "connect_loop nv env V fl fs time h k txs acc = Inr acc'"
  shows "\<exists>uss. connect_abs (nv_hashes nv) h txs (cache_abs abs (ca_view acc)) = Some (uss, cache_abs abs (ca_view acc')) \<and>
    cache_inv abs has inv (ca_view acc') \<and> ca_undo acc' = ca_undo acc @ (if k > 0 then uss else tl uss) \<and>
    (\<forall>tx \<in> set txs. \<forall>out \<in> set (vout tx). 0 \<le> nValue out)"
  using assms
proof (induction txs arbitrary: acc k)
  case (Cons tx txs)
  obtain acc1 where a: "connect_tx nv env V fl fs time h k tx acc = Inr acc1" "connect_loop nv env V fl fs time h (k + 1) txs acc1 = Inr acc'"
    using Cons.prems(5) by auto
  have o: "\<forall>out \<in> set (vout tx). nValue out < 2 ^ 63" "\<forall>tx \<in> set txs. \<forall>out \<in> set (vout tx). nValue out < 2 ^ 63" using Cons.prems(4) by simp_all
  obtain us where us: "update_abs (nv_hashes nv) h tx (cache_abs abs (ca_view acc)) = Some (us, cache_abs abs (ca_view acc1))"
      "cache_inv abs has inv (ca_view acc1)" "ca_undo acc1 = ca_undo acc @ (if k > 0 then [us] else [])" "\<forall>out \<in> set (vout tx). 0 \<le> nValue out"
    using connect_tx_ok [OF Cons.prems(1) P o(1) a(1)] by blast
  obtain uss where "connect_abs (nv_hashes nv) h txs (cache_abs abs (ca_view acc1)) = Some (uss, cache_abs abs (ca_view acc'))"
    "cache_inv abs has inv (ca_view acc')" "ca_undo acc' = ca_undo acc1 @ uss" "\<forall>tx \<in> set txs. \<forall>out \<in> set (vout tx). 0 \<le> nValue out"
    using Cons.IH [OF us(2) P o(2) a(2)] by auto
  then show ?case using us by simp
qed simp

lemma connect_loop_values:
  assumes "cache_inv abs has inv (ca_view acc)" and P: "0 \<le> MaxMoneyOut (ce_params env)" "MaxMoneyOut (ce_params env) < 2 ^ 62"
    and "\<forall>tx \<in> set txs. (\<forall>out \<in> set (vout tx). nValue out < 2 ^ 63) \<and> length (vout tx) \<le> 2 ^ 32 \<and> \<not> IsZerocoinSpend_tx tx"
    and "finite (dom (cache_abs abs (ca_view acc)))" and "distinct (map (tx_GetHash (nv_hashes nv)) txs)"
    and "\<forall>tx \<in> set txs. cache_abs abs (ca_view acc) (tx_GetHash (nv_hashes nv) tx) = None"
    and "connect_loop nv env V fl fs time h k txs acc = Inr acc'"
  shows "\<exists>ins outs fees minted.
    wrap64 (ca_nValueOut acc') = wrap64 (ca_nValueOut acc + outs) \<and> wrap64 (ca_nValueIn acc') = wrap64 (ca_nValueIn acc + ins) \<and>
    wrap64 (ca_nFees acc') = wrap64 (ca_nFees acc + fees) \<and> 0 \<le> fees \<and> outs - ins + fees = minted \<and>
    minted \<le> sum_list (map out_sum (filter mints txs)) \<and>
    - (int (length (filter IsCoinStake txs)) * MaxMoneyOut (ce_params env)) \<le> minted \<and>
    total (outputs (cache_abs abs (ca_view acc'))) \<le> total (outputs (cache_abs abs (ca_view acc))) + minted - fees"
  using assms
proof (induction txs arbitrary: acc k)
  case Nil
  then show ?case by (intro exI [of _ 0]) simp
next
  case (Cons tx txs)
  let ?A = "cache_abs abs (ca_view acc)" and ?hs = "nv_hashes nv"
  obtain acc1 where a: "connect_tx nv env V fl fs time h k tx acc = Inr acc1" "connect_loop nv env V fl fs time h (k + 1) txs acc1 = Inr acc'"
    using Cons.prems(8) by auto
  have tx: "\<forall>out \<in> set (vout tx). nValue out < 2 ^ 63" "length (vout tx) \<le> 2 ^ 32" "\<not> IsZerocoinSpend_tx tx" "?A (tx_GetHash ?hs tx) = None"
    and txs: "\<forall>tx \<in> set txs. (\<forall>out \<in> set (vout tx). nValue out < 2 ^ 63) \<and> length (vout tx) \<le> 2 ^ 32 \<and> \<not> IsZerocoinSpend_tx tx"
      "distinct (map (tx_GetHash ?hs) txs)"
    using Cons.prems(4,6,7) by simp_all
  obtain us where us: "update_abs ?hs h tx ?A = Some (us, cache_abs abs (ca_view acc1))" "cache_inv abs has inv (ca_view acc1)"
      "\<forall>out \<in> set (vout tx). 0 \<le> nValue out" "wrap64 (ca_nValueOut acc1) = wrap64 (ca_nValueOut acc + out_sum tx)"
      "wrap64 (ca_nValueIn acc1) = wrap64 (ca_nValueIn acc + in_sum ?A tx)"
      "wrap64 (ca_nFees acc1) = wrap64 (ca_nFees acc + (if mints tx then 0 else in_sum ?A tx - out_sum tx))"
      "0 \<le> in_sum ?A tx" "in_sum ?A tx \<le> MaxMoneyOut (ce_params env)" "\<not> mints tx \<longrightarrow> out_sum tx \<le> in_sum ?A tx"
      "spent_value (outputs ?A) tx = in_sum ?A tx"
    using connect_tx_ok [OF Cons.prems(1) P tx(1) a(1)] tx(3) by blast
  have cb: "in_sum ?A tx = 0" if "mints tx" "\<not> IsCoinStake tx" using that by (simp add: mints_def in_sum_def has_inputs_def)
  have t: "total (outputs (cache_abs abs (ca_view acc1))) = total (outputs ?A) - in_sum ?A tx + spendable_value tx"
      "finite (dom (cache_abs abs (ca_view acc1)))"
    using total_update [OF us(1) Cons.prems(5) tx(4,2)] us(10) by auto
  have sp: "spendable_value tx \<le> out_sum tx" unfolding spendable_value_def out_sum_def by (intro sum_list_mono) (use us(3) in auto)
  have o0: "0 \<le> out_sum tx" using us(3) by (auto simp: out_sum_def intro!: sum_list_nonneg)
  have new: "\<forall>tx' \<in> set txs. cache_abs abs (ca_view acc1) (tx_GetHash ?hs tx') = None"
  proof
    fix tx' assume m: "tx' \<in> set txs"
    then have "tx_GetHash ?hs tx' \<noteq> tx_GetHash ?hs tx" using Cons.prems(6) by (metis distinct.simps(2) image_eqI list.map(2) set_map)
    then show "cache_abs abs (ca_view acc1) (tx_GetHash ?hs tx') = None" using update_abs_other [OF us(1)] Cons.prems(7) m by simp
  qed
  obtain ins outs fees minted where r:
      "wrap64 (ca_nValueOut acc') = wrap64 (ca_nValueOut acc1 + outs)" "wrap64 (ca_nValueIn acc') = wrap64 (ca_nValueIn acc1 + ins)"
      "wrap64 (ca_nFees acc') = wrap64 (ca_nFees acc1 + fees)" "0 \<le> fees" "outs - ins + fees = minted"
      "minted \<le> sum_list (map out_sum (filter mints txs))" "- (int (length (filter IsCoinStake txs)) * MaxMoneyOut (ce_params env)) \<le> minted"
      "total (outputs (cache_abs abs (ca_view acc'))) \<le> total (outputs (cache_abs abs (ca_view acc1))) + minted - fees"
    using Cons.IH [OF us(2) P txs(1) t(2) txs(2) new a(2)] by blast
  let ?f = "if mints tx then 0 else in_sum ?A tx - out_sum tx" and ?m = "if mints tx then out_sum tx - in_sum ?A tx else 0"
  have w: "wrap64 (ca_nValueOut acc') = wrap64 (ca_nValueOut acc + (out_sum tx + outs))"
    "wrap64 (ca_nValueIn acc') = wrap64 (ca_nValueIn acc + (in_sum ?A tx + ins))" "wrap64 (ca_nFees acc') = wrap64 (ca_nFees acc + (?f + fees))"
    using r(1-3) us(4-6) by (metis wrap64_wrap(1) add.assoc)+
  have "0 \<le> ?f + fees" "out_sum tx + outs - (in_sum ?A tx + ins) + (?f + fees) = ?m + minted"
    "total (outputs (cache_abs abs (ca_view acc'))) \<le> total (outputs ?A) + (?m + minted) - (?f + fees)"
    using r(4,5,8) us(9) t(1) sp by (auto split: if_splits)
  moreover have "?m + minted \<le> sum_list (map out_sum (filter mints (tx # txs)))" using r(6) us(7) by simp
  moreover have "- (int (length (filter IsCoinStake (tx # txs))) * MaxMoneyOut (ce_params env)) \<le> ?m + minted"
    using r(7) us(8) o0 cb P(1) by (cases "IsCoinStake tx") (auto simp: mints_def algebra_simps)
  ultimately show ?case using w by blast
qed

end

section \<open>A block that connects\<close>

lemma ConnectBlock_Inr:
  assumes "ConnectBlock nv env V fJustCheck fAlreadyChecked b view st = (Inr (s', undo), st')" and "CBlock_GetHash (nv_quark nv) b \<noteq> ce_genesis env"
  obtains best view1 c acc p ps where "GetBestBlock V view = (best, view1)" "best = ci_prevHash (cs_index st)"
    "(if fEnforceBIP30 (cs_index st) then bip30_loop V (nv_hashes nv) (vtx b) view1 else Inr view1) = Inr c"
    "connect_loop nv env V (block_flags nv b (cs_index st))
       (int (CBlockIndex.nHeight (ci_block (cs_index st))) \<ge> GetTotalBlocksEstimate (ce_checkpointsEnabled env) (ce_checkpoints env))
       (CBlock_GetBlockTime b) (int (CBlockIndex.nHeight (ci_block (cs_index st)))) 0 (vtx b) (connect_acc_new c) = Inr acc"
    "ci_ancestors (cs_index st) = p # ps" "check_mint nv env b (supply_of (cs_index st) acc) acc = Inr ()" "undo = ca_undo acc"
    "s' = (if fJustCheck then ca_view acc else SetBestBlock (phashBlock (ci_block (cs_index st))) (ca_view acc))"
proof -
  let ?ci = "cs_index st"
  obtain best view1 where g: "GetBestBlock V view = (best, view1)" by force
  obtain rej where ck: "(if fAlreadyChecked then (Inr (), cs_rejected st) else CheckBlock nv (\<not> fJustCheck) b (cs_rejected st)) = (Inr (), rej)"
    using assms(1) by (auto simp: ConnectBlock_def split: prod.splits sum.splits)
  let ?st = "st\<lparr>cs_rejected := rej\<rparr>"
  have body: "connect_body nv env V fJustCheck b view1 ?st = (Inr (s', undo), st')" "(if ci_ancestors ?ci = [] then 0 else ci_prevHash ?ci) = best"
    using assms unfolding ConnectBlock_def ck g by (simp_all add: Let_def reject_def split: if_splits)
  let ?bip = "if fEnforceBIP30 ?ci then bip30_loop V (nv_hashes nv) (vtx b) view1 else Inr view1"
  obtain c where c: "?bip = Inr c"
    using body(1) by (cases ?bip) (simp_all add: connect_body_def Let_def)
  let ?loop = "connect_loop nv env V (block_flags nv b ?ci)
       (int (CBlockIndex.nHeight (ci_block ?ci)) \<ge> GetTotalBlocksEstimate (ce_checkpointsEnabled env) (ce_checkpoints env))
       (CBlock_GetBlockTime b) (int (CBlockIndex.nHeight (ci_block ?ci))) 0 (vtx b) (connect_acc_new c)"
  obtain acc where acc: "?loop = Inr acc"
    using body(1) c by (cases ?loop) (simp_all add: connect_body_def Let_def)
  have m: "check_mint nv env b (supply_of ?ci acc) acc = Inr ()"
    using body(1) c acc by (cases "check_mint nv env b (supply_of ?ci acc) acc") (simp_all add: connect_body_def Let_def)
  obtain p ps where p: "ci_ancestors ?ci = p # ps"
    using m by (cases "ci_ancestors ?ci") (simp_all add: check_mint_def supply_of_def Let_def)
  have r: "(if fJustCheck then (Inr (ca_view acc, ca_undo acc), ?st\<lparr>cs_index := supply_of ?ci acc\<rparr>)
      else connect_write nv env b acc (?st\<lparr>cs_index := supply_of ?ci acc\<rparr>)) = (Inr (s', undo), st')"
    using body(1) c acc m by (simp add: connect_body_def Let_def)
  have raise: "phashBlock (RaiseValidity x y) = phashBlock y" for x y by (simp add: RaiseValidity_def)
  have w: "s' = SetBestBlock (phashBlock (ci_block ?ci)) (ca_view acc) \<and> undo = ca_undo acc" if "\<not> fJustCheck"
    using r that by (auto simp: connect_write_def write_undo_def supply_of_def Let_def raise split: sum.splits prod.splits if_splits)
  show thesis by (rule that [OF g _ c acc p m]) (use body(2) p r w in \<open>auto split: if_splits\<close>)
qed

text \<open>Whether the mint of a block is compared with the reward at all.\<close>

definition value_checked :: "node_view \<Rightarrow> CBlock \<Rightarrow> bool" where
  "value_checked nv b \<longleftrightarrow> nv_tip nv \<noteq> None \<and>
     (if nv_synced nv then \<not> (IsSporkActive nv SPORK_13_ENABLE_SUPERBLOCKS \<and> nv_budgetBlock nv (height_of nv b))
      else \<not> height_of nv b mod nv_budgetCycle nv < 100)"

lemma IsBlockValueValid_checked: "value_checked nv b \<Longrightarrow> IsBlockValueValid nv b e m \<longleftrightarrow> m \<le> e"
  by (auto simp: value_checked_def IsBlockValueValid_def Let_def split: if_splits)

lemma SetBestBlock_keeps [simp]:
  "cache_inv ab hs iv (SetBestBlock h c) = cache_inv ab hs iv c" "cache_abs ab (SetBestBlock h c) = cache_abs ab c"
  by (simp_all add: SetBestBlock_def cache_inv_def cache_abs_def)

lemma minted_value:
  assumes "wrap64 vo = wrap64 outs" "wrap64 vi = wrap64 ins" "wrap64 vf = wrap64 fees" "outs - ins + fees = minted"
    and "- (2 ^ 63) \<le> minted" "minted < 2 ^ 63"
  shows "wrap64 (wrap64 (prev + vo - vi) - prev + vf) = minted"
proof -
  have d: "2 ^ 64 dvd vo - outs" "2 ^ 64 dvd vi - ins" "2 ^ 64 dvd vf - fees" "2 ^ 64 dvd wrap64 (prev + vo - vi) - (prev + vo - vi)"
    using assms(1-3) wrap64_mod unfolding wrap64_cong by (metis mod_eq_dvd_iff)+
  have "2 ^ 64 dvd (wrap64 (prev + vo - vi) - (prev + vo - vi)) + (vo - outs) - (vi - ins) + (vf - fees)"
    by (rule dvd_add [OF dvd_diff [OF dvd_add [OF d(4,1)] d(2)] d(3)])
  then have "2 ^ 64 dvd (wrap64 (prev + vo - vi) - prev + vf) - (outs - ins + fees)" by (simp add: algebra_simps)
  then have "wrap64 (wrap64 (prev + vo - vi) - prev + vf) = wrap64 (outs - ins + fees)" by (simp only: wrap64_cong mod_eq_dvd_iff)
  then show ?thesis using assms(4-6) by (simp add: wrap64_id)
qed

text \<open>C4: A block that connects adds no more than its reward to the sum of the unspent values, whatever the fees and the stakes it moves.  This holds
  for a block without zerocoin spends whose mint is compared with the reward, when the coinbase and the coinstakes pay less than 2^63 in total
  and there is at most one coinstake; the code itself checks neither of the last two.\<close>

theorem ConnectBlock_supply:
  assumes i: "block_inv s" and fin: "finite (dom (block_abs s))"
    and P: "0 \<le> MaxMoneyOut (ce_params env)" "MaxMoneyOut (ce_params env) < 2 ^ 62"
    and txs: "\<forall>tx \<in> set (vtx b). (\<forall>out \<in> set (vout tx). nValue out < 2 ^ 63) \<and> length (vout tx) \<le> 2 ^ 32 \<and> \<not> IsZerocoinSpend_tx tx"
    and distinct: "distinct (map (tx_GetHash (nv_hashes nv)) (vtx b))" and bip30: "fEnforceBIP30 (cs_index st)"
    and minted: "sum_list (map out_sum (filter mints (vtx b))) < 2 ^ 63" "length (filter IsCoinStake (vtx b)) \<le> 1"
    and checked: "value_checked nv b" "ix_nHeight (hd (ci_ancestors (cs_index st))) \<noteq> 84702"
    and genesis: "CBlock_GetHash (nv_quark nv) b \<noteq> ce_genesis env"
    and conn: "ConnectBlock nv env tip_view fJustCheck fAlreadyChecked b s st = (Inr (s', undo), st')"
  shows "block_inv s' \<and>
    total (outputs (block_abs s')) \<le> total (outputs (block_abs s)) +
      GetBlockValue (ce_testnet env) (vUpgrades (nv_params nv)) (ix_nHeight (hd (ci_ancestors (cs_index st))))"
proof -
  let ?ci = "cs_index st" and ?hs = "nv_hashes nv"
  let ?reward = "GetBlockValue (ce_testnet env) (vUpgrades (nv_params nv)) (ix_nHeight (hd (ci_ancestors ?ci)))"
  obtain best s1 c acc p ps where c: "GetBestBlock tip_view s = (best, s1)" "bip30_loop tip_view ?hs (vtx b) s1 = Inr c"
      "connect_loop nv env tip_view (block_flags nv b ?ci)
       (int (CBlockIndex.nHeight (ci_block ?ci)) \<ge> GetTotalBlocksEstimate (ce_checkpointsEnabled env) (ce_checkpoints env))
       (CBlock_GetBlockTime b) (int (CBlockIndex.nHeight (ci_block ?ci))) 0 (vtx b) (connect_acc_new c) = Inr acc"
      "ci_ancestors ?ci = p # ps" "check_mint nv env b (supply_of ?ci acc) acc = Inr ()"
      "s' = (if fJustCheck then ca_view acc else SetBestBlock (phashBlock (ci_block ?ci)) (ca_view acc))"
    using ConnectBlock_Inr [OF conn genesis] bip30 by (metis (no_types, lifting))
  have s1: "block_inv s1" "block_abs s1 = block_abs s" using tipv.cache_best [OF i c(1)] by auto
  have c1: "block_inv c" "block_abs c = block_abs s" "\<forall>tx \<in> set (vtx b). block_abs s (tx_GetHash ?hs tx) = None"
    using tipv.bip30_loop_Inr [OF s1(1) c(2)] s1(2) by auto
  have acc0: "ca_view (connect_acc_new c) = c" "ca_nValueOut (connect_acc_new c) = 0" "ca_nValueIn (connect_acc_new c) = 0"
      "ca_nFees (connect_acc_new c) = 0" by (simp_all add: connect_acc_new_def)
  have prems: "block_inv (ca_view (connect_acc_new c))" "finite (dom (block_abs (ca_view (connect_acc_new c))))"
      "\<forall>tx \<in> set (vtx b). block_abs (ca_view (connect_acc_new c)) (tx_GetHash ?hs tx) = None"
    using c1 fin by (simp_all add: acc0)
  have o: "\<forall>tx \<in> set (vtx b). \<forall>out \<in> set (vout tx). nValue out < 2 ^ 63" using txs by blast
  have inv: "block_inv s'" using tipv.connect_loop_view [OF prems(1) P o c(3)] c(6) by auto
  obtain ins outs fees m where v: "wrap64 (ca_nValueOut acc) = wrap64 outs" "wrap64 (ca_nValueIn acc) = wrap64 ins"
      "wrap64 (ca_nFees acc) = wrap64 fees" "0 \<le> fees" "outs - ins + fees = m" "m \<le> sum_list (map out_sum (filter mints (vtx b)))"
      "- (int (length (filter IsCoinStake (vtx b))) * MaxMoneyOut (ce_params env)) \<le> m"
      "total (outputs (block_abs (ca_view acc))) \<le> total (outputs (block_abs s)) + m - fees"
    using tipv.connect_loop_values [OF prems(1) P txs prems(2) distinct prems(3) c(3)] c1(2) by (auto simp: acc0)
  have "- (2 ^ 62) \<le> m"
  proof -
    have "int (length (filter IsCoinStake (vtx b))) * MaxMoneyOut (ce_params env) \<le> 1 * MaxMoneyOut (ce_params env)"
      using minted(2) P(1) by (intro mult_right_mono) simp_all
    then show ?thesis using v(7) P(2) by linarith
  qed
  then have "wrap64 (wrap64 (q + ca_nValueOut acc - ca_nValueIn acc) - q + ca_nFees acc) = m" for q
    using minted_value [OF v(1-3,5)] v(6) minted(1) by simp
  then have mint: "ci_nMint (supply_of ?ci acc) = m" by (simp add: supply_of_def Let_def)
  have anc: "ci_ancestors (supply_of ?ci acc) = p # ps" using c(4) by (simp add: supply_of_def Let_def)
  have "m \<le> (if IsProofOfWork b then wrap64 (?reward + ca_nFees acc) else ?reward)"
    using c(5) checked(2) IsBlockValueValid_checked [OF checked(1)]
    by (auto simp: check_mint_def anc mint c(4) Let_def split: if_splits)
  moreover have "wrap64 (?reward + ca_nFees acc) \<le> ?reward + fees"
  proof -
    have "wrap64 (?reward + ca_nFees acc) = wrap64 (?reward + fees)" using v(3) by (metis wrap64_wrap(2))
    also have "\<dots> \<le> ?reward + fees"
      using v(4) by (intro wrap64_le) (simp add: GetBlockValue_def COIN_def Let_def)
    finally show ?thesis .
  qed
  ultimately have "m - fees \<le> ?reward" using v(4) by (auto split: if_splits)
  then have "total (outputs (block_abs (ca_view acc))) \<le> total (outputs (block_abs s)) + ?reward" using v(8) by linarith
  then show ?thesis using inv c(6) by simp
qed

text \<open>A node, and blocks of a coinbase and a coinstake that spends the output of value 7 of the sample database and pays another value.\<close>

definition quark_zero :: quark_hashes where
  "quark_zero = \<lparr>blake512 = \<lambda>_. replicate 64 0, bmw512 = \<lambda>_. replicate 64 0, groestl512 = \<lambda>_. replicate 64 0, jh512 = \<lambda>_. replicate 64 0,
     keccak512 = \<lambda>_. replicate 64 0, skein512 = \<lambda>_. replicate 64 0\<rparr>"

lemma quark_zero_hash: "CBlock_GetHash quark_zero b = 0"
proof -
  have "le_val (replicate n 0) = 0" for n by (induction n) simp_all
  then show ?thesis by (simp add: CBlock_GetHash_def HashQuark_def quark_zero_def uint512_of_def trim256_def)
qed

definition mint_node :: node_view where
  "mint_node = sample_node\<lparr>nv_quark := quark_zero, nv_sporks := (\<lambda>i. if i = SPORK_21_SEGWIT_ON_COINBASE then Some 1 else None), nv_index := (\<lambda>h. if h = 3 then Some 2000 else None)\<rparr>"

definition mint_env :: connect_env where
  "mint_env = \<lparr>ce_ec = (\<lambda>_ _ _. False), ce_params = sample_params\<lparr>MaxMoneyOut := 30000000 * COIN\<rparr>, ce_genesis = 1, ce_testnet = False, ce_checkpointsEnabled = True,
     ce_checkpoints = [(0, 0)], ce_scriptThreads = False, ce_inChain = (\<lambda>_. None), ce_verifying = False, ce_denomination = (\<lambda>_. 0),
     ce_spendOk = (\<lambda>_ _. False), ce_toPublicCoin = (\<lambda>_. False), ce_mintOk = (\<lambda>_ _. False), ce_accumulatorOk = True, ce_findUndoPos = True,
     ce_writeUndo = True, ce_writeSpend = (\<lambda>_. True), ce_writeMint = (\<lambda>_. True), ce_writeTxIndex = True, ce_writeAddrIndex = True\<rparr>"

definition mint_index :: connect_index where
  "mint_index = \<lparr>ci_block = \<lparr>phashBlock = 4, pprev = Some 1, pskip = None, CBlockIndex.nHeight = 2001, nChainWork = 1, nTx = 2, nChainTx = 2,
     nStatus = 3, nSequenceId = 0, block_nTime = 9\<rparr>, ci_hasHash = True, ci_ancestors = [sample_tip], ci_prevHash = 3, ci_prevMoneySupply = 7,
     ci_nMoneySupply = 0, ci_nMint = 0, ci_hasUndoPos = False\<rparr>"

definition mint_state :: connect_state where
  "mint_state = \<lparr>cs_index = mint_index, cs_rejected = Map.empty, cs_stakeSpent = Map.empty, cs_dirty = False\<rparr>"

abbreviation "mint_view \<equiv> CCoinsViewCache_new (CCoinsViewCache_new (sample_db\<lparr>db_best := Some 3\<rparr>))"

definition mint_txs :: "CTxOut list \<Rightarrow> int \<Rightarrow> CTransaction list" where
  "mint_txs outs v = [sample_coinbase\<lparr>vout := \<lparr>nValue = 0, scriptPubKey = [], nRounds = - 10\<rparr> # outs\<rparr>,
     stake_tx\<lparr>vout := [\<lparr>nValue = 0, scriptPubKey = [], nRounds = - 10\<rparr>, \<lparr>nValue = v, scriptPubKey = [0x51], nRounds = - 10\<rparr>]\<rparr>]"

definition mint_block :: "CTxOut list \<Rightarrow> int \<Rightarrow> CBlock" where
  "mint_block outs v =
     (let b = (stake_block [])\<lparr>vtx := mint_txs outs v\<rparr> in b\<lparr>hashMerkleRoot := fst (CBlock_BuildMerkleTree sum_hashes b)\<rparr>)"

definition mint_run :: "CTransaction list \<Rightarrow> (coins_db CCoinsViewCache) connect_acc option" where
  "mint_run txs =
     (case bip30_loop tip_view sum_hashes txs (snd (GetBestBlock tip_view mint_view)) of
        Inl _ \<Rightarrow> None
      | Inr c \<Rightarrow>
          (case connect_loop mint_node mint_env tip_view 0 True 9 2001 0 txs (connect_acc_new c) of Inl _ \<Rightarrow> None | Inr acc \<Rightarrow> Some acc))"

definition flood_out :: CTxOut where
  "flood_out = \<lparr>nValue = 9223372036854775807, scriptPubKey = commitment_header @ replicate 32 0, nRounds = - 10\<rparr>"

text \<open>Numbers that would be too large in unary, for evaluation.\<close>

lemma MAX_BLOCK_SIGOPS_COST_int [code_unfold]: "int MAX_BLOCK_SIGOPS_COST = 20000"
  by (simp add: MAX_BLOCK_SIGOPS_COST_def MAX_BLOCK_SIZE_def)

fun int_bytes :: "nat \<Rightarrow> int \<Rightarrow> bytes" where
  "int_bytes 0 x = []"
| "int_bytes (Suc n) x = of_int (x mod 256) # int_bytes n (x div 256)"

lemma le_bytes_int: "le_bytes n (nat (x mod 256 ^ n)) = int_bytes n x"
proof (induction n arbitrary: x)
  case (Suc n)
  let ?y = "x mod 256 ^ Suc n"
  have y: "0 \<le> ?y" by simp
  have m: "?y mod 256 = x mod 256" by (simp add: mod_mod_cancel)
  have d: "?y div 256 = x div 256 mod 256 ^ n" by (simp add: zmod_zmult2_eq)
  have "(of_nat (nat ?y mod 256) :: byte) = of_int (x mod 256)"
    using m y by (metis nat_mod_distrib nat_numeral of_nat_nat pos_mod_sign zero_le_numeral zero_less_numeral)
  moreover have "nat ?y div 256 = nat (x div 256 mod 256 ^ n)" using d y by (metis nat_div_distrib nat_numeral)
  ultimately show ?case using Suc.IH [of "x div 256"] by simp
qed simp

lemma WRITESIGNED_code [code]: "WRITESIGNED n x = int_bytes n x"
proof -
  have "nat (x mod 256 ^ n) = of_signed n x" by (simp add: of_signed_def)
  then show ?thesis using le_bytes_int [of n x] by (simp add: WRITESIGNED_def WRITEDATA_def)
qed

lemma fair_run:
  "map_option (\<lambda>acc. (ca_checks acc, ca_nFees acc, ca_nValueOut acc, ca_nValueIn acc, ca_spends acc, ca_mints acc)) (mint_run (mint_txs [] 100000007)) =
    Some ([], 0, 100000007, 7, [], [])"
  by code_simp

lemma flood_run:
  "map_option (\<lambda>acc. (ca_checks acc, ca_nFees acc, ca_nValueOut acc, ca_nValueIn acc, ca_spends acc, ca_mints acc)) (mint_run (mint_txs [flood_out] 3000000000000000)) =
    Some ([], 0, - 9220372036854775809, 7, [], [])"
  by code_simp

lemma mint_block_simps [simp]: "vtx (mint_block outs v) = mint_txs outs v" "CBlock_GetBlockTime (mint_block outs v) = 9"
  by (simp_all add: mint_block_def Let_def CBlock_GetBlockTime_def stake_block_def)

lemma mint_block_pos: "IsProofOfStake (mint_block outs v)"
  by (simp add: IsProofOfStake_def mint_txs_def IsCoinStake_def stake_tx_def CTxOut_IsEmpty_def COutPoint_IsNull_def)

lemma mint_block_flags: "block_flags mint_node (mint_block outs v) mint_index = 0"
  by (simp add: block_flags_def Let_def mint_index_def mint_node_def sample_node_def mainParams_def IsSuperMajority_count SCRIPT_VERIFY_NONE_def
      GetSporkValue_def spork_defaults_def SPORK_20_SEGWIT_ACTIVATION_def SPORK_21_SEGWIT_ON_COINBASE_def)

lemma mint_best: "\<exists>view1. GetBestBlock tip_view mint_view = (3, view1)"
proof -
  have "fst (GetBestBlock tip_view mint_view) = 3" by code_simp
  then show ?thesis by (cases "GetBestBlock tip_view mint_view") simp
qed

lemma mint_reward: "GetBlockValue False (vUpgrades mainParams) 2000 = COIN"
  by (simp add: GetBlockValue_def Let_def)

lemma mint_run_connects:
  assumes r: "map_option (\<lambda>acc. (ca_checks acc, ca_nFees acc, ca_nValueOut acc, ca_nValueIn acc, ca_spends acc, ca_mints acc)) (mint_run (mint_txs outs v)) =
      Some ([], 0, vo, 7, [], [])" and w: "wrap64 (vo - 7) \<le> COIN"
    and ck: "fAlreadyChecked \<or> fst (CheckBlock mint_node True (mint_block outs v) Map.empty) = Inr ()"
  shows "\<exists>s' undo st'. ConnectBlock mint_node mint_env tip_view False fAlreadyChecked (mint_block outs v) mint_view mint_state = (Inr (s', undo), st')"
proof -
  let ?b = "mint_block outs v"
  obtain acc where a: "mint_run (mint_txs outs v) = Some acc" "ca_checks acc = []" "ca_nFees acc = 0" "ca_nValueOut acc = vo" "ca_nValueIn acc = 7"
      "ca_spends acc = []" "ca_mints acc = []" using r by auto
  obtain view1 where best: "GetBestBlock tip_view mint_view = (3, view1)" using mint_best by blast
  obtain c where c: "bip30_loop tip_view sum_hashes (mint_txs outs v) view1 = Inr c"
      "connect_loop mint_node mint_env tip_view 0 True 9 2001 0 (mint_txs outs v) (connect_acc_new c) = Inr acc"
    using a(1) by (auto simp: mint_run_def best split: sum.splits)
  obtain rej where rej: "(if fAlreadyChecked then (Inr (), Map.empty) else CheckBlock mint_node (\<not> False) ?b Map.empty) = (Inr (), rej)"
    using ck by (cases fAlreadyChecked; cases "CheckBlock mint_node True ?b Map.empty") (metis fst_conv not_False_eq_True)+
  let ?st = "mint_state\<lparr>cs_rejected := rej\<rparr>"
  have idx: "cs_index ?st = mint_index" by (simp add: mint_state_def)
  have bip: "fEnforceBIP30 mint_index" by (simp add: fEnforceBIP30_def mint_index_def)
  have val: "IsBlockValueValid mint_node ?b COIN (ci_nMint (supply_of mint_index acc))"
    using w by (simp add: IsBlockValueValid_def supply_of_def Let_def a mint_index_def)
  have m: "check_mint mint_node mint_env ?b (supply_of mint_index acc) acc = Inr ()"
    using val mint_reward mint_block_pos [of outs v]
    by (simp add: check_mint_def supply_of_def Let_def a mint_index_def IsProofOfWork_def control_Wait_def)
      (simp add: mint_env_def sample_tip_def mint_node_def sample_node_def)
  have body: "\<exists>s' undo st'. connect_body mint_node mint_env tip_view False ?b view1 ?st = (Inr (s', undo), st')"
  proof -
    have f: "GetTotalBlocksEstimate (ce_checkpointsEnabled mint_env) (ce_checkpoints mint_env) \<le> int (CBlockIndex.nHeight (ci_block mint_index))"
      "int (CBlockIndex.nHeight (ci_block mint_index)) = 2001" "nv_hashes mint_node = sum_hashes"
      by (simp_all add: GetTotalBlocksEstimate_def mint_env_def mint_index_def mint_node_def sample_node_def)
    have w: "\<exists>s' undo st'. connect_write mint_node mint_env ?b acc st = (Inr (s', undo), st')" if "cs_index st = supply_of mint_index acc" for st
      using that by (simp add: connect_write_def write_undo_def write_indexes_def a Let_def supply_of_def)
        (simp add: mint_env_def mint_index_def)
    show ?thesis using c m bip f w by (simp add: connect_body_def idx mint_block_flags Let_def)
  qed
  have pos: "\<not> IsProofOfWork ?b" using mint_block_pos [of outs v] by (simp add: IsProofOfWork_def)
  have f: "cs_rejected mint_state = Map.empty" "cs_index mint_state = mint_index" "ci_ancestors mint_index \<noteq> []" "ci_prevHash mint_index = 3"
    "nv_quark mint_node = quark_zero" "ce_genesis mint_env = 1" "\<not> int (CBlockIndex.nHeight (ci_block mint_index)) \<le> LAST_POW_BLOCK (nv_params mint_node)"
    by (simp_all add: mint_state_def mint_index_def mint_node_def mint_env_def sample_node_def mainParams_def)
  show ?thesis using body pos unfolding ConnectBlock_def f(1) rej by (simp add: Let_def f best quark_zero_hash)
qed

lemma mint_view_ok: "block_inv mint_view" "block_abs mint_view = db_abs sample_db"
proof -
  have "db_abs (sample_db\<lparr>db_best := Some 3\<rparr>) = db_abs sample_db" by (simp add: db_abs_def [abs_def])
  then show "block_inv mint_view" "block_abs mint_view = db_abs sample_db"
    using tip_new [of "sample_db\<lparr>db_best := Some 3\<rparr>"] block_new [of "CCoinsViewCache_new (sample_db\<lparr>db_best := Some 3\<rparr>)"] by simp_all
qed

lemma sample_outputs:
  "outputs (db_abs sample_db) = [\<lparr>out_hash = 5, out_n = 0\<rparr> \<mapsto> \<lparr>nValue = 7, scriptPubKey = [0x51], nRounds = - 10\<rparr>]"
  "dom (db_abs sample_db) = {5}" "total (outputs (db_abs sample_db)) = 7"
proof -
  let ?cs = "sample_coins False\<lparr>coins_vout := [\<lparr>nValue = 7, scriptPubKey = [0x51], nRounds = - 10\<rparr>]\<rparr>"
  have p: "\<not> IsPruned ?cs" by code_simp
  have d: "db_abs sample_db t = (if t = 5 then Some ?cs else None)" for t using p by (simp add: db_abs_def sample_db_def)
  show o: "outputs (db_abs sample_db) = [\<lparr>out_hash = 5, out_n = 0\<rparr> \<mapsto> \<lparr>nValue = 7, scriptPubKey = [0x51], nRounds = - 10\<rparr>]"
  proof
    fix q :: COutPoint
    have q: "q = \<lparr>out_hash = 5, out_n = 0\<rparr> \<longleftrightarrow> out_hash q = 5 \<and> unat (out_n q) = 0" by (simp add: outpoint_eq)
    show "outputs (db_abs sample_db) q = ([\<lparr>out_hash = 5, out_n = 0\<rparr> \<mapsto> \<lparr>nValue = 7, scriptPubKey = [0x51], nRounds = - 10\<rparr>]) q"
      unfolding outputs_def d q fun_upd_apply by (auto simp: CTxOut_IsNull_def)
  qed
  show "dom (db_abs sample_db) = {5}" by (auto simp: d split: if_splits)
  show "total (outputs (db_abs sample_db)) = 7" by (simp add: o total_def)
qed

lemma ConnectBlock_supply_witness:
  "\<exists>s' undo st'. ConnectBlock mint_node mint_env tip_view False True (mint_block [] 100000007) mint_view mint_state = (Inr (s', undo), st') \<and>
    total (outputs (block_abs s')) \<le> 7 + COIN"
proof -
  let ?b = "mint_block [] 100000007"
  have w: "wrap64 (100000007 - 7) \<le> COIN" by (simp add: wrap64_def COIN_def)
  obtain s' undo st' where c: "ConnectBlock mint_node mint_env tip_view False True ?b mint_view mint_state = (Inr (s', undo), st')"
    using mint_run_connects [OF fair_run w, of True] by blast
  have fin: "finite (dom (block_abs mint_view))" unfolding mint_view_ok(2) sample_outputs(2) by simp
  have n: "nv_hashes mint_node = sum_hashes" "nv_quark mint_node = quark_zero" "ce_genesis mint_env = 1" "nv_params mint_node = mainParams"
    "ce_testnet mint_env = False" "0 \<le> MaxMoneyOut (ce_params mint_env)" "MaxMoneyOut (ce_params mint_env) < 2 ^ 62"
    "fEnforceBIP30 (cs_index mint_state)" "ci_ancestors (cs_index mint_state) = [sample_tip]" "ix_nHeight sample_tip = 2000"
    by (simp_all add: mint_node_def sample_node_def mint_env_def mint_state_def mint_index_def fEnforceBIP30_def COIN_def sample_tip_def)
  have z: "list_all (\<lambda>tx. \<not> IsZerocoinSpend_tx tx) (mint_txs [] 100000007)" "filter IsCoinStake (mint_txs [] 100000007) = [mint_txs [] 100000007 ! 1]"
    "sum_list (map out_sum (filter mints (mint_txs [] 100000007))) = 100000007" "distinct (map (tx_GetHash sum_hashes) (mint_txs [] 100000007))"
    by code_simp+
  have txs: "\<forall>tx \<in> set (vtx ?b). (\<forall>out \<in> set (vout tx). nValue out < 2 ^ 63) \<and> length (vout tx) \<le> 2 ^ 32 \<and> \<not> IsZerocoinSpend_tx tx"
    using z(1) by (simp add: mint_txs_def)
  have chk: "value_checked mint_node ?b"
  proof -
    have "\<not> IsSporkActive mint_node SPORK_13_ENABLE_SUPERBLOCKS" by code_simp
    then show ?thesis by (simp add: value_checked_def) (simp add: mint_node_def sample_node_def)
  qed
  have "total (outputs (block_abs s')) \<le> total (outputs (block_abs mint_view)) + GetBlockValue False (vUpgrades mainParams) 2000"
    using ConnectBlock_supply [OF mint_view_ok(1) fin n(6,7) txs _ n(8) _ _ chk _ _ c] z by (simp add: n quark_zero_hash)
  then show ?thesis using c mint_reward mint_view_ok(2) sample_outputs(3) by auto
qed

section \<open>Connecting and disconnecting a block\<close>

text \<open>C5: \<open>DisconnectBlock\<close> undoes \<open>ConnectBlock\<close>.  After a block connected, disconnecting it with the undo data that \<open>ConnectBlock\<close> handed to the disk,
  on any view with the same unspent set and best block, succeeds, finds the data clean and returns to the unspent set before, except for
  coinstake marks of transactions that the block spent from; when no spent coins are marked, the set is exactly the one before.
  That the outputs are not negative and overwrite no unspent coins is no assumption: \<open>ConnectBlock\<close> has checked it.\<close>

theorem ConnectBlock_DisconnectBlock:
  assumes i: "block_inv s" and wf: "utxos_wf (block_abs s)" and h: "0 < CBlockIndex.nHeight (ci_block (cs_index st))"
    and P: "0 \<le> MaxMoneyOut (ce_params env)" "MaxMoneyOut (ce_params env) < 2 ^ 62"
    and o: "\<forall>tx \<in> set (vtx b). \<forall>out \<in> set (vout tx). nValue out < 2 ^ 63"
    and distinct: "distinct (map (tx_GetHash (nv_hashes nv)) (vtx b))" and bip30: "fEnforceBIP30 (cs_index st)"
    and stake: "\<forall>tx \<in> set (vtx b). IsCoinStake tx \<longrightarrow> tx_GetHash (nv_hashes nv) tx \<notin> (\<Union>tx' \<in> set (vtx b). spent_hashes tx')"
    and cb: "vtx b \<noteq> []" "IsCoinBase (hd (vtx b))" and genesis: "CBlock_GetHash (nv_quark nv) b \<noteq> ce_genesis env"
    and conn: "ConnectBlock nv env tip_view False fAlreadyChecked b s st = (Inr (s', undo), st')"
    and s2: "block_inv s2" "block_abs s2 = block_abs s'" "fst (GetBestBlock tip_view s2) = phashBlock (ci_block (cs_index st))"
    and zc: "\<forall>tx \<in> set (vtx b). ContainsZerocoins tx \<longrightarrow> zc tx"
  shows "\<exists>s3. DisconnectBlock tip_view (nv_hashes nv) zc (int (CBlockIndex.nHeight (ci_block (cs_index st)))) (phashBlock (ci_block (cs_index st)))
      (ci_prevHash (cs_index st)) (vtx b) undo s2 = Inr (True, s3) \<and> block_inv s3 \<and> hashBlock s3 = ci_prevHash (cs_index st) \<and>
    lost_marks (\<Union>tx \<in> set (vtx b). spent_hashes tx) (block_abs s) (block_abs s3) \<and>
    ((\<forall>t cs. block_abs s t = Some cs \<and> t \<in> (\<Union>tx \<in> set (vtx b). spent_hashes tx) \<longrightarrow> \<not> fCoinStake cs) \<longrightarrow> block_abs s3 = block_abs s)"
proof -
  let ?ci = "cs_index st" and ?hs = "nv_hashes nv"
  let ?h = "int (CBlockIndex.nHeight (ci_block ?ci))"
  obtain best s1 c acc where c: "GetBestBlock tip_view s = (best, s1)" "bip30_loop tip_view ?hs (vtx b) s1 = Inr c"
      "connect_loop nv env tip_view (block_flags nv b ?ci) (?h \<ge> GetTotalBlocksEstimate (ce_checkpointsEnabled env) (ce_checkpoints env))
       (CBlock_GetBlockTime b) ?h 0 (vtx b) (connect_acc_new c) = Inr acc"
      "undo = ca_undo acc" "s' = SetBestBlock (phashBlock (ci_block ?ci)) (ca_view acc)"
    using ConnectBlock_Inr [OF conn genesis] bip30 by (metis (no_types, lifting))
  have s1: "block_inv s1" "block_abs s1 = block_abs s" using tipv.cache_best [OF i c(1)] by auto
  have c1: "block_inv c" "block_abs c = block_abs s" "\<forall>tx \<in> set (vtx b). block_abs c (tx_GetHash ?hs tx) = None"
    using tipv.bip30_loop_Inr [OF s1(1) c(2)] s1(2) by auto
  have acc0: "ca_view (connect_acc_new c) = c" "ca_undo (connect_acc_new c) = []" by (simp_all add: connect_acc_new_def)
  obtain uss where u: "connect_abs ?hs ?h (vtx b) (block_abs c) = Some (uss, block_abs (ca_view acc))" "ca_undo acc = tl uss"
      "\<forall>tx \<in> set (vtx b). \<forall>out \<in> set (vout tx). 0 \<le> nValue out"
    using tipv.connect_loop_view [OF _ P o c(3)] c1(1) by (auto simp: acc0)
  obtain c' where c': "connect_txs tip_view ?hs ?h (vtx b) c = Some (uss, c')" "block_abs c' = block_abs (ca_view acc)"
    using tipv.connect_txs_abs [OF c1(1), of ?hs ?h "vtx b"] u(1) by auto
  have nn: "\<forall>tx \<in> set (vtx b). \<forall>out \<in> set (vout tx). \<not> CTxOut_IsNull out" using u(3) by (force simp: CTxOut_IsNull_def)
  have wfc: "utxos_wf (block_abs c)" and h0: "0 < ?h" using wf c1(2) h by simp_all
  have abs2: "block_abs s2 = block_abs c'" using s2(2) c(5) c'(2) by simp
  show ?thesis
    using DisconnectBlock_undoes [OF c1(1) wfc h0 nn distinct c1(3) stake cb c'(1) s2(1) abs2 s2(3) zc, of "ci_prevHash ?ci"]
    unfolding c(4) u(2) c1(2) .
qed

lemma ConnectBlock_DisconnectBlock_witness:
  "\<exists>s' undo st' s3. ConnectBlock mint_node mint_env tip_view False True (mint_block [] 100000007) mint_view mint_state = (Inr (s', undo), st') \<and>
    DisconnectBlock tip_view sum_hashes (\<lambda>_. True) 2001 4 3 (mint_txs [] 100000007) undo s' = Inr (True, s3) \<and> block_abs s3 = db_abs sample_db"
proof -
  let ?b = "mint_block [] 100000007" and ?txs = "mint_txs [] 100000007"
  have w: "wrap64 (100000007 - 7) \<le> COIN" by (simp add: wrap64_def COIN_def)
  obtain s' undo st' where c: "ConnectBlock mint_node mint_env tip_view False True ?b mint_view mint_state = (Inr (s', undo), st')"
    using mint_run_connects [OF fair_run w, of True] by blast
  have n: "nv_hashes mint_node = sum_hashes" "nv_quark mint_node = quark_zero" "ce_genesis mint_env = 1"
    "0 \<le> MaxMoneyOut (ce_params mint_env)" "MaxMoneyOut (ce_params mint_env) < 2 ^ 62"
    "fEnforceBIP30 (cs_index mint_state)" "CBlockIndex.nHeight (ci_block (cs_index mint_state)) = 2001"
    "phashBlock (ci_block (cs_index mint_state)) = 4" "ci_prevHash (cs_index mint_state) = 3"
    by (simp_all add: mint_node_def sample_node_def mint_env_def mint_state_def mint_index_def fEnforceBIP30_def COIN_def)
  have g: "CBlock_GetHash (nv_quark mint_node) ?b \<noteq> ce_genesis mint_env" by (simp add: n quark_zero_hash)
  obtain d where d: "s' = SetBestBlock 4 d" using ConnectBlock_Inr [OF c g] n(8) by (metis (full_types))
  have best: "fst (GetBestBlock tip_view s') = 4" by (simp add: d GetBestBlock_def SetBestBlock_def)
  have inv: "block_inv s'"
  proof (rule ConnectBlock_Inr [OF c g])
    fix best view1 k acc p ps
    assume x: "GetBestBlock tip_view mint_view = (best, view1)"
      "(if fEnforceBIP30 (cs_index mint_state) then bip30_loop tip_view (nv_hashes mint_node) (vtx ?b) view1 else Inr view1) = Inr k"
      "connect_loop mint_node mint_env tip_view (block_flags mint_node ?b (cs_index mint_state))
       (int (CBlockIndex.nHeight (ci_block (cs_index mint_state))) \<ge> GetTotalBlocksEstimate (ce_checkpointsEnabled mint_env) (ce_checkpoints mint_env))
       (CBlock_GetBlockTime ?b) (int (CBlockIndex.nHeight (ci_block (cs_index mint_state)))) 0 (vtx ?b) (connect_acc_new k) = Inr acc"
      "s' = (if False then ca_view acc else SetBestBlock (phashBlock (ci_block (cs_index mint_state))) (ca_view acc))"
    have k: "block_inv k" using tipv.cache_best [OF mint_view_ok(1) x(1)] tipv.bip30_loop_Inr [of view1 _ "vtx ?b" k] x(2) n(6) by auto
    have o: "\<forall>tx \<in> set (vtx ?b). \<forall>out \<in> set (vout tx). nValue out < 2 ^ 63" by (simp add: mint_txs_def)
    show "block_inv s'" using tipv.connect_loop_view [OF _ n(4,5) o x(3)] k x(4) by (auto simp: connect_acc_new_def)
  qed
  have cs: "coins_wf (sample_coins False\<lparr>coins_vout := [\<lparr>nValue = 7, scriptPubKey = [0x51], nRounds = - 10\<rparr>]\<rparr>)" "IsCoinBase (hd ?txs)"
    "distinct (map (tx_GetHash sum_hashes) ?txs)" "list_all (\<lambda>tx. IsCoinStake tx \<longrightarrow> tx_GetHash sum_hashes tx \<noteq> 5) ?txs" by code_simp+
  have wf: "utxos_wf (block_abs mint_view)" and st: "block_abs mint_view t = Some k \<Longrightarrow> \<not> fCoinStake k" for t k
    using cs(1) unfolding mint_view_ok(2) by (auto simp: utxos_wf_def db_abs_def sample_db_def sample_coins_def unspent_def split: if_splits)
  have o: "\<forall>tx \<in> set (vtx ?b). \<forall>out \<in> set (vout tx). nValue out < 2 ^ 63" by (simp add: mint_txs_def)
  have sp: "(\<Union>tx \<in> set (vtx ?b). spent_hashes tx) \<subseteq> {5}"
  proof -
    have "has_inputs (hd ?txs) = False" by code_simp
    then show ?thesis by (auto simp: mint_txs_def spent_hashes_def stake_tx_def split: if_splits)
  qed
  have stake: "\<forall>tx \<in> set (vtx ?b). IsCoinStake tx \<longrightarrow> tx_GetHash (nv_hashes mint_node) tx \<notin> (\<Union>tx' \<in> set (vtx ?b). spent_hashes tx')"
    using cs(4) sp by (auto simp: list_all_iff n(1))
  have ne: "vtx ?b \<noteq> []" by (simp add: mint_txs_def)
  obtain s3 where "DisconnectBlock tip_view sum_hashes (\<lambda>_. True) 2001 4 3 ?txs undo s' = Inr (True, s3)" "block_abs s3 = block_abs mint_view"
    using ConnectBlock_DisconnectBlock [OF mint_view_ok(1) wf _ n(4,5) o _ n(6) stake ne _ g c inv refl, of "\<lambda>_. True"] cs(2,3) best st
    by (auto simp: n)
  then show ?thesis using c mint_view_ok(2) by metis
qed

section \<open>A block that mints too much\<close>

abbreviation "flood_block \<equiv> mint_block [flood_out] 3000000000000000"

lemma flood_length: "length (write_block False flood_block) \<le> 1000" "length (write_block True flood_block) \<le> 1000"
  by (simp_all add: length_wire mint_txs_def sample_coinbase_def stake_tx_def flood_out_def commitment_header_def CTxWitness_IsNull_def)
    (simp_all add: mint_block_def Let_def stake_block_def)

lemma flood_form: "CheckBlock_form mint_node True flood_block = Inr ()"
  unfolding CheckBlock_form_Inr
proof (intro conjI)
  have n: "nv_hashes mint_node = sum_hashes" by (simp add: mint_node_def sample_node_def)
  show "IsProofOfWork flood_block \<longrightarrow>
      CheckProofOfWork (nv_params mint_node) (limbs_of (CBlock_GetHash (nv_quark mint_node) flood_block)) (bh_nBits flood_block)"
    using mint_block_pos by (simp add: IsProofOfWork_def)
  show "CBlock_GetBlockTime flood_block \<le> GetAdjustedTime mint_node + (if IsProofOfStake flood_block then 180 else 7200)"
    by (simp add: GetAdjustedTime_def mint_node_def sample_node_def)
  have m: "snd (CBlock_BuildMerkleTree sum_hashes flood_block) = False" by code_simp
  have r: "hashMerkleRoot flood_block = fst (CBlock_BuildMerkleTree sum_hashes flood_block)"
    by (simp add: CBlock_BuildMerkleTree_def mint_block_def Let_def)
  show "hashMerkleRoot flood_block = merkle_root (Hash_pair (nv_hashes mint_node)) (map (tx_GetHash (nv_hashes mint_node)) (vtx flood_block))"
    unfolding r by (simp add: CBlock_BuildMerkleTree_def BuildMerkleTree_reference n)
  show "\<not> mutated_tree (Hash_pair (nv_hashes mint_node)) (map (tx_GetHash (nv_hashes mint_node)) (vtx flood_block))"
    using m by (simp add: CBlock_BuildMerkleTree_def BuildMerkleTree_reference n)
  have cb: "IsCoinBase (hd (mint_txs [flood_out] 3000000000000000))" "list_all (\<lambda>tx. \<not> IsCoinBase tx) (tl (mint_txs [flood_out] 3000000000000000))"
    by code_simp+
  show "\<exists>cb txs. vtx flood_block = cb # txs \<and> IsCoinBase cb \<and> (\<forall>tx \<in> set txs. \<not> IsCoinBase tx)"
    using cb by (simp add: mint_txs_def)
  have idx: "GetWitnessCommitmentIndex flood_block \<ge> 0" unfolding GetWitnessCommitmentIndex_def mint_block_simps by code_simp
  have un: "IsUnspendable (scriptPubKey flood_out)" by code_simp
  have sp: "IsSporkActive mint_node SPORK_21_SEGWIT_ON_COINBASE" by code_simp
  have st: "IsCoinStake (hd (tl (mint_txs [flood_out] v)))" for v
    using mint_block_pos [of "[flood_out]" v] by (simp add: IsProofOfStake_def mint_txs_def)
  have "stake_form mint_node flood_block"
    unfolding stake_form_def
  proof (intro exI conjI)
    show "vtx flood_block = hd (mint_txs [flood_out] 3000000000000000) # hd (tl (mint_txs [flood_out] 3000000000000000)) # []" by (simp add: mint_txs_def)
    show "CTxOut_IsEmpty \<lparr>nValue = 0, scriptPubKey = [], nRounds = - 10\<rparr>" by (simp add: CTxOut_IsEmpty_def)
    show "vout (hd (mint_txs [flood_out] 3000000000000000)) = [\<lparr>nValue = 0, scriptPubKey = [], nRounds = - 10\<rparr>] \<and> GetWitnessCommitmentIndex flood_block < 0 \<or>
        (\<exists>commitment. vout (hd (mint_txs [flood_out] 3000000000000000)) = [\<lparr>nValue = 0, scriptPubKey = [], nRounds = - 10\<rparr>, commitment] \<and>
          GetWitnessCommitmentIndex flood_block \<ge> 0 \<and> IsUnspendable (scriptPubKey commitment) \<and> IsSporkActive mint_node SPORK_21_SEGWIT_ON_COINBASE)"
      using idx un sp by (simp add: mint_txs_def)
  qed (use st in simp_all)
  then show "IsProofOfStake flood_block \<longrightarrow> stake_form mint_node flood_block" by simp
qed (use flood_length in \<open>simp_all add: mint_txs_def\<close>)

lemma flood_CheckBlock: "fst (CheckBlock mint_node True flood_block rej) = Inr ()"
proof -
  have sig: "4 * sum_list (map GetLegacySigOpCount (vtx flood_block)) \<le> 20000" unfolding mint_block_simps by code_simp
  have ck: "check_sigops flood_block = Inr ()" using check_sigops_Inr [of flood_block] flood_length(1) sig by linarith
  have lock: "\<not> conflicts_lock mint_node flood_block" by (simp add: conflicts_lock_def mint_node_def sample_node_def list_ex_iff)
  have "height_of mint_node flood_block = 2001"
    by (simp add: height_of_def mint_node_def sample_node_def mint_block_def Let_def stake_block_def)
  moreover have "\<not> IsSporkActive mint_node SPORK_13_ENABLE_SUPERBLOCKS" by code_simp
  ultimately have "IsBlockPayeeValid mint_node flood_block (height_of mint_node flood_block) = Some True"
    by (simp add: IsBlockPayeeValid_def Let_def mint_txs_def) (simp add: mint_node_def sample_node_def mainParams_def)
  then show ?thesis using flood_form ck lock by (simp add: CheckBlock_def)
qed

lemma flood_total:
  assumes "connect_abs sum_hashes h (mint_txs [flood_out] 3000000000000000) (db_abs sample_db) = Some (uss, A')"
  shows "total (outputs A') = 3000000000000000"
proof -
  let ?A = "db_abs sample_db" and ?cb = "hd (mint_txs [flood_out] 3000000000000000)" and ?st = "hd (tl (mint_txs [flood_out] 3000000000000000))"
  have txs: "mint_txs [flood_out] 3000000000000000 = [?cb, ?st]" by (simp add: mint_txs_def)
  obtain us1 A1 us2 where u: "update_abs sum_hashes h ?cb ?A = Some (us1, A1)" "update_abs sum_hashes h ?st A1 = Some (us2, A')"
    using assms by (subst (asm) txs) (auto split: option.splits)
  have hash: "tx_GetHash sum_hashes ?cb \<noteq> 5" "tx_GetHash sum_hashes ?st \<noteq> 5" "tx_GetHash sum_hashes ?st \<noteq> tx_GetHash sum_hashes ?cb"
    by code_simp+
  have out: "has_inputs ?cb = False" "spendable_value ?cb = 0" "spendable_value ?st = 3000000000000000" "has_inputs ?st" by code_simp+
  have len: "length (vout ?cb) \<le> 2 ^ 32" "length (vout ?st) \<le> 2 ^ 32" "vin ?st = [\<lparr>prevout = \<lparr>out_hash = 5, out_n = 0\<rparr>, scriptSig = [], nSequence = - 1, prevPubKey = []\<rparr>]"
    by (simp_all add: mint_txs_def stake_tx_def)
  have new: "?A (tx_GetHash sum_hashes ?cb) = None" "?A (tx_GetHash sum_hashes ?st) = None" using sample_outputs(2) hash by blast+
  have fin: "finite (dom ?A)" unfolding sample_outputs(2) by simp
  have t1: "total (outputs A1) = 7" "finite (dom A1)"
    using total_update [OF u(1) fin new(1) len(1)] out by (auto simp: spent_value_def sample_outputs(3))
  have new2: "A1 (tx_GetHash sum_hashes ?st) = None" by (rule update_abs_other [OF u(1) new(2) hash(3)])
  have "outputs A1 \<lparr>out_hash = 5, out_n = 0\<rparr> = Some \<lparr>nValue = 7, scriptPubKey = [0x51], nRounds = - 10\<rparr>"
    unfolding update_abs_outputs(2) [OF u(1)] using hash(1) out(1) by (simp add: spent_points_def sample_outputs(1))
  then have "spent_value (outputs A1) ?st = 7" using out(4) len(3) by (simp add: spent_value_def)
  then show ?thesis using total_update [OF u(2) t1(2) new2 len(2)] t1(1) out(3) by simp
qed

text \<open>C9: The comparison of the mint with the reward can be bypassed.  The output of a proof of stake coinbase that commits to the witnesses is
  unspendable but may have any value, and no check adds up the values of a block without overflow: with a value of 2^63 - 1 there, the 64-bit sum of
  the outputs turns negative.  The block \<open>flood_block\<close> passes \<open>CheckBlock\<close>, \<open>ContextualCheckBlock\<close> and \<open>ConnectBlock\<close> on a node where
  the spork for commitments in the coinbase is on, and brings the spendable coins from 7 to 30 million coins of 10^8 units each, where
  the reward is one coin.\<close>

theorem overmint_accepted:
  "fst (CheckBlock mint_node True flood_block Map.empty) = Inr () \<and>
   ContextualCheckBlock mint_node CP zc serial flood_block [sample_tip] = Inr () \<and>
   (\<exists>s' undo st'. ConnectBlock mint_node mint_env tip_view False False flood_block mint_view mint_state = (Inr (s', undo), st') \<and>
      total (outputs (block_abs mint_view)) = 7 \<and> total (outputs (block_abs s')) = 30000000 * COIN) \<and>
   GetBlockValue (ce_testnet mint_env) (vUpgrades (nv_params mint_node)) (ix_nHeight sample_tip) = 1 * COIN"
proof (intro conjI)
  show "fst (CheckBlock mint_node True flood_block Map.empty) = Inr ()" by (rule flood_CheckBlock)
  have p: "nv_params mint_node = mainParams" by (simp add: mint_node_def sample_node_def)
  show "GetBlockValue (ce_testnet mint_env) (vUpgrades (nv_params mint_node)) (ix_nHeight sample_tip) = 1 * COIN"
    using mint_reward by (simp add: p mint_env_def sample_tip_def)
  show "ContextualCheckBlock mint_node CP zc serial flood_block [sample_tip] = Inr ()"
  proof (rule ContextualCheckBlock_low [OF refl])
    show "check_witness mint_node flood_block [sample_tip] = Inr ()" by code_simp
    show "GetBlockCost flood_block \<le> MAX_BLOCK_COST"
      using flood_length by (simp add: GetBlockCost_def WITNESS_SCALE_FACTOR_def MAX_BLOCK_COST_def)
    show "\<forall>tx \<in> set (vtx flood_block). nLockTime tx = 0" by (simp add: mint_txs_def sample_coinbase_def stake_tx_def)
    show "\<not> IsSuperMajority (nv_params mint_node) 2 [sample_tip] (EnforceBlockUpgradeMajority (nv_params mint_node))"
      by (simp add: IsSuperMajority_count p mainParams_def)
    show "sint (bh_nVersion flood_block) < Zerocoin_HeaderVersion (nv_params mint_node)"
      by (simp add: p mainParams_def mint_block_def Let_def stake_block_def)
  qed (simp add: p mainParams_def sample_tip_def)
  have w: "wrap64 (- 9220372036854775809 - 7) \<le> COIN" by (simp add: wrap64_def COIN_def)
  obtain s' undo st' where c: "ConnectBlock mint_node mint_env tip_view False False flood_block mint_view mint_state = (Inr (s', undo), st')"
    using mint_run_connects [OF flood_run w, of False] flood_CheckBlock by blast
  have f: "nv_quark mint_node = quark_zero" "nv_hashes mint_node = sum_hashes" "ce_genesis mint_env = 1" "cs_index mint_state = mint_index"
    "fEnforceBIP30 mint_index" "0 \<le> MaxMoneyOut (ce_params mint_env)" "MaxMoneyOut (ce_params mint_env) < 2 ^ 62"
    by (simp_all add: mint_node_def sample_node_def mint_env_def mint_state_def fEnforceBIP30_def mint_index_def COIN_def)
  obtain best view1 k acc where x: "GetBestBlock tip_view mint_view = (best, view1)" "bip30_loop tip_view sum_hashes (vtx flood_block) view1 = Inr k"
      "connect_loop mint_node mint_env tip_view (block_flags mint_node flood_block mint_index)
       (int (CBlockIndex.nHeight (ci_block mint_index)) \<ge> GetTotalBlocksEstimate (ce_checkpointsEnabled mint_env) (ce_checkpoints mint_env))
       (CBlock_GetBlockTime flood_block) (int (CBlockIndex.nHeight (ci_block mint_index))) 0 (vtx flood_block) (connect_acc_new k) = Inr acc"
      "s' = SetBestBlock (phashBlock (ci_block mint_index)) (ca_view acc)"
  proof (rule ConnectBlock_Inr [OF c], unfold f)
    show "CBlock_GetHash quark_zero flood_block \<noteq> 1" by (simp add: quark_zero_hash)
  qed (use that f(5) in \<open>metis (full_types)\<close>)
  have v1: "block_inv view1" "block_abs view1 = db_abs sample_db" using tipv.cache_best [OF mint_view_ok(1) x(1)] mint_view_ok(2) by auto
  have k: "block_inv k" "block_abs k = db_abs sample_db" using tipv.bip30_loop_Inr [OF v1(1) x(2)] v1(2) by auto
  have o: "\<forall>tx \<in> set (vtx flood_block). \<forall>out \<in> set (vout tx). nValue out < 2 ^ 63"
    by (simp add: mint_txs_def flood_out_def)
  obtain uss where "connect_abs sum_hashes (int (CBlockIndex.nHeight (ci_block mint_index))) (mint_txs [flood_out] 3000000000000000) (db_abs sample_db) =
      Some (uss, block_abs (ca_view acc))"
    using tipv.connect_loop_view [OF _ f(6,7) o x(3)] k f(2) by (auto simp: connect_acc_new_def)
  from flood_total [OF this] have "total (outputs (block_abs s')) = 30000000 * COIN" by (simp add: x(4) COIN_def)
  then show "\<exists>s' undo st'. ConnectBlock mint_node mint_env tip_view False False flood_block mint_view mint_state = (Inr (s', undo), st') \<and>
      total (outputs (block_abs mint_view)) = 7 \<and> total (outputs (block_abs s')) = 30000000 * COIN"
    using c mint_view_ok(2) sample_outputs(3) by metis
qed

section \<open>Double spends within a transaction\<close>

definition twice_aborts :: bool where
  "twice_aborts =
     (case bip30_loop tip_view sum_hashes (vtx twice_block) (snd (GetBestBlock tip_view mint_view)) of
        Inl _ \<Rightarrow> False
      | Inr c \<Rightarrow>
          (case connect_loop mint_node mint_env tip_view 0 True 9 2001 0 (vtx twice_block) (connect_acc_new c) of
             Inl e \<Rightarrow> e = Abort | Inr _ \<Rightarrow> False))"

lemma twice_run: "twice_aborts"
  unfolding twice_aborts_def twice_vtx by code_simp

lemma twice_block_simps:
  "CBlock_GetBlockTime twice_block = 9" "IsProofOfStake twice_block" "block_flags mint_node twice_block mint_index = 0"
proof -
  show t: "CBlock_GetBlockTime twice_block = 9" by (simp add: twice_block_def Let_def CBlock_GetBlockTime_def stake_block_def)
  show "IsProofOfStake twice_block" unfolding IsProofOfStake_def twice_vtx by code_simp
  show "block_flags mint_node twice_block mint_index = 0"
    by (simp add: block_flags_def t Let_def mint_index_def mint_node_def sample_node_def mainParams_def IsSuperMajority_count SCRIPT_VERIFY_NONE_def
      GetSporkValue_def spork_defaults_def SPORK_20_SEGWIT_ACTIVATION_def SPORK_21_SEGWIT_ON_COINBASE_def)
qed

lemma mint_node_sporks:
  "\<not> IsSporkActive mint_node SPORK_13_ENABLE_SUPERBLOCKS" "GetSporkValue mint_node SPORK_20_SEGWIT_ACTIVATION \<ge> 5"
  by code_simp+

lemma twice_checks:
  "fst (CheckBlock mint_node True twice_block rej) = Inr ()" "ContextualCheckBlock mint_node CP zc serial twice_block [sample_tip] = Inr ()"
  using CheckBlock_twice ContextualCheckBlock_twice mint_node_sporks unfolding mint_node_def by blast+

lemma twice_connects_not:
  "\<exists>st'. ConnectBlock mint_node mint_env tip_view False False twice_block mint_view mint_state = (Inl Abort, st')"
proof -
  obtain view1 where best: "GetBestBlock tip_view mint_view = (3, view1)" using mint_best by blast
  obtain c where c: "bip30_loop tip_view sum_hashes (vtx twice_block) view1 = Inr c"
      "connect_loop mint_node mint_env tip_view 0 True 9 2001 0 (vtx twice_block) (connect_acc_new c) = Inl Abort"
    using twice_run by (auto simp: twice_aborts_def best split: sum.splits)
  obtain rej where rej: "CheckBlock mint_node (\<not> False) twice_block Map.empty = (Inr (), rej)"
    using twice_checks(1) [of Map.empty] by (cases "CheckBlock mint_node True twice_block Map.empty") simp
  let ?st = "mint_state\<lparr>cs_rejected := rej\<rparr>"
  have idx: "cs_index ?st = mint_index" by (simp add: mint_state_def)
  have f: "GetTotalBlocksEstimate (ce_checkpointsEnabled mint_env) (ce_checkpoints mint_env) \<le> int (CBlockIndex.nHeight (ci_block mint_index))"
    "int (CBlockIndex.nHeight (ci_block mint_index)) = 2001" "nv_hashes mint_node = sum_hashes" "fEnforceBIP30 mint_index"
    by (simp_all add: GetTotalBlocksEstimate_def mint_env_def mint_index_def mint_node_def sample_node_def fEnforceBIP30_def)
  have body: "connect_body mint_node mint_env tip_view False twice_block view1 ?st = (Inl Abort, ?st)"
    using c f by (simp add: connect_body_def idx twice_block_simps Let_def)
  have pos: "\<not> IsProofOfWork twice_block" using twice_block_simps(2) by (simp add: IsProofOfWork_def)
  have g: "cs_rejected mint_state = Map.empty" "cs_index mint_state = mint_index" "ci_ancestors mint_index \<noteq> []" "ci_prevHash mint_index = 3"
    "nv_quark mint_node = quark_zero" "ce_genesis mint_env = 1" "\<not> int (CBlockIndex.nHeight (ci_block mint_index)) \<le> LAST_POW_BLOCK (nv_params mint_node)"
    by (simp_all add: mint_state_def mint_index_def mint_node_def mint_env_def sample_node_def mainParams_def)
  show ?thesis using body pos unfolding ConnectBlock_def g(1) by (simp add: rej [simplified] Let_def g best quark_zero_hash)
qed

text \<open>C8: A transaction that names an output twice among its inputs.  (1) No block other than the genesis block with such a transaction (that is neither
  a coinbase nor a zerocoin spend) is ever connected: for every well formed state of the caches (\<open>block_inv\<close>), node and index, with output values below 2^63 and a maximal
  amount below 2^62, \<open>ConnectBlock\<close> does not succeed.  (2) But the checks that come first do not find it, since \<open>CheckTransaction\<close> is only called
  above the zerocoin start height, which the main network never reaches: \<open>twice_block\<close>, whose coinstake names one output twice, passes
  \<open>CheckBlock\<close> and, whatever \<open>CheckTransaction\<close> would say, \<open>ContextualCheckBlock\<close>; and on a view in which that output is unspent it also
  passes \<open>HaveInputs\<close> and \<open>CheckInputs\<close>, and \<open>ConnectBlock\<close> ends the process with the failed assertion of \<open>UpdateCoins\<close>.\<close>

theorem double_spend_aborts:
  "(\<forall>nv env fJustCheck fAlreadyChecked b s st tx.
      block_inv s \<and> 0 \<le> MaxMoneyOut (ce_params env) \<and> MaxMoneyOut (ce_params env) < 2 ^ 62 \<and>
      (\<forall>tx \<in> set (vtx b). \<forall>out \<in> set (vout tx). nValue out < 2 ^ 63) \<and> CBlock_GetHash (nv_quark nv) b \<noteq> ce_genesis env \<and>
      tx \<in> set (vtx b) \<and> spends_twice tx \<longrightarrow>
      (\<forall>r. fst (ConnectBlock nv env tip_view fJustCheck fAlreadyChecked b s st) \<noteq> Inr r)) \<and>
   (\<exists>tx \<in> set (vtx twice_block). spends_twice tx) \<and>
   fst (CheckBlock mint_node True twice_block rej) = Inr () \<and>
   ContextualCheckBlock mint_node CP zc serial twice_block [sample_tip] = Inr () \<and>
   fst (ConnectBlock mint_node mint_env tip_view False False twice_block mint_view mint_state) = Inl Abort"
proof (intro conjI allI impI)
  show "\<exists>tx \<in> set (vtx twice_block). spends_twice tx"
  proof
    show "spends_twice twice_tx" by code_simp
  qed (simp add: twice_vtx)
  show "fst (ConnectBlock mint_node mint_env tip_view False False twice_block mint_view mint_state) = Inl Abort"
    using twice_connects_not by auto
  fix nv :: node_view and env :: connect_env and fJustCheck fAlreadyChecked and b :: CBlock and s st tx r
  assume a: "block_inv s \<and> 0 \<le> MaxMoneyOut (ce_params env) \<and> MaxMoneyOut (ce_params env) < 2 ^ 62 \<and>
      (\<forall>tx \<in> set (vtx b). \<forall>out \<in> set (vout tx). nValue out < 2 ^ 63) \<and> CBlock_GetHash (nv_quark nv) b \<noteq> ce_genesis env \<and>
      tx \<in> set (vtx b) \<and> spends_twice tx"
  show "fst (ConnectBlock nv env tip_view fJustCheck fAlreadyChecked b s st) \<noteq> Inr r"
  proof
    assume "fst (ConnectBlock nv env tip_view fJustCheck fAlreadyChecked b s st) = Inr r"
    then obtain s' undo st' where c: "ConnectBlock nv env tip_view fJustCheck fAlreadyChecked b s st = (Inr (s', undo), st')"
      by (metis surj_pair fst_conv)
    obtain best view1 k acc where x: "GetBestBlock tip_view s = (best, view1)"
      "(if fEnforceBIP30 (cs_index st) then bip30_loop tip_view (nv_hashes nv) (vtx b) view1 else Inr view1) = Inr k"
      "connect_loop nv env tip_view (block_flags nv b (cs_index st))
       (int (CBlockIndex.nHeight (ci_block (cs_index st))) \<ge> GetTotalBlocksEstimate (ce_checkpointsEnabled env) (ce_checkpoints env))
       (CBlock_GetBlockTime b) (int (CBlockIndex.nHeight (ci_block (cs_index st)))) 0 (vtx b) (connect_acc_new k) = Inr acc"
      using ConnectBlock_Inr [OF c] a by metis
    have v: "block_inv view1" using tipv.cache_best [OF _ x(1)] a by auto
    have k: "block_inv (ca_view (connect_acc_new k))"
      using x(2) v tipv.bip30_loop_Inr [OF v, of "nv_hashes nv" "vtx b" k] by (auto simp: connect_acc_new_def split: if_splits)
    obtain uss where "connect_abs (nv_hashes nv) (int (CBlockIndex.nHeight (ci_block (cs_index st)))) (vtx b) (block_abs (ca_view (connect_acc_new k))) =
        Some (uss, block_abs (ca_view acc))"
      using tipv.connect_loop_view [OF k _ _ _ x(3)] a by blast
    moreover have "tx \<in> set (vtx b)" "spends_twice tx" using a by simp_all
    ultimately show False using connect_abs_twice [of tx "vtx b"] by simp
  qed
qed (rule twice_checks)+

lemma double_spend_aborts_witness:
  "\<exists>tx \<in> set (vtx twice_block). spends_twice tx \<and>
     (\<forall>r. fst (ConnectBlock mint_node mint_env tip_view False True twice_block mint_view mint_state) \<noteq> Inr r)"
proof -
  obtain tx where tx: "tx \<in> set (vtx twice_block)" "spends_twice tx" using double_spend_aborts by blast
  have n: "CBlock_GetHash (nv_quark mint_node) twice_block \<noteq> ce_genesis mint_env" "0 \<le> MaxMoneyOut (ce_params mint_env)"
    "MaxMoneyOut (ce_params mint_env) < 2 ^ 62"
    by (simp_all add: mint_node_def mint_env_def quark_zero_hash COIN_def)
  have o: "\<forall>tx \<in> set (vtx twice_block). \<forall>out \<in> set (vout tx). nValue out < 2 ^ 63"
    by (simp add: twice_vtx twice_tx_def stake_tx_def)
  have "fst (ConnectBlock mint_node mint_env tip_view False True twice_block mint_view mint_state) \<noteq> Inr r" for r
    by (rule double_spend_aborts [THEN conjunct1, rule_format]) (intro conjI mint_view_ok(1) n o, (rule tx)+)
  then show ?thesis using tx by blast
qed

end
