(* ===== verification/Spec2Isabelle.thy ===== *)
theory Spec2Isabelle
  imports TxChecks Compress Reconsider PartialMerkle Solver Pow VersionBits ConnectBlock
begin

text \<open>
  A verification development for the consensus core of Ohmcoin (a Bitcoin/PIVX descendant in C++,
  under src/src).  It models how bytes become transactions, how a transaction input is checked
  against the output it spends, and how the set of unspent outputs changes.

  Parts, in the order of the imports:

  \<^item> \<open>Prelude\<close>: bytes, little endian numbers, bit flags, and the shared simplification collections.
  \<^item> \<open>ScriptNum\<close>: \<open>CScriptNum\<close> (script/script.h), numbers as byte strings.  \<open>serialize\<close>, \<open>set_vch\<close> and
    the checking constructor are functions to and from \<open>int\<close>; \<open>scriptnum_error\<close> is a value.
  \<^item> \<open>Script\<close>: \<open>CScript\<close> (script/script.h, script/script.cpp) as a byte list: pushes, the instruction
    decoder \<open>GetOp2\<close>, \<open>FindAndDelete\<close>, sigop counts and the script templates.
  \<^item> \<open>SigEncoding\<close>: verification flags, error codes, and the format checks of signatures and keys
    (script/interpreter.cpp, eccryptoverify.cpp).
  \<^item> \<open>Interpreter\<close>: \<open>EvalScript\<close>, one definition per group of cases of the opcode switch on a record
    \<open>eval_state\<close> of the local variables of the C++ function (stack, altstack, vfExec, the
    program counter as the remaining script, pbegincodehash, nOpCount).
  \<^item> \<open>InterpreterFacts\<close>: the consensus limits as an invariant of the reachable states, static well
    formedness, push-only scripts, CHECKMULTISIG, and the pay-to-public-key-hash script.
  \<^item> \<open>SoftFork\<close>: what dropping verification flags does to \<open>EvalScript\<close>.
  \<^item> \<open>Serialize\<close>: serialize.h over streams that are byte lists, with the locales \<open>roundtrip\<close> and
    \<open>serializer\<close> that every wire format is an instance of.
  \<^item> \<open>Tx\<close>: transactions and their two wire formats (primitives/transaction.h and .cpp).
  \<^item> \<open>SigHash\<close>: \<open>SignatureHash\<close>, the transaction signature checker (script/interpreter.cpp) and the
    part of \<open>CPubKey\<close> it uses (pubkey.h).
  \<^item> \<open>VerifyScript\<close>: P2SH and witness evaluation, the clean stack rule (script/interpreter.cpp).
  \<^item> \<open>Coins\<close>: \<open>CCoins\<close> (coins.h, coins.cpp), undo records (undo.h) and the undo step of
    \<open>DisconnectBlock\<close> (main.cpp).
  \<^item> \<open>CoinsView\<close>: the write-back caches over the coins database (coins.cpp, txdb.cpp).  The locale
    \<open>coins_view\<close> is the contract of the virtual functions of \<open>CCoinsView\<close>; it is interpreted on the
    database, on a cache over it, and on a second cache over that one.
  \<^item> \<open>UpdateCoins\<close>: \<open>UpdateCoins\<close>, the effect of \<open>ConnectBlock\<close> on the coins, and \<open>DisconnectBlock\<close>
    (main.cpp).
  \<^item> \<open>TxChecks\<close>: \<open>CheckTransaction\<close>, \<open>IsFinalTx\<close>, signature operation counts, \<open>CheckInputs\<close> (main.cpp) and
    the signature cache (script/sigcache.cpp).
  \<^item> \<open>Compress\<close>: the compact formats of the coins database and the undo files (compressor.cpp, coins.h,
    undo.h).
  \<^item> \<open>Chain\<close>: the block index as a heap of \<open>CBlockIndex\<close> objects, its skip list, and the active chain
    \<open>CChain\<close> with forks and locators (chain.h, chain.cpp, main.cpp).
  \<^item> \<open>BestChain\<close>: the choice of the best chain (main.cpp): the record \<open>chain_state\<close> holds mapBlockIndex,
    chainActive, setBlockIndexCandidates, mapBlocksUnlinked, pindexBestInvalid, pindexBestHeader and
    nBlockSequenceId; the functions are \<open>AddToBlockIndex\<close>, \<open>ReceivedBlockTransactions\<close>,
    \<open>FindMostWorkChain\<close>, \<open>ActivateBestChain\<close> with its steps, \<open>InvalidateBlock\<close> and \<open>ReconsiderBlock\<close>.
  \<^item> \<open>ActivateChain\<close>: \<open>ActivateBestChain\<close> ends with the best valid block as the tip, whatever blocks turn
    out to be invalid on the way.  The measure is the number of blocks not marked as failed, then the
    work that the tip still lacks.
  \<^item> \<open>Invalidate\<close>: \<open>InvalidateBlock\<close> excludes exactly the descendants of the block and completes the candidates.
  \<^item> \<open>IndexStates\<close>: the block index as a state machine (headers and data arriving in any order, activations and
    invalidations) and the invariant of its reachable states.
  \<^item> \<open>Reconsider\<close>: \<open>ReconsiderBlock\<close> removes the failure marks again, but forgets candidates.

  \<^item> \<open>Merkle\<close>, \<open>MerkleCompute\<close>, \<open>PartialMerkle\<close>: the tree of a block and its branches (primitives/block.cpp), the constant-space
    computation (consensus/merkle.cpp), and partial trees with their wire format (merkleblock.h, merkleblock.cpp), against the
    recursive tree \<open>merkle_root\<close>; binding and soundness are stated up to collisions among the pairs that were hashed.
  \<^item> \<open>Solver\<close>: the script templates, destinations and their scripts (script/standard.h, script/standard.cpp).
  \<^item> \<open>Block\<close>: block headers and blocks, their wire format and hash, the block signature, and the commitment to the witnesses
    (primitives/block.h, primitives/block.cpp, hash.h, main.cpp).
  \<^item> \<open>Supply\<close>: the unspent set as a map from outpoints to outputs and the sum of its values.
  \<^item> \<open>BlockChecks\<close>: \<open>CheckBlock\<close>, \<open>CheckWork\<close>, \<open>ContextualCheckBlockHeader\<close>, \<open>ContextualCheckBlock\<close> (main.cpp) with sporks,
    checkpoints and the payee check (spork.cpp, checkpoints.cpp, karmanode-payments.cpp).
  \<^item> \<open>ConnectBlock\<close>: \<open>ConnectBlock\<close> and \<open>GetBlockValue\<close> (main.cpp): the transactions of a block one after the other on a coins view, the money
    supply and the mint, undo data and \<open>mapStakeSpent\<close>; connecting and disconnecting, and the bound on the unspent values.
  \<^item> \<open>BigInt\<close>: \<open>base_uint\<close> (uint256.h, uint256.cpp) as lists of 32-bit limbs; \<open>val\<close> is the number of a list.
  \<^item> \<open>Params\<close>: chain parameters, network upgrades and \<open>IsSuperMajority\<close> (chainparams.cpp, consensus/upgrades.cpp, main.cpp).
  \<^item> \<open>Pow\<close>: compact targets (uint256.cpp) and the difficulty rules (pow.cpp).
  \<^item> \<open>VersionBits\<close>: the BIP 9 deployment states with their cache over the block index (versionbits.cpp).

  Interaction: \<open>VerifyScript\<close> runs \<open>EvalScript\<close> with the checker that \<open>SigHash\<close> builds from a
  transaction of \<open>Tx\<close>, whose serialization is the interpretation of the locale in \<open>Serialize\<close>;
  \<open>Coins\<close> spends the outputs of \<open>Tx\<close>.

  Conventions: bytes are \<open>8 word\<close>; C++ integers whose wrap-around matters are words or are wrapped
  explicitly (\<open>wrap64\<close>); the other integers are \<open>int\<close> or \<open>nat\<close>.  A failing operation returns
  \<open>Inl\<close> of the error (script error codes, stream exceptions, script number exceptions), an
  assertion that would abort the process is a result of its own.  Counters of the block index and of
  the Merkle computation are natural numbers whose sums wrap at their width (\<open>nat_u32\<close>, \<open>nat_u256\<close>); heights are not bounded.  Loops are structural or carry a
  termination proof (the script loop: every instruction shortens the remaining script); loops that
  follow pointers or wait for the chain to settle are partial functions whose value is \<open>None\<close> when
  they do not end, and the theorems prove that they end.  No fuel is used anywhere.

  Bounds: the Merkle computation is defined for at most \<open>2 ^ 31\<close> leaves, and that it is not beyond is proved; the invariant of the
  block index holds for fewer than \<open>2 ^ 32\<close> transactions in the index and chain work below \<open>2 ^ 256\<close>; the theorems on values assume a
  maximal amount below \<open>2 ^ 62\<close>, which the parameters of the networks satisfy; coins are stored for heights below \<open>2 ^ 30\<close>.

  Not part of this repository's own code, hence parameters: the hash functions (\<open>hashes\<close>), the
  curve operations of secp256k1, and, for \<open>EvalScript\<close>, the signature checker.  The results of \<open>ConnectBlock\<close> and \<open>DisconnectBlock\<close>
  per block are a parameter of \<open>BestChain\<close> (\<open>block_results\<close>), which separates the choice of the chain from the
  coins: its theorems assume that a block has one result, without system errors or possible corruption (\<open>reliable\<close>).  The two functions
  themselves are modelled on the coins views in \<open>UpdateCoins\<close> and \<open>ConnectBlock\<close>.  Where a theorem
  needs a property of them it is a hypothesis (output length of the hashes) or a conclusion is
  stated about the hash values.

  Not modelled: the network, wallet, RPC, graphical and storage layers, karmanodes and zerocoin
  cryptography, the proof of stake kernel, and the memory pool.
\<close>

end
